(* ===== verification/Fuse_Prelude.thy ===== *)
theory Fuse_Prelude
  imports Main "HOL-Library.Word"
begin

text \<open>
  Shared vocabulary of the development: bytes and flat memory, the C integer types the
  sources use where their wrap-around is visible (\<open>size_t\<close>, \<open>ssize_t\<close>, 32-bit unsigned),
  the errno values the code returns, the outcome of code that may hit an \<open>assert\<close> or call
  \<open>abort()\<close>, and the generic list and memory lemmas the components use.
\<close>

unbundle bit_operations_syntax

type_synonym byte = "8 word"

text \<open>A flat byte-addressed memory; addresses are natural numbers (no wrap-around).\<close>

type_synonym memory = "nat \<Rightarrow> byte"

named_theorems csimps \<open>rewrite rules for the C integer conversions\<close>
named_theorems memsimps \<open>rewrite rules for flat memory\<close>

subsection \<open>C integers\<close>

definition SIZE_MAX :: nat where
  "SIZE_MAX = 2 ^ 64 - 1"

definition sz_add :: "nat \<Rightarrow> nat \<Rightarrow> nat" where
  "sz_add a b = (a + b) mod 2 ^ 64"

definition sz_sub :: "nat \<Rightarrow> nat \<Rightarrow> nat" where
  "sz_sub a b = (a + (2 ^ 64 - b mod 2 ^ 64)) mod 2 ^ 64"

text \<open>Conversion of a \<open>size_t\<close> to the \<open>ssize_t\<close> a function returns.\<close>

definition to_ssize :: "nat \<Rightarrow> int" where
  "to_ssize n = (if n mod 2 ^ 64 < 2 ^ 63 then int (n mod 2 ^ 64) else int (n mod 2 ^ 64) - 2 ^ 64)"

text \<open>32-bit unsigned arithmetic.\<close>

definition u32_add :: "nat \<Rightarrow> nat \<Rightarrow> nat" where
  "u32_add a b = (a + b) mod 2 ^ 32"

definition u32_sub :: "nat \<Rightarrow> nat \<Rightarrow> nat" where
  "u32_sub a b = (a + (2 ^ 32 - b mod 2 ^ 32)) mod 2 ^ 32"

lemma sz_add_small [csimps]: "a + b < 2 ^ 64 \<Longrightarrow> sz_add a b = a + b"
  by (simp add: sz_add_def)

lemma sz_sub_small [csimps]:
  assumes "b \<le> a" and "a < 2 ^ 64"
  shows "sz_sub a b = a - b"
proof -
  have b: "b mod 2 ^ 64 = b" using assms by simp
  have "a + (2 ^ 64 - b) = (a - b) + 2 ^ 64" using assms by simp
  then show ?thesis unfolding sz_sub_def b using assms
    by (simp only: mod_add_self2) simp
qed

lemma sz_add_less: "sz_add a b < 2 ^ 64"
  by (simp add: sz_add_def)

lemma sz_sub_less: "sz_sub a b < 2 ^ 64"
  by (simp add: sz_sub_def)

lemma to_ssize_small [csimps]: "n < 2 ^ 63 \<Longrightarrow> to_ssize n = int n"
  by (simp add: to_ssize_def)

lemma u32_add_small [csimps]: "a + b < 2 ^ 32 \<Longrightarrow> u32_add a b = a + b"
  by (simp add: u32_add_def)

lemma u32_sub_small [csimps]:
  assumes "b \<le> a" and "a < 2 ^ 32"
  shows "u32_sub a b = a - b"
proof -
  have b: "b mod 2 ^ 32 = b" using assms by simp
  have "a + (2 ^ 32 - b) = (a - b) + 2 ^ 32" using assms by simp
  then show ?thesis unfolding u32_sub_def b using assms
    by (simp only: mod_add_self2) simp
qed

definition PAGE_SIZE :: nat where "PAGE_SIZE = 4096"

subsection \<open>Little-endian integers\<close>

fun le_bytes :: "nat \<Rightarrow> nat \<Rightarrow> byte list" where
  "le_bytes 0 v = []"
| "le_bytes (Suc n) v = word_of_nat v # le_bytes n (v div 256)"

fun le_val :: "byte list \<Rightarrow> nat" where
  "le_val [] = 0"
| "le_val (b # bs) = unat b + 256 * le_val bs"

lemma length_le_bytes [simp]: "length (le_bytes n v) = n"
  by (induction n v rule: le_bytes.induct) auto

lemma le_val_bytes: "le_val (le_bytes n v) = v mod 256 ^ n"
proof (induction n v rule: le_bytes.induct)
  case (2 n v)
  have "unat (word_of_nat v :: byte) = v mod 256" by (simp add: unat_of_nat)
  then show ?case using 2 mod_mult2_eq[of v 256 "256 ^ n"] by simp
qed simp

lemma le_val_u64 [simp]: "word_of_nat (le_val (le_bytes 8 (unat w))) = (w :: 64 word)"
proof -
  have "unat w < 256 ^ 8" using unsigned_less[of w] by simp
  then show ?thesis by (simp add: le_val_bytes)
qed

lemma le_val_u32 [simp]: "word_of_nat (le_val (le_bytes 4 (unat w))) = (w :: 32 word)"
proof -
  have "unat w < 256 ^ 4" using unsigned_less[of w] by simp
  then show ?thesis by (simp add: le_val_bytes)
qed

subsection \<open>Errno values\<close>

definition EPERM :: int where [simp]: "EPERM = 1"
definition ENOENT :: int where [simp]: "ENOENT = 2"
definition EINTR :: int where [simp]: "EINTR = 4"
definition EIO :: int where [simp]: "EIO = 5"
definition E2BIG :: int where [simp]: "E2BIG = 7"
definition EAGAIN :: int where [simp]: "EAGAIN = 11"
definition ENOMEM :: int where [simp]: "ENOMEM = 12"
definition EBUSY :: int where [simp]: "EBUSY = 16"
definition ENODEV :: int where [simp]: "ENODEV = 19"
definition EINVAL :: int where [simp]: "EINVAL = 22"
definition ENAMETOOLONG :: int where [simp]: "ENAMETOOLONG = 36"
definition ENOSYS :: int where [simp]: "ENOSYS = 38"
definition EOVERFLOW :: int where [simp]: "EOVERFLOW = 75"
definition ECONNABORTED :: int where [simp]: "ECONNABORTED = 103"
definition ENOTCONN :: int where [simp]: "ENOTCONN = 107"
definition ECONNREFUSED :: int where [simp]: "ECONNREFUSED = 111"
definition ESTALE :: int where [simp]: "ESTALE = 116"

subsection \<open>Code that may abort the process\<close>

text \<open>\<open>Aborted\<close> is a failed \<open>assert\<close> or a call of \<open>abort()\<close>.\<close>

datatype 'a outcome = Aborted | Done 'a

fun obind :: "'a outcome \<Rightarrow> ('a \<Rightarrow> 'b outcome) \<Rightarrow> 'b outcome" where
  "obind Aborted f = Aborted"
| "obind (Done x) f = f x"

lemma obind_Done_iff [simp]: "obind r f = Done y \<longleftrightarrow> (\<exists>x. r = Done x \<and> f x = Done y)"
  by (cases r) auto

lemma obind_cong [fundef_cong]:
  "r = r' \<Longrightarrow> (\<And>x. r' = Done x \<Longrightarrow> f x = f' x) \<Longrightarrow> obind r f = obind r' f'"
  by (cases r') auto

subsection \<open>Options and lists\<close>

lemma option_eqI: "(\<And>x. a = Some x \<longleftrightarrow> b = Some x) \<Longrightarrow> a = b"
  by (cases a; cases b) auto

lemma find_SomeD: "find P xs = Some x \<Longrightarrow> x \<in> set xs \<and> P x"
  by (induction xs) (auto split: if_splits)

lemma nth_subset_concat: "i < length xs \<Longrightarrow> set (xs ! i) \<subseteq> set (concat xs)"
  by (metis UN_upper nth_mem set_concat)

subsection \<open>Flat memory\<close>

definition mem_read :: "memory \<Rightarrow> nat \<Rightarrow> nat \<Rightarrow> byte list" where
  "mem_read m a n = map m [a..<a + n]"

definition mem_write :: "memory \<Rightarrow> nat \<Rightarrow> byte list \<Rightarrow> memory" where
  "mem_write m a bs = (\<lambda>x. if a \<le> x \<and> x < a + length bs then bs ! (x - a) else m x)"

lemma length_mem_read [simp]: "length (mem_read m a n) = n"
  by (simp add: mem_read_def)

lemma mem_read_0 [simp]: "mem_read m a 0 = []"
  by (simp add: mem_read_def)

lemma nth_mem_read [simp]: "i < n \<Longrightarrow> mem_read m a n ! i = m (a + i)"
  by (simp add: mem_read_def)

lemma take_mem_read [memsimps]: "take k (mem_read m a n) = mem_read m a (min k n)"
  by (rule nth_equalityI) auto

lemma drop_mem_read [memsimps]: "drop k (mem_read m a n) = mem_read m (a + k) (n - k)"
  by (rule nth_equalityI) (auto simp: add.assoc)

lemma mem_read_add: "mem_read m a (n + k) = mem_read m a n @ mem_read m (a + n) k"
  by (rule nth_equalityI) (auto simp: nth_append)

lemma mem_write_Nil [simp]: "mem_write m a [] = m"
  by (rule ext) (auto simp: mem_write_def)

lemma mem_read_write_same [memsimps]: "mem_read (mem_write m a bs) a (length bs) = bs"
  by (rule nth_equalityI) (auto simp: mem_write_def)

lemma mem_read_write_disjoint [memsimps]:
  assumes "a + n \<le> b \<or> b + length bs \<le> a"
  shows "mem_read (mem_write m b bs) a n = mem_read m a n"
  using assms by (intro nth_equalityI) (auto simp: mem_write_def)

lemma mem_write_append:
  "mem_write (mem_write m a bs) (a + length bs) cs = mem_write m a (bs @ cs)"
  by (rule ext) (auto simp: mem_write_def nth_append)

end
