(* ===== verification/Fuse_Session.thy ===== *)
theory Fuse_Session
  imports Fuse_Prelude "HOL-Library.Multiset"
begin

text \<open>
  Requests of the low-level library (\<open>lib/fuse_lowlevel.c\<close>, with the channels of \<open>lib/fuse_loop_mt.c\<close>): which requests are
  accepted, the list of requests that the file system works on, interrupts that arrive before, during and after the request they are
  for, and the reference counts of requests and channels.

  Requests and channels are on a heap; an access to a freed one, a count that falls below zero, a failed assert and reading the other
  member of the union are \<open>Aborted\<close>. Each definition is a section under the lock of the session; the interrupt handler drops the lock
  around the call of the interrupt function, so it has three sections. When \<open>malloc\<close> fails for a request or a channel, the
  session stays as it is; these calls are not steps. Messages to the kernel are not part of this theory.
\<close>

text \<open>The union of a request: the id of the interrupted request, or the interrupt function of the file system.\<close>

datatype req_union = Ui "64 word" | Uni "nat option"

record ll_req =
  rq_unique :: "64 word"
  rq_ctr :: nat
  rq_ch :: "nat option"
  rq_interrupted :: bool
  rq_u :: req_union

record ll_session =
  se_reqs :: "nat \<Rightarrow> ll_req option"
  se_list :: "nat list"
  se_interrupts :: "nat list"
  se_chans :: "nat \<Rightarrow> nat option"

subsection \<open>Which requests are accepted\<close>

definition FUSE_READ :: nat where "FUSE_READ = 15"
definition FUSE_WRITE :: nat where "FUSE_WRITE = 16"
definition FUSE_RELEASE :: nat where "FUSE_RELEASE = 18"
definition FUSE_FSYNC :: nat where "FUSE_FSYNC = 20"
definition FUSE_INIT :: nat where "FUSE_INIT = 26"
definition FUSE_READDIR :: nat where "FUSE_READDIR = 28"
definition FUSE_RELEASEDIR :: nat where "FUSE_RELEASEDIR = 29"
definition FUSE_FSYNCDIR :: nat where "FUSE_FSYNCDIR = 30"
definition FUSE_INTERRUPT :: nat where "FUSE_INTERRUPT = 36"
definition FUSE_NOTIFY_REPLY :: nat where "FUSE_NOTIFY_REPLY = 41"
definition FUSE_READDIRPLUS :: nat where "FUSE_READDIRPLUS = 44"
definition CUSE_INIT :: nat where "CUSE_INIT = 4096"
definition FUSE_MAXOP :: nat where "FUSE_MAXOP = CUSE_INIT + 1"
definition EACCES :: int where "EACCES = 13"

lemmas opcode_defs = FUSE_READ_def FUSE_WRITE_def FUSE_RELEASE_def FUSE_FSYNC_def FUSE_INIT_def FUSE_READDIR_def FUSE_RELEASEDIR_def
  FUSE_FSYNCDIR_def FUSE_INTERRUPT_def FUSE_NOTIFY_REPLY_def FUSE_READDIRPLUS_def CUSE_INIT_def FUSE_MAXOP_def

text \<open>The entries of \<open>fuse_ll_ops\<close> that have a function.\<close>

definition fuse_ll_ops :: "nat \<Rightarrow> bool" where
  "fuse_ll_ops op \<longleftrightarrow> op \<in> {1..6} \<union> {8..18} \<union> {20..47} \<or> op = CUSE_INIT"

record ll_conf =
  got_init :: bool
  cuse_data :: bool
  deny_others :: bool
  owner :: nat

definition allowed_to_others :: "nat set" where
  "allowed_to_others = {FUSE_INIT, FUSE_READ, FUSE_WRITE, FUSE_FSYNC, FUSE_RELEASE, FUSE_READDIR, FUSE_FSYNCDIR, FUSE_RELEASEDIR,
     FUSE_NOTIFY_REPLY, FUSE_READDIRPLUS}"

text \<open>The error that \<open>fuse_session_process_buf_int\<close> replies before it dispatches a request, if any.\<close>

definition process_gate :: "ll_conf \<Rightarrow> nat \<Rightarrow> nat \<Rightarrow> int option" where
  "process_gate cf opcode uid =
     (if \<not> got_init cf \<and> opcode \<noteq> (if cuse_data cf then CUSE_INIT else FUSE_INIT) then Some EIO
      else if got_init cf \<and> (opcode = FUSE_INIT \<or> opcode = CUSE_INIT) then Some EIO
      else if deny_others cf \<and> uid \<noteq> owner cf \<and> uid \<noteq> 0 \<and> opcode \<notin> allowed_to_others then Some EACCES
      else if opcode \<ge> FUSE_MAXOP \<or> \<not> fuse_ll_ops opcode then Some ENOSYS
      else None)"

subsection \<open>Channels and requests\<close>

definition fuse_chan_new :: "nat \<Rightarrow> ll_session \<Rightarrow> ll_session" where
  "fuse_chan_new c s = s\<lparr>se_chans := (se_chans s)(c \<mapsto> 1)\<rparr>"

definition fuse_chan_get :: "nat option \<Rightarrow> ll_session \<Rightarrow> ll_session outcome" where
  "fuse_chan_get ch s =
     (case ch of
        None \<Rightarrow> Done s
      | Some c \<Rightarrow> (case se_chans s c of
          None \<Rightarrow> Aborted
        | Some n \<Rightarrow> if n = 0 then Aborted else Done (s\<lparr>se_chans := (se_chans s)(c \<mapsto> n + 1)\<rparr>)))"

definition fuse_chan_put :: "nat option \<Rightarrow> ll_session \<Rightarrow> ll_session outcome" where
  "fuse_chan_put ch s =
     (case ch of
        None \<Rightarrow> Done s
      | Some c \<Rightarrow> (case se_chans s c of
          None \<Rightarrow> Aborted
        | Some n \<Rightarrow> if n = 0 then Aborted
            else Done (s\<lparr>se_chans := (se_chans s)(c := if n - 1 = 0 then None else Some (n - 1))\<rparr>)))"

definition with_req :: "nat \<Rightarrow> ll_session \<Rightarrow> (ll_req \<Rightarrow> 'a outcome) \<Rightarrow> 'a outcome" where
  "with_req r s f = (case se_reqs s r of None \<Rightarrow> Aborted | Some q \<Rightarrow> f q)"

definition upd_req :: "nat \<Rightarrow> ll_req \<Rightarrow> ll_session \<Rightarrow> ll_session" where
  "upd_req r q s = s\<lparr>se_reqs := (se_reqs s)(r \<mapsto> q)\<rparr>"

definition destroy_req :: "nat \<Rightarrow> ll_session \<Rightarrow> ll_session outcome" where
  "destroy_req r s = with_req r s (\<lambda>q. if rq_ch q \<noteq> None then Aborted else Done (s\<lparr>se_reqs := (se_reqs s)(r := None)\<rparr>))"

text \<open>\<open>fuse_chan_put(req->ch); req->ch = NULL\<close>.\<close>

definition drop_chan :: "nat \<Rightarrow> ll_session \<Rightarrow> ll_session outcome" where
  "drop_chan r s = with_req r s (\<lambda>q. obind (fuse_chan_put (rq_ch q) s) (\<lambda>s1. Done (upd_req r (q\<lparr>rq_ch := None\<rparr>) s1)))"

text \<open>\<open>list_del_req\<close> takes the request off whichever list it is on.\<close>

definition list_del_req :: "nat \<Rightarrow> ll_session \<Rightarrow> ll_session" where
  "list_del_req r s = s\<lparr>se_list := remove1 r (se_list s), se_interrupts := remove1 r (se_interrupts s)\<rparr>"

definition fuse_free_req :: "nat \<Rightarrow> ll_session \<Rightarrow> ll_session outcome" where
  "fuse_free_req r s =
     with_req r s (\<lambda>q.
       if rq_ctr q = 0 then Aborted
       else obind (drop_chan r (upd_req r (q\<lparr>rq_u := Uni None, rq_ctr := rq_ctr q - 1\<rparr>) (list_del_req r s)))
         (\<lambda>s1. if rq_ctr q - 1 = 0 then destroy_req r s1 else Done s1))"

definition fuse_ll_alloc_req :: "nat \<Rightarrow> 64 word \<Rightarrow> nat option \<Rightarrow> ll_session \<Rightarrow> ll_session outcome" where
  "fuse_ll_alloc_req r uniq ch s =
     obind (fuse_chan_get ch s) (\<lambda>s1. Done (upd_req r \<lparr>rq_unique = uniq, rq_ctr = 1, rq_ch = ch, rq_interrupted = False, rq_u = Uni None\<rparr> s1))"

subsection \<open>Interrupts\<close>

text \<open>The loops over the lists; each element is read.\<close>

fun find_unique :: "64 word \<Rightarrow> nat list \<Rightarrow> ll_session \<Rightarrow> nat option outcome" where
  "find_unique v [] s = Done None"
| "find_unique v (r # rs) s = with_req r s (\<lambda>q. if rq_unique q = v then Done (Some r) else find_unique v rs s)"

fun find_iunique :: "64 word \<Rightarrow> nat list \<Rightarrow> ll_session \<Rightarrow> nat option outcome" where
  "find_iunique v [] s = Done None"
| "find_iunique v (r # rs) s =
     with_req r s (\<lambda>q. case rq_u q of Uni _ \<Rightarrow> Aborted | Ui w \<Rightarrow> if w = v then Done (Some r) else find_iunique v rs s)"

text \<open>\<open>do_interrupt\<close> up to the point where \<open>find_interrupted\<close> drops the lock. The result is the request that is to be interrupted,
  which now has one more reference; without one, the interrupt is destroyed as a duplicate or queued.\<close>

definition do_interrupt_start :: "nat \<Rightarrow> 64 word \<Rightarrow> ll_session \<Rightarrow> (nat option \<times> ll_session) outcome" where
  "do_interrupt_start r v s =
     with_req r s (\<lambda>q.
       let s0 = upd_req r (q\<lparr>rq_u := Ui v\<rparr>) s in
       obind (find_unique v (se_list s0) s0) (\<lambda>hit.
         case hit of
           Some c \<Rightarrow> with_req c s0 (\<lambda>p. Done (Some c, upd_req c (p\<lparr>rq_ctr := rq_ctr p + 1\<rparr>) s0))
         | None \<Rightarrow> obind (find_iunique v (se_interrupts s0) s0) (\<lambda>dup.
             if dup \<noteq> None then obind (drop_chan r s0) (\<lambda>s1. obind (destroy_req r s1) (\<lambda>s2. Done (None, s2)))
             else Done (None, s0\<lparr>se_interrupts := se_interrupts s0 @ [r]\<rparr>))))"

text \<open>With the lock of the request and of the session: the request is marked; the result is the function to call.\<close>

definition find_interrupted_call :: "nat \<Rightarrow> ll_session \<Rightarrow> (nat option \<times> ll_session) outcome" where
  "find_interrupted_call c s =
     with_req c s (\<lambda>p. case rq_u p of Ui _ \<Rightarrow> Aborted | Uni func \<Rightarrow> Done (func, upd_req c (p\<lparr>rq_interrupted := True\<rparr>) s))"

definition find_interrupted_end :: "nat \<Rightarrow> nat \<Rightarrow> ll_session \<Rightarrow> ll_session outcome" where
  "find_interrupted_end r c s =
     with_req c s (\<lambda>p.
       if rq_ctr p = 0 then Aborted
       else let s1 = upd_req c (p\<lparr>rq_ctr := rq_ctr p - 1\<rparr>) s
            in if rq_ctr p - 1 = 0 then obind (drop_chan r s1) (destroy_req c) else Done s1)"

definition do_interrupt_end :: "nat \<Rightarrow> nat \<Rightarrow> ll_session \<Rightarrow> ll_session outcome" where
  "do_interrupt_end r c s = obind (find_interrupted_end r c s) (\<lambda>s1. obind (drop_chan r s1) (destroy_req r))"

definition check_interrupt :: "nat \<Rightarrow> ll_session \<Rightarrow> (nat option \<times> ll_session) outcome" where
  "check_interrupt r s =
     with_req r s (\<lambda>q. obind (find_iunique (rq_unique q) (se_interrupts s) s) (\<lambda>hit.
       case hit of
         Some c \<Rightarrow> obind (drop_chan c (s\<lparr>se_reqs := (se_reqs s)(r \<mapsto> q\<lparr>rq_interrupted := True\<rparr>), se_interrupts := remove1 c (se_interrupts s)\<rparr>))
                     (\<lambda>s1. obind (destroy_req c s1) (\<lambda>s2. Done (None, s2)))
       | None \<Rightarrow> (case se_interrupts s of
             [] \<Rightarrow> Done (None, s)
           | c # rest \<Rightarrow> Done (Some c, s\<lparr>se_interrupts := rest\<rparr>))))"

text \<open>The section of \<open>fuse_session_process_buf_int\<close> that takes a request that is no interrupt on the list.\<close>

definition process_take :: "nat \<Rightarrow> ll_session \<Rightarrow> (nat option \<times> ll_session) outcome" where
  "process_take r s = obind (check_interrupt r s) (\<lambda>(intr, s1). Done (intr, s1\<lparr>se_list := se_list s1 @ [r]\<rparr>))"

text \<open>\<open>fuse_req_interrupt_func\<close>: the result is the function to call at once.\<close>

definition fuse_req_interrupt_func :: "nat \<Rightarrow> nat option \<Rightarrow> ll_session \<Rightarrow> (nat option \<times> ll_session) outcome" where
  "fuse_req_interrupt_func r func s =
     with_req r s (\<lambda>q. Done (if rq_interrupted q then func else None, upd_req r (q\<lparr>rq_u := Uni func\<rparr>) s))"

definition fuse_req_interrupted :: "nat \<Rightarrow> ll_session \<Rightarrow> bool outcome" where
  "fuse_req_interrupted r s = with_req r s (\<lambda>q. Done (rq_interrupted q))"


subsection \<open>Threads\<close>

text \<open>The session with what its threads hold: the requests the file system works on, queued interrupts that are to be answered
  with \<open>EAGAIN\<close>, interrupts whose function is being called (with the interrupted request, and whether it is marked yet), and the
  references of the worker threads to their channels.\<close>

record ll_sys =
  ls_se :: ll_session
  ls_owned :: "nat list"
  ls_eagain :: "nat list"
  ls_flight :: "(nat \<times> nat \<times> bool) list"
  ls_workers :: "nat \<Rightarrow> nat"

definition s_receive :: "nat \<Rightarrow> 64 word \<Rightarrow> nat option \<Rightarrow> ll_sys \<Rightarrow> ll_sys outcome" where
  "s_receive r uniq ch y =
     obind (fuse_ll_alloc_req r uniq ch (ls_se y)) (\<lambda>s1. obind (process_take r s1) (\<lambda>(intr, s2).
       Done (y\<lparr>ls_se := s2, ls_owned := r # ls_owned y, ls_eagain := (case intr of None \<Rightarrow> ls_eagain y | Some c \<Rightarrow> c # ls_eagain y)\<rparr>)))"

definition s_reject :: "nat \<Rightarrow> 64 word \<Rightarrow> nat option \<Rightarrow> ll_sys \<Rightarrow> ll_sys outcome" where
  "s_reject r uniq ch y =
     obind (fuse_ll_alloc_req r uniq ch (ls_se y)) (\<lambda>s1. obind (fuse_free_req r s1) (\<lambda>s2. Done (y\<lparr>ls_se := s2\<rparr>)))"

definition s_interrupt :: "nat \<Rightarrow> 64 word \<Rightarrow> 64 word \<Rightarrow> nat option \<Rightarrow> ll_sys \<Rightarrow> ll_sys outcome" where
  "s_interrupt r uniq v ch y =
     obind (fuse_ll_alloc_req r uniq ch (ls_se y)) (\<lambda>s1. obind (do_interrupt_start r v s1) (\<lambda>(hit, s2).
       Done (y\<lparr>ls_se := s2, ls_flight := (case hit of None \<Rightarrow> ls_flight y | Some c \<Rightarrow> (r, c, False) # ls_flight y)\<rparr>)))"

definition s_call :: "nat \<Rightarrow> nat \<Rightarrow> ll_sys \<Rightarrow> (nat option \<times> ll_sys) outcome" where
  "s_call r c y = obind (find_interrupted_call c (ls_se y)) (\<lambda>(func, s1).
     Done (func, y\<lparr>ls_se := s1, ls_flight := (r, c, True) # remove1 (r, c, False) (ls_flight y)\<rparr>))"

definition s_end :: "nat \<Rightarrow> nat \<Rightarrow> ll_sys \<Rightarrow> ll_sys outcome" where
  "s_end r c y = obind (do_interrupt_end r c (ls_se y)) (\<lambda>s1. Done (y\<lparr>ls_se := s1, ls_flight := remove1 (r, c, True) (ls_flight y)\<rparr>))"

definition s_eagain :: "nat \<Rightarrow> ll_sys \<Rightarrow> ll_sys outcome" where
  "s_eagain r y = obind (fuse_free_req r (ls_se y)) (\<lambda>s1. Done (y\<lparr>ls_se := s1, ls_eagain := remove1 r (ls_eagain y)\<rparr>))"

definition s_reply :: "nat \<Rightarrow> ll_sys \<Rightarrow> ll_sys outcome" where
  "s_reply r y = obind (fuse_free_req r (ls_se y)) (\<lambda>s1. Done (y\<lparr>ls_se := s1, ls_owned := remove1 r (ls_owned y)\<rparr>))"

definition s_func :: "nat \<Rightarrow> nat option \<Rightarrow> ll_sys \<Rightarrow> (nat option \<times> ll_sys) outcome" where
  "s_func r func y = obind (fuse_req_interrupt_func r func (ls_se y)) (\<lambda>(f, s1). Done (f, y\<lparr>ls_se := s1\<rparr>))"

definition s_worker_start :: "nat \<Rightarrow> ll_sys \<Rightarrow> ll_sys outcome" where
  "s_worker_start c y = Done (y\<lparr>ls_se := fuse_chan_new c (ls_se y), ls_workers := (ls_workers y)(c := 1)\<rparr>)"

definition s_worker_exit :: "nat \<Rightarrow> ll_sys \<Rightarrow> ll_sys outcome" where
  "s_worker_exit c y = obind (fuse_chan_put (Some c) (ls_se y)) (\<lambda>s1. Done (y\<lparr>ls_se := s1, ls_workers := (ls_workers y)(c := ls_workers y c - 1)\<rparr>))"

subsection \<open>Invariant\<close>

text \<open>A request is held by the file system (\<open>H\<close>), is an interrupt (\<open>I\<close>) or is being interrupted (\<open>T\<close>, as often as it is).\<close>

definition req_ok :: "nat multiset \<Rightarrow> nat multiset \<Rightarrow> nat multiset \<Rightarrow> nat \<Rightarrow> ll_req option \<Rightarrow> bool" where
  "req_ok H I T r x \<longleftrightarrow> count H r + count I r \<le> 1 \<and> (r \<in># I \<longrightarrow> r \<notin># T) \<and>
     (case x of None \<Rightarrow> count (H + I + T) r = 0
      | Some q \<Rightarrow> 0 < count (H + I + T) r \<and> rq_ctr q = count (H + I + T) r \<and> (rq_ch q \<noteq> None \<longrightarrow> r \<in># H + I) \<and> ((\<exists>v. rq_u q = Ui v) \<longleftrightarrow> r \<in># I))"

definition chan_refs :: "(nat \<Rightarrow> ll_req option) \<Rightarrow> nat \<Rightarrow> nat" where
  "chan_refs reqs c = card {r. \<exists>q. reqs r = Some q \<and> rq_ch q = Some c}"

definition chans_ok :: "(nat \<Rightarrow> nat) \<Rightarrow> (nat \<Rightarrow> ll_req option) \<Rightarrow> (nat \<Rightarrow> nat option) \<Rightarrow> bool" where
  "chans_ok w reqs ch \<longleftrightarrow> finite (dom reqs) \<and> (\<forall>c. ch c = (if w c + chan_refs reqs c = 0 then None else Some (w c + chan_refs reqs c)))"

definition targets :: "(nat \<times> nat \<times> bool) list \<Rightarrow> nat multiset" where
  "targets fl = mset (map (\<lambda>(r, c, b). c) fl)"

definition irqs :: "nat list \<Rightarrow> nat list \<Rightarrow> (nat \<times> nat \<times> bool) list \<Rightarrow> nat multiset" where
  "irqs ea qu fl = mset ea + mset qu + mset (map fst fl)"

definition se_inv :: "nat multiset \<Rightarrow> nat multiset \<Rightarrow> nat multiset \<Rightarrow> (nat \<Rightarrow> nat) \<Rightarrow> ll_session \<Rightarrow> bool" where
  "se_inv H I T w s \<longleftrightarrow> (\<forall>r. req_ok H I T r (se_reqs s r)) \<and> chans_ok w (se_reqs s) (se_chans s)"

definition ll_inv :: "ll_sys \<Rightarrow> bool" where
  "ll_inv y \<longleftrightarrow> se_inv (mset (ls_owned y)) (irqs (ls_eagain y) (se_interrupts (ls_se y)) (ls_flight y)) (targets (ls_flight y)) (ls_workers y) (ls_se y) \<and>
     mset (se_list (ls_se y)) = mset (ls_owned y)"

lemma chan_refs_upd:
  assumes "finite (dom reqs)"
  shows "chan_refs (reqs(r := x)) c + (case reqs r of Some q \<Rightarrow> (if rq_ch q = Some c then 1 else 0) | None \<Rightarrow> 0) =
    chan_refs reqs c + (case x of Some q \<Rightarrow> (if rq_ch q = Some c then 1 else 0) | None \<Rightarrow> 0)"
proof -
  let ?A = "{r. \<exists>q. reqs r = Some q \<and> rq_ch q = Some c}" and ?B = "{r'. \<exists>q. (reqs(r := x)) r' = Some q \<and> rq_ch q = Some c}"
  have fA: "finite ?A" using assms by (rule finite_subset[rotated]) auto
  have "?B = (if case x of Some q \<Rightarrow> rq_ch q = Some c | None \<Rightarrow> False then insert r (?A - {r}) else ?A - {r})" by (auto split: option.splits)
  moreover have "card (insert r (?A - {r})) = Suc (card (?A - {r}))" using card.insert_remove[OF fA, of r] by simp
  moreover have "card ?A = card (?A - {r}) + (case reqs r of Some q \<Rightarrow> (if rq_ch q = Some c then 1 else 0) | None \<Rightarrow> 0)"
  proof (cases "r \<in> ?A")
    case True
    then show ?thesis using card_Suc_Diff1[OF fA True] by auto
  next
    case False
    then show ?thesis by (auto split: option.splits)
  qed
  ultimately show ?thesis unfolding chan_refs_def by (auto split: option.splits if_splits)
qed

lemma chans_same:
  assumes "chans_ok w reqs ch" and "map_option rq_ch x = map_option rq_ch (reqs r) \<or> (x = None \<or> reqs r = None) \<and>
      (case x of Some q \<Rightarrow> rq_ch q = None | None \<Rightarrow> True) \<and> (case reqs r of Some q \<Rightarrow> rq_ch q = None | None \<Rightarrow> True)"
  shows "chans_ok w (reqs(r := x)) ch"
proof -
  have f: "finite (dom reqs)" using assms(1) by (simp add: chans_ok_def)
  have "chan_refs (reqs(r := x)) c = chan_refs reqs c" for c
    using chan_refs_upd[OF f, of r x c] assms(2) by (auto split: option.splits)
  moreover have "finite (dom (reqs(r := x)))" using f by (cases x) simp_all
  ultimately show ?thesis using assms(1) by (simp add: chans_ok_def)
qed


text \<open>One request changes, with its roles.\<close>

lemma se_inv_upd:
  assumes "se_inv H I T w s" and "\<And>x. x \<noteq> r \<Longrightarrow> count H' x = count H x \<and> count I' x = count I x \<and> count T' x = count T x"
    and "req_ok H' I' T' r x'" and "se_reqs s' = (se_reqs s)(r := x')" and "chans_ok w (se_reqs s') (se_chans s')"
  shows "se_inv H' I' T' w s'"
proof -
  have "req_ok H' I' T' x (se_reqs s' x)" for x
  proof (cases "x = r")
    case False
    have "req_ok H I T x (se_reqs s x)" using assms(1) by (simp add: se_inv_def)
    then show ?thesis using assms(2)[OF False] assms(4) False by (auto simp: req_ok_def count_greater_zero_iff[symmetric] simp del: count_greater_zero_iff split: option.splits)
  qed (use assms(3,4) in simp)
  then show ?thesis using assms(5) by (simp add: se_inv_def)
qed

lemma se_inv_req: "se_inv H I T w s \<Longrightarrow> req_ok H I T r (se_reqs s r)"
  by (simp add: se_inv_def)

lemma se_inv_live: "se_inv H I T w s \<Longrightarrow> r \<in># H + I + T \<Longrightarrow> \<exists>q. se_reqs s r = Some q"
  using se_inv_req[of H I T w s r] by (auto simp: req_ok_def count_eq_zero_iff split: option.splits)

lemma se_inv_chans: "se_inv H I T w s \<Longrightarrow> chans_ok w (se_reqs s) (se_chans s)"
  by (simp add: se_inv_def)

lemma se_inv_cong: "se_inv H I T w s \<Longrightarrow> se_reqs s' = se_reqs s \<Longrightarrow> se_chans s' = se_chans s \<Longrightarrow> se_inv H I T w s'"
  by (simp add: se_inv_def)

lemma drop_chan_done:
  assumes c: "chans_ok w (se_reqs s) (se_chans s)" and q: "se_reqs s r = Some q"
  shows "\<exists>ch. drop_chan r s = Done (s\<lparr>se_chans := ch, se_reqs := (se_reqs s)(r \<mapsto> q\<lparr>rq_ch := None\<rparr>)\<rparr>) \<and> chans_ok w ((se_reqs s)(r \<mapsto> q\<lparr>rq_ch := None\<rparr>)) ch"
proof (cases "rq_ch q")
  case None
  then have "chans_ok w ((se_reqs s)(r \<mapsto> q\<lparr>rq_ch := None\<rparr>)) (se_chans s)" using chans_same[OF c, of "Some (q\<lparr>rq_ch := None\<rparr>)" r] q by simp
  then show ?thesis using None q by (intro exI[of _ "se_chans s"]) (simp add: drop_chan_def with_req_def fuse_chan_put_def upd_req_def)
next
  case (Some d)
  have f: "finite (dom (se_reqs s))" using c by (simp add: chans_ok_def)
  let ?R = "(se_reqs s)(r \<mapsto> q\<lparr>rq_ch := None\<rparr>)"
  have u: "chan_refs ?R e + (if e = d then 1 else 0) = chan_refs (se_reqs s) e" for e
    using chan_refs_upd[OF f, of r "Some (q\<lparr>rq_ch := None\<rparr>)" e] q Some by (auto split: if_splits)
  define n where "n = w d + chan_refs ?R d"
  have ch: "se_chans s d = Some (Suc n)" using c u[of d] by (simp add: chans_ok_def n_def)
  define ch' where "ch' = (se_chans s)(d := if n = 0 then None else Some n)"
  have "chans_ok w ?R ch'" unfolding chans_ok_def
  proof (intro conjI allI)
    show "finite (dom ?R)" using f by simp
    show "ch' e = (if w e + chan_refs ?R e = 0 then None else Some (w e + chan_refs ?R e))" for e
      using c u[of e] by (cases "e = d") (simp_all add: ch'_def n_def chans_ok_def)
  qed
  moreover have "drop_chan r s = Done (s\<lparr>se_chans := ch', se_reqs := ?R\<rparr>)"
    using q Some ch by (simp add: drop_chan_def with_req_def fuse_chan_put_def upd_req_def ch'_def)
  ultimately show ?thesis by blast
qed

lemma alloc_inv:
  assumes inv: "se_inv H I T w s" and r: "se_reqs s r = None" and ch: "\<forall>c. ch = Some c \<longrightarrow> 0 < w c"
  shows "\<exists>s'. fuse_ll_alloc_req r uniq ch s = Done s' \<and> se_inv (add_mset r H) I T w s' \<and> se_list s' = se_list s \<and> se_interrupts s' = se_interrupts s \<and>
    (\<exists>q. se_reqs s' r = Some q \<and> rq_unique q = uniq \<and> \<not> rq_interrupted q) \<and> (\<forall>x. x \<noteq> r \<longrightarrow> se_reqs s' x = se_reqs s x)"
proof -
  let ?q = "\<lparr>rq_unique = uniq, rq_ctr = 1, rq_ch = ch, rq_interrupted = False, rq_u = Uni None\<rparr>"
  let ?R = "(se_reqs s)(r \<mapsto> ?q)"
  have c: "chans_ok w (se_reqs s) (se_chans s)" by (rule se_inv_chans[OF inv])
  then have f: "finite (dom (se_reqs s))" by (simp add: chans_ok_def)
  have u: "chan_refs ?R e = chan_refs (se_reqs s) e + (if ch = Some e then 1 else 0)" for e
    using chan_refs_upd[OF f, of r "Some ?q" e] r by simp
  obtain C where C: "fuse_chan_get ch s = Done (s\<lparr>se_chans := C\<rparr>)" "chans_ok w ?R C"
  proof (cases ch)
    case None
    then show ?thesis using that[of "se_chans s"] c u f by (simp add: fuse_chan_get_def chans_ok_def)
  next
    case (Some d)
    then have wd: "0 < w d" using ch by simp
    then have "se_chans s d = Some (w d + chan_refs (se_reqs s) d)" using c by (simp add: chans_ok_def)
    then show ?thesis using that[of "(se_chans s)(d \<mapsto> w d + chan_refs (se_reqs s) d + 1)"] Some c u f wd
      by (auto simp: fuse_chan_get_def chans_ok_def)
  qed
  have "req_ok H I T r None" using se_inv_req[OF inv, of r] r by simp
  then have "count H r = 0" "count I r = 0" "count T r = 0" unfolding req_ok_def by simp_all
  then have "req_ok (add_mset r H) I T r (Some ?q)" by (simp add: req_ok_def count_eq_zero_iff)
  then have "se_inv (add_mset r H) I T w (s\<lparr>se_chans := C, se_reqs := ?R\<rparr>)" by (rule se_inv_upd[OF inv, rotated]) (use C(2) in simp_all)
  then show ?thesis using C(1) by (simp add: fuse_ll_alloc_req_def upd_req_def)
qed

lemma free_req_inv:
  assumes inv: "se_inv H I T w s" and r: "r \<in># H + I"
  shows "\<exists>s'. fuse_free_req r s = Done s' \<and> se_inv (H - {#r#}) (I - {#r#}) T w s' \<and> se_list s' = remove1 r (se_list s) \<and> se_interrupts s' = remove1 r (se_interrupts s) \<and>
    (\<forall>x. x \<noteq> r \<longrightarrow> se_reqs s' x = se_reqs s x)"
proof -
  obtain q where q: "se_reqs s r = Some q" using se_inv_live[OF inv, of r] r by auto
  have ok: "req_ok H I T r (Some q)" using se_inv_req[OF inv, of r] q by simp
  have "count H r + count I r \<le> 1" using ok by (simp add: req_ok_def)
  moreover have "0 < count H r + count I r" using r by (simp only: count_greater_zero_iff[symmetric] count_union)
  ultimately have one: "count H r + count I r = 1" by linarith
  have ctr: "rq_ctr q = Suc (count T r)" using ok one by (simp add: req_ok_def)
  let ?q = "q\<lparr>rq_u := Uni None, rq_ctr := rq_ctr q - 1\<rparr>"
  let ?s = "upd_req r ?q (list_del_req r s)"
  have "chans_ok w (se_reqs ?s) (se_chans ?s)" using chans_same[OF se_inv_chans[OF inv], of "Some ?q" r] q by (simp add: upd_req_def list_del_req_def)
  moreover have "se_reqs ?s r = Some ?q" by (simp add: upd_req_def)
  ultimately obtain ch where d: "drop_chan r ?s = Done (?s\<lparr>se_chans := ch, se_reqs := (se_reqs ?s)(r \<mapsto> ?q\<lparr>rq_ch := None\<rparr>)\<rparr>)"
    "chans_ok w ((se_reqs ?s)(r \<mapsto> ?q\<lparr>rq_ch := None\<rparr>)) ch" using drop_chan_done by blast
  define s1 where "s1 = ?s\<lparr>se_chans := ch, se_reqs := (se_reqs ?s)(r \<mapsto> ?q\<lparr>rq_ch := None\<rparr>)\<rparr>"
  have nz: "rq_ctr q \<noteq> 0" using ctr by simp
  have free: "fuse_free_req r s = (if rq_ctr q - 1 = 0 then destroy_req r s1 else Done s1)"
    unfolding fuse_free_req_def with_req_def q option.case if_not_P[OF nz] d(1) s1_def obind.simps ..
  have s1: "se_reqs s1 = (se_reqs s)(r \<mapsto> ?q\<lparr>rq_ch := None\<rparr>)" "se_chans s1 = ch" "se_list s1 = remove1 r (se_list s)" "se_interrupts s1 = remove1 r (se_interrupts s)"
    by (simp_all add: s1_def upd_req_def list_del_req_def)
  have c1: "chans_ok w (se_reqs s1) (se_chans s1)" using d(2) s1(2) by (simp add: s1_def)
  have z: "count (H - {#r#}) r = 0" "count (I - {#r#}) r = 0" using one by auto
  then have nin: "r \<notin># H - {#r#}" "r \<notin># I - {#r#}" by (simp_all only: not_in_iff)
  show ?thesis
  proof (cases "count T r = 0")
    case True
    let ?s2 = "s1\<lparr>se_reqs := (se_reqs s1)(r := None)\<rparr>"
    have run: "fuse_free_req r s = Done ?s2" unfolding free using ctr True s1(1) by (simp add: destroy_req_def with_req_def)
    have "chans_ok w (se_reqs ?s2) (se_chans ?s2)" using chans_same[OF c1, of None r] s1(1) by simp
    moreover have "se_reqs ?s2 = (se_reqs s)(r := None)" using s1(1) by simp
    moreover have "req_ok (H - {#r#}) (I - {#r#}) T r None" using True z nin by (simp add: req_ok_def)
    ultimately have "se_inv (H - {#r#}) (I - {#r#}) T w ?s2" by (intro se_inv_upd[OF inv, where r = r and x' = None]) auto
    then show ?thesis using run s1 by simp
  next
    case False
    have run: "fuse_free_req r s = Done s1" unfolding free ctr using False by (simp only: diff_Suc_1 if_False)
    have "req_ok (H - {#r#}) (I - {#r#}) T r (Some (?q\<lparr>rq_ch := None\<rparr>))" using False z nin ctr by (simp add: req_ok_def)
    then have "se_inv (H - {#r#}) (I - {#r#}) T w s1" by (intro se_inv_upd[OF inv _ _ s1(1) c1]) auto
    then show ?thesis using run s1 by simp
  qed
qed


lemma find_unique_done:
  assumes "\<forall>r\<in>set rs. se_reqs s r \<noteq> None"
  shows "\<exists>hit. find_unique v rs s = Done hit \<and> (case hit of None \<Rightarrow> \<forall>r\<in>set rs. \<forall>q. se_reqs s r = Some q \<longrightarrow> rq_unique q \<noteq> v
    | Some r \<Rightarrow> r \<in> set rs \<and> (\<exists>q. se_reqs s r = Some q \<and> rq_unique q = v))"
  using assms
proof (induction rs)
  case (Cons r rs)
  then obtain q where "se_reqs s r = Some q" by auto
  then show ?case using Cons by (cases "rq_unique q = v") (auto simp: with_req_def split: option.splits)
qed simp

lemma find_iunique_done:
  assumes "\<forall>r\<in>set rs. \<exists>q v. se_reqs s r = Some q \<and> rq_u q = Ui v"
  shows "\<exists>hit. find_iunique v rs s = Done hit \<and> (case hit of None \<Rightarrow> \<forall>r\<in>set rs. \<forall>q. se_reqs s r = Some q \<longrightarrow> rq_u q \<noteq> Ui v
    | Some r \<Rightarrow> r \<in> set rs \<and> (\<exists>q. se_reqs s r = Some q \<and> rq_u q = Ui v))"
  using assms
proof (induction rs)
  case (Cons r rs)
  then obtain q x where "se_reqs s r = Some q" "rq_u q = Ui x" by auto
  then show ?case using Cons by (cases "x = v") (auto simp: with_req_def split: option.splits)
qed simp

lemma se_inv_irq:
  assumes "se_inv H I T w s" and "r \<in># I"
  shows "\<exists>q v. se_reqs s r = Some q \<and> rq_u q = Ui v \<and> rq_ctr q = 1" and "r \<notin># H" and "r \<notin># T" and "count I r = 1"
proof -
  have ok: "req_ok H I T r (se_reqs s r)" by (rule se_inv_req[OF assms(1)])
  have pos: "0 < count I r" using assms(2) by (simp only: count_greater_zero_iff)
  have le: "count H r + count I r \<le> 1" using ok by (simp add: req_ok_def)
  show one: "count I r = 1" using le pos by linarith
  have "count H r = 0" using le pos by linarith
  then show H: "r \<notin># H" by (simp only: not_in_iff)
  show T: "r \<notin># T" using ok assms(2) by (simp add: req_ok_def)
  obtain q where q: "se_reqs s r = Some q" using se_inv_live[OF assms(1), of r] assms(2) by auto
  have "count T r = 0" using T by (simp only: not_in_iff)
  then show "\<exists>q v. se_reqs s r = Some q \<and> rq_u q = Ui v \<and> rq_ctr q = 1" using ok q assms(2) one \<open>count H r = 0\<close> by (auto simp: req_ok_def)
qed

text \<open>An interrupt request is dropped.\<close>

lemma drop_irq:
  assumes inv: "se_inv H I T w s" and r: "r \<in># I"
  shows "\<exists>s'. obind (drop_chan r s) (destroy_req r) = Done s' \<and> se_inv H (I - {#r#}) T w s' \<and> se_list s' = se_list s \<and> se_interrupts s' = se_interrupts s \<and>
    (\<forall>x. x \<noteq> r \<longrightarrow> se_reqs s' x = se_reqs s x)"
proof -
  obtain q where q: "se_reqs s r = Some q" using se_inv_irq(1)[OF assms] by blast
  from drop_chan_done[OF se_inv_chans[OF inv] q] obtain ch where
    d: "drop_chan r s = Done (s\<lparr>se_chans := ch, se_reqs := (se_reqs s)(r \<mapsto> q\<lparr>rq_ch := None\<rparr>)\<rparr>)" "chans_ok w ((se_reqs s)(r \<mapsto> q\<lparr>rq_ch := None\<rparr>)) ch" by blast
  let ?s = "s\<lparr>se_chans := ch, se_reqs := (se_reqs s)(r := None)\<rparr>"
  have run: "obind (drop_chan r s) (destroy_req r) = Done ?s" using d(1) by (simp add: destroy_req_def with_req_def)
  have c: "chans_ok w (se_reqs ?s) (se_chans ?s)" using chans_same[OF d(2), of None r] by simp
  have "count (I - {#r#}) r = 0" "count H r = 0" "count T r = 0" using se_inv_irq(2-4)[OF assms] by (simp_all add: not_in_iff)
  moreover from this(1) have "r \<notin># I - {#r#}" by (simp only: not_in_iff)
  ultimately have "req_ok H (I - {#r#}) T r None" by (simp add: req_ok_def)
  then have "se_inv H (I - {#r#}) T w ?s" by (intro se_inv_upd[OF inv, where r = r and x' = None] c) simp_all
  then show ?thesis using run by (intro exI[of _ ?s]) (simp del: obind_Done_iff)
qed

text \<open>A change that keeps count, channel and kind of a request.\<close>

lemma se_inv_mark:
  assumes inv: "se_inv H I T w s" and q: "se_reqs s r = Some q" and "rq_ctr q' = rq_ctr q" and "rq_ch q' = rq_ch q" and "(\<exists>v. rq_u q' = Ui v) \<longleftrightarrow> (\<exists>v. rq_u q = Ui v)"
  shows "se_inv H I T w (upd_req r q' s)"
proof -
  have "req_ok H I T r (Some q)" using se_inv_req[OF inv, of r] q by simp
  then have "req_ok H I T r (Some q')" using assms(3-5) by (simp add: req_ok_def)
  moreover have "chans_ok w (se_reqs (upd_req r q' s)) (se_chans (upd_req r q' s))"
    using chans_same[OF se_inv_chans[OF inv], of "Some q'" r] q assms(4) by (simp add: upd_req_def)
  ultimately show ?thesis by (intro se_inv_upd[OF inv, where r = r and x' = "Some q'"]) (simp_all add: upd_req_def)
qed


subsection \<open>Each section keeps the invariant\<close>

lemma obind_assoc: "obind (obind a f) g = obind a (\<lambda>x. obind (f x) g)"
  by (cases a) simp_all

lemma se_inv_held:
  assumes "se_inv H I T w s" and "r \<in># H"
  shows "\<exists>q. se_reqs s r = Some q \<and> (\<nexists>v. rq_u q = Ui v)" and "r \<notin># I" and "count H r = 1"
proof -
  have ok: "req_ok H I T r (se_reqs s r)" by (rule se_inv_req[OF assms(1)])
  have pos: "0 < count H r" using assms(2) by (simp only: count_greater_zero_iff)
  have le: "count H r + count I r \<le> 1" using ok by (simp add: req_ok_def)
  show "count H r = 1" using le pos by linarith
  have "count I r = 0" using le pos by linarith
  then show I: "r \<notin># I" by (simp only: not_in_iff)
  obtain q where q: "se_reqs s r = Some q" using se_inv_live[OF assms(1), of r] assms(2) by auto
  then show "\<exists>q. se_reqs s r = Some q \<and> (\<nexists>v. rq_u q = Ui v)" using ok I by (auto simp: req_ok_def)
qed

lemma queued_irqs:
  assumes "se_inv H I T w s" and "mset is \<subseteq># I"
  shows "\<forall>r\<in>set is. \<exists>q v. se_reqs s r = Some q \<and> rq_u q = Ui v"
proof
  fix r assume "r \<in> set is"
  then have "r \<in># I" using assms(2) by (metis mset_subset_eqD set_mset_mset)
  then show "\<exists>q v. se_reqs s r = Some q \<and> rq_u q = Ui v" using se_inv_irq(1)[OF assms(1)] by blast
qed

lemma take_inv:
  assumes inv: "se_inv H I T w s" and r: "r \<in># H" and qu: "mset (se_interrupts s) \<subseteq># I" and q: "se_reqs s r = Some q"
  shows "\<exists>intr s'. process_take r s = Done (intr, s') \<and> se_list s' = se_list s @ [r] \<and>
    ((\<exists>c p. c \<in> set (se_interrupts s) \<and> se_reqs s c = Some p \<and> rq_u p = Ui (rq_unique q) \<and> intr = None \<and>
        se_interrupts s' = remove1 c (se_interrupts s) \<and> se_inv H (I - {#c#}) T w s' \<and> se_reqs s' r = Some (q\<lparr>rq_interrupted := True\<rparr>)) \<or>
     (\<forall>c\<in>set (se_interrupts s). \<forall>p. se_reqs s c = Some p \<longrightarrow> rq_u p \<noteq> Ui (rq_unique q)) \<and> se_interrupts s' = tl (se_interrupts s) \<and>
        intr = (case se_interrupts s of [] \<Rightarrow> None | c # _ \<Rightarrow> Some c) \<and> se_inv H I T w s' \<and> se_reqs s' r = Some q)"
proof -
  obtain hit where hit: "find_iunique (rq_unique q) (se_interrupts s) s = Done hit" "case hit of
      None \<Rightarrow> \<forall>r\<in>set (se_interrupts s). \<forall>p. se_reqs s r = Some p \<longrightarrow> rq_u p \<noteq> Ui (rq_unique q)
    | Some c \<Rightarrow> c \<in> set (se_interrupts s) \<and> (\<exists>p. se_reqs s c = Some p \<and> rq_u p = Ui (rq_unique q))"
    using find_iunique_done[OF queued_irqs[OF inv qu]] by blast
  show ?thesis
  proof (cases hit)
    case None
    let ?s = "s\<lparr>se_interrupts := tl (se_interrupts s), se_list := se_list s @ [r]\<rparr>"
    have "process_take r s = Done (case se_interrupts s of [] \<Rightarrow> None | c # _ \<Rightarrow> Some c, ?s)"
      using hit(1) None q by (cases "se_interrupts s") (simp_all add: process_take_def check_interrupt_def with_req_def)
    moreover have "se_inv H I T w ?s" by (rule se_inv_cong[OF inv]) simp_all
    ultimately show ?thesis using hit(2) None q by auto
  next
    case (Some c)
    then have c: "c \<in> set (se_interrupts s)" "c \<in># I" and p: "\<exists>p. se_reqs s c = Some p \<and> rq_u p = Ui (rq_unique q)"
      using hit(2) qu by (auto dest: mset_subset_eqD)
    let ?s0 = "s\<lparr>se_reqs := (se_reqs s)(r \<mapsto> q\<lparr>rq_interrupted := True\<rparr>), se_interrupts := remove1 c (se_interrupts s)\<rparr>"
    have "se_inv H I T w (upd_req r (q\<lparr>rq_interrupted := True\<rparr>) s)" by (rule se_inv_mark[OF inv q]) simp_all
    then have "se_inv H I T w ?s0" by (rule se_inv_cong) (simp_all add: upd_req_def)
    from drop_irq[OF this c(2)] obtain s' where s': "obind (drop_chan c ?s0) (destroy_req c) = Done s'" "se_inv H (I - {#c#}) T w s'"
      "se_list s' = se_list s" "se_interrupts s' = remove1 c (se_interrupts s)" "\<forall>x. x \<noteq> c \<longrightarrow> se_reqs s' x = se_reqs ?s0 x" by auto
    have "r \<noteq> c" using se_inv_held(2)[OF inv r] c(2) by auto
    then have "se_reqs s' r = Some (q\<lparr>rq_interrupted := True\<rparr>)" using s'(5) by simp
    moreover have "process_take r s = obind (obind (drop_chan c ?s0) (destroy_req c)) (\<lambda>s2. Done (None, s2\<lparr>se_list := se_list s2 @ [r]\<rparr>))"
      using hit(1) Some q by (simp add: process_take_def check_interrupt_def with_req_def obind_assoc del: obind_Done_iff)
    then have "process_take r s = Done (None, s'\<lparr>se_list := se_list s @ [r]\<rparr>)" using s'(1,3) by (simp del: obind_Done_iff)
    moreover have "se_inv H (I - {#c#}) T w (s'\<lparr>se_list := se_list s @ [r]\<rparr>)" by (rule se_inv_cong[OF s'(2)]) simp_all
    ultimately show ?thesis using c(1) p s'(4) by auto
  qed
qed


text \<open>An accepted \<open>INTERRUPT\<close> request \<open>r\<close> becomes an interrupt.\<close>

lemma to_irq:
  assumes inv: "se_inv (add_mset r H) I T w s" and q: "se_reqs s r = Some q" and T: "r \<notin># T"
  shows "se_inv H (add_mset r I) T w (upd_req r (q\<lparr>rq_u := Ui v\<rparr>) s)" and "r \<notin># H" and "r \<notin># I"
proof -
  have ok: "req_ok (add_mset r H) I T r (Some q)" using se_inv_req[OF inv, of r] q by simp
  then have c: "count H r = 0" "count I r = 0" by (auto simp: req_ok_def)
  then show "r \<notin># H" "r \<notin># I" by (simp_all only: not_in_iff)
  have "req_ok H (add_mset r I) T r (Some (q\<lparr>rq_u := Ui v\<rparr>))" using ok T c by (auto simp: req_ok_def)
  moreover have "chans_ok w (se_reqs (upd_req r (q\<lparr>rq_u := Ui v\<rparr>) s)) (se_chans (upd_req r (q\<lparr>rq_u := Ui v\<rparr>) s))"
    using chans_same[OF se_inv_chans[OF inv], of "Some (q\<lparr>rq_u := Ui v\<rparr>)" r] q by (simp add: upd_req_def)
  ultimately show "se_inv H (add_mset r I) T w (upd_req r (q\<lparr>rq_u := Ui v\<rparr>) s)"
    by (intro se_inv_upd[OF inv, where r = r and x' = "Some (q\<lparr>rq_u := Ui v\<rparr>)"]) (simp_all add: upd_req_def)
qed

text \<open>A request gets one more reference, from an interrupt that is being delivered.\<close>

lemma add_target:
  assumes inv: "se_inv H I T w s" and c: "c \<in># H" and p: "se_reqs s c = Some p"
  shows "se_inv H I (add_mset c T) w (upd_req c (p\<lparr>rq_ctr := rq_ctr p + 1\<rparr>) s)"
proof -
  let ?p = "p\<lparr>rq_ctr := rq_ctr p + 1\<rparr>"
  have "req_ok H I T c (Some p)" using se_inv_req[OF inv, of c] p by simp
  then have "req_ok H I (add_mset c T) c (Some ?p)" using se_inv_held(2)[OF inv c] by (simp add: req_ok_def)
  moreover have "chans_ok w (se_reqs (upd_req c ?p s)) (se_chans (upd_req c ?p s))"
    using chans_same[OF se_inv_chans[OF inv], of "Some ?p" c] p by (simp add: upd_req_def)
  ultimately show ?thesis by (intro se_inv_upd[OF inv, where r = c and x' = "Some ?p"]) (simp_all add: upd_req_def)
qed

lemma irq_start_inv:
  assumes inv: "se_inv (add_mset r H) I T w s" and q: "se_reqs s r = Some q" and T: "r \<notin># T" and li: "mset (se_list s) = H" and qu: "mset (se_interrupts s) \<subseteq># I"
  shows "\<exists>hit s'. do_interrupt_start r v s = Done (hit, s') \<and> se_list s' = se_list s \<and>
    ((\<exists>c p. hit = Some c \<and> c \<in># H \<and> se_reqs s c = Some p \<and> rq_unique p = v \<and> se_interrupts s' = se_interrupts s \<and> se_inv H (add_mset r I) (add_mset c T) w s' \<and>
        se_reqs s' c = Some (p\<lparr>rq_ctr := rq_ctr p + 1\<rparr>)) \<or>
     hit = None \<and> (\<forall>c\<in>#H. \<forall>p. se_reqs s c = Some p \<longrightarrow> rq_unique p \<noteq> v) \<and>
       (se_interrupts s' = se_interrupts s \<and> se_inv H I T w s' \<and> (\<exists>d\<in>set (se_interrupts s'). \<exists>p. se_reqs s' d = Some p \<and> rq_u p = Ui v) \<or>
        se_interrupts s' = se_interrupts s @ [r] \<and> se_inv H (add_mset r I) T w s' \<and> (\<exists>p. se_reqs s' r = Some p \<and> rq_u p = Ui v)))"
proof -
  let ?s0 = "upd_req r (q\<lparr>rq_u := Ui v\<rparr>) s"
  note inv0 = to_irq(1)[OF inv q T, of v] and rH = to_irq(2)[OF inv q T] and rI = to_irq(3)[OF inv q T]
  have s0: "se_list ?s0 = se_list s" "se_interrupts ?s0 = se_interrupts s" "\<And>x. x \<noteq> r \<Longrightarrow> se_reqs ?s0 x = se_reqs s x" by (simp_all add: upd_req_def)
  have sl: "set (se_list s) = set_mset H" using li by (metis set_mset_mset)
  have "\<forall>x\<in>set (se_list s). se_reqs ?s0 x \<noteq> None"
  proof
    fix x assume "x \<in> set (se_list s)"
    then show "se_reqs ?s0 x \<noteq> None" using se_inv_held(1)[OF inv0, of x] sl by auto
  qed
  from find_unique_done[OF this, of v] obtain hit where hit: "find_unique v (se_list s) ?s0 = Done hit"
    "case hit of None \<Rightarrow> \<forall>x\<in>set (se_list s). \<forall>q. se_reqs ?s0 x = Some q \<longrightarrow> rq_unique q \<noteq> v
     | Some x \<Rightarrow> x \<in> set (se_list s) \<and> (\<exists>q. se_reqs ?s0 x = Some q \<and> rq_unique q = v)" by blast
  show ?thesis
  proof (cases hit)
    case (Some c)
    with hit(2) sl obtain p where c: "c \<in># H" and p: "se_reqs ?s0 c = Some p" "rq_unique p = v" by auto
    have "c \<noteq> r" using c rH by auto
    then have ps: "se_reqs s c = Some p" using p(1) s0(3) by simp
    have "do_interrupt_start r v s = Done (Some c, upd_req c (p\<lparr>rq_ctr := rq_ctr p + 1\<rparr>) ?s0)"
      using q hit(1) Some p(1) s0(1) by (simp add: do_interrupt_start_def with_req_def Let_def)
    moreover note add_target[OF inv0 c p(1)]
    ultimately show ?thesis using c p(2) ps by (simp add: upd_req_def)
  next
    case None
    have n: "\<forall>c\<in>#H. \<forall>p. se_reqs s c = Some p \<longrightarrow> rq_unique p \<noteq> v"
    proof (intro ballI allI impI)
      fix c p assume "c \<in># H" and "se_reqs s c = Some p"
      then show "rq_unique p \<noteq> v" using hit(2) None sl s0(3)[of c] rH by auto
    qed
    have "mset (se_interrupts s) \<subseteq># add_mset r I" using qu by (metis add_mset_add_single mset_subset_eq_add_left subset_mset.order_trans)
    from find_iunique_done[OF queued_irqs[OF inv0 this], of v] obtain dup where dup: "find_iunique v (se_interrupts s) ?s0 = Done dup"
      "case dup of None \<Rightarrow> True | Some d \<Rightarrow> d \<in> set (se_interrupts s) \<and> (\<exists>p. se_reqs ?s0 d = Some p \<and> rq_u p = Ui v)"
      by (auto split: option.splits)
    have run: "do_interrupt_start r v s = (if dup \<noteq> None then obind (obind (drop_chan r ?s0) (destroy_req r)) (\<lambda>s2. Done (None, s2))
        else Done (None, ?s0\<lparr>se_interrupts := se_interrupts ?s0 @ [r]\<rparr>))"
      using q hit(1) None dup(1) s0(1,2) by (simp add: do_interrupt_start_def with_req_def Let_def obind_assoc del: obind_Done_iff)
    show ?thesis
    proof (cases dup)
      case None
      moreover have "se_inv H (add_mset r I) T w (?s0\<lparr>se_interrupts := se_interrupts ?s0 @ [r]\<rparr>)" by (rule se_inv_cong[OF inv0]) simp_all
      ultimately show ?thesis using run n by (simp add: upd_req_def)
    next
      case (Some d)
      have "r \<in># add_mset r I" by simp
      from drop_irq[OF inv0 this] obtain s' where s': "obind (drop_chan r ?s0) (destroy_req r) = Done s'" "se_inv H I T w s'" "se_list s' = se_list s"
        "se_interrupts s' = se_interrupts s" "\<forall>x. x \<noteq> r \<longrightarrow> se_reqs s' x = se_reqs ?s0 x" using s0 by auto
      have d: "d \<in> set (se_interrupts s)" "\<exists>p. se_reqs ?s0 d = Some p \<and> rq_u p = Ui v" using dup(2) Some by auto
      then have "d \<noteq> r" using rI qu by (metis mset_subset_eqD set_mset_mset)
      then have "\<exists>p. se_reqs s' d = Some p \<and> rq_u p = Ui v" using s'(5) d(2) by simp
      moreover have "do_interrupt_start r v s = Done (None, s')" using run Some s'(1) by (simp del: obind_Done_iff)
      ultimately show ?thesis using n s'(2-4) d(1) by auto
    qed
  qed
qed

lemma call_inv:
  assumes inv: "se_inv H I T w s" and c: "c \<in># T"
  shows "\<exists>p func s'. se_reqs s c = Some p \<and> rq_u p = Uni func \<and> find_interrupted_call c s = Done (func, s') \<and> s' = upd_req c (p\<lparr>rq_interrupted := True\<rparr>) s \<and> se_inv H I T w s'"
proof -
  obtain p where p: "se_reqs s c = Some p" using se_inv_live[OF inv, of c] c by auto
  have "req_ok H I T c (Some p)" using se_inv_req[OF inv, of c] p by simp
  then have "\<nexists>v. rq_u p = Ui v" using c by (auto simp: req_ok_def)
  then obtain func where u: "rq_u p = Uni func" by (cases "rq_u p") auto
  have "se_inv H I T w (upd_req c (p\<lparr>rq_interrupted := True\<rparr>) s)" by (rule se_inv_mark[OF inv p]) simp_all
  then show ?thesis using p u by (simp add: find_interrupted_call_def with_req_def)
qed


lemma target_end:
  assumes inv: "se_inv H I T w s" and c: "c \<in># T" and r: "r \<in># I"
  shows "\<exists>s'. find_interrupted_end r c s = Done s' \<and> se_inv H I (T - {#c#}) w s' \<and> se_list s' = se_list s \<and> se_interrupts s' = se_interrupts s"
proof -
  obtain p where p: "se_reqs s c = Some p" using se_inv_live[OF inv, of c] c by auto
  obtain q v where q: "se_reqs s r = Some q" "rq_u q = Ui v" "rq_ctr q = 1" using se_inv_irq(1)[OF inv r] by blast
  have rc: "r \<noteq> c" using se_inv_irq(3)[OF inv r] c by auto
  have ok: "req_ok H I T c (Some p)" using se_inv_req[OF inv, of c] p by simp
  then have cI: "c \<notin># I" using c by (auto simp: req_ok_def)
  define T' where "T' = T - {#c#}"
  have Tc: "count T c = Suc (count T' c)" using c unfolding T'_def by (metis count_add_mset insert_DiffM)
  have Tx: "count T' x = count T x" if "x \<noteq> c" for x using that by (simp add: T'_def)
  let ?p = "p\<lparr>rq_ctr := rq_ctr p - 1\<rparr>"
  let ?s1 = "upd_req c ?p s"
  have ch1: "chans_ok w (se_reqs ?s1) (se_chans ?s1)" using chans_same[OF se_inv_chans[OF inv], of "Some ?p" c] p by (simp add: upd_req_def)
  have "rq_ctr p = count H c + count I c + count T c" and cI0: "count I c = 0" using ok cI by (simp_all add: req_ok_def not_in_iff[symmetric])
  with cI0 have ctr: "rq_ctr p = Suc (count H c + count T' c)" using Tc by linarith
  show ?thesis
  proof (cases "count H c + count T' c = 0")
    case False
    have "req_ok H I T' c (Some ?p)" using ok False ctr cI cI0 by (simp add: req_ok_def)
    then have "se_inv H I T' w ?s1" by (intro se_inv_upd[OF inv, where r = c and x' = "Some ?p"] ch1) (simp_all add: upd_req_def Tx)
    moreover have "find_interrupted_end r c s = Done ?s1" unfolding find_interrupted_end_def with_req_def p option.case ctr Let_def diff_Suc_1
      using False by (simp only: nat.distinct if_False)
    ultimately show ?thesis by (simp add: upd_req_def T'_def)
  next
    case True
    then have "count H c = 0" by linarith
    then have "c \<notin># H" by (simp only: not_in_iff)
    then have chn: "rq_ch p = None" using ok cI by (simp add: req_ok_def)
    let ?q = "q\<lparr>rq_ch := None\<rparr>"
    have r1: "se_reqs ?s1 r = Some q" using q rc by (simp add: upd_req_def)
    from drop_chan_done[OF ch1 r1] obtain ch where d: "drop_chan r ?s1 = Done (?s1\<lparr>se_chans := ch, se_reqs := (se_reqs ?s1)(r \<mapsto> ?q)\<rparr>)"
      "chans_ok w ((se_reqs ?s1)(r \<mapsto> ?q)) ch" by blast
    let ?s2 = "?s1\<lparr>se_chans := ch, se_reqs := (se_reqs ?s1)(r \<mapsto> ?q, c := None)\<rparr>"
    have dq: "destroy_req c (?s1\<lparr>se_chans := ch, se_reqs := (se_reqs ?s1)(r \<mapsto> ?q)\<rparr>) = Done ?s2"
      using rc chn by (simp add: destroy_req_def with_req_def upd_req_def)
    have run: "find_interrupted_end r c s = Done ?s2"
      using p ctr True d(1) dq by (simp add: find_interrupted_end_def with_req_def Let_def del: obind_Done_iff)
    have ch2: "chans_ok w (se_reqs ?s2) (se_chans ?s2)" using chans_same[OF d(2), of None c] rc chn by (simp add: upd_req_def)
    let ?sa = "s\<lparr>se_reqs := (se_reqs s)(c := None)\<rparr>"
    have "req_ok H I T' c None" using True cI cI0 by (simp add: req_ok_def)
    moreover have "chans_ok w (se_reqs ?sa) (se_chans ?sa)" using chans_same[OF se_inv_chans[OF inv], of None c] p chn by simp
    ultimately have inva: "se_inv H I T' w ?sa" by (intro se_inv_upd[OF inv, where r = c and x' = None]) (simp_all add: Tx)
    have "req_ok H I T' r (Some q)" using se_inv_req[OF inva, of r] q rc by simp
    then have "req_ok H I T' r (Some ?q)" by (simp add: req_ok_def)
    then have "se_inv H I T' w ?s2" by (intro se_inv_upd[OF inva, where r = r and x' = "Some ?q"] ch2) (use rc in \<open>simp_all add: upd_req_def fun_upd_twist\<close>)
    then show ?thesis using run by (simp add: upd_req_def T'_def)
  qed
qed

lemma end_inv:
  assumes inv: "se_inv H I T w s" and c: "c \<in># T" and r: "r \<in># I"
  shows "\<exists>s'. do_interrupt_end r c s = Done s' \<and> se_inv H (I - {#r#}) (T - {#c#}) w s' \<and> se_list s' = se_list s \<and> se_interrupts s' = se_interrupts s"
proof -
  obtain s1 where s1: "find_interrupted_end r c s = Done s1" "se_inv H I (T - {#c#}) w s1" "se_list s1 = se_list s" "se_interrupts s1 = se_interrupts s"
    using target_end[OF assms] by blast
  from drop_irq[OF s1(2) r] obtain s2 where "obind (drop_chan r s1) (destroy_req r) = Done s2" "se_inv H (I - {#r#}) (T - {#c#}) w s2"
    "se_list s2 = se_list s1" "se_interrupts s2 = se_interrupts s1" by blast
  then show ?thesis using s1 by (intro exI[of _ s2]) (simp add: do_interrupt_end_def del: obind_Done_iff)
qed

lemma chan_put_inv:
  assumes inv: "se_inv H I T w s" and c: "0 < w c"
  shows "\<exists>s'. fuse_chan_put (Some c) s = Done s' \<and> se_inv H I T (w(c := w c - 1)) s' \<and> se_list s' = se_list s \<and> se_interrupts s' = se_interrupts s"
proof -
  have ch: "se_chans s c = Some (w c + chan_refs (se_reqs s) c)" using se_inv_chans[OF inv] c by (simp add: chans_ok_def)
  then show ?thesis using inv c by (auto simp: fuse_chan_put_def se_inv_def chans_ok_def)
qed

subsection \<open>The session as a step relation\<close>

text \<open>The step relation: a message arrives (a request that is dispatched, one that is answered with an error at once, an
  \<open>INTERRUPT\<close>), the two later sections of an interrupt, the reply to a queued interrupt, a reply of the file system,
  registering an interrupt function, and the start and exit of a worker thread.\<close>

inductive ll_step :: "ll_sys \<Rightarrow> ll_sys outcome \<Rightarrow> bool" where
  receive: "se_reqs (ls_se y) r = None \<Longrightarrow> \<forall>c. ch = Some c \<longrightarrow> 0 < ls_workers y c \<Longrightarrow> ll_step y (s_receive r uniq ch y)"
| reject: "se_reqs (ls_se y) r = None \<Longrightarrow> \<forall>c. ch = Some c \<longrightarrow> 0 < ls_workers y c \<Longrightarrow> ll_step y (s_reject r uniq ch y)"
| interrupt: "se_reqs (ls_se y) r = None \<Longrightarrow> \<forall>c. ch = Some c \<longrightarrow> 0 < ls_workers y c \<Longrightarrow> ll_step y (s_interrupt r uniq v ch y)"
| call: "(r, c, False) \<in> set (ls_flight y) \<Longrightarrow> ll_step y (obind (s_call r c y) (\<lambda>(f, y'). Done y'))"
| finish: "(r, c, True) \<in> set (ls_flight y) \<Longrightarrow> ll_step y (s_end r c y)"
| eagain: "r \<in> set (ls_eagain y) \<Longrightarrow> ll_step y (s_eagain r y)"
| reply: "r \<in> set (ls_owned y) \<Longrightarrow> ll_step y (s_reply r y)"
| func: "r \<in> set (ls_owned y) \<Longrightarrow> ll_step y (obind (s_func r f y) (\<lambda>(g, y'). Done y'))"
| worker_start: "se_chans (ls_se y) c = None \<Longrightarrow> ll_step y (s_worker_start c y)"
| worker_exit: "0 < ls_workers y c \<Longrightarrow> ll_step y (s_worker_exit c y)"

definition ll_init :: ll_sys where
  "ll_init = \<lparr>ls_se = \<lparr>se_reqs = Map.empty, se_list = [], se_interrupts = [], se_chans = Map.empty\<rparr>, ls_owned = [], ls_eagain = [], ls_flight = [], ls_workers = (\<lambda>_. 0)\<rparr>"

inductive ll_reachable :: "ll_sys \<Rightarrow> bool" where
  init: "ll_reachable ll_init"
| step: "ll_reachable y \<Longrightarrow> ll_step y (Done y') \<Longrightarrow> ll_reachable y'"


lemmas ll_inv_unfold = ll_inv_def irqs_def targets_def

lemma ll_init_inv: "ll_inv ll_init"
  by (simp add: ll_inv_unfold ll_init_def se_inv_def req_ok_def chans_ok_def chan_refs_def)

lemma ll_invD:
  assumes "ll_inv y"
  shows "se_inv (mset (ls_owned y)) (irqs (ls_eagain y) (se_interrupts (ls_se y)) (ls_flight y)) (targets (ls_flight y)) (ls_workers y) (ls_se y)"
    and "mset (se_list (ls_se y)) = mset (ls_owned y)" and "mset (se_interrupts (ls_se y)) \<subseteq># irqs (ls_eagain y) (se_interrupts (ls_se y)) (ls_flight y)"
  using assms by (auto simp: ll_inv_def irqs_def)

lemma mset_remove1_in: "x \<in> set xs \<Longrightarrow> mset xs = add_mset x (mset (remove1 x xs))"
  by simp

lemma step_receive:
  assumes inv: "ll_inv y" and r: "se_reqs (ls_se y) r = None" and ch: "\<forall>c. ch = Some c \<longrightarrow> 0 < ls_workers y c"
  shows "\<exists>y' q. s_receive r uniq ch y = Done y' \<and> ll_inv y' \<and> se_reqs (ls_se y') r = Some q \<and> rq_unique q = uniq \<and>
    (rq_interrupted q \<longleftrightarrow> (\<exists>c\<in>set (se_interrupts (ls_se y)). \<exists>p. se_reqs (ls_se y) c = Some p \<and> rq_u p = Ui uniq))"
proof -
  note D = ll_invD[OF inv]
  let ?I = "irqs (ls_eagain y) (se_interrupts (ls_se y)) (ls_flight y)"
  from alloc_inv[OF D(1) r ch, where uniq = uniq] obtain s1 q where s1: "fuse_ll_alloc_req r uniq ch (ls_se y) = Done s1"
    "se_inv (add_mset r (mset (ls_owned y))) ?I (targets (ls_flight y)) (ls_workers y) s1" "se_list s1 = se_list (ls_se y)" "se_interrupts s1 = se_interrupts (ls_se y)"
    and q: "se_reqs s1 r = Some q" "rq_unique q = uniq" "\<not> rq_interrupted q" and oth: "\<And>x. x \<noteq> r \<Longrightarrow> se_reqs s1 x = se_reqs (ls_se y) x" by auto
  have "r \<in># add_mset r (mset (ls_owned y))" "mset (se_interrupts s1) \<subseteq># ?I" using D(3) s1(4) by simp_all
  from take_inv[OF s1(2) this q(1)] obtain intr s2 where t: "process_take r s1 = Done (intr, s2)" "se_list s2 = se_list s1 @ [r]"
    and cs: "(\<exists>c p. c \<in> set (se_interrupts s1) \<and> se_reqs s1 c = Some p \<and> rq_u p = Ui (rq_unique q) \<and> intr = None \<and> se_interrupts s2 = remove1 c (se_interrupts s1) \<and>
        se_inv (add_mset r (mset (ls_owned y))) (?I - {#c#}) (targets (ls_flight y)) (ls_workers y) s2 \<and> se_reqs s2 r = Some (q\<lparr>rq_interrupted := True\<rparr>)) \<or>
      (\<forall>c\<in>set (se_interrupts s1). \<forall>p. se_reqs s1 c = Some p \<longrightarrow> rq_u p \<noteq> Ui (rq_unique q)) \<and> se_interrupts s2 = tl (se_interrupts s1) \<and>
        intr = (case se_interrupts s1 of [] \<Rightarrow> None | c # _ \<Rightarrow> Some c) \<and> se_inv (add_mset r (mset (ls_owned y))) ?I (targets (ls_flight y)) (ls_workers y) s2 \<and> se_reqs s2 r = Some q" by blast
  let ?y = "y\<lparr>ls_se := s2, ls_owned := r # ls_owned y, ls_eagain := (case intr of None \<Rightarrow> ls_eagain y | Some c \<Rightarrow> c # ls_eagain y)\<rparr>"
  have run: "s_receive r uniq ch y = Done ?y" using s1(1) t(1) by (simp add: s_receive_def)
  have rn: "x \<noteq> r" if "x \<in> set (se_interrupts (ls_se y))" for x using queued_irqs[OF D(1) D(3)] that r by force
  have same: "se_reqs s1 x = se_reqs (ls_se y) x" if "x \<in> set (se_interrupts (ls_se y))" for x using oth rn[OF that] by simp
  have list: "mset (se_list s2) = add_mset r (mset (ls_owned y))" using t(2) s1(3) D(2) by simp
  from cs show ?thesis
  proof
    assume "\<exists>c p. c \<in> set (se_interrupts s1) \<and> se_reqs s1 c = Some p \<and> rq_u p = Ui (rq_unique q) \<and> intr = None \<and> se_interrupts s2 = remove1 c (se_interrupts s1) \<and>
        se_inv (add_mset r (mset (ls_owned y))) (?I - {#c#}) (targets (ls_flight y)) (ls_workers y) s2 \<and> se_reqs s2 r = Some (q\<lparr>rq_interrupted := True\<rparr>)"
    then obtain c p where c: "c \<in> set (se_interrupts (ls_se y))" "se_reqs (ls_se y) c = Some p" "rq_u p = Ui uniq" "intr = None" "se_interrupts s2 = remove1 c (se_interrupts (ls_se y))"
      "se_inv (add_mset r (mset (ls_owned y))) (?I - {#c#}) (targets (ls_flight y)) (ls_workers y) s2" "se_reqs s2 r = Some (q\<lparr>rq_interrupted := True\<rparr>)"
      using s1(4) q(2) same by auto
    have "?I - {#c#} = irqs (ls_eagain y) (remove1 c (se_interrupts (ls_se y))) (ls_flight y)" using c(1) by (simp add: irqs_def)
    then have "ll_inv ?y" using c(4-6) list by (simp add: ll_inv_def)
    then show ?thesis using run c(1-3,7) q(2) by auto
  next
    assume "(\<forall>c\<in>set (se_interrupts s1). \<forall>p. se_reqs s1 c = Some p \<longrightarrow> rq_u p \<noteq> Ui (rq_unique q)) \<and> se_interrupts s2 = tl (se_interrupts s1) \<and>
        intr = (case se_interrupts s1 of [] \<Rightarrow> None | c # _ \<Rightarrow> Some c) \<and> se_inv (add_mset r (mset (ls_owned y))) ?I (targets (ls_flight y)) (ls_workers y) s2 \<and> se_reqs s2 r = Some q"
    then have n: "\<forall>c\<in>set (se_interrupts (ls_se y)). \<forall>p. se_reqs (ls_se y) c = Some p \<longrightarrow> rq_u p \<noteq> Ui uniq"
      and i: "se_interrupts s2 = tl (se_interrupts (ls_se y))" "intr = (case se_interrupts (ls_se y) of [] \<Rightarrow> None | c # _ \<Rightarrow> Some c)"
        "se_inv (add_mset r (mset (ls_owned y))) ?I (targets (ls_flight y)) (ls_workers y) s2" "se_reqs s2 r = Some q" using s1(4) q(2) same by auto
    have "irqs (case intr of None \<Rightarrow> ls_eagain y | Some c \<Rightarrow> c # ls_eagain y) (se_interrupts s2) (ls_flight y) = ?I"
      using i(1,2) by (cases "se_interrupts (ls_se y)") (simp_all add: irqs_def)
    then have "ll_inv ?y" using i(3) list by (simp add: ll_inv_def)
    then show ?thesis using run n i(4) q by auto
  qed
qed

lemma step_reject:
  assumes inv: "ll_inv y" and r: "se_reqs (ls_se y) r = None" and ch: "\<forall>c. ch = Some c \<longrightarrow> 0 < ls_workers y c"
  shows "\<exists>y'. s_reject r uniq ch y = Done y' \<and> ll_inv y'"
proof -
  note D = ll_invD[OF inv]
  from alloc_inv[OF D(1) r ch, where uniq = uniq] obtain s1 where s1: "fuse_ll_alloc_req r uniq ch (ls_se y) = Done s1"
    "se_inv (add_mset r (mset (ls_owned y))) (irqs (ls_eagain y) (se_interrupts (ls_se y)) (ls_flight y)) (targets (ls_flight y)) (ls_workers y) s1"
    "se_list s1 = se_list (ls_se y)" "se_interrupts s1 = se_interrupts (ls_se y)" by auto
  have z: "r \<notin># mset (ls_owned y)" "r \<notin># irqs (ls_eagain y) (se_interrupts (ls_se y)) (ls_flight y)" using se_inv_live[OF D(1), of r] r by auto
  have "r \<in># add_mset r (mset (ls_owned y)) + irqs (ls_eagain y) (se_interrupts (ls_se y)) (ls_flight y)" by simp
  from free_req_inv[OF s1(2) this] obtain s2 where s2: "fuse_free_req r s1 = Done s2"
    "se_inv (mset (ls_owned y)) (irqs (ls_eagain y) (se_interrupts (ls_se y)) (ls_flight y) - {#r#}) (targets (ls_flight y)) (ls_workers y) s2"
    "se_list s2 = remove1 r (se_list s1)" "se_interrupts s2 = remove1 r (se_interrupts s1)" by auto
  have "r \<notin> set (se_list (ls_se y))" using z(1) D(2) by (metis set_mset_mset)
  moreover have "r \<notin> set (se_interrupts (ls_se y))" using z(2) by (simp add: irqs_def)
  ultimately have "se_list s2 = se_list (ls_se y)" "se_interrupts s2 = se_interrupts (ls_se y)" using s1(3,4) s2(3,4) by (simp_all add: remove1_idem)
  then have "ll_inv (y\<lparr>ls_se := s2\<rparr>)" using s2(2) D(2) z(2) by (simp add: ll_inv_def diff_single_trivial)
  then show ?thesis using s1(1) s2(1) by (simp add: s_reject_def)
qed


lemma step_interrupt:
  assumes inv: "ll_inv y" and r: "se_reqs (ls_se y) r = None" and ch: "\<forall>c. ch = Some c \<longrightarrow> 0 < ls_workers y c"
  shows "\<exists>y'. s_interrupt r uniq v ch y = Done y' \<and> ll_inv y' \<and>
    (if \<exists>c\<in>set (ls_owned y). \<exists>p. se_reqs (ls_se y) c = Some p \<and> rq_unique p = v
     then \<exists>c p. ls_flight y' = (r, c, False) # ls_flight y \<and> c \<in> set (ls_owned y) \<and> se_reqs (ls_se y') c = Some p \<and> rq_unique p = v
     else \<exists>d\<in>set (se_interrupts (ls_se y')). \<exists>p. se_reqs (ls_se y') d = Some p \<and> rq_u p = Ui v)"
proof -
  note D = ll_invD[OF inv]
  let ?I = "irqs (ls_eagain y) (se_interrupts (ls_se y)) (ls_flight y)" and ?T = "targets (ls_flight y)" and ?H = "mset (ls_owned y)"
  from alloc_inv[OF D(1) r ch, where uniq = uniq] obtain s1 q where s1: "fuse_ll_alloc_req r uniq ch (ls_se y) = Done s1"
    "se_inv (add_mset r ?H) ?I ?T (ls_workers y) s1" "se_list s1 = se_list (ls_se y)" "se_interrupts s1 = se_interrupts (ls_se y)"
    and q: "se_reqs s1 r = Some q" and oth: "\<And>x. x \<noteq> r \<Longrightarrow> se_reqs s1 x = se_reqs (ls_se y) x" by auto
  have T: "r \<notin># ?T" and H: "r \<notin> set (ls_owned y)" using se_inv_live[OF D(1), of r] r by auto
  have li: "mset (se_list s1) = ?H" "mset (se_interrupts s1) \<subseteq># ?I" using D(2,3) s1(3,4) by simp_all
  from irq_start_inv[OF s1(2) q T li, of v] obtain hit s2 where s2: "do_interrupt_start r v s1 = Done (hit, s2)" "se_list s2 = se_list s1"
    and cs: "(\<exists>c p. hit = Some c \<and> c \<in># ?H \<and> se_reqs s1 c = Some p \<and> rq_unique p = v \<and> se_interrupts s2 = se_interrupts s1 \<and>
        se_inv ?H (add_mset r ?I) (add_mset c ?T) (ls_workers y) s2 \<and> se_reqs s2 c = Some (p\<lparr>rq_ctr := rq_ctr p + 1\<rparr>)) \<or>
     hit = None \<and> (\<forall>c\<in>#?H. \<forall>p. se_reqs s1 c = Some p \<longrightarrow> rq_unique p \<noteq> v) \<and>
       (se_interrupts s2 = se_interrupts s1 \<and> se_inv ?H ?I ?T (ls_workers y) s2 \<and> (\<exists>d\<in>set (se_interrupts s2). \<exists>p. se_reqs s2 d = Some p \<and> rq_u p = Ui v) \<or>
        se_interrupts s2 = se_interrupts s1 @ [r] \<and> se_inv ?H (add_mset r ?I) ?T (ls_workers y) s2 \<and> (\<exists>p. se_reqs s2 r = Some p \<and> rq_u p = Ui v))" by blast
  let ?y = "y\<lparr>ls_se := s2, ls_flight := (case hit of None \<Rightarrow> ls_flight y | Some c \<Rightarrow> (r, c, False) # ls_flight y)\<rparr>"
  have run: "s_interrupt r uniq v ch y = Done ?y" using s1(1) s2(1) by (simp add: s_interrupt_def)
  have same: "se_reqs s1 c = se_reqs (ls_se y) c" if "c \<in> set (ls_owned y)" for c using oth that H by metis
  have list: "mset (se_list s2) = ?H" using li(1) s2(2) by simp
  show ?thesis
  proof (cases hit)
    case (Some c)
    with cs obtain p where c: "c \<in> set (ls_owned y)" "se_reqs s1 c = Some p" "rq_unique p = v" "se_interrupts s2 = se_interrupts (ls_se y)"
      "se_inv ?H (add_mset r ?I) (add_mset c ?T) (ls_workers y) s2" "se_reqs s2 c = Some (p\<lparr>rq_ctr := rq_ctr p + 1\<rparr>)" using s1(4) by auto
    then have "ll_inv ?y" using Some list by (simp add: ll_inv_unfold)
    then show ?thesis using run Some c same[OF c(1)] by auto
  next
    case None
    then have n: "\<not> (\<exists>c\<in>set (ls_owned y). \<exists>p. se_reqs (ls_se y) c = Some p \<and> rq_unique p = v)" using cs same by auto
    have "ll_inv ?y \<and> (\<exists>d\<in>set (se_interrupts s2). \<exists>p. se_reqs s2 d = Some p \<and> rq_u p = Ui v)"
      using cs None s1(4) list by (auto simp: ll_inv_unfold)
    then show ?thesis using run None n by simp
  qed
qed

lemma flight_parts:
  assumes "(r, c, b) \<in> set fl"
  shows "c \<in># targets fl" and "r \<in># irqs ea qu fl" and "targets (remove1 (r, c, b) fl) = targets fl - {#c#}" and "irqs ea qu (remove1 (r, c, b) fl) = irqs ea qu fl - {#r#}"
proof -
  have m: "mset fl = add_mset (r, c, b) (mset (remove1 (r, c, b) fl))" by (rule mset_remove1_in[OF assms])
  have "targets fl = add_mset c (targets (remove1 (r, c, b) fl))" "irqs ea qu fl = add_mset r (irqs ea qu (remove1 (r, c, b) fl))"
    unfolding targets_def irqs_def mset_map m by simp_all
  then show "c \<in># targets fl" "r \<in># irqs ea qu fl" "targets (remove1 (r, c, b) fl) = targets fl - {#c#}" "irqs ea qu (remove1 (r, c, b) fl) = irqs ea qu fl - {#r#}"
    by simp_all
qed

lemma step_call:
  assumes inv: "ll_inv y" and f: "(r, c, False) \<in> set (ls_flight y)"
  shows "\<exists>p func y'. se_reqs (ls_se y) c = Some p \<and> rq_u p = Uni func \<and> s_call r c y = Done (func, y') \<and> ll_inv y' \<and> se_reqs (ls_se y') c = Some (p\<lparr>rq_interrupted := True\<rparr>) \<and>
    ls_owned y' = ls_owned y"
proof -
  note D = ll_invD[OF inv]
  from call_inv[OF D(1) flight_parts(1)[OF f]] obtain p func where p: "se_reqs (ls_se y) c = Some p" "rq_u p = Uni func"
    "find_interrupted_call c (ls_se y) = Done (func, upd_req c (p\<lparr>rq_interrupted := True\<rparr>) (ls_se y))"
    and i: "se_inv (mset (ls_owned y)) (irqs (ls_eagain y) (se_interrupts (ls_se y)) (ls_flight y)) (targets (ls_flight y)) (ls_workers y) (upd_req c (p\<lparr>rq_interrupted := True\<rparr>) (ls_se y))" by blast
  let ?y = "y\<lparr>ls_se := upd_req c (p\<lparr>rq_interrupted := True\<rparr>) (ls_se y), ls_flight := (r, c, True) # remove1 (r, c, False) (ls_flight y)\<rparr>"
  have fl: "targets ((r, c, True) # remove1 (r, c, False) (ls_flight y)) = targets (ls_flight y)"
    "irqs ea qu ((r, c, True) # remove1 (r, c, False) (ls_flight y)) = irqs ea qu (ls_flight y)" for ea qu
    using flight_parts[OF f] by (simp_all add: targets_def irqs_def)
  have "ll_inv ?y" using i D(2) unfolding ll_inv_def by (simp add: fl) (simp add: upd_req_def)
  then show ?thesis using p by (simp add: s_call_def) (simp add: upd_req_def)
qed

lemma step_end:
  assumes inv: "ll_inv y" and f: "(r, c, True) \<in> set (ls_flight y)"
  shows "\<exists>y'. s_end r c y = Done y' \<and> ll_inv y'"
proof -
  note D = ll_invD[OF inv]
  from end_inv[OF D(1) flight_parts(1)[OF f] flight_parts(2)[OF f]] obtain s' where s': "do_interrupt_end r c (ls_se y) = Done s'"
    "se_inv (mset (ls_owned y)) (irqs (ls_eagain y) (se_interrupts (ls_se y)) (ls_flight y) - {#r#}) (targets (ls_flight y) - {#c#}) (ls_workers y) s'"
    "se_list s' = se_list (ls_se y)" "se_interrupts s' = se_interrupts (ls_se y)" by blast
  then have "ll_inv (y\<lparr>ls_se := s', ls_flight := remove1 (r, c, True) (ls_flight y)\<rparr>)" using D(2) flight_parts[OF f] by (simp add: ll_inv_def)
  then show ?thesis using s'(1) by (simp add: s_end_def)
qed


lemma step_eagain:
  assumes inv: "ll_inv y" and r: "r \<in> set (ls_eagain y)"
  shows "\<exists>y'. s_eagain r y = Done y' \<and> ll_inv y'"
proof -
  note D = ll_invD[OF inv]
  have rI: "r \<in># irqs (ls_eagain y) (se_interrupts (ls_se y)) (ls_flight y)" using r by (simp add: irqs_def)
  note z = se_inv_irq(2,4)[OF D(1) rI]
  have "r \<in># mset (ls_owned y) + irqs (ls_eagain y) (se_interrupts (ls_se y)) (ls_flight y)" using rI by simp
  from free_req_inv[OF D(1) this] obtain s' where s': "fuse_free_req r (ls_se y) = Done s'"
    "se_inv (mset (ls_owned y) - {#r#}) (irqs (ls_eagain y) (se_interrupts (ls_se y)) (ls_flight y) - {#r#}) (targets (ls_flight y)) (ls_workers y) s'"
    "se_list s' = remove1 r (se_list (ls_se y))" "se_interrupts s' = remove1 r (se_interrupts (ls_se y))" by auto
  have "r \<notin> set (se_list (ls_se y))" using z(1) D(2) by (metis set_mset_mset)
  moreover have "r \<notin> set (se_interrupts (ls_se y))"
  proof
    assume "r \<in> set (se_interrupts (ls_se y))"
    then have "1 \<le> count (mset (se_interrupts (ls_se y))) r" "1 \<le> count (mset (ls_eagain y)) r" using r by (simp_all add: Suc_le_eq)
    then show False using z(2) unfolding irqs_def count_union by linarith
  qed
  ultimately have same: "se_list s' = se_list (ls_se y)" "se_interrupts s' = se_interrupts (ls_se y)" using s'(3,4) by (simp_all add: remove1_idem)
  have "mset (ls_owned y) - {#r#} = mset (ls_owned y)" using z(1) by (simp add: diff_single_trivial)
  moreover have "irqs (ls_eagain y) (se_interrupts (ls_se y)) (ls_flight y) - {#r#} = irqs (remove1 r (ls_eagain y)) (se_interrupts (ls_se y)) (ls_flight y)"
    using r by (simp add: irqs_def)
  ultimately have "ll_inv (y\<lparr>ls_se := s', ls_eagain := remove1 r (ls_eagain y)\<rparr>)" using s'(2) same D(2) by (simp add: ll_inv_def)
  then show ?thesis using s'(1) by (simp add: s_eagain_def)
qed

lemma step_reply:
  assumes inv: "ll_inv y" and r: "r \<in> set (ls_owned y)"
  shows "\<exists>y'. s_reply r y = Done y' \<and> ll_inv y'"
proof -
  note D = ll_invD[OF inv]
  have rH: "r \<in># mset (ls_owned y)" using r by simp
  have z: "r \<notin># irqs (ls_eagain y) (se_interrupts (ls_se y)) (ls_flight y)" by (rule se_inv_held(2)[OF D(1) rH])
  have "r \<in># mset (ls_owned y) + irqs (ls_eagain y) (se_interrupts (ls_se y)) (ls_flight y)" using r by simp
  from free_req_inv[OF D(1) this] obtain s' where s': "fuse_free_req r (ls_se y) = Done s'"
    "se_inv (mset (ls_owned y) - {#r#}) (irqs (ls_eagain y) (se_interrupts (ls_se y)) (ls_flight y) - {#r#}) (targets (ls_flight y)) (ls_workers y) s'"
    "se_list s' = remove1 r (se_list (ls_se y))" "se_interrupts s' = remove1 r (se_interrupts (ls_se y))" by auto
  have "se_interrupts s' = se_interrupts (ls_se y)" using s'(4) z by (simp add: remove1_idem irqs_def)
  moreover have "irqs (ls_eagain y) (se_interrupts (ls_se y)) (ls_flight y) - {#r#} = irqs (ls_eagain y) (se_interrupts (ls_se y)) (ls_flight y)" using z by (simp add: diff_single_trivial)
  ultimately have "ll_inv (y\<lparr>ls_se := s', ls_owned := remove1 r (ls_owned y)\<rparr>)" using s'(2,3) D(2) by (simp add: ll_inv_def)
  then show ?thesis using s'(1) by (simp add: s_reply_def)
qed

lemma step_func:
  assumes inv: "ll_inv y" and r: "r \<in> set (ls_owned y)"
  shows "\<exists>q y'. se_reqs (ls_se y) r = Some q \<and> s_func r f y = Done (if rq_interrupted q then f else None, y') \<and> ll_inv y' \<and>
    se_reqs (ls_se y') r = Some (q\<lparr>rq_u := Uni f\<rparr>) \<and> ls_flight y' = ls_flight y"
proof -
  note D = ll_invD[OF inv]
  obtain q where q: "se_reqs (ls_se y) r = Some q" "\<nexists>v. rq_u q = Ui v" using se_inv_held(1)[OF D(1), of r] r by auto
  have "se_inv (mset (ls_owned y)) (irqs (ls_eagain y) (se_interrupts (ls_se y)) (ls_flight y)) (targets (ls_flight y)) (ls_workers y) (upd_req r (q\<lparr>rq_u := Uni f\<rparr>) (ls_se y))"
    by (rule se_inv_mark[OF D(1) q(1)]) (use q(2) in simp_all)
  then have "ll_inv (y\<lparr>ls_se := upd_req r (q\<lparr>rq_u := Uni f\<rparr>) (ls_se y)\<rparr>)" using D(2) by (simp add: ll_inv_def upd_req_def)
  then show ?thesis using q(1) by (simp add: s_func_def fuse_req_interrupt_func_def with_req_def) (simp add: upd_req_def)
qed

lemma step_worker_start:
  assumes inv: "ll_inv y" and c: "se_chans (ls_se y) c = None"
  shows "ll_inv (y\<lparr>ls_se := fuse_chan_new c (ls_se y), ls_workers := (ls_workers y)(c := 1)\<rparr>)"
proof -
  have "ls_workers y c + chan_refs (se_reqs (ls_se y)) c = 0" using se_inv_chans[OF ll_invD(1)[OF inv]] c by (simp add: chans_ok_def split: if_splits)
  then show ?thesis using inv by (auto simp: ll_inv_def fuse_chan_new_def se_inv_def chans_ok_def)
qed

lemma step_worker_exit:
  assumes inv: "ll_inv y" and c: "0 < ls_workers y c"
  shows "\<exists>y'. s_worker_exit c y = Done y' \<and> ll_inv y'"
  using chan_put_inv[OF ll_invD(1)[OF inv] c] ll_invD(2)[OF inv] by (auto simp: s_worker_exit_def ll_inv_def)

text \<open>Progress and preservation.\<close>

lemma ll_step_ok:
  assumes "ll_step y z" and "ll_inv y"
  shows "\<exists>y'. z = Done y' \<and> ll_inv y'"
  using assms
proof (cases rule: ll_step.cases)
  case (receive r ch uniq)
  then show ?thesis using step_receive[OF assms(2)] by metis
next
  case (call r c)
  from step_call[OF assms(2) call(2)] obtain func y' where "s_call r c y = Done (func, y')" "ll_inv y'" by blast
  then show ?thesis using call(1) by simp
next
  case (interrupt r ch uniq v)
  then show ?thesis using step_interrupt[OF assms(2)] by metis
next
  case (func r f)
  from step_func[OF assms(2) func(2), of f] obtain g y' where "s_func r f y = Done (g, y')" "ll_inv y'" by blast
  then show ?thesis using func(1) by simp
next
  case (worker_start c)
  then show ?thesis using step_worker_start[OF assms(2)] by (simp add: s_worker_start_def)
qed (use step_reject step_end step_eagain step_reply step_worker_exit assms(2) in metis)+

lemma ll_reachable_inv: "ll_reachable y \<Longrightarrow> ll_inv y"
  by (induction rule: ll_reachable.induct) (use ll_init_inv ll_step_ok in blast)+


subsection \<open>Properties\<close>

text \<open>A reachable state: request 2, with id 5, is being worked on when interrupt 1 for it arrives.\<close>

definition ll_demo :: ll_sys where
  "ll_demo = \<lparr>ls_se = \<lparr>se_reqs = [1 \<mapsto> \<lparr>rq_unique = 9, rq_ctr = 1, rq_ch = None, rq_interrupted = False, rq_u = Ui 5\<rparr>,
       2 \<mapsto> \<lparr>rq_unique = 5, rq_ctr = 2, rq_ch = None, rq_interrupted = False, rq_u = Uni None\<rparr>],
     se_list = [2], se_interrupts = [], se_chans = Map.empty\<rparr>, ls_owned = [2], ls_eagain = [], ls_flight = [(1, 2, False)], ls_workers = (\<lambda>_. 0)\<rparr>"

lemmas ll_run_defs = s_receive_def s_interrupt_def fuse_ll_alloc_req_def fuse_chan_get_def upd_req_def process_take_def check_interrupt_def with_req_def
  do_interrupt_start_def Let_def

lemma ll_demo_reachable: "ll_reachable ll_demo"
proof -
  define y1 where "y1 = ll_init\<lparr>ls_se := (ls_se ll_init)\<lparr>se_reqs := [2 \<mapsto> \<lparr>rq_unique = 5, rq_ctr = 1, rq_ch = None, rq_interrupted = False, rq_u = Uni None\<rparr>], se_list := [2]\<rparr>, ls_owned := [2]\<rparr>"
  have "s_receive 2 5 None ll_init = Done y1" by (simp add: y1_def ll_init_def ll_run_defs)
  then have 1: "ll_reachable y1" using ll_reachable.step[OF ll_reachable.init] ll_step.receive[of ll_init 2 None 5] by (simp add: ll_init_def)
  have "s_interrupt 1 9 5 None y1 = Done ll_demo" by (simp add: y1_def ll_init_def ll_demo_def ll_run_defs fun_upd_twist eval_nat_numeral)
  then show ?thesis using ll_reachable.step[OF 1] ll_step.interrupt[of y1 1 None 9 5] by (simp add: y1_def ll_init_def)
qed

text \<open>Claim C10 (ll_requests_safe). For every interleaving of arriving requests, interrupts, replies and worker threads, no step of the
  session touches a freed request or channel, trips an assert or reads the wrong member of the union. The reference count of a request is
  the number of its holders and the request exists exactly while it has one; the count of a channel is the number of workers and
  requests on it. When the last holder is gone nothing is left on the heap and every channel is closed.\<close>

theorem ll_requests_safe:
  assumes "ll_reachable y"
  shows "(\<forall>z. ll_step y z \<longrightarrow> (\<exists>y'. z = Done y')) \<and>
    (\<forall>r. map_option rq_ctr (se_reqs (ls_se y) r) = (let n = count (mset (ls_owned y @ ls_eagain y @ se_interrupts (ls_se y) @ map fst (ls_flight y) @ map (\<lambda>(r, c, b). c) (ls_flight y))) r
       in if n = 0 then None else Some n)) \<and>
    (\<forall>c. se_chans (ls_se y) c = (let n = ls_workers y c + card {r. \<exists>q. se_reqs (ls_se y) r = Some q \<and> rq_ch q = Some c} in if n = 0 then None else Some n)) \<and>
    (ls_owned y = [] \<and> ls_eagain y = [] \<and> se_interrupts (ls_se y) = [] \<and> ls_flight y = [] \<and> (\<forall>c. ls_workers y c = 0) \<longrightarrow>
       se_reqs (ls_se y) = Map.empty \<and> se_list (ls_se y) = [] \<and> se_chans (ls_se y) = Map.empty)"
proof -
  have inv: "ll_inv y" by (rule ll_reachable_inv[OF assms])
  note D = ll_invD[OF inv]
  have ctr: "map_option rq_ctr (se_reqs (ls_se y) r) = (let n = count (mset (ls_owned y @ ls_eagain y @ se_interrupts (ls_se y) @ map fst (ls_flight y) @ map (\<lambda>(r, c, b). c) (ls_flight y))) r
       in if n = 0 then None else Some n)" for r
  proof -
    have "mset (ls_owned y @ ls_eagain y @ se_interrupts (ls_se y) @ map fst (ls_flight y) @ map (\<lambda>(r, c, b). c) (ls_flight y)) =
        mset (ls_owned y) + irqs (ls_eagain y) (se_interrupts (ls_se y)) (ls_flight y) + targets (ls_flight y)" by (simp add: irqs_def targets_def)
    then show ?thesis using se_inv_req[OF D(1), of r] by (cases "se_reqs (ls_se y) r") (simp_all only: req_ok_def option.case option.map Let_def if_True if_not_P neq0_conv simp_thms)
  qed
  have ch: "se_chans (ls_se y) c = (let n = ls_workers y c + card {r. \<exists>q. se_reqs (ls_se y) r = Some q \<and> rq_ch q = Some c} in if n = 0 then None else Some n)" for c
    using se_inv_chans[OF D(1)] by (simp add: chans_ok_def chan_refs_def Let_def)
  have "se_reqs (ls_se y) = Map.empty \<and> se_list (ls_se y) = [] \<and> se_chans (ls_se y) = Map.empty"
    if e: "ls_owned y = [] \<and> ls_eagain y = [] \<and> se_interrupts (ls_se y) = [] \<and> ls_flight y = [] \<and> (\<forall>c. ls_workers y c = 0)"
  proof -
    have "se_reqs (ls_se y) r = None" for r using ctr[of r] e by simp
    then have "se_reqs (ls_se y) = Map.empty" by auto
    moreover have "se_chans (ls_se y) c = None" for c using ch[of c] e \<open>se_reqs (ls_se y) = Map.empty\<close> by simp
    ultimately show ?thesis using D(2) e by auto
  qed
  then show ?thesis using ll_step_ok[OF _ inv] ctr ch by blast
qed

theorem ll_requests_safe_witness:
  "map_option rq_ctr (se_reqs (ls_se ll_demo) 1) = Some 1 \<and> map_option rq_ctr (se_reqs (ls_se ll_demo) 2) = Some 2 \<and>
    (\<exists>y'. s_reply 2 ll_demo = Done y') \<and> se_chans (ls_se ll_demo) 0 = None"
proof -
  note safe = ll_requests_safe[OF ll_demo_reachable]
  have "ll_step ll_demo (s_reply 2 ll_demo)" by (rule ll_step.reply) (simp add: ll_demo_def)
  with safe have "\<exists>y'. s_reply 2 ll_demo = Done y'" by blast
  moreover have "map_option rq_ctr (se_reqs (ls_se ll_demo) 1) = Some 1" "map_option rq_ctr (se_reqs (ls_se ll_demo) 2) = Some 2" by (simp_all add: ll_demo_def)
  moreover have "se_chans (ls_se ll_demo) 0 = None" by (simp add: ll_demo_def)
  ultimately show ?thesis by blast
qed




end
