(* ===== verification/Fuse_Node_Table.thy ===== *)
theory Fuse_Node_Table
  imports Fuse_Prelude "HOL-Library.Multiset"
begin

text \<open>
  The node tables of the high-level library (\<open>lib/fuse.c\<close>): two linear-hashing tables, one
  by node id and one by (parent id, name), which grow and shrink one bucket at a time.

  A bucket, a chain of nodes linked through \<open>id_next\<close> or \<open>name_next\<close>, is the list of its
  node pointers. The code of the two tables is the same text over different link fields and
  hash functions; the shared part is defined once, over the 64-bit hash value of a node, and
  the two instances are named as in the code. Whether a \<open>realloc\<close> succeeds is an argument.
  Table sizes are natural numbers: an array of \<open>2 ^ 61\<close> pointers cannot be allocated, so the
  size arithmetic does not wrap.
\<close>

subsection \<open>Tables\<close>

record 'n node_table =
  nt_array :: "'n list list"
  nt_use :: nat
  nt_size :: nat
  nt_split :: nat

definition NODE_TABLE_MIN_SIZE :: nat where
  "NODE_TABLE_MIN_SIZE = 8192"

definition node_table_init :: "'n node_table" where
  "node_table_init = \<lparr>nt_array = replicate NODE_TABLE_MIN_SIZE [], nt_use = 0,
     nt_size = NODE_TABLE_MIN_SIZE, nt_split = 0\<rparr>"

text \<open>The bucket of a hash value: the tail of \<open>id_hash\<close> and of \<open>name_hash\<close>.\<close>

definition bucket :: "nat \<Rightarrow> nat \<Rightarrow> nat \<Rightarrow> nat" where
  "bucket sz split hv =
     (let hash = hv mod sz; oldhash = hash mod (sz div 2)
      in if split \<le> oldhash then oldhash else hash)"

definition id_hv :: "64 word \<Rightarrow> nat" where
  "id_hv ino = unat ((ucast ino :: 32 word) * 2654435761)"

definition id_hash :: "'n node_table \<Rightarrow> 64 word \<Rightarrow> nat" where
  "id_hash t ino = bucket (nt_size t) (nt_split t) (id_hv ino)"

definition name_hv :: "64 word \<Rightarrow> string \<Rightarrow> nat" where
  "name_hv parent name = unat (fold (\<lambda>c hash. hash * 31 + of_char c) name parent)"

definition name_hash :: "'n node_table \<Rightarrow> 64 word \<Rightarrow> string \<Rightarrow> nat" where
  "name_hash t parent name = bucket (nt_size t) (nt_split t) (name_hv parent name)"

definition node_table_reduce :: "bool \<Rightarrow> 'n node_table \<Rightarrow> 'n node_table" where
  "node_table_reduce realloc_ok t =
     (let newsize = nt_size t div 2 in
      if newsize < NODE_TABLE_MIN_SIZE then t
      else t\<lparr>nt_array := (if realloc_ok then take newsize (nt_array t) else nt_array t),
             nt_size := newsize, nt_split := newsize div 2\<rparr>)"

fun remerge_loop :: "nat \<Rightarrow> 'n node_table \<Rightarrow> 'n node_table" where
  "remerge_loop 0 t = t"
| "remerge_loop (Suc iter) t =
     (if 0 < nt_split t then
        (let s = nt_split t - 1; upper = s + nt_size t div 2; t1 = t\<lparr>nt_split := s\<rparr> in
         if nt_array t ! upper \<noteq> []
         then t1\<lparr>nt_array := (nt_array t)[s := nt_array t ! s @ nt_array t ! upper, upper := []]\<rparr>
         else remerge_loop iter t1)
      else t)"

definition remerge :: "bool \<Rightarrow> 'n node_table \<Rightarrow> 'n node_table" where
  "remerge realloc_ok t =
     remerge_loop 8 (if nt_split t = 0 then node_table_reduce realloc_ok t else t)"

definition node_table_resize :: "bool \<Rightarrow> 'n node_table \<Rightarrow> 'n node_table" where
  "node_table_resize realloc_ok t =
     (if \<not> realloc_ok then t
      else t\<lparr>nt_array := take (nt_size t) (nt_array t) @ replicate (nt_size t) [],
             nt_size := 2 * nt_size t, nt_split := 0\<rparr>)"

text \<open>The walk over the bucket being split: \<open>kept\<close> is the part already passed, a node whose
  bucket changed is unlinked and pushed on the front of its new bucket.\<close>

fun rehash_loop :: "('n \<Rightarrow> nat) \<Rightarrow> nat \<Rightarrow> 'n list \<Rightarrow> 'n list \<Rightarrow> 'n list list \<Rightarrow> 'n list list" where
  "rehash_loop newhash hash kept [] arr = arr[hash := kept]"
| "rehash_loop newhash hash kept (n # rest) arr =
     (if newhash n \<noteq> hash
      then rehash_loop newhash hash kept rest (arr[newhash n := n # arr ! newhash n])
      else rehash_loop newhash hash (kept @ [n]) rest arr)"

definition rehash :: "bool \<Rightarrow> ('n \<Rightarrow> nat) \<Rightarrow> 'n node_table \<Rightarrow> 'n node_table" where
  "rehash realloc_ok hv t =
     (if nt_split t = nt_size t div 2 then t
      else (let hash = nt_split t;
                t1 = t\<lparr>nt_split := Suc (nt_split t)\<rparr>;
                t2 = t1\<lparr>nt_array := rehash_loop (\<lambda>n. bucket (nt_size t1) (nt_split t1) (hv n)) hash []
                                      (nt_array t1 ! hash) (nt_array t1)\<rparr>
            in if nt_split t2 = nt_size t2 div 2 then node_table_resize realloc_ok t2 else t2))"

text \<open>Linking a node into the table (\<open>hash_id\<close>, the tail of \<open>hash_name\<close>), and the two halves of
  unlinking one (\<open>unhash_id\<close>, \<open>unhash_name\<close>): taking it out of its chain, then counting it
  out and shrinking.\<close>

definition table_link :: "bool \<Rightarrow> ('n \<Rightarrow> nat) \<Rightarrow> 'n \<Rightarrow> 'n node_table \<Rightarrow> 'n node_table" where
  "table_link realloc_ok hv n t =
     (let hash = bucket (nt_size t) (nt_split t) (hv n);
          t1 = t\<lparr>nt_array := (nt_array t)[hash := n # nt_array t ! hash], nt_use := Suc (nt_use t)\<rparr>
      in if nt_size t1 div 2 \<le> nt_use t1 then rehash realloc_ok hv t1 else t1)"

definition table_chain_del :: "nat \<Rightarrow> 'n \<Rightarrow> 'n node_table \<Rightarrow> 'n node_table" where
  "table_chain_del hash n t = t\<lparr>nt_array := (nt_array t)[hash := remove1 n (nt_array t ! hash)]\<rparr>"

definition table_count_out :: "bool \<Rightarrow> 'n node_table \<Rightarrow> 'n node_table" where
  "table_count_out realloc_ok t =
     (let t1 = t\<lparr>nt_use := nt_use t - 1\<rparr>
      in if nt_use t1 < nt_size t1 div 4 then remerge realloc_ok t1 else t1)"

text \<open>The id table's operations under the names of the code; \<open>nid\<close> reads a node's \<open>nodeid\<close>.\<close>

definition remerge_id :: "bool \<Rightarrow> 'n node_table \<Rightarrow> 'n node_table" where
  "remerge_id = remerge"

definition rehash_id :: "bool \<Rightarrow> ('n \<Rightarrow> 64 word) \<Rightarrow> 'n node_table \<Rightarrow> 'n node_table" where
  "rehash_id realloc_ok nid = rehash realloc_ok (\<lambda>n. id_hv (nid n))"

definition hash_id :: "bool \<Rightarrow> ('n \<Rightarrow> 64 word) \<Rightarrow> 'n \<Rightarrow> 'n node_table \<Rightarrow> 'n node_table" where
  "hash_id realloc_ok nid n t = table_link realloc_ok (\<lambda>n. id_hv (nid n)) n t"

definition unhash_id :: "bool \<Rightarrow> ('n \<Rightarrow> 64 word) \<Rightarrow> 'n \<Rightarrow> 'n node_table \<Rightarrow> 'n node_table" where
  "unhash_id realloc_ok nid n t =
     (if n \<in> set (nt_array t ! id_hash t (nid n))
      then table_count_out realloc_ok (table_chain_del (id_hash t (nid n)) n t)
      else t)"

definition get_node_nocheck :: "('n \<Rightarrow> 64 word) \<Rightarrow> 'n node_table \<Rightarrow> 64 word \<Rightarrow> 'n option" where
  "get_node_nocheck nid t nodeid = find (\<lambda>n. nid n = nodeid) (nt_array t ! id_hash t nodeid)"

text \<open>The name table's operations; \<open>nkey\<close> reads a node's parent id and name.\<close>

definition name_key_hv :: "64 word \<times> string \<Rightarrow> nat" where
  "name_key_hv k = name_hv (fst k) (snd k)"

definition remerge_name :: "bool \<Rightarrow> 'n node_table \<Rightarrow> 'n node_table" where
  "remerge_name = remerge"

definition rehash_name :: "bool \<Rightarrow> ('n \<Rightarrow> 64 word \<times> string) \<Rightarrow> 'n node_table \<Rightarrow> 'n node_table" where
  "rehash_name realloc_ok nkey = rehash realloc_ok (\<lambda>n. name_key_hv (nkey n))"

definition lookup_chain :: "('n \<Rightarrow> 64 word \<times> string) \<Rightarrow> 'n node_table \<Rightarrow> 64 word \<Rightarrow> string \<Rightarrow> 'n option" where
  "lookup_chain nkey t parent name = find (\<lambda>n. nkey n = (parent, name)) (nt_array t ! name_hash t parent name)"

subsection \<open>The invariant\<close>

text \<open>\<open>d\<close> counts nodes that have left their chain but are still counted in \<open>use\<close>.\<close>

definition table_inv :: "nat \<Rightarrow> ('n \<Rightarrow> nat) \<Rightarrow> 'n node_table \<Rightarrow> bool" where
  "table_inv d hv t \<longleftrightarrow>
     (\<exists>k. nt_size t = NODE_TABLE_MIN_SIZE * 2 ^ k) \<and>
     nt_size t \<le> length (nt_array t) \<and>
     nt_split t \<le> nt_size t div 2 \<and>
     (\<forall>i < length (nt_array t). \<forall>n \<in> set (nt_array t ! i). i = bucket (nt_size t) (nt_split t) (hv n)) \<and>
     distinct (concat (nt_array t)) \<and>
     nt_use t = length (concat (nt_array t)) + d"

definition table_elems :: "'n node_table \<Rightarrow> 'n set" where
  "table_elems t = set (concat (nt_array t))"

subsection \<open>Buckets\<close>

lemma bucket_zero: "bucket (2 * half) 0 hv = hv mod half"
  by (simp add: bucket_def mod_mult_self4 mod_mod_cancel)

lemma bucket_full: "0 < half \<Longrightarrow> bucket (2 * half) half hv = hv mod (2 * half)"
proof -
  assume "0 < half"
  then have "\<not> half \<le> hv mod half" by (simp only: not_le mod_less_divisor)
  then show ?thesis by (simp add: bucket_def Let_def mod_mod_cancel)
qed

lemma bucket_Suc:
  "bucket (2 * half) (Suc split) hv =
     (if hv mod half = split then hv mod (2 * half) else bucket (2 * half) split hv)"
  by (auto simp: bucket_def Let_def mod_mod_cancel)

lemma bucket_at_split: "hv mod half = split \<Longrightarrow> bucket (2 * half) split hv = split"
  by (auto simp: bucket_def mod_mod_cancel)

lemma bucket_less: "0 < half \<Longrightarrow> bucket (2 * half) split hv < 2 * half"
proof -
  assume h: "0 < half"
  have "hv mod half < 2 * half" using mod_less_divisor[OF h, of hv] by linarith
  then show ?thesis using h by (auto simp: bucket_def Let_def mod_mod_cancel)
qed

lemma mod_double: "0 < half \<Longrightarrow> hv mod (2 * half) = hv mod half \<or> hv mod (2 * half) = hv mod half + (half :: nat)"
  using mod_double_nat[of hv half] by (auto simp: mult.commute)

subsection \<open>Arrays of chains\<close>

lemma mset_concat_update:
  "i < length xs \<Longrightarrow> mset (concat (xs[i := ys])) + mset (xs ! i) = mset (concat xs) + mset ys"
proof (induction xs arbitrary: i)
  case (Cons x xs)
  show ?case
  proof (cases i)
    case (Suc j)
    with Cons show ?thesis by (simp add: add.assoc)
  qed simp
qed simp

lemma in_concat_nth: "n \<in> set (concat xs) \<longleftrightarrow> (\<exists>i < length xs. n \<in> set (xs ! i))"
  by (metis UN_iff in_set_conv_nth set_concat)

lemma length_rehash_loop [simp]: "length (rehash_loop nh hash kept rest arr) = length arr"
  by (induction nh hash kept rest arr rule: rehash_loop.induct) auto

lemma rehash_loop_mset:
  "hash < length arr \<Longrightarrow> \<forall>n \<in> set rest. nh n < length arr \<Longrightarrow>
   mset (concat (rehash_loop nh hash kept rest arr)) + mset (arr ! hash)
     = mset (concat arr) + mset kept + mset rest"
proof (induction nh hash kept rest arr rule: rehash_loop.induct)
  case (1 nh hash kept arr)
  then show ?case by (simp add: mset_concat_update)
next
  case (2 nh hash kept n rest arr)
  show ?case
  proof (cases "nh n = hash")
    case True
    with 2 show ?thesis by simp
  next
    case False
    let ?arr = "arr[nh n := n # arr ! nh n]"
    have "mset (concat ?arr) = mset (concat arr) + {#n#}"
      using mset_concat_update[of "nh n" arr "n # arr ! nh n"] 2(4) by simp
    moreover have "mset (concat (rehash_loop nh hash kept rest ?arr)) + mset (arr ! hash)
        = mset (concat ?arr) + mset kept + mset rest"
      using "2.IH"(1)[OF False] 2(3,4) False by simp
    ultimately show ?thesis using False by simp
  qed
qed

lemma rehash_loop_nth:
  "hash < length arr \<Longrightarrow> \<forall>n \<in> set rest. nh n < length arr \<Longrightarrow> i < length arr \<Longrightarrow>
   set (rehash_loop nh hash kept rest arr ! i) =
     (if i = hash then set kept else set (arr ! i)) \<union> {n \<in> set rest. nh n = i}"
proof (induction nh hash kept rest arr rule: rehash_loop.induct)
  case (2 nh hash kept n rest arr)
  then show ?case by (cases "nh n = hash") (auto simp: nth_list_update)
qed simp

subsection \<open>The operations keep the invariant and the elements\<close>

lemma table_size:
  assumes "table_inv d hv t"
  obtains half where "nt_size t = 2 * half" and "0 < half" and "nt_size t div 2 = half"
    and "nt_split t \<le> half"
proof -
  from assms obtain k where k: "nt_size t = 8192 * 2 ^ k"
    by (auto simp: table_inv_def NODE_TABLE_MIN_SIZE_def)
  show thesis
    by (rule that[of "4096 * 2 ^ k"]) (use k assms in \<open>simp_all add: table_inv_def\<close>)
qed

lemma table_invD:
  assumes "table_inv d hv t" and "n \<in> table_elems t"
  shows "n \<in> set (nt_array t ! bucket (nt_size t) (nt_split t) (hv n))"
    and "bucket (nt_size t) (nt_split t) (hv n) < length (nt_array t)"
proof -
  from assms(2) obtain i where i: "i < length (nt_array t)" "n \<in> set (nt_array t ! i)"
    unfolding table_elems_def in_concat_nth by blast
  moreover from assms(1) i have "i = bucket (nt_size t) (nt_split t) (hv n)"
    unfolding table_inv_def by blast
  ultimately show "n \<in> set (nt_array t ! bucket (nt_size t) (nt_split t) (hv n))"
    and "bucket (nt_size t) (nt_split t) (hv n) < length (nt_array t)" by simp_all
qed

lemma table_inv_bucket:
  assumes "table_inv d hv t"
  shows "bucket (nt_size t) (nt_split t) h < nt_size t"
    and "bucket (nt_size t) (nt_split t) h < length (nt_array t)"
proof -
  obtain half where "nt_size t = 2 * half" "0 < half" using table_size[OF assms] by metis
  then show "bucket (nt_size t) (nt_split t) h < nt_size t" by (simp add: bucket_less)
  then show "bucket (nt_size t) (nt_split t) h < length (nt_array t)"
    using assms by (auto simp: table_inv_def)
qed

lemma table_inv_place:
  "table_inv d hv t \<Longrightarrow> i < length (nt_array t) \<Longrightarrow> n \<in> set (nt_array t ! i) \<Longrightarrow>
   i = bucket (nt_size t) (nt_split t) (hv n)"
  unfolding table_inv_def by blast

lemma table_inv_distinct: "table_inv d hv t \<Longrightarrow> distinct (concat (nt_array t))"
  and table_inv_use: "table_inv d hv t \<Longrightarrow> nt_use t = length (concat (nt_array t)) + d"
  and table_inv_sizes: "table_inv d hv t \<Longrightarrow> \<exists>k. nt_size t = NODE_TABLE_MIN_SIZE * 2 ^ k"
    "table_inv d hv t \<Longrightarrow> nt_size t \<le> length (nt_array t)"
    "table_inv d hv t \<Longrightarrow> nt_split t \<le> nt_size t div 2"
  unfolding table_inv_def by blast+

lemma table_invI:
  assumes "\<exists>k. nt_size t = NODE_TABLE_MIN_SIZE * 2 ^ k" and "nt_size t \<le> length (nt_array t)"
    and "nt_split t \<le> nt_size t div 2"
    and "\<And>i n. i < length (nt_array t) \<Longrightarrow> n \<in> set (nt_array t ! i) \<Longrightarrow>
      i = bucket (nt_size t) (nt_split t) (hv n)"
    and "distinct (concat (nt_array t))" and "nt_use t = length (concat (nt_array t)) + d"
  shows "table_inv d hv t"
  unfolding table_inv_def using assms by blast

text \<open>The invariant from the multiset of elements and the place of each.\<close>

lemma table_inv_transfer:
  assumes inv: "table_inv d hv t" and ms: "mset (concat (nt_array t')) = mset (concat (nt_array t))"
    and use: "nt_use t' = nt_use t"
    and sz: "\<exists>k. nt_size t' = NODE_TABLE_MIN_SIZE * 2 ^ k" "nt_size t' \<le> length (nt_array t')"
      "nt_split t' \<le> nt_size t' div 2"
    and pl: "\<And>i n. i < length (nt_array t') \<Longrightarrow> n \<in> set (nt_array t' ! i) \<Longrightarrow>
       i = bucket (nt_size t') (nt_split t') (hv n)"
  shows "table_inv d hv t' \<and> table_elems t' = table_elems t"
proof -
  have "distinct (concat (nt_array t))" using inv unfolding table_inv_def by blast
  then have "distinct (concat (nt_array t'))" unfolding mset_eq_imp_distinct_iff[OF ms] .
  moreover note mset_eq_length[OF ms]
  moreover have "nt_use t = length (concat (nt_array t)) + d" using inv unfolding table_inv_def by blast
  ultimately have "table_inv d hv t'" unfolding table_inv_def using sz pl use by simp
  then show ?thesis using mset_eq_setD[OF ms] by (simp only: table_elems_def simp_thms)
qed

lemma node_table_reduce_inv:
  assumes inv: "table_inv d hv t" and s0: "nt_split t = 0"
  shows "table_inv d hv (node_table_reduce ok t) \<and> table_elems (node_table_reduce ok t) = table_elems t"
proof (cases "nt_size t div 2 < NODE_TABLE_MIN_SIZE")
  case True
  then show ?thesis using inv by (simp add: node_table_reduce_def)
next
  case False
  from inv obtain k where k: "nt_size t = NODE_TABLE_MIN_SIZE * 2 ^ k" by (auto simp: table_inv_def)
  with False obtain k' where k': "k = Suc k'" by (cases k) (auto simp: NODE_TABLE_MIN_SIZE_def)
  let ?h = "NODE_TABLE_MIN_SIZE * 2 ^ k'"
  have h: "nt_size t = 2 * ?h" "0 < ?h" using k k' by (auto simp: NODE_TABLE_MIN_SIZE_def)
  have len: "2 * ?h \<le> length (nt_array t)" using inv h by (simp add: table_inv_def)
  have low: "i < ?h" if "i < length (nt_array t)" "n \<in> set (nt_array t ! i)" for i n
    using table_inv_place[OF inv that] unfolding h(1) s0 bucket_zero using h(2) by simp
  have upper: "nt_array t ! i = []" if "?h \<le> i" "i < length (nt_array t)" for i
    using low[OF that(2)] that(1) by (cases "nt_array t ! i") auto
  have "concat (drop ?h (nt_array t)) = []"
    by (auto simp: in_set_conv_nth intro!: upper) (use len in linarith)
  then have cc: "concat (take ?h (nt_array t)) = concat (nt_array t)"
    using concat_append[of "take ?h (nt_array t)" "drop ?h (nt_array t)"] by simp
  have q: "?h = 2 * (4096 * 2 ^ k')" "0 < 4096 * (2 :: nat) ^ k'" "?h div 2 = 4096 * 2 ^ k'"
    by (simp_all add: NODE_TABLE_MIN_SIZE_def)
  have red: "node_table_reduce ok t =
      t\<lparr>nt_array := if ok then take ?h (nt_array t) else nt_array t, nt_size := ?h, nt_split := ?h div 2\<rparr>"
    using False h by (simp add: node_table_reduce_def Let_def)
  show ?thesis unfolding red
  proof (rule table_inv_transfer[OF inv])
    fix i n
    assume i: "i < length (nt_array (t\<lparr>nt_array := if ok then take ?h (nt_array t) else nt_array t,
            nt_size := ?h, nt_split := ?h div 2\<rparr>))"
      and n: "n \<in> set (nt_array (t\<lparr>nt_array := if ok then take ?h (nt_array t) else nt_array t,
            nt_size := ?h, nt_split := ?h div 2\<rparr>) ! i)"
    then have i': "i < length (nt_array t)" "n \<in> set (nt_array t ! i)" by (auto split: if_splits)
    then have "i = hv n mod ?h" using table_inv_place[OF inv] unfolding h(1) s0 bucket_zero by blast
    moreover have "bucket ?h (?h div 2) (hv n) = hv n mod ?h"
      unfolding q(3) unfolding q(1) by (rule bucket_full[OF q(2)])
    ultimately show "i = bucket (nt_size (t\<lparr>nt_array := if ok then take ?h (nt_array t) else nt_array t,
            nt_size := ?h, nt_split := ?h div 2\<rparr>))
         (nt_split (t\<lparr>nt_array := if ok then take ?h (nt_array t) else nt_array t,
            nt_size := ?h, nt_split := ?h div 2\<rparr>)) (hv n)" by simp
  qed (use cc len in auto)
qed

lemma remerge_step_inv:
  assumes inv: "table_inv d hv t" and s: "nt_split t = Suc s"
  defines "u \<equiv> s + nt_size t div 2"
  shows "table_inv d hv (t\<lparr>nt_split := s,
      nt_array := (nt_array t)[s := nt_array t ! s @ nt_array t ! u, u := []]\<rparr>) \<and>
    table_elems (t\<lparr>nt_split := s,
      nt_array := (nt_array t)[s := nt_array t ! s @ nt_array t ! u, u := []]\<rparr>) = table_elems t"
proof -
  obtain half where half: "nt_size t = 2 * half" "0 < half" "nt_size t div 2 = half" "nt_split t \<le> half"
    using table_size[OF inv] by metis
  let ?arr = "nt_array t"
  let ?arr1 = "?arr[s := ?arr ! s @ ?arr ! u]"
  have len: "s < length ?arr" "u < length ?arr" "s \<noteq> u"
    using inv half s unfolding table_inv_def u_def by auto
  have "mset (concat ?arr1) = mset (concat ?arr) + mset (?arr ! u)"
    using mset_concat_update[OF len(1), of "?arr ! s @ ?arr ! u"] by simp
  moreover have "mset (concat (?arr1[u := []])) + mset (?arr1 ! u) = mset (concat ?arr1)"
    using mset_concat_update[of u ?arr1 "[]"] len by simp
  ultimately have ms: "mset (concat (?arr1[u := []])) = mset (concat ?arr)" using len by simp
  have pl: "i = bucket (nt_size t) s (hv n)"
    if i: "i < length (?arr1[u := []])" and n: "n \<in> set (?arr1[u := []] ! i)" for i n
  proof -
    have old: "\<exists>j. (if i = s then j = s \<or> j = u else j = i \<and> i \<noteq> u) \<and> j < length ?arr \<and> n \<in> set (?arr ! j)"
      using i n len by (cases "i = u"; cases "i = s"; auto)
    then obtain j where j: "if i = s then j = s \<or> j = u else j = i \<and> i \<noteq> u"
      and jb: "j = bucket (2 * half) (Suc s) (hv n)"
      using table_inv_place[OF inv] unfolding half(1) s by metis
    have sh: "s < half" using half s by simp
    show ?thesis
    proof (cases "hv n mod half = s")
      case True
      then have "j = hv n mod (2 * half)" using jb by (simp add: bucket_Suc)
      with mod_double[OF half(2), of "hv n"] True have "j = s \<or> j = u" by (auto simp: u_def half)
      then have "i = s" using j by (auto split: if_splits)
      then show ?thesis using True half(1) by (simp add: bucket_at_split)
    next
      case False
      then have jb': "j = bucket (2 * half) s (hv n)" using jb by (simp add: bucket_Suc)
      have "j \<noteq> s"
      proof
        assume "j = s"
        then have "hv n mod (2 * half) = s" using jb' False
          by (auto simp: bucket_def Let_def mod_mod_cancel split: if_splits)
        then have "hv n mod half = s mod half" by (metis mod_mod_cancel dvd_triv_right)
        then show False using False sh by simp
      qed
      moreover have "j \<noteq> u"
      proof
        assume "j = u"
        then have "hv n mod (2 * half) = s + half" using jb' mod_less_divisor[OF half(2), of "hv n"] half(3)
          by (auto simp: bucket_def Let_def mod_mod_cancel u_def split: if_splits)
        then have "hv n mod half = (s + half) mod half" by (metis mod_mod_cancel dvd_triv_right)
        then show False using False sh by simp
      qed
      ultimately have "i = j" using j by (auto split: if_splits)
      then show ?thesis using jb' half(1) by simp
    qed
  qed
  show ?thesis
    by (rule table_inv_transfer[OF inv]) (use ms pl inv s in \<open>auto simp: table_inv_def u_def\<close>)
qed

lemma remerge_empty_step_inv:
  assumes inv: "table_inv d hv t" and s: "nt_split t = Suc s"
    and e: "nt_array t ! (s + nt_size t div 2) = []"
  shows "table_inv d hv (t\<lparr>nt_split := s\<rparr>) \<and> table_elems (t\<lparr>nt_split := s\<rparr>) = table_elems t"
proof -
  have "(nt_array t)[s := nt_array t ! s @ nt_array t ! (s + nt_size t div 2), s + nt_size t div 2 := []]
      = nt_array t"
    using e list_update_id[of "nt_array t" "s + nt_size t div 2"] by simp
  then have "t\<lparr>nt_split := s, nt_array := (nt_array t)[s := nt_array t ! s @ nt_array t ! (s + nt_size t div 2),
      s + nt_size t div 2 := []]\<rparr> = t\<lparr>nt_split := s\<rparr>" by simp
  then show ?thesis using remerge_step_inv[OF inv s] by (simp only:)
qed

lemma remerge_loop_inv:
  "table_inv d hv t \<Longrightarrow>
   table_inv d hv (remerge_loop k t) \<and> table_elems (remerge_loop k t) = table_elems t"
proof (induction k t rule: remerge_loop.induct)
  case (2 iter t)
  show ?case
  proof (cases "nt_split t")
    case (Suc s)
    show ?thesis
    proof (cases "nt_array t ! (s + nt_size t div 2) = []")
      case True
      note e = remerge_empty_step_inv[OF "2.prems" Suc True]
      then have "table_inv d hv (remerge_loop iter (t\<lparr>nt_split := s\<rparr>)) \<and>
          table_elems (remerge_loop iter (t\<lparr>nt_split := s\<rparr>)) = table_elems (t\<lparr>nt_split := s\<rparr>)"
        using "2.IH" Suc True by simp
      then show ?thesis using e Suc True by (simp add: Let_def)
    next
      case False
      then show ?thesis using remerge_step_inv[OF "2.prems" Suc] Suc by (simp add: Let_def)
    qed
  qed (use 2 in simp)
qed simp

lemma remerge_inv:
  "table_inv d hv t \<Longrightarrow> table_inv d hv (remerge ok t) \<and> table_elems (remerge ok t) = table_elems t"
  using node_table_reduce_inv[of d hv t ok] remerge_loop_inv[of d hv _ 8]
  by (simp add: remerge_def del: remerge_loop.simps)

lemma node_table_resize_inv:
  assumes inv: "table_inv d hv t" and s: "nt_split t = nt_size t div 2"
  shows "table_inv d hv (node_table_resize ok t) \<and> table_elems (node_table_resize ok t) = table_elems t"
proof (cases ok)
  case True
  obtain half where half: "nt_size t = 2 * half" "0 < half" "nt_size t div 2 = half"
    using table_size[OF inv] by metis
  let ?arr = "nt_array t" and ?n = "nt_size t"
  have full: "bucket ?n (nt_split t) h = h mod ?n" for h
    unfolding s half(3) unfolding half(1) by (rule bucket_full[OF half(2)])
  have len: "?n \<le> length ?arr" using inv by (simp add: table_inv_def)
  have low: "i < ?n" if "i < length ?arr" "n \<in> set (?arr ! i)" for i n
    using table_inv_place[OF inv that] full half by simp
  have upper: "?arr ! i = []" if "?n \<le> i" "i < length ?arr" for i
    using low[OF that(2)] that(1) by (cases "?arr ! i") auto
  have "concat (drop ?n ?arr) = []"
    by (auto simp: in_set_conv_nth intro!: upper) (use len in linarith)
  then have cc: "concat (take ?n ?arr) = concat ?arr"
    using concat_append[of "take ?n ?arr" "drop ?n ?arr"] by simp
  have rep: "concat (replicate ?n []) = []" by (simp add: concat_replicate_trivial)
  have pl: "i = h mod ?n" if "i < ?n" "n \<in> set (?arr ! i)" "h = hv n" for i n h
    using table_inv_place[OF inv _ that(2)] that len full by simp
  from inv obtain k where k: "?n = NODE_TABLE_MIN_SIZE * 2 ^ k" by (auto simp: table_inv_def)
  show ?thesis unfolding node_table_resize_def using True
  proof (simp, intro table_inv_transfer[OF inv])
    show "\<exists>k. nt_size (t\<lparr>nt_array := take ?n ?arr @ replicate ?n [], nt_size := 2 * ?n, nt_split := 0\<rparr>)
        = NODE_TABLE_MIN_SIZE * 2 ^ k"
      using k by (intro exI[of _ "Suc k"]) simp
    fix i n
    assume "i < length (nt_array (t\<lparr>nt_array := take ?n ?arr @ replicate ?n [], nt_size := 2 * ?n,
          nt_split := 0\<rparr>))"
      and "n \<in> set (nt_array (t\<lparr>nt_array := take ?n ?arr @ replicate ?n [], nt_size := 2 * ?n,
          nt_split := 0\<rparr>) ! i)"
    then have "i < ?n" "n \<in> set (?arr ! i)" using len
      by (auto simp: nth_append min_absorb2 split: if_splits)
    then show "i = bucket (nt_size (t\<lparr>nt_array := take ?n ?arr @ replicate ?n [], nt_size := 2 * ?n,
          nt_split := 0\<rparr>)) (nt_split (t\<lparr>nt_array := take ?n ?arr @ replicate ?n [], nt_size := 2 * ?n,
          nt_split := 0\<rparr>)) (hv n)"
      using pl by (simp add: bucket_zero)
  qed (use cc rep len in auto)
qed (use inv in \<open>simp add: node_table_resize_def\<close>)

lemma rehash_inv:
  assumes inv: "table_inv d hv t"
  shows "table_inv d hv (rehash ok hv t) \<and> table_elems (rehash ok hv t) = table_elems t"
proof (cases "nt_split t = nt_size t div 2")
  case True
  then show ?thesis using inv by (simp add: rehash_def)
next
  case False
  obtain half where half: "nt_size t = 2 * half" "0 < half" "nt_size t div 2 = half" "nt_split t \<le> half"
    using table_size[OF inv] by metis
  let ?s = "nt_split t" and ?arr = "nt_array t"
  let ?nh = "\<lambda>n. bucket (nt_size t) (Suc ?s) (hv n)"
  let ?arr' = "rehash_loop ?nh ?s [] (?arr ! ?s) ?arr"
  let ?t = "t\<lparr>nt_split := Suc ?s, nt_array := ?arr'\<rparr>"
  have sh: "?s < half" using False half by simp
  have len: "nt_size t \<le> length ?arr" using inv by (simp add: table_inv_def)
  have ls: "?s < length ?arr" using sh half len by simp
  have nb: "?nh n < length ?arr" for n using bucket_less[OF half(2), of "Suc ?s" "hv n"] half(1) len by simp
  have ms: "mset (concat ?arr') = mset (concat ?arr)"
    using rehash_loop_mset[OF ls, of "?arr ! ?s" ?nh "[]"] nb by simp
  have "table_inv d hv ?t \<and> table_elems ?t = table_elems t"
  proof (rule table_inv_transfer[OF inv])
    fix i n assume i: "i < length (nt_array ?t)" and n: "n \<in> set (nt_array ?t ! i)"
    from i n have "n \<in> (if i = ?s then {} else set (?arr ! i)) \<union> {n \<in> set (?arr ! ?s). ?nh n = i}"
      using rehash_loop_nth[OF ls, of "?arr ! ?s" ?nh i "[]"] nb by (simp split: if_splits)
    then consider "i \<noteq> ?s" "n \<in> set (?arr ! i)" | "?nh n = i" by (auto split: if_splits)
    then show "i = bucket (nt_size ?t) (nt_split ?t) (hv n)"
    proof cases
      case 1
      then have ib: "i = bucket (2 * half) ?s (hv n)" using table_inv_place[OF inv] i half(1) by simp
      have "hv n mod half \<noteq> ?s" using 1(1) ib bucket_at_split by metis
      then show ?thesis using ib half(1) by (simp add: bucket_Suc)
    qed simp
  qed (use ms inv len sh half in \<open>auto simp: table_inv_def\<close>)
  then have ti: "table_inv d hv ?t" and te: "table_elems ?t = table_elems t" by blast+
  show ?thesis
  proof (cases "Suc ?s = nt_size t div 2")
    case True
    then have "nt_split ?t = nt_size ?t div 2" by simp
    from node_table_resize_inv[OF ti this, of ok] te
    have "table_inv d hv (node_table_resize ok ?t) \<and> table_elems (node_table_resize ok ?t) = table_elems t"
      by metis
    moreover have "rehash ok hv t = node_table_resize ok ?t"
      using False True by (simp add: rehash_def Let_def)
    ultimately show ?thesis by (simp only:)
  next
    case no: False
    have "rehash ok hv t = ?t" using False no by (simp add: rehash_def Let_def)
    then show ?thesis using ti te by (simp only: simp_thms)
  qed
qed

lemma table_link_inv:
  assumes inv: "table_inv d hv t" and new: "n \<notin> table_elems t"
  shows "table_inv d hv (table_link ok hv n t) \<and> table_elems (table_link ok hv n t) = insert n (table_elems t)"
proof -
  let ?b = "bucket (nt_size t) (nt_split t) (hv n)" and ?arr = "nt_array t"
  let ?t = "t\<lparr>nt_array := ?arr[?b := n # ?arr ! ?b], nt_use := Suc (nt_use t)\<rparr>"
  have b: "?b < length ?arr" using table_inv_bucket[OF inv] by blast
  have ms: "mset (concat (?arr[?b := n # ?arr ! ?b])) = mset (n # concat ?arr)"
    using mset_concat_update[OF b, of "n # ?arr ! ?b"] by simp
  have dist: "distinct (concat (?arr[?b := n # ?arr ! ?b]))"
    unfolding mset_eq_imp_distinct_iff[OF ms]
    using table_inv_distinct[OF inv] new by (simp add: table_elems_def)
  have len: "length (concat (?arr[?b := n # ?arr ! ?b])) = Suc (length (concat ?arr))"
    using mset_eq_length[OF ms] by simp
  have pl: "i = bucket (nt_size t) (nt_split t) (hv x)"
    if "i < length ?arr" "x \<in> set (?arr[?b := n # ?arr ! ?b] ! i)" for i x
    using that table_inv_place[OF inv, of i x] b by (auto simp: nth_list_update split: if_splits)
  have inv1: "table_inv d hv ?t"
  proof (rule table_invI)
    fix i x assume "i < length (nt_array ?t)" and "x \<in> set (nt_array ?t ! i)"
    then show "i = bucket (nt_size ?t) (nt_split ?t) (hv x)" using pl[of i x] by simp
  qed (use table_inv_sizes[OF inv] table_inv_use[OF inv] dist len in auto)
  have el: "table_elems ?t = insert n (table_elems t)"
    using mset_eq_setD[OF ms] by (simp add: table_elems_def)
  show ?thesis
    using inv1 el rehash_inv[OF inv1, of ok] by (simp add: table_link_def Let_def)
qed

lemma table_chain_del_inv:
  assumes inv: "table_inv d hv t" and n: "n \<in> table_elems t"
  defines "t' \<equiv> table_chain_del (bucket (nt_size t) (nt_split t) (hv n)) n t"
  shows "table_inv (Suc d) hv t'" and "table_elems t' = table_elems t - {n}"
    and "length (concat (nt_array t)) = Suc (length (concat (nt_array t')))"
proof -
  let ?b = "bucket (nt_size t) (nt_split t) (hv n)" and ?arr = "nt_array t"
  note b = table_invD[OF inv n]
  have "mset (concat (?arr[?b := remove1 n (?arr ! ?b)])) + mset (?arr ! ?b)
      = mset (concat ?arr) + (mset (?arr ! ?b) - {#n#})"
    using mset_concat_update[OF b(2), of "remove1 n (?arr ! ?b)"] by simp
  then have ms: "add_mset n (mset (concat (?arr[?b := remove1 n (?arr ! ?b)]))) = mset (concat ?arr)"
    using b(1) by (metis add_mset_remove_trivial_If add_right_cancel set_mset_mset
        insert_DiffM union_mset_add_mset_left union_mset_add_mset_right)
  then have ms': "mset (n # concat (?arr[?b := remove1 n (?arr ! ?b)])) = mset (concat ?arr)" by simp
  have dist: "distinct (n # concat (?arr[?b := remove1 n (?arr ! ?b)]))"
    unfolding mset_eq_imp_distinct_iff[OF ms'] using inv unfolding table_inv_def by blast
  have len: "length (concat ?arr) = Suc (length (concat (?arr[?b := remove1 n (?arr ! ?b)])))"
    using mset_eq_length[OF ms'] by simp
  then show "length (concat (nt_array t)) = Suc (length (concat (nt_array t')))"
    by (simp add: t'_def table_chain_del_def)
  have pl: "i = bucket (nt_size t) (nt_split t) (hv x)"
    if "i < length ?arr" "x \<in> set (?arr[?b := remove1 n (?arr ! ?b)] ! i)" for i x
    using that table_inv_place[OF inv, of i x] b(2) set_remove1_subset[of n "?arr ! ?b"]
    by (auto simp: nth_list_update split: if_splits)
  show "table_inv (Suc d) hv t'"
  proof (rule table_invI)
    fix i x assume "i < length (nt_array t')" and "x \<in> set (nt_array t' ! i)"
    then show "i = bucket (nt_size t') (nt_split t') (hv x)"
      using pl[of i x] by (simp add: t'_def table_chain_del_def)
  qed (use table_inv_sizes[OF inv] table_inv_use[OF inv] dist len in
      \<open>auto simp: t'_def table_chain_del_def\<close>)
  show "table_elems t' = table_elems t - {n}"
    using mset_eq_setD[OF ms'] dist by (auto simp: table_elems_def t'_def table_chain_del_def)
qed

lemma table_count_out_inv:
  assumes "table_inv (Suc d) hv t"
  shows "table_inv d hv (table_count_out ok t) \<and> table_elems (table_count_out ok t) = table_elems t"
proof -
  have "table_inv d hv (t\<lparr>nt_use := nt_use t - 1\<rparr>)" using assms unfolding table_inv_def by simp
  then show ?thesis using remerge_inv[of d hv "t\<lparr>nt_use := nt_use t - 1\<rparr>" ok]
    by (simp add: table_count_out_def Let_def table_elems_def)
qed

lemma node_table_init_inv:
  "table_inv 0 hv node_table_init" "table_elems node_table_init = {}"
  by (auto simp: table_inv_def node_table_init_def table_elems_def NODE_TABLE_MIN_SIZE_def
      concat_replicate_trivial simp del: replicate.simps intro: exI[of _ 0])

subsection \<open>The interface the node code uses\<close>

text \<open>
  What the node layer relies on of either table, whatever its hash function: linking and
  unlinking change the set of linked nodes and nothing else, and the chain of a key holds
  every linked node with that key. Lookups by key are then correct.
\<close>

locale node_index =
  fixes inv :: "'t \<Rightarrow> bool" and elems :: "'t \<Rightarrow> 'n set"
    and link :: "'n \<Rightarrow> 't \<Rightarrow> 't" and unlink :: "'n \<Rightarrow> 't \<Rightarrow> 't"
    and chain :: "'t \<Rightarrow> 'k \<Rightarrow> 'n list" and key :: "'n \<Rightarrow> 'k"
  assumes link_law: "inv t \<Longrightarrow> n \<notin> elems t \<Longrightarrow> inv (link n t) \<and> elems (link n t) = insert n (elems t)"
    and unlink_law: "inv t \<Longrightarrow> n \<in> elems t \<Longrightarrow> inv (unlink n t) \<and> elems (unlink n t) = elems t - {n}"
    and chain_complete: "inv t \<Longrightarrow> n \<in> elems t \<Longrightarrow> n \<in> set (chain t (key n))"
    and chain_sound: "inv t \<Longrightarrow> set (chain t k) \<subseteq> elems t"
begin

lemma find_complete:
  assumes "inv t" and "n \<in> elems t" and "inj_on key (elems t)"
  shows "find (\<lambda>x. key x = key n) (chain t (key n)) = Some n"
proof -
  have "n \<in> set (chain t (key n))" using assms chain_complete by blast
  then have "find (\<lambda>x. key x = key n) (chain t (key n)) \<noteq> None" by (auto simp: find_None_iff)
  then obtain x where x: "find (\<lambda>x. key x = key n) (chain t (key n)) = Some x" by blast
  then have "x \<in> elems t" "key x = key n"
    using chain_sound[OF assms(1)] find_SomeD[OF x] by auto
  then show ?thesis using x inj_onD[OF assms(3), of x n] assms(2) by simp
qed

lemma find_sound:
  assumes "inv t" and "find (\<lambda>x. key x = k) (chain t k) = Some n"
  shows "n \<in> elems t \<and> key n = k"
  using find_SomeD[OF assms(2)] chain_sound[OF assms(1), of k] by auto

lemma find_iff:
  assumes "inv t" and "inj_on key (elems t)"
  shows "find (\<lambda>x. key x = k) (chain t k) = Some n \<longleftrightarrow> n \<in> elems t \<and> key n = k"
  using find_complete[OF assms(1) _ assms(2)] find_sound[OF assms(1)] by blast

lemma find_None:
  assumes "inv t" and "inj_on key (elems t)"
  shows "find (\<lambda>x. key x = k) (chain t k) = None \<longleftrightarrow> (\<forall>n \<in> elems t. key n \<noteq> k)"
proof (cases "find (\<lambda>x. key x = k) (chain t k)")
  case None
  then show ?thesis using find_iff[OF assms, of k] by force
next
  case (Some n)
  then show ?thesis using find_iff[OF assms, of k n] by force
qed

lemma find_link:
  assumes "inv t" and "n \<notin> elems t" and "inj_on key (insert n (elems t))"
  shows "find (\<lambda>x. key x = k) (chain (link n t) k)
    = (if k = key n then Some n else find (\<lambda>x. key x = k) (chain t k))"
proof -
  have l: "inv (link n t)" "elems (link n t) = insert n (elems t)" using link_law[OF assms(1,2)] by auto
  have inj: "inj_on key (elems (link n t))" "inj_on key (elems t)"
    using assms(3) l by (auto simp: inj_on_def)
  have un: "x \<in> elems t \<Longrightarrow> key x = key n \<Longrightarrow> x = n" for x using inj_onD[OF assms(3), of x n] by simp
  show ?thesis
    by (rule option_eqI) (use un in \<open>auto simp: find_iff[OF l(1) inj(1)] find_iff[OF assms(1) inj(2)] l(2)\<close>)
qed

lemma find_unlink:
  assumes "inv t" and "n \<in> elems t" and "inj_on key (elems t)"
  shows "find (\<lambda>x. key x = k) (chain (unlink n t) k)
    = (if k = key n then None else find (\<lambda>x. key x = k) (chain t k))"
proof -
  have l: "inv (unlink n t)" "elems (unlink n t) = elems t - {n}" using unlink_law[OF assms(1,2)] by auto
  have inj: "inj_on key (elems (unlink n t))" using assms(3) l by (auto simp: inj_on_def)
  have un: "x \<in> elems t \<Longrightarrow> key x = key n \<Longrightarrow> x = n" for x using assms(2,3) by (auto dest: inj_onD)
  show ?thesis
    by (rule option_eqI) (use un in \<open>auto simp: find_iff[OF l(1) inj] find_iff[OF assms(1,3)] l(2)\<close>)
qed

end

definition unlink_name :: "bool \<Rightarrow> ('n \<Rightarrow> 64 word \<times> string) \<Rightarrow> 'n \<Rightarrow> 'n node_table \<Rightarrow> 'n node_table" where
  "unlink_name ok nkey n t =
     table_count_out ok (table_chain_del (name_hash t (fst (nkey n)) (snd (nkey n))) n t)"

definition link_name :: "bool \<Rightarrow> ('n \<Rightarrow> 64 word \<times> string) \<Rightarrow> 'n \<Rightarrow> 'n node_table \<Rightarrow> 'n node_table" where
  "link_name ok nkey n t = table_link ok (\<lambda>n. name_key_hv (nkey n)) n t"

interpretation id_index: node_index "table_inv 0 (\<lambda>n. id_hv (nid n))" table_elems
  "hash_id ok nid" "unhash_id ok nid" "\<lambda>t k. nt_array t ! id_hash t k" nid
  for ok :: bool and nid :: "'n \<Rightarrow> 64 word"
proof (unfold_locales, goal_cases)
  case (1 t n)
  then show ?case by (simp add: hash_id_def table_link_inv)
next
  case (2 t n)
  note d = table_chain_del_inv[OF 2]
  have "n \<in> set (nt_array t ! id_hash t (nid n))" using table_invD[OF 2] by (simp add: id_hash_def)
  then show ?case
    using table_count_out_inv[OF d(1), of ok] d(2) by (simp add: unhash_id_def id_hash_def)
next
  case (3 t n)
  then show ?case using table_invD[OF 3] by (simp add: id_hash_def)
next
  case (4 t k)
  then show ?case using nth_subset_concat[OF table_inv_bucket(2)[OF 4, of "id_hv k"]]
    by (simp add: id_hash_def table_elems_def)
qed

interpretation name_index: node_index "table_inv 0 (\<lambda>n. name_key_hv (nkey n))" table_elems
  "link_name ok nkey" "unlink_name ok nkey" "\<lambda>t k. nt_array t ! name_hash t (fst k) (snd k)" nkey
  for ok :: bool and nkey :: "'n \<Rightarrow> 64 word \<times> string"
proof (unfold_locales, goal_cases)
  case (1 t n)
  then show ?case by (simp add: link_name_def table_link_inv)
next
  case (2 t n)
  note d = table_chain_del_inv[OF 2]
  have "table_inv 0 (\<lambda>n. name_key_hv (nkey n)) (unlink_name ok nkey n t) \<and>
      table_elems (unlink_name ok nkey n t) = table_elems t - {n}"
    using table_count_out_inv[OF d(1), of ok] d(2)
    by (simp add: unlink_name_def name_hash_def name_key_hv_def)
  then show ?case .
next
  case (3 t n)
  then show ?case using table_invD[OF 3] by (simp add: name_hash_def name_key_hv_def)
next
  case (4 t k)
  then show ?case using nth_subset_concat[OF table_inv_bucket(2)[OF 4, of "name_hv (fst k) (snd k)"]]
    by (simp add: name_hash_def table_elems_def)
qed

lemma get_node_nocheck_iff:
  assumes "table_inv 0 (\<lambda>n. id_hv (nid n)) t" and "inj_on nid (table_elems t)"
  shows "get_node_nocheck nid t i = Some n \<longleftrightarrow> n \<in> table_elems t \<and> nid n = i"
  using id_index.find_iff[OF assms, where k = i and n = n] by (simp add: get_node_nocheck_def)

lemma get_node_nocheck_None:
  assumes "table_inv 0 (\<lambda>n. id_hv (nid n)) t" and "inj_on nid (table_elems t)"
  shows "get_node_nocheck nid t i = None \<longleftrightarrow> (\<forall>n \<in> table_elems t. nid n \<noteq> i)"
  using id_index.find_None[OF assms, where k = i] by (simp add: get_node_nocheck_def)

subsection \<open>Properties\<close>

text \<open>Inserting a node into the id table, with all the bucket splitting and
  array growth this triggers (even when the array cannot grow), keeps the table invariant,
  and afterwards a lookup finds the new node under its id and every other id as before.\<close>

theorem hash_id_lookup:
  assumes "table_inv 0 (\<lambda>n. id_hv (nid n)) t" and "n \<notin> table_elems t"
    and "inj_on nid (insert n (table_elems t))"
  shows "table_inv 0 (\<lambda>n. id_hv (nid n)) (hash_id ok nid n t) \<and>
    get_node_nocheck nid (hash_id ok nid n t) i
      = (if i = nid n then Some n else get_node_nocheck nid t i)"
  using id_index.link_law[where ok = ok, OF assms(1,2)] id_index.find_link[where ok = ok and k = i, OF assms]
  by (simp add: get_node_nocheck_def)

theorem hash_id_lookup_witness:
  "table_inv 0 (\<lambda>n. id_hv (of_nat n)) (hash_id True of_nat (7 :: nat) node_table_init) \<and>
    get_node_nocheck of_nat (hash_id True of_nat (7 :: nat) node_table_init) 7 = Some 7"
  using hash_id_lookup[OF node_table_init_inv(1), of "7 :: nat" of_nat True 7]
  by (simp add: node_table_init_inv)

text \<open>Removing a linked node, with all the bucket merging and array
  shrinking this triggers, keeps the table invariant; its id is no longer found and every
  other id is found as before.\<close>

theorem unhash_id_lookup:
  assumes "table_inv 0 (\<lambda>n. id_hv (nid n)) t" and "n \<in> table_elems t" and "inj_on nid (table_elems t)"
  shows "table_inv 0 (\<lambda>n. id_hv (nid n)) (unhash_id ok nid n t) \<and>
    get_node_nocheck nid (unhash_id ok nid n t) i
      = (if i = nid n then None else get_node_nocheck nid t i)"
  using id_index.unlink_law[where ok = ok, OF assms(1,2)] id_index.find_unlink[where ok = ok and k = i, OF assms]
  by (simp add: get_node_nocheck_def)

theorem unhash_id_lookup_witness:
  "get_node_nocheck of_nat (unhash_id True of_nat (7 :: nat)
     (hash_id True of_nat 7 node_table_init)) 7 = None"
proof -
  note h = id_index.link_law[where ok = True and n = "7 :: nat" and nid = of_nat, OF node_table_init_inv(1)]
  show ?thesis
    using unhash_id_lookup[of of_nat "hash_id True of_nat (7 :: nat) node_table_init" 7 True 7] h
    by (simp add: node_table_init_inv)
qed

text \<open>Claim C34 (rehash_refines_identity). One step of splitting a bucket (with the doubling of the
  array when the last bucket has been split) and one round of merging (with the halving of
  the array) keep the invariant and lose or duplicate no node, for either table: the nodes
  in the table are the same, each once, and each in the bucket where a lookup will search
  for it.\<close>

theorem rehash_refines_identity:
  assumes "table_inv d hv t"
  shows "table_inv d hv (rehash ok hv t) \<and> table_elems (rehash ok hv t) = table_elems t \<and>
    table_inv d hv (remerge ok t) \<and> table_elems (remerge ok t) = table_elems t"
  using rehash_inv[OF assms] remerge_inv[OF assms] by blast

theorem rehash_refines_identity_witness:
  "table_inv 0 id (rehash True id (node_table_init :: nat node_table))"
  using rehash_refines_identity[OF node_table_init_inv(1), of id True] by blast

end
