(* ===== verification/Fuse_Nodes.thy ===== *)
theory Fuse_Nodes
  imports Fuse_Node_Table
begin

text \<open>
  The node tree of the high-level library (\<open>lib/fuse.c\<close>): nodes with reference and lookup
  counts, linked to their parents and into the two node tables.

  Node objects live in a heap, a partial map from addresses to nodes; a pointer to a freed
  node is not in its domain. The chain links are in the tables (\<open>Fuse_Node_Table\<close>). A failed
  \<open>assert\<close>, a call of \<open>abort()\<close>, and a dereference of a null or freed pointer are all
  \<open>Aborted\<close>. The counters \<open>refctr\<close> and \<open>nlookup\<close> are natural numbers (the code's would wrap
  only after \<open>2 ^ 31\<close> references); reallocation failure is decided by \<open>f_realloc\<close>, a function
  of the current table size; the result of \<open>alloc_node\<close> and of \<open>strdup\<close>, and the time, are
  arguments.
\<close>

subsection \<open>State\<close>

record node =
  nodeid :: "64 word"
  n_generation :: "32 word"
  refctr :: nat
  n_parent :: "nat option"
  n_name :: "string option"
  nlookup :: nat
  open_count :: nat
  is_hidden :: bool
  treelock :: int
  forget_time :: int

record fuse =
  f_nodes :: "nat \<Rightarrow> node option"
  name_table :: "nat node_table"
  id_table :: "nat node_table"
  lru_table :: "nat list"
  f_ctr :: "64 word"
  f_generation :: "32 word"
  conf_remember :: int
  f_realloc :: "nat \<Rightarrow> bool"

definition FUSE_ROOT_ID :: "64 word" where "FUSE_ROOT_ID = 1"
definition FUSE_UNKNOWN_INO :: "64 word" where "FUSE_UNKNOWN_INO = 0xffffffff"

definition nid :: "fuse \<Rightarrow> nat \<Rightarrow> 64 word" where
  "nid f p = (case f_nodes f p of Some n \<Rightarrow> nodeid n | None \<Rightarrow> 0)"

text \<open>A node's key in the name table: \<open>node->parent->nodeid\<close> and \<open>node->name\<close>.\<close>

definition nkey :: "fuse \<Rightarrow> nat \<Rightarrow> 64 word \<times> string" where
  "nkey f p = (case f_nodes f p of
      Some n \<Rightarrow> (case n_parent n of Some q \<Rightarrow> nid f q | None \<Rightarrow> 0, case n_name n of Some s \<Rightarrow> s | None \<Rightarrow> [])
    | None \<Rightarrow> (0, []))"

definition upd_node :: "nat \<Rightarrow> (node \<Rightarrow> node) \<Rightarrow> fuse \<Rightarrow> fuse" where
  "upd_node p g f = f\<lparr>f_nodes := (f_nodes f)(p := map_option g (f_nodes f p))\<rparr>"

subsection \<open>Operations\<close>

definition lru_enabled :: "fuse \<Rightarrow> bool" where
  "lru_enabled f \<longleftrightarrow> 0 < conf_remember f"

definition get_node :: "fuse \<Rightarrow> 64 word \<Rightarrow> nat outcome" where
  "get_node f i = (case get_node_nocheck (nid f) (id_table f) i of None \<Rightarrow> Aborted | Some p \<Rightarrow> Done p)"

definition remove_node_lru :: "nat \<Rightarrow> fuse \<Rightarrow> fuse" where
  "remove_node_lru p f = f\<lparr>lru_table := remove1 p (lru_table f)\<rparr>"

definition set_forget_time :: "int \<Rightarrow> nat \<Rightarrow> fuse \<Rightarrow> fuse" where
  "set_forget_time now p f =
     upd_node p (\<lambda>n. n\<lparr>forget_time := now\<rparr>) (f\<lparr>lru_table := remove1 p (lru_table f) @ [p]\<rparr>)"

definition free_node :: "nat \<Rightarrow> fuse \<Rightarrow> fuse" where
  "free_node p f = f\<lparr>f_nodes := (f_nodes f)(p := None)\<rparr>"

text \<open>The part of \<open>unhash_name\<close> after the parent has been released.\<close>

definition unhash_name_finish :: "nat \<Rightarrow> fuse \<Rightarrow> fuse" where
  "unhash_name_finish p f =
     (let f1 = upd_node p (\<lambda>n. n\<lparr>n_name := None, n_parent := None\<rparr>) f
      in f1\<lparr>name_table := table_count_out (f_realloc f (nt_size (name_table f))) (name_table f1)\<rparr>)"

text \<open>The part of \<open>delete_node\<close> after \<open>unhash_name\<close>.\<close>

definition delete_node_finish :: "nat \<Rightarrow> fuse \<Rightarrow> fuse" where
  "delete_node_finish p f =
     (let f1 = (if lru_enabled f then remove_node_lru p f else f);
          f2 = f1\<lparr>id_table := unhash_id (f_realloc f (nt_size (id_table f))) (nid f1) p (id_table f1)\<rparr>
      in free_node p f2)"

definition name_chain_size :: "fuse \<Rightarrow> nat" where
  "name_chain_size f = length (concat (nt_array (name_table f)))"

lemma length_concat_remove1:
  assumes "h < length xs" and "p \<in> set (xs ! h)"
  shows "length (concat (xs[h := remove1 p (xs ! h)])) < length (concat xs)"
proof -
  have "size (mset (concat (xs[h := remove1 p (xs ! h)])) + mset (xs ! h))
      = size (mset (concat xs) + mset (remove1 p (xs ! h)))"
    using mset_concat_update[OF assms(1), of "remove1 p (xs ! h)"] by simp
  moreover have "length (remove1 p (xs ! h)) < length (xs ! h)"
    using assms(2) by (metis One_nat_def diff_less length_pos_if_in_set length_remove1 zero_less_one)
  ultimately show ?thesis by (simp only: size_union size_mset)
qed

text \<open>An index outside the bucket array (undefined behaviour in C) is \<open>Aborted\<close> too.\<close>

function unref_node :: "fuse \<Rightarrow> nat \<Rightarrow> fuse outcome"
  and delete_node :: "fuse \<Rightarrow> nat \<Rightarrow> fuse outcome"
  and unhash_name :: "fuse \<Rightarrow> nat \<Rightarrow> fuse outcome" where
  "unref_node f p =
     (case f_nodes f p of
        None \<Rightarrow> Aborted
      | Some n \<Rightarrow>
          if refctr n = 0 then Aborted
          else (let f1 = upd_node p (\<lambda>n. n\<lparr>refctr := refctr n - 1\<rparr>) f
                in if refctr n = 1 then delete_node f1 p else Done f1))"
| "delete_node f p =
     (case f_nodes f p of
        None \<Rightarrow> Aborted
      | Some n \<Rightarrow>
          if treelock n \<noteq> 0 then Aborted
          else obind (unhash_name f p) (\<lambda>f1. Done (delete_node_finish p f1)))"
| "unhash_name f p =
     (case f_nodes f p of
        None \<Rightarrow> Aborted
      | Some n \<Rightarrow>
        (case n_name n of
           None \<Rightarrow> Done f
         | Some nm \<Rightarrow>
           (case n_parent n of
              None \<Rightarrow> Aborted
            | Some pp \<Rightarrow>
              (case f_nodes f pp of
                 None \<Rightarrow> Aborted
               | Some pn \<Rightarrow>
                   (let hash = name_hash (name_table f) (nodeid pn) nm in
                    if hash < length (nt_array (name_table f)) \<and> p \<in> set (nt_array (name_table f) ! hash)
                    then obind (unref_node (f\<lparr>name_table := table_chain_del hash p (name_table f)\<rparr>) pp)
                           (\<lambda>f2. Done (unhash_name_finish p f2))
                    else Aborted)))))"
  by pat_completeness auto
termination
proof (relation "measure (\<lambda>x. case x of
      Inl (f, p) \<Rightarrow> 3 * name_chain_size f + 2
    | Inr (Inl (f, p)) \<Rightarrow> 3 * name_chain_size f + 1
    | Inr (Inr (f, p)) \<Rightarrow> 3 * name_chain_size f)", goal_cases)
  case (4 f p n nm pp pn hash)
  then show ?case
    using length_concat_remove1[of hash "nt_array (name_table f)" p]
    by (simp add: name_chain_size_def table_chain_del_def)
qed (auto simp: name_chain_size_def upd_node_def)

declare unref_node.simps [simp del] delete_node.simps [simp del] unhash_name.simps [simp del]

definition inc_nlookup :: "nat \<Rightarrow> fuse \<Rightarrow> fuse" where
  "inc_nlookup p f = upd_node p (\<lambda>n. n\<lparr>refctr := (if nlookup n = 0 then refctr n + 1 else refctr n),
     nlookup := nlookup n + 1\<rparr>) f"

definition lookup_node :: "fuse \<Rightarrow> 64 word \<Rightarrow> string \<Rightarrow> nat option" where
  "lookup_node f parent name = lookup_chain (nkey f) (name_table f) parent name"

text \<open>\<open>hash_name\<close>: the boolean is the C return value being 0. Names of 32 bytes and more are
  duplicated on the heap, which may fail.\<close>

definition hash_name :: "bool \<Rightarrow> nat \<Rightarrow> 64 word \<Rightarrow> string \<Rightarrow> fuse \<Rightarrow> (bool \<times> fuse) outcome" where
  "hash_name dup_ok p parentid name f =
     obind (get_node f parentid) (\<lambda>pp.
       if f_nodes f p = None then Aborted
       else if \<not> length name < 32 \<and> \<not> dup_ok
       then Done (False, upd_node p (\<lambda>n. n\<lparr>n_name := None\<rparr>) f)
       else (let f1 = upd_node p (\<lambda>n. n\<lparr>n_name := Some name\<rparr>) f;
                 f2 = upd_node pp (\<lambda>n. n\<lparr>refctr := refctr n + 1\<rparr>) f1;
                 f3 = upd_node p (\<lambda>n. n\<lparr>n_parent := Some pp\<rparr>) f2
             in Done (True, f3\<lparr>name_table :=
                  link_name (f_realloc f (nt_size (name_table f))) (nkey f3) p (name_table f3)\<rparr>)))"

text \<open>\<open>next_id\<close>: the search for an unused id; it does not return if every id is taken.\<close>

partial_function (option) next_id_loop ::
  "(64 word \<Rightarrow> bool) \<Rightarrow> 64 word \<Rightarrow> 32 word \<Rightarrow> (64 word \<times> 32 word) option" where
  "next_id_loop taken ctr gen =
     (let ctr' = (ctr + 1) AND 0xffffffff;
          gen' = (if ctr' = 0 then gen + 1 else gen)
      in if ctr' = 0 \<or> ctr' = FUSE_UNKNOWN_INO \<or> taken ctr'
         then next_id_loop taken ctr' gen' else Some (ctr', gen'))"

definition next_id :: "fuse \<Rightarrow> (64 word \<times> fuse) option" where
  "next_id f =
     map_option (\<lambda>(ctr, gen). (ctr, f\<lparr>f_ctr := ctr, f_generation := gen\<rparr>))
       (next_id_loop (\<lambda>i. get_node_nocheck (nid f) (id_table f) i \<noteq> None) (f_ctr f) (f_generation f))"

definition zero_node :: node where
  "zero_node = \<lparr>nodeid = 0, n_generation = 0, refctr = 0, n_parent = None, n_name = None, nlookup = 0,
     open_count = 0, is_hidden = False, treelock = 0, forget_time = 0\<rparr>"

text \<open>\<open>find_node\<close>. \<open>newp\<close> is the result of \<open>alloc_node\<close>, were it called; \<open>None\<close> as a whole is a
  search for a free id that never ends; the pointer in the result is the C return value.\<close>

definition find_node_new :: "nat \<Rightarrow> bool \<Rightarrow> 64 word \<Rightarrow> string \<Rightarrow> fuse \<Rightarrow> (nat option \<times> fuse) outcome option" where
  "find_node_new p dup_ok parent name f =
     (let f1 = f\<lparr>f_nodes := (f_nodes f)(p \<mapsto> zero_node)\<rparr> in
      case next_id f1 of
        None \<Rightarrow> None
      | Some (i, f2) \<Rightarrow>
          (let f3 = upd_node p (\<lambda>n. n\<lparr>nodeid := i, n_generation := f_generation f2\<rparr>) f2;
               f4 = (if conf_remember f3 \<noteq> 0 then inc_nlookup p f3 else f3)
           in Some (obind (hash_name dup_ok p parent name f4) (\<lambda>(ok, f5).
                if \<not> ok then Done (None, free_node p f5)
                else (let f6 = f5\<lparr>id_table := hash_id (f_realloc f5 (nt_size (id_table f5))) (nid f5) p (id_table f5)\<rparr>
                      in Done (Some p, inc_nlookup p f6))))))"

definition find_node :: "nat option \<Rightarrow> bool \<Rightarrow> 64 word \<Rightarrow> string option \<Rightarrow> fuse \<Rightarrow>
    (nat option \<times> fuse) outcome option" where
  "find_node newp dup_ok parent name f =
     (case (case name of
              None \<Rightarrow> obind (get_node f parent) (\<lambda>p. Done (Some p))
            | Some nm \<Rightarrow> Done (lookup_node f parent nm)) of
        Aborted \<Rightarrow> Some Aborted
      | Done (Some p) \<Rightarrow>
          Some (case f_nodes f p of
              None \<Rightarrow> Aborted
            | Some n \<Rightarrow>
                (let f1 = (if lru_enabled f \<and> nlookup n = 1 then remove_node_lru p f else f)
                 in Done (Some p, inc_nlookup p f1)))
      | Done None \<Rightarrow>
          (case newp of
             None \<Rightarrow> Some (Done (None, f))
           | Some p \<Rightarrow> find_node_new p dup_ok parent (case name of Some nm \<Rightarrow> nm | None \<Rightarrow> []) f))"

text \<open>\<open>forget_node\<close>: \<open>None\<close> while the code waits for the node's tree lock to be released.\<close>

definition forget_node :: "int \<Rightarrow> 64 word \<Rightarrow> nat \<Rightarrow> fuse \<Rightarrow> fuse outcome option" where
  "forget_node now i k f =
     (if i = FUSE_ROOT_ID then Some (Done f)
      else case get_node f i of
        Aborted \<Rightarrow> Some Aborted
      | Done p \<Rightarrow>
        (case f_nodes f p of
           None \<Rightarrow> Some Aborted
         | Some n \<Rightarrow>
             if nlookup n = k \<and> treelock n \<noteq> 0 then None
             else if \<not> k \<le> nlookup n then Some Aborted
             else (let f1 = upd_node p (\<lambda>n. n\<lparr>nlookup := nlookup n - k\<rparr>) f
                   in Some (if nlookup n - k = 0 then unref_node f1 p
                            else if lru_enabled f \<and> nlookup n - k = 1 then Done (set_forget_time now p f1)
                            else Done f1))))"

definition unlink_node :: "nat \<Rightarrow> fuse \<Rightarrow> fuse outcome" where
  "unlink_node p f =
     (case f_nodes f p of
        None \<Rightarrow> Aborted
      | Some n \<Rightarrow>
          if conf_remember f \<noteq> 0
          then (if \<not> 1 < nlookup n then Aborted
                else unhash_name (upd_node p (\<lambda>n. n\<lparr>nlookup := nlookup n - 1\<rparr>) f) p)
          else unhash_name f p)"

definition remove_node :: "64 word \<Rightarrow> string \<Rightarrow> fuse \<Rightarrow> fuse outcome" where
  "remove_node dir name f =
     (case lookup_node f dir name of None \<Rightarrow> Done f | Some p \<Rightarrow> unlink_node p f)"

text \<open>\<open>rename_node\<close> from \<open>unhash_name(f, node)\<close> on, and \<open>rename_node\<close> itself; the first component
  of the result is the C return value.\<close>

definition rename_node_tail ::
  "bool \<Rightarrow> nat \<Rightarrow> 64 word \<Rightarrow> string \<Rightarrow> bool \<Rightarrow> fuse \<Rightarrow> (int \<times> fuse) outcome" where
  "rename_node_tail dup_ok p newdir newname hide f =
     obind (unhash_name f p) (\<lambda>f1.
       obind (hash_name dup_ok p newdir newname f1) (\<lambda>(ok, f2).
         if \<not> ok then Done (- ENOMEM, f2)
         else Done (0, if hide then upd_node p (\<lambda>n. n\<lparr>is_hidden := True\<rparr>) f2 else f2)))"

definition rename_node ::
  "bool \<Rightarrow> 64 word \<Rightarrow> string \<Rightarrow> 64 word \<Rightarrow> string \<Rightarrow> bool \<Rightarrow> fuse \<Rightarrow> (int \<times> fuse) outcome" where
  "rename_node dup_ok olddir oldname newdir newname hide f =
     (case lookup_node f olddir oldname of
        None \<Rightarrow> Done (0, f)
      | Some p \<Rightarrow>
          (case lookup_node f newdir newname of
             None \<Rightarrow> rename_node_tail dup_ok p newdir newname hide f
           | Some q \<Rightarrow>
               if hide then Done (- EBUSY, f)
               else obind (unlink_node q f) (\<lambda>f1. rename_node_tail dup_ok p newdir newname hide f1)))"

definition unhash_name_opt :: "nat option \<Rightarrow> fuse \<Rightarrow> fuse outcome" where
  "unhash_name_opt q f = (case q of None \<Rightarrow> Done f | Some p \<Rightarrow> unhash_name f p)"

definition hash_name_opt :: "bool \<Rightarrow> nat option \<Rightarrow> 64 word \<Rightarrow> string \<Rightarrow> fuse \<Rightarrow> (bool \<times> fuse) outcome" where
  "hash_name_opt dup_ok q dir name f =
     (case q of None \<Rightarrow> Done (True, f) | Some p \<Rightarrow> hash_name dup_ok p dir name f)"

definition exchange_node ::
  "bool \<Rightarrow> bool \<Rightarrow> 64 word \<Rightarrow> string \<Rightarrow> 64 word \<Rightarrow> string \<Rightarrow> fuse \<Rightarrow> (int \<times> fuse) outcome" where
  "exchange_node dup_ok1 dup_ok2 olddir oldname newdir newname f =
     (let oldnode = lookup_node f olddir oldname; newnode = lookup_node f newdir newname in
      obind (unhash_name_opt oldnode f) (\<lambda>f1.
      obind (unhash_name_opt newnode f1) (\<lambda>f2.
      obind (hash_name_opt dup_ok1 oldnode newdir newname f2) (\<lambda>(ok1, f3).
        if \<not> ok1 then Done (- ENOMEM, f3)
        else obind (hash_name_opt dup_ok2 newnode olddir oldname f3) (\<lambda>(ok2, f4).
          if \<not> ok2 then Done (- ENOMEM, f4) else Done (0, f4))))))"

text \<open>The root node and the empty tables as \<open>fuse_new\<close> leaves them; \<open>root\<close> is the address of the
  root node.\<close>

definition fuse_new_tree :: "nat \<Rightarrow> int \<Rightarrow> (nat \<Rightarrow> bool) \<Rightarrow> fuse" where
  "fuse_new_tree root remember realloc_ok =
     (let f1 = \<lparr>f_nodes = Map.empty(root \<mapsto> zero_node\<lparr>n_name := Some ''/'', nodeid := FUSE_ROOT_ID\<rparr>),
                name_table = node_table_init, id_table = node_table_init, lru_table = [],
                f_ctr = 0, f_generation = 0, conf_remember = remember, f_realloc = realloc_ok\<rparr>;
          f2 = inc_nlookup root f1
      in f2\<lparr>id_table := hash_id (realloc_ok NODE_TABLE_MIN_SIZE) (nid f2) root (id_table f2)\<rparr>)"

subsection \<open>The invariant\<close>

text \<open>
  \<open>L\<close> holds the nodes in limbo: out of their name chain, but not yet stripped of their name
  and parent (the middle of \<open>unhash_name\<close>); \<open>N\<close> holds the nodes not yet in the id table (the
  middle of \<open>find_node\<close>). Between operations both are empty.
\<close>

definition alive :: "fuse \<Rightarrow> nat set" where
  "alive f = dom (f_nodes f)"

definition parent_of :: "fuse \<Rightarrow> nat \<Rightarrow> nat option" where
  "parent_of f p = Option.bind (f_nodes f p) n_parent"

definition named :: "fuse \<Rightarrow> nat set" where
  "named f = {p. parent_of f p \<noteq> None}"

definition kids :: "fuse \<Rightarrow> nat set \<Rightarrow> nat \<Rightarrow> nat set" where
  "kids f L p = {q \<in> named f - L. parent_of f q = Some p}"

definition ids_ok :: "nat set \<Rightarrow> fuse \<Rightarrow> bool" where
  "ids_ok N f \<longleftrightarrow> finite (alive f) \<and> inj_on (nid f) (alive f) \<and> N \<subseteq> alive f \<and>
     table_inv 0 (\<lambda>q. id_hv (nid f q)) (id_table f) \<and> table_elems (id_table f) = alive f - N"

definition names_ok :: "nat set \<Rightarrow> fuse \<Rightarrow> bool" where
  "names_ok L f \<longleftrightarrow> L \<subseteq> named f \<and> inj_on (nkey f) (named f - L) \<and>
     table_inv (card L) (\<lambda>q. name_key_hv (nkey f q)) (name_table f) \<and>
     table_elems (name_table f) = named f - L \<and>
     (\<forall>q \<in> named f - L. \<exists>r \<in> alive f. parent_of f q = Some r)"

definition node_ok :: "node \<Rightarrow> bool" where
  "node_ok n \<longleftrightarrow> (n_parent n \<noteq> None \<longrightarrow> n_name n \<noteq> None) \<and>
     (n_name n \<noteq> None \<and> n_parent n = None \<longrightarrow> nodeid n = FUSE_ROOT_ID)"

definition refs_ok :: "nat set \<Rightarrow> fuse \<Rightarrow> bool" where
  "refs_ok L f \<longleftrightarrow> (\<forall>p n. f_nodes f p = Some n \<longrightarrow>
     refctr n = card (kids f L p) + (if 0 < nlookup n then 1 else 0))"

definition lru_ok :: "fuse \<Rightarrow> bool" where
  "lru_ok f \<longleftrightarrow> distinct (lru_table f) \<and> set (lru_table f) \<subseteq> alive f \<and>
     (\<not> lru_enabled f \<longrightarrow> lru_table f = [])"

definition core_inv :: "nat set \<Rightarrow> nat set \<Rightarrow> fuse \<Rightarrow> bool" where
  "core_inv N L f \<longleftrightarrow> ids_ok N f \<and> names_ok L f \<and> refs_ok L f \<and>
     (\<forall>p n. f_nodes f p = Some n \<longrightarrow> node_ok n) \<and> lru_ok f"

definition zeros :: "fuse \<Rightarrow> nat set" where
  "zeros f = {p. \<exists>n. f_nodes f p = Some n \<and> refctr n = 0}"

text \<open>The invariant between operations: every node is in the id table under a unique id, every
  node with a parent is in the name table under a unique (parent, name), no parent pointer
  dangles, every reference count is exact, and no unreferenced node is kept.\<close>

definition tree_ok :: "fuse \<Rightarrow> bool" where
  "tree_ok f \<longleftrightarrow> core_inv {} {} f \<and> zeros f = {}"

text \<open>The effect of releasing references on the other nodes: some nodes that the kernel does
  not reference are freed, the surviving ones keep everything but their count.\<close>

definition same_but_ref :: "node \<Rightarrow> node \<Rightarrow> bool" where
  "same_but_ref n n' \<longleftrightarrow> n'\<lparr>refctr := 0\<rparr> = n\<lparr>refctr := 0\<rparr>"

definition same_conf :: "fuse \<Rightarrow> fuse \<Rightarrow> bool" where
  "same_conf f f' \<longleftrightarrow> conf_remember f' = conf_remember f \<and> f_realloc f' = f_realloc f \<and>
     f_ctr f' = f_ctr f \<and> f_generation f' = f_generation f"

definition shrinks :: "nat set \<Rightarrow> fuse \<Rightarrow> fuse \<Rightarrow> bool" where
  "shrinks D f f' \<longleftrightarrow> same_conf f f' \<and>
     (\<forall>q n'. f_nodes f' q = Some n' \<longrightarrow>
        (\<exists>n. f_nodes f q = Some n \<and> (q \<notin> D \<longrightarrow> same_but_ref n n') \<and>
           same_but_ref (n\<lparr>n_name := n_name n', n_parent := n_parent n'\<rparr>) n')) \<and>
     (\<forall>q n. f_nodes f q = Some n \<and> f_nodes f' q = None \<longrightarrow> nlookup n = 0)"

subsection \<open>Reading the invariant\<close>

lemma table_inv_cong:
  assumes "table_inv d hv t" and "\<And>q. q \<in> table_elems t \<Longrightarrow> hv' q = hv q"
  shows "table_inv d hv' t"
proof (rule table_invI)
  fix i n assume i: "i < length (nt_array t)" "n \<in> set (nt_array t ! i)"
  then have "n \<in> table_elems t" unfolding table_elems_def in_concat_nth by blast
  then show "i = bucket (nt_size t) (nt_split t) (hv' n)"
    using table_inv_place[OF assms(1) i] assms(2) by simp
qed (use table_inv_sizes[OF assms(1)] table_inv_use[OF assms(1)] table_inv_distinct[OF assms(1)] in auto)

lemma f_nodes_upd [simp]:
  "f_nodes (upd_node p g f) q = (if q = p then map_option g (f_nodes f p) else f_nodes f q)"
  by (simp add: upd_node_def)

lemma upd_node_sel [simp]:
  "name_table (upd_node p g f) = name_table f" "id_table (upd_node p g f) = id_table f"
  "lru_table (upd_node p g f) = lru_table f" "conf_remember (upd_node p g f) = conf_remember f"
  "f_realloc (upd_node p g f) = f_realloc f" "f_ctr (upd_node p g f) = f_ctr f"
  "f_generation (upd_node p g f) = f_generation f"
  by (simp_all add: upd_node_def)

lemma all_nodes_upd:
  "(\<forall>q n. f_nodes (upd_node p g f) q = Some n \<longrightarrow> P q n) \<longleftrightarrow>
   (\<forall>q n. f_nodes f q = Some n \<longrightarrow> P q (if q = p then g n else n))"
  by (auto split: if_splits)

lemma alive_upd [simp]: "alive (upd_node p g f) = alive f"
  by (auto simp: alive_def dom_def)

lemma alive_iff: "p \<in> alive f \<longleftrightarrow> (\<exists>n. f_nodes f p = Some n)"
  by (auto simp: alive_def)

lemma named_alive: "named f \<subseteq> alive f"
  by (auto simp: named_def parent_of_def alive_def bind_eq_Some_conv)

lemma named_iff: "p \<in> named f \<longleftrightarrow> (\<exists>n q. f_nodes f p = Some n \<and> n_parent n = Some q)"
  by (auto simp: named_def parent_of_def bind_eq_Some_conv)

lemma kids_empty_if_free: "refs_ok L f \<Longrightarrow> p \<in> zeros f \<Longrightarrow> finite (named f) \<Longrightarrow> kids f L p = {}"
  by (auto simp: refs_ok_def zeros_def kids_def)

lemma core_inv_finite: "core_inv N L f \<Longrightarrow> finite (alive f) \<and> finite (named f)"
  using named_alive[of f] finite_subset by (auto simp: core_inv_def ids_ok_def)

lemma nid_cong: "f_nodes f' p = f_nodes f p \<Longrightarrow> nid f' p = nid f p"
  by (simp add: nid_def)

text \<open>Two states that agree on ids, parents and names have the same keys and children.\<close>

lemma nkey_eqI:
  assumes "map_option n_parent (f_nodes f' p) = map_option n_parent (f_nodes f p)"
    and "map_option n_name (f_nodes f' p) = map_option n_name (f_nodes f p)"
    and "\<And>q. parent_of f p = Some q \<Longrightarrow> nid f' q = nid f q"
  shows "nkey f' p = nkey f p"
  using assms by (cases "f_nodes f p"; cases "f_nodes f' p")
    (auto simp: nkey_def parent_of_def split: option.splits)

lemma nid_upd [simp]: "(\<And>n. nodeid (g n) = nodeid n) \<Longrightarrow> nid (upd_node p g f) = nid f"
  by (rule ext) (auto simp: nid_def split: option.splits)

lemma parent_of_upd [simp]: "(\<And>n. n_parent (g n) = n_parent n) \<Longrightarrow> parent_of (upd_node p g f) = parent_of f"
  by (rule ext) (auto simp: parent_of_def bind_map_option comp_def)

lemma named_cong: "parent_of f' = parent_of f \<Longrightarrow> named f' = named f"
  and kids_cong: "parent_of f' = parent_of f \<Longrightarrow> kids f' L p = kids f L p"
  by (auto simp: named_def kids_def)

lemma nkey_upd [simp]:
  assumes "\<And>n. nodeid (g n) = nodeid n" "\<And>n. n_parent (g n) = n_parent n" "\<And>n. n_name (g n) = n_name n"
  shows "nkey (upd_node p g f) = nkey f"
  by (rule ext, rule nkey_eqI) (auto simp: assms option.map_comp comp_def)

text \<open>Fields the keys do not read.\<close>

lemma same_nodes_sel:
  assumes "f_nodes f' = f_nodes f"
  shows "nid f' = nid f" "nkey f' = nkey f" "parent_of f' = parent_of f" "alive f' = alive f"
    "named f' = named f" "kids f' L p = kids f L p" "zeros f' = zeros f"
  using assms nid_cong[of f' _ f]
  by (auto simp: nkey_def parent_of_def alive_def named_def kids_def zeros_def fun_eq_iff split: option.splits)

lemmas tree_defs = core_inv_def ids_ok_def names_ok_def refs_ok_def

subsection \<open>Releasing references\<close>

text \<open>\<open>p\<close>'s count is one too high: the state in which \<open>unref_node\<close> is called.\<close>

definition dec_ref :: "nat \<Rightarrow> fuse \<Rightarrow> fuse" where
  "dec_ref p f = upd_node p (\<lambda>n. n\<lparr>refctr := refctr n - 1\<rparr>) f"

lemma dec_ref_sel [simp]:
  "nid (dec_ref p f) = nid f" "nkey (dec_ref p f) = nkey f" "parent_of (dec_ref p f) = parent_of f"
  "alive (dec_ref p f) = alive f" "named (dec_ref p f) = named f" "kids (dec_ref p f) L q = kids f L q"
  "name_table (dec_ref p f) = name_table f" "id_table (dec_ref p f) = id_table f"
  "lru_table (dec_ref p f) = lru_table f"
  by (simp_all add: dec_ref_def named_cong[of "upd_node p g f" f for g] kids_cong[of "upd_node p g f" f for g])

lemma node_ok_ref [simp]:
  "node_ok (n\<lparr>refctr := k\<rparr>) = node_ok n" "node_ok (n\<lparr>nlookup := k\<rparr>) = node_ok n"
  "node_ok (n\<lparr>is_hidden := b\<rparr>) = node_ok n" "node_ok (n\<lparr>forget_time := i\<rparr>) = node_ok n"
  by (simp_all add: node_ok_def)

lemma core_inv_dec_ref:
  "core_inv N L (dec_ref p f) \<longleftrightarrow> ids_ok N f \<and> names_ok L f \<and>
     (\<forall>q n. f_nodes f q = Some n \<longrightarrow> (if q = p then refctr n - 1 else refctr n)
        = card (kids f L q) + (if 0 < nlookup n then 1 else 0)) \<and>
     (\<forall>q n. f_nodes f q = Some n \<longrightarrow> node_ok n) \<and> lru_ok f"
proof -
  have "(\<forall>q n. f_nodes (dec_ref p f) q = Some n \<longrightarrow> node_ok n) \<longleftrightarrow> (\<forall>q n. f_nodes f q = Some n \<longrightarrow> node_ok n)"
    unfolding dec_ref_def all_nodes_upd if_distrib[of node_ok] node_ok_ref by (simp only: if_cancel)
  moreover have "lru_ok (dec_ref p f) = lru_ok f" by (simp add: lru_ok_def lru_enabled_def dec_ref_def)
  moreover have "refs_ok L (dec_ref p f) \<longleftrightarrow> (\<forall>q n. f_nodes f q = Some n \<longrightarrow>
      (if q = p then refctr n - 1 else refctr n) = card (kids f L q) + (if 0 < nlookup n then 1 else 0))"
    unfolding refs_ok_def dec_ref_sel unfolding dec_ref_def all_nodes_upd
    by (intro iff_allI) simp
  moreover have "ids_ok N (dec_ref p f) = ids_ok N f" "names_ok L (dec_ref p f) = names_ok L f"
    by (simp_all add: ids_ok_def names_ok_def)
  ultimately show ?thesis by (simp add: core_inv_def)
qed

lemma unhash_name_limbo:
  assumes inv: "core_inv N L f" and fin: "finite L" and p: "p \<in> named f - L" and pp: "parent_of f p = Some pp"
  defines "h \<equiv> name_hash (name_table f) (fst (nkey f p)) (snd (nkey f p))"
  defines "f1 \<equiv> f\<lparr>name_table := table_chain_del h p (name_table f)\<rparr>"
  shows "core_inv N (insert p L) (dec_ref pp f1)"
    and "\<exists>n. f_nodes f pp = Some n \<and> 0 < refctr n"
    and "h < length (nt_array (name_table f))" and "p \<in> set (nt_array (name_table f) ! h)"
proof -
  have nok: "names_ok L f" and rok: "refs_ok L f" using inv by (auto simp: core_inv_def)
  have t: "table_inv (card L) (\<lambda>q. name_key_hv (nkey f q)) (name_table f)"
    and e: "p \<in> table_elems (name_table f)" using nok p by (auto simp: names_ok_def)
  have h: "h = bucket (nt_size (name_table f)) (nt_split (name_table f)) (name_key_hv (nkey f p))"
    by (simp add: h_def name_hash_def name_key_hv_def)
  show "h < length (nt_array (name_table f))" "p \<in> set (nt_array (name_table f) ! h)"
    using table_invD[OF t e] by (simp_all add: h)
  note s = same_nodes_sel[of f1 f]
  have sn: "f_nodes f1 = f_nodes f" by (simp add: f1_def)
  note d = table_chain_del_inv[OF t e, folded h]
  have nok1: "names_ok (insert p L) f1"
    unfolding names_ok_def s[OF sn]
  proof (intro conjI)
    show "inj_on (nkey f) (named f - insert p L)"
      using nok by (auto simp: names_ok_def intro: inj_on_subset)
  qed (use nok p d(1,2) fin in \<open>auto simp: f1_def names_ok_def\<close>)
  have kid: "p \<in> kids f L pp" using p pp by (simp add: kids_def)
  have fink: "finite (kids f L q)" for q using core_inv_finite[OF inv] by (simp add: kids_def)
  have kids1: "kids f (insert p L) q = (if q = pp then kids f L pp - {p} else kids f L q)" for q
    using pp by (auto simp: kids_def)
  have c: "card (kids f L pp) = Suc (card (kids f L pp - {p}))" using card_Suc_Diff1[OF fink kid] by simp
  have "pp \<in> alive f" using nok p pp unfolding names_ok_def by (metis option.inject)
  then obtain n where n: "f_nodes f pp = Some n" by (auto simp: alive_iff)
  then show "\<exists>n. f_nodes f pp = Some n \<and> 0 < refctr n" using rok c by (auto simp: refs_ok_def)
  show "core_inv N (insert p L) (dec_ref pp f1)"
    unfolding core_inv_dec_ref using inv nok1 c
    unfolding ids_ok_def lru_ok_def s[OF sn] kids1 sn
    by (simp add: f1_def core_inv_def ids_ok_def refs_ok_def lru_ok_def lru_enabled_def)
qed

lemma unhash_name_finish_inv:
  assumes inv: "core_inv N (insert p L) f" and p: "p \<notin> L" and fin: "finite L"
  shows "core_inv N L (unhash_name_finish p f)" and "zeros (unhash_name_finish p f) = zeros f"
    and "shrinks {p} f (unhash_name_finish p f)" and "parent_of (unhash_name_finish p f) p = None"
    and "\<exists>n. f_nodes (unhash_name_finish p f) p = Some n \<and> n_name n = None"
proof -
  let ?g = "unhash_name_finish p f" and ?u = "upd_node p (\<lambda>n. n\<lparr>n_name := None, n_parent := None\<rparr>) f"
  have nn: "f_nodes ?g = f_nodes ?u" by (simp add: unhash_name_finish_def Let_def)
  have pn: "p \<in> named f" using inv by (auto simp: core_inv_def names_ok_def)
  then obtain n where n: "f_nodes f p = Some n" by (auto simp: named_iff)
  have fn: "f_nodes ?g q = (if q = p then Some (n\<lparr>n_name := None, n_parent := None\<rparr>) else f_nodes f q)" for q
    using n by (simp add: nn)
  have nid: "nid ?g = nid f" using n by (auto simp: fun_eq_iff nid_def fn split: option.splits)
  have par: "parent_of ?g q = (if q = p then None else parent_of f q)" for q by (simp add: parent_of_def fn)
  show "parent_of ?g p = None" by (simp add: par)
  have al: "alive ?g = alive f" using n by (auto simp: alive_iff fn split: if_splits)
  have nm: "named ?g = named f - {p}" by (auto simp: named_def par)
  have nmL: "named ?g - L = named f - insert p L" by (auto simp: nm)
  have kd: "kids ?g L q = kids f (insert p L) q" for q unfolding kids_def nmL by (auto simp: par)
  have key: "nkey ?g q = nkey f q" if "q \<noteq> p" for q
    by (rule nkey_eqI) (use that nid in \<open>simp_all add: fn\<close>)
  have tabs: "id_table ?g = id_table f" "lru_table ?g = lru_table f"
    "name_table ?g = table_count_out (f_realloc f (nt_size (name_table f))) (name_table f)"
    by (simp_all add: unhash_name_finish_def Let_def)
  have nok: "names_ok (insert p L) f" using inv by (simp add: core_inv_def)
  have co: "table_inv (card L) (\<lambda>q. name_key_hv (nkey f q)) (name_table ?g)"
    "table_elems (name_table ?g) = named f - insert p L"
    using table_count_out_inv[of "card L" "\<lambda>q. name_key_hv (nkey f q)" "name_table f"] nok p fin
    by (simp_all add: tabs names_ok_def)
  have "names_ok L ?g"
    unfolding names_ok_def nmL co(2) al
  proof (intro conjI)
    show "L \<subseteq> named ?g" using nok p by (auto simp: nm names_ok_def)
    show "inj_on (nkey ?g) (named f - insert p L)"
      using nok key by (auto simp: names_ok_def inj_on_def)
    show "table_inv (card L) (\<lambda>q. name_key_hv (nkey ?g q)) (name_table ?g)"
      by (rule table_inv_cong[OF co(1)]) (use key co(2) in auto)
    show "\<forall>q\<in>named f - insert p L. \<exists>r\<in>alive f. parent_of ?g q = Some r"
      using nok by (auto simp: names_ok_def par)
  qed simp
  moreover have "ids_ok N ?g" using inv by (simp add: core_inv_def ids_ok_def al nid tabs)
  moreover have "refs_ok L ?g" using inv n by (auto simp: core_inv_def refs_ok_def kd fn)
  moreover have "node_ok m" if "f_nodes ?g q = Some m" for q m
    using that inv by (auto simp: core_inv_def fn node_ok_def split: if_splits)
  moreover have "conf_remember ?g = conf_remember f" by (simp add: unhash_name_finish_def Let_def)
  ultimately show "core_inv N L ?g" using inv by (simp add: core_inv_def lru_ok_def lru_enabled_def tabs al)
  show "zeros ?g = zeros f" using n by (auto simp: zeros_def fn)
  show "shrinks {p} f ?g" using n
    by (auto simp: shrinks_def same_conf_def same_but_ref_def fn unhash_name_finish_def Let_def split: if_splits)
  show "\<exists>n. f_nodes ?g p = Some n \<and> n_name n = None" by (simp add: fn)
qed

lemma delete_node_finish_inv:
  assumes inv: "core_inv {} L f" and p: "p \<in> zeros f" and par: "parent_of f p = None" 
  shows "core_inv {} L (delete_node_finish p f)" and "zeros (delete_node_finish p f) = zeros f - {p}"
    and "shrinks {} f (delete_node_finish p f)"
proof -
  let ?g = "delete_node_finish p f"
  have fn: "f_nodes ?g q = (if q = p then None else f_nodes f q)" for q
    by (simp add: delete_node_finish_def Let_def free_node_def remove_node_lru_def)
  have al: "alive ?g = alive f - {p}" by (auto simp: alive_iff fn split: if_splits)
  obtain n where n: "f_nodes f p = Some n" "refctr n = 0" using p by (auto simp: zeros_def)
  have kp: "kids f L p = {}" using kids_empty_if_free[of L f p] inv core_inv_finite[OF inv] p
    by (simp add: core_inv_def)
  have par': "parent_of ?g q = parent_of f q" for q using par by (simp add: parent_of_def fn)
  have nm: "named ?g = named f" by (simp add: named_def par')
  have pnm: "p \<notin> named f" using par by (simp add: named_def)
  have kd: "kids ?g L q = kids f L q" for q by (simp add: kids_def nm par')
  have nid: "nid ?g q = nid f q" if "q \<noteq> p" for q using that by (simp add: nid_def fn)
  have nopar: "parent_of f q \<noteq> Some p" if "q \<in> named f - L" for q using kp that by (auto simp: kids_def)
  have key: "nkey ?g q = nkey f q" if "q \<in> named f - L" for q
    by (rule nkey_eqI) (use that nopar[of q] pnm nid fn in auto)
  have nok: "names_ok L f" and iok: "ids_ok {} f" using inv by (auto simp: core_inv_def)
  have tb: "name_table ?g = name_table f"
    by (simp add: delete_node_finish_def Let_def free_node_def remove_node_lru_def)
  have "names_ok L ?g"
    unfolding names_ok_def nm al tb
  proof (intro conjI)
    show "inj_on (nkey ?g) (named f - L)" using nok key by (auto simp: names_ok_def inj_on_def)
    show "table_inv (card L) (\<lambda>q. name_key_hv (nkey ?g q)) (name_table f)"
      by (rule table_inv_cong[where hv = "\<lambda>q. name_key_hv (nkey f q)"]) (use key nok in \<open>auto simp: names_ok_def\<close>)
    show "\<forall>q\<in>named f - L. \<exists>r\<in>alive f - {p}. parent_of ?g q = Some r"
      using nok nopar by (fastforce simp: names_ok_def par')
  qed (use nok in \<open>auto simp: names_ok_def\<close>)
  moreover have "ids_ok {} ?g"
  proof -
    have it: "id_table ?g = unhash_id (f_realloc f (nt_size (id_table f))) (nid f) p (id_table f)"
      using same_nodes_sel(1)[of "remove_node_lru p f" f]
      by (simp add: delete_node_finish_def Let_def free_node_def remove_node_lru_def)
    have pe: "p \<in> table_elems (id_table f)" "table_inv 0 (\<lambda>q. id_hv (nid f q)) (id_table f)"
      using iok n by (auto simp: ids_ok_def alive_iff)
    note u = id_index.unlink_law[where ok = "f_realloc f (nt_size (id_table f))", OF pe(2,1), folded it]
    have "table_inv 0 (\<lambda>q. id_hv (nid ?g q)) (id_table ?g)"
      by (rule table_inv_cong[where hv = "\<lambda>q. id_hv (nid f q)"]) (use u nid in auto)
    then show ?thesis using u iok nid by (auto simp: ids_ok_def al inj_on_def)
  qed
  moreover have "refs_ok L ?g" using inv by (auto simp: core_inv_def refs_ok_def kd fn)
  moreover have "lru_ok ?g"
    using inv unfolding lru_ok_def al
    by (auto simp: delete_node_finish_def Let_def free_node_def remove_node_lru_def core_inv_def
        lru_ok_def lru_enabled_def)
  ultimately show "core_inv {} L ?g" using inv by (auto simp: core_inv_def fn)
  show "zeros ?g = zeros f - {p}" by (auto simp: zeros_def fn)
  have "nlookup n = 0" using inv n by (auto simp: core_inv_def refs_ok_def split: if_splits)
  then show "shrinks {} f ?g" using n
    by (auto simp: shrinks_def same_conf_def same_but_ref_def fn delete_node_finish_def Let_def free_node_def
        remove_node_lru_def split: if_splits)
qed

lemma shrinks_refl_conf: "same_conf f f' \<Longrightarrow> f_nodes f' = f_nodes f \<Longrightarrow> shrinks D f f'"
  by (auto simp: shrinks_def same_but_ref_def)

lemma shrinks_upd_ref: "same_conf f f' \<Longrightarrow> f_nodes f' = f_nodes (upd_node p (\<lambda>n. n\<lparr>refctr := k n\<rparr>) f) \<Longrightarrow> shrinks D f f'"
  by (auto simp: shrinks_def same_but_ref_def split: if_splits)

lemma same_but_ref_trans: "same_but_ref n1 n2 \<Longrightarrow> same_but_ref n2 n3 \<Longrightarrow> same_but_ref n1 n3"
  by (simp add: same_but_ref_def)

lemma same_but_refD:
  assumes "same_but_ref n n'"
  shows "nlookup n' = nlookup n" "nodeid n' = nodeid n" "n_parent n' = n_parent n" "n_name n' = n_name n"
    "treelock n' = treelock n"
  using assms by (cases n; cases n'; simp add: same_but_ref_def)+

lemma shrinksD:
  assumes "shrinks D f f'" and "f_nodes f' q = Some n'"
  shows "\<exists>n. f_nodes f q = Some n \<and> (q \<notin> D \<longrightarrow> same_but_ref n n') \<and>
     same_but_ref (n\<lparr>n_name := n_name n', n_parent := n_parent n'\<rparr>) n'"
  using assms unfolding shrinks_def by blast

lemma shrinks_nlookup:
  assumes "shrinks D f f'" and "f_nodes f' q = Some n'" and "f_nodes f q = Some n"
  shows "nlookup n' = nlookup n" and "nodeid n' = nodeid n"
  using assms same_but_refD by (fastforce simp: shrinks_def)+

lemma shrinks_trans:
  assumes a: "shrinks D f f1" and b: "shrinks E f1 f2"
  shows "shrinks (D \<union> E) f f2"
  unfolding shrinks_def
proof (intro conjI allI impI)
  show "same_conf f f2" using a b by (auto simp: shrinks_def same_conf_def)
  fix q n2 assume n2: "f_nodes f2 q = Some n2"
  then obtain n1 where n1: "f_nodes f1 q = Some n1" "q \<notin> E \<longrightarrow> same_but_ref n1 n2"
    "same_but_ref (n1\<lparr>n_name := n_name n2, n_parent := n_parent n2\<rparr>) n2" using shrinksD[OF b] by blast
  then obtain n where n: "f_nodes f q = Some n" "q \<notin> D \<longrightarrow> same_but_ref n n1"
    "same_but_ref (n\<lparr>n_name := n_name n1, n_parent := n_parent n1\<rparr>) n1" using shrinksD[OF a] by blast
  have "same_but_ref (n\<lparr>n_name := n_name n2, n_parent := n_parent n2\<rparr>) n2"
    using n1(3) n(3) by (cases n; cases n1; cases n2) (simp add: same_but_ref_def)
  then show "\<exists>n. f_nodes f q = Some n \<and> (q \<notin> D \<union> E \<longrightarrow> same_but_ref n n2) \<and>
     same_but_ref (n\<lparr>n_name := n_name n2, n_parent := n_parent n2\<rparr>) n2"
    using n n1 same_but_ref_trans by auto
next
  fix q n assume q: "f_nodes f q = Some n \<and> f_nodes f2 q = None"
  show "nlookup n = 0"
  proof (cases "f_nodes f1 q")
    case None
    then show ?thesis using q a by (auto simp: shrinks_def)
  next
    case (Some n1)
    then show ?thesis using q b shrinks_nlookup(1)[OF a Some, of n] by (auto simp: shrinks_def)
  qed
qed

lemma shrinks_same:
  assumes "shrinks D f f'" and "f_nodes f' q = Some n'" and "q \<notin> D"
  obtains n where "f_nodes f q = Some n" and "same_but_ref n n'"
  using shrinksD[OF assms(1,2)] assms(3) by blast

lemma zeros_dec_ref:
  "f_nodes f p = Some n \<Longrightarrow> zeros (dec_ref p f) = (if refctr n \<le> 1 then insert p (zeros f) else zeros f)"
  by (auto simp: zeros_def dec_ref_def split: if_splits)

text \<open>The mutual recursion. Releasing a reference keeps every invariant, deletes exactly the nodes
  whose count reaches zero, and leaves the nodes in limbo alone.\<close>

definition unref_spec :: "fuse \<Rightarrow> nat \<Rightarrow> bool" where
  "unref_spec f p \<longleftrightarrow> (\<forall>L f'. finite L \<longrightarrow> unref_node f p = Done f' \<longrightarrow> core_inv {} L (dec_ref p f) \<longrightarrow>
     core_inv {} L f' \<and> zeros f' = zeros f \<and> shrinks {} f f')"

definition delete_spec :: "fuse \<Rightarrow> nat \<Rightarrow> bool" where
  "delete_spec f p \<longleftrightarrow> (\<forall>L f'. finite L \<longrightarrow> delete_node f p = Done f' \<longrightarrow> core_inv {} L f \<longrightarrow> p \<in> zeros f \<longrightarrow>
     core_inv {} L f' \<and> zeros f' = zeros f - {p} \<and> shrinks {} f f')"

definition unhash_spec :: "fuse \<Rightarrow> nat \<Rightarrow> bool" where
  "unhash_spec f p \<longleftrightarrow> (\<forall>L f'. finite L \<longrightarrow> unhash_name f p = Done f' \<longrightarrow> core_inv {} L f \<longrightarrow>
     core_inv {} L f' \<and> zeros f' = zeros f \<and> shrinks {p} f f' \<and> parent_of f' p = None \<and>
     (\<exists>n. f_nodes f' p = Some n \<and> n_name n = None))"

lemma unref_specI:
  assumes "\<And>n. f_nodes f p = Some n \<Longrightarrow> refctr n = 1 \<Longrightarrow> delete_spec (dec_ref p f) p"
  shows "unref_spec f p"
  unfolding unref_spec_def
proof (intro allI impI)
  fix L f' assume fin: "finite L" and u: "unref_node f p = Done f'" and inv: "core_inv {} L (dec_ref p f)"
  obtain n where n: "f_nodes f p = Some n" "refctr n \<noteq> 0"
    and r: "(if refctr n = 1 then delete_node (dec_ref p f) p else Done (dec_ref p f)) = Done f'"
    using u unfolding unref_node.simps[of f p]
    by (auto simp: dec_ref_def Let_def split: option.splits if_splits)
  have sh: "shrinks {} f (dec_ref p f)"
    by (rule shrinks_upd_ref) (auto simp: same_conf_def dec_ref_def)
  show "core_inv {} L f' \<and> zeros f' = zeros f \<and> shrinks {} f f'"
  proof (cases "refctr n = 1")
    case True
    have z: "zeros (dec_ref p f) = insert p (zeros f)" using True by (simp add: zeros_dec_ref[OF n(1)])
    have "p \<notin> zeros f" using n by (simp add: zeros_def)
    note z = z this
    show ?thesis using assms[OF n(1) True] fin inv r True z shrinks_trans[OF sh, of "{}" f']
      by (auto simp: delete_spec_def)
  next
    case False
    then have "zeros (dec_ref p f) = zeros f" using n(2) by (simp add: zeros_dec_ref[OF n(1)])
    moreover have "f' = dec_ref p f" using False r by simp
    ultimately show ?thesis using inv sh by simp
  qed
qed

lemma delete_specI:
  assumes "unhash_spec f p"
  shows "delete_spec f p"
  unfolding delete_spec_def
proof (intro allI impI)
  fix L f' assume fin: "finite L" and u: "delete_node f p = Done f'" and inv: "core_inv {} L f" and p: "p \<in> zeros f"
  obtain f1 where f1: "unhash_name f p = Done f1" "f' = delete_node_finish p f1"
    using u unfolding delete_node.simps[of f p] by (auto split: option.splits if_splits)
  have s: "core_inv {} L f1" "zeros f1 = zeros f" "shrinks {p} f f1" "parent_of f1 p = None"
    using assms fin f1(1) inv by (auto simp: unhash_spec_def)
  have p1: "p \<in> zeros f1" using p s by simp
  note d = delete_node_finish_inv[OF s(1) p1 s(4), folded f1(2)]
  have "f_nodes f' p = None" by (simp add: f1 delete_node_finish_def Let_def free_node_def)
  then have "shrinks {} f f'"
    using shrinks_trans[OF s(3) d(3)] unfolding shrinks_def by (metis Un_empty_right option.distinct(1) singletonD)
  then show "core_inv {} L f' \<and> zeros f' = zeros f - {p} \<and> shrinks {} f f'"
    using d s by simp
qed

lemma unhash_specI:
  assumes "\<And>n nm pp pn. f_nodes f p = Some n \<Longrightarrow> n_name n = Some nm \<Longrightarrow> n_parent n = Some pp \<Longrightarrow>
    f_nodes f pp = Some pn \<Longrightarrow>
    name_hash (name_table f) (nodeid pn) nm < length (nt_array (name_table f)) \<Longrightarrow>
    p \<in> set (nt_array (name_table f) ! name_hash (name_table f) (nodeid pn) nm) \<Longrightarrow>
    unref_spec (f\<lparr>name_table := table_chain_del (name_hash (name_table f) (nodeid pn) nm) p (name_table f)\<rparr>) pp"
  shows "unhash_spec f p"
  unfolding unhash_spec_def
proof (intro allI impI)
  fix L f' assume fin: "finite L" and u: "unhash_name f p = Done f'" and inv: "core_inv {} L f"
  let ?goal = "core_inv {} L f' \<and> zeros f' = zeros f \<and> shrinks {p} f f' \<and> parent_of f' p = None \<and>
     (\<exists>n. f_nodes f' p = Some n \<and> n_name n = None)"
  obtain n where n: "f_nodes f p = Some n" using u unfolding unhash_name.simps[of f p] by (auto split: option.splits)
  then have nok: "node_ok n" using inv by (auto simp: core_inv_def)
  show ?goal
  proof (cases "n_name n")
    case None
    then have "f' = f" "n_parent n = None" "same_conf f f"
      using u n nok unfolding unhash_name.simps[of f p] by (auto simp: node_ok_def same_conf_def)
    then show ?thesis using inv n None shrinks_refl_conf[of f f] by (simp add: parent_of_def)
  next
    case (Some nm)
    let ?h = "\<lambda>pn. name_hash (name_table f) (nodeid pn) nm"
    let ?f1 = "\<lambda>pn. f\<lparr>name_table := table_chain_del (?h pn) p (name_table f)\<rparr>"
    obtain pp pn f2 where pp: "n_parent n = Some pp" "f_nodes f pp = Some pn"
      and h: "?h pn < length (nt_array (name_table f))" "p \<in> set (nt_array (name_table f) ! ?h pn)"
      and f2: "unref_node (?f1 pn) pp = Done f2" "f' = unhash_name_finish p f2"
      using u n Some unfolding unhash_name.simps[of f p] by (auto simp: Let_def split: option.splits if_splits)
    have key: "nkey f p = (nodeid pn, nm)" using n pp Some by (simp add: nkey_def nid_def)
    have par: "parent_of f p = Some pp" using n pp by (simp add: parent_of_def)
    have "p \<in> table_elems (name_table f)" using h nth_subset_concat[OF h(1)] by (auto simp: table_elems_def)
    then have p: "p \<in> named f - L" using inv by (auto simp: core_inv_def names_ok_def)
    note l = unhash_name_limbo(1)[OF inv fin p par, unfolded key fst_conv snd_conv]
    have fin': "finite (insert p L)" using fin by simp
    have s: "core_inv {} (insert p L) f2" "zeros f2 = zeros (?f1 pn)" "shrinks {} (?f1 pn) f2"
      using assms[OF n Some pp h] fin' f2(1) l unfolding unref_spec_def by blast+
    have "shrinks {} f (?f1 pn)" "zeros (?f1 pn) = zeros f"
      using same_nodes_sel(7)[of "?f1 pn" f] by (auto simp: same_conf_def intro: shrinks_refl_conf)
    note s' = shrinks_trans[OF this(1) s(3)] this(2)
    note d = unhash_name_finish_inv[OF s(1) _ fin, folded f2(2)]
    have "shrinks {p} f f'" using shrinks_trans[OF s'(1) d(3)] p by simp
    then show ?thesis using d p s s' by simp
  qed
qed

lemma release_specs: "unref_spec f p" "delete_spec f p" "unhash_spec f p"
proof (induction f p and f p and f p rule: unref_node_delete_node_unhash_name.induct)
  case (1 f p)
  show ?case by (rule unref_specI) (use 1 in \<open>auto simp: dec_ref_def\<close>)
next
  case (2 f p)
  show ?case
  proof (cases "\<exists>n. f_nodes f p = Some n \<and> treelock n = 0")
    case True
    then show ?thesis using 2 delete_specI by blast
  next
    case False
    then have "delete_node f p = Aborted" unfolding delete_node.simps[of f p] by (auto split: option.splits)
    then show ?thesis by (simp add: delete_spec_def)
  qed
next
  case (3 f p)
  show ?case by (rule unhash_specI) (use 3 in auto)
qed

lemma unref_node_inv:
  assumes "unref_node f p = Done f'" and "core_inv {} {} (dec_ref p f)"
  shows "core_inv {} {} f'" and "zeros f' = zeros f" and "shrinks {} f f'"
  using release_specs(1)[of f p, unfolded unref_spec_def, rule_format, of "{}"] assms by auto

lemma unhash_name_inv:
  assumes "unhash_name f p = Done f'" and "core_inv {} {} f"
  shows "core_inv {} {} f'" and "zeros f' = zeros f" and "shrinks {p} f f'" and "parent_of f' p = None"
    and "\<exists>n. f_nodes f' p = Some n \<and> n_name n = None"
  using release_specs(3)[of f p, unfolded unhash_spec_def, rule_format, of "{}"] assms by auto

subsection \<open>Lookups\<close>

lemma get_node_iff:
  assumes "ids_ok N f"
  shows "get_node f i = Done p \<longleftrightarrow> p \<in> alive f - N \<and> nid f p = i"
proof -
  have e: "table_elems (id_table f) = alive f - N" "table_inv 0 (\<lambda>q. id_hv (nid f q)) (id_table f)"
    and inj: "inj_on (nid f) (alive f - N)"
    using assms by (auto simp: ids_ok_def intro: inj_on_subset)
  show ?thesis using get_node_nocheck_iff[OF e(2), of i p] inj
    by (auto simp: get_node_def e(1) split: option.splits)
qed

lemma lookup_node_iff:
  assumes "names_ok {} f"
  shows "lookup_node f parent name = Some p \<longleftrightarrow> p \<in> named f \<and> nkey f p = (parent, name)"
proof -
  have e: "table_elems (name_table f) = named f" "table_inv 0 (\<lambda>q. name_key_hv (nkey f q)) (name_table f)"
    "inj_on (nkey f) (named f)"
    using assms by (auto simp: names_ok_def)
  show ?thesis using name_index.find_iff[OF e(2), where k = "(parent, name)" and n = p] e(1,3)
    by (simp add: lookup_node_def lookup_chain_def)
qed

lemma lookup_node_None:
  assumes "names_ok {} f"
  shows "lookup_node f parent name = None \<longleftrightarrow> (\<forall>p \<in> named f. nkey f p \<noteq> (parent, name))"
  using lookup_node_iff[OF assms, of parent name] by (metis option.collapse option.distinct(1))

subsection \<open>Preservation\<close>

lemma nlookup_dec_inv:
  assumes inv: "core_inv {} {} f" and n: "f_nodes f p = Some n" and k: "0 < nlookup n"
    and g: "g = upd_node p (\<lambda>n. n\<lparr>nlookup := k\<rparr>) f"
  shows "if k = 0 then core_inv {} {} (dec_ref p g) else core_inv {} {} g"
    and "zeros g = zeros f" and "alive g = alive f" and "parent_of g = parent_of f" and "nkey g = nkey f"
proof -
  have v: "nid g = nid f" "nkey g = nkey f" "parent_of g = parent_of f" "alive g = alive f"
    by (simp_all add: g)
  show "alive g = alive f" "parent_of g = parent_of f" "nkey g = nkey f" by (fact v)+
  have w: "named g = named f" "kids g {} q = kids f {} q" for q
    using named_cong[OF v(3)] kids_cong[OF v(3)] by auto
  have t: "name_table g = name_table f" "id_table g = id_table f" "lru_table g = lru_table f"
    "conf_remember g = conf_remember f" by (simp_all add: g)
  have c: "ids_ok {} g" "names_ok {} g" "lru_ok g"
    using inv by (simp_all add: core_inv_def ids_ok_def names_ok_def lru_ok_def lru_enabled_def v w t)
  have nk: "\<forall>q n. f_nodes g q = Some n \<longrightarrow> node_ok n"
    unfolding g all_nodes_upd using inv by (auto simp: core_inv_def)
  have r: "refctr n = card (kids f {} q) + (if 0 < nlookup n then 1 else 0)" if "f_nodes f q = Some n" for q n
    using inv that by (auto simp: core_inv_def refs_ok_def)
  show "zeros g = zeros f" using n by (auto simp: zeros_def g)
  show "if k = 0 then core_inv {} {} (dec_ref p g) else core_inv {} {} g"
  proof (cases "k = 0")
    case True
    have "\<forall>q n. f_nodes g q = Some n \<longrightarrow> (if q = p then refctr n - 1 else refctr n)
        = card (kids f {} q) + (if 0 < nlookup n then 1 else 0)"
      unfolding g all_nodes_upd using r n k True by auto
    then show ?thesis unfolding core_inv_dec_ref w using c nk True by simp
  next
    case False
    have "\<forall>q n. f_nodes g q = Some n \<longrightarrow> refctr n
        = card (kids f {} q) + (if 0 < nlookup n then 1 else 0)"
      unfolding g all_nodes_upd using r n k False by auto
    then show ?thesis unfolding core_inv_def refs_ok_def w using c nk False by simp
  qed
qed

lemma core_inv_lru:
  assumes "core_inv N L f" and "distinct xs" and "set xs \<subseteq> alive f" and "\<not> lru_enabled f \<longrightarrow> xs = []"
  shows "core_inv N L (f\<lparr>lru_table := xs\<rparr>)"
  using assms same_nodes_sel[of "f\<lparr>lru_table := xs\<rparr>" f]
  by (simp add: core_inv_def ids_ok_def names_ok_def refs_ok_def lru_ok_def lru_enabled_def)

lemma zeros_lru: "zeros (f\<lparr>lru_table := xs\<rparr>) = zeros f"
  by (simp add: zeros_def)

lemma forget_time_inv:
  assumes "core_inv N L f"
  shows "core_inv N L (upd_node p (\<lambda>n. n\<lparr>forget_time := k\<rparr>) f)"
    and "zeros (upd_node p (\<lambda>n. n\<lparr>forget_time := k\<rparr>) f) = zeros f"
proof -
  let ?g = "upd_node p (\<lambda>n. n\<lparr>forget_time := k\<rparr>) f"
  have w: "named ?g = named f" "kids ?g L q = kids f L q" for q
    using named_cong[of ?g f] kids_cong[of ?g f] by auto
  have "refs_ok L ?g" unfolding refs_ok_def w all_nodes_upd using assms by (simp add: core_inv_def refs_ok_def)
  moreover have "\<forall>q n. f_nodes ?g q = Some n \<longrightarrow> node_ok n"
    unfolding all_nodes_upd using assms by (simp add: core_inv_def)
  ultimately show "core_inv N L ?g"
    using assms by (simp add: core_inv_def ids_ok_def names_ok_def lru_ok_def lru_enabled_def w)
  show "zeros ?g = zeros f" by (auto simp: zeros_def split: if_splits)
qed

lemma set_forget_time_inv:
  assumes inv: "core_inv {} {} f" and p: "p \<in> alive f" and l: "lru_enabled f"
  shows "core_inv {} {} (set_forget_time now p f)" and "zeros (set_forget_time now p f) = zeros f"
proof -
  let ?f = "f\<lparr>lru_table := remove1 p (lru_table f) @ [p]\<rparr>"
  have "core_inv {} {} ?f"
    by (rule core_inv_lru) (use inv p l in \<open>auto simp: core_inv_def lru_ok_def\<close>)
  note i = forget_time_inv[OF this]
  show "core_inv {} {} (set_forget_time now p f)" by (simp add: set_forget_time_def i)
  show "zeros (set_forget_time now p f) = zeros f" by (simp add: set_forget_time_def i zeros_lru)
qed

lemma forget_node_inv:
  assumes ok: "tree_ok f" and r: "forget_node now i k f = Some (Done f')" and k: "0 < k"
  shows "tree_ok f'"
proof (cases "i = FUSE_ROOT_ID")
  case True
  then show ?thesis using r ok by (simp add: forget_node_def)
next
  case False
  have inv: "core_inv {} {} f" and z: "zeros f = {}" using ok by (auto simp: tree_ok_def)
  obtain p n where p: "get_node f i = Done p" "f_nodes f p = Some n" and kn: "k \<le> nlookup n"
    using r False by (auto simp: forget_node_def Let_def split: option.splits outcome.splits if_splits)
  let ?g = "upd_node p (\<lambda>n. n\<lparr>nlookup := nlookup n - k\<rparr>) f"
  have f': "Done f' = (if nlookup n - k = 0 then unref_node ?g p
      else if lru_enabled f \<and> nlookup n - k = 1 then Done (set_forget_time now p ?g) else Done ?g)"
    using r False p kn by (auto simp: forget_node_def Let_def split: if_splits)
  have g: "?g = upd_node p (\<lambda>n'. n'\<lparr>nlookup := nlookup n - k\<rparr>) f" using p by (simp add: upd_node_def)
  have nz: "0 < nlookup n" using k kn by simp
  note d = nlookup_dec_inv[OF inv p(2) nz g]
  have al: "p \<in> alive ?g" using p by (auto simp: alive_iff)
  consider "nlookup n - k = 0" "unref_node ?g p = Done f'" | "nlookup n - k \<noteq> 0" "f' = set_forget_time now p ?g" "lru_enabled f"
    | "nlookup n - k \<noteq> 0" "f' = ?g"
    using f' by (auto split: if_splits)
  then show ?thesis
  proof cases
    case 1
    then show ?thesis using unref_node_inv[OF 1(2)] d z by (simp add: tree_ok_def)
  next
    case 2
    have i: "core_inv {} {} ?g" using d(1) 2 by simp
    have l: "lru_enabled ?g" using 2(3) by (simp add: lru_enabled_def)
    show ?thesis using set_forget_time_inv[OF i al l] d(2) z 2 by (simp add: tree_ok_def)
  next
    case 3
    then show ?thesis using d z by (simp add: tree_ok_def)
  qed
qed

lemma unlink_node_inv:
  assumes r: "unlink_node p f = Done f'" and inv: "core_inv {} {} f"
  shows "core_inv {} {} f'" and "zeros f' = zeros f" and "parent_of f' p = None"
    and "\<exists>g. parent_of g = parent_of f \<and> nkey g = nkey f \<and> alive g = alive f \<and> shrinks {p} g f'"
proof -
  obtain n where n: "f_nodes f p = Some n" using r by (auto simp: unlink_node_def split: option.splits)
  define g where "g = (if conf_remember f \<noteq> 0 then upd_node p (\<lambda>m. m\<lparr>nlookup := nlookup n - 1\<rparr>) f else f)"
  have eq: "upd_node p (\<lambda>n. n\<lparr>nlookup := nlookup n - 1\<rparr>) f = upd_node p (\<lambda>m. m\<lparr>nlookup := nlookup n - 1\<rparr>) f"
    using n by (simp add: upd_node_def)
  have u: "unhash_name g p = Done f'" and k: "conf_remember f \<noteq> 0 \<Longrightarrow> 1 < nlookup n"
    using r n eq by (auto simp: unlink_node_def g_def split: if_splits)
  have g: "core_inv {} {} g \<and> zeros g = zeros f \<and> alive g = alive f \<and> parent_of g = parent_of f \<and> nkey g = nkey f"
  proof (cases "conf_remember f = 0")
    case False
    have nz: "0 < nlookup n" using k[OF False] by simp
    show ?thesis
      using nlookup_dec_inv[OF inv n nz, of g "nlookup n - 1"] k[OF False] False by (auto simp: g_def)
  qed (use inv in \<open>simp add: g_def\<close>)
  note i = unhash_name_inv[OF u]
  show "core_inv {} {} f'" "zeros f' = zeros f" "parent_of f' p = None" using i g by auto
  show "\<exists>g. parent_of g = parent_of f \<and> nkey g = nkey f \<and> alive g = alive f \<and> shrinks {p} g f'"
    using i g by blast
qed

text \<open>After a release, the named nodes are named as before; the node \<open>p\<close> that was unhashed is not.\<close>

lemma shrinks_named:
  assumes inv: "core_inv {} {} f'" and s: "shrinks {p} g f'" and p: "parent_of f' p = None" and q: "q \<in> named f'"
  shows "q \<in> named g" and "nkey f' q = nkey g q" and "q \<noteq> p"
proof -
  show qp: "q \<noteq> p" using p q by (auto simp: named_def)
  obtain n' r where n': "f_nodes f' q = Some n'" "n_parent n' = Some r" using q by (auto simp: named_iff)
  obtain n where n: "f_nodes g q = Some n" "same_but_ref n n'" using shrinks_same[OF s n'(1)] qp by blast
  note e = same_but_refD[OF n(2)]
  show "q \<in> named g" using n n' e by (auto simp: named_iff)
  have par: "parent_of g q = Some r" using n n' e by (simp add: parent_of_def)
  have "r \<in> alive f'" using inv q n' by (auto simp: core_inv_def names_ok_def parent_of_def)
  then obtain m' where m': "f_nodes f' r = Some m'" by (auto simp: alive_iff)
  then obtain m where "f_nodes g r = Some m" "nodeid m' = nodeid m"
    using shrinksD[OF s m'] shrinks_nlookup(2)[OF s m'] by blast
  then have "nid f' r = nid g r" using m' by (simp add: nid_def)
  then show "nkey f' q = nkey g q" using par n n' e by (intro nkey_eqI) auto
qed

lemma strip_name_inv:
  assumes inv: "core_inv N {} f" and p: "parent_of f p = None"
  defines "g \<equiv> upd_node p (\<lambda>n. n\<lparr>n_name := None\<rparr>) f"
  shows "core_inv N {} g" and "zeros g = zeros f" and "parent_of g = parent_of f" and "nid g = nid f"
    and "\<forall>q \<in> named f. nkey g q = nkey f q"
proof -
  show v: "parent_of g = parent_of f" "nid g = nid f" by (simp_all add: g_def)
  have al: "alive g = alive f" by (simp add: g_def)
  have w: "named g = named f" "kids g {} q = kids f {} q" for q
    using named_cong[OF v(1)] kids_cong[OF v(1)] by auto
  have np: "p \<notin> named f" using p by (simp add: named_def)
  show key: "\<forall>q \<in> named f. nkey g q = nkey f q"
  proof
    fix q assume "q \<in> named f"
    then show "nkey g q = nkey f q" using np v by (intro nkey_eqI) (auto simp: g_def)
  qed
  have nok: "names_ok {} f" using inv by (simp add: core_inv_def)
  have "names_ok {} g"
    unfolding names_ok_def w v al
  proof (intro conjI)
    show "inj_on (nkey g) (named f - {})" using nok key by (simp add: names_ok_def inj_on_def)
    show "table_inv (card {}) (\<lambda>q. name_key_hv (nkey g q)) (name_table g)"
      by (rule table_inv_cong[where hv = "\<lambda>q. name_key_hv (nkey f q)"])
        (use nok key in \<open>auto simp: names_ok_def g_def\<close>)
  qed (use nok in \<open>auto simp: names_ok_def g_def\<close>)
  moreover have "refs_ok {} g" unfolding refs_ok_def w unfolding g_def all_nodes_upd
    using inv by (simp add: core_inv_def refs_ok_def)
  moreover have "\<forall>q n. f_nodes g q = Some n \<longrightarrow> node_ok n"
    unfolding g_def all_nodes_upd using inv p by (auto simp: core_inv_def node_ok_def parent_of_def)
  moreover have "id_table g = id_table f" "lru_table g = lru_table f" "conf_remember g = conf_remember f"
    by (simp_all add: g_def)
  ultimately show "core_inv N {} g"
    using inv by (simp add: core_inv_def ids_ok_def lru_ok_def lru_enabled_def v al)
  show "zeros g = zeros f" by (auto simp: zeros_def g_def split: if_splits)
qed

text \<open>The nodes after \<open>hash_name\<close> has linked \<open>p\<close> under \<open>pp\<close>.\<close>

definition linked_nodes :: "nat \<Rightarrow> string \<Rightarrow> nat \<Rightarrow> fuse \<Rightarrow> fuse" where
  "linked_nodes p name pp f = upd_node p (\<lambda>n. n\<lparr>n_parent := Some pp\<rparr>)
     (upd_node pp (\<lambda>n. n\<lparr>refctr := refctr n + 1\<rparr>) (upd_node p (\<lambda>n. n\<lparr>n_name := Some name\<rparr>) f))"

lemma linked_nodes_views:
  fixes name :: string
  assumes p: "p \<in> alive f" "parent_of f p = None" and pp: "pp \<in> alive f"
    and par: "\<forall>q \<in> named f. \<exists>r \<in> alive f. parent_of f q = Some r"
  defines "g \<equiv> linked_nodes p name pp f"
  shows "nid g = nid f" and "alive g = alive f" and "\<And>q. parent_of g q = (if q = p then Some pp else parent_of f q)"
    and "named g = insert p (named f)" and "finite (named f) \<Longrightarrow> card (kids g {} q) = card (kids f {} q) + (if q = pp then 1 else 0)"
    and "\<And>q. q \<in> named f \<Longrightarrow> nkey g q = nkey f q" and "nkey g p = (nid f pp, name)"
    and "zeros g = zeros f - {pp}"
proof -
  obtain n where n: "f_nodes f p = Some n" "n_parent n = None" using p by (auto simp: alive_iff parent_of_def)
  obtain m where m: "f_nodes f pp = Some m" using pp by (auto simp: alive_iff)
  show nid: "nid g = nid f" and al: "alive g = alive f" by (simp_all add: g_def linked_nodes_def)
  show par': "parent_of g q = (if q = p then Some pp else parent_of f q)" for q
    using n by (simp add: g_def linked_nodes_def parent_of_def bind_map_option comp_def)
  show nm: "named g = insert p (named f)" by (auto simp: named_def par')
  have np: "p \<notin> named f" using p by (simp add: named_def)
  have "kids g {} q = (if q = pp then insert p (kids f {} q) else kids f {} q)"
    using np by (auto simp: kids_def nm par' split: if_splits)
  moreover have "p \<notin> kids f {} q" using np by (simp add: kids_def)
  moreover have "finite (named f) \<Longrightarrow> finite (kids f {} q)" by (simp add: kids_def)
  ultimately show "finite (named f) \<Longrightarrow> card (kids g {} q) = card (kids f {} q) + (if q = pp then 1 else 0)"
    by auto
  show "nkey g q = nkey f q" if "q \<in> named f" for q
    by (rule nkey_eqI) (use that np nid in \<open>auto simp: g_def linked_nodes_def option.map_comp comp_def\<close>)
  show "nkey g p = (nid f pp, name)" using nid n by (auto simp: nkey_def g_def linked_nodes_def)
  show "zeros g = zeros f - {pp}" using n m
    by (auto simp: zeros_def g_def linked_nodes_def split: if_splits)
qed

lemma link_name_inv:
  fixes name :: string
  assumes inv: "core_inv N {} f" and p: "p \<in> alive f" "parent_of f p = None" and pp: "pp \<in> alive f"
    and free: "\<forall>q \<in> named f. nkey f q \<noteq> (nid f pp, name)"
  defines "g \<equiv> linked_nodes p name pp f"
  shows "core_inv N {} (g\<lparr>name_table := link_name ok (nkey g) p (name_table f)\<rparr>)"
proof -
  let ?h = "g\<lparr>name_table := link_name ok (nkey g) p (name_table f)\<rparr>"
  have iok: "ids_ok N f" and nok: "names_ok {} f" and rok: "refs_ok {} f"
    using inv by (auto simp: core_inv_def)
  have par: "\<forall>q \<in> named f. \<exists>r \<in> alive f. parent_of f q = Some r" using nok by (auto simp: names_ok_def)
  note v = linked_nodes_views[OF p pp par, where name = name, folded g_def]
  note w = same_nodes_sel[of ?h g, simplified]
  have np: "p \<notin> named f" using p by (simp add: named_def)
  have fin: "finite (named f)" using core_inv_finite[OF inv] by simp
  have t: "table_inv 0 (\<lambda>q. name_key_hv (nkey g q)) (name_table f)"
    by (rule table_inv_cong[where hv = "\<lambda>q. name_key_hv (nkey f q)"]) (use nok v(6) in \<open>auto simp: names_ok_def\<close>)
  have e: "table_elems (name_table f) = named f" using nok by (simp add: names_ok_def)
  then have "p \<notin> table_elems (name_table f)" using np by simp
  note l = name_index.link_law[where ok = ok, OF t this]
  have "inj_on (nkey g) (insert p (named f))"
    using nok free np v(6,7) by (auto simp: names_ok_def inj_on_def)
  then have "names_ok {} ?h" using l e par pp
    unfolding names_ok_def w v(2,4) by (auto simp: v(3))
  moreover have "ids_ok N ?h" using iok unfolding ids_ok_def w v(1,2) by (simp add: g_def linked_nodes_def)
  moreover have "refs_ok {} ?h"
    unfolding refs_ok_def w v(5)[OF fin] using rok
    unfolding g_def linked_nodes_def fuse.simps all_nodes_upd by (auto simp: refs_ok_def)
  moreover have "\<forall>q n. f_nodes ?h q = Some n \<longrightarrow> node_ok n"
    using inv unfolding g_def linked_nodes_def fuse.simps all_nodes_upd by (auto simp: core_inv_def node_ok_def)
  moreover have "lru_ok ?h" using inv unfolding lru_ok_def w v(2)
    by (simp add: core_inv_def lru_ok_def lru_enabled_def g_def linked_nodes_def)
  ultimately show ?thesis by (simp add: core_inv_def)
qed

definition hash_name_ok :: "bool \<Rightarrow> nat \<Rightarrow> 64 word \<Rightarrow> string \<Rightarrow> nat set \<Rightarrow> fuse \<Rightarrow> fuse \<Rightarrow> bool" where
  "hash_name_ok ok p parentid name N f f' \<longleftrightarrow>
     core_inv N {} f' \<and> zeros f' \<subseteq> zeros f \<and> (\<not> ok \<longrightarrow> zeros f' = zeros f) \<and>
     named f' = (if ok then insert p (named f) else named f) \<and>
     (\<forall>q \<in> named f. nkey f' q = nkey f q) \<and> (ok \<longrightarrow> nkey f' p = (parentid, name)) \<and>
     alive f' = alive f \<and> nid f' = nid f \<and> same_conf f f' \<and>
     (\<forall>q. q \<noteq> p \<or> \<not> ok \<longrightarrow> parent_of f' q = parent_of f q)"

lemma hash_name_inv:
  assumes r: "hash_name d p parentid name f = Done (ok, f')" and inv: "core_inv N {} f"
    and p: "p \<in> alive f" "parent_of f p = None" and free: "\<forall>q \<in> named f. nkey f q \<noteq> (parentid, name)"
  shows "hash_name_ok ok p parentid name N f f'"
proof -
  obtain pp where gn: "get_node f parentid = Done pp" using r by (auto simp: hash_name_def)
  then have pp: "pp \<in> alive f" "nid f pp = parentid" using get_node_iff inv by (auto simp: core_inv_def)
  show ?thesis
  proof (cases ok)
    case False
    then have f': "f' = upd_node p (\<lambda>n. n\<lparr>n_name := None\<rparr>) f"
      using r gn by (auto simp: hash_name_def Let_def split: if_splits)
    note s = strip_name_inv[OF inv p(2), folded f']
    show ?thesis using s False named_cong[OF s(3)]
      by (auto simp: hash_name_ok_def same_conf_def f')
  next
    case True
    let ?g = "linked_nodes p name pp f"
    have f': "f' = ?g\<lparr>name_table := link_name (f_realloc f (nt_size (name_table f))) (nkey ?g) p (name_table f)\<rparr>"
      using r gn True by (auto simp: hash_name_def Let_def linked_nodes_def split: if_splits)
    have par: "\<forall>q \<in> named f. \<exists>r \<in> alive f. parent_of f q = Some r"
      using inv by (auto simp: names_ok_def core_inv_def)
    note v = linked_nodes_views[OF p pp(1) par, where name = name]
    have w: "f_nodes f' = f_nodes ?g" by (simp add: f')
    have c: "same_conf f f'" by (simp add: same_conf_def f' linked_nodes_def)
    show ?thesis
      unfolding hash_name_ok_def same_nodes_sel[OF w]
      using True c link_name_inv[OF inv p pp(1), where name = name, folded f'] free pp(2) v
      by (auto simp: f')
  qed
qed

lemma free_key_shrinks:
  assumes "core_inv {} {} f'" and "shrinks {p} g f'" and "parent_of f' p = None"
    and "\<forall>q \<in> named g. q \<noteq> p \<longrightarrow> nkey g q \<noteq> k"
  shows "\<forall>q \<in> named f'. nkey f' q \<noteq> k"
  using shrinks_named[OF assms(1,2,3)] assms(4) by metis

lemma is_hidden_inv:
  assumes "core_inv N L f"
  shows "core_inv N L (upd_node p (\<lambda>n. n\<lparr>is_hidden := b\<rparr>) f)"
    and "zeros (upd_node p (\<lambda>n. n\<lparr>is_hidden := b\<rparr>) f) = zeros f"
proof -
  let ?g = "upd_node p (\<lambda>n. n\<lparr>is_hidden := b\<rparr>) f"
  have w: "named ?g = named f" "kids ?g L q = kids f L q" for q
    using named_cong[of ?g f] kids_cong[of ?g f] by auto
  have "refs_ok L ?g" unfolding refs_ok_def w all_nodes_upd using assms by (simp add: core_inv_def refs_ok_def)
  moreover have "\<forall>q n. f_nodes ?g q = Some n \<longrightarrow> node_ok n"
    unfolding all_nodes_upd using assms by (simp add: core_inv_def)
  ultimately show "core_inv N L ?g"
    using assms by (simp add: core_inv_def ids_ok_def names_ok_def lru_ok_def lru_enabled_def w)
  show "zeros ?g = zeros f" by (auto simp: zeros_def split: if_splits)
qed

lemma rename_node_tail_inv:
  assumes r: "rename_node_tail d p newdir newname hide f = Done (res, f')" and inv: "core_inv {} {} f"
    and free: "\<forall>q \<in> named f. q \<noteq> p \<longrightarrow> nkey f q \<noteq> (newdir, newname)"
  shows "core_inv {} {} f'" and "zeros f' \<subseteq> zeros f"
    and "res = 0 \<Longrightarrow> p \<in> named f' \<and> nkey f' p = (newdir, newname)"
proof -
  obtain f1 ok f2 where f1: "unhash_name f p = Done f1" and f2: "hash_name d p newdir newname f1 = Done (ok, f2)"
    and f': "(res, f') = (if \<not> ok then (- ENOMEM, f2) else (0, if hide then upd_node p (\<lambda>n. n\<lparr>is_hidden := True\<rparr>) f2 else f2))"
    using r by (auto simp: rename_node_tail_def split: if_splits)
  note u = unhash_name_inv[OF f1 inv]
  have "p \<in> alive f1" using u(5) by (auto simp: alive_iff)
  note h = hash_name_inv[OF f2 u(1) this u(4) free_key_shrinks[OF u(1,3,4) free], unfolded hash_name_ok_def]
  let ?g = "upd_node p (\<lambda>n. n\<lparr>is_hidden := True\<rparr>) f2"
  show "core_inv {} {} f'" "zeros f' \<subseteq> zeros f"
    using h f' u(2) is_hidden_inv[of "{}" "{}" f2 p True] by (auto split: if_splits)
  have "named ?g = named f2" using named_cong[of ?g f2] by simp
  moreover have "res = 0 \<Longrightarrow> ok" using f' by (auto split: if_splits)
  ultimately show "res = 0 \<Longrightarrow> p \<in> named f' \<and> nkey f' p = (newdir, newname)"
    using h f' by (auto split: if_splits)
qed

lemma rename_node_inv:
  assumes ok: "tree_ok f" and r: "rename_node d olddir oldname newdir newname hide f = Done (res, f')"
  shows "tree_ok f'"
    and "res = 0 \<Longrightarrow> lookup_node f olddir oldname = Some p \<Longrightarrow> lookup_node f' newdir newname = Some p"
proof -
  have inv: "core_inv {} {} f" and nok: "names_ok {} f" and z: "zeros f = {}"
    using ok by (auto simp: tree_ok_def core_inv_def)
  have main: "tree_ok f' \<and> (res = 0 \<longrightarrow> lookup_node f' newdir newname = Some p)"
    if p: "lookup_node f olddir oldname = Some p" for p
  proof (cases "lookup_node f newdir newname")
    case None
    note t = rename_node_tail_inv[of d p newdir newname hide f res f']
    show ?thesis using t r p None inv z lookup_node_None[OF nok] lookup_node_iff[of f']
      by (auto simp: rename_node_def tree_ok_def core_inv_def)
  next
    case (Some q)
    show ?thesis
    proof (cases hide)
      case True
      then show ?thesis using r p Some ok by (simp add: rename_node_def)
    next
      case False
      obtain f1 where f1: "unlink_node q f = Done f1"
        and t: "rename_node_tail d p newdir newname hide f1 = Done (res, f')"
        using r p Some False by (auto simp: rename_node_def)
      note u = unlink_node_inv[OF f1 inv]
      obtain g where g: "parent_of g = parent_of f" "nkey g = nkey f" "shrinks {q} g f1" using u(4) by blast
      have "\<forall>x \<in> named g. x \<noteq> q \<longrightarrow> nkey g x \<noteq> (newdir, newname)"
        using Some lookup_node_iff[OF nok, of newdir newname] named_cong[OF g(1)] g(2)
        by (metis option.inject)
      then have "\<forall>x \<in> named f1. nkey f1 x \<noteq> (newdir, newname)" by (rule free_key_shrinks[OF u(1) g(3) u(3)])
      then show ?thesis using rename_node_tail_inv[OF t u(1)] u(2) z lookup_node_iff[of f']
        by (auto simp: tree_ok_def core_inv_def)
    qed
  qed
  show "tree_ok f'"
    using main r ok by (cases "lookup_node f olddir oldname") (auto simp: rename_node_def)
  show "res = 0 \<Longrightarrow> lookup_node f olddir oldname = Some p \<Longrightarrow> lookup_node f' newdir newname = Some p"
    using main by blast
qed

lemma remove_node_inv:
  assumes ok: "tree_ok f" and r: "remove_node dir name f = Done f'"
  shows "tree_ok f'" and "lookup_node f' dir name = None"
proof -
  have inv: "core_inv {} {} f" and nok: "names_ok {} f" using ok by (auto simp: tree_ok_def core_inv_def)
  have "tree_ok f' \<and> lookup_node f' dir name = None"
  proof (cases "lookup_node f dir name")
    case None
    then show ?thesis using ok r by (simp add: remove_node_def)
  next
    case (Some p)
    then have u0: "unlink_node p f = Done f'" using r by (simp add: remove_node_def)
    note u = unlink_node_inv[OF u0 inv]
    obtain g where g: "parent_of g = parent_of f" "nkey g = nkey f" "shrinks {p} g f'" using u(4) by blast
    have "\<forall>x \<in> named g. x \<noteq> p \<longrightarrow> nkey g x \<noteq> (dir, name)"
      using Some lookup_node_iff[OF nok, of dir name] named_cong[OF g(1)] g(2) by (metis option.inject)
    then have "\<forall>x \<in> named f'. nkey f' x \<noteq> (dir, name)" by (rule free_key_shrinks[OF u(1) g(3) u(3)])
    then show ?thesis using u ok lookup_node_None[of f'] by (auto simp: tree_ok_def core_inv_def)
  qed
  then show "tree_ok f'" "lookup_node f' dir name = None" by auto
qed

lemma low32_mask: "(w :: 64 word) AND 0xffffffff = take_bit 32 w"
  by (simp add: take_bit_eq_mask mask_numeral)

lemma low32_add: "take_bit 32 (take_bit 32 a + b) = take_bit 32 (a + b :: 64 word)"
  by transfer (simp add: take_bit_eq_mod mod_mod_cancel, simp add: mod_simps)

lemma next_id_loop_sound:
  "next_id_loop taken ctr gen = Some r \<Longrightarrow> fst r \<noteq> 0 \<and> fst r \<noteq> FUSE_UNKNOWN_INO \<and> \<not> taken (fst r)"
proof (rule next_id_loop.raw_induct[where
      P = "\<lambda>taken ctr gen r. fst r \<noteq> 0 \<and> fst r \<noteq> FUSE_UNKNOWN_INO \<and> \<not> taken (fst r)"], goal_cases)
  case (1 loop taken ctr gen r)
  show ?case
    by (cases "let ctr' = (ctr + 1) AND 0xffffffff in ctr' = 0 \<or> ctr' = FUSE_UNKNOWN_INO \<or> taken ctr'")
      (use 1(2)[of taken _ _ r] 1(3) in \<open>auto simp only: Let_def if_True if_False option.inject fst_conv simp_thms\<close>)
qed

lemma next_id_loop_finds:
  "take_bit 32 (ctr + of_nat (Suc k)) = i \<Longrightarrow> i \<noteq> 0 \<Longrightarrow> i \<noteq> FUSE_UNKNOWN_INO \<Longrightarrow> \<not> taken i \<Longrightarrow>
   next_id_loop taken ctr gen \<noteq> None"
proof (induction k arbitrary: ctr gen)
  case 0
  then have "take_bit 32 (ctr + 1) = i" by simp
  then show ?case using 0 by (subst next_id_loop.simps) (simp only: Let_def low32_mask simp_thms if_False option.distinct)
next
  case (Suc k)
  let ?c = "take_bit 32 (ctr + 1)"
  have "take_bit 32 (?c + of_nat (Suc k)) = take_bit 32 ((ctr + 1) + of_nat (Suc k))" by (rule low32_add)
  also have "(ctr + 1) + of_nat (Suc k) = ctr + of_nat (Suc (Suc k))" by simp
  finally have "take_bit 32 (?c + of_nat (Suc k)) = i" using Suc.prems(1) by simp
  then have IH: "next_id_loop taken ?c g \<noteq> None" for g using Suc.IH Suc.prems by blast
  show ?case by (subst next_id_loop.simps) (use IH in \<open>simp only: Let_def low32_mask split: if_splits, simp\<close>)
qed

lemma next_id_loop_returns:
  assumes "i < 2 ^ 32" and "i \<noteq> 0" and "i \<noteq> FUSE_UNKNOWN_INO" and "\<not> taken i"
  shows "\<exists>c g. next_id_loop taken ctr gen = Some (c, g)"
proof -
  let ?k = "unat (i - ctr - 1)"
  have "ctr + of_nat (Suc ?k) = i" by simp
  moreover have "take_bit 32 i = i" using assms(1) by (metis take_bit_eq_mod mod_word_less)
  ultimately have "next_id_loop taken ctr gen \<noteq> None"
    using next_id_loop_finds[of ctr ?k i taken gen] assms by simp
  then show ?thesis by auto
qed

lemma of_nat_word_image_card:
  assumes "M \<le> 2 ^ 32"
  shows "card ((of_nat :: nat \<Rightarrow> 64 word) ` {1..<M}) = M - 1"
proof -
  have "inj_on (of_nat :: nat \<Rightarrow> 64 word) {1..<M}"
  proof (rule inj_onI)
    fix x y assume x: "x \<in> {1..<M}" and y: "y \<in> {1..<M}" and e: "(of_nat x :: 64 word) = of_nat y"
    have un: "unat (of_nat k :: 64 word) = k" if "k \<in> {1..<M}" for k
    proof -
      have "k < 2 ^ 32" using that assms by (simp only: atLeastLessThan_iff) linarith
      then show ?thesis by (simp add: unat_of_nat)
    qed
    show "x = y" using arg_cong[OF e, of unat] by (simp only: un[OF x] un[OF y])
  qed
  then show ?thesis by (simp add: card_image)
qed

lemma free_id_exists:
  assumes fin: "finite A" and c: "card A < 2 ^ 32 - 2"
  shows "\<exists>i. i < 2 ^ 32 \<and> i \<noteq> 0 \<and> i \<noteq> FUSE_UNKNOWN_INO \<and> i \<notin> A"
proof -
  define M :: nat where "M = 2 ^ 32 - 1"
  have M: "M \<le> 2 ^ 32" "M - 1 = 2 ^ 32 - 2" by (simp_all add: M_def)
  have "\<not> (of_nat :: nat \<Rightarrow> 64 word) ` {1..<M} \<subseteq> A"
    using card_mono[OF fin, of "of_nat ` {1..<M}"] of_nat_word_image_card[OF M(1)] c M(2) by linarith
  then obtain w where "w \<in> (of_nat :: nat \<Rightarrow> 64 word) ` {1..<M}" and w: "w \<notin> A" by blast
  then obtain k where "k \<in> {1..<M}" and "w = of_nat k" by blast
  then have k: "1 \<le> k" "k < M" "(of_nat k :: 64 word) \<notin> A" using w by auto
  have kb: "k < 2 ^ 32" using k M(1) by linarith
  have uk: "unat (of_nat k :: 64 word) = k" using kb by (simp add: unat_of_nat)
  have "unat (2 ^ 32 :: 64 word) = 2 ^ 32" by simp
  then have "(of_nat k :: 64 word) < 2 ^ 32" using kb by (simp only: word_less_nat_alt uk)
  moreover have "(of_nat k :: 64 word) \<noteq> 0" using k uk by (metis not_one_le_zero unat_0)
  moreover have "(of_nat k :: 64 word) \<noteq> FUSE_UNKNOWN_INO"
  proof
    assume "(of_nat k :: 64 word) = FUSE_UNKNOWN_INO"
    then have "k = unat FUSE_UNKNOWN_INO" using uk by simp
    then show False using k(2) by (simp add: FUSE_UNKNOWN_INO_def M_def)
  qed
  ultimately show ?thesis using k(3) by blast
qed

lemma next_id_inv:
  assumes "next_id f = Some (i, f')"
  shows "f' = f\<lparr>f_ctr := i, f_generation := f_generation f'\<rparr>" and "i \<noteq> 0" and "i \<noteq> FUSE_UNKNOWN_INO"
    and "get_node_nocheck (nid f) (id_table f) i = None"
  using assms next_id_loop_sound[of "\<lambda>i. get_node_nocheck (nid f) (id_table f) i \<noteq> None" "f_ctr f" "f_generation f"]
  by (auto simp: next_id_def)

lemma inc_nlookup_inv:
  assumes inv: "core_inv N {} f" and p: "p \<in> alive f"
  shows "core_inv N {} (inc_nlookup p f)" and "zeros (inc_nlookup p f) = zeros f - {p}"
    and "nid (inc_nlookup p f) = nid f" and "nkey (inc_nlookup p f) = nkey f"
    and "parent_of (inc_nlookup p f) = parent_of f" and "alive (inc_nlookup p f) = alive f"
    and "named (inc_nlookup p f) = named f" and "same_conf f (inc_nlookup p f)"
proof -
  let ?g = "inc_nlookup p f"
  obtain n where n: "f_nodes f p = Some n" using p by (auto simp: alive_iff)
  show v: "nid ?g = nid f" "nkey ?g = nkey f" "parent_of ?g = parent_of f" "alive ?g = alive f"
    by (simp_all add: inc_nlookup_def)
  show w: "named ?g = named f" using named_cong[OF v(3)] .
  show "same_conf f ?g" by (simp add: same_conf_def inc_nlookup_def)
  have rok: "refs_ok {} f" using inv by (simp add: core_inv_def)
  then have "refs_ok {} ?g"
    unfolding refs_ok_def kids_cong[OF v(3)] unfolding inc_nlookup_def all_nodes_upd by auto
  moreover have "\<forall>q n. f_nodes ?g q = Some n \<longrightarrow> node_ok n"
    unfolding inc_nlookup_def all_nodes_upd using inv by (auto simp: core_inv_def node_ok_def)
  moreover have "id_table ?g = id_table f" "name_table ?g = name_table f" "lru_table ?g = lru_table f"
    "conf_remember ?g = conf_remember f" by (simp_all add: inc_nlookup_def)
  ultimately show "core_inv N {} ?g"
    using inv by (simp add: core_inv_def ids_ok_def names_ok_def lru_ok_def lru_enabled_def v w)
  have "0 < nlookup n \<Longrightarrow> 0 < refctr n" using rok n by (auto simp: refs_ok_def)
  then show "zeros ?g = zeros f - {p}"
    using n by (auto simp: zeros_def inc_nlookup_def split: if_splits)
qed

text \<open>\<open>find_node\<close> after \<open>alloc_node\<close> and \<open>next_id\<close>: the new node is alone and nameless.\<close>

lemma new_node_inv:
  fixes gen :: "32 word" and c :: "64 word"
  assumes inv: "core_inv {} {} f" and p: "p \<notin> alive f" and i: "\<forall>q \<in> alive f. nid f q \<noteq> i"
  defines "g \<equiv> f\<lparr>f_nodes := (f_nodes f)(p \<mapsto> zero_node\<lparr>nodeid := i, n_generation := gen\<rparr>),
                 f_ctr := c, f_generation := gen\<rparr>"
  shows "core_inv {p} {} g" and "zeros g = insert p (zeros f)" and "named g = named f" and "parent_of g p = None"
    and "\<forall>q \<in> named f. nkey g q = nkey f q" and "alive g = insert p (alive f)"
proof -
  have fn: "f_nodes g q = (if q = p then Some (zero_node\<lparr>nodeid := i, n_generation := gen\<rparr>) else f_nodes f q)" for q
    by (simp add: g_def)
  have fp: "f_nodes f p = None" using p by (cases "f_nodes f p") (auto simp: alive_iff)
  have par: "parent_of g = parent_of f" using fp by (auto simp: fun_eq_iff parent_of_def fn zero_node_def)
  show nm: "named g = named f" using named_cong[OF par] .
  show al: "alive g = insert p (alive f)" by (auto simp: alive_iff fn split: if_splits)
  show "parent_of g p = None" using fp by (simp add: par parent_of_def)
  have pn: "p \<notin> named f" using p named_alive by blast
  have nid: "nid g q = (if q = p then i else nid f q)" for q by (simp add: nid_def fn)
  have nok: "names_ok {} f" using inv by (simp add: core_inv_def)
  have parp: "parent_of f q \<noteq> Some p" if "q \<in> named f" for q using nok that p by (force simp: names_ok_def)
  show key: "\<forall>q \<in> named f. nkey g q = nkey f q"
  proof
    fix q assume q: "q \<in> named f"
    then have "q \<noteq> p" using pn by blast
    then show "nkey g q = nkey f q" using parp[OF q] nid by (intro nkey_eqI) (auto simp: fn)
  qed
  have kp: "kids f {} p = {}" using parp by (auto simp: kids_def)
  have "refs_ok {} g" unfolding refs_ok_def kids_cong[OF par]
    using inv kp by (auto simp: fn core_inv_def refs_ok_def zero_node_def)
  moreover have "names_ok {} g"
    unfolding names_ok_def nm al par
  proof (intro conjI)
    show "inj_on (nkey g) (named f - {})" using nok key by (simp add: names_ok_def inj_on_def)
    show "table_inv (card {}) (\<lambda>q. name_key_hv (nkey g q)) (name_table g)"
      by (rule table_inv_cong[where hv = "\<lambda>q. name_key_hv (nkey f q)"])
        (use nok key in \<open>auto simp: names_ok_def g_def\<close>)
  qed (use nok in \<open>auto simp: names_ok_def g_def\<close>)
  moreover have "ids_ok {p} g"
  proof -
    have iok: "ids_ok {} f" using inv by (simp add: core_inv_def)
    have "table_inv 0 (\<lambda>q. id_hv (nid g q)) (id_table f)"
      by (rule table_inv_cong[where hv = "\<lambda>q. id_hv (nid f q)"]) (use iok p nid in \<open>auto simp: ids_ok_def\<close>)
    moreover have "inj_on (nid g) (insert p (alive f))"
      using iok i p by (auto simp: ids_ok_def inj_on_def nid)
    moreover have "id_table g = id_table f" by (simp add: g_def)
    ultimately show ?thesis using iok p unfolding ids_ok_def al by auto
  qed
  moreover have "lru_ok g" using inv unfolding lru_ok_def al by (auto simp: core_inv_def lru_ok_def lru_enabled_def g_def)
  ultimately show "core_inv {p} {} g" using inv by (auto simp: core_inv_def fn node_ok_def zero_node_def)
  show "zeros g = insert p (zeros f)" using fp by (auto simp: zeros_def fn zero_node_def)
qed

lemma hash_id_inv:
  fixes ok :: bool
  assumes inv: "core_inv {p} {} f"
  defines "g \<equiv> f\<lparr>id_table := hash_id ok (nid f) p (id_table f)\<rparr>"
  shows "core_inv {} {} g" and "zeros g = zeros f" and "alive g = alive f" and "nkey g = nkey f" and "named g = named f"
proof -
  have s: "f_nodes g = f_nodes f" by (simp add: g_def)
  note w = same_nodes_sel[OF s]
  have iok: "ids_ok {p} f" using inv by (simp add: core_inv_def)
  have t: "table_inv 0 (\<lambda>q. id_hv (nid f q)) (id_table f)" "p \<notin> table_elems (id_table f)"
    using iok by (auto simp: ids_ok_def)
  have "ids_ok {} g"
    using id_index.link_law[where ok = ok, OF t] iok unfolding ids_ok_def w by (auto simp: g_def)
  then show "core_inv {} {} g"
    using inv by (simp add: core_inv_def names_ok_def refs_ok_def lru_ok_def lru_enabled_def w) (simp add: g_def)
  show "zeros g = zeros f" "alive g = alive f" "nkey g = nkey f" "named g = named f" by (fact w)+
qed

lemma free_node_inv:
  assumes inv: "core_inv {p} {} f" and p: "parent_of f p = None" "kids f {} p = {}" and l: "p \<notin> set (lru_table f)"
  shows "core_inv {} {} (free_node p f)" and "zeros (free_node p f) = zeros f - {p}"
proof -
  let ?g = "free_node p f"
  have fn: "f_nodes ?g q = (if q = p then None else f_nodes f q)" for q by (simp add: free_node_def)
  have al: "alive ?g = alive f - {p}" by (auto simp: alive_iff fn split: if_splits)
  have par: "parent_of ?g = parent_of f" using p by (auto simp: fun_eq_iff parent_of_def fn)
  have nm: "named ?g = named f" using named_cong[OF par] .
  have nid: "nid ?g q = nid f q" if "q \<noteq> p" for q using that by (simp add: nid_def fn)
  have parp: "parent_of f q \<noteq> Some p" if "q \<in> named f" for q using p(2) that by (auto simp: kids_def)
  have key: "nkey ?g q = nkey f q" if "q \<in> named f" for q
  proof -
    have "q \<noteq> p" using that p by (auto simp: named_def)
    then show ?thesis using parp[OF that] nid by (intro nkey_eqI) (auto simp: fn)
  qed
  have nok: "names_ok {} f" and iok: "ids_ok {p} f" using inv by (auto simp: core_inv_def)
  have t: "id_table ?g = id_table f" "name_table ?g = name_table f" "lru_table ?g = lru_table f"
    "conf_remember ?g = conf_remember f" by (simp_all add: free_node_def)
  have "table_inv 0 (\<lambda>q. name_key_hv (nkey ?g q)) (name_table f)"
    by (rule table_inv_cong[where hv = "\<lambda>q. name_key_hv (nkey f q)"]) (use nok key in \<open>auto simp: names_ok_def\<close>)
  then have "names_ok {} ?g"
    using nok key parp unfolding names_ok_def nm al par t by (fastforce simp: inj_on_def)
  moreover have "table_inv 0 (\<lambda>q. id_hv (nid ?g q)) (id_table f)"
    by (rule table_inv_cong[where hv = "\<lambda>q. id_hv (nid f q)"]) (use iok nid in \<open>auto simp: ids_ok_def\<close>)
  then have "ids_ok {} ?g" using iok nid unfolding ids_ok_def al t by (auto simp: inj_on_def)
  moreover have "refs_ok {} ?g" using inv unfolding refs_ok_def kids_cong[OF par]
    by (auto simp: fn core_inv_def refs_ok_def)
  ultimately show "core_inv {} {} ?g"
    using inv l unfolding core_inv_def lru_ok_def lru_enabled_def al t by (auto simp: fn)
  show "zeros ?g = zeros f - {p}" by (auto simp: zeros_def fn)
qed

definition find_node_alloc :: "nat \<Rightarrow> 64 word \<Rightarrow> fuse \<Rightarrow> fuse" where
  "find_node_alloc p i f2 =
     (let f3 = upd_node p (\<lambda>n. n\<lparr>nodeid := i, n_generation := f_generation f2\<rparr>) f2
      in if conf_remember f3 \<noteq> 0 then inc_nlookup p f3 else f3)"

lemma find_node_alloc_inv:
  assumes ok: "tree_ok f" and p: "p \<notin> alive f"
    and ni: "next_id (f\<lparr>f_nodes := (f_nodes f)(p \<mapsto> zero_node)\<rparr>) = Some (i, f2)"
  defines "f4 \<equiv> find_node_alloc p i f2"
  shows "core_inv {p} {} f4" "zeros f4 \<subseteq> {p}" "named f4 = named f" "parent_of f4 p = None"
    "\<forall>q \<in> named f. nkey f4 q = nkey f q" "alive f4 = insert p (alive f)" "\<forall>q \<in> named f. parent_of f4 q = parent_of f q"
    "lru_table f4 = lru_table f" "\<forall>q \<in> alive f. nid f4 q = nid f q"
proof -
  have inv: "core_inv {} {} f" and z: "zeros f = {}" using ok by (auto simp: tree_ok_def)
  let ?f1 = "f\<lparr>f_nodes := (f_nodes f)(p \<mapsto> zero_node)\<rparr>"
  note n = next_id_inv[OF ni]
  define f3 where "f3 = upd_node p (\<lambda>n. n\<lparr>nodeid := i, n_generation := f_generation f2\<rparr>) f2"
  have f4_def': "f4 = (if conf_remember f3 \<noteq> 0 then inc_nlookup p f3 else f3)"
    by (simp add: f4_def find_node_alloc_def f3_def)
  have "\<forall>q \<in> alive f. nid f q \<noteq> i"
  proof -
    have iok: "ids_ok {} f" using inv by (simp add: core_inv_def)
    have nid: "nid ?f1 q = nid f q" if "q \<in> alive f" for q using that p by (auto simp: nid_def)
    have "table_inv 0 (\<lambda>q. id_hv (nid ?f1 q)) (id_table f)"
      by (rule table_inv_cong[where hv = "\<lambda>q. id_hv (nid f q)"]) (use iok nid in \<open>auto simp: ids_ok_def\<close>)
    moreover have "inj_on (nid ?f1) (table_elems (id_table f))" using iok nid by (simp add: ids_ok_def inj_on_def)
    ultimately have "\<forall>q \<in> table_elems (id_table f). nid ?f1 q \<noteq> i"
      using get_node_nocheck_None n(4) by force
    then show ?thesis using nid iok by (simp add: ids_ok_def)
  qed
  note nn = new_node_inv[OF inv p this, of "f_generation f2" i]
  have f3: "f3 = f\<lparr>f_nodes := (f_nodes f)(p \<mapsto> zero_node\<lparr>nodeid := i, n_generation := f_generation f2\<rparr>),
      f_ctr := i, f_generation := f_generation f2\<rparr>"
    unfolding f3_def by (subst (1) n(1)) (simp add: upd_node_def)
  note nn = nn[folded f3]
  have pa: "p \<in> alive f3" using nn(6) by simp
  have z3: "zeros f3 = {p}" using nn(2) z by simp
  note il = inc_nlookup_inv[OF nn(1) pa]
  have nid3: "\<forall>q \<in> alive f. nid f3 q = nid f q" using p by (auto simp: nid_def f3)
  have par3: "\<forall>q \<in> named f. parent_of f3 q = parent_of f q"
    using p named_alive[of f] by (auto simp: parent_of_def f3)
  show "core_inv {p} {} f4" "zeros f4 \<subseteq> {p}" "named f4 = named f" "parent_of f4 p = None"
    "\<forall>q \<in> named f. nkey f4 q = nkey f q" "alive f4 = insert p (alive f)"
    "\<forall>q \<in> named f. parent_of f4 q = parent_of f q"
    "lru_table f4 = lru_table f" "\<forall>q \<in> alive f. nid f4 q = nid f q"
    using nn il pa z3 nid3 par3 by (auto simp: f4_def' f3 inc_nlookup_def)
qed

text \<open>\<open>find_node\<close> on a name that is not cached: either nothing changes but the id counter
  (\<open>strdup\<close> failed), or there is one more node, found under the name.\<close>

lemma find_node_new_inv:
  assumes ok: "tree_ok f" and p: "p \<notin> alive f" and free: "\<forall>q \<in> named f. nkey f q \<noteq> (parent, name)"
    and r: "find_node_new p d parent name f = Some (Done (res, f'))"
  shows "tree_ok f'" and "res \<noteq> None \<Longrightarrow> res = Some p \<and> lookup_node f' parent name = Some p"
proof -
  have inv: "core_inv {} {} f" using ok by (auto simp: tree_ok_def)
  let ?f1 = "f\<lparr>f_nodes := (f_nodes f)(p \<mapsto> zero_node)\<rparr>"
  obtain i f2 where ni: "next_id ?f1 = Some (i, f2)"
    using r by (auto simp: find_node_new_def Let_def split: option.splits)
  let ?f4 = "find_node_alloc p i f2"
  obtain okh f5 where h: "hash_name d p parent name ?f4 = Done (okh, f5)"
    and res: "(res, f') = (if \<not> okh then (None, free_node p f5) else
       (Some p, inc_nlookup p (f5\<lparr>id_table := hash_id (f_realloc f5 (nt_size (id_table f5))) (nid f5) p (id_table f5)\<rparr>)))"
    using r ni by (auto simp: find_node_new_def Let_def find_node_alloc_def split: if_splits)
  note f4 = find_node_alloc_inv[OF ok p ni]
  have "\<forall>q \<in> named ?f4. nkey ?f4 q \<noteq> (parent, name)" using free f4(3,5) by simp
  moreover have "p \<in> alive ?f4" using f4(6) by simp
  ultimately have hn: "hash_name_ok okh p parent name {p} ?f4 f5" using hash_name_inv[OF h f4(1) _ f4(4)] by blast
  note hn = hn[unfolded hash_name_ok_def]
  have main: "tree_ok f' \<and> (res \<noteq> None \<longrightarrow> res = Some p \<and> lookup_node f' parent name = Some p)"
  proof (cases okh)
    case True
    let ?f6 = "f5\<lparr>id_table := hash_id (f_realloc f5 (nt_size (id_table f5))) (nid f5) p (id_table f5)\<rparr>"
    have f': "f' = inc_nlookup p ?f6" "res = Some p" using res True by auto
    have c5: "core_inv {p} {} f5" using hn by blast
    note c = hash_id_inv[OF c5, of "f_realloc f5 (nt_size (id_table f5))"]
    have "p \<in> alive ?f6" using c(3) hn f4(6) by simp
    note c' = inc_nlookup_inv[OF c(1) this, folded f'(1)]
    have t: "tree_ok f'" using c' c(2) hn f4(2) by (auto simp: tree_ok_def)
    then have "names_ok {} f'" by (simp add: tree_ok_def core_inv_def)
    moreover have "p \<in> named f'" "nkey f' p = (parent, name)" using c' c(4,5) hn True by auto
    ultimately show ?thesis using t f'(2) lookup_node_iff by blast
  next
    case False
    have f': "f' = free_node p f5" "res = None" using res False by auto
    have par: "parent_of f5 = parent_of ?f4" using hn False by (simp add: fun_eq_iff)
    have "kids f5 {} p = {}"
    proof -
      have "parent_of f q \<noteq> Some p" if "q \<in> named f" for q using inv that p by (force simp: core_inv_def names_ok_def)
      then show ?thesis using hn False f4(3,7) par by (auto simp: kids_def)
    qed
    moreover have "lru_table f5 = lru_table ?f4" using h False by (auto simp: hash_name_def Let_def split: if_splits)
    then have "p \<notin> set (lru_table f5)" using f4(8) inv p by (auto simp: core_inv_def lru_ok_def)
    moreover have "core_inv {p} {} f5" "parent_of f5 p = None" using hn par f4(4) by auto
    ultimately show ?thesis using free_node_inv[of p f5] f' hn f4(2) by (auto simp: tree_ok_def)
  qed
  then show "tree_ok f'" "res \<noteq> None \<Longrightarrow> res = Some p \<and> lookup_node f' parent name = Some p" by auto
qed

lemma find_node_inv:
  assumes ok: "tree_ok f" and p: "\<forall>p. newp = Some p \<longrightarrow> p \<notin> alive f"
    and r: "find_node newp d parent name f = Some (Done (res, f'))"
  shows "tree_ok f'" and "name = Some nm \<Longrightarrow> res \<noteq> None \<Longrightarrow> lookup_node f' parent nm = res"
proof -
  have inv: "core_inv {} {} f" and nok: "names_ok {} f" and z: "zeros f = {}"
    using ok by (auto simp: tree_ok_def core_inv_def)
  let ?found = "case name of None \<Rightarrow> obind (get_node f parent) (\<lambda>p. Done (Some p)) | Some nm \<Rightarrow> Done (lookup_node f parent nm)"
  have "tree_ok f' \<and> (\<forall>nm. name = Some nm \<longrightarrow> res \<noteq> None \<longrightarrow> lookup_node f' parent nm = res)"
  proof (cases "?found")
    case (Done fo)
    show ?thesis
    proof (cases fo)
      case None
      then obtain nm where nm: "name = Some nm" "lookup_node f parent nm = None"
        using Done by (cases name) auto
      show ?thesis
      proof (cases newp)
        case None
        then show ?thesis using r nm ok by (simp add: find_node_def)
      next
        case (Some q)
        have q: "q \<notin> alive f" using p Some by simp
        have "find_node_new q d parent nm f = Some (Done (res, f'))" using r nm Some by (simp add: find_node_def)
        then show ?thesis
          using find_node_new_inv[OF ok q _ ] nm lookup_node_None[OF nok] by auto
      qed
    next
      case (Some q)
      obtain n where n: "f_nodes f q = Some n" and res: "res = Some q"
        and f': "f' = inc_nlookup q (if lru_enabled f \<and> nlookup n = 1 then remove_node_lru q f else f)"
        using r Done Some by (auto simp: find_node_def Let_def split: option.splits)
      let ?g = "if lru_enabled f \<and> nlookup n = 1 then remove_node_lru q f else f"
      have g: "core_inv {} {} ?g" "zeros ?g = zeros f"
        using core_inv_lru[OF inv, of "remove1 q (lru_table f)"] inv set_remove1_subset[of q "lru_table f"]
        by (auto simp: remove_node_lru_def core_inv_def lru_ok_def zeros_def)
      have sn: "f_nodes ?g = f_nodes f" by (simp add: remove_node_lru_def)
      note w = same_nodes_sel[OF sn]
      have "q \<in> alive ?g" using n sn by (simp add: alive_iff)
      note i = inc_nlookup_inv[OF g(1) this, folded f']
      have t: "tree_ok f'" using i g z by (simp add: tree_ok_def)
      then have nok': "names_ok {} f'" by (simp add: tree_ok_def core_inv_def)
      have "lookup_node f' parent nm = Some q" if "name = Some nm" for nm
        using Done Some that lookup_node_iff[OF nok, of parent nm q] i(4,7) w(2,5)
        by (simp add: lookup_node_iff[OF nok'])
      then show ?thesis using t res by simp
    qed
  qed (use r in \<open>simp add: find_node_def\<close>)
  then show "tree_ok f'" "name = Some nm \<Longrightarrow> res \<noteq> None \<Longrightarrow> lookup_node f' parent nm = res" by auto
qed

lemma unhash_name_opt_inv:
  assumes "unhash_name_opt q f = Done f'" and inv: "core_inv {} {} f"
  shows "core_inv {} {} f'" and "zeros f' = zeros f"
    and "\<forall>x \<in> named f'. x \<in> named f \<and> nkey f' x = nkey f x \<and> q \<noteq> Some x"
proof -
  have "core_inv {} {} f' \<and> zeros f' = zeros f \<and> (\<forall>x \<in> named f'. x \<in> named f \<and> nkey f' x = nkey f x \<and> q \<noteq> Some x)"
  proof (cases q)
    case None
    then show ?thesis using assms by (simp add: unhash_name_opt_def)
  next
    case (Some p)
    then have u: "unhash_name f p = Done f'" using assms by (simp add: unhash_name_opt_def)
    note i = unhash_name_inv[OF u inv]
    show ?thesis using i shrinks_named[OF i(1,3,4)] Some by auto
  qed
  then show "core_inv {} {} f'" "zeros f' = zeros f"
    "\<forall>x \<in> named f'. x \<in> named f \<and> nkey f' x = nkey f x \<and> q \<noteq> Some x" by auto
qed

lemma hash_name_opt_inv:
  assumes h: "hash_name_opt d q dir name f = Done (ok, f')" and inv: "core_inv {} {} f"
    and free: "\<forall>x \<in> named f. nkey f x \<noteq> (dir, name) \<and> q \<noteq> Some x"
  shows "core_inv {} {} f'" and "zeros f' \<subseteq> zeros f"
    and "\<forall>x \<in> named f'. (x \<in> named f \<and> nkey f' x = nkey f x) \<or> (ok \<and> q = Some x \<and> nkey f' x = (dir, name))"
    and "ok \<Longrightarrow> q = Some p \<Longrightarrow> p \<in> named f' \<and> nkey f' p = (dir, name)"
    and "\<forall>x \<in> named f. x \<in> named f' \<and> nkey f' x = nkey f x"
proof -
  have "core_inv {} {} f' \<and> zeros f' \<subseteq> zeros f \<and>
    (\<forall>x \<in> named f'. (x \<in> named f \<and> nkey f' x = nkey f x) \<or> (ok \<and> q = Some x \<and> nkey f' x = (dir, name))) \<and>
    (\<forall>p. ok \<longrightarrow> q = Some p \<longrightarrow> p \<in> named f' \<and> nkey f' p = (dir, name)) \<and>
    (\<forall>x \<in> named f. x \<in> named f' \<and> nkey f' x = nkey f x)"
  proof (cases q)
    case None
    then show ?thesis using assms by (simp add: hash_name_opt_def)
  next
    case (Some p)
    then have hn: "hash_name d p dir name f = Done (ok, f')" using h by (simp add: hash_name_opt_def)
    have "p \<notin> named f" using free Some by blast
    then have pn: "parent_of f p = None" by (simp add: named_def)
    have "f_nodes f p \<noteq> None" using hn by (auto simp: hash_name_def split: if_splits)
    then have pa: "p \<in> alive f" by (auto simp: alive_iff)
    show ?thesis using hash_name_inv[OF hn inv pa pn] free Some unfolding hash_name_ok_def by auto
  qed
  then show "core_inv {} {} f'" "zeros f' \<subseteq> zeros f"
    "\<forall>x \<in> named f'. (x \<in> named f \<and> nkey f' x = nkey f x) \<or> (ok \<and> q = Some x \<and> nkey f' x = (dir, name))"
    "ok \<Longrightarrow> q = Some p \<Longrightarrow> p \<in> named f' \<and> nkey f' p = (dir, name)"
    "\<forall>x \<in> named f. x \<in> named f' \<and> nkey f' x = nkey f x" by blast+
qed

lemma exchange_node_inv:
  assumes ok: "tree_ok f" and diff: "(olddir, oldname) \<noteq> (newdir, newname)"
    and r: "exchange_node d1 d2 olddir oldname newdir newname f = Done (res, f')"
  shows "tree_ok f'"
    and "res = 0 \<Longrightarrow> lookup_node f' newdir newname = lookup_node f olddir oldname"
    and "res = 0 \<Longrightarrow> lookup_node f' olddir oldname = lookup_node f newdir newname"
proof -
  have inv: "core_inv {} {} f" and nok: "names_ok {} f" and z: "zeros f = {}"
    using ok by (auto simp: tree_ok_def core_inv_def)
  let ?o = "lookup_node f olddir oldname" and ?n = "lookup_node f newdir newname"
  obtain f1 f2 ok1 f3 where f1: "unhash_name_opt ?o f = Done f1" and f2: "unhash_name_opt ?n f1 = Done f2"
    and f3: "hash_name_opt d1 ?o newdir newname f2 = Done (ok1, f3)"
    and tail: "(if \<not> ok1 then Done (- ENOMEM, f3)
      else obind (hash_name_opt d2 ?n olddir oldname f3) (\<lambda>(ok2, f4).
          if \<not> ok2 then Done (- ENOMEM, f4) else Done (0, f4))) = Done (res, f')"
    using r unfolding exchange_node_def Let_def by (auto simp only: obind_Done_iff split_paired_Ex prod.case)
  have rest: "if \<not> ok1 then res = - ENOMEM \<and> f' = f3 else
      \<exists>ok2. hash_name_opt d2 ?n olddir oldname f3 = Done (ok2, f') \<and> res = (if ok2 then 0 else - ENOMEM)"
  proof (cases ok1)
    case True
    then obtain ok2 f4 where h: "hash_name_opt d2 ?n olddir oldname f3 = Done (ok2, f4)"
      "(if \<not> ok2 then Done (- ENOMEM, f4) else Done (0, f4)) = Done (res, f')"
      using tail by (auto simp only: obind_Done_iff split_paired_Ex prod.case if_False not_True_eq_False)
    then show ?thesis using True by (cases ok2) auto
  qed (use tail in simp)
  note u1 = unhash_name_opt_inv[OF f1 inv]
  note u2 = unhash_name_opt_inv[OF f2 u1(1)]
  have o: "?o = Some x \<longleftrightarrow> x \<in> named f \<and> nkey f x = (olddir, oldname)" for x by (rule lookup_node_iff[OF nok])
  have n: "?n = Some x \<longleftrightarrow> x \<in> named f \<and> nkey f x = (newdir, newname)" for x by (rule lookup_node_iff[OF nok])
  have k2: "x \<in> named f \<and> nkey f2 x = nkey f x \<and> ?o \<noteq> Some x \<and> ?n \<noteq> Some x" if "x \<in> named f2" for x
    using u1(3) u2(3) that by auto
  have fr2: "\<forall>x \<in> named f2. nkey f2 x \<noteq> (newdir, newname) \<and> ?o \<noteq> Some x"
  proof
    fix x assume "x \<in> named f2"
    from k2[OF this] show "nkey f2 x \<noteq> (newdir, newname) \<and> ?o \<noteq> Some x" using n[of x] by simp
  qed
  note h3 = hash_name_opt_inv[OF f3 u2(1) fr2]
  have fr3: "\<forall>x \<in> named f3. nkey f3 x \<noteq> (olddir, oldname) \<and> ?n \<noteq> Some x"
  proof
    fix x assume "x \<in> named f3"
    then consider "x \<in> named f2" "nkey f3 x = nkey f2 x" | "?o = Some x" "nkey f3 x = (newdir, newname)"
      using h3(3) by blast
    then show "nkey f3 x \<noteq> (olddir, oldname) \<and> ?n \<noteq> Some x"
    proof cases
      case 1
      from k2[OF 1(1)] show ?thesis using o[of x] 1(2) by simp
    next
      case 2
      then have "?n \<noteq> Some x" using diff o[of x] n[of x] by metis
      then show ?thesis using diff 2 by auto
    qed
  qed
  show tok: "tree_ok f'"
  proof (cases ok1)
    case True
    then obtain ok2 where h4: "hash_name_opt d2 ?n olddir oldname f3 = Done (ok2, f')" using rest by auto
    show ?thesis using hash_name_opt_inv[OF h4 h3(1) fr3] h3(2) u1 u2 z by (auto simp: tree_ok_def)
  qed (use h3 u1 u2 z rest in \<open>auto simp: tree_ok_def\<close>)
  then have nok': "names_ok {} f'" by (simp add: tree_ok_def core_inv_def)
  have both: "lookup_node f' newdir newname = ?o \<and> lookup_node f' olddir oldname = ?n" if "res = 0"
  proof -
    have t: ok1 using rest that by (auto split: if_splits)
    then have h4: "hash_name_opt d2 ?n olddir oldname f3 = Done (True, f')"
      using rest that by (auto split: if_splits)
    note i4 = hash_name_opt_inv[OF h4 h3(1) fr3]
    have key: "(y \<in> named f2 \<and> k = nkey f y) \<or> (?o = Some y \<and> k = (newdir, newname)) \<or> (?n = Some y \<and> k = (olddir, oldname))"
      if y: "y \<in> named f'" "nkey f' y = k" for y k
    proof (cases "y \<in> named f3 \<and> nkey f' y = nkey f3 y")
      case True
      then show ?thesis using bspec[OF h3(3), of y] k2[of y] y by auto
    next
      case False
      then show ?thesis using bspec[OF i4(3) y(1)] y(2) by auto
    qed
    have "lookup_node f' newdir newname = Some y \<longleftrightarrow> ?o = Some y" for y
    proof
      assume "lookup_node f' newdir newname = Some y"
      then have y: "y \<in> named f'" "nkey f' y = (newdir, newname)" by (simp_all add: lookup_node_iff[OF nok'])
      show "?o = Some y" using key[OF y] k2[of y] n[of y] diff by metis
    next
      assume "?o = Some y"
      then have "y \<in> named f3 \<and> nkey f3 y = (newdir, newname)" by (rule h3(4)[OF t])
      then show "lookup_node f' newdir newname = Some y"
        unfolding lookup_node_iff[OF nok'] using bspec[OF i4(5), of y] by simp
    qed
    moreover have "lookup_node f' olddir oldname = Some y \<longleftrightarrow> ?n = Some y" for y
    proof
      assume "lookup_node f' olddir oldname = Some y"
      then have y: "y \<in> named f'" "nkey f' y = (olddir, oldname)" by (simp_all add: lookup_node_iff[OF nok'])
      show "?n = Some y" using key[OF y] k2[of y] o[of y] diff by metis
    next
      assume "?n = Some y"
      then show "lookup_node f' olddir oldname = Some y"
        unfolding lookup_node_iff[OF nok'] by (rule i4(4)[OF TrueI])
    qed
    ultimately show ?thesis using option_eqI[of "lookup_node f' newdir newname" ?o]
        option_eqI[of "lookup_node f' olddir oldname" ?n] by blast
  qed
  show "res = 0 \<Longrightarrow> lookup_node f' newdir newname = ?o" "res = 0 \<Longrightarrow> lookup_node f' olddir oldname = ?n"
    using both by auto
qed

lemma fuse_new_tree_ok: "tree_ok (fuse_new_tree root remember realloc_ok)"
proof -
  let ?f = "\<lparr>f_nodes = Map.empty(root \<mapsto> zero_node\<lparr>n_name := Some ''/'', nodeid := FUSE_ROOT_ID\<rparr>),
     name_table = node_table_init, id_table = node_table_init, lru_table = [],
     f_ctr = 0, f_generation = 0, conf_remember = remember, f_realloc = realloc_ok\<rparr>"
  have al: "alive ?f = {root}" and nm: "named ?f = {}" and z: "zeros ?f = {root}" and kd: "kids ?f {} q = {}" for q
    by (auto simp: alive_def named_def kids_def zeros_def parent_of_def zero_node_def split: if_splits)
  have "core_inv {root} {} ?f"
    unfolding core_inv_def ids_ok_def names_ok_def refs_ok_def lru_ok_def al nm kd
    using node_table_init_inv by (auto simp: zero_node_def node_ok_def)
  note i = inc_nlookup_inv[OF this, of root]
  let ?g = "inc_nlookup root ?f"
  have g: "core_inv {root} {} ?g" "zeros ?g = {}" using i z al by auto
  have "id_table ?g = node_table_init" by (simp add: inc_nlookup_def)
  then show ?thesis using hash_id_inv(1,2)[OF g(1), of "realloc_ok NODE_TABLE_MIN_SIZE"] g(2)
    by (simp add: fuse_new_tree_def Let_def tree_ok_def)
qed

subsection \<open>Operations that never abort\<close>

text \<open>
  The tree is calm: no path is locked, parents have lower rank than their children (so the
  parent chains are acyclic), and a node that has a name but no parent (the root) is held by
  the kernel.
\<close>

definition calm :: "(nat \<Rightarrow> nat) \<Rightarrow> fuse \<Rightarrow> bool" where
  "calm rank f \<longleftrightarrow> (\<forall>q n. f_nodes f q = Some n \<longrightarrow> treelock n = 0 \<and>
     (\<forall>r. n_parent n = Some r \<longrightarrow> rank r < rank q) \<and> (n_name n \<noteq> None \<and> n_parent n = None \<longrightarrow> 0 < nlookup n))"

lemma calm_dec_ref: "calm rank f \<Longrightarrow> calm rank (dec_ref p f)"
  unfolding calm_def dec_ref_def all_nodes_upd by (simp add: if_distrib cong: if_cong)

definition unref_total :: "(nat \<Rightarrow> nat) \<Rightarrow> fuse \<Rightarrow> nat \<Rightarrow> bool" where
  "unref_total rank f p \<longleftrightarrow> (\<forall>L. finite L \<longrightarrow> core_inv {} L (dec_ref p f) \<longrightarrow>
     (\<exists>n. f_nodes f p = Some n \<and> 0 < refctr n) \<longrightarrow> calm rank f \<longrightarrow> (\<forall>q \<in> L. rank p < rank q) \<longrightarrow>
     unref_node f p \<noteq> Aborted)"

definition delete_total :: "(nat \<Rightarrow> nat) \<Rightarrow> fuse \<Rightarrow> nat \<Rightarrow> bool" where
  "delete_total rank f p \<longleftrightarrow> (\<forall>L. finite L \<longrightarrow> core_inv {} L f \<longrightarrow> p \<in> zeros f \<longrightarrow> calm rank f \<longrightarrow>
     (\<forall>q \<in> L. rank p < rank q) \<longrightarrow> delete_node f p \<noteq> Aborted)"

definition unhash_total :: "(nat \<Rightarrow> nat) \<Rightarrow> fuse \<Rightarrow> nat \<Rightarrow> bool" where
  "unhash_total rank f p \<longleftrightarrow> (\<forall>L n. finite L \<longrightarrow> core_inv {} L f \<longrightarrow> f_nodes f p = Some n \<longrightarrow>
     (n_name n \<noteq> None \<longrightarrow> n_parent n \<noteq> None) \<longrightarrow> calm rank f \<longrightarrow> (\<forall>q \<in> L. rank p < rank q) \<longrightarrow>
     unhash_name f p \<noteq> Aborted)"

lemma unhash_totalI:
  assumes "\<And>n nm pp pn. f_nodes f p = Some n \<Longrightarrow> n_name n = Some nm \<Longrightarrow> n_parent n = Some pp \<Longrightarrow>
    f_nodes f pp = Some pn \<Longrightarrow>
    name_hash (name_table f) (nodeid pn) nm < length (nt_array (name_table f)) \<Longrightarrow>
    p \<in> set (nt_array (name_table f) ! name_hash (name_table f) (nodeid pn) nm) \<Longrightarrow>
    unref_total rank (f\<lparr>name_table := table_chain_del (name_hash (name_table f) (nodeid pn) nm) p (name_table f)\<rparr>) pp"
  shows "unhash_total rank f p"
  unfolding unhash_total_def
proof (intro allI impI)
  fix L n assume fin: "finite L" and inv: "core_inv {} L f" and n: "f_nodes f p = Some n"
    and root: "n_name n \<noteq> None \<longrightarrow> n_parent n \<noteq> None" and c: "calm rank f" and L: "\<forall>q \<in> L. rank p < rank q"
  show "unhash_name f p \<noteq> Aborted"
  proof (cases "n_name n")
    case None
    then show ?thesis using n unfolding unhash_name.simps[of f p] by simp
  next
    case (Some nm)
    then obtain pp where pp: "n_parent n = Some pp" using root by auto
    have par: "parent_of f p = Some pp" using n pp by (simp add: parent_of_def)
    have p: "p \<in> named f - L" using par L by (auto simp: named_def)
    note l = unhash_name_limbo[OF inv fin p par]
    obtain pn where pn: "f_nodes f pp = Some pn" "0 < refctr pn" using l(2) by blast
    have key: "nkey f p = (nodeid pn, nm)" using n pp pn Some by (simp add: nkey_def nid_def)
    note l = l[unfolded key fst_conv snd_conv]
    let ?f1 = "f\<lparr>name_table := table_chain_del (name_hash (name_table f) (nodeid pn) nm) p (name_table f)\<rparr>"
    have r: "rank pp < rank p" using c n pp by (auto simp: calm_def)
    have c1: "calm rank ?f1" using c by (simp add: calm_def)
    have r': "\<forall>q \<in> insert p L. rank pp < rank q" using r L by force
    have "\<exists>n. f_nodes ?f1 pp = Some n \<and> 0 < refctr n" using pn by simp
    then have "unref_node ?f1 pp \<noteq> Aborted"
      using assms[OF n Some pp pn(1) l(3,4)] l(1) fin c1 r' finite.insertI[OF fin, of p]
      unfolding unref_total_def by blast
    then show ?thesis unfolding unhash_name.simps[of f p]
      using n Some pp pn(1) l(3,4) by (cases "unref_node ?f1 pp") (auto simp: Let_def)
  qed
qed

lemma release_total: "unref_total rank f p" "delete_total rank f p" "unhash_total rank f p"
proof (induction f p and f p and f p rule: unref_node_delete_node_unhash_name.induct)
  case (1 f p)
  show ?case unfolding unref_total_def
  proof (intro allI impI)
    fix L assume fin: "finite L" and inv: "core_inv {} L (dec_ref p f)" and n: "\<exists>n. f_nodes f p = Some n \<and> 0 < refctr n"
      and c: "calm rank f" and L: "\<forall>q \<in> L. rank p < rank q"
    obtain n where n: "f_nodes f p = Some n" "0 < refctr n" using n by blast
    show "unref_node f p \<noteq> Aborted"
    proof (cases "refctr n = 1")
      case True
      have "p \<in> zeros (dec_ref p f)" using n(1) True by (simp add: zeros_dec_ref[OF n(1)])
      moreover have "delete_total rank (dec_ref p f) p" using 1 n True by (auto simp: dec_ref_def)
      ultimately have "delete_node (dec_ref p f) p \<noteq> Aborted"
        using fin inv calm_dec_ref[OF c] L unfolding delete_total_def by blast
      then show ?thesis unfolding unref_node.simps[of f p] using n True by (simp add: dec_ref_def)
    next
      case False
      then show ?thesis unfolding unref_node.simps[of f p] using n by (simp add: Let_def)
    qed
  qed
next
  case (2 f p)
  show ?case unfolding delete_total_def
  proof (intro allI impI)
    fix L assume fin: "finite L" and inv: "core_inv {} L f" and p: "p \<in> zeros f"
      and c: "calm rank f" and L: "\<forall>q \<in> L. rank p < rank q"
    obtain n where n: "f_nodes f p = Some n" "refctr n = 0" using p by (auto simp: zeros_def)
    have "nlookup n = 0" using inv n by (auto simp: core_inv_def refs_ok_def split: if_splits)
    then have t: "treelock n = 0" and root: "n_name n \<noteq> None \<longrightarrow> n_parent n \<noteq> None"
      using c n(1) unfolding calm_def by (metis not_less_zero)+
    then have "unhash_name f p \<noteq> Aborted" using 2 n fin inv c L unfolding unhash_total_def by blast
    then show "delete_node f p \<noteq> Aborted"
      unfolding delete_node.simps[of f p] using n t by (cases "unhash_name f p") auto
  qed
next
  case (3 f p)
  show ?case by (rule unhash_totalI) (use 3 in auto)
qed

lemma unref_node_returns:
  assumes "core_inv {} {} (dec_ref p f)" and "f_nodes f p = Some n" and "0 < refctr n" and "calm rank f"
  shows "\<exists>f'. unref_node f p = Done f'"
  using release_total(1)[of rank f p, unfolded unref_total_def, rule_format, of "{}"] assms
  by (cases "unref_node f p") auto

lemma unhash_name_returns:
  assumes "core_inv {} {} f" and "f_nodes f p = Some n" and "n_name n \<noteq> None \<longrightarrow> n_parent n \<noteq> None" and "calm rank f"
  shows "\<exists>f'. unhash_name f p = Done f'"
  using release_total(3)[of rank f p, unfolded unhash_total_def, rule_format, of "{}" n] assms
  by (cases "unhash_name f p") auto

lemma next_id_returns:
  assumes inv: "core_inv {} {} f" and card: "card (alive f) < 2 ^ 32 - 2"
    and g: "id_table g = id_table f" "\<forall>q \<in> alive f. nid g q = nid f q"
  shows "\<exists>i g'. next_id g = Some (i, g')"
proof -
  have iok: "ids_ok {} f" using inv by (simp add: core_inv_def)
  have t: "table_inv 0 (\<lambda>q. id_hv (nid g q)) (id_table f)"
    by (rule table_inv_cong[where hv = "\<lambda>q. id_hv (nid f q)"]) (use iok g in \<open>auto simp: ids_ok_def\<close>)
  have inj: "inj_on (nid g) (table_elems (id_table f))" using iok g by (simp add: ids_ok_def inj_on_def)
  have "card (nid f ` alive f) < 2 ^ 32 - 2" "finite (nid f ` alive f)"
    using card card_image_le[of "alive f" "nid f"] iok by (auto simp: ids_ok_def)
  then obtain i where i: "i < 2 ^ 32" "i \<noteq> 0" "i \<noteq> FUSE_UNKNOWN_INO" "i \<notin> nid f ` alive f"
    using free_id_exists by blast
  have "get_node_nocheck (nid g) (id_table f) i = None"
    unfolding get_node_nocheck_None[OF t inj] using i(4) g iok by (auto simp: ids_ok_def)
  then have "\<not> (get_node_nocheck (nid g) (id_table g) i \<noteq> None)" using g by simp
  then show ?thesis
    using next_id_loop_returns[OF i(1,2,3), of "\<lambda>i. get_node_nocheck (nid g) (id_table g) i \<noteq> None" "f_ctr g" "f_generation g"]
    by (auto simp: next_id_def)
qed

lemma find_node_returns:
  assumes ok: "tree_ok f" and par: "get_node f parent = Done pp" and p: "p \<notin> alive f"
    and card: "card (alive f) < 2 ^ 32 - 2"
  shows "\<exists>q f'. find_node (Some p) True parent (Some nm) f = Some (Done (Some q, f'))"
proof (cases "lookup_node f parent nm")
  case (Some q)
  then have "q \<in> alive f" using ok lookup_node_iff[of f] named_alive[of f] by (auto simp: tree_ok_def core_inv_def)
  then show ?thesis using Some by (auto simp: find_node_def alive_iff Let_def)
next
  case None
  have inv: "core_inv {} {} f" using ok by (simp add: tree_ok_def)
  let ?f1 = "f\<lparr>f_nodes := (f_nodes f)(p \<mapsto> zero_node)\<rparr>"
  have "\<forall>q \<in> alive f. nid ?f1 q = nid f q" using p by (auto simp: nid_def)
  then obtain i f2 where ni: "next_id ?f1 = Some (i, f2)" using next_id_returns[OF inv card, of ?f1] by auto
  let ?f4 = "find_node_alloc p i f2"
  note f4 = find_node_alloc_inv[OF ok p ni]
  have "pp \<in> alive f" "nid f pp = parent" using par inv get_node_iff[of "{}" f] by (auto simp: core_inv_def)
  then have "get_node ?f4 parent = Done pp" using get_node_iff[of "{p}" ?f4 parent pp] f4(1,6,9) p by (auto simp: core_inv_def)
  moreover have "f_nodes ?f4 p \<noteq> None" using f4(6) alive_iff by blast
  ultimately obtain f5 where "hash_name True p parent nm ?f4 = Done (True, f5)" by (auto simp: hash_name_def Let_def)
  then show ?thesis using None ni
    by (auto simp: find_node_def find_node_new_def Let_def find_node_alloc_def)
qed

lemma calm_nlookup:
  assumes c: "calm rank f" and n: "f_nodes f p = Some n" and root: "\<not> (n_name n \<noteq> None \<and> n_parent n = None)"
  shows "calm rank (upd_node p (\<lambda>n. n\<lparr>nlookup := g n\<rparr>) f)"
  unfolding calm_def all_nodes_upd
proof (intro allI impI)
  fix q m assume q: "f_nodes f q = Some m"
  let ?m = "if q = p then m\<lparr>nlookup := g m\<rparr> else m"
  show "treelock ?m = 0 \<and> (\<forall>r. n_parent ?m = Some r \<longrightarrow> rank r < rank q) \<and>
    (n_name ?m \<noteq> None \<and> n_parent ?m = None \<longrightarrow> 0 < nlookup ?m)"
    using c[unfolded calm_def, rule_format, OF q] root n q by (cases "q = p") auto
qed

lemma shrinks_keeps:
  assumes s: "shrinks {} g f'" and q: "f_nodes g q = Some m" "0 < nlookup m"
  shows "\<exists>m'. f_nodes f' q = Some m' \<and> same_but_ref m m'"
proof -
  have "f_nodes f' q \<noteq> None" using s q unfolding shrinks_def by (metis less_numeral_extra(3))
  then obtain m' where m': "f_nodes f' q = Some m'" by auto
  show ?thesis using shrinks_same[OF s m'] q m' by auto
qed

text \<open>The nodes after \<open>find_node\<close> has created \<open>p\<close>.\<close>

lemma find_node_new_nodes:
  assumes r: "find_node_new p d parent name f = Some (Done (Some q, f'))" and p: "p \<notin> alive f"
  shows "q = p"
    and "\<exists>pp m. f_nodes f' p = Some m \<and> n_parent m = Some pp \<and> n_name m = Some name \<and> treelock m = 0 \<and> 0 < nlookup m"
    and "\<forall>x. x \<noteq> p \<longrightarrow> rel_option same_but_ref (f_nodes f x) (f_nodes f' x)"
    and "conf_remember f' = conf_remember f"
proof -
  let ?f1 = "f\<lparr>f_nodes := (f_nodes f)(p \<mapsto> zero_node)\<rparr>"
  obtain i f2 f5 where ni: "next_id ?f1 = Some (i, f2)" and h: "hash_name d p parent name (find_node_alloc p i f2) = Done (True, f5)"
    and f': "f_nodes f' = f_nodes (inc_nlookup p f5)" "conf_remember f' = conf_remember f5" and q: "q = p"
    using r by (fastforce simp: find_node_new_def Let_def find_node_alloc_def inc_nlookup_def upd_node_def
        split: option.splits if_splits)
  show "q = p" by (fact q)
  have "f_nodes f2 = f_nodes ?f1" using next_id_inv(1)[OF ni] by (metis fuse.select_convs(1) fuse.surjective fuse.update_convs(5,6))
  moreover obtain pp where f5: "f_nodes f5 = f_nodes (linked_nodes p name pp (find_node_alloc p i f2))"
    "conf_remember f5 = conf_remember f2"
    using h by (auto simp: hash_name_def Let_def linked_nodes_def find_node_alloc_def inc_nlookup_def split: if_splits)
  moreover have "conf_remember f2 = conf_remember ?f1"
    using next_id_inv(1)[OF ni] by (metis fuse.select_convs(7) fuse.surjective fuse.update_convs(5,6))
  then show "conf_remember f' = conf_remember f" using f' f5 by simp
  ultimately show "\<exists>pp m. f_nodes f' p = Some m \<and> n_parent m = Some pp \<and> n_name m = Some name \<and> treelock m = 0 \<and> 0 < nlookup m"
    and "\<forall>x. x \<noteq> p \<longrightarrow> rel_option same_but_ref (f_nodes f x) (f_nodes f' x)"
    by (auto simp: f'(1) f5(1) inc_nlookup_def linked_nodes_def find_node_alloc_def Let_def zero_node_def same_but_ref_def
        option.rel_map intro: option.rel_refl)
qed

subsection \<open>Reachable states\<close>

text \<open>
  The operations as steps; each holds \<open>f->lock\<close> throughout, so they do not interleave. What the
  callers guarantee is a guard: an allocation returns a free address, the kernel forgets a
  positive number of lookups, and never exchanges an entry with itself.
\<close>

inductive fuse_step :: "fuse \<Rightarrow> fuse \<Rightarrow> bool" where
  step_find: "find_node newp d parent name f = Some (Done (res, f')) \<Longrightarrow> \<forall>p. newp = Some p \<longrightarrow> p \<notin> alive f \<Longrightarrow>
    fuse_step f f'"
| step_forget: "forget_node now i k f = Some (Done f') \<Longrightarrow> 0 < k \<Longrightarrow> fuse_step f f'"
| step_remove: "remove_node dir name f = Done f' \<Longrightarrow> fuse_step f f'"
| step_rename: "rename_node d olddir oldname newdir newname hide f = Done (r, f') \<Longrightarrow> fuse_step f f'"
| step_exchange: "exchange_node d1 d2 olddir oldname newdir newname f = Done (r, f') \<Longrightarrow>
    (olddir, oldname) \<noteq> (newdir, newname) \<Longrightarrow> fuse_step f f'"

inductive fuse_reachable :: "fuse \<Rightarrow> bool" where
  reach_new: "fuse_reachable (fuse_new_tree root remember realloc_ok)"
| reach_step: "fuse_reachable f \<Longrightarrow> fuse_step f f' \<Longrightarrow> fuse_reachable f'"

lemma fuse_step_tree_ok: "fuse_step f f' \<Longrightarrow> tree_ok f \<Longrightarrow> tree_ok f'"
  by (induction rule: fuse_step.induct)
    (blast intro: find_node_inv(1) forget_node_inv remove_node_inv(1) rename_node_inv(1) exchange_node_inv(1))+

subsection \<open>Properties\<close>

text \<open>Claim C12 (reachable_tree_ok). In every state reachable from \<open>fuse_new\<close> by \<open>find_node\<close>,
  \<open>forget_node\<close>, \<open>remove_node\<close>, \<open>rename_node\<close> and \<open>exchange_node\<close>, whatever allocations fail, the
  node tree is consistent: ids and (parent, name) pairs are unique and found by the two
  tables, no parent pointer dangles, every reference count is the number of children plus
  one if the kernel knows the node, and no unreferenced node is leaked.\<close>

theorem reachable_tree_ok:
  assumes "fuse_reachable f"
  shows "tree_ok f"
  using assms by induction (auto intro: fuse_new_tree_ok fuse_step_tree_ok)

text \<open>The tree after looking up two names in the root directory.\<close>

lemma root_get_node: "get_node (fuse_new_tree root remember realloc_ok) FUSE_ROOT_ID = Done root"
proof -
  let ?f = "fuse_new_tree root remember realloc_ok"
  have "root \<in> alive ?f" "nid ?f root = FUSE_ROOT_ID"
    by (simp_all add: fuse_new_tree_def Let_def inc_nlookup_def alive_iff nid_def zero_node_def)
  then show ?thesis using fuse_new_tree_ok[of root remember realloc_ok] get_node_iff[of "{}" ?f]
    by (simp add: tree_ok_def core_inv_def)
qed

lemma root_alive: "alive (fuse_new_tree root remember realloc_ok) = {root}"
  by (auto simp: fuse_new_tree_def Let_def inc_nlookup_def alive_iff split: if_splits)

lemma example_find:
  "\<exists>q f'. find_node (Some 1) True FUSE_ROOT_ID (Some ''a'') (fuse_new_tree 0 0 (\<lambda>_. True)) = Some (Done (Some q, f'))"
  by (rule find_node_returns[OF fuse_new_tree_ok root_get_node]) (simp_all add: root_alive)

theorem reachable_tree_ok_witness:
  "\<exists>q f'. find_node (Some 1) True FUSE_ROOT_ID (Some ''a'') (fuse_new_tree 0 0 (\<lambda>_. True))
     = Some (Done (Some q, f')) \<and> tree_ok f'"
  using example_find reachable_tree_ok[OF reach_step[OF reach_new step_find]] by (auto simp: root_alive)

text \<open>Claim C31 (find_node_correct). Looking up a name under a parent that exists always returns a node
  while fewer than \<open>2^32 - 2\<close> nodes are alive and memory is available: the search for a free id
  ends and no assertion fails. The node returned is the one cached under that name, or else a
  new one, and from then on the name is found; the tree stays consistent.\<close>

theorem find_node_correct:
  assumes "tree_ok f" and "get_node f parent = Done pp" and "p \<notin> alive f" and "card (alive f) < 2 ^ 32 - 2"
  shows "\<exists>q f'. find_node (Some p) True parent (Some nm) f = Some (Done (Some q, f')) \<and> tree_ok f' \<and>
    lookup_node f' parent nm = Some q"
proof -
  obtain q f' where r: "find_node (Some p) True parent (Some nm) f = Some (Done (Some q, f'))"
    using find_node_returns[OF assms] by blast
  show ?thesis using find_node_inv[OF assms(1) _ r] r assms(3) by auto
qed

theorem find_node_correct_witness:
  "\<exists>q f'. find_node (Some 1) True FUSE_ROOT_ID (Some ''a'') (fuse_new_tree 0 0 (\<lambda>_. True)) = Some (Done (Some q, f')) \<and>
    tree_ok f' \<and> lookup_node f' FUSE_ROOT_ID ''a'' = Some q"
  by (rule find_node_correct[OF fuse_new_tree_ok root_get_node]) (simp_all add: root_alive)

lemma forget_node_returns:
  assumes ok: "tree_ok f" and c: "calm rank f" and i: "get_node f i = Done p" and n: "f_nodes f p = Some n"
    and k: "0 < k" "k \<le> nlookup n" and r: "i \<noteq> FUSE_ROOT_ID"
  shows "\<exists>f'. forget_node now i k f = Some (Done f') \<and>
    (\<forall>q m. q \<noteq> p \<and> f_nodes f q = Some m \<and> 0 < nlookup m \<longrightarrow>
       (\<exists>m'. f_nodes f' q = Some m' \<and> same_but_ref m m'))"
proof -
  have inv: "core_inv {} {} f" using ok by (simp add: tree_ok_def)
  let ?g = "upd_node p (\<lambda>n. n\<lparr>nlookup := nlookup n - k\<rparr>) f"
  let ?keep = "\<lambda>f'. \<forall>q m. q \<noteq> p \<and> f_nodes f q = Some m \<and> 0 < nlookup m \<longrightarrow>
       (\<exists>m'. f_nodes f' q = Some m' \<and> same_but_ref m m')"
  have t: "treelock n = 0" using c n by (auto simp: calm_def)
  have fg: "forget_node now i k f = Some (if nlookup n - k = 0 then unref_node ?g p
      else if lru_enabled f \<and> nlookup n - k = 1 then Done (set_forget_time now p ?g) else Done ?g)"
    using i n k(2) t r by (simp add: forget_node_def Let_def)
  have g: "?g = upd_node p (\<lambda>n'. n'\<lparr>nlookup := nlookup n - k\<rparr>) f" using n by (simp add: upd_node_def)
  have nz: "0 < nlookup n" using k by simp
  note d = nlookup_dec_inv[OF inv n nz g]
  show ?thesis
  proof (cases "nlookup n - k = 0")
    case True
    have rc: "0 < refctr n" using inv n nz by (auto simp: core_inv_def refs_ok_def)
    have "nodeid n = i" using i n get_node_iff[of "{}" f i p] inv by (simp add: core_inv_def nid_def)
    moreover have "node_ok n" using inv n by (auto simp: core_inv_def)
    ultimately have "calm rank ?g" using r by (intro calm_nlookup[OF c n]) (auto simp: node_ok_def)
    moreover have dg: "core_inv {} {} (dec_ref p ?g)" using d(1) True by simp
    ultimately obtain f' where f': "unref_node ?g p = Done f'"
      using unref_node_returns[of p ?g "n\<lparr>nlookup := nlookup n - k\<rparr>"] n rc by fastforce
    have "?keep f'" using shrinks_keeps[OF unref_node_inv(3)[OF f' dg]] by simp
    then show ?thesis using fg True f' by simp
  qed (use fg in \<open>simp add: same_but_ref_def set_forget_time_def\<close>)
qed


text \<open>A concrete tree with the file \<open>/a\<close>, for the witnesses.\<close>

lemma example_tree:
  "\<exists>f n. tree_ok f \<and> calm id f \<and> alive f = {0, 1} \<and> get_node f (nid f 1) = Done 1 \<and> f_nodes f 1 = Some n \<and>
     0 < nlookup n \<and> nid f 1 \<noteq> FUSE_ROOT_ID \<and> lookup_node f FUSE_ROOT_ID ''a'' = Some 1 \<and>
     get_node f FUSE_ROOT_ID = Done 0 \<and> (\<exists>z. f_nodes f 0 = Some z \<and> 0 < nlookup z) \<and> conf_remember f = 0 \<and>
     find_node (Some 1) True FUSE_ROOT_ID (Some ''a'') (fuse_new_tree 0 0 (\<lambda>_. True)) = Some (Done (Some 1, f))"
proof -
  let ?f = "fuse_new_tree 0 0 (\<lambda>_. True)"
  obtain q f where r: "find_node (Some 1) True FUSE_ROOT_ID (Some ''a'') ?f = Some (Done (Some q, f))"
    using example_find by blast
  have al: "(1 :: nat) \<notin> alive ?f" by (simp add: root_alive)
  have ok: "tree_ok f" "lookup_node f FUSE_ROOT_ID ''a'' = Some q"
    using find_node_inv[OF fuse_new_tree_ok _ r] al by auto
  obtain z where z: "f_nodes ?f 0 = Some z" "n_parent z = None" "treelock z = 0" "nlookup z = 1" "nodeid z = FUSE_ROOT_ID"
    by (simp add: fuse_new_tree_def Let_def inc_nlookup_def zero_node_def)
  have "0 \<notin> named ?f" using z by (simp add: named_iff)
  then have "named ?f = {}" using named_alive[of ?f] by (auto simp: root_alive)
  moreover have "names_ok {} ?f" using fuse_new_tree_ok[of 0 0 "\<lambda>_. True"] by (simp add: tree_ok_def core_inv_def)
  ultimately have "lookup_node ?f FUSE_ROOT_ID ''a'' = None" using lookup_node_None by blast
  then have r': "find_node_new 1 True FUSE_ROOT_ID ''a'' ?f = Some (Done (Some q, f))"
    using r by (simp add: find_node_def)
  note n = find_node_new_nodes[OF r' al]
  obtain pp m where m: "f_nodes f 1 = Some m" "n_parent m = Some pp" "treelock m = 0" "0 < nlookup m" using n(2) by blast
  obtain z' where z': "f_nodes f 0 = Some z'" "same_but_ref z z'"
    using n(3)[rule_format, of 0] z by (auto simp: option_rel_Some1)
  have dead: "f_nodes f x = None" if "x \<noteq> 0" "x \<noteq> 1" for x
  proof -
    have "x \<notin> alive ?f" using that by (simp add: root_alive)
    then have "f_nodes ?f x = None" by (simp add: alive_def domIff)
    then show ?thesis using n(3)[rule_format, of x] that by simp
  qed
  have "x \<in> alive f \<longleftrightarrow> x = 0 \<or> x = 1" for x
    by (cases "x = 0"; cases "x = 1") (use m z' dead[of x] in \<open>simp_all add: alive_iff\<close>)
  then have alf: "alive f = {0, 1}" unfolding set_eq_iff by simp
  have inv: "core_inv {} {} f" using ok by (simp add: tree_ok_def)
  have n1: "1 \<in> named f" using m by (simp add: named_iff)
  have nok: "names_ok {} f" using inv by (simp add: core_inv_def)
  then have "\<exists>r \<in> alive f. parent_of f 1 = Some r" using n1 unfolding names_ok_def by blast
  then have ppa: "pp \<in> alive f" using m by (simp add: parent_of_def)
  have iff: "get_node f i = Done p \<longleftrightarrow> p \<in> alive f \<and> nid f p = i" for i p
    using get_node_iff[of "{}" f] inv by (simp add: core_inv_def)
  have nid0: "nid f 0 = FUSE_ROOT_ID" using z z' same_but_refD(2) by (auto simp: nid_def)
  have inj: "inj_on (nid f) {0, 1}" using inv alf by (simp add: core_inv_def ids_ok_def)
  have nid1: "nid f 1 \<noteq> FUSE_ROOT_ID" using inj nid0 by (auto simp: inj_on_def)
  have "nkey f 1 = (FUSE_ROOT_ID, ''a'')" using lookup_node_iff[OF nok] ok(2) n(1) by simp
  then have "nid f pp = FUSE_ROOT_ID" using m by (simp add: nkey_def)
  then have pp: "pp = 0" using ppa alf nid1 by auto
  have "calm id f" unfolding calm_def
  proof (intro allI impI)
    fix x k assume x: "f_nodes f x = Some k"
    then have "x = 0 \<or> x = 1" using dead[of x] by auto
    then consider "x = 0" "k = z'" | "x = 1" "k = m" using x m z' by auto
    then show "treelock k = 0 \<and> (\<forall>r. n_parent k = Some r \<longrightarrow> id r < id x) \<and>
        (n_name k \<noteq> None \<and> n_parent k = None \<longrightarrow> 0 < nlookup k)"
      by cases (use m z pp same_but_refD[OF z'(2)] in simp_all)
  qed
  moreover have "conf_remember f = 0" using n(4) by (simp add: fuse_new_tree_def Let_def inc_nlookup_def)
  moreover have "get_node f FUSE_ROOT_ID = Done 0" using iff alf nid0 by simp
  moreover have "\<exists>z. f_nodes f 0 = Some z \<and> 0 < nlookup z" using z' z same_but_refD(1)[OF z'(2)] by simp
  ultimately show ?thesis using ok alf iff m nid1 n(1) r by (intro exI[of _ f] exI[of _ m]) simp
qed


text \<open>A rename that returns 0 leaves the node that was at the old
  place at the new one (and a node that was there is unlinked); a rename that fails, returning
  \<open>-EBUSY\<close> or \<open>-ENOMEM\<close>, still leaves a consistent tree.\<close>

theorem rename_node_moves:
  assumes "tree_ok f" and "rename_node d olddir oldname newdir newname hide f = Done (res, f')"
    and "lookup_node f olddir oldname = Some p"
  shows "tree_ok f' \<and> (res = 0 \<longrightarrow> lookup_node f' newdir newname = Some p)"
  using rename_node_inv[OF assms(1,2)] assms(3) by blast

text \<open>An exchange that returns 0 swaps the nodes of the two entries,
  either of which may be uncached; a failed one leaves a consistent tree.\<close>

theorem exchange_node_swaps:
  assumes "tree_ok f" and "(olddir, oldname) \<noteq> (newdir, newname)"
    and "exchange_node d1 d2 olddir oldname newdir newname f = Done (res, f')"
  shows "tree_ok f' \<and> (res = 0 \<longrightarrow> lookup_node f' newdir newname = lookup_node f olddir oldname \<and>
    lookup_node f' olddir oldname = lookup_node f newdir newname)"
  using exchange_node_inv[OF assms] by blast

text \<open>After \<open>remove_node\<close> (with or without the \<open>remember\<close>
  option) the name is not found any more and the tree is consistent.\<close>

theorem remove_node_forgets_name:
  assumes "tree_ok f" and "remove_node dir name f = Done f'"
  shows "tree_ok f' \<and> lookup_node f' dir name = None"
  using remove_node_inv[OF assms] by blast

lemma example_unhash:
  "\<exists>f f1 f2. tree_ok f \<and> lookup_node f FUSE_ROOT_ID ''a'' = Some 1 \<and> lookup_node f FUSE_ROOT_ID ''b'' = None \<and>
     conf_remember f = 0 \<and> f_nodes f 1 \<noteq> None \<and>
     unhash_name f 1 = Done f1 \<and> hash_name True 1 FUSE_ROOT_ID ''b'' f1 = Done (True, f2)"
proof -
  obtain f n where f: "tree_ok f" "calm id f" "f_nodes f 1 = Some n" "nid f 1 \<noteq> FUSE_ROOT_ID" "conf_remember f = 0"
    "lookup_node f FUSE_ROOT_ID ''a'' = Some 1" "get_node f FUSE_ROOT_ID = Done 0" "\<exists>z. f_nodes f 0 = Some z \<and> 0 < nlookup z"
    and al: "alive f = {0, 1}"
    using example_tree by blast
  have inv: "core_inv {} {} f" and nok: "names_ok {} f" and iok: "ids_ok {} f" using f(1) by (auto simp: tree_ok_def core_inv_def)
  have "node_ok n" "nodeid n \<noteq> FUSE_ROOT_ID" using inv f(3,4) by (auto simp: core_inv_def nid_def)
  then have "n_name n \<noteq> None \<longrightarrow> n_parent n \<noteq> None" by (auto simp: node_ok_def)
  then obtain f1 where f1: "unhash_name f 1 = Done f1" using unhash_name_returns[OF inv f(3) _ f(2)] by blast
  note u = unhash_name_inv[OF f1 inv]
  obtain z where z: "f_nodes f 0 = Some z" "0 < nlookup z" using f(8) by blast
  have "f_nodes f1 0 \<noteq> None" using u(3) z unfolding shrinks_def by (metis less_numeral_extra(3))
  then obtain z1 where z1: "f_nodes f1 0 = Some z1" by auto
  have "nid f 0 = FUSE_ROOT_ID" using f(7) get_node_iff[OF iok] by simp
  then have "nid f1 0 = FUSE_ROOT_ID" using shrinks_nlookup(2)[OF u(3) z1 z(1)] z z1 by (simp add: nid_def)
  then have g: "get_node f1 FUSE_ROOT_ID = Done 0"
    using get_node_iff[of "{}" f1] u(1) z1 by (auto simp: core_inv_def alive_iff)
  have key1: "nkey f 1 = (FUSE_ROOT_ID, ''a'')" using f(6) lookup_node_iff[OF nok] by simp
  have "\<forall>q \<in> named f. nkey f q \<noteq> (FUSE_ROOT_ID, ''b'')"
  proof
    fix q assume q: "q \<in> named f"
    then have "q = 0 \<or> q = 1" using named_alive[of f] al by auto
    moreover have False if "q = 0"
      using q that f(2) unfolding named_iff calm_def by (metis id_apply not_less_zero)
    ultimately show "nkey f q \<noteq> (FUSE_ROOT_ID, ''b'')" using key1 by auto
  qed
  then have nb: "lookup_node f FUSE_ROOT_ID ''b'' = None" using lookup_node_None[OF nok] by blast
  have "f_nodes f1 1 \<noteq> None" using u(5) by auto
  then have "\<exists>f2. hash_name True 1 FUSE_ROOT_ID ''b'' f1 = Done (True, f2)" using g by (simp add: hash_name_def Let_def)
  then show ?thesis using f nb f1 by auto
qed

theorem rename_node_moves_witness:
  "\<exists>f f'. rename_node True FUSE_ROOT_ID ''a'' FUSE_ROOT_ID ''b'' False f = Done (0, f') \<and>
     lookup_node f FUSE_ROOT_ID ''a'' = Some 1 \<and> lookup_node f' FUSE_ROOT_ID ''b'' = Some 1"
proof -
  obtain f f1 f2 where f: "tree_ok f" "lookup_node f FUSE_ROOT_ID ''a'' = Some 1" "lookup_node f FUSE_ROOT_ID ''b'' = None"
    "unhash_name f 1 = Done f1" "hash_name True 1 FUSE_ROOT_ID ''b'' f1 = Done (True, f2)" using example_unhash by blast
  have r: "rename_node True FUSE_ROOT_ID ''a'' FUSE_ROOT_ID ''b'' False f = Done (0, f2)"
    using f by (simp add: rename_node_def rename_node_tail_def)
  show ?thesis using rename_node_moves[OF f(1) r f(2)] r f(2) by blast
qed

theorem exchange_node_swaps_witness:
  "\<exists>f f'. exchange_node True True FUSE_ROOT_ID ''a'' FUSE_ROOT_ID ''b'' f = Done (0, f') \<and>
     lookup_node f' FUSE_ROOT_ID ''b'' = Some 1 \<and> lookup_node f' FUSE_ROOT_ID ''a'' = None"
proof -
  obtain f f1 f2 where f: "tree_ok f" "lookup_node f FUSE_ROOT_ID ''a'' = Some 1" "lookup_node f FUSE_ROOT_ID ''b'' = None"
    "unhash_name f 1 = Done f1" "hash_name True 1 FUSE_ROOT_ID ''b'' f1 = Done (True, f2)" using example_unhash by blast
  have r: "exchange_node True True FUSE_ROOT_ID ''a'' FUSE_ROOT_ID ''b'' f = Done (0, f2)"
    using f by (simp add: exchange_node_def unhash_name_opt_def hash_name_opt_def)
  show ?thesis using exchange_node_swaps[OF f(1) _ r] r f(2,3) by auto
qed

theorem remove_node_forgets_name_witness:
  "\<exists>f f'. remove_node FUSE_ROOT_ID ''a'' f = Done f' \<and> lookup_node f FUSE_ROOT_ID ''a'' = Some 1 \<and>
     lookup_node f' FUSE_ROOT_ID ''a'' = None"
proof -
  obtain f f1 n where f: "tree_ok f" "lookup_node f FUSE_ROOT_ID ''a'' = Some 1" "conf_remember f = 0"
    "unhash_name f 1 = Done f1" "f_nodes f 1 = Some n" using example_unhash by blast
  have r: "remove_node FUSE_ROOT_ID ''a'' f = Done f1" using f by (simp add: remove_node_def unlink_node_def)
  show ?thesis using remove_node_forgets_name[OF f(1) r] r f(2) by blast
qed

end
