(* ===== verification/Kern_Requests.thy ===== *)
theory Kern_Requests
  imports Fuse_Prelude
begin

text \<open>
  The request queue of the kernel module (\<open>fuse_module/dev.c\<close>, with the types of \<open>fuse_i.h\<close>):
  allocation and reference counting of requests, the input queue (pending requests,
  interrupts, forgets), background throttling, the processing queues of the devices, the
  completion of requests, and the abort of a connection.

  Requests live in a heap; a pointer to a freed request is not in its domain, and following it
  (or dropping a reference count below zero, or a failed \<open>BUG_ON\<close>) is \<open>Aborted\<close>. A list of
  requests is the list of their addresses. Wake-ups carry no state and are not recorded.
  The flag word of a request is the set of its flags. \<open>hash_long\<close>, which is not part of the
  module, is a field of the connection.
\<close>

subsection \<open>Data\<close>

datatype fuse_req_flag = FR_ISREPLY | FR_FORCE | FR_BACKGROUND | FR_WAITING | FR_ABORTED | FR_INTERRUPTED
  | FR_LOCKED | FR_PENDING | FR_SENT | FR_FINISHED | FR_PRIVATE | FR_ASYNC

text \<open>Sizes of the arguments; their contents are in \<open>Kern_Copy\<close>. \<open>ar_end\<close>: there is a completion
  callback.\<close>

record fuse_args =
  ar_nodeid :: "64 word"
  ar_opcode :: nat
  ar_force :: bool
  ar_noreply :: bool
  ar_nocreds :: bool
  ar_in_pages :: bool
  ar_out_pages :: bool
  ar_out_argvar :: bool
  ar_page_zeroing :: bool
  ar_page_replace :: bool
  ar_in_args :: "nat list"
  ar_out_args :: "nat list"
  ar_end :: bool

record fuse_req =
  r_args :: fuse_args
  r_count :: nat
  r_flags :: "fuse_req_flag set"
  in_len :: nat
  in_opcode :: nat
  in_unique :: "64 word"
  in_nodeid :: "64 word"
  in_uid :: nat
  in_gid :: nat
  in_pid :: nat
  out_error :: int

record fuse_pqueue =
  pq_connected :: bool
  pq_processing :: "nat \<Rightarrow> nat list"
  pq_io :: "nat list"

text \<open>A connection with its input queue and devices. \<open>c_done\<close> logs the calls of completion
  callbacks (request and error); \<open>c_to_end\<close> is the local list \<open>to_end\<close> of an abort or release
  whose requests are still to be ended.\<close>

record fuse_conn =
  reqs :: "nat \<Rightarrow> fuse_req option"
  c_initialized :: bool
  c_connected :: bool
  c_conn_error :: bool
  c_aborted :: bool
  c_blocked :: bool
  c_no_interrupt :: bool
  c_minor :: nat
  c_max_write :: nat
  c_num_waiting :: int
  c_max_background :: nat
  c_num_background :: nat
  c_active_background :: nat
  c_bg_queue :: "nat list"
  iq_connected :: bool
  iq_reqctr :: "64 word"
  iq_pending :: "nat list"
  iq_interrupts :: "nat list"
  iq_forgets :: "(64 word \<times> 64 word) list"
  iq_forget_batch :: int
  c_devices :: "nat list"
  c_pq :: "nat \<Rightarrow> fuse_pqueue"
  c_dev_count :: nat
  c_to_end :: "nat list"
  c_done :: "(nat \<times> int) list"
  c_hash_long :: "64 word \<Rightarrow> nat \<Rightarrow> nat"

definition FUSE_REQ_ID_STEP :: "64 word" where "FUSE_REQ_ID_STEP = 2"
definition FUSE_INT_REQ_BIT :: "64 word" where "FUSE_INT_REQ_BIT = 1"
definition FUSE_PQ_HASH_BITS :: nat where "FUSE_PQ_HASH_BITS = 8"
definition FUSE_PQ_HASH_SIZE :: nat where "FUSE_PQ_HASH_SIZE = 256"
definition IN_HEADER_SIZE :: nat where "IN_HEADER_SIZE = 40"
text \<open>With the fields \<open>header\<close>, \<open>footer\<close> and \<open>mem\<close> this repository adds.\<close>

definition OUT_HEADER_SIZE :: nat where "OUT_HEADER_SIZE = 32"

definition upd_req :: "nat \<Rightarrow> (fuse_req \<Rightarrow> fuse_req) \<Rightarrow> fuse_conn \<Rightarrow> fuse_conn" where
  "upd_req r g c = c\<lparr>reqs := (reqs c)(r := map_option g (reqs c r))\<rparr>"

definition set_bit_req :: "fuse_req_flag \<Rightarrow> nat \<Rightarrow> fuse_conn \<Rightarrow> fuse_conn" where
  "set_bit_req b r c = upd_req r (\<lambda>q. q\<lparr>r_flags := insert b (r_flags q)\<rparr>) c"

definition clear_bit_req :: "fuse_req_flag \<Rightarrow> nat \<Rightarrow> fuse_conn \<Rightarrow> fuse_conn" where
  "clear_bit_req b r c = upd_req r (\<lambda>q. q\<lparr>r_flags := r_flags q - {b}\<rparr>) c"

definition test_bit_req :: "fuse_req_flag \<Rightarrow> nat \<Rightarrow> fuse_conn \<Rightarrow> bool" where
  "test_bit_req b r c = (case reqs c r of None \<Rightarrow> False | Some q \<Rightarrow> b \<in> r_flags q)"

definition set_error :: "int \<Rightarrow> nat \<Rightarrow> fuse_conn \<Rightarrow> fuse_conn" where
  "set_error e r c = upd_req r (\<lambda>q. q\<lparr>out_error := e\<rparr>) c"

text \<open>A step on a live request; following a dangling pointer is \<open>Aborted\<close>.\<close>

definition with_req :: "nat \<Rightarrow> fuse_conn \<Rightarrow> (fuse_req \<Rightarrow> 'a outcome) \<Rightarrow> 'a outcome" where
  "with_req r c k = (case reqs c r of None \<Rightarrow> Aborted | Some q \<Rightarrow> k q)"

definition upd_pq :: "nat \<Rightarrow> (fuse_pqueue \<Rightarrow> fuse_pqueue) \<Rightarrow> fuse_conn \<Rightarrow> fuse_conn" where
  "upd_pq d g c = c\<lparr>c_pq := (c_pq c)(d := g (c_pq c d))\<rparr>"

subsection \<open>Allocation and reference counts\<close>

definition no_args :: fuse_args where
  "no_args = \<lparr>ar_nodeid = 0, ar_opcode = 0, ar_force = False, ar_noreply = False, ar_nocreds = False,
     ar_in_pages = False, ar_out_pages = False, ar_out_argvar = False, ar_page_zeroing = False,
     ar_page_replace = False, ar_in_args = [], ar_out_args = [], ar_end = False\<rparr>"

text \<open>A zeroed request after \<open>fuse_request_init\<close>.\<close>

definition fuse_request_init :: fuse_req where
  "fuse_request_init = \<lparr>r_args = no_args, r_count = 1, r_flags = {FR_PENDING}, in_len = 0, in_opcode = 0,
     in_unique = 0, in_nodeid = 0, in_uid = 0, in_gid = 0, in_pid = 0, out_error = 0\<rparr>"

text \<open>\<open>newreq\<close> is the result of \<open>kmem_cache_zalloc\<close>.\<close>

definition fuse_request_alloc :: "nat option \<Rightarrow> fuse_conn \<Rightarrow> nat option \<times> fuse_conn" where
  "fuse_request_alloc newreq c =
     (case newreq of None \<Rightarrow> (None, c) | Some r \<Rightarrow> (Some r, c\<lparr>reqs := (reqs c)(r \<mapsto> fuse_request_init)\<rparr>))"

definition fuse_request_free :: "nat \<Rightarrow> fuse_conn \<Rightarrow> fuse_conn" where
  "fuse_request_free r c = c\<lparr>reqs := (reqs c)(r := None)\<rparr>"

definition get_request :: "nat \<Rightarrow> fuse_conn \<Rightarrow> fuse_conn outcome" where
  "get_request r c = with_req r c (\<lambda>q. Done (upd_req r (\<lambda>q. q\<lparr>r_count := r_count q + 1\<rparr>) c))"

definition put_request_nofree :: "nat \<Rightarrow> fuse_conn \<Rightarrow> fuse_conn outcome" where
  "put_request_nofree r c = with_req r c (\<lambda>q.
     if r_count q \<le> 1 then Aborted else Done (upd_req r (\<lambda>q. q\<lparr>r_count := r_count q - 1\<rparr>) c))"

definition fuse_set_initialized :: "fuse_conn \<Rightarrow> fuse_conn" where
  "fuse_set_initialized c = c\<lparr>c_initialized := True\<rparr>"

definition fuse_block_alloc :: "fuse_conn \<Rightarrow> bool \<Rightarrow> bool" where
  "fuse_block_alloc c for_background \<longleftrightarrow> \<not> c_initialized c \<or> (for_background \<and> c_blocked c)"

definition fuse_drop_waiting :: "fuse_conn \<Rightarrow> fuse_conn" where
  "fuse_drop_waiting c = c\<lparr>c_num_waiting := c_num_waiting c - 1\<rparr>"

definition fuse_put_request :: "nat \<Rightarrow> fuse_conn \<Rightarrow> fuse_conn outcome" where
  "fuse_put_request r c = with_req r c (\<lambda>q.
     if r_count q = 0 then Aborted
     else if r_count q = 1
     then Done (fuse_request_free r (if FR_WAITING \<in> r_flags q then fuse_drop_waiting c else c))
     else Done (upd_req r (\<lambda>q. q\<lparr>r_count := r_count q - 1\<rparr>) c))"

text \<open>\<open>fuse_get_req\<close>: \<open>None\<close> while it waits; \<open>killed\<close>: a fatal signal ends the wait; \<open>uid\<close>, \<open>gid\<close>,
  \<open>pid\<close> are the caller's ids in the connection's namespaces (\<open>2 ^ 32 - 1\<close> if they have none).\<close>

definition fuse_get_req ::
  "bool \<Rightarrow> nat option \<Rightarrow> nat \<Rightarrow> nat \<Rightarrow> nat \<Rightarrow> bool \<Rightarrow> fuse_conn \<Rightarrow> ((int + nat) \<times> fuse_conn) outcome option" where
  "fuse_get_req killed newreq uid gid pid for_background c =
     (let c1 = c\<lparr>c_num_waiting := c_num_waiting c + 1\<rparr>;
          out = (\<lambda>err c. Some (Done (Inl err, fuse_drop_waiting c)))
      in if fuse_block_alloc c1 for_background then (if killed then out (- EINTR) c1 else None)
         else if \<not> c_connected c1 then out (- ENOTCONN) c1
         else if c_conn_error c1 then out (- ECONNREFUSED) c1
         else (case fuse_request_alloc newreq c1 of
             (None, c2) \<Rightarrow> out (- ENOMEM) c2
           | (Some r, c2) \<Rightarrow>
               (let c3 = upd_req r (\<lambda>q. q\<lparr>in_uid := uid, in_gid := gid, in_pid := pid,
                           r_flags := (if for_background then {FR_BACKGROUND} else {}) \<union> {FR_WAITING} \<union> r_flags q\<rparr>) c2
                in if uid = 2 ^ 32 - 1 \<or> gid = 2 ^ 32 - 1
                   then Some (obind (fuse_put_request r c3) (\<lambda>c4. Done (Inl (- EOVERFLOW), c4)))
                   else Some (Done (Inr r, c3)))))"

subsection \<open>The input queue\<close>

definition fuse_len_args :: "nat list \<Rightarrow> nat" where
  "fuse_len_args args = fold (\<lambda>a nbytes. u32_add nbytes a) args 0"

definition fuse_get_unique :: "fuse_conn \<Rightarrow> 64 word \<times> fuse_conn" where
  "fuse_get_unique c = (let u = iq_reqctr c + FUSE_REQ_ID_STEP in (u, c\<lparr>iq_reqctr := u\<rparr>))"

definition fuse_req_hash :: "fuse_conn \<Rightarrow> 64 word \<Rightarrow> nat" where
  "fuse_req_hash c unique = c_hash_long c (unique AND NOT FUSE_INT_REQ_BIT) FUSE_PQ_HASH_BITS"

definition queue_request_and_unlock :: "nat \<Rightarrow> fuse_conn \<Rightarrow> fuse_conn outcome" where
  "queue_request_and_unlock r c = with_req r c (\<lambda>q.
     Done ((upd_req r (\<lambda>q. q\<lparr>in_len := u32_add IN_HEADER_SIZE (fuse_len_args (ar_in_args (r_args q)))\<rparr>) c)
       \<lparr>iq_pending := iq_pending c @ [r]\<rparr>))"

definition fuse_queue_forget :: "64 word \<Rightarrow> 64 word \<Rightarrow> fuse_conn \<Rightarrow> fuse_conn" where
  "fuse_queue_forget ino nlookup c =
     (if iq_connected c then c\<lparr>iq_forgets := iq_forgets c @ [(ino, nlookup)]\<rparr> else c)"

text \<open>\<open>req->in.h.unique = fuse_get_unique(fiq)\<close>.\<close>

definition assign_unique :: "nat \<Rightarrow> fuse_conn \<Rightarrow> fuse_conn" where
  "assign_unique r c = (let (u, c1) = fuse_get_unique c in upd_req r (\<lambda>q. q\<lparr>in_unique := u\<rparr>) c1)"

fun flush_bg_loop :: "nat list \<Rightarrow> fuse_conn \<Rightarrow> fuse_conn outcome" where
  "flush_bg_loop [] c = Done c"
| "flush_bg_loop (r # bg) c =
     (if c_active_background c < c_max_background c
      then obind (queue_request_and_unlock r
                   (assign_unique r (c\<lparr>c_bg_queue := bg, c_active_background := c_active_background c + 1\<rparr>)))
             (flush_bg_loop bg)
      else Done c)"

definition flush_bg_queue :: "fuse_conn \<Rightarrow> fuse_conn outcome" where
  "flush_bg_queue c = flush_bg_loop (c_bg_queue c) c"

definition fuse_request_end :: "nat \<Rightarrow> fuse_conn \<Rightarrow> fuse_conn outcome" where
  "fuse_request_end r c = with_req r c (\<lambda>q.
     if FR_FINISHED \<in> r_flags q then fuse_put_request r c
     else
      (let c1 = set_bit_req FR_FINISHED r c;
           c2 = (if FR_INTERRUPTED \<in> r_flags q then c1\<lparr>iq_interrupts := remove1 r (iq_interrupts c1)\<rparr> else c1)
       in obind
            (if FR_BACKGROUND \<in> r_flags q
             then (let c3 = clear_bit_req FR_BACKGROUND r c2;
                       c4 = (if c_num_background c3 = c_max_background c3 then c3\<lparr>c_blocked := False\<rparr> else c3)
                   in flush_bg_queue (c4\<lparr>c_num_background := u32_sub (c_num_background c4) 1,
                                        c_active_background := u32_sub (c_active_background c4) 1\<rparr>))
             else Done c2)
            (\<lambda>c5. fuse_put_request r
               (if FR_ASYNC \<in> r_flags q then c5\<lparr>c_done := c_done c5 @ [(r, out_error q)]\<rparr> else c5))))"

definition queue_interrupt :: "nat \<Rightarrow> fuse_conn \<Rightarrow> (int \<times> fuse_conn) outcome" where
  "queue_interrupt r c = with_req r c (\<lambda>q.
     if FR_INTERRUPTED \<notin> r_flags q then Done (- EINVAL, c)
     else if r \<in> set (iq_interrupts c) then Done (0, c)
     else if FR_FINISHED \<in> r_flags q then Done (0, c)
     else Done (0, c\<lparr>iq_interrupts := iq_interrupts c @ [r]\<rparr>))"

subsection \<open>Senders\<close>

text \<open>\<open>__fuse_request_send\<close> up to \<open>request_wait_answer\<close>; the boolean: the request was queued.\<close>

definition fuse_request_send :: "nat \<Rightarrow> fuse_conn \<Rightarrow> (bool \<times> fuse_conn) outcome" where
  "fuse_request_send r c = with_req r c (\<lambda>q.
     if FR_BACKGROUND \<in> r_flags q then Aborted
     else if \<not> iq_connected c then Done (False, set_error (- ENOTCONN) r c)
     else obind (get_request r (assign_unique r c)) (\<lambda>c1.
          obind (queue_request_and_unlock r c1) (\<lambda>c2. Done (True, c2))))"

text \<open>\<open>request_wait_answer\<close> when the first wait is interrupted, and when the second is killed; the
  boolean: the sender stops waiting.\<close>

definition wait_interrupted :: "nat \<Rightarrow> fuse_conn \<Rightarrow> fuse_conn outcome" where
  "wait_interrupted r c = with_req r c (\<lambda>q.
     (let c1 = set_bit_req FR_INTERRUPTED r c
      in if FR_SENT \<in> r_flags q then obind (queue_interrupt r c1) (\<lambda>(_, c2). Done c2) else Done c1))"

definition wait_killed :: "nat \<Rightarrow> fuse_conn \<Rightarrow> (bool \<times> fuse_conn) outcome" where
  "wait_killed r c = with_req r c (\<lambda>q.
     if FR_PENDING \<in> r_flags q
     then obind (put_request_nofree r (c\<lparr>iq_pending := remove1 r (iq_pending c)\<rparr>))
            (\<lambda>c1. Done (True, set_error (- EINTR) r c1))
     else Done (False, c))"

definition FUSE_LOOKUP :: nat where "FUSE_LOOKUP = 1"
definition FUSE_GETATTR :: nat where "FUSE_GETATTR = 3"
definition FUSE_SETATTR :: nat where "FUSE_SETATTR = 4"
definition FUSE_SYMLINK :: nat where "FUSE_SYMLINK = 6"
definition FUSE_MKNOD :: nat where "FUSE_MKNOD = 8"
definition FUSE_MKDIR :: nat where "FUSE_MKDIR = 9"
definition FUSE_LINK :: nat where "FUSE_LINK = 13"
definition FUSE_STATFS :: nat where "FUSE_STATFS = 17"
definition FUSE_SETXATTR :: nat where "FUSE_SETXATTR = 21"
definition FUSE_CREATE :: nat where "FUSE_CREATE = 35"
definition FUSE_COMPAT_ENTRY_OUT_SIZE :: nat where "FUSE_COMPAT_ENTRY_OUT_SIZE = 120"
definition FUSE_COMPAT_ATTR_OUT_SIZE :: nat where "FUSE_COMPAT_ATTR_OUT_SIZE = 96"
definition FUSE_COMPAT_MKNOD_IN_SIZE :: nat where "FUSE_COMPAT_MKNOD_IN_SIZE = 8"
definition FUSE_COMPAT_STATFS_SIZE :: nat where "FUSE_COMPAT_STATFS_SIZE = 48"
definition FUSE_OPEN_IN_SIZE :: nat where "FUSE_OPEN_IN_SIZE = 8"

definition fuse_adjust_compat :: "nat \<Rightarrow> fuse_args \<Rightarrow> fuse_args" where
  "fuse_adjust_compat minor args =
     (let a1 = (if minor < 4 \<and> ar_opcode args = FUSE_STATFS
                then args\<lparr>ar_out_args := (ar_out_args args)[0 := FUSE_COMPAT_STATFS_SIZE]\<rparr> else args);
          a2 = (if minor < 9
                then (if ar_opcode a1 \<in> {FUSE_LOOKUP, FUSE_CREATE, FUSE_MKNOD, FUSE_MKDIR, FUSE_SYMLINK, FUSE_LINK}
                      then a1\<lparr>ar_out_args := (ar_out_args a1)[0 := FUSE_COMPAT_ENTRY_OUT_SIZE]\<rparr>
                      else if ar_opcode a1 \<in> {FUSE_GETATTR, FUSE_SETATTR}
                      then a1\<lparr>ar_out_args := (ar_out_args a1)[0 := FUSE_COMPAT_ATTR_OUT_SIZE]\<rparr> else a1)
                else a1)
      in if minor < 12
         then (if ar_opcode a2 = FUSE_CREATE then a2\<lparr>ar_in_args := (ar_in_args a2)[0 := FUSE_OPEN_IN_SIZE]\<rparr>
               else if ar_opcode a2 = FUSE_MKNOD then a2\<lparr>ar_in_args := (ar_in_args a2)[0 := FUSE_COMPAT_MKNOD_IN_SIZE]\<rparr>
               else a2)
         else a2)"

definition fuse_args_to_req :: "nat \<Rightarrow> fuse_args \<Rightarrow> fuse_conn \<Rightarrow> fuse_conn" where
  "fuse_args_to_req r args c = upd_req r (\<lambda>q. q\<lparr>in_opcode := ar_opcode args, in_nodeid := ar_nodeid args,
     r_args := args, r_flags := (if ar_end args then insert FR_ASYNC (r_flags q) else r_flags q)\<rparr>) c"

text \<open>\<open>fuse_simple_request\<close> in two parts: up to the queueing, and after the answer.\<close>

definition fuse_simple_request_start ::
  "bool \<Rightarrow> nat option \<Rightarrow> nat \<Rightarrow> nat \<Rightarrow> nat \<Rightarrow> fuse_args \<Rightarrow> fuse_conn \<Rightarrow> ((int + nat \<times> bool) \<times> fuse_conn) outcome option" where
  "fuse_simple_request_start killed newreq uid gid pid args c =
     (let send = (\<lambda>r c. let args' = fuse_adjust_compat (c_minor c) args;
                            c1 = fuse_args_to_req r args' c;
                            c2 = (if \<not> ar_noreply args' then set_bit_req FR_ISREPLY r c1 else c1)
                        in obind (fuse_request_send r c2) (\<lambda>(queued, c3). Done (Inr (r, queued), c3)))
      in if ar_force args
         then (case fuse_request_alloc newreq (c\<lparr>c_num_waiting := c_num_waiting c + 1\<rparr>) of
             (None, c1) \<Rightarrow> None
           | (Some r, c1) \<Rightarrow>
               (let c2 = (if \<not> ar_nocreds args then upd_req r (\<lambda>q. q\<lparr>in_uid := uid, in_gid := gid, in_pid := pid\<rparr>) c1 else c1)
                in Some (send r (set_bit_req FR_FORCE r (set_bit_req FR_WAITING r c2)))))
         else (case fuse_get_req killed newreq uid gid pid False c of
             None \<Rightarrow> None
           | Some Aborted \<Rightarrow> Some Aborted
           | Some (Done (Inl err, c1)) \<Rightarrow> Some (Done (Inl err, c1))
           | Some (Done (Inr r, c1)) \<Rightarrow> Some (send r c1)))"

definition fuse_simple_request_finish :: "nat \<Rightarrow> fuse_conn \<Rightarrow> (int \<times> fuse_conn) outcome" where
  "fuse_simple_request_finish r c = with_req r c (\<lambda>q.
     (let outs = ar_out_args (r_args q) in
      if out_error q = 0 \<and> ar_out_argvar (r_args q) \<and> outs = [] then Aborted
      else obind (fuse_put_request r c) (\<lambda>c1.
        Done (if out_error q = 0 \<and> ar_out_argvar (r_args q) then int (last outs) else out_error q, c1))))"

definition fuse_request_queue_background :: "nat \<Rightarrow> fuse_conn \<Rightarrow> (bool \<times> fuse_conn) outcome" where
  "fuse_request_queue_background r c = with_req r c (\<lambda>q.
     (let c1 = (if FR_WAITING \<notin> r_flags q
                then (set_bit_req FR_WAITING r c)\<lparr>c_num_waiting := c_num_waiting c + 1\<rparr> else c);
          c2 = set_bit_req FR_ISREPLY r c1
      in if \<not> c_connected c2 then Done (False, c2)
         else (let c3 = c2\<lparr>c_num_background := u32_add (c_num_background c2) 1\<rparr>;
                   c4 = (if c_num_background c3 = c_max_background c3 then c3\<lparr>c_blocked := True\<rparr> else c3)
               in obind (flush_bg_queue (c4\<lparr>c_bg_queue := c_bg_queue c4 @ [r]\<rparr>)) (\<lambda>c5. Done (True, c5)))))"

definition fuse_simple_background ::
  "bool \<Rightarrow> nat option \<Rightarrow> nat \<Rightarrow> nat \<Rightarrow> nat \<Rightarrow> fuse_args \<Rightarrow> fuse_conn \<Rightarrow> (int \<times> fuse_conn) outcome option" where
  "fuse_simple_background killed newreq uid gid pid args c =
     (let send = (\<lambda>r c. obind (fuse_request_queue_background r (fuse_args_to_req r args c)) (\<lambda>(queued, c1).
            if queued then Done (0, c1) else obind (fuse_put_request r c1) (\<lambda>c2. Done (- ENOTCONN, c2))))
      in if ar_force args
         then (case fuse_request_alloc newreq c of
             (None, c1) \<Rightarrow> Some (Done (- ENOMEM, c1))
           | (Some r, c1) \<Rightarrow> Some (send r (set_bit_req FR_BACKGROUND r c1)))
         else (case fuse_get_req killed newreq uid gid pid True c of
             None \<Rightarrow> None
           | Some Aborted \<Rightarrow> Some Aborted
           | Some (Done (Inl err, c1)) \<Rightarrow> Some (Done (err, c1))
           | Some (Done (Inr r, c1)) \<Rightarrow> Some (send r c1)))"

definition fuse_simple_notify_reply ::
  "bool \<Rightarrow> nat option \<Rightarrow> nat \<Rightarrow> nat \<Rightarrow> nat \<Rightarrow> fuse_args \<Rightarrow> 64 word \<Rightarrow> fuse_conn \<Rightarrow> (int \<times> fuse_conn) outcome option" where
  "fuse_simple_notify_reply killed newreq uid gid pid args unique c =
     (case fuse_get_req killed newreq uid gid pid False c of
        None \<Rightarrow> None
      | Some Aborted \<Rightarrow> Some Aborted
      | Some (Done (Inl err, c1)) \<Rightarrow> Some (Done (err, c1))
      | Some (Done (Inr r, c1)) \<Rightarrow>
          (let c2 = fuse_args_to_req r args (upd_req r (\<lambda>q. q\<lparr>in_unique := unique\<rparr>) (clear_bit_req FR_ISREPLY r c1))
           in Some (if iq_connected c2
                    then obind (queue_request_and_unlock r c2) (\<lambda>c3. Done (0, c3))
                    else obind (fuse_put_request r c2) (\<lambda>c3. Done (- ENODEV, c3)))))"

text \<open>\<open>lock_request\<close> and \<open>unlock_request\<close> (with a request): the C return value.\<close>

definition lock_request :: "nat \<Rightarrow> fuse_conn \<Rightarrow> (int \<times> fuse_conn) outcome" where
  "lock_request r c = with_req r c (\<lambda>q.
     if FR_ABORTED \<in> r_flags q then Done (- ENOENT, c) else Done (0, set_bit_req FR_LOCKED r c))"

definition unlock_request :: "nat \<Rightarrow> fuse_conn \<Rightarrow> (int \<times> fuse_conn) outcome" where
  "unlock_request r c = with_req r c (\<lambda>q.
     if FR_ABORTED \<in> r_flags q then Done (- ENOENT, c) else Done (0, clear_bit_req FR_LOCKED r c))"

subsection \<open>Reading requests\<close>

definition forget_pending :: "fuse_conn \<Rightarrow> bool" where
  "forget_pending c \<longleftrightarrow> iq_forgets c \<noteq> []"

definition request_pending :: "fuse_conn \<Rightarrow> bool" where
  "request_pending c \<longleftrightarrow> iq_pending c \<noteq> [] \<or> iq_interrupts c \<noteq> [] \<or> forget_pending c"

text \<open>What \<open>fuse_dev_do_read\<close> finds when it looks at the queue.\<close>

datatype read_choice = Read_wait | Read_err int | Read_interrupt nat | Read_forget | Read_request nat

definition FUSE_MIN_READ_BUFFER :: nat where "FUSE_MIN_READ_BUFFER = 8192"
definition WRITE_IN_SIZE :: nat where "WRITE_IN_SIZE = 40"

definition read_buffer_ok :: "fuse_conn \<Rightarrow> nat \<Rightarrow> bool" where
  "read_buffer_ok c nbytes \<longleftrightarrow> max FUSE_MIN_READ_BUFFER (IN_HEADER_SIZE + WRITE_IN_SIZE + c_max_write c) \<le> nbytes"

definition fuse_dev_do_read_take :: "fuse_conn \<Rightarrow> (read_choice \<times> fuse_conn) outcome" where
  "fuse_dev_do_read_take c =
     (if iq_connected c \<and> \<not> request_pending c then Done (Read_wait, c)
      else if \<not> iq_connected c then Done (Read_err (if c_aborted c then - ECONNABORTED else - ENODEV), c)
      else if iq_interrupts c \<noteq> [] then Done (Read_interrupt (hd (iq_interrupts c)), c)
      else
       (let c1 = (if forget_pending c \<and> iq_pending c \<noteq> [] then c\<lparr>iq_forget_batch := iq_forget_batch c - 1\<rparr> else c)
        in if forget_pending c \<and> (iq_pending c = [] \<or> 0 < iq_forget_batch c) then Done (Read_forget, c1)
           else
            (let c2 = (if forget_pending c \<and> iq_forget_batch c1 \<le> -8 then c1\<lparr>iq_forget_batch := 16\<rparr> else c1)
             in case iq_pending c2 of
                  [] \<Rightarrow> Aborted
                | r # rest \<Rightarrow> with_req r c2 (\<lambda>_.
                    Done (Read_request r, (clear_bit_req FR_PENDING r c2)\<lparr>iq_pending := rest\<rparr>)))))"

text \<open>The messages assembled on demand: header fields and body.\<close>

record kmsg_header =
  kh_len :: nat
  kh_opcode :: nat
  kh_unique :: "64 word"
  kh_nodeid :: "64 word"

datatype kmsg_body = Interrupt_in "64 word" | Forget_in "64 word" | Batch_forget_in nat "(64 word \<times> 64 word) list"

definition FUSE_FORGET :: nat where "FUSE_FORGET = 2"
definition FUSE_INTERRUPT :: nat where "FUSE_INTERRUPT = 36"
definition FUSE_BATCH_FORGET :: nat where "FUSE_BATCH_FORGET = 42"

text \<open>\<open>copy_err\<close> is the result of copying the message to the reader; the message is \<open>None\<close> if nothing
  was copied.\<close>

definition fuse_read_interrupt ::
  "int \<Rightarrow> nat \<Rightarrow> nat \<Rightarrow> fuse_conn \<Rightarrow> (int \<times> (kmsg_header \<times> kmsg_body) option \<times> fuse_conn) outcome" where
  "fuse_read_interrupt copy_err nbytes r c = with_req r c (\<lambda>q.
     (let c1 = c\<lparr>iq_interrupts := remove1 r (iq_interrupts c)\<rparr>;
          reqsize = IN_HEADER_SIZE + 8;
          ih = \<lparr>kh_len = reqsize, kh_opcode = FUSE_INTERRUPT, kh_unique = in_unique q OR FUSE_INT_REQ_BIT, kh_nodeid = 0\<rparr>
      in if nbytes < reqsize then Done (- EINVAL, None, c1)
         else if copy_err \<noteq> 0 then Done (copy_err, None, c1)
         else Done (int reqsize, Some (ih, Interrupt_in (in_unique q)), c1)))"

definition fuse_dequeue_forget :: "nat \<Rightarrow> fuse_conn \<Rightarrow> (64 word \<times> 64 word) list \<times> fuse_conn" where
  "fuse_dequeue_forget maxn c = (take maxn (iq_forgets c), c\<lparr>iq_forgets := drop maxn (iq_forgets c)\<rparr>)"

definition fuse_read_single_forget ::
  "int \<Rightarrow> nat \<Rightarrow> fuse_conn \<Rightarrow> (int \<times> (kmsg_header \<times> kmsg_body) option \<times> fuse_conn) outcome" where
  "fuse_read_single_forget copy_err nbytes c =
     (case fuse_dequeue_forget 1 c of
        ([], _) \<Rightarrow> Aborted
      | ((ino, nlookup) # _, c1) \<Rightarrow>
          (let (u, c2) = fuse_get_unique c1;
               ih = \<lparr>kh_len = IN_HEADER_SIZE + 8, kh_opcode = FUSE_FORGET, kh_unique = u, kh_nodeid = ino\<rparr>
           in if nbytes < kh_len ih then Done (- EINVAL, None, c2)
              else if copy_err \<noteq> 0 then Done (copy_err, None, c2)
              else Done (int (kh_len ih), Some (ih, Forget_in nlookup), c2)))"

definition fuse_read_batch_forget ::
  "int \<Rightarrow> nat \<Rightarrow> fuse_conn \<Rightarrow> (int \<times> (kmsg_header \<times> kmsg_body) option \<times> fuse_conn) outcome" where
  "fuse_read_batch_forget copy_err nbytes c =
     (let (u, c1) = fuse_get_unique c; len0 = IN_HEADER_SIZE + 8
      in if nbytes < len0 then Done (- EINVAL, None, c1)
         else (let (fs, c2) = fuse_dequeue_forget ((nbytes - len0) div 16) c1;
                   len1 = len0 + 16 * length fs
               in if copy_err \<noteq> 0 then Done (copy_err, None, c2)
                  else Done (int len1, Some (\<lparr>kh_len = len1, kh_opcode = FUSE_BATCH_FORGET, kh_unique = u, kh_nodeid = 0\<rparr>,
                                             Batch_forget_in (length fs) fs), c2)))"

definition fuse_read_forget ::
  "int \<Rightarrow> nat \<Rightarrow> fuse_conn \<Rightarrow> (int \<times> (kmsg_header \<times> kmsg_body) option \<times> fuse_conn) outcome" where
  "fuse_read_forget copy_err nbytes c =
     (if c_minor c < 16 \<or> length (iq_forgets c) = 1
      then fuse_read_single_forget copy_err nbytes c else fuse_read_batch_forget copy_err nbytes c)"

text \<open>After a request was taken: \<open>Inl err\<close> if it is to be ended at once (and the read restarts, or
  returns the error), \<open>Inr ()\<close> if it was put on the \<open>io\<close> list of device \<open>d\<close>.\<close>

definition fuse_dev_do_read_io :: "nat \<Rightarrow> nat \<Rightarrow> nat \<Rightarrow> fuse_conn \<Rightarrow> ((int + unit) \<times> fuse_conn) outcome" where
  "fuse_dev_do_read_io d nbytes r c = with_req r c (\<lambda>q.
     if nbytes < in_len q
     then (let e = (if ar_opcode (r_args q) = FUSE_SETXATTR then - E2BIG else - EIO) in Done (Inl e, set_error e r c))
     else if \<not> pq_connected (c_pq c d) then Done (Inl (- ECONNABORTED), set_error (- ECONNABORTED) r c)
     else Done (Inr (), upd_pq d (\<lambda>pq. pq\<lparr>pq_io := r # pq_io pq\<rparr>) c))"

text \<open>After the copy with result \<open>err\<close>: \<open>Inl res\<close> if the request is to be ended and \<open>res\<close> returned,
  \<open>Inr ()\<close> if it was sent (and an extra reference taken).\<close>

definition pq_del :: "nat \<Rightarrow> nat \<Rightarrow> fuse_conn \<Rightarrow> fuse_conn" where
  "pq_del d r c = upd_pq d (\<lambda>pq. pq\<lparr>pq_io := remove1 r (pq_io pq)\<rparr>) c"

definition out_end :: "nat \<Rightarrow> nat \<Rightarrow> fuse_conn \<Rightarrow> fuse_conn" where
  "out_end d r c = (if test_bit_req FR_PRIVATE r c then c else pq_del d r c)"

definition fuse_dev_do_read_finish :: "nat \<Rightarrow> int \<Rightarrow> nat \<Rightarrow> fuse_conn \<Rightarrow> ((int + unit) \<times> fuse_conn) outcome" where
  "fuse_dev_do_read_finish d err r c = with_req r c (\<lambda>q.
     (let c1 = clear_bit_req FR_LOCKED r c in
      if \<not> pq_connected (c_pq c1 d)
      then Done (Inl (if c_aborted c then - ECONNABORTED else - ENODEV), out_end d r c1)
      else if err \<noteq> 0 then Done (Inl err, out_end d r (set_error (- EIO) r c1))
      else if FR_ISREPLY \<notin> r_flags q then Done (Inl (int (in_len q)), out_end d r c1)
      else (let h = fuse_req_hash c1 (in_unique q);
                c2 = upd_pq d (\<lambda>pq. pq\<lparr>pq_io := remove1 r (pq_io pq),
                       pq_processing := (pq_processing pq)(h := pq_processing pq h @ [r])\<rparr>) c1
            in obind (get_request r c2) (\<lambda>c3. Done (Inr (), set_bit_req FR_SENT r c3)))))"

definition fuse_dev_do_read_sent :: "nat \<Rightarrow> fuse_conn \<Rightarrow> fuse_conn outcome" where
  "fuse_dev_do_read_sent r c = with_req r c (\<lambda>q.
     obind (if FR_INTERRUPTED \<in> r_flags q then obind (queue_interrupt r c) (\<lambda>(_, c1). Done c1) else Done c)
       (fuse_put_request r))"

definition fuse_dev_poll :: "fuse_conn \<Rightarrow> bool \<times> bool \<times> bool" where
  "fuse_dev_poll c = (if \<not> iq_connected c then (False, False, True) else (request_pending c, True, False))"

subsection \<open>Writing replies\<close>

definition request_find :: "nat \<Rightarrow> 64 word \<Rightarrow> fuse_conn \<Rightarrow> nat option" where
  "request_find d unique c =
     find (\<lambda>r. case reqs c r of Some q \<Rightarrow> in_unique q = unique | None \<Rightarrow> False)
       (pq_processing (c_pq c d) (fuse_req_hash c unique))"

record out_header =
  oh_len :: nat
  oh_error :: int
  oh_unique :: "64 word"

datatype write_choice = Write_err int | Write_notify int | Write_done int | Write_request nat

text \<open>\<open>fuse_dev_do_write\<close> after the header was copied, up to the copy of the arguments.\<close>

definition fuse_dev_do_write_find :: "nat \<Rightarrow> out_header \<Rightarrow> nat \<Rightarrow> fuse_conn \<Rightarrow> (write_choice \<times> fuse_conn) outcome" where
  "fuse_dev_do_write_find d oh nbytes c =
     (if oh_len oh \<noteq> nbytes then Done (Write_err (- EINVAL), c)
      else if oh_unique oh = 0 then Done (Write_notify (oh_error oh), c)
      else if oh_error oh \<le> -512 \<or> 0 < oh_error oh then Done (Write_err (- EINVAL), c)
      else
       (case (if pq_connected (c_pq c d) then request_find d (oh_unique oh AND NOT FUSE_INT_REQ_BIT) c else None) of
          None \<Rightarrow> Done (Write_err (- ENOENT), c)
        | Some r \<Rightarrow>
            if oh_unique oh AND FUSE_INT_REQ_BIT \<noteq> 0
            then obind (get_request r c) (\<lambda>c1.
                 obind (if nbytes \<noteq> OUT_HEADER_SIZE then Done (- EINVAL, c1)
                        else if oh_error oh = - ENOSYS then Done (0, c1\<lparr>c_no_interrupt := True\<rparr>)
                        else if oh_error oh = - EAGAIN then queue_interrupt r c1
                        else Done (0, c1)) (\<lambda>(err, c2).
                 obind (fuse_put_request r c2) (\<lambda>c3.
                 Done (Write_done (if err \<noteq> 0 then err else int nbytes), c3))))
            else with_req r c (\<lambda>q.
                 (let h = fuse_req_hash c (in_unique q);
                      c1 = clear_bit_req FR_SENT r c;
                      c2 = upd_pq d (\<lambda>pq. pq\<lparr>pq_processing := (pq_processing pq)(h := remove1 r (pq_processing pq h)),
                             pq_io := r # pq_io pq\<rparr>) c1
                  in Done (Write_request r, set_bit_req FR_LOCKED r (set_error (oh_error oh) r c2))))))"

text \<open>The size check of \<open>copy_out_args\<close>: the sizes of the output arguments as they will be filled.\<close>

definition copy_out_args_sizes :: "fuse_args \<Rightarrow> nat \<Rightarrow> nat list option" where
  "copy_out_args_sizes args nbytes =
     (let reqsize = u32_add OUT_HEADER_SIZE (fuse_len_args (ar_out_args args)) in
      if reqsize < nbytes \<or> (nbytes < reqsize \<and> \<not> ar_out_argvar args) then None
      else if nbytes < reqsize
      then (let n = length (ar_out_args args); lastarg = ar_out_args args ! (n - 1); diffsize = reqsize - nbytes
            in if lastarg < diffsize then None else Some ((ar_out_args args)[n - 1 := lastarg - diffsize]))
      else Some (ar_out_args args))"

text \<open>After the copy of the arguments with result \<open>err\<close>; the request is to be ended.\<close>

definition fuse_dev_do_write_finish :: "nat \<Rightarrow> int \<Rightarrow> nat \<Rightarrow> nat \<Rightarrow> fuse_conn \<Rightarrow> (int \<times> fuse_conn) outcome" where
  "fuse_dev_do_write_finish d err nbytes r c = with_req r c (\<lambda>_.
     (let c1 = clear_bit_req FR_LOCKED r c;
          err' = (if \<not> pq_connected (c_pq c1 d) then - ENOENT else err);
          c2 = (if pq_connected (c_pq c1 d) \<and> err \<noteq> 0 then set_error (- EIO) r c1 else c1)
      in Done (if err' \<noteq> 0 then err' else int nbytes, out_end d r c2)))"

subsection \<open>Aborting\<close>

text \<open>One round of \<open>end_requests\<close>, and the loop over a list of requests to end.\<close>

definition end_one_request :: "nat \<Rightarrow> fuse_conn \<Rightarrow> fuse_conn outcome" where
  "end_one_request r c = with_req r c (\<lambda>_.
     fuse_request_end r (clear_bit_req FR_SENT r (set_error (- ECONNABORTED) r
       (c\<lparr>c_to_end := remove1 r (c_to_end c)\<rparr>))))"

fun end_requests :: "nat list \<Rightarrow> fuse_conn \<Rightarrow> fuse_conn outcome" where
  "end_requests [] c = Done c"
| "end_requests (r # rs) c = obind (end_one_request r c) (end_requests rs)"

text \<open>The loop of \<open>fuse_abort_conn\<close> over the \<open>io\<close> list of a device.\<close>

fun abort_io :: "nat \<Rightarrow> nat list \<Rightarrow> fuse_conn \<Rightarrow> fuse_conn outcome" where
  "abort_io d [] c = Done c"
| "abort_io d (r # rs) c = with_req r c (\<lambda>q.
     (let c1 = set_bit_req FR_ABORTED r (set_error (- ECONNABORTED) r c)
      in if FR_LOCKED \<notin> r_flags q
         then obind (get_request r (set_bit_req FR_PRIVATE r c1)) (\<lambda>c2.
                abort_io d rs ((pq_del d r c2)\<lparr>c_to_end := r # c_to_end c2\<rparr>))
         else abort_io d rs c1))"

definition all_processing :: "fuse_pqueue \<Rightarrow> nat list" where
  "all_processing pq = concat (map (pq_processing pq) [0..<FUSE_PQ_HASH_SIZE])"

definition splice_processing :: "nat \<Rightarrow> fuse_conn \<Rightarrow> fuse_conn" where
  "splice_processing d c =
     (upd_pq d (\<lambda>pq. pq\<lparr>pq_processing := (\<lambda>h. if h < FUSE_PQ_HASH_SIZE then [] else pq_processing pq h)\<rparr>) c)
       \<lparr>c_to_end := c_to_end c @ all_processing (c_pq c d)\<rparr>"

text \<open>The lock sections of \<open>fuse_abort_conn\<close>: one per device, the background queue, the input queue.\<close>

definition abort_device :: "nat \<Rightarrow> fuse_conn \<Rightarrow> fuse_conn outcome" where
  "abort_device d c =
     (let c1 = upd_pq d (\<lambda>pq. pq\<lparr>pq_connected := False\<rparr>) c
      in obind (abort_io d (pq_io (c_pq c1 d)) c1) (\<lambda>c2. Done (splice_processing d c2)))"

fun abort_devices :: "nat list \<Rightarrow> fuse_conn \<Rightarrow> fuse_conn outcome" where
  "abort_devices [] c = Done c"
| "abort_devices (d # ds) c = obind (abort_device d c) (abort_devices ds)"

definition abort_background :: "fuse_conn \<Rightarrow> fuse_conn outcome" where
  "abort_background c = flush_bg_queue (c\<lparr>c_blocked := False, c_max_background := 2 ^ 32 - 1\<rparr>)"

definition abort_iqueue :: "fuse_conn \<Rightarrow> fuse_conn" where
  "abort_iqueue c =
     (fold (clear_bit_req FR_PENDING) (iq_pending c) c)
       \<lparr>iq_connected := False, iq_pending := [], c_to_end := c_to_end c @ iq_pending c, iq_forgets := []\<rparr>"

text \<open>\<open>fuse_abort_conn\<close> up to \<open>end_requests\<close>.\<close>

definition fuse_abort_conn :: "fuse_conn \<Rightarrow> fuse_conn outcome" where
  "fuse_abort_conn c =
     (if \<not> c_connected c then Done c
      else obind (abort_devices (c_devices c) (fuse_set_initialized (c\<lparr>c_connected := False\<rparr>))) (\<lambda>c1.
           obind (abort_background c1) (\<lambda>c2. Done (abort_iqueue c2))))"

text \<open>\<open>fuse_dev_release\<close> up to its \<open>end_requests\<close>, and the rest.\<close>

definition fuse_dev_release_start :: "nat \<Rightarrow> fuse_conn \<Rightarrow> fuse_conn" where
  "fuse_dev_release_start d c =
     (upd_pq d (\<lambda>pq. pq\<lparr>pq_processing := (\<lambda>h. if h < FUSE_PQ_HASH_SIZE then [] else pq_processing pq h)\<rparr>) c)
       \<lparr>c_to_end := c_to_end c @ concat (map (pq_processing (c_pq c d)) (rev [0..<FUSE_PQ_HASH_SIZE]))\<rparr>"

definition fuse_dev_release_finish :: "nat \<Rightarrow> fuse_conn \<Rightarrow> fuse_conn outcome" where
  "fuse_dev_release_finish d c =
     (let c1 = c\<lparr>c_dev_count := c_dev_count c - 1\<rparr>
      in obind (if c_dev_count c1 = 0 then fuse_abort_conn c1 else Done c1) (\<lambda>c2.
         Done (c2\<lparr>c_devices := remove1 d (c_devices c2)\<rparr>)))"

definition empty_pqueue :: fuse_pqueue where
  "empty_pqueue = \<lparr>pq_connected = True, pq_processing = (\<lambda>_. []), pq_io = []\<rparr>"

text \<open>\<open>installed\<close>: the file has a device already; \<open>newdev\<close>: the result of the allocation.\<close>

definition fuse_device_clone :: "bool \<Rightarrow> nat option \<Rightarrow> fuse_conn \<Rightarrow> int \<times> fuse_conn" where
  "fuse_device_clone installed newdev c =
     (if installed then (- EINVAL, c)
      else case newdev of
        None \<Rightarrow> (- ENOMEM, c)
      | Some d \<Rightarrow> (0, c\<lparr>c_devices := c_devices c @ [d], c_pq := (c_pq c)(d := empty_pqueue),
                     c_dev_count := c_dev_count c + 1\<rparr>))"


subsection \<open>Properties of messages\<close>

text \<open>Claim C29 (fuse_read_forget_batch). Reading forgets with a buffer of the required size gives one message that fits the buffer, holds
  at least one forget and takes the forgets from the front of the queue: with those left they are the queue as it was.\<close>

theorem fuse_read_forget_batch:
  assumes "forget_pending c" and "read_buffer_ok c nbytes"
  shows "\<exists>h body c'. fuse_read_forget 0 nbytes c = Done (int (kh_len h), Some (h, body), c') \<and> kh_len h \<le> nbytes \<and>
     kh_unique h = iq_reqctr c + FUSE_REQ_ID_STEP \<and>
     (case body of
        Forget_in n \<Rightarrow> iq_forgets c = (kh_nodeid h, n) # iq_forgets c' \<and> kh_opcode h = FUSE_FORGET
      | Batch_forget_in count fs \<Rightarrow> iq_forgets c = fs @ iq_forgets c' \<and> count = length fs \<and> fs \<noteq> [] \<and>
          kh_len h = IN_HEADER_SIZE + 8 + 16 * count \<and> kh_opcode h = FUSE_BATCH_FORGET
      | Interrupt_in _ \<Rightarrow> False)"
proof (cases "c_minor c < 16 \<or> length (iq_forgets c) = 1")
  case True
  obtain ino n F where "iq_forgets c = (ino, n) # F" using assms(1) by (cases "iq_forgets c") (auto simp: forget_pending_def)
  with True assms(2) show ?thesis
    by (simp add: fuse_read_forget_def fuse_read_single_forget_def fuse_dequeue_forget_def fuse_get_unique_def read_buffer_ok_def
      IN_HEADER_SIZE_def FUSE_MIN_READ_BUFFER_def Let_def)
next
  case False
  define m where "m = (nbytes - 48) div 16"
  have n: "48 + 16 \<le> nbytes" using assms(2) by (simp add: read_buffer_ok_def FUSE_MIN_READ_BUFFER_def)
  then have "1 \<le> m" and m: "48 + 16 * m \<le> nbytes" unfolding m_def by linarith+
  then have "take m (iq_forgets c) \<noteq> []" using assms(1) by (cases "iq_forgets c"; cases m) (simp_all add: forget_pending_def)
  moreover have "48 + 16 * length (take m (iq_forgets c)) \<le> nbytes" using m by simp
  ultimately show ?thesis using False n
    by (simp add: fuse_read_forget_def fuse_read_batch_forget_def fuse_dequeue_forget_def fuse_get_unique_def
      IN_HEADER_SIZE_def Let_def flip: m_def)
qed

text \<open>A reader finds forgets and requests.\<close>

definition both_waiting :: "fuse_conn \<Rightarrow> bool" where
  "both_waiting c \<longleftrightarrow> iq_connected c \<and> iq_interrupts c = [] \<and> forget_pending c \<and> iq_pending c \<noteq> [] \<and> reqs c (hd (iq_pending c)) \<noteq> None"

lemma read_take_both:
  assumes "both_waiting c"
  shows "fuse_dev_do_read_take c = (if 0 < iq_forget_batch c then Done (Read_forget, c\<lparr>iq_forget_batch := iq_forget_batch c - 1\<rparr>)
     else Done (Read_request (hd (iq_pending c)), (clear_bit_req FR_PENDING (hd (iq_pending c))
       (c\<lparr>iq_forget_batch := if iq_forget_batch c \<le> -7 then 16 else iq_forget_batch c - 1\<rparr>))\<lparr>iq_pending := tl (iq_pending c)\<rparr>))"
proof -
  obtain r rs q where "iq_pending c = r # rs" "reqs c r = Some q" using assms by (cases "iq_pending c") (auto simp: both_waiting_def)
  then show ?thesis using assms
    by (auto simp: both_waiting_def fuse_dev_do_read_take_def request_pending_def Let_def with_req_def)
qed

lemma batch_after:
  assumes "both_waiting c" and "fuse_dev_do_read_take c = Done (ch, c')"
  shows "iq_forget_batch c' = (if 0 < iq_forget_batch c \<or> -7 < iq_forget_batch c then iq_forget_batch c - 1 else 16)"
    and "ch = Read_forget \<longleftrightarrow> 0 < iq_forget_batch c" and "(\<exists>r. ch = Read_request r) \<longleftrightarrow> \<not> 0 < iq_forget_batch c"
  using assms(2) unfolding read_take_both[OF assms(1)] by (auto simp: clear_bit_req_def upd_req_def split: if_splits)


lemma fuse_len_args_sum: "k + sum_list xs < 2 ^ 32 \<Longrightarrow> fold (\<lambda>a nbytes. u32_add nbytes a) xs k = k + sum_list xs"
  by (induction xs arbitrary: k) (simp_all add: u32_add_small add.assoc)

text \<open>The size check of a reply: it passes exactly when the header and the output arguments, the
  last one shortened if it may be, add up to the length of the reply; no argument grows.\<close>

theorem copy_out_args_sizes_exact:
  assumes "OUT_HEADER_SIZE + sum_list (ar_out_args args) < 2 ^ 32" and "ar_out_argvar args \<Longrightarrow> ar_out_args args \<noteq> []"
  shows "copy_out_args_sizes args nbytes = Some sizes \<longleftrightarrow>
    length sizes = length (ar_out_args args) \<and> OUT_HEADER_SIZE + sum_list sizes = nbytes \<and>
    (if ar_out_argvar args then butlast sizes = butlast (ar_out_args args) \<and> last sizes \<le> last (ar_out_args args)
     else sizes = ar_out_args args)"
proof -
  let ?o = "ar_out_args args"
  have len: "u32_add OUT_HEADER_SIZE (fuse_len_args ?o) = OUT_HEADER_SIZE + sum_list ?o"
    using assms(1) fuse_len_args_sum[of 0 ?o] by (simp add: fuse_len_args_def u32_add_small)
  show ?thesis
  proof (cases "ar_out_argvar args")
    case False
    then show ?thesis by (auto simp: copy_out_args_sizes_def len Let_def)
  next
    case True
    then obtain a l where o: "?o = a @ [l]" using assms(2) by (metis rev_exhaust)
    note len' = len[unfolded o]
    have "copy_out_args_sizes args nbytes = (if OUT_HEADER_SIZE + sum_list a \<le> nbytes \<and> nbytes \<le> OUT_HEADER_SIZE + sum_list a + l
       then Some (a @ [nbytes - OUT_HEADER_SIZE - sum_list a]) else None)"
      using True o by (auto simp: copy_out_args_sizes_def len' Let_def)
    moreover have "length sizes = Suc (length a) \<and> butlast sizes = a \<longleftrightarrow> (\<exists>m. sizes = a @ [m])" by (cases sizes rule: rev_cases) auto
    ultimately show ?thesis using True o by auto
  qed
qed

text \<open>A queue with one request and forgets.\<close>

definition demo_queue :: "int \<Rightarrow> fuse_conn" where
  "demo_queue b = \<lparr>reqs = [1 \<mapsto> fuse_request_init], c_initialized = True, c_connected = True, c_conn_error = False, c_aborted = False,
     c_blocked = False, c_no_interrupt = False, c_minor = 36, c_max_write = 4096, c_num_waiting = 1, c_max_background = 12,
     c_num_background = 0, c_active_background = 0, c_bg_queue = [], iq_connected = True, iq_reqctr = 2, iq_pending = [1],
     iq_interrupts = [], iq_forgets = [(5, 1), (6, 2)], iq_forget_batch = b, c_devices = [], c_pq = (\<lambda>_. \<lparr>pq_connected = True, pq_processing = (\<lambda>_. []), pq_io = []\<rparr>),
     c_dev_count = 1, c_to_end = [], c_done = [], c_hash_long = (\<lambda>_ _. 0)\<rparr>"

theorem fuse_read_forget_batch_witness:
  "\<exists>h body c'. fuse_read_forget 0 9000 (demo_queue 0) = Done (int (kh_len h), Some (h, body), c') \<and> kh_len h \<le> 9000"
  using fuse_read_forget_batch[of "demo_queue 0" 9000]
  by (force simp: demo_queue_def forget_pending_def read_buffer_ok_def FUSE_MIN_READ_BUFFER_def IN_HEADER_SIZE_def WRITE_IN_SIZE_def)


theorem copy_out_args_sizes_exact_witness:
  "copy_out_args_sizes (no_args\<lparr>ar_out_args := [16, 100], ar_out_argvar := True\<rparr>) 58 = Some [16, 10]"
  using copy_out_args_sizes_exact[of "no_args\<lparr>ar_out_args := [16, 100], ar_out_argvar := True\<rparr>" 58 "[16, 10]"]
  by (simp add: OUT_HEADER_SIZE_def)

end
