(* ===== verification/Fuse_Init.thy ===== *)
theory Fuse_Init
  imports Kern_Requests
begin

text \<open>
  The first message on a connection: the kernel offers its features (\<open>fuse_send_init\<close>, \<open>inode.c\<close>), the library answers with those it
  and the file system want (\<open>do_init\<close>, \<open>lib/fuse_lowlevel.c\<close>), and the kernel configures the connection (\<open>process_init_reply\<close>). Both sides
  also settle the size of writes and of the buffer that the library reads requests into. The callback \<open>init\<close> of the file system is a parameter.
\<close>

subsection \<open>Flags\<close>

definition has_bits :: "'a::len word \<Rightarrow> 'a word \<Rightarrow> bool" where
  "has_bits w k \<longleftrightarrow> w AND k \<noteq> 0"

text \<open>A sequence of statements \<open>if (c) w |= f\<close>.\<close>

fun add_flags :: "(bool \<times> 'a::len word) list \<Rightarrow> 'a word \<Rightarrow> 'a word" where
  "add_flags [] w = w"
| "add_flags ((c, f) # ps) w = add_flags ps (if c then w OR f else w)"

definition FUSE_ASYNC_READ :: "64 word" where "FUSE_ASYNC_READ = 0x1"
definition FUSE_POSIX_LOCKS :: "64 word" where "FUSE_POSIX_LOCKS = 0x2"
definition FUSE_ATOMIC_O_TRUNC :: "64 word" where "FUSE_ATOMIC_O_TRUNC = 0x8"
definition FUSE_EXPORT_SUPPORT :: "64 word" where "FUSE_EXPORT_SUPPORT = 0x10"
definition FUSE_BIG_WRITES :: "64 word" where "FUSE_BIG_WRITES = 0x20"
definition FUSE_DONT_MASK :: "64 word" where "FUSE_DONT_MASK = 0x40"
definition FUSE_SPLICE_WRITE :: "64 word" where "FUSE_SPLICE_WRITE = 0x80"
definition FUSE_SPLICE_MOVE :: "64 word" where "FUSE_SPLICE_MOVE = 0x100"
definition FUSE_SPLICE_READ :: "64 word" where "FUSE_SPLICE_READ = 0x200"
definition FUSE_FLOCK_LOCKS :: "64 word" where "FUSE_FLOCK_LOCKS = 0x400"
definition FUSE_HAS_IOCTL_DIR :: "64 word" where "FUSE_HAS_IOCTL_DIR = 0x800"
definition FUSE_AUTO_INVAL_DATA :: "64 word" where "FUSE_AUTO_INVAL_DATA = 0x1000"
definition FUSE_DO_READDIRPLUS :: "64 word" where "FUSE_DO_READDIRPLUS = 0x2000"
definition FUSE_READDIRPLUS_AUTO :: "64 word" where "FUSE_READDIRPLUS_AUTO = 0x4000"
definition FUSE_ASYNC_DIO :: "64 word" where "FUSE_ASYNC_DIO = 0x8000"
definition FUSE_WRITEBACK_CACHE :: "64 word" where "FUSE_WRITEBACK_CACHE = 0x10000"
definition FUSE_NO_OPEN_SUPPORT :: "64 word" where "FUSE_NO_OPEN_SUPPORT = 0x20000"
definition FUSE_PARALLEL_DIROPS :: "64 word" where "FUSE_PARALLEL_DIROPS = 0x40000"
definition FUSE_HANDLE_KILLPRIV :: "64 word" where "FUSE_HANDLE_KILLPRIV = 0x80000"
definition FUSE_POSIX_ACL :: "64 word" where "FUSE_POSIX_ACL = 0x100000"
definition FUSE_ABORT_ERROR :: "64 word" where "FUSE_ABORT_ERROR = 0x200000"
definition FUSE_MAX_PAGES :: "64 word" where "FUSE_MAX_PAGES = 0x400000"
definition FUSE_CACHE_SYMLINKS :: "64 word" where "FUSE_CACHE_SYMLINKS = 0x800000"
definition FUSE_NO_OPENDIR_SUPPORT :: "64 word" where "FUSE_NO_OPENDIR_SUPPORT = 0x1000000"
definition FUSE_EXPLICIT_INVAL_DATA :: "64 word" where "FUSE_EXPLICIT_INVAL_DATA = 0x2000000"
definition FUSE_MAP_ALIGNMENT :: "64 word" where "FUSE_MAP_ALIGNMENT = 0x4000000"
definition FUSE_SUBMOUNTS :: "64 word" where "FUSE_SUBMOUNTS = 0x8000000"
definition FUSE_HANDLE_KILLPRIV_V2 :: "64 word" where "FUSE_HANDLE_KILLPRIV_V2 = 0x10000000"
definition FUSE_SETXATTR_EXT :: "64 word" where "FUSE_SETXATTR_EXT = 0x20000000"
definition FUSE_INIT_EXT :: "64 word" where "FUSE_INIT_EXT = 0x40000000"
definition FUSE_SECURITY_CTX :: "64 word" where "FUSE_SECURITY_CTX = 0x100000000"
definition FUSE_HAS_INODE_DAX :: "64 word" where "FUSE_HAS_INODE_DAX = 0x200000000"

lemmas init_flag_defs = FUSE_ASYNC_READ_def FUSE_POSIX_LOCKS_def FUSE_ATOMIC_O_TRUNC_def FUSE_EXPORT_SUPPORT_def FUSE_BIG_WRITES_def
  FUSE_DONT_MASK_def FUSE_SPLICE_WRITE_def FUSE_SPLICE_MOVE_def FUSE_SPLICE_READ_def FUSE_FLOCK_LOCKS_def FUSE_HAS_IOCTL_DIR_def
  FUSE_AUTO_INVAL_DATA_def FUSE_DO_READDIRPLUS_def FUSE_READDIRPLUS_AUTO_def FUSE_ASYNC_DIO_def FUSE_WRITEBACK_CACHE_def
  FUSE_NO_OPEN_SUPPORT_def FUSE_PARALLEL_DIROPS_def FUSE_HANDLE_KILLPRIV_def FUSE_POSIX_ACL_def FUSE_ABORT_ERROR_def FUSE_MAX_PAGES_def
  FUSE_CACHE_SYMLINKS_def FUSE_NO_OPENDIR_SUPPORT_def FUSE_EXPLICIT_INVAL_DATA_def FUSE_MAP_ALIGNMENT_def FUSE_SUBMOUNTS_def
  FUSE_HANDLE_KILLPRIV_V2_def FUSE_SETXATTR_EXT_def FUSE_INIT_EXT_def FUSE_SECURITY_CTX_def FUSE_HAS_INODE_DAX_def

text \<open>The capabilities of the library have numbers of their own.\<close>

definition FUSE_CAP_ASYNC_READ :: "32 word" where "FUSE_CAP_ASYNC_READ = 0x1"
definition FUSE_CAP_POSIX_LOCKS :: "32 word" where "FUSE_CAP_POSIX_LOCKS = 0x2"
definition FUSE_CAP_ATOMIC_O_TRUNC :: "32 word" where "FUSE_CAP_ATOMIC_O_TRUNC = 0x8"
definition FUSE_CAP_EXPORT_SUPPORT :: "32 word" where "FUSE_CAP_EXPORT_SUPPORT = 0x10"
definition FUSE_CAP_DONT_MASK :: "32 word" where "FUSE_CAP_DONT_MASK = 0x40"
definition FUSE_CAP_SPLICE_WRITE :: "32 word" where "FUSE_CAP_SPLICE_WRITE = 0x80"
definition FUSE_CAP_SPLICE_MOVE :: "32 word" where "FUSE_CAP_SPLICE_MOVE = 0x100"
definition FUSE_CAP_SPLICE_READ :: "32 word" where "FUSE_CAP_SPLICE_READ = 0x200"
definition FUSE_CAP_FLOCK_LOCKS :: "32 word" where "FUSE_CAP_FLOCK_LOCKS = 0x400"
definition FUSE_CAP_IOCTL_DIR :: "32 word" where "FUSE_CAP_IOCTL_DIR = 0x800"
definition FUSE_CAP_AUTO_INVAL_DATA :: "32 word" where "FUSE_CAP_AUTO_INVAL_DATA = 0x1000"
definition FUSE_CAP_READDIRPLUS :: "32 word" where "FUSE_CAP_READDIRPLUS = 0x2000"
definition FUSE_CAP_READDIRPLUS_AUTO :: "32 word" where "FUSE_CAP_READDIRPLUS_AUTO = 0x4000"
definition FUSE_CAP_ASYNC_DIO :: "32 word" where "FUSE_CAP_ASYNC_DIO = 0x8000"
definition FUSE_CAP_WRITEBACK_CACHE :: "32 word" where "FUSE_CAP_WRITEBACK_CACHE = 0x10000"
definition FUSE_CAP_NO_OPEN_SUPPORT :: "32 word" where "FUSE_CAP_NO_OPEN_SUPPORT = 0x20000"
definition FUSE_CAP_PARALLEL_DIROPS :: "32 word" where "FUSE_CAP_PARALLEL_DIROPS = 0x40000"
definition FUSE_CAP_POSIX_ACL :: "32 word" where "FUSE_CAP_POSIX_ACL = 0x80000"
definition FUSE_CAP_HANDLE_KILLPRIV :: "32 word" where "FUSE_CAP_HANDLE_KILLPRIV = 0x100000"
definition FUSE_CAP_CACHE_SYMLINKS :: "32 word" where "FUSE_CAP_CACHE_SYMLINKS = 0x800000"
definition FUSE_CAP_NO_OPENDIR_SUPPORT :: "32 word" where "FUSE_CAP_NO_OPENDIR_SUPPORT = 0x1000000"
definition FUSE_CAP_EXPLICIT_INVAL_DATA :: "32 word" where "FUSE_CAP_EXPLICIT_INVAL_DATA = 0x2000000"
definition FUSE_CAP_EXPIRE_ONLY :: "32 word" where "FUSE_CAP_EXPIRE_ONLY = 0x4000000"
definition FUSE_CAP_SETXATTR_EXT :: "32 word" where "FUSE_CAP_SETXATTR_EXT = 0x8000000"

lemmas cap_defs = FUSE_CAP_ASYNC_READ_def FUSE_CAP_POSIX_LOCKS_def FUSE_CAP_ATOMIC_O_TRUNC_def FUSE_CAP_EXPORT_SUPPORT_def FUSE_CAP_DONT_MASK_def
  FUSE_CAP_SPLICE_WRITE_def FUSE_CAP_SPLICE_MOVE_def FUSE_CAP_SPLICE_READ_def FUSE_CAP_FLOCK_LOCKS_def FUSE_CAP_IOCTL_DIR_def FUSE_CAP_AUTO_INVAL_DATA_def
  FUSE_CAP_READDIRPLUS_def FUSE_CAP_READDIRPLUS_AUTO_def FUSE_CAP_ASYNC_DIO_def FUSE_CAP_WRITEBACK_CACHE_def FUSE_CAP_NO_OPEN_SUPPORT_def
  FUSE_CAP_PARALLEL_DIROPS_def FUSE_CAP_POSIX_ACL_def FUSE_CAP_HANDLE_KILLPRIV_def FUSE_CAP_CACHE_SYMLINKS_def FUSE_CAP_NO_OPENDIR_SUPPORT_def
  FUSE_CAP_EXPLICIT_INVAL_DATA_def FUSE_CAP_EXPIRE_ONLY_def FUSE_CAP_SETXATTR_EXT_def

subsection \<open>The messages\<close>

definition FUSE_KERNEL_VERSION :: nat where "FUSE_KERNEL_VERSION = 7"
definition FUSE_KERNEL_MINOR_VERSION :: nat where "FUSE_KERNEL_MINOR_VERSION = 38"
definition EPROTO :: int where "EPROTO = 71"

record fuse_init_in =
  ii_major :: nat
  ii_minor :: nat
  ii_max_readahead :: nat
  ii_flags :: "32 word"
  ii_flags2 :: "32 word"

record fuse_init_out =
  io_major :: nat
  io_minor :: nat
  io_max_readahead :: nat
  io_flags :: "32 word"
  io_max_background :: nat
  io_congestion_threshold :: nat
  io_max_write :: nat
  io_time_gran :: nat
  io_max_pages :: nat
  io_map_alignment :: nat
  io_flags2 :: "32 word"

subsection \<open>The kernel's offer\<close>

text \<open>The configuration of the mount that decides about optional features.\<close>

record mount_conf =
  mc_dax :: bool
  mc_inode_dax :: bool
  mc_auto_submounts :: bool

definition offered_flags :: "mount_conf \<Rightarrow> 64 word" where
  "offered_flags mc = add_flags [(mc_dax mc, FUSE_MAP_ALIGNMENT), (mc_inode_dax mc, FUSE_HAS_INODE_DAX), (mc_auto_submounts mc, FUSE_SUBMOUNTS)]
     (FUSE_ASYNC_READ OR FUSE_POSIX_LOCKS OR FUSE_ATOMIC_O_TRUNC OR FUSE_EXPORT_SUPPORT OR FUSE_BIG_WRITES OR FUSE_DONT_MASK OR
      FUSE_SPLICE_WRITE OR FUSE_SPLICE_MOVE OR FUSE_SPLICE_READ OR FUSE_FLOCK_LOCKS OR FUSE_HAS_IOCTL_DIR OR FUSE_AUTO_INVAL_DATA OR
      FUSE_DO_READDIRPLUS OR FUSE_READDIRPLUS_AUTO OR FUSE_ASYNC_DIO OR FUSE_WRITEBACK_CACHE OR FUSE_NO_OPEN_SUPPORT OR
      FUSE_PARALLEL_DIROPS OR FUSE_HANDLE_KILLPRIV OR FUSE_POSIX_ACL OR FUSE_ABORT_ERROR OR FUSE_MAX_PAGES OR FUSE_CACHE_SYMLINKS OR
      FUSE_NO_OPENDIR_SUPPORT OR FUSE_EXPLICIT_INVAL_DATA OR FUSE_HANDLE_KILLPRIV_V2 OR FUSE_SETXATTR_EXT OR FUSE_INIT_EXT OR FUSE_SECURITY_CTX)"

text \<open>The minor version is that of the header the kernel was built with.\<close>

definition fuse_send_init :: "nat \<Rightarrow> mount_conf \<Rightarrow> nat \<Rightarrow> fuse_init_in" where
  "fuse_send_init kminor mc ra_pages =
     \<lparr>ii_major = FUSE_KERNEL_VERSION, ii_minor = kminor, ii_max_readahead = (ra_pages * PAGE_SIZE) mod 2 ^ 32,
      ii_flags = ucast (offered_flags mc), ii_flags2 = ucast (drop_bit 32 (offered_flags mc))\<rparr>"

subsection \<open>The library's answer\<close>

record fuse_conn_info =
  ci_proto_major :: nat
  ci_proto_minor :: nat
  ci_max_write :: nat
  ci_max_read :: nat
  ci_max_readahead :: nat
  ci_capable :: "32 word"
  ci_want :: "32 word"
  ci_max_background :: nat
  ci_congestion_threshold :: nat
  ci_time_gran :: nat

text \<open>
  The part of a session that the handshake uses: the buffer size, the outcome flags, which operations the file system has, its \<open>init\<close>
  callback, which splice functions a custom \<open>io\<close> has (none if there is no custom \<open>io\<close>), and the read size given as a mount option.
\<close>

record init_session =
  is_conn :: fuse_conn_info
  is_bufsize :: nat
  is_got_init :: bool
  is_error :: int
  is_exited :: bool
  is_op_write_buf :: bool
  is_op_getlk :: bool
  is_op_setlk :: bool
  is_op_flock :: bool
  is_op_readdirplus :: bool
  is_op_readdir :: bool
  is_op_init :: "(fuse_conn_info \<Rightarrow> fuse_conn_info) option"
  is_io :: "(bool \<times> bool) option"
  is_mo_max_read :: nat

datatype init_reply = Init_err int | Init_ok fuse_init_out nat

definition FUSE_MAX_MAX_PAGES :: nat where "FUSE_MAX_MAX_PAGES = 256"
definition FUSE_DEFAULT_MAX_PAGES_PER_REQ :: nat where "FUSE_DEFAULT_MAX_PAGES_PER_REQ = 32"
definition FUSE_BUFFER_HEADER_SIZE :: nat where "FUSE_BUFFER_HEADER_SIZE = 4096"
definition FUSE_COMPAT_INIT_OUT_SIZE :: nat where "FUSE_COMPAT_INIT_OUT_SIZE = 8"
definition FUSE_COMPAT_22_INIT_OUT_SIZE :: nat where "FUSE_COMPAT_22_INIT_OUT_SIZE = 24"
definition INIT_OUT_SIZE :: nat where "INIT_OUT_SIZE = 64"

lemmas init_size_defs = FUSE_MAX_MAX_PAGES_def FUSE_DEFAULT_MAX_PAGES_PER_REQ_def FUSE_BUFFER_HEADER_SIZE_def FUSE_COMPAT_INIT_OUT_SIZE_def
  FUSE_COMPAT_22_INIT_OUT_SIZE_def INIT_OUT_SIZE_def

definition empty_init_out :: fuse_init_out where
  "empty_init_out = \<lparr>io_major = FUSE_KERNEL_VERSION, io_minor = FUSE_KERNEL_MINOR_VERSION, io_max_readahead = 0, io_flags = 0,
     io_max_background = 0, io_congestion_threshold = 0, io_max_write = 0, io_time_gran = 0, io_max_pages = 0, io_map_alignment = 0, io_flags2 = 0\<rparr>"

definition init_inargflags :: "fuse_init_in \<Rightarrow> 64 word" where
  "init_inargflags arg =
     (if ii_minor arg < 6 then 0
      else let fl = ucast (ii_flags arg)
           in if has_bits fl FUSE_INIT_EXT then fl OR push_bit 32 (ucast (ii_flags2 arg)) else fl)"

definition init_capable :: "fuse_init_in \<Rightarrow> init_session \<Rightarrow> 32 word" where
  "init_capable arg se =
    (let inargflags = init_inargflags arg;
         c = add_flags
          [(has_bits inargflags FUSE_ASYNC_READ, FUSE_CAP_ASYNC_READ),
           (has_bits inargflags FUSE_POSIX_LOCKS, FUSE_CAP_POSIX_LOCKS),
           (has_bits inargflags FUSE_ATOMIC_O_TRUNC, FUSE_CAP_ATOMIC_O_TRUNC),
           (has_bits inargflags FUSE_EXPORT_SUPPORT, FUSE_CAP_EXPORT_SUPPORT),
           (has_bits inargflags FUSE_DONT_MASK, FUSE_CAP_DONT_MASK),
           (has_bits inargflags FUSE_FLOCK_LOCKS, FUSE_CAP_FLOCK_LOCKS),
           (has_bits inargflags FUSE_AUTO_INVAL_DATA, FUSE_CAP_AUTO_INVAL_DATA),
           (has_bits inargflags FUSE_DO_READDIRPLUS, FUSE_CAP_READDIRPLUS),
           (has_bits inargflags FUSE_READDIRPLUS_AUTO, FUSE_CAP_READDIRPLUS_AUTO),
           (has_bits inargflags FUSE_ASYNC_DIO, FUSE_CAP_ASYNC_DIO),
           (has_bits inargflags FUSE_WRITEBACK_CACHE, FUSE_CAP_WRITEBACK_CACHE),
           (has_bits inargflags FUSE_NO_OPEN_SUPPORT, FUSE_CAP_NO_OPEN_SUPPORT),
           (has_bits inargflags FUSE_PARALLEL_DIROPS, FUSE_CAP_PARALLEL_DIROPS),
           (has_bits inargflags FUSE_POSIX_ACL, FUSE_CAP_POSIX_ACL),
           (has_bits inargflags FUSE_HANDLE_KILLPRIV, FUSE_CAP_HANDLE_KILLPRIV),
           (has_bits inargflags FUSE_CACHE_SYMLINKS, FUSE_CAP_CACHE_SYMLINKS),
           (has_bits inargflags FUSE_NO_OPENDIR_SUPPORT, FUSE_CAP_NO_OPENDIR_SUPPORT),
           (has_bits inargflags FUSE_EXPLICIT_INVAL_DATA, FUSE_CAP_EXPLICIT_INVAL_DATA),
           (has_bits inargflags FUSE_SETXATTR_EXT, FUSE_CAP_SETXATTR_EXT),
           (38 \<le> ii_minor arg, FUSE_CAP_EXPIRE_ONLY)] 0
     in add_flags
          [(14 \<le> ii_minor arg \<and> (case is_io se of None \<Rightarrow> True | Some (send, _) \<Rightarrow> send), FUSE_CAP_SPLICE_WRITE OR FUSE_CAP_SPLICE_MOVE),
           (14 \<le> ii_minor arg \<and> (case is_io se of None \<Rightarrow> True | Some (_, receive) \<Rightarrow> receive), FUSE_CAP_SPLICE_READ),
           (18 \<le> ii_minor arg, FUSE_CAP_IOCTL_DIR)] c)"

text \<open>The macro \<open>LL_SET_DEFAULT\<close>: a default is wanted if the kernel is capable of it.\<close>

definition init_default_want :: "init_session \<Rightarrow> 32 word \<Rightarrow> 32 word" where
  "init_default_want se capable = add_flags (map (\<lambda>(cond, cap). (cond \<and> has_bits capable cap, cap))
     [(True, FUSE_CAP_ASYNC_READ), (True, FUSE_CAP_PARALLEL_DIROPS), (True, FUSE_CAP_AUTO_INVAL_DATA), (True, FUSE_CAP_HANDLE_KILLPRIV),
      (True, FUSE_CAP_ASYNC_DIO), (True, FUSE_CAP_IOCTL_DIR), (True, FUSE_CAP_ATOMIC_O_TRUNC), (is_op_write_buf se, FUSE_CAP_SPLICE_READ),
      (is_op_getlk se \<and> is_op_setlk se, FUSE_CAP_POSIX_LOCKS), (is_op_flock se, FUSE_CAP_FLOCK_LOCKS),
      (is_op_readdirplus se, FUSE_CAP_READDIRPLUS), (is_op_readdirplus se \<and> is_op_readdir se, FUSE_CAP_READDIRPLUS_AUTO)]) 0"

text \<open>The size of the request buffer before the file system is asked.\<close>

definition init_bufsize :: "fuse_init_in \<Rightarrow> nat \<Rightarrow> nat" where
  "init_bufsize arg bufsize =
     (let max_bufsize = FUSE_DEFAULT_MAX_PAGES_PER_REQ * PAGE_SIZE + FUSE_BUFFER_HEADER_SIZE;
          b = (if 6 \<le> ii_minor arg \<and> \<not> has_bits (init_inargflags arg) FUSE_MAX_PAGES \<and> max_bufsize < bufsize then max_bufsize else bufsize)
      in if b < FUSE_MIN_READ_BUFFER then FUSE_MIN_READ_BUFFER else b)"

definition init_outargflags :: "64 word \<Rightarrow> 64 word \<Rightarrow> 32 word \<Rightarrow> 64 word" where
  "init_outargflags inargflags start want = add_flags
     [(True, FUSE_BIG_WRITES),
      (has_bits want FUSE_CAP_ASYNC_READ, FUSE_ASYNC_READ),
      (has_bits want FUSE_CAP_POSIX_LOCKS, FUSE_POSIX_LOCKS),
      (has_bits want FUSE_CAP_ATOMIC_O_TRUNC, FUSE_ATOMIC_O_TRUNC),
      (has_bits want FUSE_CAP_EXPORT_SUPPORT, FUSE_EXPORT_SUPPORT),
      (has_bits want FUSE_CAP_DONT_MASK, FUSE_DONT_MASK),
      (has_bits want FUSE_CAP_FLOCK_LOCKS, FUSE_FLOCK_LOCKS),
      (has_bits want FUSE_CAP_AUTO_INVAL_DATA, FUSE_AUTO_INVAL_DATA),
      (has_bits want FUSE_CAP_READDIRPLUS, FUSE_DO_READDIRPLUS),
      (has_bits want FUSE_CAP_READDIRPLUS_AUTO, FUSE_READDIRPLUS_AUTO),
      (has_bits want FUSE_CAP_ASYNC_DIO, FUSE_ASYNC_DIO),
      (has_bits want FUSE_CAP_WRITEBACK_CACHE, FUSE_WRITEBACK_CACHE),
      (has_bits want FUSE_CAP_POSIX_ACL, FUSE_POSIX_ACL),
      (has_bits want FUSE_CAP_CACHE_SYMLINKS, FUSE_CACHE_SYMLINKS),
      (has_bits want FUSE_CAP_EXPLICIT_INVAL_DATA, FUSE_EXPLICIT_INVAL_DATA),
      (has_bits want FUSE_CAP_SETXATTR_EXT, FUSE_SETXATTR_EXT),
      (has_bits inargflags FUSE_INIT_EXT, FUSE_INIT_EXT)] start"

text \<open>The background limits, clamped to what the reply can carry.\<close>

definition init_limits :: "fuse_conn_info \<Rightarrow> fuse_conn_info" where
  "init_limits ci =
     (if ci_proto_minor ci < 13 then ci
      else let mb = (if 2 ^ 16 \<le> ci_max_background ci then 2 ^ 16 - 1 else ci_max_background ci);
               ct = (if mb < ci_congestion_threshold ci then mb else ci_congestion_threshold ci)
           in ci\<lparr>ci_max_background := mb, ci_congestion_threshold := (if ct = 0 then mb * 3 div 4 else ct)\<rparr>)"

text \<open>The session when the file system's \<open>init\<close> is called, and the rest of \<open>do_init\<close> after it.\<close>

definition do_init_before :: "fuse_init_in \<Rightarrow> init_session \<Rightarrow> init_session" where
  "do_init_before arg se =
    (let capable = init_capable arg se; b = init_bufsize arg (is_bufsize se); ci = is_conn se
     in se\<lparr>is_bufsize := b, is_got_init := True,
           is_conn := ci\<lparr>ci_capable := capable, ci_want := init_default_want se capable, ci_time_gran := 1,
              ci_max_readahead := (if 6 \<le> ii_minor arg then min (ii_max_readahead arg) (ci_max_readahead ci) else 0),
              ci_max_write := (if b - FUSE_BUFFER_HEADER_SIZE < ci_max_write ci then b - FUSE_BUFFER_HEADER_SIZE else ci_max_write ci)\<rparr>\<rparr>)"

definition init_final_bufsize :: "init_session \<Rightarrow> nat" where
  "init_final_bufsize se = (let ci = is_conn se
     in if ci_max_write ci < is_bufsize se - FUSE_BUFFER_HEADER_SIZE then (ci_max_write ci + FUSE_BUFFER_HEADER_SIZE) mod 2 ^ 32 else is_bufsize se)"

definition do_init_after :: "fuse_init_in \<Rightarrow> init_session \<Rightarrow> init_session \<times> init_reply" where
  "do_init_after arg se =
    (let ci = is_conn se; failed = (se\<lparr>is_error := - EPROTO, is_exited := True\<rparr>, Init_err EPROTO)
     in if has_bits (ci_want ci) (NOT (ci_capable ci)) then failed
        else if ci_max_read ci \<noteq> is_mo_max_read se then failed
        else
         let bufsize = init_final_bufsize se;
             pages = has_bits (ucast (ii_flags arg)) FUSE_MAX_PAGES;
             max_pages = (if pages then (((ci_max_write ci + (2 ^ 32 - 1)) mod 2 ^ 32) div PAGE_SIZE + 1) mod 2 ^ 16 else 0);
             inargflags = init_inargflags arg;
             outargflags = init_outargflags inargflags (if pages then FUSE_MAX_PAGES else 0) (ci_want ci);
             ci' = init_limits ci;
             outarg = empty_init_out\<lparr>io_max_readahead := ci_max_readahead ci, io_flags := ucast outargflags,
               io_max_background := (if ci_proto_minor ci < 13 then 0 else ci_max_background ci'),
               io_congestion_threshold := (if ci_proto_minor ci < 13 then 0 else ci_congestion_threshold ci'),
               io_max_write := ci_max_write ci, io_time_gran := (if ci_proto_minor ci < 23 then 0 else ci_time_gran ci),
               io_max_pages := max_pages,
               io_flags2 := (if has_bits inargflags FUSE_INIT_EXT then ucast (drop_bit 32 outargflags) else 0)\<rparr>;
             outargsize = (if ii_minor arg < 5 then FUSE_COMPAT_INIT_OUT_SIZE
                           else if ii_minor arg < 23 then FUSE_COMPAT_22_INIT_OUT_SIZE else INIT_OUT_SIZE)
         in (se\<lparr>is_bufsize := bufsize, is_conn := ci'\<rparr>, Init_ok outarg outargsize))"

definition init_reset :: "fuse_init_in \<Rightarrow> init_session \<Rightarrow> init_session" where
  "init_reset arg se = se\<lparr>is_conn := (is_conn se)\<lparr>ci_proto_major := ii_major arg, ci_proto_minor := ii_minor arg, ci_capable := 0, ci_want := 0\<rparr>\<rparr>"

definition init_settled :: "fuse_init_in \<Rightarrow> init_session \<Rightarrow> init_session" where
  "init_settled arg se =
    (let se1 = do_init_before arg (init_reset arg se)
     in case is_op_init se1 of None \<Rightarrow> se1 | Some f \<Rightarrow> se1\<lparr>is_conn := f (is_conn se1)\<rparr>)"

definition do_init :: "fuse_init_in \<Rightarrow> init_session \<Rightarrow> init_session \<times> init_reply" where
  "do_init arg se =
    (if ii_major arg < 7 then (init_reset arg se, Init_err EPROTO)
     else if 7 < ii_major arg then (init_reset arg se, Init_ok empty_init_out INIT_OUT_SIZE)
     else do_init_after arg (init_settled arg se))"

subsection \<open>The kernel takes the answer\<close>

text \<open>
  The connection and the superblock fields that \<open>process_init_reply\<close> sets. The module parameters \<open>max_user_bgreq\<close> and
  \<open>max_user_congthresh\<close> are global and passed along; the other inputs are the caller's privilege, the size of the memory and whether DAX is built in.
\<close>

record kern_conn =
  kc_async_read :: bool
  kc_no_lock :: bool
  kc_no_flock :: bool
  kc_atomic_o_trunc :: bool
  kc_export_support :: bool
  kc_big_writes :: bool
  kc_dont_mask :: bool
  kc_auto_inval_data :: bool
  kc_explicit_inval_data :: bool
  kc_do_readdirplus :: bool
  kc_readdirplus_auto :: bool
  kc_async_dio :: bool
  kc_writeback_cache :: bool
  kc_parallel_dirops :: bool
  kc_handle_killpriv :: bool
  kc_default_permissions :: bool
  kc_posix_acl :: bool
  kc_cache_symlinks :: bool
  kc_abort_err :: bool
  kc_inode_dax :: bool
  kc_handle_killpriv_v2 :: bool
  kc_setxattr_ext :: bool
  kc_init_security :: bool
  kc_dax :: bool
  kc_max_pages :: nat
  kc_max_pages_limit :: nat
  kc_max_background :: nat
  kc_congestion_threshold :: nat
  kc_max_read :: nat
  kc_max_write :: nat
  kc_minor :: nat
  kc_conn_init :: bool
  kc_conn_error :: bool
  kc_initialized :: bool
  kc_ra_pages :: nat
  kc_s_time_gran :: nat
  kc_s_nosec :: bool
  kc_s_acl_xattr :: bool

record kern_env =
  ke_cap_sys_admin :: bool
  ke_totalram_pages :: nat
  ke_config_dax :: bool

definition FUSE_DAX_SHIFT :: nat where "FUSE_DAX_SHIFT = 21"

definition fuse_dax_check_alignment :: "kern_conn \<Rightarrow> nat \<Rightarrow> bool" where
  "fuse_dax_check_alignment fc map_alignment \<longleftrightarrow> \<not> (kc_dax fc \<and> FUSE_DAX_SHIFT < map_alignment)"

definition sanitize_global_limit :: "nat \<Rightarrow> nat \<Rightarrow> nat" where
  "sanitize_global_limit totalram limit =
     (let l = (if limit = 0 then (((totalram * 2 ^ 12) mod 2 ^ 64) div 2 ^ 13 div 392) mod 2 ^ 32 else limit)
      in if 2 ^ 16 \<le> l then 2 ^ 16 - 1 else l)"

definition process_init_limits :: "kern_env \<Rightarrow> fuse_init_out \<Rightarrow> (nat \<times> nat) \<times> kern_conn \<Rightarrow> (nat \<times> nat) \<times> kern_conn" where
  "process_init_limits env arg = (\<lambda>((bgreq, congthresh), fc).
     if io_minor arg < 13 then ((bgreq, congthresh), fc)
     else
      let bgreq' = sanitize_global_limit (ke_totalram_pages env) bgreq;
          congthresh' = sanitize_global_limit (ke_totalram_pages env) congthresh;
          fc1 = (if io_max_background arg \<noteq> 0
                 then fc\<lparr>kc_max_background := (if \<not> ke_cap_sys_admin env \<and> bgreq' < io_max_background arg then bgreq' else io_max_background arg)\<rparr>
                 else fc);
          fc2 = (if io_congestion_threshold arg \<noteq> 0
                 then fc1\<lparr>kc_congestion_threshold :=
                   (if \<not> ke_cap_sys_admin env \<and> congthresh' < io_congestion_threshold arg then congthresh' else io_congestion_threshold arg)\<rparr>
                 else fc1)
      in ((bgreq', congthresh'), fc2))"

definition init_reply_flags :: "fuse_init_out \<Rightarrow> 64 word" where
  "init_reply_flags arg = ucast (io_flags arg) OR push_bit 32 (ucast (io_flags2 arg))"

text \<open>The features of a reply of version 7.6 or later.\<close>

definition process_init_flags :: "kern_env \<Rightarrow> fuse_init_out \<Rightarrow> kern_conn \<Rightarrow> kern_conn" where
  "process_init_flags env arg fc =
    (let has = has_bits (init_reply_flags arg)
     in fc\<lparr>
       kc_async_read := kc_async_read fc \<or> has FUSE_ASYNC_READ,
       kc_no_lock := kc_no_lock fc \<or> \<not> has FUSE_POSIX_LOCKS,
       kc_no_flock := kc_no_flock fc \<or> (if 17 \<le> io_minor arg then \<not> has FUSE_FLOCK_LOCKS else \<not> has FUSE_POSIX_LOCKS),
       kc_atomic_o_trunc := kc_atomic_o_trunc fc \<or> has FUSE_ATOMIC_O_TRUNC,
       kc_export_support := kc_export_support fc \<or> (9 \<le> io_minor arg \<and> has FUSE_EXPORT_SUPPORT),
       kc_big_writes := kc_big_writes fc \<or> has FUSE_BIG_WRITES,
       kc_dont_mask := kc_dont_mask fc \<or> has FUSE_DONT_MASK,
       kc_auto_inval_data := kc_auto_inval_data fc \<or> has FUSE_AUTO_INVAL_DATA,
       kc_explicit_inval_data := kc_explicit_inval_data fc \<or> (\<not> has FUSE_AUTO_INVAL_DATA \<and> has FUSE_EXPLICIT_INVAL_DATA),
       kc_do_readdirplus := kc_do_readdirplus fc \<or> has FUSE_DO_READDIRPLUS,
       kc_readdirplus_auto := kc_readdirplus_auto fc \<or> (has FUSE_DO_READDIRPLUS \<and> has FUSE_READDIRPLUS_AUTO),
       kc_async_dio := kc_async_dio fc \<or> has FUSE_ASYNC_DIO,
       kc_writeback_cache := kc_writeback_cache fc \<or> has FUSE_WRITEBACK_CACHE,
       kc_parallel_dirops := kc_parallel_dirops fc \<or> has FUSE_PARALLEL_DIROPS,
       kc_handle_killpriv := kc_handle_killpriv fc \<or> has FUSE_HANDLE_KILLPRIV,
       kc_s_time_gran := (if io_time_gran arg \<noteq> 0 \<and> io_time_gran arg \<le> 1000000000 then io_time_gran arg else kc_s_time_gran fc),
       kc_default_permissions := kc_default_permissions fc \<or> has FUSE_POSIX_ACL,
       kc_posix_acl := kc_posix_acl fc \<or> has FUSE_POSIX_ACL,
       kc_s_acl_xattr := kc_s_acl_xattr fc \<or> has FUSE_POSIX_ACL,
       kc_cache_symlinks := kc_cache_symlinks fc \<or> has FUSE_CACHE_SYMLINKS,
       kc_abort_err := kc_abort_err fc \<or> has FUSE_ABORT_ERROR,
       kc_max_pages := (if has FUSE_MAX_PAGES then min (kc_max_pages_limit fc) (max (io_max_pages arg) 1) else kc_max_pages fc),
       kc_inode_dax := kc_inode_dax fc \<or> (ke_config_dax env \<and> has FUSE_HAS_INODE_DAX),
       kc_handle_killpriv_v2 := kc_handle_killpriv_v2 fc \<or> has FUSE_HANDLE_KILLPRIV_V2,
       kc_s_nosec := kc_s_nosec fc \<or> has FUSE_HANDLE_KILLPRIV_V2,
       kc_setxattr_ext := kc_setxattr_ext fc \<or> has FUSE_SETXATTR_EXT,
       kc_init_security := kc_init_security fc \<or> has FUSE_SECURITY_CTX\<rparr>)"

definition process_init_reply :: "kern_env \<Rightarrow> fuse_init_out \<Rightarrow> int \<Rightarrow> (nat \<times> nat) \<times> kern_conn \<Rightarrow> (nat \<times> nat) \<times> kern_conn" where
  "process_init_reply env arg error = (\<lambda>(gl, fc).
     if error \<noteq> 0 \<or> io_major arg \<noteq> FUSE_KERNEL_VERSION
     then (gl, fc\<lparr>kc_conn_init := False, kc_conn_error := True, kc_initialized := True\<rparr>)
     else
      let (gl', fc1) = process_init_limits env arg (gl, fc);
          modern = 6 \<le> io_minor arg;
          dax_bad = (modern \<and> ke_config_dax env \<and> has_bits (init_reply_flags arg) FUSE_MAP_ALIGNMENT \<and>
                     \<not> fuse_dax_check_alignment fc1 (io_map_alignment arg));
          ra_pages = (if modern then io_max_readahead arg else kc_max_read fc1) div PAGE_SIZE;
          fc2 = (if modern then process_init_flags env arg fc1 else fc1\<lparr>kc_no_lock := True, kc_no_flock := True\<rparr>);
          fc3 = fc2\<lparr>kc_ra_pages := min (kc_ra_pages fc2) ra_pages, kc_minor := io_minor arg,
                    kc_max_write := max 4096 (if io_minor arg < 5 then 4096 else io_max_write arg), kc_conn_init := True\<rparr>;
          fc4 = (if dax_bad then fc3\<lparr>kc_conn_init := False, kc_conn_error := True\<rparr> else fc3)
      in (gl', fc4\<lparr>kc_initialized := True\<rparr>))"

text \<open>The fields of a connection after \<open>fuse_conn_init\<close>; the mount then sets \<open>default_permissions\<close>, \<open>max_read\<close>, DAX and the readahead of its device.\<close>

definition fuse_conn_fresh :: "bool \<Rightarrow> nat \<Rightarrow> bool \<Rightarrow> nat \<Rightarrow> kern_conn" where
  "fuse_conn_fresh default_permissions max_read dax ra_pages =
    \<lparr>kc_async_read = False, kc_no_lock = False, kc_no_flock = False, kc_atomic_o_trunc = False, kc_export_support = False,
     kc_big_writes = False, kc_dont_mask = False, kc_auto_inval_data = False, kc_explicit_inval_data = False,
     kc_do_readdirplus = False, kc_readdirplus_auto = False, kc_async_dio = False, kc_writeback_cache = False,
     kc_parallel_dirops = False, kc_handle_killpriv = False, kc_default_permissions = default_permissions, kc_posix_acl = False,
     kc_cache_symlinks = False, kc_abort_err = False, kc_inode_dax = False, kc_handle_killpriv_v2 = False,
     kc_setxattr_ext = False, kc_init_security = False, kc_dax = dax, kc_max_pages = FUSE_DEFAULT_MAX_PAGES_PER_REQ,
     kc_max_pages_limit = FUSE_MAX_MAX_PAGES, kc_max_background = 12, kc_congestion_threshold = 9, kc_max_read = max_read,
     kc_max_write = 0, kc_minor = 0, kc_conn_init = False, kc_conn_error = False, kc_initialized = False, kc_ra_pages = ra_pages,
     kc_s_time_gran = 1, kc_s_nosec = False, kc_s_acl_xattr = False\<rparr>"

subsection \<open>The handshake\<close>

text \<open>The reply as the kernel sees it: the request is zeroed before, so a short reply leaves zeros.\<close>

definition received_out :: "fuse_init_out \<Rightarrow> nat \<Rightarrow> fuse_init_out" where
  "received_out arg sz =
     (if sz < FUSE_COMPAT_22_INIT_OUT_SIZE
      then arg\<lparr>io_max_readahead := 0, io_flags := 0, io_max_background := 0, io_congestion_threshold := 0, io_max_write := 0,
               io_time_gran := 0, io_max_pages := 0, io_map_alignment := 0, io_flags2 := 0\<rparr>
      else if sz < INIT_OUT_SIZE then arg\<lparr>io_time_gran := 0, io_max_pages := 0, io_map_alignment := 0, io_flags2 := 0\<rparr>
      else arg)"

definition init_handshake :: "nat \<Rightarrow> kern_env \<Rightarrow> mount_conf \<Rightarrow> (nat \<times> nat) \<times> kern_conn \<Rightarrow> init_session \<Rightarrow>
    ((nat \<times> nat) \<times> kern_conn) \<times> init_session" where
  "init_handshake kminor env mc k se =
    (case do_init (fuse_send_init kminor mc (kc_ra_pages (snd k))) se of
       (se', Init_err e) \<Rightarrow> (process_init_reply env (received_out empty_init_out 0) (- e) k, se')
     | (se', Init_ok out sz) \<Rightarrow> (process_init_reply env (received_out out sz) 0 k, se'))"


subsection \<open>Bits\<close>

lemma has_bits_or [simp]: "has_bits (a OR b) k \<longleftrightarrow> has_bits a k \<or> has_bits b k"
  by (simp add: has_bits_def bit.conj_disj_distrib2 or_eq_0_iff)

lemma has_bits_zero [simp]: "\<not> has_bits 0 k"
  by (simp add: has_bits_def)

lemma has_bits_add_flags: "has_bits (add_flags ps w) k \<longleftrightarrow> has_bits w k \<or> (\<exists>(c, f) \<in> set ps. c \<and> has_bits f k)"
  by (induction ps w rule: add_flags.induct) auto

lemma has_bits_if [simp]: "has_bits (if c then a else b) k \<longleftrightarrow> (if c then has_bits a k else has_bits b k)"
  by simp

lemma word_split_64: "ucast (ucast w :: 32 word) OR push_bit 32 (ucast (ucast (drop_bit 32 w) :: 32 word)) = (w :: 64 word)"
  by (rule bit_word_eqI) (auto simp: bit_simps not_less)

lemma ucast_low: "ucast (ucast w :: 32 word) = w AND mask 32" for w :: "64 word"
  by (rule bit_word_eqI) (auto simp: bit_simps)

lemma has_bits_low: "k AND mask 32 = k \<Longrightarrow> has_bits (ucast (ucast w :: 32 word)) k = has_bits (w :: 64 word) k"
  unfolding has_bits_def ucast_low and.assoc and.commute[of "mask 32"] by simp

lemma reply_flags_sent: "io_flags out = ucast w \<Longrightarrow> io_flags2 out = ucast (drop_bit 32 w) \<Longrightarrow> init_reply_flags out = w"
  by (simp add: init_reply_flags_def word_split_64)

text \<open>What the kernel offers arrives in full.\<close>

lemma offered_has:
  "has_bits (offered_flags mc) FUSE_INIT_EXT" "has_bits (offered_flags mc) FUSE_MAX_PAGES"
  unfolding offered_flags_def has_bits_add_flags by (simp_all add: has_bits_def init_flag_defs)

lemma sent_flag_low:
  "has_bits (ucast (ii_flags (fuse_send_init kminor mc ra))) FUSE_INIT_EXT"
  "has_bits (ucast (ii_flags (fuse_send_init kminor mc ra))) FUSE_MAX_PAGES"
proof -
  have m: "FUSE_INIT_EXT AND mask 32 = FUSE_INIT_EXT" "FUSE_MAX_PAGES AND mask 32 = FUSE_MAX_PAGES"
    by (simp_all add: init_flag_defs mask_numeral)
  show "has_bits (ucast (ii_flags (fuse_send_init kminor mc ra))) FUSE_INIT_EXT"
    and "has_bits (ucast (ii_flags (fuse_send_init kminor mc ra))) FUSE_MAX_PAGES"
    by (simp_all add: fuse_send_init_def has_bits_low m offered_has)
qed

lemma inargflags_sent: "6 \<le> kminor \<Longrightarrow> init_inargflags (fuse_send_init kminor mc ra) = offered_flags mc"
  using sent_flag_low(1)[of kminor mc ra] by (simp add: init_inargflags_def fuse_send_init_def word_split_64 Let_def)


lemma outargflags_has:
  fixes want inarg
  defines "w \<equiv> init_outargflags inarg FUSE_MAX_PAGES want"
  shows "has_bits w FUSE_BIG_WRITES" "has_bits w FUSE_MAX_PAGES"
    "has_bits w FUSE_ASYNC_READ \<longleftrightarrow> has_bits want FUSE_CAP_ASYNC_READ"
    "has_bits w FUSE_POSIX_LOCKS \<longleftrightarrow> has_bits want FUSE_CAP_POSIX_LOCKS"
    "has_bits w FUSE_FLOCK_LOCKS \<longleftrightarrow> has_bits want FUSE_CAP_FLOCK_LOCKS"
    "has_bits w FUSE_ATOMIC_O_TRUNC \<longleftrightarrow> has_bits want FUSE_CAP_ATOMIC_O_TRUNC"
    "has_bits w FUSE_EXPORT_SUPPORT \<longleftrightarrow> has_bits want FUSE_CAP_EXPORT_SUPPORT"
    "has_bits w FUSE_DONT_MASK \<longleftrightarrow> has_bits want FUSE_CAP_DONT_MASK"
    "has_bits w FUSE_AUTO_INVAL_DATA \<longleftrightarrow> has_bits want FUSE_CAP_AUTO_INVAL_DATA"
    "has_bits w FUSE_EXPLICIT_INVAL_DATA \<longleftrightarrow> has_bits want FUSE_CAP_EXPLICIT_INVAL_DATA"
    "has_bits w FUSE_DO_READDIRPLUS \<longleftrightarrow> has_bits want FUSE_CAP_READDIRPLUS"
    "has_bits w FUSE_READDIRPLUS_AUTO \<longleftrightarrow> has_bits want FUSE_CAP_READDIRPLUS_AUTO"
    "has_bits w FUSE_ASYNC_DIO \<longleftrightarrow> has_bits want FUSE_CAP_ASYNC_DIO"
    "has_bits w FUSE_WRITEBACK_CACHE \<longleftrightarrow> has_bits want FUSE_CAP_WRITEBACK_CACHE"
    "has_bits w FUSE_POSIX_ACL \<longleftrightarrow> has_bits want FUSE_CAP_POSIX_ACL"
    "has_bits w FUSE_CACHE_SYMLINKS \<longleftrightarrow> has_bits want FUSE_CAP_CACHE_SYMLINKS"
    "has_bits w FUSE_SETXATTR_EXT \<longleftrightarrow> has_bits want FUSE_CAP_SETXATTR_EXT"
    "\<not> has_bits w FUSE_PARALLEL_DIROPS" "\<not> has_bits w FUSE_HANDLE_KILLPRIV" "\<not> has_bits w FUSE_ABORT_ERROR"
    "\<not> has_bits w FUSE_HANDLE_KILLPRIV_V2" "\<not> has_bits w FUSE_SECURITY_CTX" "\<not> has_bits w FUSE_HAS_INODE_DAX"
    "\<not> has_bits w FUSE_MAP_ALIGNMENT"
  unfolding w_def init_outargflags_def has_bits_add_flags by (simp_all add: has_bits_def init_flag_defs)

subsection \<open>Both sides agree\<close>

definition init_rejected :: "init_session \<Rightarrow> bool" where
  "init_rejected s \<longleftrightarrow> has_bits (ci_want (is_conn s)) (NOT (ci_capable (is_conn s))) \<or> ci_max_read (is_conn s) \<noteq> is_mo_max_read s"

lemma do_init_after_rejected:
  "init_rejected s \<Longrightarrow> do_init_after arg s = (s\<lparr>is_error := - EPROTO, is_exited := True\<rparr>, Init_err EPROTO)"
  by (auto simp: do_init_after_def init_rejected_def Let_def)

lemma do_init_sent: "do_init (fuse_send_init kminor mc ra) se =
    do_init_after (fuse_send_init kminor mc ra) (init_settled (fuse_send_init kminor mc ra) se)"
  by (simp add: do_init_def fuse_send_init_def FUSE_KERNEL_VERSION_def)

text \<open>The reply of a session that is not rejected, to a kernel of version 7.36 or later.\<close>

lemma do_init_after_accepted:
  assumes "\<not> init_rejected s" and "36 \<le> kminor"
  obtains out where "do_init_after (fuse_send_init kminor mc ra) s = (s\<lparr>is_bufsize := init_final_bufsize s, is_conn := init_limits (is_conn s)\<rparr>, Init_ok out INIT_OUT_SIZE)"
    and "io_major out = FUSE_KERNEL_VERSION" and "io_minor out = FUSE_KERNEL_MINOR_VERSION" and "io_max_write out = ci_max_write (is_conn s)"
    and "init_reply_flags out = init_outargflags (offered_flags mc) FUSE_MAX_PAGES (ci_want (is_conn s))"
    and "io_max_pages out = (((ci_max_write (is_conn s) + (2 ^ 32 - 1)) mod 2 ^ 32) div PAGE_SIZE + 1) mod 2 ^ 16"
  using assms sent_flag_low[of kminor mc ra] offered_has[of mc] inargflags_sent[of kminor mc ra]
  by (simp add: do_init_after_def init_rejected_def Let_def empty_init_out_def reply_flags_sent) (simp add: fuse_send_init_def)

lemma process_init_limits_keeps:
  assumes "process_init_limits env arg (gl, fc) = (gl', fc')"
  obtains mb ct where "fc' = fc\<lparr>kc_max_background := mb, kc_congestion_threshold := ct\<rparr>"
proof
  show "fc' = fc\<lparr>kc_max_background := kc_max_background fc', kc_congestion_threshold := kc_congestion_threshold fc'\<rparr>"
    using assms by (cases gl) (auto simp: process_init_limits_def Let_def split: if_splits)
qed


lemma process_init_reply_accepted:
  assumes "io_major out = FUSE_KERNEL_VERSION" and "io_minor out = FUSE_KERNEL_MINOR_VERSION" and "\<not> has_bits (init_reply_flags out) FUSE_MAP_ALIGNMENT"
    and "process_init_reply env out 0 (gl, fc) = (gl', fc')"
  obtains mb ct where "fc' = (process_init_flags env out (fc\<lparr>kc_max_background := mb, kc_congestion_threshold := ct\<rparr>))
     \<lparr>kc_ra_pages := min (kc_ra_pages fc) (io_max_readahead out div PAGE_SIZE), kc_minor := FUSE_KERNEL_MINOR_VERSION,
      kc_max_write := max 4096 (io_max_write out), kc_conn_init := True, kc_initialized := True\<rparr>"
proof -
  obtain gl1 fc1 where pl: "process_init_limits env out (gl, fc) = (gl1, fc1)" by (cases "process_init_limits env out (gl, fc)")
  from process_init_limits_keeps[OF pl] obtain mb ct where fc1: "fc1 = fc\<lparr>kc_max_background := mb, kc_congestion_threshold := ct\<rparr>" .
  have "fc' = (process_init_flags env out (fc\<lparr>kc_max_background := mb, kc_congestion_threshold := ct\<rparr>))
     \<lparr>kc_ra_pages := min (kc_ra_pages fc) (io_max_readahead out div PAGE_SIZE), kc_minor := FUSE_KERNEL_MINOR_VERSION,
      kc_max_write := max 4096 (io_max_write out), kc_conn_init := True, kc_initialized := True\<rparr>"
    using assms pl by (auto simp: process_init_reply_def Let_def FUSE_KERNEL_MINOR_VERSION_def fc1 process_init_flags_def)
  then show thesis by (rule that)
qed

text \<open>What a handshake that is not rejected comes to.\<close>

lemma init_handshake_accepted:
  assumes "36 \<le> kminor" and "init_handshake kminor env mc (gl, fc) se = ((gl', fc'), se')"
    and "s = init_settled (fuse_send_init kminor mc (kc_ra_pages fc)) se" and "\<not> init_rejected s"
  obtains out mb ct where "fc' = (process_init_flags env out (fc\<lparr>kc_max_background := mb, kc_congestion_threshold := ct\<rparr>))
     \<lparr>kc_ra_pages := min (kc_ra_pages fc) (io_max_readahead out div PAGE_SIZE), kc_minor := FUSE_KERNEL_MINOR_VERSION,
      kc_max_write := max 4096 (ci_max_write (is_conn s)), kc_conn_init := True, kc_initialized := True\<rparr>"
    and "io_minor out = FUSE_KERNEL_MINOR_VERSION"
    and "init_reply_flags out = init_outargflags (offered_flags mc) FUSE_MAX_PAGES (ci_want (is_conn s))"
    and "io_max_pages out = (((ci_max_write (is_conn s) + (2 ^ 32 - 1)) mod 2 ^ 32) div PAGE_SIZE + 1) mod 2 ^ 16"
    and "se' = s\<lparr>is_bufsize := init_final_bufsize s, is_conn := init_limits (is_conn s)\<rparr>"
proof -
  from do_init_after_accepted[OF assms(4,1)] obtain out
    where d: "do_init_after (fuse_send_init kminor mc (kc_ra_pages fc)) s = (s\<lparr>is_bufsize := init_final_bufsize s, is_conn := init_limits (is_conn s)\<rparr>, Init_ok out INIT_OUT_SIZE)"
    and out: "io_major out = FUSE_KERNEL_VERSION" "io_minor out = FUSE_KERNEL_MINOR_VERSION" "io_max_write out = ci_max_write (is_conn s)"
      "init_reply_flags out = init_outargflags (offered_flags mc) FUSE_MAX_PAGES (ci_want (is_conn s))"
      "io_max_pages out = (((ci_max_write (is_conn s) + (2 ^ 32 - 1)) mod 2 ^ 32) div PAGE_SIZE + 1) mod 2 ^ 16" .
  have r: "received_out out INIT_OUT_SIZE = out" by (simp add: received_out_def init_size_defs)
  have k: "process_init_reply env out 0 (gl, fc) = (gl', fc')"
    using assms(2,3) d r by (simp add: init_handshake_def do_init_sent)
  have m: "\<not> has_bits (init_reply_flags out) FUSE_MAP_ALIGNMENT" unfolding out(4) by (rule outargflags_has)
  obtain mb ct where "fc' = (process_init_flags env out (fc\<lparr>kc_max_background := mb, kc_congestion_threshold := ct\<rparr>))
     \<lparr>kc_ra_pages := min (kc_ra_pages fc) (io_max_readahead out div PAGE_SIZE), kc_minor := FUSE_KERNEL_MINOR_VERSION,
      kc_max_write := max 4096 (io_max_write out), kc_conn_init := True, kc_initialized := True\<rparr>"
    by (rule process_init_reply_accepted[OF out(1,2) m k])
  moreover have "se' = fst (do_init_after (fuse_send_init kminor mc (kc_ra_pages fc)) s)"
    using assms(2,3) d by (simp add: init_handshake_def do_init_sent)
  ultimately show thesis using that out d by simp
qed

text \<open>
  Claim C7 (init_features_agree). After the handshake, between a kernel of version 7.36 or later with a new connection and any session, the
  connection fails exactly if the file system asked for a capability that the kernel lacks or for another read size than the mount's; the session
  has then exited. Otherwise the connection is usable and its features are exactly those the file system wants: asynchronous reads and direct I/O,
  POSIX and \<open>flock\<close> locks, truncation on open, export, no umask, both ways of invalidation (the automatic one first), readdirplus (its automatic mode
  only with readdirplus), write-back, ACLs (with permission checks), cached symlinks and extended \<open>setxattr\<close>; big writes always. Parallel directory
  operations and the clearing of privileges by the file system are never enabled, even if wanted.
\<close>

theorem init_features_agree:
  assumes "36 \<le> kminor"
    and "init_handshake kminor env mc (gl, fuse_conn_fresh dp mr dax ra) se = ((gl', fc), se')"
    and "s = init_settled (fuse_send_init kminor mc ra) se" and "want = ci_want (is_conn s)"
  shows "kc_initialized fc \<and>
    (if has_bits want (NOT (ci_capable (is_conn s))) \<or> ci_max_read (is_conn s) \<noteq> is_mo_max_read s
     then kc_conn_error fc \<and> \<not> kc_conn_init fc \<and> is_exited se' \<and> is_error se' = - EPROTO
     else \<not> kc_conn_error fc \<and> kc_conn_init fc \<and> (is_exited se' \<longleftrightarrow> is_exited s) \<and> kc_big_writes fc \<and>
       (kc_async_read fc \<longleftrightarrow> has_bits want FUSE_CAP_ASYNC_READ) \<and>
       (kc_no_lock fc \<longleftrightarrow> \<not> has_bits want FUSE_CAP_POSIX_LOCKS) \<and>
       (kc_no_flock fc \<longleftrightarrow> \<not> has_bits want FUSE_CAP_FLOCK_LOCKS) \<and>
       (kc_atomic_o_trunc fc \<longleftrightarrow> has_bits want FUSE_CAP_ATOMIC_O_TRUNC) \<and>
       (kc_export_support fc \<longleftrightarrow> has_bits want FUSE_CAP_EXPORT_SUPPORT) \<and>
       (kc_dont_mask fc \<longleftrightarrow> has_bits want FUSE_CAP_DONT_MASK) \<and>
       (kc_auto_inval_data fc \<longleftrightarrow> has_bits want FUSE_CAP_AUTO_INVAL_DATA) \<and>
       (kc_explicit_inval_data fc \<longleftrightarrow> has_bits want FUSE_CAP_EXPLICIT_INVAL_DATA \<and> \<not> has_bits want FUSE_CAP_AUTO_INVAL_DATA) \<and>
       (kc_do_readdirplus fc \<longleftrightarrow> has_bits want FUSE_CAP_READDIRPLUS) \<and>
       (kc_readdirplus_auto fc \<longleftrightarrow> has_bits want FUSE_CAP_READDIRPLUS \<and> has_bits want FUSE_CAP_READDIRPLUS_AUTO) \<and>
       (kc_async_dio fc \<longleftrightarrow> has_bits want FUSE_CAP_ASYNC_DIO) \<and>
       (kc_writeback_cache fc \<longleftrightarrow> has_bits want FUSE_CAP_WRITEBACK_CACHE) \<and>
       (kc_posix_acl fc \<longleftrightarrow> has_bits want FUSE_CAP_POSIX_ACL) \<and>
       (kc_default_permissions fc \<longleftrightarrow> dp \<or> has_bits want FUSE_CAP_POSIX_ACL) \<and>
       (kc_cache_symlinks fc \<longleftrightarrow> has_bits want FUSE_CAP_CACHE_SYMLINKS) \<and>
       (kc_setxattr_ext fc \<longleftrightarrow> has_bits want FUSE_CAP_SETXATTR_EXT) \<and>
       \<not> kc_parallel_dirops fc \<and> \<not> kc_handle_killpriv fc \<and> \<not> kc_handle_killpriv_v2 fc \<and> \<not> kc_abort_err fc)"
proof (cases "init_rejected s")
  case True
  with assms show ?thesis
    by (auto simp: init_handshake_def fuse_conn_fresh_def do_init_sent do_init_after_rejected process_init_reply_def EPROTO_def init_rejected_def)
next
  case False
  have s: "s = init_settled (fuse_send_init kminor mc (kc_ra_pages (fuse_conn_fresh dp mr dax ra))) se"
    using assms(3) by (simp add: fuse_conn_fresh_def)
  show ?thesis
  proof (rule init_handshake_accepted[OF assms(1,2) s False])
    fix out mb ct
    assume "fc = (process_init_flags env out ((fuse_conn_fresh dp mr dax ra)\<lparr>kc_max_background := mb, kc_congestion_threshold := ct\<rparr>))
     \<lparr>kc_ra_pages := min (kc_ra_pages (fuse_conn_fresh dp mr dax ra)) (io_max_readahead out div PAGE_SIZE), kc_minor := FUSE_KERNEL_MINOR_VERSION,
      kc_max_write := max 4096 (ci_max_write (is_conn s)), kc_conn_init := True, kc_initialized := True\<rparr>"
      and "io_minor out = FUSE_KERNEL_MINOR_VERSION"
      and "init_reply_flags out = init_outargflags (offered_flags mc) FUSE_MAX_PAGES (ci_want (is_conn s))"
      and "se' = s\<lparr>is_bufsize := init_final_bufsize s, is_conn := init_limits (is_conn s)\<rparr>"
    with False show ?thesis
      unfolding init_rejected_def assms(4)[symmetric]
      by (simp add: process_init_flags_def outargflags_has fuse_conn_fresh_def FUSE_KERNEL_MINOR_VERSION_def Let_def) blast
  qed
qed

lemma init_bufsize_min: "FUSE_MIN_READ_BUFFER \<le> init_bufsize arg b"
  by (simp add: init_bufsize_def Let_def)

lemma init_settled_bufsize: "is_bufsize (init_settled arg se) = init_bufsize arg (is_bufsize se)"
  by (simp add: init_settled_def do_init_before_def init_reset_def Let_def split: option.split)

lemma do_init_before_max_write:
  "ci_max_write (is_conn (do_init_before arg (init_reset arg se))) =
     min (ci_max_write (is_conn se)) (init_bufsize arg (is_bufsize se) - FUSE_BUFFER_HEADER_SIZE)"
  by (simp add: do_init_before_def init_reset_def Let_def)

lemma final_bufsize_fits:
  assumes "FUSE_MIN_READ_BUFFER \<le> is_bufsize s" and "ci_max_write (is_conn s) < 2 ^ 32 - 4096"
  shows "max FUSE_MIN_READ_BUFFER (IN_HEADER_SIZE + WRITE_IN_SIZE + max 4096 (ci_max_write (is_conn s))) \<le> init_final_bufsize s \<longleftrightarrow>
    4096 \<le> ci_max_write (is_conn s) \<and> ci_max_write (is_conn s) + 80 \<le> is_bufsize s"
proof (cases "ci_max_write (is_conn s) < is_bufsize s - 4096")
  case True
  then have "init_final_bufsize s = ci_max_write (is_conn s) + 4096"
    using assms(2) by (simp add: init_final_bufsize_def FUSE_BUFFER_HEADER_SIZE_def)
  with True show ?thesis by (simp add: FUSE_MIN_READ_BUFFER_def IN_HEADER_SIZE_def WRITE_IN_SIZE_def max_def) linarith
next
  case False
  then have "init_final_bufsize s = is_bufsize s" by (simp add: init_final_bufsize_def FUSE_BUFFER_HEADER_SIZE_def)
  with False assms(1) show ?thesis by (simp add: FUSE_MIN_READ_BUFFER_def IN_HEADER_SIZE_def WRITE_IN_SIZE_def max_def) linarith
qed

lemma max_pages_of:
  assumes "0 < w" and "w \<le> FUSE_MAX_MAX_PAGES * PAGE_SIZE"
  shows "min FUSE_MAX_MAX_PAGES (max (((w + (2 ^ 32 - 1)) mod 2 ^ 32 div PAGE_SIZE + 1) mod 2 ^ 16) 1) = (w + (PAGE_SIZE - 1)) div PAGE_SIZE"
proof -
  obtain v where v: "w = Suc v" using assms(1) by (cases w) simp_all
  have "v < 1048576" using assms(2) by (simp add: v FUSE_MAX_MAX_PAGES_def PAGE_SIZE_def)
  then have q: "v div 4096 < 256" and m: "v mod 2 ^ 32 = v" by (simp_all add: less_mult_imp_div_less)
  have "(w + (2 ^ 32 - 1)) mod 2 ^ 32 = v" using m by (simp add: v)
  moreover have "(w + 4095) div 4096 = v div 4096 + 1" by (simp add: v)
  ultimately show ?thesis using q by (simp add: FUSE_MAX_MAX_PAGES_def PAGE_SIZE_def)
qed

text \<open>
  Claim C8 (init_buffer_fits). After an accepted handshake with a kernel of version 7.36 or later, the kernel accepts reads of the size of the library's
  request buffer if and only if the \<open>max_write\<close> that the file system's \<open>init\<close> left is at least 4096 and, with the two headers of a write request, within
  the buffer that was chosen before \<open>init\<close> was called. This holds whenever \<open>init\<close> leaves \<open>max_write\<close> alone and the session had one of at least 4096.
  If \<open>max_write\<close> is at most one megabyte, the pages of a kernel request are exactly those that such a write needs.
\<close>

theorem init_buffer_fits:
  assumes "36 \<le> kminor"
    and "init_handshake kminor env mc (gl, fc) se = ((gl', fc'), se')" and "\<not> kc_conn_error fc'" and "kc_max_pages_limit fc = FUSE_MAX_MAX_PAGES"
    and "arg = fuse_send_init kminor mc (kc_ra_pages fc)" and "mw = ci_max_write (is_conn (init_settled arg se))"
    and "mw < 2 ^ 32 - 4096" and "c_max_write c = kc_max_write fc'"
  shows "(read_buffer_ok c (is_bufsize se') \<longleftrightarrow> 4096 \<le> mw \<and> mw + 80 \<le> is_bufsize (do_init_before arg (init_reset arg se))) \<and>
    (mw = ci_max_write (is_conn (do_init_before arg (init_reset arg se))) \<and> 4096 \<le> ci_max_write (is_conn se) \<longrightarrow> read_buffer_ok c (is_bufsize se')) \<and>
    (0 < mw \<and> mw \<le> FUSE_MAX_MAX_PAGES * PAGE_SIZE \<longrightarrow> kc_max_pages fc' = (mw + (PAGE_SIZE - 1)) div PAGE_SIZE)"
proof -
  define s where "s = init_settled arg se"
  have b: "is_bufsize s = init_bufsize arg (is_bufsize se)" unfolding s_def by (rule init_settled_bufsize)
  have b0: "is_bufsize (do_init_before arg (init_reset arg se)) = is_bufsize s" by (simp add: b do_init_before_def init_reset_def Let_def)
  have "\<not> init_rejected s"
  proof
    assume "init_rejected s"
    then have "kc_conn_error fc'" using assms(2,5)
      by (auto simp: s_def init_handshake_def do_init_sent do_init_after_rejected process_init_reply_def EPROTO_def)
    with assms(3) show False ..
  qed
  then have "kc_max_write fc' = max 4096 mw \<and> is_bufsize se' = init_final_bufsize s \<and>
    kc_max_pages fc' = min FUSE_MAX_MAX_PAGES (max (((mw + (2 ^ 32 - 1)) mod 2 ^ 32 div PAGE_SIZE + 1) mod 2 ^ 16) 1)"
    by (rule init_handshake_accepted[OF assms(1,2) s_def[unfolded assms(5)]])
      (simp add: assms(4,6) s_def process_init_flags_def outargflags_has Let_def)
  then have k: "kc_max_write fc' = max 4096 mw" "is_bufsize se' = init_final_bufsize s"
    "kc_max_pages fc' = min FUSE_MAX_MAX_PAGES (max (((mw + (2 ^ 32 - 1)) mod 2 ^ 32 div PAGE_SIZE + 1) mod 2 ^ 16) 1)"
    by blast+
  have bm: "FUSE_MIN_READ_BUFFER \<le> is_bufsize s" unfolding b by (rule init_bufsize_min)
  have 1: "read_buffer_ok c (is_bufsize se') \<longleftrightarrow> 4096 \<le> mw \<and> mw + 80 \<le> is_bufsize s"
    using final_bufsize_fits[OF bm] assms(6,7) unfolding read_buffer_ok_def assms(8) k s_def by blast
  have 2: "4096 \<le> mw \<and> mw + 80 \<le> is_bufsize s"
    if "mw = ci_max_write (is_conn (do_init_before arg (init_reset arg se)))" "4096 \<le> ci_max_write (is_conn se)"
    using that bm unfolding do_init_before_max_write b[symmetric] FUSE_MIN_READ_BUFFER_def FUSE_BUFFER_HEADER_SIZE_def by linarith
  show ?thesis using 1 2 max_pages_of[of mw] unfolding b0 k by blast
qed

subsection \<open>A default session\<close>

text \<open>The session that \<open>fuse_session_new\<close> makes for a file system with \<open>readdir\<close> and \<open>write_buf\<close> and an \<open>init\<close> that asks for the write-back cache.\<close>

definition demo_init_session :: init_session where
  "demo_init_session =
    \<lparr>is_conn = \<lparr>ci_proto_major = 0, ci_proto_minor = 0, ci_max_write = 2 ^ 32 - 1, ci_max_read = 0, ci_max_readahead = 2 ^ 32 - 1,
       ci_capable = 0, ci_want = 0, ci_max_background = 0, ci_congestion_threshold = 0, ci_time_gran = 0\<rparr>,
     is_bufsize = FUSE_MAX_MAX_PAGES * PAGE_SIZE + FUSE_BUFFER_HEADER_SIZE, is_got_init = False, is_error = 0, is_exited = False,
     is_op_write_buf = True, is_op_getlk = False, is_op_setlk = False, is_op_flock = False, is_op_readdirplus = False, is_op_readdir = True,
     is_op_init = Some (\<lambda>ci. ci\<lparr>ci_want := ci_want ci OR FUSE_CAP_WRITEBACK_CACHE\<rparr>), is_io = None, is_mo_max_read = 0\<rparr>"

definition demo_mount_conf :: mount_conf where
  "demo_mount_conf = \<lparr>mc_dax = False, mc_inode_dax = False, mc_auto_submounts = False\<rparr>"

definition demo_init_env :: kern_env where
  "demo_init_env = \<lparr>ke_cap_sys_admin = True, ke_totalram_pages = 1000000, ke_config_dax = False\<rparr>"

lemma demo_capable: "init_capable (fuse_send_init 38 demo_mount_conf ra) (init_reset arg demo_init_session) = 0xf9fffdb"
proof -
  have "offered_flags demo_mount_conf = 0x173fffffb" by (simp add: offered_flags_def demo_mount_conf_def init_flag_defs)
  moreover have "ii_minor (fuse_send_init 38 demo_mount_conf ra) = 38" by (simp add: fuse_send_init_def)
  ultimately show ?thesis
    by (simp add: init_capable_def inargflags_sent has_bits_def init_flag_defs cap_defs init_reset_def demo_init_session_def Let_def)
qed

lemma demo_settled:
  defines "s \<equiv> init_settled (fuse_send_init 38 demo_mount_conf 32) demo_init_session"
  shows "ci_want (is_conn s) = 0x159a09" "ci_capable (is_conn s) = 0xf9fffdb" "ci_max_write (is_conn s) = 1048576" "ci_max_read (is_conn s) = is_mo_max_read s"
    "is_bufsize s = 1052672"
proof -
  have b: "init_bufsize (fuse_send_init 38 demo_mount_conf 32) 1052672 = 1052672"
    by (simp add: init_bufsize_def inargflags_sent offered_has FUSE_MIN_READ_BUFFER_def Let_def)
  have e: "is_bufsize demo_init_session = 1052672" by (simp add: demo_init_session_def init_size_defs PAGE_SIZE_def)
  show "is_bufsize s = 1052672" unfolding s_def init_settled_bufsize e b ..
  show "ci_want (is_conn s) = 0x159a09" "ci_capable (is_conn s) = 0xf9fffdb" "ci_max_read (is_conn s) = is_mo_max_read s"
    unfolding s_def init_settled_def do_init_before_def demo_capable Let_def
    by (simp_all add: init_default_want_def demo_init_session_def init_reset_def has_bits_def cap_defs)
  show "ci_max_write (is_conn s) = 1048576"
    using b by (simp add: s_def init_settled_def do_init_before_def demo_init_session_def init_reset_def init_size_defs PAGE_SIZE_def Let_def)
qed

theorem init_features_agree_witness:
  "has_bits (ci_want (is_conn (init_settled (fuse_send_init 38 demo_mount_conf 32) demo_init_session))) FUSE_CAP_PARALLEL_DIROPS \<and>
   (case init_handshake 38 demo_init_env demo_mount_conf ((0, 0), fuse_conn_fresh False 0 False 32) demo_init_session of
      ((gl, fc), se') \<Rightarrow> kc_conn_init fc \<and> kc_async_read fc \<and> kc_writeback_cache fc \<and> \<not> kc_do_readdirplus fc \<and> \<not> kc_parallel_dirops fc)"
proof -
  obtain gl fc se' where h: "init_handshake 38 demo_init_env demo_mount_conf ((0, 0), fuse_conn_fresh False 0 False 32) demo_init_session = ((gl, fc), se')"
    by (metis prod.collapse)
  show ?thesis
    using init_features_agree[OF _ h refl refl] by (simp add: h demo_settled has_bits_def cap_defs)
qed

theorem init_buffer_fits_witness:
  "case init_handshake 38 demo_init_env demo_mount_conf ((0, 0), fuse_conn_fresh False 0 False 32) demo_init_session of
     ((gl, fc), se') \<Rightarrow> read_buffer_ok ((demo_queue 0)\<lparr>c_max_write := kc_max_write fc\<rparr>) (is_bufsize se') \<and> kc_max_pages fc = 256"
proof -
  let ?fc = "fuse_conn_fresh False 0 False 32"
  obtain gl fc se' where h: "init_handshake 38 demo_init_env demo_mount_conf ((0, 0), ?fc) demo_init_session = ((gl, fc), se')"
    by (metis prod.collapse)
  have f: "kc_ra_pages ?fc = 32" "kc_max_pages_limit ?fc = FUSE_MAX_MAX_PAGES" by (simp_all add: fuse_conn_fresh_def)
  have "\<not> init_rejected (init_settled (fuse_send_init 38 demo_mount_conf (kc_ra_pages ?fc)) demo_init_session)"
    by (simp add: f init_rejected_def demo_settled has_bits_def)
  note a = init_handshake_accepted[OF _ h refl this]
  have e: "\<not> kc_conn_error fc"
    by (rule a) (simp_all add: fuse_conn_fresh_def process_init_flags_def Let_def)
  have b: "is_bufsize (do_init_before (fuse_send_init 38 demo_mount_conf 32) (init_reset (fuse_send_init 38 demo_mount_conf 32) demo_init_session)) = 1052672"
    using demo_settled(5) by (simp add: init_settled_def Let_def split: option.splits)
  show ?thesis
    using init_buffer_fits[OF _ h e f(2) refl refl, of "(demo_queue 0)\<lparr>c_max_write := kc_max_write fc\<rparr>"]
    by (simp add: h f demo_settled b FUSE_MAX_MAX_PAGES_def PAGE_SIZE_def)
qed

end
