(* ===== verification/Kern_Inode.thy ===== *)
theory Kern_Inode
  imports Fuse_Init
begin

text \<open>
  Inodes of the kernel (\<open>inode.c\<close>, \<open>dir.c\<close>): attributes with their versions, the inode of a node id (\<open>fuse_iget\<close>), what the kernel does with the reply
  to a lookup, a revalidation or the creation of an entry, and the forget that the eviction of an inode sends. Each inode counts the lookups
  that the daemon has answered for it. The inode cache of the Linux VFS is a parameter (record \<open>vfs\<close>); DAX is left out.
\<close>

subsection \<open>Attributes\<close>

definition S_IFMT :: "32 word" where "S_IFMT = 0xF000"
definition S_ISVTX :: "32 word" where "S_ISVTX = 0x200"
definition S_ISREG :: "32 word \<Rightarrow> bool" where "S_ISREG m \<longleftrightarrow> m AND S_IFMT = 0x8000"
definition S_ISDIR :: "32 word \<Rightarrow> bool" where "S_ISDIR m \<longleftrightarrow> m AND S_IFMT = 0x4000"

text \<open>Regular files, directories, symbolic links, character and block devices, pipes and sockets.\<close>

definition fuse_valid_type :: "32 word \<Rightarrow> bool" where
  "fuse_valid_type m \<longleftrightarrow> m AND S_IFMT \<in> {0x8000, 0x4000, 0xA000, 0x2000, 0x6000, 0x1000, 0xC000}"

definition FUSE_ATTR_SUBMOUNT :: "32 word" where "FUSE_ATTR_SUBMOUNT = 1"
definition NSEC_PER_SEC :: nat where "NSEC_PER_SEC = 1000000000"

record fuse_attr =
  at_ino :: "64 word"
  at_size :: "64 word"
  at_blocks :: "64 word"
  at_atime :: "nat \<times> nat"
  at_mtime :: "nat \<times> nat"
  at_ctime :: "nat \<times> nat"
  at_mode :: "32 word"
  at_nlink :: nat
  at_uid :: nat
  at_gid :: nat
  at_blksize :: nat
  at_flags :: "32 word"

definition fuse_invalid_attr :: "fuse_attr \<Rightarrow> bool" where
  "fuse_invalid_attr attr \<longleftrightarrow> \<not> fuse_valid_type (at_mode attr) \<or> 2 ^ 63 - 1 < at_size attr"

subsection \<open>Inodes\<close>

text \<open>The fields of \<open>struct inode\<close> and \<open>struct fuse_inode\<close> together; \<open>ki_hashed\<close> tells whether the inode cache finds it.\<close>

record kinode =
  ki_nodeid :: "64 word"
  ki_generation :: nat
  ki_nlookup :: "64 word"
  ki_hashed :: bool
  ki_bad :: bool
  ki_automount :: bool
  ki_attr_version :: nat
  ki_i_time :: nat
  ki_inval_mask :: "32 word"
  ki_ino :: "64 word"
  ki_mode :: "32 word"
  ki_nlink :: nat
  ki_uid :: nat
  ki_gid :: nat
  ki_blocks :: "64 word"
  ki_atime :: "nat \<times> nat"
  ki_mtime :: "nat \<times> nat"
  ki_ctime :: "nat \<times> nat"
  ki_size :: "64 word"
  ki_blkbits :: nat
  ki_orig_i_mode :: "32 word"
  ki_orig_ino :: "64 word"
  ki_size_unstable :: bool
  ki_nosec :: bool
  ki_noatime :: bool
  ki_nocmtime :: bool

definition fuse_alloc_inode :: kinode where
  "fuse_alloc_inode = \<lparr>ki_nodeid = 0, ki_generation = 0, ki_nlookup = 0, ki_hashed = False, ki_bad = False, ki_automount = False,
     ki_attr_version = 0, ki_i_time = 0, ki_inval_mask = 0, ki_ino = 0, ki_mode = 0, ki_nlink = 1, ki_uid = 0, ki_gid = 0, ki_blocks = 0,
     ki_atime = (0, 0), ki_mtime = (0, 0), ki_ctime = (0, 0), ki_size = 0, ki_blkbits = 0, ki_orig_i_mode = 0, ki_orig_ino = 0,
     ki_size_unstable = False, ki_nosec = False, ki_noatime = False, ki_nocmtime = False\<rparr>"

text \<open>The mount: the negotiated connection, automatic submounts, the mapping of user and group ids, and the block size of the superblock.\<close>

record kmount =
  km_fc :: kern_conn
  km_auto_submounts :: bool
  km_kuid :: "nat \<Rightarrow> nat"
  km_kgid :: "nat \<Rightarrow> nat"
  km_blocksize_bits :: nat

fun ilog2 :: "nat \<Rightarrow> nat" where
  "ilog2 n = (if n < 2 then 0 else ilog2 (n div 2) + 1)"

declare ilog2.simps [simp del]

text \<open>The nanoseconds of a reply are clamped.\<close>

definition sane_time :: "nat \<times> nat \<Rightarrow> nat \<times> nat" where
  "sane_time t = (fst t, min (snd t) (NSEC_PER_SEC - 1))"

text \<open>\<open>fuse_get_cache_mask\<close>: with the write-back cache the kernel's size, mtime and ctime of a regular file are the ones that count.\<close>

definition fuse_get_cache_mask :: "kmount \<Rightarrow> kinode \<Rightarrow> bool" where
  "fuse_get_cache_mask km n \<longleftrightarrow> kc_writeback_cache (km_fc km) \<and> S_ISREG (ki_mode n)"

definition fuse_change_attributes_common :: "kmount \<Rightarrow> fuse_attr \<Rightarrow> nat \<Rightarrow> bool \<Rightarrow> nat \<times> kinode \<Rightarrow> nat \<times> kinode" where
  "fuse_change_attributes_common km attr attr_valid cache_mask = (\<lambda>(attr_version, n).
     let v = attr_version + 1;
         mode = (ki_mode n AND S_IFMT) OR (at_mode attr AND 0xFFF)
     in (v, n\<lparr>ki_attr_version := v, ki_i_time := attr_valid, ki_inval_mask := 0, ki_ino := at_ino attr, ki_nlink := at_nlink attr,
         ki_uid := km_kuid km (at_uid attr), ki_gid := km_kgid km (at_gid attr), ki_blocks := at_blocks attr,
         ki_atime := sane_time (at_atime attr),
         ki_mtime := (if cache_mask then ki_mtime n else sane_time (at_mtime attr)),
         ki_ctime := (if cache_mask then ki_ctime n else sane_time (at_ctime attr)),
         ki_blkbits := (if at_blksize attr \<noteq> 0 then ilog2 (at_blksize attr) else km_blocksize_bits km),
         ki_orig_i_mode := mode,
         ki_mode := (if kc_default_permissions (km_fc km) then mode else mode AND NOT S_ISVTX),
         ki_orig_ino := at_ino attr, ki_nosec := False\<rparr>))"

datatype cache_op = Truncate_pagecache "64 word" | Invalidate_pages

definition fuse_change_attributes :: "kmount \<Rightarrow> fuse_attr \<Rightarrow> nat \<Rightarrow> nat \<Rightarrow> nat \<times> kinode \<Rightarrow> (nat \<times> kinode) \<times> cache_op list" where
  "fuse_change_attributes km attr attr_valid attr_version = (\<lambda>(cur, n).
     let cache_mask = fuse_get_cache_mask km n;
         attr' = (if cache_mask then attr\<lparr>at_size := ki_size n, at_mtime := ki_mtime n, at_ctime := ki_ctime n\<rparr> else attr)
     in if attr_version \<noteq> 0 \<and> attr_version < ki_attr_version n \<or> ki_size_unstable n then ((cur, n), [])
        else
         let (cur', n1) = fuse_change_attributes_common km attr' attr_valid cache_mask (cur, n);
             n2 = (if cache_mask then n1 else n1\<lparr>ki_size := at_size attr'\<rparr>)
         in ((cur', n2),
             if \<not> cache_mask \<and> S_ISREG (ki_mode n2)
             then (if ki_size n \<noteq> at_size attr'
                   then Truncate_pagecache (at_size attr') # (if kc_explicit_inval_data (km_fc km) then [] else [Invalidate_pages])
                   else if kc_auto_inval_data (km_fc km) \<and> ki_mtime n \<noteq> sane_time (at_mtime attr') then [Invalidate_pages] else [])
             else []))"

definition fuse_init_inode :: "fuse_attr \<Rightarrow> kinode \<Rightarrow> kinode outcome" where
  "fuse_init_inode attr n =
     (if fuse_valid_type (at_mode attr)
      then Done (n\<lparr>ki_mode := at_mode attr AND S_IFMT, ki_size := at_size attr, ki_mtime := at_mtime attr, ki_ctime := at_ctime attr\<rparr>)
      else Aborted)"

definition fuse_stale_inode :: "kinode \<Rightarrow> nat \<Rightarrow> fuse_attr \<Rightarrow> bool" where
  "fuse_stale_inode n generation attr \<longleftrightarrow> ki_generation n \<noteq> generation \<or> ki_mode n AND S_IFMT \<noteq> at_mode attr AND S_IFMT"

subsection \<open>The inode of a node id\<close>

record kstate =
  ks_inodes :: "nat \<Rightarrow> kinode option"
  ks_attr_version :: nat
  ks_conn :: fuse_conn

text \<open>
  The inode cache: \<open>iget5_locked\<close> gives the hashed inode of a node id, or a new one (\<open>I_NEW\<close>) at an unused address, or fails for lack of memory;
  \<open>new_inode\<close> gives an unused address.
\<close>

record vfs =
  v_iget5 :: "kstate \<Rightarrow> 64 word \<Rightarrow> (nat \<times> bool) option"
  v_new_inode :: "kstate \<Rightarrow> nat option"

definition vfs_ok :: "vfs \<Rightarrow> bool" where
  "vfs_ok v \<longleftrightarrow>
     (\<forall>s i a. v_iget5 v s i = Some (a, False) \<longrightarrow> (\<exists>n. ks_inodes s a = Some n \<and> ki_hashed n \<and> ki_nodeid n = i)) \<and>
     (\<forall>s i a. v_iget5 v s i = Some (a, True) \<longrightarrow>
        ks_inodes s a = None \<and> (\<forall>b n. ks_inodes s b = Some n \<and> ki_hashed n \<longrightarrow> ki_nodeid n \<noteq> i)) \<and>
     (\<forall>s a. v_new_inode v s = Some a \<longrightarrow> ks_inodes s a = None)"

definition put_inode :: "nat \<Rightarrow> kinode \<Rightarrow> kstate \<Rightarrow> kstate" where
  "put_inode a n s = s\<lparr>ks_inodes := (ks_inodes s)(a \<mapsto> n)\<rparr>"

text \<open>From the label \<open>done\<close> on: count the lookup and take the attributes.\<close>

definition iget_done :: "kmount \<Rightarrow> fuse_attr \<Rightarrow> nat \<Rightarrow> nat \<Rightarrow> nat \<Rightarrow> kinode \<Rightarrow> kstate \<Rightarrow> (nat option \<times> kstate) outcome" where
  "iget_done km attr attr_valid attr_version a n s =
     (let ((cur, n'), _) = fuse_change_attributes km attr attr_valid attr_version (ks_attr_version s, n\<lparr>ki_nlookup := ki_nlookup n + 1\<rparr>)
      in Done (Some a, put_inode a n' (s\<lparr>ks_attr_version := cur\<rparr>)))"

definition fuse_make_bad :: "nat \<Rightarrow> kinode \<Rightarrow> kstate \<Rightarrow> kstate" where
  "fuse_make_bad a n s = put_inode a (n\<lparr>ki_hashed := False, ki_bad := True\<rparr>) s"

partial_function (option) iget_retry :: "vfs \<Rightarrow> kmount \<Rightarrow> 64 word \<Rightarrow> nat \<Rightarrow> fuse_attr \<Rightarrow> nat \<Rightarrow> nat \<Rightarrow> kstate \<Rightarrow>
    (nat option \<times> kstate) outcome option" where
  "iget_retry v km i generation attr attr_valid attr_version s =
     (case v_iget5 v s i of
        None \<Rightarrow> Some (Done (None, s))
      | Some (a, is_new) \<Rightarrow>
          if is_new
          then Some (obind (fuse_init_inode attr
                 (fuse_alloc_inode\<lparr>ki_nodeid := i, ki_hashed := True, ki_noatime := True,
                    ki_nocmtime := (\<not> kc_writeback_cache (km_fc km) \<or> \<not> S_ISREG (at_mode attr)), ki_generation := generation\<rparr>))
               (\<lambda>n. iget_done km attr attr_valid attr_version a n s))
          else (case ks_inodes s a of
                  None \<Rightarrow> Some Aborted
                | Some n \<Rightarrow>
                    if fuse_stale_inode n generation attr
                    then iget_retry v km i generation attr attr_valid attr_version (fuse_make_bad a n s)
                    else Some (iget_done km attr attr_valid attr_version a n s)))"

definition fuse_iget :: "vfs \<Rightarrow> kmount \<Rightarrow> 64 word \<Rightarrow> nat \<Rightarrow> fuse_attr \<Rightarrow> nat \<Rightarrow> nat \<Rightarrow> kstate \<Rightarrow>
    (nat option \<times> kstate) outcome option" where
  "fuse_iget v km i generation attr attr_valid attr_version s =
     (if km_auto_submounts km \<and> at_flags attr AND FUSE_ATTR_SUBMOUNT \<noteq> 0 \<and> S_ISDIR (at_mode attr)
      then Some (case v_new_inode v s of
                   None \<Rightarrow> Done (None, s)
                 | Some a \<Rightarrow> obind (fuse_init_inode attr fuse_alloc_inode) (\<lambda>n.
                     iget_done km attr attr_valid attr_version a (n\<lparr>ki_nodeid := i, ki_automount := True\<rparr>) s))
      else iget_retry v km i generation attr attr_valid attr_version s)"

subsection \<open>Replies that carry an entry\<close>

record fuse_entry_out =
  eo_nodeid :: "64 word"
  eo_generation :: nat
  eo_attr :: fuse_attr
  eo_attr_valid :: nat

definition invalid_nodeid :: "64 word \<Rightarrow> bool" where
  "invalid_nodeid i \<longleftrightarrow> i = 0 \<or> i = 1"

definition queue_forget :: "64 word \<Rightarrow> 64 word \<Rightarrow> kstate \<Rightarrow> kstate" where
  "queue_forget i k s = s\<lparr>ks_conn := fuse_queue_forget i k (ks_conn s)\<rparr>"

text \<open>
  \<open>fuse_lookup_name\<close> after the reply to its request (\<open>err\<close> and \<open>outarg\<close>): the error and the inode. The version of the attributes
  was read before the request was sent.
\<close>

definition iget_or_forget :: "vfs \<Rightarrow> kmount \<Rightarrow> fuse_entry_out \<Rightarrow> nat \<Rightarrow> kstate \<Rightarrow> (int \<times> nat option \<times> kstate) outcome option" where
  "iget_or_forget v km outarg attr_version s =
     (case fuse_iget v km (eo_nodeid outarg) (eo_generation outarg) (eo_attr outarg) (eo_attr_valid outarg) attr_version s of
        None \<Rightarrow> None
      | Some r \<Rightarrow> Some (obind r (\<lambda>(inode, s').
          case inode of
            None \<Rightarrow> Done (- ENOMEM, None, queue_forget (eo_nodeid outarg) 1 s')
          | Some a \<Rightarrow> Done (0, Some a, s'))))"

definition fuse_lookup_name_reply :: "vfs \<Rightarrow> kmount \<Rightarrow> int \<Rightarrow> fuse_entry_out \<Rightarrow> nat \<Rightarrow> kstate \<Rightarrow>
    (int \<times> nat option \<times> kstate) outcome option" where
  "fuse_lookup_name_reply v km err outarg attr_version s =
     (if err \<noteq> 0 \<or> eo_nodeid outarg = 0 then Some (Done (err, None, s))
      else if fuse_invalid_attr (eo_attr outarg) then Some (Done (- EIO, None, s))
      else iget_or_forget v km outarg attr_version s)"

text \<open>\<open>create_new_entry\<close> after the reply: shared by mknod, mkdir, symlink and link; \<open>mode\<close> has the type that was asked for.\<close>

definition create_new_entry_reply :: "vfs \<Rightarrow> kmount \<Rightarrow> 32 word \<Rightarrow> int \<Rightarrow> fuse_entry_out \<Rightarrow> kstate \<Rightarrow>
    (int \<times> nat option \<times> kstate) outcome option" where
  "create_new_entry_reply v km mode err outarg s =
     (if err \<noteq> 0 then Some (Done (err, None, s))
      else if invalid_nodeid (eo_nodeid outarg) \<or> fuse_invalid_attr (eo_attr outarg) then Some (Done (- EIO, None, s))
      else if (at_mode (eo_attr outarg) XOR mode) AND S_IFMT \<noteq> 0 then Some (Done (- EIO, None, s))
      else iget_or_forget v km outarg 0 s)"

text \<open>\<open>fuse_create_open\<close> after the reply, as far as inodes are concerned.\<close>

definition fuse_create_open_reply :: "vfs \<Rightarrow> kmount \<Rightarrow> int \<Rightarrow> fuse_entry_out \<Rightarrow> kstate \<Rightarrow>
    (int \<times> nat option \<times> kstate) outcome option" where
  "fuse_create_open_reply v km err outentry s =
     (if err \<noteq> 0 then Some (Done (err, None, s))
      else if \<not> S_ISREG (at_mode (eo_attr outentry)) \<or> invalid_nodeid (eo_nodeid outentry) \<or> fuse_invalid_attr (eo_attr outentry)
      then Some (Done (- EIO, None, s))
      else iget_or_forget v km outentry 0 s)"

text \<open>
  \<open>fuse_dentry_revalidate\<close> after the reply, for the inode \<open>a\<close> of the dentry: the result is 1 (valid), 0 (invalid) or an error.
\<close>

definition fuse_dentry_revalidate_reply :: "kmount \<Rightarrow> nat \<Rightarrow> int \<Rightarrow> fuse_entry_out \<Rightarrow> nat \<Rightarrow> kstate \<Rightarrow> (int \<times> kstate) outcome" where
  "fuse_dentry_revalidate_reply km a err outarg attr_version s =
     (case ks_inodes s a of
        None \<Rightarrow> Aborted
      | Some n \<Rightarrow>
          let ret = (if err = 0 \<and> eo_nodeid outarg = 0 then - ENOENT else err)
          in if ret = 0 \<and> (eo_nodeid outarg \<noteq> ki_nodeid n \<or> ki_automount n \<noteq> (at_flags (eo_attr outarg) AND FUSE_ATTR_SUBMOUNT \<noteq> 0))
             then Done (0, queue_forget (eo_nodeid outarg) 1 s)
             else
              let n1 = (if ret = 0 then n\<lparr>ki_nlookup := ki_nlookup n + 1\<rparr> else n);
                  s1 = put_inode a n1 s
              in if ret = - ENOMEM then Done (ret, s1)
                 else if ret \<noteq> 0 \<or> fuse_invalid_attr (eo_attr outarg) \<or> fuse_stale_inode n1 (eo_generation outarg) (eo_attr outarg)
                 then Done (0, s1)
                 else (let ((cur, n2), _) = fuse_change_attributes km (eo_attr outarg) (eo_attr_valid outarg) attr_version (ks_attr_version s, n1)
                       in Done (1, put_inode a n2 (s\<lparr>ks_attr_version := cur\<rparr>))))"

definition fuse_evict_inode :: "bool \<Rightarrow> nat \<Rightarrow> kstate \<Rightarrow> kstate outcome" where
  "fuse_evict_inode sb_active a s =
     (case ks_inodes s a of
        None \<Rightarrow> Aborted
      | Some n \<Rightarrow>
          let s1 = (if sb_active \<and> ki_nlookup n \<noteq> 0 then queue_forget (ki_nodeid n) (ki_nlookup n) s else s)
          in Done (s1\<lparr>ks_inodes := (ks_inodes s1)(a := None)\<rparr>))"

subsection \<open>Attributes are never older than the last change\<close>

text \<open>Replies that carry attributes, each with the version read when its request was sent, and changes of the attributes by the kernel itself.\<close>

lemma change_attributes_kept:
  "ki_nodeid (snd (fst (fuse_change_attributes km attr valid ver p))) = ki_nodeid (snd p)"
  "ki_nlookup (snd (fst (fuse_change_attributes km attr valid ver p))) = ki_nlookup (snd p)"
  "ki_hashed (snd (fst (fuse_change_attributes km attr valid ver p))) = ki_hashed (snd p)"
  "ki_generation (snd (fst (fuse_change_attributes km attr valid ver p))) = ki_generation (snd p)"
  "ki_automount (snd (fst (fuse_change_attributes km attr valid ver p))) = ki_automount (snd p)"
  by (simp_all add: fuse_change_attributes_def fuse_change_attributes_common_def Let_def split_def)

lemma mode_type_kept:
  "((m AND S_IFMT) OR (x AND 0xFFF)) AND S_IFMT = m AND S_IFMT"
  "(((m AND S_IFMT) OR (x AND 0xFFF)) AND NOT S_ISVTX) AND S_IFMT = m AND S_IFMT" for m :: "32 word"
  unfolding S_IFMT_def S_ISVTX_def bit.conj_disj_distrib2 and.assoc by simp_all

lemma change_attributes_type:
  "ki_mode (snd (fst (fuse_change_attributes km attr valid ver p))) AND S_IFMT = ki_mode (snd p) AND S_IFMT"
  by (simp add: fuse_change_attributes_def fuse_change_attributes_common_def Let_def split_def mode_type_kept)

text \<open>A sequence of attribute replies for one inode, each with its attributes, their validity and the version read when the request was sent.\<close>

fun attr_replies :: "kmount \<Rightarrow> (fuse_attr \<times> nat \<times> nat) list \<Rightarrow> nat \<times> kinode \<Rightarrow> (nat \<times> kinode) \<times> cache_op list" where
  "attr_replies km [] p = (p, [])"
| "attr_replies km ((attr, valid, ver) # rs) p =
     (let (p', ops) = fuse_change_attributes km attr valid ver p; (p'', ops') = attr_replies km rs p' in (p'', ops @ ops'))"

lemma attr_reply_stale:
  "ver \<noteq> 0 \<Longrightarrow> ver < ki_attr_version n \<Longrightarrow> fuse_change_attributes km attr valid ver (cur, n) = ((cur, n), [])"
  by (simp add: fuse_change_attributes_def Let_def)

lemma attr_replies_stale:
  assumes "list_all (\<lambda>(attr, valid, ver). ver \<noteq> 0 \<and> ver < ki_attr_version n) rs"
  shows "attr_replies km rs (cur, n) = ((cur, n), [])"
  using assms by (induction rs) (auto simp: attr_reply_stale)

text \<open>
  Claim C21 (attributes_not_overwritten). If attributes are taken over (the reply is not older than the inode's and the size is not being changed), the inode gets
  a new version, the type of the file is kept, size and times of a regular file under the write-back cache stay the kernel's, all others are the reply's with
  nanoseconds in range, and the sticky bit is set only if the kernel checks permissions. Any number of replies to requests sent before that change
  are then ignored and touch no cached page.
\<close>

theorem attributes_not_overwritten:
  assumes "fuse_change_attributes km attr valid ver (cur, n) = ((cur', n'), ops)" and "ki_attr_version n \<le> cur"
    and "ver = 0 \<or> ki_attr_version n \<le> ver" and "\<not> ki_size_unstable n" and "list_all (\<lambda>(attr, valid, ver). ver \<noteq> 0 \<and> ver \<le> cur) rs"
  shows "cur < cur' \<and> ki_attr_version n' = cur' \<and> attr_replies km rs (cur', n') = ((cur', n'), []) \<and>
    ki_mode n' AND S_IFMT = ki_mode n AND S_IFMT \<and> ki_nlookup n' = ki_nlookup n \<and>
    (if kc_writeback_cache (km_fc km) \<and> S_ISREG (ki_mode n)
     then ki_size n' = ki_size n \<and> ki_mtime n' = ki_mtime n \<and> ki_ctime n' = ki_ctime n \<and> ops = []
     else ki_size n' = at_size attr \<and> ki_mtime n' = sane_time (at_mtime attr) \<and> ki_ctime n' = sane_time (at_ctime attr)) \<and>
    ki_atime n' = sane_time (at_atime attr) \<and> snd (ki_atime n') < NSEC_PER_SEC \<and>
    (\<not> kc_default_permissions (km_fc km) \<longrightarrow> ki_mode n' AND S_ISVTX = 0) \<and> ki_orig_i_mode n' AND 0xFFF = at_mode attr AND 0xFFF"
proof -
  define r where "r = fuse_change_attributes km attr valid ver (cur, n)"
  have taken: "(0 < ver \<and> ver < ki_attr_version n) = False" "ki_size_unstable n = False" using assms(3,4) by auto
  have m: "((m AND S_IFMT) OR (x AND 0xFFF)) AND 0xFFF = x AND 0xFFF" "(m AND NOT S_ISVTX) AND S_ISVTX = 0" for m x :: "32 word"
    unfolding S_IFMT_def S_ISVTX_def bit.conj_disj_distrib2 and.assoc by simp_all
  have v: "fst (fst r) = cur + 1" "ki_attr_version (snd (fst r)) = cur + 1"
    by (simp_all add: taken r_def fuse_change_attributes_def fuse_change_attributes_common_def Let_def split_def)
  have f: "(if fuse_get_cache_mask km n
     then ki_size (snd (fst r)) = ki_size n \<and> ki_mtime (snd (fst r)) = ki_mtime n \<and> ki_ctime (snd (fst r)) = ki_ctime n \<and> snd r = []
     else ki_size (snd (fst r)) = at_size attr \<and> ki_mtime (snd (fst r)) = sane_time (at_mtime attr) \<and>
       ki_ctime (snd (fst r)) = sane_time (at_ctime attr))"
    by (simp add: taken r_def fuse_change_attributes_def fuse_change_attributes_common_def Let_def split_def)
  have a: "ki_atime (snd (fst r)) = sane_time (at_atime attr)" "ki_orig_i_mode (snd (fst r)) AND 0xFFF = at_mode attr AND 0xFFF"
    "\<not> kc_default_permissions (km_fc km) \<Longrightarrow> ki_mode (snd (fst r)) AND S_ISVTX = 0"
    by (simp_all add: taken r_def fuse_change_attributes_def fuse_change_attributes_common_def Let_def split_def m)
  have "list_all (\<lambda>(attr, valid, ver). ver \<noteq> 0 \<and> ver < ki_attr_version n') rs"
    using assms(1,5) v by (auto simp: r_def list_all_iff)
  from attr_replies_stale[OF this] have s: "attr_replies km rs (cur', n') = ((cur', n'), [])" .
  have e: "r = ((cur', n'), ops)" using assms(1) by (simp add: r_def)
  have k: "ki_mode n' AND S_IFMT = ki_mode n AND S_IFMT" "ki_nlookup n' = ki_nlookup n"
    using change_attributes_type[of km attr valid ver "(cur, n)"] change_attributes_kept(2)[of km attr valid ver "(cur, n)"] assms(1) by simp_all
  have ns: "snd (sane_time t) < NSEC_PER_SEC" for t by (simp add: sane_time_def NSEC_PER_SEC_def)
  show ?thesis using v f a s k ns[of "at_atime attr"] unfolding e fuse_get_cache_mask_def fst_conv snd_conv
    by (intro conjI impI) simp_all
qed

theorem attributes_not_overwritten_witness:
  "\<exists>n'. attr_replies \<lparr>km_fc = fuse_conn_fresh False 0 False 32, km_auto_submounts = False, km_kuid = id, km_kgid = id, km_blocksize_bits = 9\<rparr>
       [(\<lparr>at_ino = 7, at_size = 5, at_blocks = 1, at_atime = (1, 0), at_mtime = (2, 0), at_ctime = (3, 0), at_mode = 0x81A4, at_nlink = 1,
          at_uid = 0, at_gid = 0, at_blksize = 4096, at_flags = 0\<rparr>, 0, 8)] (10, n') = ((10, n'), []) \<and> ki_size n' = 10"
proof -
  let ?km = "\<lparr>km_fc = fuse_conn_fresh False 0 False 32, km_auto_submounts = False, km_kuid = id, km_kgid = id, km_blocksize_bits = 9\<rparr>"
  let ?a = "\<lambda>size. \<lparr>at_ino = 7, at_size = size, at_blocks = 1, at_atime = (1, 0), at_mtime = (2, 0), at_ctime = (3, 0), at_mode = 0x81A4, at_nlink = 1,
          at_uid = 0, at_gid = 0, at_blksize = 4096, at_flags = 0\<rparr> :: fuse_attr"
  obtain cur' n' ops where c: "fuse_change_attributes ?km (?a 10) 0 0 (9, fuse_alloc_inode) = ((cur', n'), ops)"
    by (metis prod.collapse)
  moreover have "cur' = 10" using c
    by (simp add: fuse_change_attributes_def fuse_change_attributes_common_def fuse_alloc_inode_def Let_def)
  ultimately show ?thesis
    using attributes_not_overwritten[OF c, of "[(?a 5, 0, 8)]"] by (auto simp: fuse_alloc_inode_def fuse_conn_fresh_def)
qed

subsection \<open>Lookup counts of the kernel\<close>

definition inode_refs :: "kstate \<Rightarrow> nat \<Rightarrow> (64 word \<times> 64 word) option" where
  "inode_refs s a = map_option (\<lambda>n. (ki_nodeid n, ki_nlookup n)) (ks_inodes s a)"

lemma inode_refs_put [simp]: "inode_refs (put_inode a n s) = (inode_refs s)(a \<mapsto> (ki_nodeid n, ki_nlookup n))"
  by (rule ext) (simp add: inode_refs_def put_inode_def)

lemma inode_refs_simps [simp]:
  "inode_refs (s\<lparr>ks_attr_version := x\<rparr>) = inode_refs s" "inode_refs (s\<lparr>ks_conn := c\<rparr>) = inode_refs s"
  "ks_conn (put_inode a n s) = ks_conn s"
  by (simp_all add: inode_refs_def put_inode_def fun_eq_iff)

lemma inode_refs_None: "inode_refs s a = None \<longleftrightarrow> ks_inodes s a = None"
  by (simp add: inode_refs_def)

text \<open>The effect of \<open>fuse_iget\<close> on the counts: the inode it returns, old or new, has the node id and one more lookup.\<close>

definition one_more_lookup :: "64 word \<Rightarrow> kstate \<Rightarrow> nat option \<Rightarrow> kstate \<Rightarrow> bool" where
  "one_more_lookup i s r s' \<longleftrightarrow> ks_conn s' = ks_conn s \<and>
     (case r of
        None \<Rightarrow> inode_refs s' = inode_refs s
      | Some a \<Rightarrow>
          (case inode_refs s a of
             None \<Rightarrow> inode_refs s' = (inode_refs s)(a \<mapsto> (i, 1))
           | Some (j, k) \<Rightarrow> j = i \<and> inode_refs s' = (inode_refs s)(a \<mapsto> (i, k + 1))))"

lemma iget_done_effect:
  assumes "iget_done km attr valid ver a n s = Done (r, s')"
  shows "r = Some a \<and> ks_conn s' = ks_conn s \<and> inode_refs s' = (inode_refs s)(a \<mapsto> (ki_nodeid n, ki_nlookup n + 1))"
  using assms change_attributes_kept[of km attr valid ver "(ks_attr_version s, n\<lparr>ki_nlookup := ki_nlookup n + 1\<rparr>)"]
  by (auto simp: iget_done_def Let_def split: prod.splits)

lemma fuse_init_inode_effect: "fuse_init_inode attr n = Done n' \<Longrightarrow> ki_nodeid n' = ki_nodeid n \<and> ki_nlookup n' = ki_nlookup n"
  by (auto simp: fuse_init_inode_def split: if_splits)

lemma fuse_make_bad_refs: "ks_inodes s a = Some n \<Longrightarrow> inode_refs (fuse_make_bad a n s) = inode_refs s"
  by (rule ext) (simp add: fuse_make_bad_def inode_refs_def put_inode_def)

lemma iget_retry_effect:
  assumes "iget_retry v km i g attr valid ver s = Some x"
  shows "vfs_ok v \<longrightarrow> (\<forall>r s'. x = Done (r, s') \<longrightarrow> one_more_lookup i s r s')"
proof (rule iget_retry.raw_induct[where P = "\<lambda>v km i g attr valid ver s x. vfs_ok v \<longrightarrow> (\<forall>r s'. x = Done (r, s') \<longrightarrow> one_more_lookup i s r s')",
      OF _ assms], intro impI, goal_cases)
  case (1 retry v km i g attr valid ver s x)
  show ?case
  proof (cases "v_iget5 v s i")
    case None
    with 1(2) show ?thesis by (auto simp: one_more_lookup_def)
  next
    case (Some p)
    obtain a is_new where p: "p = (a, is_new)" by (cases p)
    show ?thesis
    proof (cases is_new)
      case True
      then have "ks_inodes s a = None" using 1(3) Some p by (auto simp: vfs_ok_def)
      with 1(2) Some p True show ?thesis
        by (auto simp: one_more_lookup_def inode_refs_None[THEN iffD2] fuse_alloc_inode_def dest!: fuse_init_inode_effect iget_done_effect)
    next
      case False
      then obtain n where n: "ks_inodes s a = Some n" "ki_nodeid n = i" using 1(3) Some p by (force simp: vfs_ok_def)
      show ?thesis
      proof (cases "fuse_stale_inode n g attr")
        case True
        then have "retry v km i g attr valid ver (fuse_make_bad a n s) = Some x" using 1(2) Some p False n by simp
        from 1(1)[OF this] 1(3) show ?thesis
          unfolding one_more_lookup_def fuse_make_bad_refs[OF n(1)] by (simp add: fuse_make_bad_def)
      next
        case False
        have "inode_refs s a = Some (i, ki_nlookup n)" using n by (simp add: inode_refs_def)
        with False 1(2) Some p \<open>\<not> is_new\<close> n show ?thesis
          by (auto simp: one_more_lookup_def dest!: iget_done_effect)
      qed
    qed
  qed
qed

lemma fuse_iget_effect:
  assumes "fuse_iget v km i g attr valid ver s = Some (Done (r, s'))" and "vfs_ok v"
  shows "one_more_lookup i s r s'"
proof (cases "km_auto_submounts km \<and> at_flags attr AND FUSE_ATTR_SUBMOUNT \<noteq> 0 \<and> S_ISDIR (at_mode attr)")
  case False
  then have "iget_retry v km i g attr valid ver s = Some (Done (r, s'))" using assms(1) unfolding fuse_iget_def by (metis (full_types))
  from iget_retry_effect[OF this] assms(2) show ?thesis by blast
next
  case True
  show ?thesis
  proof (cases "v_new_inode v s")
    case None
    with True assms(1) show ?thesis by (simp add: fuse_iget_def one_more_lookup_def)
  next
    case (Some a)
    then have "inode_refs s a = None" using assms(2) by (simp add: inode_refs_None vfs_ok_def)
    with True Some assms(1) show ?thesis
      by (auto simp: fuse_iget_def one_more_lookup_def fuse_alloc_inode_def dest!: fuse_init_inode_effect iget_done_effect)
  qed
qed

text \<open>The loop of \<open>fuse_iget\<close> ends: each round takes a stale inode out of the cache.\<close>

definition hashed_inodes :: "kstate \<Rightarrow> nat set" where
  "hashed_inodes s = {a. \<exists>n. ks_inodes s a = Some n \<and> ki_hashed n}"

lemma iget_done_returns: "\<exists>s'. iget_done km attr valid ver a n s = Done (Some a, s')"
  by (simp add: iget_done_def Let_def split_def)

lemma iget_retry_returns:
  assumes "vfs_ok v" and "fuse_valid_type (at_mode attr)"
  shows "finite (hashed_inodes s) \<Longrightarrow> \<exists>r s'. iget_retry v km i g attr valid ver s = Some (Done (r, s'))"
proof (induction "card (hashed_inodes s)" arbitrary: s rule: less_induct)
  case less
  show ?case
  proof (cases "v_iget5 v s i")
    case None
    then show ?thesis by (simp add: iget_retry.simps)
  next
    case (Some p)
    obtain a is_new where p: "p = (a, is_new)" by (cases p)
    show ?thesis
    proof (cases is_new)
      case True
      with Some p assms(2) iget_done_returns show ?thesis by (simp add: iget_retry.simps fuse_init_inode_def) metis
    next
      case False
      then obtain n where n: "ks_inodes s a = Some n" "ki_hashed n" using assms(1) Some p by (force simp: vfs_ok_def)
      have h: "hashed_inodes (fuse_make_bad a n s) = hashed_inodes s - {a}"
        by (auto simp: hashed_inodes_def fuse_make_bad_def put_inode_def)
      moreover have "a \<in> hashed_inodes s" using n by (simp add: hashed_inodes_def)
      ultimately have "card (hashed_inodes (fuse_make_bad a n s)) < card (hashed_inodes s)" using less.prems by (metis card_Diff1_less)
      from less.hyps[OF this] h less.prems have "\<exists>r s'. iget_retry v km i g attr valid ver (fuse_make_bad a n s) = Some (Done (r, s'))" by simp
      with Some p False n iget_done_returns[of km attr valid ver a n s] show ?thesis by (subst iget_retry.simps) auto
    qed
  qed
qed

lemma fuse_iget_returns:
  assumes "vfs_ok v" and "\<not> fuse_invalid_attr attr" and "finite (hashed_inodes s)"
  shows "\<exists>r s'. fuse_iget v km i g attr valid ver s = Some (Done (r, s'))"
  using iget_retry_returns[OF assms(1) _ assms(3), of attr] iget_done_returns assms(2)
  by (auto simp: fuse_iget_def fuse_invalid_attr_def fuse_init_inode_def split: option.split) metis

end
