(* ===== verification/Fuse_Lookup.thy ===== *)
theory Fuse_Lookup
  imports Fuse_Nodes Kern_Inode
begin

text \<open>
  Lookup counts across the device. The library counts, for every node, the lookups that it has answered (\<open>fuse.c\<close>); the kernel counts them in its inodes and
  gives them back with forget messages (\<open>inode.c\<close>, \<open>dir.c\<close>, \<open>dev.c\<close>). The theory composes both sides, with replies and forgets under way, and shows that the
  counts balance, so that the library never frees a node that the kernel still refers to.
\<close>

subsection \<open>The counts of the library\<close>

definition node_refs :: "fuse \<Rightarrow> nat \<Rightarrow> (64 word \<times> nat) option" where
  "node_refs f p = (case f_nodes f p of None \<Rightarrow> None | Some n \<Rightarrow> if 0 < nlookup n then Some (nodeid n, nlookup n) else None)"

definition lookups_of :: "fuse \<Rightarrow> 64 word \<Rightarrow> nat" where
  "lookups_of f i = (case get_node f i of Aborted \<Rightarrow> 0 | Done p \<Rightarrow> (case f_nodes f p of None \<Rightarrow> 0 | Some n \<Rightarrow> nlookup n))"

lemma node_refs_lookups:
  assumes "tree_ok f" and "node_refs f p = Some (i, k)"
  shows "lookups_of f i = k" "0 < k" "get_node f i = Done p"
proof -
  obtain n where n: "f_nodes f p = Some n" "nodeid n = i" "nlookup n = k" "0 < k"
    using assms(2) by (auto simp: node_refs_def split: option.splits if_splits)
  then have "p \<in> alive f" "nid f p = i" by (auto simp: alive_iff nid_def)
  then show "get_node f i = Done p" using assms(1) get_node_iff[of "{}" f i p] by (simp add: tree_ok_def core_inv_def)
  with n show "lookups_of f i = k" "0 < k" by (simp_all add: lookups_of_def)
qed

lemma lookups_node_refs:
  assumes "tree_ok f" and "0 < lookups_of f i"
  obtains p where "node_refs f p = Some (i, lookups_of f i)"
proof -
  obtain p n where "get_node f i = Done p" "f_nodes f p = Some n" "nlookup n = lookups_of f i"
    using assms(2) by (auto simp: lookups_of_def split: outcome.splits option.splits)
  moreover from this(1) assms(1) get_node_iff[of "{}" f i p] have "nid f p = i" by (simp add: tree_ok_def core_inv_def)
  ultimately have "node_refs f p = Some (i, lookups_of f i)" using assms(2) by (simp add: node_refs_def nid_def)
  then show thesis by (rule that)
qed

lemma lookups_of_eqI:
  assumes "tree_ok f" and "tree_ok f'" and "\<And>p k. node_refs f' p = Some (i, k) \<longleftrightarrow> node_refs f p = Some (i, k)"
  shows "lookups_of f' i = lookups_of f i"
proof (cases "0 < lookups_of f i")
  case True
  then obtain p where "node_refs f p = Some (i, lookups_of f i)" using lookups_node_refs[OF assms(1)] by blast
  with assms(3) show ?thesis using node_refs_lookups[OF assms(2)] by blast
next
  case False
  then show ?thesis using lookups_node_refs[OF assms(2)] node_refs_lookups[OF assms(1)] assms(3) by (metis neq0_conv)
qed

text \<open>A change of one node.\<close>

lemma lookups_of_update:
  assumes "tree_ok f" and "tree_ok f'" and r: "node_refs f' = (node_refs f)(p := r)"
    and old: "node_refs f p = None \<or> (\<exists>k. node_refs f p = Some (i, k))" and new: "r = (if k' = 0 then None else Some (i, k'))"
    and ex: "k' = 0 \<Longrightarrow> node_refs f p \<noteq> None"
  shows "lookups_of f' = (lookups_of f)(i := k')"
proof
  fix j
  show "lookups_of f' j = ((lookups_of f)(i := k')) j"
  proof (cases "j = i")
    case False
    then have "lookups_of f' j = lookups_of f j"
      using old new by (intro lookups_of_eqI[OF assms(1,2)]) (auto simp: r)
    with False show ?thesis by simp
  next
    case True
    show ?thesis
    proof (cases "k' = 0")
      case False
      then show ?thesis using True node_refs_lookups(1)[OF assms(2), of p i k'] new by (simp add: r)
    next
      case k: True
      with ex old obtain k0 where p: "node_refs f p = Some (i, k0)" by auto
      have "\<not> 0 < lookups_of f' i"
      proof
        assume "0 < lookups_of f' i"
        then obtain q where q: "node_refs f' q = Some (i, lookups_of f' i)" using lookups_node_refs[OF assms(2)] by blast
        then have "q \<noteq> p" "node_refs f q = Some (i, lookups_of f' i)" using new k by (auto simp: r split: if_splits)
        with node_refs_lookups(3)[OF assms(1)] p show False by (metis outcome.inject)
      qed
      with True k show ?thesis by simp
    qed
  qed
qed

definition refs_kept :: "fuse \<Rightarrow> fuse \<Rightarrow> bool" where
  "refs_kept f f' \<longleftrightarrow> node_refs f' = node_refs f \<and> conf_remember f' = conf_remember f"

lemma refs_kept_lookups: "refs_kept f f' \<Longrightarrow> tree_ok f \<Longrightarrow> tree_ok f' \<Longrightarrow> lookups_of f' = lookups_of f"
  by (rule ext, rule lookups_of_eqI) (simp_all add: refs_kept_def)

lemma refs_kept_trans: "refs_kept f g \<Longrightarrow> refs_kept g h \<Longrightarrow> refs_kept f h"
  by (simp add: refs_kept_def)

lemma refs_kept_refl [simp]: "refs_kept f f"
  by (simp add: refs_kept_def)

lemma refs_kept_shrinks:
  assumes "shrinks D f f'"
  shows "refs_kept f f'"
  unfolding refs_kept_def
proof
  show "conf_remember f' = conf_remember f" using assms by (simp add: shrinks_def same_conf_def)
  show "node_refs f' = node_refs f"
  proof
    fix q
    show "node_refs f' q = node_refs f q"
    proof (cases "f_nodes f' q")
      case None
      then show ?thesis using assms by (auto simp: node_refs_def shrinks_def split: option.splits)
    next
      case (Some n')
      then obtain n where "f_nodes f q = Some n" using shrinksD[OF assms] by blast
      with Some shrinks_nlookup[OF assms Some] show ?thesis by (simp add: node_refs_def)
    qed
  qed
qed

lemma refs_kept_upd:
  assumes "\<And>n. nlookup (g n) = nlookup n" and "\<And>n. nodeid (g n) = nodeid n"
  shows "refs_kept f (upd_node p g f)"
  using assms by (auto simp: refs_kept_def node_refs_def fun_eq_iff split: option.split)

lemma refs_kept_tables: "f_nodes f' = f_nodes f \<Longrightarrow> conf_remember f' = conf_remember f \<Longrightarrow> refs_kept f f'"
  by (simp add: refs_kept_def node_refs_def fun_eq_iff)

lemma hash_name_refs: "hash_name d p parent name f = Done (ok, f') \<Longrightarrow> refs_kept f f'"
  by (auto simp: hash_name_def Let_def refs_kept_def node_refs_def fun_eq_iff upd_node_def split: if_splits option.split)

lemma unhash_name_refs: "unhash_name f p = Done f' \<Longrightarrow> core_inv {} {} f \<Longrightarrow> refs_kept f f'"
  using refs_kept_shrinks[OF unhash_name_inv(3)] .

lemma unlink_node_refs:
  assumes "unlink_node p f = Done f'" and "core_inv {} {} f" and "conf_remember f = 0"
  shows "refs_kept f f'"
  using assms unhash_name_refs by (auto simp: unlink_node_def split: option.splits)

lemma remove_node_refs:
  assumes "remove_node dir name f = Done f'" and "tree_ok f" and "conf_remember f = 0"
  shows "refs_kept f f'"
  using assms unlink_node_refs by (auto simp: remove_node_def tree_ok_def split: option.splits)

lemma rename_node_tail_refs:
  assumes "rename_node_tail d p newdir newname hide f = Done (r, f')" and "core_inv {} {} f"
  shows "refs_kept f f'"
proof -
  obtain f1 ok f2 where u: "unhash_name f p = Done f1" "hash_name d p newdir newname f1 = Done (ok, f2)"
    and f': "f' = (if ok \<and> hide then upd_node p (\<lambda>n. n\<lparr>is_hidden := True\<rparr>) f2 else f2)"
    using assms(1) by (auto simp: rename_node_tail_def split: if_splits)
  have "refs_kept f f2" using unhash_name_refs[OF u(1) assms(2)] hash_name_refs[OF u(2)] by (rule refs_kept_trans)
  moreover have "refs_kept f2 f'" unfolding f' using refs_kept_upd[of "\<lambda>n. n\<lparr>is_hidden := True\<rparr>"] by simp
  ultimately show ?thesis by (rule refs_kept_trans)
qed

lemma rename_node_refs:
  assumes "rename_node d olddir oldname newdir newname hide f = Done (r, f')" and "tree_ok f" and "conf_remember f = 0"
  shows "refs_kept f f'"
proof -
  have inv: "core_inv {} {} f" using assms(2) by (simp add: tree_ok_def)
  show ?thesis
    using assms(1,3) inv unlink_node_inv(1)[OF _ inv] unlink_node_refs[OF _ inv] rename_node_tail_refs refs_kept_trans
    by (auto simp: rename_node_def split: option.splits if_splits) blast
qed

lemma unhash_name_opt_refs: "unhash_name_opt q f = Done f' \<Longrightarrow> core_inv {} {} f \<Longrightarrow> refs_kept f f'"
  using unhash_name_refs by (auto simp: unhash_name_opt_def split: option.splits)

lemma hash_name_opt_refs: "hash_name_opt d q dir name f = Done (ok, f') \<Longrightarrow> refs_kept f f'"
  using hash_name_refs by (auto simp: hash_name_opt_def split: option.splits)

lemma exchange_node_refs:
  assumes "exchange_node d1 d2 olddir oldname newdir newname f = Done (r, f')" and "tree_ok f"
  shows "refs_kept f f'"
proof -
  let ?o = "lookup_node f olddir oldname" and ?n = "lookup_node f newdir newname"
  have inv: "core_inv {} {} f" using assms(2) by (simp add: tree_ok_def)
  obtain f1 f2 ok1 f3 where u: "unhash_name_opt ?o f = Done f1" "unhash_name_opt ?n f1 = Done f2"
    and h: "hash_name_opt d1 ?o newdir newname f2 = Done (ok1, f3)"
    and f': "f' = f3 \<or> (\<exists>ok2. hash_name_opt d2 ?n olddir oldname f3 = Done (ok2, f'))"
    using assms(1) by (simp add: exchange_node_def Let_def split: if_splits prod.splits) blast+
  have "refs_kept f f3"
    using unhash_name_opt_refs[OF u(1) inv] unhash_name_opt_refs[OF u(2) unhash_name_opt_inv(1)[OF u(1) inv]] hash_name_opt_refs[OF h]
    by (blast intro: refs_kept_trans)
  with f' show ?thesis using hash_name_opt_refs refs_kept_trans by blast
qed

text \<open>Forgetting \<open>k\<close> lookups of a node takes exactly these off its count.\<close>

lemma forget_node_lookups:
  assumes ok: "tree_ok f" and r: "forget_node now i k f = Some (Done f')" and k: "0 < k" and i: "i \<noteq> FUSE_ROOT_ID" and m: "conf_remember f = 0"
  shows "k \<le> lookups_of f i" "lookups_of f' = (lookups_of f)(i := lookups_of f i - k)" "conf_remember f' = 0"
proof -
  have inv: "core_inv {} {} f" using ok by (simp add: tree_ok_def)
  obtain p n where p: "get_node f i = Done p" "f_nodes f p = Some n" and kn: "k \<le> nlookup n"
    and u: "if nlookup n - k = 0 then unref_node (upd_node p (\<lambda>n. n\<lparr>nlookup := nlookup n - k\<rparr>) f) p = Done f'
            else f' = upd_node p (\<lambda>n. n\<lparr>nlookup := nlookup n - k\<rparr>) f"
    using r i m by (auto simp: forget_node_def lru_enabled_def Let_def split: outcome.splits option.splits if_splits)
  let ?g = "upd_node p (\<lambda>n. n\<lparr>nlookup := nlookup n - k\<rparr>) f"
  have l: "lookups_of f i = nlookup n" using p by (simp add: lookups_of_def)
  then show "k \<le> lookups_of f i" using kn by simp
  have pos: "0 < nlookup n" using k kn by simp
  have "nodeid n = i" using p get_node_iff[of "{}" f i p] inv by (simp add: core_inv_def nid_def)
  then have np: "node_refs f p = Some (i, nlookup n)" using p pos by (simp add: node_refs_def)
  have g: "?g = upd_node p (\<lambda>n'. n'\<lparr>nlookup := nlookup n - k\<rparr>) f" using p by (simp add: upd_node_def)
  have "refs_kept ?g f'"
  proof (cases "nlookup n - k = 0")
    case True
    have "core_inv {} {} (dec_ref p ?g)" using nlookup_dec_inv(1)[OF inv p(2) pos g] True by simp
    with u True show ?thesis using refs_kept_shrinks[OF unref_node_inv(3)] by simp
  qed (use u in simp)
  then have kept: "node_refs f' = node_refs ?g" "conf_remember f' = conf_remember ?g" by (simp_all add: refs_kept_def)
  moreover have "node_refs ?g = (node_refs f)(p := (if nlookup n - k = 0 then None else Some (i, nlookup n - k)))"
    using p \<open>nodeid n = i\<close> by (auto simp: node_refs_def fun_eq_iff)
  ultimately have "node_refs f' = (node_refs f)(p := (if nlookup n - k = 0 then None else Some (i, nlookup n - k)))" by simp
  from lookups_of_update[OF ok forget_node_inv[OF ok r k] this _ refl] np
  show "lookups_of f' = (lookups_of f)(i := lookups_of f i - k)" by (simp add: l)
  show "conf_remember f' = 0" using kept(2) m by simp
qed

text \<open>A lookup adds one to the count of the node it returns, and a failed one changes no count.\<close>

lemma find_node_new_refs:
  assumes r: "find_node_new p d parent name f = Some (Done (res, f'))" and p: "p \<notin> alive f" and m: "conf_remember f = 0"
  shows "conf_remember f' = 0"
    and "res = None \<Longrightarrow> node_refs f' = node_refs f"
    and "res = Some q \<Longrightarrow> q = p \<and> (\<exists>i. node_refs f' = (node_refs f)(p \<mapsto> (i, 1)) \<and> nid f' p = i)"
proof -
  let ?f1 = "f\<lparr>f_nodes := (f_nodes f)(p \<mapsto> zero_node)\<rparr>"
  obtain i f2 ok f5 where ni: "next_id ?f1 = Some (i, f2)" and h: "hash_name d p parent name (find_node_alloc p i f2) = Done (ok, f5)"
    and res: "res = (if ok then Some p else None)"
    and f': "f_nodes f' = (if ok then f_nodes (inc_nlookup p f5) else (f_nodes f5)(p := None))" "conf_remember f' = conf_remember f5"
    using r by (fastforce simp: find_node_new_def Let_def find_node_alloc_def inc_nlookup_def free_node_def upd_node_def
        split: option.splits if_splits)
  have f2: "f_nodes f2 = f_nodes ?f1" "conf_remember f2 = conf_remember ?f1" using ni by (auto simp: next_id_def)
  have k: "node_refs f5 = node_refs (find_node_alloc p i f2)" "conf_remember f5 = conf_remember (find_node_alloc p i f2)"
    using hash_name_refs[OF h] by (simp_all add: refs_kept_def)
  have a: "find_node_alloc p i f2 = upd_node p (\<lambda>n. n\<lparr>nodeid := i, n_generation := f_generation f2\<rparr>) f2"
    using m f2 by (simp add: find_node_alloc_def)
  have old: "node_refs f p = None" using p by (simp add: node_refs_def alive_def domIff)
  have n5: "node_refs f5 = node_refs f"
    using k(1) f2 p old by (auto simp: a node_refs_def fun_eq_iff zero_node_def)
  have "\<exists>n. f_nodes f5 p = Some n \<and> nlookup n = 0 \<and> nodeid n = i"
    using h f2 by (auto simp: a hash_name_def Let_def zero_node_def upd_node_def split: if_splits)
  then obtain n where n: "f_nodes f5 p = Some n" "nlookup n = 0" "nodeid n = i" by blast
  show "conf_remember f' = 0" using f'(2) k(2) f2(2) m by (simp add: a)
  show "res = None \<Longrightarrow> node_refs f' = node_refs f"
    using n5 old res f'(1) by (auto simp: node_refs_def fun_eq_iff split: if_splits)
  show "res = Some q \<Longrightarrow> q = p \<and> (\<exists>i. node_refs f' = (node_refs f)(p \<mapsto> (i, 1)) \<and> nid f' p = i)"
  proof -
    assume "res = Some q"
    then have okk: "ok" "q = p" using res by (auto split: if_splits)
    then have "node_refs f' = (node_refs f5)(p \<mapsto> (i, 1))" "nid f' p = i"
      using f'(1) n by (auto simp: node_refs_def inc_nlookup_def upd_node_def fun_eq_iff nid_def)
    with okk n5 show ?thesis by simp
  qed
qed

lemma find_node_cases:
  assumes "find_node newp d parent name f = Some (Done (res, f'))" and "conf_remember f = 0"
  shows "(\<exists>p n. f_nodes f p = Some n \<and> res = Some p \<and> f' = inc_nlookup p f) \<or> (res = None \<and> f' = f) \<or>
    (\<exists>p nm. newp = Some p \<and> find_node_new p d parent nm f = Some (Done (res, f')))"
  using assms by (auto simp: find_node_def lru_enabled_def Let_def split: option.splits outcome.splits)

lemma find_node_lookups:
  assumes ok: "tree_ok f" and r: "find_node newp d parent name f = Some (Done (res, f'))" and p: "\<forall>p. newp = Some p \<longrightarrow> p \<notin> alive f"
    and m: "conf_remember f = 0"
  shows "conf_remember f' = 0"
    and "res = None \<Longrightarrow> lookups_of f' = lookups_of f"
    and "res = Some q \<Longrightarrow> lookups_of f' = (lookups_of f)(nid f' q := lookups_of f (nid f' q) + 1)"
proof -
  have ok': "tree_ok f'" using find_node_inv(1)[OF ok p r] .
  consider (known) x n where "f_nodes f x = Some n" "res = Some x" "f' = inc_nlookup x f" | (none) "res = None" "f' = f"
    | (fresh) x nm where "newp = Some x" "find_node_new x d parent nm f = Some (Done (res, f'))"
    using find_node_cases[OF r m] by blast
  then have "conf_remember f' = 0 \<and> (res = None \<longrightarrow> lookups_of f' = lookups_of f) \<and>
    (\<forall>q. res = Some q \<longrightarrow> lookups_of f' = (lookups_of f)(nid f' q := lookups_of f (nid f' q) + 1))"
  proof cases
    case known
    have x: "get_node f (nodeid n) = Done x"
      using ok known(1) get_node_iff[of "{}" f "nodeid n" x] by (auto simp: tree_ok_def core_inv_def alive_iff nid_def)
    have l: "lookups_of f (nodeid n) = nlookup n" using x known(1) by (simp add: lookups_of_def)
    have i: "nid f' x = nodeid n" using known by (simp add: inc_nlookup_def upd_node_def nid_def)
    have "node_refs f' = (node_refs f)(x := (if nlookup n + 1 = 0 then None else Some (nodeid n, nlookup n + 1)))"
      using known by (auto simp: node_refs_def inc_nlookup_def upd_node_def fun_eq_iff)
    from lookups_of_update[OF ok ok' this _ refl] known(1)
    have "lookups_of f' = (lookups_of f)(nodeid n := nlookup n + 1)" by (simp add: node_refs_def)
    then show ?thesis using known m i l by (simp add: inc_nlookup_def)
  next
    case none
    then show ?thesis using m by simp
  next
    case fresh
    have px: "x \<notin> alive f" using p fresh(1) by simp
    note n = find_node_new_refs[OF fresh(2) px m]
    have old: "node_refs f x = None" using px by (simp add: node_refs_def alive_def domIff)
    show ?thesis
    proof (cases res)
      case None
      then show ?thesis using n(1,2) refs_kept_lookups[of f f'] ok ok' m by (simp add: refs_kept_def)
    next
      case (Some q)
      with n(3) obtain i where q: "q = x" and i: "node_refs f' = (node_refs f)(x := (if (1::nat) = 0 then None else Some (i, 1)))" "nid f' x = i" by auto
      from lookups_of_update[OF ok ok' i(1) _ refl] old have u: "lookups_of f' = (lookups_of f)(i := 1)" by simp
      have "\<not> 0 < lookups_of f i"
      proof
        assume "0 < lookups_of f i"
        then obtain y where y: "node_refs f y = Some (i, lookups_of f i)" using lookups_node_refs[OF ok] by blast
        with old have "y \<noteq> x" by auto
        with y i(1) have "node_refs f' y = Some (i, lookups_of f i)" "node_refs f' x = Some (i, 1)" by simp_all
        with node_refs_lookups(3)[OF ok'] \<open>y \<noteq> x\<close> show False by (metis outcome.inject)
      qed
      with Some q u i(2) n(1) show ?thesis by simp
    qed
  qed
  then show "conf_remember f' = 0" "res = None \<Longrightarrow> lookups_of f' = lookups_of f"
    "res = Some q \<Longrightarrow> lookups_of f' = (lookups_of f)(nid f' q := lookups_of f (nid f' q) + 1)" by blast+
qed

subsection \<open>The interface: a server that counts\<close>

text \<open>
  What the kernel relies on: the server holds a count for every id, a granted lookup adds one, giving back takes off, and nothing else changes a count.
  The id of the root is not counted. Outstanding references are balanced if they are exactly those held.
\<close>

locale counting_server =
  fixes good :: "'s \<Rightarrow> bool" and held :: "'s \<Rightarrow> 64 word \<Rightarrow> nat"
    and grant :: "64 word \<Rightarrow> 's \<Rightarrow> 's \<Rightarrow> bool" and give_back :: "64 word \<Rightarrow> nat \<Rightarrow> 's \<Rightarrow> 's \<Rightarrow> bool" and internal :: "'s \<Rightarrow> 's \<Rightarrow> bool"
  assumes grant_law: "good s \<Longrightarrow> grant i s s' \<Longrightarrow> good s' \<and> held s' = (held s)(i := held s i + 1)"
    and give_back_law: "good s \<Longrightarrow> give_back i k s s' \<Longrightarrow> 0 < k \<Longrightarrow>
      good s' \<and> (i \<noteq> FUSE_ROOT_ID \<longrightarrow> k \<le> held s i \<and> held s' = (held s)(i := held s i - k)) \<and> (i = FUSE_ROOT_ID \<longrightarrow> held s' = held s)"
    and internal_law: "good s \<Longrightarrow> internal s s' \<Longrightarrow> good s' \<and> held s' = held s"
begin

definition balanced :: "'s \<Rightarrow> (64 word \<Rightarrow> nat) \<Rightarrow> bool" where
  "balanced s out \<longleftrightarrow> good s \<and> (\<forall>i. i \<noteq> FUSE_ROOT_ID \<longrightarrow> held s i = out i \<and> out i < 2 ^ 64)"

lemma balanced_grant:
  "balanced s out \<Longrightarrow> grant i s s' \<Longrightarrow> held s i + 1 < 2 ^ 64 \<Longrightarrow> balanced s' (out(i := out i + 1))"
  using grant_law[of s i s'] by (auto simp: balanced_def)

lemma balanced_give_back:
  assumes "balanced s out" and "give_back i k s s'" and "0 < k" and "\<And>j. out j = out' j + (if j = i then k else 0)"
  shows "balanced s' out'"
  using give_back_law[OF _ assms(2,3)] assms(1,4) by (cases "i = FUSE_ROOT_ID") (auto simp: balanced_def)

lemma balanced_internal: "balanced s out \<Longrightarrow> internal s s' \<Longrightarrow> balanced s' out"
  using internal_law[of s s'] by (auto simp: balanced_def)

lemma balanced_cong: "balanced s out \<Longrightarrow> (\<And>j. j \<noteq> FUSE_ROOT_ID \<Longrightarrow> out' j = out j) \<Longrightarrow> balanced s out'"
  by (simp add: balanced_def)

end

text \<open>The library without \<open>remember\<close> is such a server.\<close>

definition lib_good :: "fuse \<Rightarrow> bool" where
  "lib_good f \<longleftrightarrow> tree_ok f \<and> conf_remember f = 0"

inductive lib_grant :: "64 word \<Rightarrow> fuse \<Rightarrow> fuse \<Rightarrow> bool" where
  "find_node newp d parent name f = Some (Done (Some q, f')) \<Longrightarrow> \<forall>p. newp = Some p \<longrightarrow> p \<notin> alive f \<Longrightarrow> lib_grant (nid f' q) f f'"

inductive lib_give_back :: "64 word \<Rightarrow> nat \<Rightarrow> fuse \<Rightarrow> fuse \<Rightarrow> bool" where
  "forget_node now i k f = Some (Done f') \<Longrightarrow> lib_give_back i k f f'"

inductive lib_internal :: "fuse \<Rightarrow> fuse \<Rightarrow> bool" where
  lib_find_fails: "find_node newp d parent name f = Some (Done (None, f')) \<Longrightarrow> \<forall>p. newp = Some p \<longrightarrow> p \<notin> alive f \<Longrightarrow> lib_internal f f'"
| lib_remove: "remove_node dir name f = Done f' \<Longrightarrow> lib_internal f f'"
| lib_rename: "rename_node d olddir oldname newdir newname hide f = Done (r, f') \<Longrightarrow> lib_internal f f'"
| lib_exchange: "exchange_node d1 d2 olddir oldname newdir newname f = Done (r, f') \<Longrightarrow> (olddir, oldname) \<noteq> (newdir, newname) \<Longrightarrow> lib_internal f f'"

lemma lib_refs_kept:
  assumes "lib_good f" and "refs_kept f f'" and "tree_ok f'"
  shows "lib_good f' \<and> lookups_of f' = lookups_of f"
  using assms refs_kept_lookups[OF assms(2)] by (simp add: lib_good_def refs_kept_def)

lemma lib_internal_law:
  assumes "lib_internal f f'" and "lib_good f"
  shows "lib_good f' \<and> lookups_of f' = lookups_of f"
proof -
  have f: "tree_ok f" "conf_remember f = 0" using assms(2) by (simp_all add: lib_good_def)
  from assms(1) show ?thesis
  proof cases
    case lib_find_fails
    show ?thesis
      using find_node_lookups(1)[OF f(1) lib_find_fails f(2)] find_node_lookups(2)[OF f(1) lib_find_fails f(2) refl]
        find_node_inv(1)[OF f(1) lib_find_fails(2,1)] by (simp add: lib_good_def)
  next
    case lib_remove
    show ?thesis by (rule lib_refs_kept[OF assms(2) remove_node_refs[OF lib_remove f] remove_node_inv(1)[OF f(1) lib_remove]])
  next
    case lib_rename
    show ?thesis by (rule lib_refs_kept[OF assms(2) rename_node_refs[OF lib_rename f] rename_node_inv(1)[OF f(1) lib_rename]])
  next
    case lib_exchange
    show ?thesis
      by (rule lib_refs_kept[OF assms(2) exchange_node_refs[OF lib_exchange(1) f(1)] exchange_node_inv(1)[OF f(1) lib_exchange(2,1)]])
  qed
qed

lemma lib_grant_law:
  assumes "lib_grant i f f'" and "lib_good f"
  shows "lib_good f' \<and> lookups_of f' = (lookups_of f)(i := lookups_of f i + 1)"
  using assms(1)
proof cases
  case (1 newp d parent name q)
  have "tree_ok f" "conf_remember f = 0" using assms(2) by (simp_all add: lib_good_def)
  then show ?thesis
    using find_node_lookups(1)[OF _ 1(2,3)] find_node_lookups(3)[OF _ 1(2,3) _ refl] find_node_inv(1)[OF _ 1(3,2)] 1(1) by (simp add: lib_good_def)
qed

lemma lib_give_back_law:
  assumes "lib_give_back i k f f'" and "lib_good f" and "0 < k"
  shows "lib_good f' \<and> (i \<noteq> FUSE_ROOT_ID \<longrightarrow> k \<le> lookups_of f i \<and> lookups_of f' = (lookups_of f)(i := lookups_of f i - k)) \<and>
    (i = FUSE_ROOT_ID \<longrightarrow> lookups_of f' = lookups_of f)"
  using assms(1)
proof cases
  case (1 now)
  have f: "tree_ok f" "conf_remember f = 0" using assms(2) by (simp_all add: lib_good_def)
  show ?thesis
  proof (cases "i = FUSE_ROOT_ID")
    case True
    then show ?thesis using 1 assms(2) by (simp add: forget_node_def)
  next
    case False
    then show ?thesis using forget_node_lookups[OF f(1) 1 assms(3) False f(2)] forget_node_inv[OF f(1) 1 assms(3)] by (simp add: lib_good_def)
  qed
qed

interpretation lib: counting_server lib_good lookups_of lib_grant lib_give_back lib_internal
  using lib_grant_law lib_give_back_law lib_internal_law by unfold_locales blast+

subsection \<open>Outstanding references\<close>

definition sum_refs :: "(nat \<Rightarrow> (64 word \<times> 64 word) option) \<Rightarrow> 64 word \<Rightarrow> nat" where
  "sum_refs m i = (\<Sum>a \<in> dom m. case m a of Some (j, k) \<Rightarrow> if j = i then unat k else 0 | None \<Rightarrow> 0)"

definition forget_sum :: "(64 word \<times> 64 word) list \<Rightarrow> 64 word \<Rightarrow> nat" where
  "forget_sum fs i = sum_list (map (\<lambda>(j, k). if j = i then unat k else 0) fs)"

lemma forget_sum_simps [simp]:
  "forget_sum [] i = 0" "forget_sum ((j, k) # fs) i = (if j = i then unat k else 0) + forget_sum fs i"
  "forget_sum (fs @ gs) i = forget_sum fs i + forget_sum gs i"
  by (simp_all add: forget_sum_def)

lemma sum_refs_take:
  assumes "finite (dom m)" and "m a = Some (j, k)"
  shows "sum_refs m i = sum_refs (m(a := None)) i + (if j = i then unat k else 0)"
proof -
  have "sum_refs m i = (if j = i then unat k else 0) + (\<Sum>b \<in> dom m - {a}. case m b of Some (j, k) \<Rightarrow> if j = i then unat k else 0 | None \<Rightarrow> 0)"
    using assms by (simp add: sum_refs_def sum.remove[of "dom m" a] domI)
  also have "(\<Sum>b \<in> dom m - {a}. case m b of Some (j, k) \<Rightarrow> if j = i then unat k else 0 | None \<Rightarrow> 0) = sum_refs (m(a := None)) i"
    by (auto simp: sum_refs_def intro!: sum.cong)
  finally show ?thesis by simp
qed

lemma sum_refs_put:
  assumes "finite (dom m)"
  shows "sum_refs (m(a \<mapsto> (j, k))) i = sum_refs (m(a := None)) i + (if j = i then unat k else 0)"
  using sum_refs_take[of "m(a \<mapsto> (j, k))" a j k i] assms by simp

lemma sum_refs_absent: "m a = None \<Longrightarrow> sum_refs (m(a := None)) = sum_refs m"
  by (metis fun_upd_triv)

lemma sum_refs_le: "finite (dom m) \<Longrightarrow> m a = Some (i, k) \<Longrightarrow> unat k \<le> sum_refs m i"
  using sum_refs_take[of m a i k i] by simp

text \<open>One more lookup in the kernel, if the count does not wrap around.\<close>

lemma sum_refs_one_more:
  assumes "one_more_lookup i s (Some a) s'" and "finite (dom (inode_refs s))" and "j = i \<Longrightarrow> sum_refs (inode_refs s) i + 1 < 2 ^ 64"
  shows "sum_refs (inode_refs s') j = sum_refs (inode_refs s) j + (if j = i then 1 else 0)"
proof (cases "inode_refs s a")
  case None
  then show ?thesis using assms(1,2) by (simp add: one_more_lookup_def sum_refs_put sum_refs_absent)
next
  case (Some p)
  then obtain k where k: "inode_refs s a = Some (i, k)" "inode_refs s' = (inode_refs s)(a \<mapsto> (i, k + 1))"
    using assms(1) by (cases p) (auto simp: one_more_lookup_def)
  have "unat (k + 1) = unat k + 1" if "j = i"
  proof -
    have "unat k + 1 < 2 ^ 64" using sum_refs_le[OF assms(2) k(1)] assms(3)[OF that] by linarith
    then show ?thesis by (simp add: unat_word_ariths)
  qed
  then show ?thesis using k(2) sum_refs_put[OF assms(2), of a i "k + 1" j] sum_refs_take[OF assms(2) k(1), of j] by simp
qed

text \<open>What an entry of a reply becomes in the kernel: a lookup counted in an inode, or a forget in the queue.\<close>

definition entry_counted :: "64 word \<Rightarrow> kstate \<Rightarrow> kstate \<Rightarrow> bool" where
  "entry_counted i s s' \<longleftrightarrow> (\<exists>a. one_more_lookup i s (Some a) s') \<or>
     inode_refs s' = inode_refs s \<and> ks_conn s' = fuse_queue_forget i 1 (ks_conn s)"

lemma iget_or_forget_effect:
  assumes "iget_or_forget v km e ver s = Some (Done (err, r, s'))" and "vfs_ok v"
  shows "entry_counted (eo_nodeid e) s s'" "r = None \<Longrightarrow> err = - ENOMEM"
proof -
  obtain r1 s1 where f: "fuse_iget v km (eo_nodeid e) (eo_generation e) (eo_attr e) (eo_attr_valid e) ver s = Some (Done (r1, s1))"
    and s': "case r1 of None \<Rightarrow> err = - ENOMEM \<and> r = None \<and> s' = queue_forget (eo_nodeid e) 1 s1 | Some a \<Rightarrow> r = Some a \<and> s' = s1"
    using assms(1) by (auto simp: iget_or_forget_def split: option.splits)
  show "entry_counted (eo_nodeid e) s s'" "r = None \<Longrightarrow> err = - ENOMEM"
    using fuse_iget_effect[OF f assms(2)] s' by (auto simp: entry_counted_def one_more_lookup_def[of _ s None] queue_forget_def split: option.splits)
qed

text \<open>The three kinds of replies that give an inode take the entry over, or reject it and leave the state alone.\<close>

lemma entry_reply_effect:
  assumes "vfs_ok v" and
    "fuse_lookup_name_reply v km 0 e ver s = Some (Done (err, r, s')) \<or> create_new_entry_reply v km mode 0 e s = Some (Done (err, r, s')) \<or>
     fuse_create_open_reply v km 0 e s = Some (Done (err, r, s'))"
  shows "if r = None \<and> err \<noteq> - ENOMEM then s' = s else entry_counted (eo_nodeid e) s s'"
proof -
  have "r = None \<and> err \<noteq> - ENOMEM \<and> s' = s \<or> (\<exists>ver. iget_or_forget v km e ver s = Some (Done (err, r, s')))"
    using assms(2)
    by (auto simp: fuse_lookup_name_reply_def create_new_entry_reply_def fuse_create_open_reply_def EIO_def ENOMEM_def split: if_splits)
  then show ?thesis using iget_or_forget_effect[OF _ assms(1)] by auto
qed

lemma revalidate_reply_effect:
  assumes "fuse_dentry_revalidate_reply km a 0 e ver s = Done (ret, s')"
  shows "if eo_nodeid e = 0 then inode_refs s' = inode_refs s \<and> ks_conn s' = ks_conn s else entry_counted (eo_nodeid e) s s'"
proof -
  obtain n where n: "ks_inodes s a = Some n" using assms by (cases "ks_inodes s a") (simp_all add: fuse_dentry_revalidate_reply_def)
  then have r: "inode_refs s a = Some (ki_nodeid n, ki_nlookup n)" by (simp add: inode_refs_def)
  have same: "(inode_refs s)(a \<mapsto> (ki_nodeid n, ki_nlookup n)) = inode_refs s" using r by (simp add: fun_upd_idem)
  show ?thesis
  proof (cases "eo_nodeid e = 0")
    case True
    then show ?thesis using assms n same by (auto simp: fuse_dentry_revalidate_reply_def Let_def ENOENT_def ENOMEM_def)
  next
    case False
    note kept = change_attributes_kept(1,2)[of km "eo_attr e" "eo_attr_valid e" ver "(ks_attr_version s, n\<lparr>ki_nlookup := ki_nlookup n + 1\<rparr>)"]
    have "s' = queue_forget (eo_nodeid e) 1 s \<or> ki_nodeid n = eo_nodeid e \<and> inode_refs s' = (inode_refs s)(a \<mapsto> (eo_nodeid e, ki_nlookup n + 1)) \<and> ks_conn s' = ks_conn s"
      using assms n False kept
      by (auto simp: fuse_dentry_revalidate_reply_def Let_def ENOMEM_def split: if_splits prod.splits)
    then show ?thesis
    proof
      assume c: "ki_nodeid n = eo_nodeid e \<and> inode_refs s' = (inode_refs s)(a \<mapsto> (eo_nodeid e, ki_nlookup n + 1)) \<and> ks_conn s' = ks_conn s"
      then have "one_more_lookup (eo_nodeid e) s (Some a) s'" using r by (simp add: one_more_lookup_def)
      then show ?thesis using False by (auto simp: entry_counted_def)
    qed (use False in \<open>simp add: entry_counted_def queue_forget_def\<close>)
  qed
qed

subsection \<open>Kernel and library together\<close>

text \<open>
  The kernel, the library, the entry replies and forgets under way between them, and the lookups that are lost: answered by the library, but neither
  counted nor given back by the kernel.
\<close>

record lookup_sys =
  sy_kernel :: kstate
  sy_lib :: fuse
  sy_replies :: "fuse_entry_out list"
  sy_forgets :: "(64 word \<times> 64 word) list"
  sy_lost :: "64 word \<Rightarrow> nat"

text \<open>The entries of a forget message.\<close>

fun forgets_of :: "kmsg_header \<Rightarrow> kmsg_body \<Rightarrow> (64 word \<times> 64 word) list" where
  "forgets_of h (Forget_in n) = [(kh_nodeid h, n)]"
| "forgets_of h (Batch_forget_in c fs) = fs"
| "forgets_of h (Interrupt_in u) = []"

text \<open>
  The steps while the connection lasts. The library answers a lookup with an entry whose attributes come from the file system; the kernel refuses a reply
  whose request is gone, and the library then forgets (\<open>reply_entry\<close>); the kernel takes a reply as that of a lookup, of the creation of an entry or of a
  revalidation; an inode is evicted; forgets are read from the device, where the copy may fail, and processed by the library. No node is looked up
  \<open>2 ^ 64\<close> times.
\<close>

inductive lookup_step :: "vfs \<Rightarrow> kmount \<Rightarrow> lookup_sys \<Rightarrow> lookup_sys \<Rightarrow> bool" for v km where
  answer: "find_node newp d parent name (sy_lib s) = Some (Done (Some q, f')) \<Longrightarrow> \<forall>p. newp = Some p \<longrightarrow> p \<notin> alive (sy_lib s) \<Longrightarrow>
    lookups_of (sy_lib s) (nid f' q) + 1 < 2 ^ 64 \<Longrightarrow> eo_nodeid e = nid f' q \<Longrightarrow>
    lookup_step v km s (s\<lparr>sy_lib := f', sy_replies := sy_replies s @ [e]\<rparr>)"
| internal: "lib_internal (sy_lib s) f' \<Longrightarrow> lookup_step v km s (s\<lparr>sy_lib := f'\<rparr>)"
| reply_refused: "sy_replies s = xs @ e # ys \<Longrightarrow> forget_node now (eo_nodeid e) 1 (sy_lib s) = Some (Done f') \<Longrightarrow>
    lookup_step v km s (s\<lparr>sy_lib := f', sy_replies := xs @ ys\<rparr>)"
| entry_reply: "sy_replies s = xs @ e # ys \<Longrightarrow> iq_connected (ks_conn (sy_kernel s)) \<Longrightarrow>
    fuse_lookup_name_reply v km 0 e ver (sy_kernel s) = Some (Done (err, r, k')) \<or>
    create_new_entry_reply v km mode 0 e (sy_kernel s) = Some (Done (err, r, k')) \<or>
    fuse_create_open_reply v km 0 e (sy_kernel s) = Some (Done (err, r, k')) \<Longrightarrow>
    lookup_step v km s (s\<lparr>sy_kernel := k', sy_replies := xs @ ys,
      sy_lost := (if r = None \<and> err \<noteq> - ENOMEM then (sy_lost s)(eo_nodeid e := sy_lost s (eo_nodeid e) + 1) else sy_lost s)\<rparr>)"
| revalidate_reply: "sy_replies s = xs @ e # ys \<Longrightarrow> iq_connected (ks_conn (sy_kernel s)) \<Longrightarrow>
    fuse_dentry_revalidate_reply km a 0 e ver (sy_kernel s) = Done (ret, k') \<Longrightarrow>
    lookup_step v km s (s\<lparr>sy_kernel := k', sy_replies := xs @ ys,
      sy_lost := (if eo_nodeid e = 0 then (sy_lost s)(eo_nodeid e := sy_lost s (eo_nodeid e) + 1) else sy_lost s)\<rparr>)"
| evict: "iq_connected (ks_conn (sy_kernel s)) \<Longrightarrow> fuse_evict_inode True a (sy_kernel s) = Done k' \<Longrightarrow>
    lookup_step v km s (s\<lparr>sy_kernel := k'\<rparr>)"
| other_requests: "iq_forgets c' = iq_forgets (ks_conn (sy_kernel s)) \<Longrightarrow>
    lookup_step v km s (s\<lparr>sy_kernel := (sy_kernel s)\<lparr>ks_conn := c'\<rparr>\<rparr>)"
| read_forgets: "fuse_read_forget 0 nbytes (ks_conn (sy_kernel s)) = Done (res, Some (h, body), c') \<Longrightarrow>
    lookup_step v km s (s\<lparr>sy_kernel := (sy_kernel s)\<lparr>ks_conn := c'\<rparr>, sy_forgets := sy_forgets s @ forgets_of h body\<rparr>)"
| read_fails: "fuse_read_forget copy_err nbytes (ks_conn (sy_kernel s)) = Done (res, None, c') \<Longrightarrow>
    iq_forgets (ks_conn (sy_kernel s)) = dropped @ iq_forgets c' \<Longrightarrow>
    lookup_step v km s (s\<lparr>sy_kernel := (sy_kernel s)\<lparr>ks_conn := c'\<rparr>, sy_lost := (\<lambda>i. sy_lost s i + forget_sum dropped i)\<rparr>)"
| forget: "sy_forgets s = xs @ (i, k) # ys \<Longrightarrow> forget_node now i (unat k) (sy_lib s) = Some (Done f') \<Longrightarrow>
    lookup_step v km s (s\<lparr>sy_lib := f', sy_forgets := xs @ ys\<rparr>)"

text \<open>A new connection: the library has only its root, and the kernel at most inodes of the root.\<close>

definition new_sys :: "lookup_sys \<Rightarrow> bool" where
  "new_sys s \<longleftrightarrow> (\<exists>root realloc_ok. sy_lib s = fuse_new_tree root 0 realloc_ok) \<and> finite (dom (inode_refs (sy_kernel s))) \<and>
     (\<forall>a i k. inode_refs (sy_kernel s) a = Some (i, k) \<longrightarrow> i = FUSE_ROOT_ID) \<and> iq_forgets (ks_conn (sy_kernel s)) = [] \<and>
     sy_replies s = [] \<and> sy_forgets s = [] \<and> sy_lost s = (\<lambda>_. 0)"

inductive lookup_reachable :: "vfs \<Rightarrow> kmount \<Rightarrow> lookup_sys \<Rightarrow> bool" for v km where
  lookup_new: "new_sys s \<Longrightarrow> lookup_reachable v km s"
| lookup_next: "lookup_reachable v km s \<Longrightarrow> lookup_step v km s s' \<Longrightarrow> lookup_reachable v km s'"

definition outstanding :: "lookup_sys \<Rightarrow> 64 word \<Rightarrow> nat" where
  "outstanding s i = sum_refs (inode_refs (sy_kernel s)) i + forget_sum (iq_forgets (ks_conn (sy_kernel s))) i +
     forget_sum (sy_forgets s) i + count_list (map eo_nodeid (sy_replies s)) i + sy_lost s i"

definition nonzero_forgets :: "(64 word \<times> 64 word) list \<Rightarrow> bool" where
  "nonzero_forgets fs \<longleftrightarrow> list_all (\<lambda>(i, k). k \<noteq> 0) fs"

definition lookup_inv :: "lookup_sys \<Rightarrow> bool" where
  "lookup_inv s \<longleftrightarrow> lib.balanced (sy_lib s) (outstanding s) \<and> finite (dom (inode_refs (sy_kernel s))) \<and>
     nonzero_forgets (iq_forgets (ks_conn (sy_kernel s))) \<and> nonzero_forgets (sy_forgets s)"

definition in_kernel :: "kstate \<Rightarrow> 64 word \<Rightarrow> nat" where
  "in_kernel k i = sum_refs (inode_refs k) i + forget_sum (iq_forgets (ks_conn k)) i"

definition kernel_fine :: "kstate \<Rightarrow> bool" where
  "kernel_fine k \<longleftrightarrow> finite (dom (inode_refs k)) \<and> nonzero_forgets (iq_forgets (ks_conn k))"

lemma nonzero_simps [simp]:
  "nonzero_forgets []" "nonzero_forgets ((i, k) # fs) \<longleftrightarrow> k \<noteq> 0 \<and> nonzero_forgets fs"
  "nonzero_forgets (fs @ gs) \<longleftrightarrow> nonzero_forgets fs \<and> nonzero_forgets gs"
  by (simp_all add: nonzero_forgets_def)

lemma one_more_finite:
  assumes "one_more_lookup i s r s'" and "finite (dom (inode_refs s))"
  shows "finite (dom (inode_refs s'))"
proof (cases r)
  case None
  then show ?thesis using assms by (simp add: one_more_lookup_def)
next
  case (Some a)
  then show ?thesis using assms by (cases "inode_refs s a") (auto simp: one_more_lookup_def)
qed

lemma entry_counted_in_kernel:
  assumes "entry_counted i k k'" and "kernel_fine k" and "iq_connected (ks_conn k)"
  shows "kernel_fine k'" "(j = i \<Longrightarrow> in_kernel k i + 1 < 2 ^ 64) \<Longrightarrow> in_kernel k' j = in_kernel k j + (if j = i then 1 else 0)"
proof -
  from assms(1) consider (one) a where "one_more_lookup i k (Some a) k'"
    | (queued) "inode_refs k' = inode_refs k" "ks_conn k' = fuse_queue_forget i 1 (ks_conn k)"
    by (auto simp: entry_counted_def)
  then have "kernel_fine k' \<and> ((j = i \<longrightarrow> in_kernel k i + 1 < 2 ^ 64) \<longrightarrow> in_kernel k' j = in_kernel k j + (if j = i then 1 else 0))"
  proof cases
    case one
    then have c: "ks_conn k' = ks_conn k" by (simp add: one_more_lookup_def)
    show ?thesis
      using one_more_finite[OF one] sum_refs_one_more[OF one, of j] assms(2) by (auto simp: kernel_fine_def in_kernel_def c)
  next
    case queued
    then show ?thesis using assms(2,3) by (simp add: kernel_fine_def in_kernel_def fuse_queue_forget_def)
  qed
  then show "kernel_fine k'" "(j = i \<Longrightarrow> in_kernel k i + 1 < 2 ^ 64) \<Longrightarrow> in_kernel k' j = in_kernel k j + (if j = i then 1 else 0)"
    by blast+
qed

lemma evict_in_kernel:
  assumes "fuse_evict_inode True a k = Done k'" and "kernel_fine k" and "iq_connected (ks_conn k)"
  shows "kernel_fine k'" "in_kernel k' = in_kernel k"
proof -
  obtain n where n: "ks_inodes k a = Some n" using assms(1) by (cases "ks_inodes k a") (simp_all add: fuse_evict_inode_def)
  then have r: "inode_refs k a = Some (ki_nodeid n, ki_nlookup n)" by (simp add: inode_refs_def)
  have k': "inode_refs k' = (inode_refs k)(a := None)"
    "ks_conn k' = (if ki_nlookup n \<noteq> 0 then fuse_queue_forget (ki_nodeid n) (ki_nlookup n) (ks_conn k) else ks_conn k)"
    using assms(1) n by (auto simp: fuse_evict_inode_def queue_forget_def inode_refs_def fun_eq_iff Let_def)
  show "kernel_fine k'" using assms(2,3) by (auto simp: kernel_fine_def k' fuse_queue_forget_def)
  have "finite (dom (inode_refs k))" using assms(2) by (simp add: kernel_fine_def)
  then show "in_kernel k' = in_kernel k"
    using sum_refs_take[where m = "inode_refs k" and a = a] r assms(3) by (auto simp: in_kernel_def k' fuse_queue_forget_def fun_eq_iff)
qed

lemma read_forget_takes:
  assumes "fuse_read_forget 0 nbytes c = Done (res, Some (h, body), c')"
  shows "iq_forgets c = forgets_of h body @ iq_forgets c'"
  using assms
  by (cases "iq_forgets c")
    (auto simp: fuse_read_forget_def fuse_read_single_forget_def fuse_read_batch_forget_def fuse_dequeue_forget_def fuse_get_unique_def Let_def
      split: if_splits)

lemma outstanding_in_kernel:
  "outstanding s i = in_kernel (sy_kernel s) i + forget_sum (sy_forgets s) i + count_list (map eo_nodeid (sy_replies s)) i + sy_lost s i"
  by (simp add: outstanding_def in_kernel_def)

lemma lookup_inv_alt:
  "lookup_inv s \<longleftrightarrow> lib.balanced (sy_lib s) (outstanding s) \<and> kernel_fine (sy_kernel s) \<and> nonzero_forgets (sy_forgets s)"
  by (auto simp: lookup_inv_def kernel_fine_def)

text \<open>Each step keeps the balance.\<close>

lemma reply_taken_inv:
  assumes inv: "lookup_inv s" and e: "sy_replies s = xs @ e # ys" and c: "iq_connected (ks_conn (sy_kernel s))"
    and k': "if l then kernel_fine k' \<and> in_kernel k' = in_kernel (sy_kernel s) else entry_counted (eo_nodeid e) (sy_kernel s) k'"
  shows "lookup_inv (s\<lparr>sy_kernel := k', sy_replies := xs @ ys,
      sy_lost := (if l then (sy_lost s)(eo_nodeid e := sy_lost s (eo_nodeid e) + 1) else sy_lost s)\<rparr>)"
    (is "lookup_inv ?s")
proof -
  have b: "lib.balanced (sy_lib s) (outstanding s)" and f: "kernel_fine (sy_kernel s)" and z: "nonzero_forgets (sy_forgets s)"
    using inv by (simp_all add: lookup_inv_alt)
  have lt: "in_kernel (sy_kernel s) j + (if j = eo_nodeid e then 1 else 0) < 2 ^ 64" if "j \<noteq> FUSE_ROOT_ID" for j
    using b that unfolding lib.balanced_def outstanding_in_kernel e by (auto split: if_splits)
  have "in_kernel k' j + (if l \<and> j = eo_nodeid e then 1 else 0) = in_kernel (sy_kernel s) j + (if j = eo_nodeid e then 1 else 0)"
    if "j \<noteq> FUSE_ROOT_ID" for j
  proof (cases l)
    case True
    then show ?thesis using k' by simp
  next
    case False
    then have "entry_counted (eo_nodeid e) (sy_kernel s) k'" using k' by simp
    from entry_counted_in_kernel(2)[OF this f c, of j] show ?thesis using lt[OF that] False by (cases "j = eo_nodeid e") simp_all
  qed
  then have "outstanding ?s j = outstanding s j" if "j \<noteq> FUSE_ROOT_ID" for j
    using that by (auto simp: outstanding_in_kernel e split: if_splits)
  from lib.balanced_cong[OF b this] have "lib.balanced (sy_lib s) (outstanding ?s)" by simp
  moreover have "kernel_fine k'" using k' entry_counted_in_kernel(1)[OF _ f c] by (cases l) auto
  ultimately show ?thesis using z by (simp add: lookup_inv_alt)
qed

lemma lookup_step_inv:
  assumes "lookup_step v km s s'" and inv: "lookup_inv s" and v: "vfs_ok v"
  shows "lookup_inv s'"
proof -
  have b: "lib.balanced (sy_lib s) (outstanding s)" and f: "kernel_fine (sy_kernel s)" and z: "nonzero_forgets (sy_forgets s)"
    using inv by (simp_all add: lookup_inv_alt)
  from assms(1) show ?thesis
  proof cases
    case (answer newp d parent name q f' e)
    have "outstanding s' = (outstanding s)(eo_nodeid e := outstanding s (eo_nodeid e) + 1)"
      using answer(1) by (auto simp: outstanding_in_kernel fun_eq_iff)
    moreover have "lib_grant (eo_nodeid e) (sy_lib s) f'" unfolding answer(5) by (rule lib_grant.intros[OF answer(2,3)])
    ultimately show ?thesis using lib.balanced_grant[OF b] answer(1,4,5) f z by (simp add: lookup_inv_alt)
  next
    case (internal f')
    have "outstanding s' = outstanding s" using internal(1) by (simp add: outstanding_in_kernel fun_eq_iff)
    then show ?thesis using lib.balanced_internal[OF b internal(2)] internal(1) f z by (simp add: lookup_inv_alt)
  next
    case (reply_refused xs e ys now f')
    have "lib.balanced f' (outstanding s')"
      by (rule lib.balanced_give_back[OF b lib_give_back.intros[OF reply_refused(3)]])
        (auto simp: reply_refused(1,2) outstanding_in_kernel)
    then show ?thesis using reply_refused(1) f z by (simp add: lookup_inv_alt)
  next
    case (entry_reply xs e ys ver err r k' mode)
    from entry_reply_effect[OF v entry_reply(4)] show ?thesis
      unfolding entry_reply(1) by (intro reply_taken_inv[OF inv entry_reply(2,3)]) (use f in auto)
  next
    case (revalidate_reply xs e ys a ver ret k')
    from revalidate_reply_effect[OF revalidate_reply(4)] show ?thesis
      unfolding revalidate_reply(1)
      by (intro reply_taken_inv[OF inv revalidate_reply(2,3)]) (use f in \<open>auto simp: kernel_fine_def in_kernel_def\<close>)
  next
    case (evict a k')
    note k = evict_in_kernel[OF evict(3) f evict(2)]
    have "outstanding s' = outstanding s" using evict(1) k(2) by (simp add: outstanding_in_kernel fun_eq_iff)
    then show ?thesis using b k(1) z evict(1) by (simp add: lookup_inv_alt)
  next
    case (other_requests c')
    have "outstanding s' = outstanding s" using other_requests by (simp add: outstanding_in_kernel in_kernel_def fun_eq_iff)
    then show ?thesis using b f z other_requests by (simp add: lookup_inv_alt kernel_fine_def)
  next
    case (read_forgets nbytes res h body c')
    note t = read_forget_takes[OF read_forgets(2)]
    have "outstanding s' = outstanding s" using read_forgets(1) t by (simp add: outstanding_in_kernel in_kernel_def fun_eq_iff)
    then show ?thesis using b f z read_forgets(1) t by (simp add: lookup_inv_alt kernel_fine_def)
  next
    case (read_fails copy_err nbytes res c' dropped)
    have "outstanding s' = outstanding s" using read_fails(1,3) by (simp add: outstanding_in_kernel in_kernel_def fun_eq_iff)
    then show ?thesis using b f z read_fails(1,3) by (simp add: lookup_inv_alt kernel_fine_def)
  next
    case (forget xs i k ys now f')
    have "0 < unat k" using z forget(2) by (simp add: unat_gt_0)
    then have "lib.balanced f' (outstanding s')"
      by (rule lib.balanced_give_back[OF b lib_give_back.intros[OF forget(3)]]) (auto simp: forget(1,2) outstanding_in_kernel)
    then show ?thesis using forget(1,2) f z by (simp add: lookup_inv_alt)
  qed
qed

lemma new_tree_lookups: "i \<noteq> FUSE_ROOT_ID \<Longrightarrow> lookups_of (fuse_new_tree root 0 realloc_ok) i = 0"
proof (rule ccontr)
  let ?f = "fuse_new_tree root 0 realloc_ok"
  assume i: "i \<noteq> FUSE_ROOT_ID" and "lookups_of ?f i \<noteq> 0"
  then obtain p where "node_refs ?f p = Some (i, lookups_of ?f i)" using lookups_node_refs[OF fuse_new_tree_ok] by blast
  then obtain n where "f_nodes ?f p = Some n" "nodeid n = i" by (auto simp: node_refs_def split: option.splits if_splits)
  then show False using i by (auto simp: fuse_new_tree_def Let_def inc_nlookup_def zero_node_def split: if_splits)
qed

lemma new_sys_inv: "new_sys s \<Longrightarrow> lookup_inv s"
proof -
  assume n: "new_sys s"
  then obtain root realloc_ok where f: "sy_lib s = fuse_new_tree root 0 realloc_ok" by (auto simp: new_sys_def)
  have "sum_refs (inode_refs (sy_kernel s)) i = 0" if "i \<noteq> FUSE_ROOT_ID" for i
    using n that by (auto simp: sum_refs_def new_sys_def split: option.splits)
  then have "outstanding s i = 0" if "i \<noteq> FUSE_ROOT_ID" for i using n that by (simp add: outstanding_def new_sys_def)
  moreover have "conf_remember (sy_lib s) = 0" by (simp add: f fuse_new_tree_def Let_def inc_nlookup_def)
  ultimately have "lib.balanced (sy_lib s) (outstanding s)"
    using new_tree_lookups fuse_new_tree_ok by (simp add: lib.balanced_def lib_good_def f)
  then show "lookup_inv s" using n by (simp add: lookup_inv_def new_sys_def)
qed

lemma lookup_reachable_inv: "lookup_reachable v km s \<Longrightarrow> vfs_ok v \<Longrightarrow> lookup_inv s"
  by (induction rule: lookup_reachable.induct) (auto intro: new_sys_inv lookup_step_inv)

text \<open>
  Claim C4 (lookup_counts_balance). Under any interleaving of lookups, creations, revalidations, evictions, forget messages, refused replies, renames and
  removals, whatever attributes the file system reports and whenever memory is short, the lookup count of every node of the library is the sum of the counts of
  the kernel's inodes with its id, the forgets in the kernel's queue and in messages, the entry replies under way, and the lookups lost with entries that
  the kernel rejected and with forgets whose copy to the daemon failed. The tree of nodes stays consistent.
\<close>

theorem lookup_counts_balance:
  assumes "vfs_ok v" and "lookup_reachable v km s" and "i \<noteq> FUSE_ROOT_ID"
  shows "lookups_of (sy_lib s) i = sum_refs (inode_refs (sy_kernel s)) i + forget_sum (iq_forgets (ks_conn (sy_kernel s))) i +
      forget_sum (sy_forgets s) i + count_list (map eo_nodeid (sy_replies s)) i + sy_lost s i \<and> tree_ok (sy_lib s)"
  using lookup_reachable_inv[OF assms(2,1)] assms(3) by (simp add: lookup_inv_def lib.balanced_def lib_good_def outstanding_def)

lemma forget_in_balance:
  assumes "lookup_inv s" and "calm rank (sy_lib s)" and "i \<noteq> FUSE_ROOT_ID \<Longrightarrow> k \<le> outstanding s i" and "0 < k"
  shows "\<exists>f'. forget_node now i k (sy_lib s) = Some (Done f')"
proof (cases "i = FUSE_ROOT_ID")
  case True
  then show ?thesis by (simp add: forget_node_def)
next
  case False
  then have h: "k \<le> lookups_of (sy_lib s) i" and ok: "tree_ok (sy_lib s)"
    using assms(1,3) by (simp_all add: lookup_inv_def lib.balanced_def lib_good_def)
  then obtain p n where "get_node (sy_lib s) i = Done p" "f_nodes (sy_lib s) p = Some n" "k \<le> nlookup n"
    using assms(4) by (auto simp: lookups_of_def split: outcome.splits option.splits)
  from forget_node_returns[OF ok assms(2) this(1,2) assms(4) this(3) False] show ?thesis by blast
qed

text \<open>
  Claim C5 (kernel_references_valid). In every such state the library has a node for the id of every inode the kernel holds with a lookup count, so no request on it
  ends in the abort of \<open>get_node\<close>; and, while no path is locked and the parent chains are acyclic, every forget that is under way, in a message or in the kernel's
  queue, and the forget for a refused reply, is processed without tripping the assertion on the count.
\<close>

theorem kernel_references_valid:
  assumes "vfs_ok v" and "lookup_reachable v km s" and "calm rank (sy_lib s)"
  shows "(\<forall>a n. ks_inodes (sy_kernel s) a = Some n \<and> ki_nlookup n \<noteq> 0 \<and> ki_nodeid n \<noteq> FUSE_ROOT_ID \<longrightarrow>
      (\<exists>p. get_node (sy_lib s) (ki_nodeid n) = Done p)) \<and>
    (\<forall>i k. (i, k) \<in> set (sy_forgets s) \<union> set (iq_forgets (ks_conn (sy_kernel s))) \<longrightarrow>
      (\<exists>f'. forget_node now i (unat k) (sy_lib s) = Some (Done f'))) \<and>
    (\<forall>e. e \<in> set (sy_replies s) \<longrightarrow> (\<exists>f'. forget_node now (eo_nodeid e) 1 (sy_lib s) = Some (Done f')))"
proof (intro conjI allI impI)
  note inv = lookup_reachable_inv[OF assms(2,1)]
  have held: "lookups_of (sy_lib s) i = outstanding s i" if "i \<noteq> FUSE_ROOT_ID" for i
    using inv that by (simp add: lookup_inv_def lib.balanced_def)
  show "\<exists>p. get_node (sy_lib s) (ki_nodeid n) = Done p"
    if a: "ks_inodes (sy_kernel s) a = Some n \<and> ki_nlookup n \<noteq> 0 \<and> ki_nodeid n \<noteq> FUSE_ROOT_ID" for a n
  proof -
    have "unat (ki_nlookup n) \<le> sum_refs (inode_refs (sy_kernel s)) (ki_nodeid n)"
      using inv a by (intro sum_refs_le[where a = a]) (simp_all add: lookup_inv_def inode_refs_def)
    moreover have "0 < unat (ki_nlookup n)" using a by (simp add: unat_gt_0)
    ultimately have "0 < outstanding s (ki_nodeid n)" unfolding outstanding_def by linarith
    then have "0 < lookups_of (sy_lib s) (ki_nodeid n)" using held a by simp
    then show ?thesis by (auto simp: lookups_of_def split: outcome.splits)
  qed
  show "\<exists>f'. forget_node now i (unat k) (sy_lib s) = Some (Done f')"
    if f: "(i, k) \<in> set (sy_forgets s) \<union> set (iq_forgets (ks_conn (sy_kernel s)))" for i k
  proof (rule forget_in_balance[OF inv assms(3)])
    show "0 < unat k" using inv f by (auto simp: lookup_inv_def nonzero_forgets_def list_all_iff unat_gt_0)
    show "unat k \<le> outstanding s i" using f by (auto simp: outstanding_def in_set_conv_decomp)
  qed
  show "\<exists>f'. forget_node now (eo_nodeid e) 1 (sy_lib s) = Some (Done f')" if e: "e \<in> set (sy_replies s)" for e
    using e by (intro forget_in_balance[OF inv assms(3)]) (auto simp: outstanding_def in_set_conv_decomp)
qed

text \<open>A run: the library answers a lookup of the file \<open>a\<close>. The inode cache puts the inode of an id at the address that is the id.\<close>

definition demo_vfs :: vfs where
  "demo_vfs = \<lparr>v_iget5 = (\<lambda>s i. case ks_inodes s (unat i) of
       None \<Rightarrow> if \<exists>b n. ks_inodes s b = Some n \<and> ki_hashed n \<and> ki_nodeid n = i then None else Some (unat i, True)
     | Some n \<Rightarrow> if ki_hashed n \<and> ki_nodeid n = i then Some (unat i, False) else None),
     v_new_inode = (\<lambda>s. if ks_inodes s 0 = None then Some 0 else None)\<rparr>"

lemma demo_vfs_ok: "vfs_ok demo_vfs"
  by (auto simp: vfs_ok_def demo_vfs_def split: option.splits if_splits)

definition demo_kmount :: kmount where
  "demo_kmount = \<lparr>km_fc = fuse_conn_fresh False 0 False 32, km_auto_submounts = False, km_kuid = id, km_kgid = id, km_blocksize_bits = 9\<rparr>"

definition demo_sys :: lookup_sys where
  "demo_sys = \<lparr>sy_kernel = \<lparr>ks_inodes = Map.empty, ks_attr_version = 1, ks_conn = (demo_queue 0)\<lparr>iq_forgets := []\<rparr>\<rparr>,
     sy_lib = fuse_new_tree 0 0 (\<lambda>_. True), sy_replies = [], sy_forgets = [], sy_lost = (\<lambda>_. 0)\<rparr>"

definition demo_entry :: "64 word \<Rightarrow> fuse_entry_out" where
  "demo_entry i = \<lparr>eo_nodeid = i, eo_generation = 0, eo_attr = \<lparr>at_ino = 7, at_size = 5, at_blocks = 1, at_atime = (1, 0), at_mtime = (2, 0),
     at_ctime = (3, 0), at_mode = 0x81A4, at_nlink = 1, at_uid = 0, at_gid = 0, at_blksize = 4096, at_flags = 0\<rparr>, eo_attr_valid = 0\<rparr>"

lemma demo_answered:
  "\<exists>f. lookup_reachable demo_vfs demo_kmount (demo_sys\<lparr>sy_lib := f, sy_replies := [demo_entry (nid f 1)]\<rparr>) \<and> calm id f \<and> nid f 1 \<noteq> FUSE_ROOT_ID"
proof -
  obtain f where f: "calm id f" "nid f 1 \<noteq> FUSE_ROOT_ID"
    "find_node (Some 1) True FUSE_ROOT_ID (Some ''a'') (fuse_new_tree 0 0 (\<lambda>_. True)) = Some (Done (Some 1, f))"
    using example_tree by blast
  have n: "new_sys demo_sys" by (auto simp: new_sys_def demo_sys_def inode_refs_def dom_def)
  have "lookup_step demo_vfs demo_kmount demo_sys (demo_sys\<lparr>sy_lib := f, sy_replies := sy_replies demo_sys @ [demo_entry (nid f 1)]\<rparr>)"
    by (rule lookup_step.answer[where newp = "Some 1" and q = 1])
      (use f in \<open>simp_all add: demo_sys_def root_alive new_tree_lookups demo_entry_def\<close>)
  from lookup_next[OF lookup_new[OF n] this] show ?thesis using f by (intro exI[of _ f]) (simp add: demo_sys_def)
qed

theorem lookup_counts_balance_witness:
  "\<exists>s i. lookup_reachable demo_vfs demo_kmount s \<and> i \<noteq> FUSE_ROOT_ID \<and> lookups_of (sy_lib s) i = 1 \<and> count_list (map eo_nodeid (sy_replies s)) i = 1"
proof -
  obtain f where r: "lookup_reachable demo_vfs demo_kmount (demo_sys\<lparr>sy_lib := f, sy_replies := [demo_entry (nid f 1)]\<rparr>)" and i: "nid f 1 \<noteq> FUSE_ROOT_ID"
    using demo_answered by blast
  then show ?thesis using lookup_counts_balance[OF demo_vfs_ok r i]
    by (intro exI[of _ "demo_sys\<lparr>sy_lib := f, sy_replies := [demo_entry (nid f 1)]\<rparr>"] exI[of _ "nid f 1"])
      (simp add: demo_sys_def demo_entry_def inode_refs_def sum_refs_def dom_def)
qed

theorem kernel_references_valid_witness:
  "\<exists>s i f'. lookup_reachable demo_vfs demo_kmount s \<and> sy_replies s = [demo_entry i] \<and> forget_node 0 i 1 (sy_lib s) = Some (Done f')"
proof -
  obtain f where r: "lookup_reachable demo_vfs demo_kmount (demo_sys\<lparr>sy_lib := f, sy_replies := [demo_entry (nid f 1)]\<rparr>)" and c: "calm id f"
    using demo_answered by blast
  have "\<exists>f'. forget_node 0 (nid f 1) 1 f = Some (Done f')"
    using kernel_references_valid[OF demo_vfs_ok r, of id 0] c by (simp add: demo_entry_def)
  with r show ?thesis by (intro exI[of _ "demo_sys\<lparr>sy_lib := f, sy_replies := [demo_entry (nid f 1)]\<rparr>"]) auto
qed

end
