(* ===== verification/Fuse_Buffer.thy ===== *)
theory Fuse_Buffer
  imports Fuse_Prelude
begin

text \<open>
  The buffer layer of libfuse (\<open>lib/buffer.c\<close>, \<open>include/fuse_common.h\<close>): buffer vectors
  whose elements are memory regions or file descriptors, and the copy engine between them.

  The system calls \<open>read\<close>, \<open>pread\<close>, \<open>write\<close>, \<open>pwrite\<close> and \<open>splice\<close> are a parameter,
  a record of functions over an abstract kernel state. What the code relies on of them is
  the predicate \<open>os_ok\<close>: a call never reports more bytes than it was asked for, and errno
  is positive. Loops are \<open>partial_function (option)\<close>: \<open>None\<close> is a loop that never ends.
  A failed \<open>assert\<close> is \<open>Aborted\<close>.
\<close>

subsection \<open>Data\<close>

definition FUSE_BUF_IS_FD :: "32 word" where "FUSE_BUF_IS_FD = 2"
definition FUSE_BUF_FD_SEEK :: "32 word" where "FUSE_BUF_FD_SEEK = 4"
definition FUSE_BUF_FD_RETRY :: "32 word" where "FUSE_BUF_FD_RETRY = 8"
definition FUSE_BUF_FD_SECTION :: "32 word" where "FUSE_BUF_FD_SECTION = 16"

definition FUSE_BUF_NO_SPLICE :: "32 word" where "FUSE_BUF_NO_SPLICE = 2"
definition FUSE_BUF_FORCE_SPLICE :: "32 word" where "FUSE_BUF_FORCE_SPLICE = 4"
definition FUSE_BUF_SPLICE_MOVE :: "32 word" where "FUSE_BUF_SPLICE_MOVE = 8"
definition FUSE_BUF_SPLICE_NONBLOCK :: "32 word" where "FUSE_BUF_SPLICE_NONBLOCK = 16"

lemmas buf_flag_defs =
  FUSE_BUF_IS_FD_def FUSE_BUF_FD_SEEK_def FUSE_BUF_FD_RETRY_def FUSE_BUF_FD_SECTION_def
  FUSE_BUF_NO_SPLICE_def FUSE_BUF_FORCE_SPLICE_def FUSE_BUF_SPLICE_MOVE_def
  FUSE_BUF_SPLICE_NONBLOCK_def

definition has_flag :: "32 word \<Rightarrow> 32 word \<Rightarrow> bool" where
  "has_flag fl b \<longleftrightarrow> fl AND b \<noteq> 0"

record fuse_buf =
  buf_size :: nat
  buf_metadata :: nat
  buf_footer :: nat
  buf_flags :: "32 word"
  buf_mem :: nat
  buf_fd :: int
  buf_pos :: int

record fuse_bufvec =
  bv_count :: nat
  bv_idx :: nat
  bv_off :: nat
  bv_buf :: "fuse_buf list"

definition FUSE_BUFVEC_INIT :: "nat \<Rightarrow> fuse_bufvec" where
  "FUSE_BUFVEC_INIT sz = \<lparr>bv_count = 1, bv_idx = 0, bv_off = 0,
     bv_buf = [\<lparr>buf_size = sz, buf_metadata = 0, buf_footer = 0, buf_flags = 0,
                buf_mem = 0, buf_fd = -1, buf_pos = 0\<rparr>]\<rparr>"

text \<open>
  The system calls. \<open>Inl e\<close> is a return of -1 with errno \<open>e\<close>. A write gives the number of
  bytes taken, a read the bytes delivered, a splice the number of bytes moved and the two
  offsets as the call leaves them (absent offsets stay absent).
\<close>

record 'w os =
  os_write :: "int \<Rightarrow> byte list \<Rightarrow> 'w \<Rightarrow> (int + nat) \<times> 'w"
  os_pwrite :: "int \<Rightarrow> byte list \<Rightarrow> int \<Rightarrow> 'w \<Rightarrow> (int + nat) \<times> 'w"
  os_read :: "int \<Rightarrow> nat \<Rightarrow> 'w \<Rightarrow> (int + byte list) \<times> 'w"
  os_pread :: "int \<Rightarrow> nat \<Rightarrow> int \<Rightarrow> 'w \<Rightarrow> (int + byte list) \<times> 'w"
  os_splice :: "int \<Rightarrow> int option \<Rightarrow> int \<Rightarrow> int option \<Rightarrow> nat \<Rightarrow> nat \<Rightarrow> 'w \<Rightarrow>
     (int + nat \<times> int option \<times> int option) \<times> 'w"

definition SPLICE_F_MOVE :: nat where "SPLICE_F_MOVE = 1"
definition SPLICE_F_NONBLOCK :: nat where "SPLICE_F_NONBLOCK = 2"

subsection \<open>Operations\<close>

fun fuse_buf_size_loop :: "nat \<Rightarrow> fuse_buf list \<Rightarrow> nat" where
  "fuse_buf_size_loop sz [] = sz"
| "fuse_buf_size_loop sz (b # bs) =
     fuse_buf_size_loop (if buf_size b = SIZE_MAX then SIZE_MAX else sz_add sz (buf_size b)) bs"

definition fuse_buf_size :: "fuse_bufvec \<Rightarrow> nat" where
  "fuse_buf_size bufv = fuse_buf_size_loop 0 (take (bv_count bufv) (bv_buf bufv))"

definition min_size :: "nat \<Rightarrow> nat \<Rightarrow> nat" where
  "min_size s1 s2 = (if s1 < s2 then s1 else s2)"

text \<open>One iteration's system call of \<open>fuse_buf_write\<close>, then the loop with the locals
  \<open>copied\<close>, \<open>src_off\<close>, \<open>dst_off\<close> and \<open>len\<close>.\<close>

definition write_call :: "'w os \<Rightarrow> fuse_buf \<Rightarrow> nat \<Rightarrow> byte list \<Rightarrow> 'w \<Rightarrow> (int + nat) \<times> 'w" where
  "write_call os dst dst_off bs w =
     (if has_flag (buf_flags dst) FUSE_BUF_FD_SEEK
      then os_pwrite os (buf_fd dst) bs (buf_pos dst + int dst_off) w
      else os_write os (buf_fd dst) bs w)"

partial_function (option) fuse_buf_write_loop ::
  "'w os \<Rightarrow> fuse_buf \<Rightarrow> nat \<Rightarrow> fuse_buf \<Rightarrow> nat \<Rightarrow> nat \<Rightarrow> nat \<Rightarrow> memory \<Rightarrow> 'w \<Rightarrow> (int \<times> 'w) option" where
  "fuse_buf_write_loop os dst dst_off src src_off len copied m w =
     (if len = 0 then Some (to_ssize copied, w)
      else case write_call os dst dst_off (mem_read m (buf_mem src + src_off) len) w of (res, w') \<Rightarrow>
        (case res of
           Inl e \<Rightarrow> if copied = 0 then Some (- e, w') else Some (to_ssize copied, w')
         | Inr n \<Rightarrow>
             if n = 0 then Some (to_ssize copied, w')
             else if \<not> has_flag (buf_flags dst) FUSE_BUF_FD_RETRY
               then Some (to_ssize (sz_add copied n), w')
             else fuse_buf_write_loop os dst (sz_add dst_off n) src (sz_add src_off n)
                    (sz_sub len n) (sz_add copied n) m w'))"

definition fuse_buf_write ::
  "'w os \<Rightarrow> fuse_buf \<Rightarrow> nat \<Rightarrow> fuse_buf \<Rightarrow> nat \<Rightarrow> nat \<Rightarrow> memory \<Rightarrow> 'w \<Rightarrow> (int \<times> 'w) option" where
  "fuse_buf_write os dst dst_off src src_off len m w =
     fuse_buf_write_loop os dst dst_off src src_off len 0 m w"

definition read_call :: "'w os \<Rightarrow> fuse_buf \<Rightarrow> nat \<Rightarrow> nat \<Rightarrow> 'w \<Rightarrow> (int + byte list) \<times> 'w" where
  "read_call os src src_off len w =
     (if has_flag (buf_flags src) FUSE_BUF_FD_SEEK
      then os_pread os (buf_fd src) len (buf_pos src + int src_off) w
      else os_read os (buf_fd src) len w)"

partial_function (option) fuse_buf_read_loop ::
  "'w os \<Rightarrow> fuse_buf \<Rightarrow> nat \<Rightarrow> fuse_buf \<Rightarrow> nat \<Rightarrow> nat \<Rightarrow> nat \<Rightarrow> memory \<Rightarrow> 'w \<Rightarrow>
     (int \<times> memory \<times> 'w) option" where
  "fuse_buf_read_loop os dst dst_off src src_off len copied m w =
     (if len = 0 then Some (to_ssize copied, m, w)
      else case read_call os src src_off len w of (res, w') \<Rightarrow>
        (case res of
           Inl e \<Rightarrow> if copied = 0 then Some (- e, m, w') else Some (to_ssize copied, m, w')
         | Inr bs \<Rightarrow>
             if length bs = 0 then Some (to_ssize copied, m, w')
             else if \<not> has_flag (buf_flags src) FUSE_BUF_FD_RETRY
               then Some (to_ssize (sz_add copied (length bs)),
                          mem_write m (buf_mem dst + dst_off) bs, w')
             else fuse_buf_read_loop os dst (sz_add dst_off (length bs)) src
                    (sz_add src_off (length bs)) (sz_sub len (length bs))
                    (sz_add copied (length bs)) (mem_write m (buf_mem dst + dst_off) bs) w'))"

definition fuse_buf_read ::
  "'w os \<Rightarrow> fuse_buf \<Rightarrow> nat \<Rightarrow> fuse_buf \<Rightarrow> nat \<Rightarrow> nat \<Rightarrow> memory \<Rightarrow> 'w \<Rightarrow> (int \<times> memory \<times> 'w) option" where
  "fuse_buf_read os dst dst_off src src_off len m w =
     fuse_buf_read_loop os dst dst_off src src_off len 0 m w"

text \<open>
  \<open>fuse_buf_fd_to_fd\<close> bounces the data through the stack array \<open>char buf[4096]\<close>. No other
  object shares that array, so it is a memory of its own (\<open>buf\<close>, at address 0); its bytes
  are read only where a read has just stored them.
\<close>

definition fd_tmp :: fuse_buf where
  "fd_tmp = \<lparr>buf_size = 4096, buf_metadata = 0, buf_footer = 0, buf_flags = 0,
     buf_mem = 0, buf_fd = 0, buf_pos = 0\<rparr>"

partial_function (option) fuse_buf_fd_to_fd_loop ::
  "'w os \<Rightarrow> fuse_buf \<Rightarrow> nat \<Rightarrow> fuse_buf \<Rightarrow> nat \<Rightarrow> nat \<Rightarrow> nat \<Rightarrow> memory \<Rightarrow> 'w \<Rightarrow> (int \<times> 'w) option" where
  "fuse_buf_fd_to_fd_loop os dst dst_off src src_off len copied buf w =
     (if len = 0 then Some (to_ssize copied, w)
      else Option.bind (fuse_buf_read os fd_tmp 0 src src_off (min_size (buf_size fd_tmp) len) buf w)
        (\<lambda>(res, buf', w').
          if res < 0 then Some (if copied = 0 then res else to_ssize copied, w')
          else if res = 0 then Some (to_ssize copied, w')
          else Option.bind (fuse_buf_write os dst dst_off fd_tmp 0 (nat res) buf' w')
            (\<lambda>(res2, w'').
              if res2 < 0 then Some (if copied = 0 then res2 else to_ssize copied, w'')
              else if res2 = 0 then Some (to_ssize copied, w'')
              else if nat res2 < min_size (buf_size fd_tmp) len
                then Some (to_ssize (sz_add copied (nat res2)), w'')
              else fuse_buf_fd_to_fd_loop os dst (sz_add dst_off (nat res2)) src
                     (sz_add src_off (nat res2)) (sz_sub len (nat res2))
                     (sz_add copied (nat res2)) buf' w'')))"

definition fuse_buf_fd_to_fd ::
  "'w os \<Rightarrow> fuse_buf \<Rightarrow> nat \<Rightarrow> fuse_buf \<Rightarrow> nat \<Rightarrow> nat \<Rightarrow> 'w \<Rightarrow> (int \<times> 'w) option" where
  "fuse_buf_fd_to_fd os dst dst_off src src_off len w =
     fuse_buf_fd_to_fd_loop os dst dst_off src src_off len 0 (\<lambda>_. 0) w"

text \<open>\<open>fuse_buf_splice\<close> (the \<open>HAVE_SPLICE\<close> variant). The offsets \<open>dst_off\<close>, \<open>src_off\<close> and the
  original \<open>len\<close> are only used by the fall-back, which runs before anything was copied.\<close>

partial_function (option) fuse_buf_splice_loop ::
  "'w os \<Rightarrow> fuse_buf \<Rightarrow> nat \<Rightarrow> fuse_buf \<Rightarrow> nat \<Rightarrow> nat \<Rightarrow> 32 word \<Rightarrow> nat \<Rightarrow>
     int option \<Rightarrow> int option \<Rightarrow> nat \<Rightarrow> 'w \<Rightarrow> (int \<times> 'w) option" where
  "fuse_buf_splice_loop os dst dst_off src src_off len flags splice_flags srcpos dstpos copied w =
     (if len = 0 then Some (to_ssize copied, w)
      else case os_splice os (buf_fd src) srcpos (buf_fd dst) dstpos len splice_flags w of (res, w') \<Rightarrow>
        (case res of
           Inl e \<Rightarrow>
             if copied \<noteq> 0 then Some (to_ssize copied, w')
             else if e \<noteq> EINVAL \<or> has_flag flags FUSE_BUF_FORCE_SPLICE then Some (- e, w')
             else fuse_buf_fd_to_fd os dst dst_off src src_off len w'
         | Inr (n, srcpos', dstpos') \<Rightarrow>
             if n = 0 then Some (to_ssize copied, w')
             else if \<not> has_flag (buf_flags src) FUSE_BUF_FD_RETRY
                   \<and> \<not> has_flag (buf_flags dst) FUSE_BUF_FD_RETRY
               then Some (to_ssize (sz_add copied n), w')
             else fuse_buf_splice_loop os dst dst_off src src_off (sz_sub len n) flags splice_flags
                    srcpos' dstpos' (sz_add copied n) w'))"

definition fuse_buf_splice ::
  "'w os \<Rightarrow> fuse_buf \<Rightarrow> nat \<Rightarrow> fuse_buf \<Rightarrow> nat \<Rightarrow> nat \<Rightarrow> 32 word \<Rightarrow> 'w \<Rightarrow> (int \<times> 'w) option" where
  "fuse_buf_splice os dst dst_off src src_off len flags w =
     fuse_buf_splice_loop os dst dst_off src src_off len flags
       ((if has_flag flags FUSE_BUF_SPLICE_MOVE then SPLICE_F_MOVE else 0) +
        (if has_flag flags FUSE_BUF_SPLICE_NONBLOCK then SPLICE_F_NONBLOCK else 0))
       (if has_flag (buf_flags src) FUSE_BUF_FD_SEEK then Some (buf_pos src + int src_off) else None)
       (if has_flag (buf_flags dst) FUSE_BUF_FD_SEEK then Some (buf_pos dst + int dst_off) else None)
       0 w"

text \<open>\<open>memcpy\<close> copies byte by byte (its result on overlapping regions depends on the order);
  \<open>memmove\<close> copies as if through a temporary.\<close>

fun memcpy :: "memory \<Rightarrow> nat \<Rightarrow> nat \<Rightarrow> nat \<Rightarrow> memory" where
  "memcpy m d s 0 = m"
| "memcpy m d s (Suc n) = memcpy (m(d := m s)) (Suc d) (Suc s) n"

definition memmove :: "memory \<Rightarrow> nat \<Rightarrow> nat \<Rightarrow> nat \<Rightarrow> memory" where
  "memmove m d s n = mem_write m d (mem_read m s n)"

definition fuse_buf_copy_one ::
  "'w os \<Rightarrow> fuse_buf \<Rightarrow> nat \<Rightarrow> fuse_buf \<Rightarrow> nat \<Rightarrow> nat \<Rightarrow> 32 word \<Rightarrow> memory \<Rightarrow> 'w \<Rightarrow>
     (int \<times> memory \<times> 'w) option" where
  "fuse_buf_copy_one os dst dst_off src src_off len flags m w =
     (let src_is_fd = has_flag (buf_flags src) FUSE_BUF_IS_FD;
          dst_is_fd = has_flag (buf_flags dst) FUSE_BUF_IS_FD
      in if \<not> src_is_fd \<and> \<not> dst_is_fd then
           (let dstmem = buf_mem dst + dst_off; srcmem = buf_mem src + src_off in
            Some (to_ssize len,
              if dstmem \<noteq> srcmem then
                (if dstmem + len \<le> srcmem \<or> srcmem + len \<le> dstmem
                 then memcpy m dstmem srcmem len else memmove m dstmem srcmem len)
              else m, w))
         else if \<not> src_is_fd then
           map_option (\<lambda>(r, w'). (r, m, w')) (fuse_buf_write os dst dst_off src src_off len m w)
         else if \<not> dst_is_fd then fuse_buf_read os dst dst_off src src_off len m w
         else if has_flag flags FUSE_BUF_NO_SPLICE then
           map_option (\<lambda>(r, w'). (r, m, w')) (fuse_buf_fd_to_fd os dst dst_off src src_off len w)
         else
           map_option (\<lambda>(r, w'). (r, m, w')) (fuse_buf_splice os dst dst_off src src_off len flags w))"

definition fuse_bufvec_current :: "fuse_bufvec \<Rightarrow> fuse_buf option" where
  "fuse_bufvec_current bufv =
     (if bv_idx bufv < bv_count bufv then Some (bv_buf bufv ! bv_idx bufv) else None)"

text \<open>The result is the C return value (0 or 1) and the vector; \<open>Aborted\<close> is a failed assert.\<close>

definition fuse_bufvec_advance :: "fuse_bufvec \<Rightarrow> nat \<Rightarrow> (bool \<times> fuse_bufvec) outcome" where
  "fuse_bufvec_advance bufv len =
     (case fuse_bufvec_current bufv of
        None \<Rightarrow> Done (False, bufv)
      | Some buf \<Rightarrow>
          (let bufv1 = bufv\<lparr>bv_off := sz_add (bv_off bufv) len\<rparr> in
           if \<not> bv_off bufv1 \<le> buf_size buf then Aborted
           else if bv_off bufv1 = buf_size buf then
             (if \<not> bv_idx bufv1 < bv_count bufv1 then Aborted
              else (let bufv2 = bufv1\<lparr>bv_idx := sz_add (bv_idx bufv1) 1\<rparr> in
                    if bv_idx bufv2 = bv_count bufv2 then Done (False, bufv2)
                    else Done (True, bufv2\<lparr>bv_off := 0\<rparr>)))
           else Done (True, bufv1)))"

type_synonym 'w copy_result = "int \<times> fuse_bufvec \<times> fuse_bufvec \<times> memory \<times> 'w"

partial_function (option) fuse_buf_copy_loop ::
  "'w os \<Rightarrow> fuse_bufvec \<Rightarrow> fuse_bufvec \<Rightarrow> 32 word \<Rightarrow> nat \<Rightarrow> memory \<Rightarrow> 'w \<Rightarrow>
     'w copy_result outcome option" where
  "fuse_buf_copy_loop os dstv srcv flags copied m w =
     (case fuse_bufvec_current srcv of
        None \<Rightarrow> Some (Done (to_ssize copied, dstv, srcv, m, w))
      | Some src \<Rightarrow>
     (case fuse_bufvec_current dstv of
        None \<Rightarrow> Some (Done (to_ssize copied, dstv, srcv, m, w))
      | Some dst \<Rightarrow>
        Option.bind
          (fuse_buf_copy_one os dst (bv_off dstv) src (bv_off srcv)
             (min_size (sz_sub (buf_size src) (bv_off srcv)) (sz_sub (buf_size dst) (bv_off dstv)))
             flags m w)
          (\<lambda>(res, m', w').
            if res < 0 then
              Some (Done (if copied = 0 then res else to_ssize copied, dstv, srcv, m', w'))
            else (case fuse_bufvec_advance srcv (nat res) of
                Aborted \<Rightarrow> Some Aborted
              | Done (more_src, srcv') \<Rightarrow>
                  if \<not> more_src then
                    Some (Done (to_ssize (sz_add copied (nat res)), dstv, srcv', m', w'))
                  else (case fuse_bufvec_advance dstv (nat res) of
                      Aborted \<Rightarrow> Some Aborted
                    | Done (more_dst, dstv') \<Rightarrow>
                        if \<not> more_dst \<or>
                           nat res < min_size (sz_sub (buf_size src) (bv_off srcv))
                                       (sz_sub (buf_size dst) (bv_off dstv))
                        then Some (Done (to_ssize (sz_add copied (nat res)), dstv', srcv', m', w'))
                        else fuse_buf_copy_loop os dstv' srcv' flags (sz_add copied (nat res)) m' w')))))"

text \<open>\<open>same\<close> is the pointer comparison \<open>dstv == srcv\<close>.\<close>

definition fuse_buf_copy ::
  "'w os \<Rightarrow> bool \<Rightarrow> fuse_bufvec \<Rightarrow> fuse_bufvec \<Rightarrow> 32 word \<Rightarrow> memory \<Rightarrow> 'w \<Rightarrow>
     'w copy_result outcome option" where
  "fuse_buf_copy os same dstv srcv flags m w =
     (if same then Some (Done (to_ssize (fuse_buf_size dstv), dstv, srcv, m, w))
      else fuse_buf_copy_loop os dstv srcv flags 0 m w)"


subsection \<open>What the code relies on of the system calls\<close>

definition os_ok :: "'w os \<Rightarrow> bool" where
  "os_ok os \<longleftrightarrow>
     (\<forall>fd bs w. case fst (os_write os fd bs w) of Inl e \<Rightarrow> 0 < e | Inr n \<Rightarrow> n \<le> length bs) \<and>
     (\<forall>fd bs p w. case fst (os_pwrite os fd bs p w) of Inl e \<Rightarrow> 0 < e | Inr n \<Rightarrow> n \<le> length bs) \<and>
     (\<forall>fd n w. case fst (os_read os fd n w) of Inl e \<Rightarrow> 0 < e | Inr bs \<Rightarrow> length bs \<le> n) \<and>
     (\<forall>fd n p w. case fst (os_pread os fd n p w) of Inl e \<Rightarrow> 0 < e | Inr bs \<Rightarrow> length bs \<le> n) \<and>
     (\<forall>i ip j jp n fl w. case fst (os_splice os i ip j jp n fl w) of
         Inl e \<Rightarrow> 0 < e | Inr (k, _) \<Rightarrow> k \<le> n)"

lemma write_call_ok:
  assumes "os_ok os" and "write_call os dst off bs w = (res, w')"
  shows "case res of Inl e \<Rightarrow> 0 < e | Inr n \<Rightarrow> n \<le> length bs"
proof (cases "has_flag (buf_flags dst) FUSE_BUF_FD_SEEK")
  case True
  with assms have "res = fst (os_pwrite os (buf_fd dst) bs (buf_pos dst + int off) w)"
    by (simp add: write_call_def)
  then show ?thesis using assms(1) by (simp add: os_ok_def)
next
  case False
  with assms have "res = fst (os_write os (buf_fd dst) bs w)"
    by (simp add: write_call_def)
  then show ?thesis using assms(1) by (simp add: os_ok_def)
qed

lemma read_call_ok:
  assumes "os_ok os" and "read_call os src off n w = (res, w')"
  shows "case res of Inl e \<Rightarrow> 0 < e | Inr bs \<Rightarrow> length bs \<le> n"
proof (cases "has_flag (buf_flags src) FUSE_BUF_FD_SEEK")
  case True
  with assms have "res = fst (os_pread os (buf_fd src) n (buf_pos src + int off) w)"
    by (simp add: read_call_def)
  then show ?thesis using assms(1) by (simp add: os_ok_def)
next
  case False
  with assms have "res = fst (os_read os (buf_fd src) n w)"
    by (simp add: read_call_def)
  then show ?thesis using assms(1) by (simp add: os_ok_def)
qed

lemma splice_ok:
  assumes "os_ok os" and "os_splice os i ip j jp n fl w = (res, w')"
  shows "case res of Inl e \<Rightarrow> 0 < e | Inr (k, _) \<Rightarrow> k \<le> n"
proof -
  have "res = fst (os_splice os i ip j jp n fl w)" using assms(2) by simp
  then show ?thesis using assms(1) by (simp add: os_ok_def)
qed

subsection \<open>Every transfer loop ends, within its bounds\<close>

text \<open>The range of a transfer's return value: an error before anything was moved, or a
  count between what was already copied and what was asked for.\<close>

definition transfer_range :: "nat \<Rightarrow> nat \<Rightarrow> int \<Rightarrow> bool" where
  "transfer_range copied len r \<longleftrightarrow>
     (r < 0 \<and> copied = 0) \<or> (int copied \<le> r \<and> r \<le> int (copied + len))"

lemma transfer_range_simps [simp]:
  "transfer_range c len (int c)"
  "0 < e \<Longrightarrow> transfer_range 0 len (- e)"
  "n \<le> len \<Longrightarrow> transfer_range c len (int (c + n))"
  "n \<le> len \<Longrightarrow> transfer_range c len (int c + int n)"
  "transfer_range c 0 r \<longleftrightarrow> (r < 0 \<and> c = 0) \<or> r = int c"
  by (auto simp: transfer_range_def)

lemma transfer_range_step:
  "transfer_range (c + n) (len - n) r \<Longrightarrow> 0 < n \<Longrightarrow> n \<le> len \<Longrightarrow> transfer_range c len r"
  by (auto simp: transfer_range_def)

lemma fuse_buf_write_loop_total:
  assumes "os_ok os" and "copied + len < 2 ^ 63"
  shows "\<exists>r w'. fuse_buf_write_loop os dst dst_off src src_off len copied m w = Some (r, w')
     \<and> transfer_range copied len r"
  using assms(2)
proof (induction len arbitrary: dst_off src_off copied w rule: less_induct)
  case (less len)
  show ?case
  proof (cases "len = 0")
    case True
    then show ?thesis using less.prems
      unfolding fuse_buf_write_loop.simps[of os dst dst_off src src_off len copied m w]
      by (simp add: csimps)
  next
    case False
    obtain res w' where call:
      "write_call os dst dst_off (mem_read m (buf_mem src + src_off) len) w = (res, w')"
      by fastforce
    note ok = write_call_ok[OF assms(1) call]
    note unf = fuse_buf_write_loop.simps[of os dst dst_off src src_off len copied m w]
    show ?thesis
    proof (cases res)
      case (Inl e)
      then show ?thesis using False ok less.prems by (simp add: unf call csimps)
    next
      case (Inr n)
      then have n: "n \<le> len" using ok by simp
      show ?thesis
      proof (cases "n = 0 \<or> \<not> has_flag (buf_flags dst) FUSE_BUF_FD_RETRY")
        case True
        then show ?thesis using False Inr n less.prems by (auto simp: unf call csimps)
      next
        case cont: False
        then have "len - n < len" "(copied + n) + (len - n) < 2 ^ 63" using False n less.prems by auto
        from less.IH[OF this, of "sz_add dst_off n" "sz_add src_off n" w'] cont n less.prems False Inr
        show ?thesis by (auto simp: unf call csimps intro: transfer_range_step)
      qed
    qed
  qed
qed

lemma fuse_buf_read_loop_total:
  assumes "os_ok os" and "copied + len < 2 ^ 63"
  shows "\<exists>r m' w'. fuse_buf_read_loop os dst dst_off src src_off len copied m w = Some (r, m', w')
     \<and> transfer_range copied len r"
  using assms(2)
proof (induction len arbitrary: dst_off src_off copied m w rule: less_induct)
  case (less len)
  show ?case
  proof (cases "len = 0")
    case True
    then show ?thesis using less.prems
      unfolding fuse_buf_read_loop.simps[of os dst dst_off src src_off len copied m w]
      by (simp add: csimps)
  next
    case False
    obtain res w' where call: "read_call os src src_off len w = (res, w')"
      by fastforce
    note ok = read_call_ok[OF assms(1) call]
    note unf = fuse_buf_read_loop.simps[of os dst dst_off src src_off len copied m w]
    show ?thesis
    proof (cases res)
      case (Inl e)
      then show ?thesis using False ok less.prems by (simp add: unf call csimps)
    next
      case (Inr bs)
      then have n: "length bs \<le> len" using ok by simp
      show ?thesis
      proof (cases "length bs = 0 \<or> \<not> has_flag (buf_flags src) FUSE_BUF_FD_RETRY")
        case True
        then show ?thesis using False Inr n less.prems by (auto simp: unf call csimps)
      next
        case cont: False
        then have "len - length bs < len" "(copied + length bs) + (len - length bs) < 2 ^ 63"
          using False n less.prems by auto
        from less.IH[OF this, of "sz_add dst_off (length bs)" "sz_add src_off (length bs)"
            "mem_write m (buf_mem dst + dst_off) bs" w'] cont n less.prems False Inr
        show ?thesis by (auto simp: unf call csimps intro: transfer_range_step)
      qed
    qed
  qed
qed

lemma fuse_buf_fd_to_fd_loop_total:
  assumes "os_ok os" and "copied + len < 2 ^ 63"
  shows "\<exists>r w'. fuse_buf_fd_to_fd_loop os dst dst_off src src_off len copied buf w = Some (r, w')
     \<and> transfer_range copied len r"
  using assms(2)
proof (induction len arbitrary: dst_off src_off copied buf w rule: less_induct)
  case (less len)
  note unf = fuse_buf_fd_to_fd_loop.simps[of os dst dst_off src src_off len copied buf w]
  show ?case
  proof (cases "len = 0")
    case True
    then show ?thesis using less.prems unfolding unf by (simp add: csimps)
  next
    case False
    let ?l = "min_size (buf_size fd_tmp) len"
    have l: "?l \<le> len" "?l < 2 ^ 63" using less.prems by (auto simp: min_size_def fd_tmp_def)
    obtain r buf' w' where rd: "fuse_buf_read os fd_tmp 0 src src_off ?l buf w = Some (r, buf', w')"
      and rr: "transfer_range 0 ?l r"
      using fuse_buf_read_loop_total[OF assms(1), of 0 ?l fd_tmp 0 src src_off buf w] l
      by (auto simp: fuse_buf_read_def)
    show ?thesis
    proof (cases "r \<le> 0")
      case True
      then show ?thesis using False rr less.prems
        by (auto simp: unf rd csimps transfer_range_def)
    next
      case pos: False
      then have nr: "nat r \<le> ?l" using rr by (auto simp: transfer_range_def)
      obtain r2 w'' where wr: "fuse_buf_write os dst dst_off fd_tmp 0 (nat r) buf' w' = Some (r2, w'')"
        and rr2: "transfer_range 0 (nat r) r2"
        using fuse_buf_write_loop_total[OF assms(1), of 0 "nat r" dst dst_off fd_tmp 0 buf' w'] nr l
        by (auto simp: fuse_buf_write_def)
      have "nat r2 \<le> nat r" using rr2 pos by (auto simp: transfer_range_def)
      with nr l have n2: "nat r2 \<le> len" by simp
      show ?thesis
      proof (cases "r2 \<le> 0 \<or> nat r2 < ?l")
        case True
        then show ?thesis using False pos rr2 n2 less.prems
          by (auto simp: unf rd wr csimps transfer_range_def)
      next
        case cont: False
        then have "len - nat r2 < len" "(copied + nat r2) + (len - nat r2) < 2 ^ 63"
          using False n2 less.prems by auto
        from less.IH[OF this, of "sz_add dst_off (nat r2)" "sz_add src_off (nat r2)" buf' w'']
          cont n2 less.prems False pos
        show ?thesis
          by (auto simp: unf rd wr csimps intro!: transfer_range_step[of copied "nat r2"])
      qed
    qed
  qed
qed

lemma fuse_buf_splice_loop_total:
  assumes "os_ok os" and "copied + len < 2 ^ 63"
  shows "\<exists>r w'. fuse_buf_splice_loop os dst dst_off src src_off len flags sf sp dp copied w = Some (r, w')
     \<and> transfer_range copied len r"
  using assms(2)
proof (induction len arbitrary: sp dp copied w rule: less_induct)
  case (less len)
  note unf = fuse_buf_splice_loop.simps[of os dst dst_off src src_off len flags sf sp dp copied w]
  show ?case
  proof (cases "len = 0")
    case True
    then show ?thesis using less.prems unfolding unf by (simp add: csimps)
  next
    case False
    obtain res w' where call:
      "os_splice os (buf_fd src) sp (buf_fd dst) dp len sf w = (res, w')" by fastforce
    note ok = splice_ok[OF assms(1) call]
    show ?thesis
    proof (cases res)
      case (Inl e)
      then show ?thesis
        using False ok less.prems
          fuse_buf_fd_to_fd_loop_total[OF assms(1), of 0 len dst dst_off src src_off "\<lambda>_. 0" w']
        by (auto simp: unf call csimps fuse_buf_fd_to_fd_def)
    next
      case (Inr t)
      obtain n sp' dp' where t: "t = (n, sp', dp')" by (cases t)
      have n: "n \<le> len" using ok Inr t by simp
      show ?thesis
      proof (cases "n = 0 \<or> (\<not> has_flag (buf_flags src) FUSE_BUF_FD_RETRY
               \<and> \<not> has_flag (buf_flags dst) FUSE_BUF_FD_RETRY)")
        case True
        then show ?thesis using False Inr t n less.prems by (auto simp: unf call csimps)
      next
        case cont: False
        then have "len - n < len" "(copied + n) + (len - n) < 2 ^ 63" using False n less.prems by auto
        from less.IH[OF this, of sp' dp' w'] cont n less.prems False Inr t
        show ?thesis by (auto simp: unf call csimps intro: transfer_range_step)
      qed
    qed
  qed
qed

lemma fuse_buf_copy_one_total:
  assumes "os_ok os" and "len < 2 ^ 63"
  shows "\<exists>r m' w'. fuse_buf_copy_one os dst dst_off src src_off len flags m w = Some (r, m', w')
     \<and> transfer_range 0 len r"
  using assms fuse_buf_write_loop_total[OF assms(1), of 0 len dst dst_off src src_off m w]
    fuse_buf_read_loop_total[OF assms(1), of 0 len dst dst_off src src_off m w]
    fuse_buf_fd_to_fd_loop_total[OF assms(1), of 0 len dst dst_off src src_off "\<lambda>_. 0" w]
    fuse_buf_splice_loop_total[OF assms(1), of 0 len dst dst_off src src_off flags]
  by (fastforce simp: fuse_buf_copy_one_def Let_def fuse_buf_write_def fuse_buf_read_def
      fuse_buf_fd_to_fd_def fuse_buf_splice_def csimps transfer_range_def)

subsection \<open>Vectors as lists of pieces\<close>

text \<open>A vector stands for the pieces still ahead of its cursor.\<close>

definition pieces :: "fuse_bufvec \<Rightarrow> (nat \<times> nat) list" where
  "pieces bv = (if bv_idx bv < bv_count bv
     then (buf_mem (bv_buf bv ! bv_idx bv) + bv_off bv, buf_size (bv_buf bv ! bv_idx bv) - bv_off bv)
          # map (\<lambda>b. (buf_mem b, buf_size b)) (drop (Suc (bv_idx bv)) (bv_buf bv))
     else [])"

definition plen :: "(nat \<times> nat) list \<Rightarrow> nat" where
  "plen ps = sum_list (map snd ps)"

definition pread :: "memory \<Rightarrow> (nat \<times> nat) list \<Rightarrow> byte list" where
  "pread m ps = concat (map (\<lambda>(a, n). mem_read m a n) ps)"

text \<open>Well-formed vectors: the count is the array's length, the cursor is inside, sizes and
  the total are far below the top of \<open>size_t\<close>.\<close>

definition bufvec_ok :: "fuse_bufvec \<Rightarrow> bool" where
  "bufvec_ok bv \<longleftrightarrow> bv_count bv = length (bv_buf bv) \<and> bv_count bv < 2 ^ 62 \<and>
     (\<forall>b \<in> set (bv_buf bv). buf_size b < 2 ^ 62) \<and>
     (bv_idx bv < bv_count bv \<longrightarrow> bv_off bv \<le> buf_size (bv_buf bv ! bv_idx bv)) \<and>
     plen (pieces bv) < 2 ^ 62"

lemma plen_simps [simp]: "plen [] = 0" "plen ((a, n) # ps) = n + plen ps"
  by (simp_all add: plen_def)

lemma pread_simps [simp]: "pread m [] = []" "pread m ((a, n) # ps) = mem_read m a n @ pread m ps"
  by (simp_all add: pread_def)

lemma length_pread [simp]: "length (pread m ps) = plen ps"
  by (induction ps) (auto simp: plen_def)

text \<open>Moving the head of a list of pieces forward by \<open>l\<close> bytes.\<close>

fun padvance :: "(nat \<times> nat) list \<Rightarrow> nat \<Rightarrow> (nat \<times> nat) list" where
  "padvance [] l = []"
| "padvance ((a, n) # ps) l = (if l = n then ps else (a + l, n - l) # ps)"

lemma length_padvance: "length (padvance ps l) \<le> length ps"
  by (cases "(ps, l)" rule: padvance.cases) auto

lemma plen_padvance: "ps \<noteq> [] \<Longrightarrow> l \<le> snd (hd ps) \<Longrightarrow> plen (padvance ps l) = plen ps - l"
  by (cases "(ps, l)" rule: padvance.cases) auto

lemma pread_padvance:
  "ps \<noteq> [] \<Longrightarrow> l \<le> snd (hd ps) \<Longrightarrow> pread m ps = mem_read m (fst (hd ps)) l @ pread m (padvance ps l)"
  by (cases "(ps, l)" rule: padvance.cases) (auto simp: mem_read_add[symmetric])

lemma padvance_min_shorter:
  assumes "ps = (x, a) # ps'" and "qs = (y, b) # qs'" and "l = min b a"
  shows "length (padvance qs l) + length (padvance ps l) < length qs + length ps"
proof (cases "a \<le> b")
  case True
  then have "l = a" using assms by simp
  then show ?thesis using length_padvance[of qs l] assms(1) by simp
next
  case False
  then have "l = b" using assms by simp
  then show ?thesis using length_padvance[of ps l] assms(2) by simp
qed

lemma min_add_diff: "l \<le> a \<Longrightarrow> l \<le> b \<Longrightarrow> l + min (a - l) (b - l) = min a (b :: nat)"
  by (cases "a \<le> b") simp_all

text \<open>The reference copy: move the shorter of the two head pieces, then go on.\<close>

function pcopy :: "memory \<Rightarrow> (nat \<times> nat) list \<Rightarrow> (nat \<times> nat) list \<Rightarrow> nat \<times> memory" where
  "pcopy m [] ss = (0, m)"
| "pcopy m ((d, dl) # ds) [] = (0, m)"
| "pcopy m ((d, dl) # ds) ((s, sl) # ss) =
     (let l = min dl sl;
          (r, m') = pcopy (mem_write m d (mem_read m s l))
                      (padvance ((d, dl) # ds) l) (padvance ((s, sl) # ss) l)
      in (l + r, m'))"
  by pat_completeness auto
termination
  by (relation "measure (\<lambda>(m, ds, ss). length ds + length ss)") (auto simp: min_def)

definition pieces_disjoint :: "(nat \<times> nat) \<Rightarrow> (nat \<times> nat) \<Rightarrow> bool" where
  "pieces_disjoint p q \<longleftrightarrow> fst p + snd p \<le> fst q \<or> fst q + snd q \<le> fst p"

definition copy_safe :: "(nat \<times> nat) list \<Rightarrow> (nat \<times> nat) list \<Rightarrow> bool" where
  "copy_safe ds ss \<longleftrightarrow> sorted_wrt pieces_disjoint ds \<and> (\<forall>d \<in> set ds. \<forall>s \<in> set ss. pieces_disjoint d s)"

lemma pread_write_disjoint:
  "\<forall>p \<in> set ps. pieces_disjoint (a, length bs) p \<Longrightarrow> pread (mem_write m a bs) ps = pread m ps"
  by (induction ps) (auto simp: pieces_disjoint_def memsimps)

lemma pieces_disjoint_sub:
  assumes "pieces_disjoint (a, n) p" and "l \<le> n"
  shows "pieces_disjoint (a, l) p" and "pieces_disjoint (a + l, n - l) p"
    and "pieces_disjoint p (a, l)" and "pieces_disjoint p (a + l, n - l)"
  using assms by (auto simp: pieces_disjoint_def)

lemma pieces_disjoint_sym: "pieces_disjoint p q \<longleftrightarrow> pieces_disjoint q p"
  by (auto simp: pieces_disjoint_def)

lemma copy_safe_padvance_src:
  assumes "copy_safe ds (s # ss)" and "l \<le> snd s"
  shows "copy_safe ds (padvance (s # ss) l)"
  using assms by (cases s) (auto simp: copy_safe_def intro: pieces_disjoint_sub
      dest: pieces_disjoint_sym[THEN iffD1])

lemma copy_safe_padvance_dst:
  assumes "copy_safe (d # ds) ss" and "l \<le> snd d"
  shows "copy_safe (padvance (d # ds) l) ss"
  using assms by (cases d) (auto simp: copy_safe_def intro: pieces_disjoint_sub)

text \<open>The reference copy writes only inside the destination pieces.\<close>

lemma pcopy_frame:
  "pcopy m ds ss = (r, m') \<Longrightarrow> \<forall>p \<in> set ds. pieces_disjoint p (a, n) \<Longrightarrow>
   mem_read m' a n = mem_read m a n"
proof (induction m ds ss arbitrary: r m' rule: pcopy.induct)
  case (3 m d dl ds s sl ss)
  let ?l = "min dl sl"
  let ?m = "mem_write m d (mem_read m s ?l)"
  obtain r1 where rec: "pcopy ?m (padvance ((d, dl) # ds) ?l) (padvance ((s, sl) # ss) ?l) = (r1, m')"
    using "3.prems"(1) by (auto simp: Let_def split: prod.splits)
  have dis: "pieces_disjoint (d, ?l) (a, n)" "pieces_disjoint (d + ?l, dl - ?l) (a, n)"
    using "3.prems"(2) by (auto intro: pieces_disjoint_sub)
  then have "\<forall>p \<in> set (padvance ((d, dl) # ds) ?l). pieces_disjoint p (a, n)"
    using "3.prems"(2) by auto
  with "3.IH" rec have "mem_read m' a n = mem_read ?m a n" by blast
  also have "\<dots> = mem_read m a n"
    using dis(1) by (intro mem_read_write_disjoint) (auto simp: pieces_disjoint_def)
  finally show ?case .
qed auto

lemma pcopy_correct:
  "copy_safe ds ss \<Longrightarrow> pcopy m ds ss = (r, m') \<Longrightarrow>
   r = min (plen ds) (plen ss) \<and> take r (pread m' ds) = take r (pread m ss)"
proof (induction m ds ss arbitrary: r m' rule: pcopy.induct)
  case (3 m d dl ds s sl ss)
  let ?l = "min dl sl" and ?ds = "(d, dl) # ds" and ?ss = "(s, sl) # ss"
  let ?m = "mem_write m d (mem_read m s ?l)"
  obtain r1 where rec: "pcopy ?m (padvance ?ds ?l) (padvance ?ss ?l) = (r1, m')"
    and r: "r = ?l + r1"
    using "3.prems"(2) by (auto simp: Let_def split: prod.splits)
  have safe: "copy_safe (padvance ?ds ?l) (padvance ?ss ?l)"
    using "3.prems"(1) by (intro copy_safe_padvance_src copy_safe_padvance_dst) auto
  from "3.IH" safe rec have
    r1: "r1 = min (plen (padvance ?ds ?l)) (plen (padvance ?ss ?l))" and
    eq: "take r1 (pread m' (padvance ?ds ?l)) = take r1 (pread ?m (padvance ?ss ?l))" by blast+
  have src: "pread ?m (padvance ?ss ?l) = pread m (padvance ?ss ?l)"
  proof (intro pread_write_disjoint ballI)
    fix p assume "p \<in> set (padvance ?ss ?l)"
    then have "pieces_disjoint (d, dl) p"
      using copy_safe_padvance_src[OF "3.prems"(1), of ?l]
      by (auto simp: copy_safe_def simp del: padvance.simps)
    then show "pieces_disjoint (d, length (mem_read m s ?l)) p"
      by (simp add: pieces_disjoint_sub(1))
  qed
  have "mem_read m' d ?l = mem_read ?m d ?l"
    using "3.prems"(1) by (intro pcopy_frame[OF rec])
      (auto simp: copy_safe_def pieces_disjoint_def)
  also have "\<dots> = mem_read m s ?l" using mem_read_write_same[of m d "mem_read m s ?l"] by simp
  finally have head: "mem_read m' d ?l = mem_read m s ?l" .
  have "take r (pread m' ?ds) = mem_read m s ?l @ take r1 (pread m (padvance ?ss ?l))"
    using pread_padvance[of ?ds ?l m'] head eq src r by simp
  moreover have "take r (pread m ?ss) = mem_read m s ?l @ take r1 (pread m (padvance ?ss ?l))"
    using pread_padvance[of ?ss ?l m] r by simp
  moreover have "r = min (plen ?ds) (plen ?ss)"
  proof -
    have "plen (padvance ?ds ?l) = plen ?ds - ?l" "plen (padvance ?ss ?l) = plen ?ss - ?l"
      by (rule plen_padvance; simp)+
    moreover have "?l \<le> plen ?ds" "?l \<le> plen ?ss" by simp_all
    ultimately show ?thesis unfolding r r1 by (simp only: min_add_diff)
  qed
  ultimately show ?case by simp
qed auto

subsection \<open>The copy loop refines the reference copy\<close>

lemma memcpy_frame: "x < d \<or> d + n \<le> x \<Longrightarrow> memcpy m d s n x = m x"
  by (induction n arbitrary: m d s) auto

lemma memcpy_disjoint:
  "d + n \<le> s \<or> s + n \<le> d \<Longrightarrow> memcpy m d s n = mem_write m d (mem_read m s n)"
proof (induction n arbitrary: m d s)
  case (Suc n)
  have read: "mem_read (m(d := m s)) (Suc s) n = mem_read m (Suc s) n"
    using Suc.prems by (intro nth_equalityI) auto
  have split: "mem_read m s (Suc n) = m s # mem_read m (Suc s) n"
    by (simp add: mem_read_def upt_conv_Cons del: upt_Suc)
  show ?case
  proof (cases n)
    case 0
    then show ?thesis by (auto simp: mem_write_def split)
  next
    case (Suc k)
    then have "Suc d + n \<le> Suc s \<or> Suc s + n \<le> Suc d" using Suc.prems by auto
    then have "memcpy (m(d := m s)) (Suc d) (Suc s) n
        = mem_write (m(d := m s)) (Suc d) (mem_read m (Suc s) n)"
      using Suc.IH[of "Suc d" "Suc s" "m(d := m s)"] by (simp only: read)
    also have "\<dots> = mem_write m d (mem_read m s (Suc n))"
      by (rule ext) (auto simp: mem_write_def split nth_Cons' )
    finally show ?thesis by simp
  qed
qed (simp add: mem_read_def)

lemma mem_write_self: "mem_write m a (mem_read m a n) = m"
  by (rule ext) (auto simp: mem_write_def)

lemma fuse_buf_copy_one_mem:
  assumes "\<not> has_flag (buf_flags src) FUSE_BUF_IS_FD" and "\<not> has_flag (buf_flags dst) FUSE_BUF_IS_FD"
    and "len < 2 ^ 63"
  shows "fuse_buf_copy_one os dst dst_off src src_off len flags m w =
    Some (int len, mem_write m (buf_mem dst + dst_off) (mem_read m (buf_mem src + src_off) len), w)"
  using assms by (simp add: fuse_buf_copy_one_def Let_def csimps memcpy_disjoint memmove_def mem_write_self)

definition all_mem :: "fuse_bufvec \<Rightarrow> bool" where
  "all_mem bv \<longleftrightarrow> (\<forall>b \<in> set (bv_buf bv). \<not> has_flag (buf_flags b) FUSE_BUF_IS_FD)"

text \<open>The cursor of a well-formed vector, and what advancing it does to the pieces.\<close>

lemma bufvec_ok_current:
  assumes "bufvec_ok bv" and "fuse_bufvec_current bv = Some b"
  shows "bv_idx bv < length (bv_buf bv)" and "b = bv_buf bv ! bv_idx bv" and "b \<in> set (bv_buf bv)"
    and "sz_sub (buf_size b) (bv_off bv) = buf_size b - bv_off bv" and "bv_off bv \<le> buf_size b"
    and "buf_size b < 2 ^ 62"
    and "\<exists>ps. pieces bv = (buf_mem b + bv_off bv, buf_size b - bv_off bv) # ps"
proof -
  from assms show idx: "bv_idx bv < length (bv_buf bv)" and b: "b = bv_buf bv ! bv_idx bv"
    by (auto simp: fuse_bufvec_current_def bufvec_ok_def split: if_splits)
  then show mem: "b \<in> set (bv_buf bv)" by simp
  with assms(1) show sz: "buf_size b < 2 ^ 62" by (auto simp: bufvec_ok_def)
  from assms(1) idx b show off: "bv_off bv \<le> buf_size b" by (auto simp: bufvec_ok_def)
  from sz off show "sz_sub (buf_size b) (bv_off bv) = buf_size b - bv_off bv" by (intro sz_sub_small) auto
  from assms(1) idx b show "\<exists>ps. pieces bv = (buf_mem b + bv_off bv, buf_size b - bv_off bv) # ps"
    by (auto simp: pieces_def bufvec_ok_def)
qed

lemma current_None_iff: "fuse_bufvec_current bv = None \<longleftrightarrow> pieces bv = []"
  by (simp add: fuse_bufvec_current_def pieces_def)

lemma fuse_bufvec_advance_ok:
  assumes ok: "bufvec_ok bv" and cur: "fuse_bufvec_current bv = Some b" and l: "l \<le> buf_size b - bv_off bv"
  shows "\<exists>more bv'. fuse_bufvec_advance bv l = Done (more, bv') \<and> bufvec_ok bv' \<and>
    pieces bv' = padvance (pieces bv) l \<and> (more \<longleftrightarrow> pieces bv' \<noteq> []) \<and>
    bv_buf bv' = bv_buf bv"
proof -
  note c = bufvec_ok_current[OF ok cur]
  have cnt: "bv_count bv = length (bv_buf bv)" "bv_count bv < 2 ^ 62" using ok by (auto simp: bufvec_ok_def)
  have add: "sz_add (bv_off bv) l = bv_off bv + l" "sz_add (bv_idx bv) 1 = Suc (bv_idx bv)"
    "sz_add (bv_idx bv) (Suc 0) = Suc (bv_idx bv)"
    using l c cnt by (auto intro: sz_add_small[THEN trans])
  have pl: "plen (pieces bv) < 2 ^ 62" and szs: "\<forall>b \<in> set (bv_buf bv). buf_size b < 2 ^ 62"
    using ok by (auto simp: bufvec_ok_def)
  show ?thesis
  proof (cases "bv_off bv + l = buf_size b")
    case True
    let ?bv = "bv\<lparr>bv_off := bv_off bv + l, bv_idx := Suc (bv_idx bv)\<rparr>"
    have lq: "l = buf_size b - bv_off bv" using True by simp
    show ?thesis
    proof (cases "Suc (bv_idx bv) = bv_count bv")
      case last: True
      have "pieces ?bv = padvance (pieces bv) l" "pieces ?bv = []"
        using last c(1,2) lq cnt by (auto simp: pieces_def)
      then show ?thesis using last True c cnt szs
        by (auto simp: fuse_bufvec_advance_def cur add Let_def bufvec_ok_def)
    next
      case more: False
      let ?bv' = "?bv\<lparr>bv_off := 0\<rparr>"
      have lt: "Suc (bv_idx bv) < length (bv_buf bv)" using more c(1) cnt by simp
      have p: "pieces ?bv' = padvance (pieces bv) l" "pieces ?bv' \<noteq> []"
        using lt c(1,2) lq cnt
        by (auto simp: pieces_def Cons_nth_drop_Suc[OF lt, symmetric])
      moreover have "plen (padvance (pieces bv) l) < 2 ^ 62"
        using c(7) l pl by (auto simp: plen_padvance)
      ultimately show ?thesis using more True c(1,2) cnt szs lt
        by (auto simp: fuse_bufvec_advance_def cur add Let_def bufvec_ok_def)
    qed
  next
    case False
    let ?bv = "bv\<lparr>bv_off := bv_off bv + l\<rparr>"
    have p: "pieces ?bv = padvance (pieces bv) l" "pieces ?bv \<noteq> []"
      using False c(1,2,5) l cnt by (auto simp: pieces_def)
    moreover have "plen (padvance (pieces bv) l) < 2 ^ 62"
      using c(7) l pl by (auto simp: plen_padvance)
    ultimately show ?thesis using False c(1,2,5) l cnt szs
      by (auto simp: fuse_bufvec_advance_def cur add Let_def bufvec_ok_def)
  qed
qed

lemma min_size_min [simp]: "min_size a b = min a b"
  by (simp add: min_size_def min_def)

text \<open>Any mix of memory and descriptor buffers: the loop ends, no assert fails, and both
  vectors stay well-formed.\<close>

lemma fuse_buf_copy_loop_total:
  assumes os: "os_ok os"
  shows "bufvec_ok dstv \<Longrightarrow> bufvec_ok srcv \<Longrightarrow> copied + plen (pieces srcv) < 2 ^ 63 \<Longrightarrow>
    \<exists>r dstv' srcv' m' w'.
      fuse_buf_copy_loop os dstv srcv flags copied m w = Some (Done (r, dstv', srcv', m', w')) \<and>
      bufvec_ok dstv' \<and> bufvec_ok srcv' \<and>
      transfer_range copied (min (plen (pieces dstv)) (plen (pieces srcv))) r"
proof (induction "length (pieces dstv) + length (pieces srcv)" arbitrary: dstv srcv copied m w
    rule: less_induct)
  case less
  note unf = fuse_buf_copy_loop.simps[of os dstv srcv flags copied m w]
  show ?case
  proof (cases "fuse_bufvec_current srcv = None \<or> fuse_bufvec_current dstv = None")
    case True
    then show ?thesis using less.prems by (auto simp: unf csimps split: option.splits)
  next
    case False
    then obtain src dst where cs: "fuse_bufvec_current srcv = Some src"
      and cd: "fuse_bufvec_current dstv = Some dst" by auto
    note s = bufvec_ok_current[OF less.prems(2) cs] and d = bufvec_ok_current[OF less.prems(1) cd]
    obtain ps where ps: "pieces srcv = (buf_mem src + bv_off srcv, buf_size src - bv_off srcv) # ps"
      using s(7) by blast
    obtain pd where pd: "pieces dstv = (buf_mem dst + bv_off dstv, buf_size dst - bv_off dstv) # pd"
      using d(7) by blast
    let ?l = "min (buf_size src - bv_off srcv) (buf_size dst - bv_off dstv)"
    have "?l < 2 ^ 63" using s(6) by auto
    from fuse_buf_copy_one_total[OF os this, of dst "bv_off dstv" src "bv_off srcv" flags m w]
    obtain r m' w' where one: "fuse_buf_copy_one os dst (bv_off dstv) src (bv_off srcv) ?l flags m w
         = Some (r, m', w')" and rr: "transfer_range 0 ?l r" by blast
    show ?thesis
    proof (cases "r < 0")
      case True
      then have "transfer_range copied n (if copied = 0 then r else to_ssize copied)" for n
        using less.prems(3) by (simp add: csimps transfer_range_def)
      then show ?thesis using less.prems(1,2) True unfolding unf
        by (simp add: cs cd s(4) d(4) one)
    next
      case nonneg: False
      have lens: "plen (padvance (pieces srcv) (nat r)) = plen (pieces srcv) - nat r"
        "plen (padvance (pieces dstv) (nat r)) = plen (pieces dstv) - nat r"
        using rr ps pd by (auto simp: plen_padvance transfer_range_def)
      have nr: "nat r \<le> ?l" using rr nonneg by (auto simp: transfer_range_def)
      then have nr': "nat r \<le> buf_size src - bv_off srcv" "nat r \<le> buf_size dst - bv_off dstv" by auto
      obtain ms srcv' where as: "fuse_bufvec_advance srcv (nat r) = Done (ms, srcv')"
        and oks: "bufvec_ok srcv'" and pcs: "pieces srcv' = padvance (pieces srcv) (nat r)"
        using fuse_bufvec_advance_ok[OF less.prems(2) cs nr'(1)] by blast
      obtain md dstv' where ad: "fuse_bufvec_advance dstv (nat r) = Done (md, dstv')"
        and okd: "bufvec_ok dstv'" and pcd: "pieces dstv' = padvance (pieces dstv) (nat r)"
        using fuse_bufvec_advance_ok[OF less.prems(1) cd nr'(2)] by blast
      have bound: "nat r \<le> plen (pieces srcv)" "nat r \<le> plen (pieces dstv)" using nr' ps pd by auto
      have sum: "sz_add copied (nat r) = copied + nat r" "copied + nat r < 2 ^ 63"
        using less.prems(3) bound by (auto simp: csimps)
      show ?thesis
      proof (cases "ms \<and> md \<and> \<not> nat r < ?l")
        case False
        have ts: "to_ssize (sz_add copied (nat r)) = int (copied + nat r)"
          unfolding sum(1) by (rule to_ssize_small[OF sum(2)])
        have "transfer_range copied (min (plen (pieces dstv)) (plen (pieces srcv))) (int (copied + nat r))"
          using bound by (intro transfer_range_simps) simp
        then show ?thesis using False nonneg less.prems(1) oks okd unfolding unf
          by (cases ms; simp add: cs cd s(4) d(4) one as ad ts)
      next
        case cont: True
        then have eq: "nat r = ?l" using nr by linarith
        have "length (pieces dstv') + length (pieces srcv') < length (pieces dstv) + length (pieces srcv)"
          unfolding pcs pcd by (rule padvance_min_shorter[OF ps pd]) (simp add: eq min.commute)
        moreover have "(copied + nat r) + plen (pieces srcv') < 2 ^ 63"
          using less.prems(3) bound lens pcs by simp
        ultimately obtain r' dstv'' srcv'' m'' w'' where
          rec: "fuse_buf_copy_loop os dstv' srcv' flags (copied + nat r) m' w'
            = Some (Done (r', dstv'', srcv'', m'', w''))" "bufvec_ok dstv''" "bufvec_ok srcv''"
            and tr: "transfer_range (copied + nat r) (min (plen (pieces dstv')) (plen (pieces srcv'))) r'"
          using less.hyps okd oks by blast
        have "transfer_range copied (min (plen (pieces dstv)) (plen (pieces srcv))) r'"
        proof -
          have "min (plen (pieces dstv')) (plen (pieces srcv'))
              = min (plen (pieces dstv)) (plen (pieces srcv)) - nat r"
            unfolding pcs pcd lens by simp
          moreover have "nat r \<le> min (plen (pieces dstv)) (plen (pieces srcv))" using bound by simp
          ultimately show ?thesis using tr transfer_range_step[of copied "nat r"]
            by (cases "nat r = 0") (simp_all only: add_0_right diff_zero neq0_conv)
        qed
        then show ?thesis using cont nonneg rec unfolding unf
          by (simp add: cs cd s(4) d(4) one as ad sum(1)) blast
      qed
    qed
  qed
qed

text \<open>Memory vectors: the loop computes the reference copy.\<close>

lemma fuse_buf_copy_loop_mem:
  "bufvec_ok dstv \<Longrightarrow> bufvec_ok srcv \<Longrightarrow> all_mem dstv \<Longrightarrow> all_mem srcv \<Longrightarrow>
   copied + plen (pieces srcv) < 2 ^ 63 \<Longrightarrow>
   pcopy m (pieces dstv) (pieces srcv) = (k, mk) \<Longrightarrow>
   \<exists>dstv' srcv'. fuse_buf_copy_loop os dstv srcv flags copied m w
      = Some (Done (int (copied + k), dstv', srcv', mk, w))"
proof (induction "length (pieces dstv) + length (pieces srcv)" arbitrary: dstv srcv copied m k
    rule: less_induct)
  case less
  note unf = fuse_buf_copy_loop.simps[of os dstv srcv flags copied m w]
  show ?case
  proof (cases "pieces srcv = [] \<or> pieces dstv = []")
    case True
    then have "k = 0" "mk = m" using less.prems(6)
      by (cases "pieces dstv"; cases "pieces srcv"; auto)+
    then show ?thesis using True less.prems(5)
      by (auto simp: unf csimps current_None_iff[symmetric] split: option.splits)
  next
    case False
    then obtain src dst where cs: "fuse_bufvec_current srcv = Some src"
      and cd: "fuse_bufvec_current dstv = Some dst" by (auto simp: current_None_iff[symmetric])
    note s = bufvec_ok_current[OF less.prems(2) cs] and d = bufvec_ok_current[OF less.prems(1) cd]
    obtain ps where ps: "pieces srcv = (buf_mem src + bv_off srcv, buf_size src - bv_off srcv) # ps"
      using s(7) by blast
    obtain pd where pd: "pieces dstv = (buf_mem dst + bv_off dstv, buf_size dst - bv_off dstv) # pd"
      using d(7) by blast
    let ?l = "min (buf_size src - bv_off srcv) (buf_size dst - bv_off dstv)"
    let ?m = "mem_write m (buf_mem dst + bv_off dstv) (mem_read m (buf_mem src + bv_off srcv) ?l)"
    have l63: "?l < 2 ^ 63" using s(6) by auto
    have mems: "\<not> has_flag (buf_flags src) FUSE_BUF_IS_FD" "\<not> has_flag (buf_flags dst) FUSE_BUF_IS_FD"
      using less.prems(3,4) s(3) d(3) by (auto simp: all_mem_def)
    note one = fuse_buf_copy_one_mem[OF mems l63, of os "bv_off dstv" "bv_off srcv" flags m w]
    obtain k1 where rec: "pcopy ?m (padvance (pieces dstv) ?l) (padvance (pieces srcv) ?l) = (k1, mk)"
      and k: "k = ?l + k1"
      using less.prems(6) unfolding ps pd by (auto simp: Let_def min.commute split: prod.splits)
    have lle: "?l \<le> buf_size src - bv_off srcv" "?l \<le> buf_size dst - bv_off dstv" by auto
    obtain ms srcv' where as: "fuse_bufvec_advance srcv ?l = Done (ms, srcv')"
      and oks: "bufvec_ok srcv'" and pcs: "pieces srcv' = padvance (pieces srcv) ?l"
      and mss: "ms \<longleftrightarrow> pieces srcv' \<noteq> []" and bs: "bv_buf srcv' = bv_buf srcv"
      using fuse_bufvec_advance_ok[OF less.prems(2) cs lle(1)] by blast
    obtain md dstv' where ad: "fuse_bufvec_advance dstv ?l = Done (md, dstv')"
      and okd: "bufvec_ok dstv'" and pcd: "pieces dstv' = padvance (pieces dstv) ?l"
      and mdd: "md \<longleftrightarrow> pieces dstv' \<noteq> []" and bd: "bv_buf dstv' = bv_buf dstv"
      using fuse_bufvec_advance_ok[OF less.prems(1) cd lle(2)] by blast
    have bound: "?l \<le> plen (pieces srcv)" using ps by auto
    have sum: "sz_add copied ?l = copied + ?l" "copied + ?l < 2 ^ 63"
      using less.prems(5) bound by (auto simp: csimps)
    show ?thesis
    proof (cases "ms \<and> md")
      case False
      then have "pieces srcv' = [] \<or> pieces dstv' = []" using mss mdd by auto
      then have "k1 = 0" "mk = ?m" using rec unfolding pcs[symmetric] pcd[symmetric]
        by (cases "pieces dstv'"; cases "pieces srcv'"; auto)+
      moreover have "to_ssize (sz_add copied ?l) = int (copied + ?l)"
        unfolding sum(1) by (rule to_ssize_small[OF sum(2)])
      ultimately show ?thesis using False k unfolding unf
        by (cases ms) (simp_all add: cs cd s(4) d(4) one as ad)
    next
      case cont: True
      have "length (pieces dstv') + length (pieces srcv') < length (pieces dstv) + length (pieces srcv)"
        unfolding pcs pcd by (rule padvance_min_shorter[OF ps pd]) (simp add: min.commute)
      moreover have "all_mem dstv'" "all_mem srcv'"
        using less.prems(3,4) bs bd by (auto simp: all_mem_def)
      moreover have "(copied + ?l) + plen (pieces srcv') < 2 ^ 63"
      proof -
        have "plen (pieces srcv') = plen (pieces srcv) - ?l"
          unfolding pcs by (rule plen_padvance) (simp_all add: ps)
        then show ?thesis using less.prems(5) bound by linarith
      qed
      moreover have "pcopy ?m (pieces dstv') (pieces srcv') = (k1, mk)" using rec pcs pcd by simp
      ultimately obtain dstv'' srcv'' where
        "fuse_buf_copy_loop os dstv' srcv' flags (copied + ?l) ?m w
          = Some (Done (int (copied + ?l + k1), dstv'', srcv'', mk, w))"
        using less.hyps okd oks by blast
      then show ?thesis using cont k unfolding unf
        by (simp add: cs cd s(4) d(4) one as ad sum(1) add.assoc)
    qed
  qed
qed

subsection \<open>Stream integrity of the descriptor transfers\<close>

text \<open>
  Documented behaviour of the calls on stream descriptors (pipes, sockets, append-mode
  files), relative to the bytes \<open>out w\<close> a sink has received and the bytes \<open>inp w\<close> a source
  still holds: \<open>write\<close> appends the bytes it reports, \<open>read\<close> removes the bytes it
  delivers, \<open>splice\<close> moves bytes from one to the other, a failed call moves nothing.
\<close>

definition sink_ok :: "'w os \<Rightarrow> int \<Rightarrow> ('w \<Rightarrow> byte list) \<Rightarrow> bool" where
  "sink_ok os fd out \<longleftrightarrow> (\<forall>bs w. case os_write os fd bs w of
      (Inl e, w') \<Rightarrow> out w' = out w
    | (Inr n, w') \<Rightarrow> out w' = out w @ take n bs)"

definition source_ok :: "'w os \<Rightarrow> int \<Rightarrow> ('w \<Rightarrow> byte list) \<Rightarrow> bool" where
  "source_ok os fd inp \<longleftrightarrow> (\<forall>n w. case os_read os fd n w of
      (Inl e, w') \<Rightarrow> inp w' = inp w
    | (Inr bs, w') \<Rightarrow> inp w = bs @ inp w')"

text \<open>Reading from the source leaves the sink alone.\<close>

definition read_frame :: "'w os \<Rightarrow> int \<Rightarrow> ('w \<Rightarrow> byte list) \<Rightarrow> bool" where
  "read_frame os fd out \<longleftrightarrow> (\<forall>n w. out (snd (os_read os fd n w)) = out w)"

definition write_frame :: "'w os \<Rightarrow> int \<Rightarrow> ('w \<Rightarrow> byte list) \<Rightarrow> bool" where
  "write_frame os fd inp \<longleftrightarrow> (\<forall>bs w. inp (snd (os_write os fd bs w)) = inp w)"

lemma nat_int_add_diff [csimps]: "nat (int a + int b) - a = b"
  by (simp add: nat_int_add)

lemma sink_okD:
  assumes "sink_ok os fd out" and "os_write os fd bs w = (res, w')"
  shows "case res of Inl e \<Rightarrow> out w' = out w | Inr n \<Rightarrow> out w' = out w @ take n bs"
proof -
  have "case os_write os fd bs w of (Inl e, w') \<Rightarrow> out w' = out w
      | (Inr n, w') \<Rightarrow> out w' = out w @ take n bs"
    using assms(1)[unfolded sink_ok_def, rule_format, of w bs] .
  then show ?thesis using assms(2) by (simp split: sum.splits)
qed

lemma source_okD:
  assumes "source_ok os fd inp" and "os_read os fd n w = (res, w')"
  shows "case res of Inl e \<Rightarrow> inp w' = inp w | Inr bs \<Rightarrow> inp w = bs @ inp w'"
proof -
  have "case os_read os fd n w of (Inl e, w') \<Rightarrow> inp w' = inp w
      | (Inr bs, w') \<Rightarrow> inp w = bs @ inp w'"
    using assms(1)[unfolded source_ok_def, rule_format, of w n] .
  then show ?thesis using assms(2) by (simp split: sum.splits)
qed

lemma fuse_buf_write_loop_stream:
  assumes os: "os_ok os" and sink: "sink_ok os (buf_fd dst) out"
    and ns: "\<not> has_flag (buf_flags dst) FUSE_BUF_FD_SEEK"
  shows "copied + len < 2 ^ 63 \<Longrightarrow> src_off + len < 2 ^ 63 \<Longrightarrow>
    fuse_buf_write_loop os dst dst_off src src_off len copied m w = Some (r, w') \<Longrightarrow>
    out w' = out w @ mem_read m (buf_mem src + src_off) (nat r - copied)"
proof (induction len arbitrary: dst_off src_off copied w rule: less_induct)
  case (less len)
  note unf = fuse_buf_write_loop.simps[of os dst dst_off src src_off len copied m w]
  show ?case
  proof (cases "len = 0")
    case True
    then show ?thesis using less.prems unfolding unf by (auto simp: csimps)
  next
    case False
    let ?bs = "mem_read m (buf_mem src + src_off) len"
    obtain res w1 where call: "write_call os dst dst_off ?bs w = (res, w1)" by fastforce
    note ok = write_call_ok[OF os call]
    have wr: "os_write os (buf_fd dst) ?bs w = (res, w1)" using call ns by (simp add: write_call_def)
    show ?thesis
    proof (cases res)
      case (Inl e)
      then have "out w1 = out w" using sink_okD[OF sink wr] by simp
      then show ?thesis using Inl False ok less.prems unfolding unf call
        by (auto simp: csimps split: if_splits)
    next
      case (Inr n)
      then have n: "n \<le> len" using ok by simp
      have o1: "out w1 = out w @ take n ?bs" using Inr sink_okD[OF sink wr] by simp
      then have o1': "out w1 = out w @ mem_read m (buf_mem src + src_off) n" using n
        by (simp add: memsimps min_absorb1)
      show ?thesis
      proof (cases "n = 0 \<or> \<not> has_flag (buf_flags dst) FUSE_BUF_FD_RETRY")
        case True
        then show ?thesis using Inr False n less.prems o1' unfolding unf call
          by (auto simp: csimps split: if_splits)
      next
        case cont: False
        have adds: "sz_add src_off n = src_off + n" "sz_add copied n = copied + n" "sz_sub len n = len - n"
          using n less.prems by (auto simp: csimps)
        have rec: "fuse_buf_write_loop os dst (sz_add dst_off n) src (src_off + n) (len - n)
            (copied + n) m w1 = Some (r, w')"
          using less.prems(3) Inr False cont unfolding unf call by (simp add: adds)
        obtain r2 w2 where "fuse_buf_write_loop os dst (sz_add dst_off n) src (src_off + n) (len - n)
            (copied + n) m w1 = Some (r2, w2)" "transfer_range (copied + n) (len - n) r2"
          using fuse_buf_write_loop_total[OF os, of "copied + n" "len - n" dst "sz_add dst_off n" src
              "src_off + n" m w1] n less.prems(1) by auto
        with rec cont have r: "copied + n \<le> nat r" by (auto simp: transfer_range_def)
        have "out w' = out w1 @ mem_read m (buf_mem src + (src_off + n)) (nat r - (copied + n))"
          by (rule less.IH[OF _ _ _ rec]) (use cont n False less.prems in simp_all)
        then show ?thesis using o1' r
          mem_read_add[of m "buf_mem src + src_off" n "nat r - (copied + n)"] by (simp add: add.assoc)
      qed
    qed
  qed
qed

lemma fuse_buf_read_loop_stream:
  assumes os: "os_ok os" and source: "source_ok os (buf_fd src) inp"
    and ns: "\<not> has_flag (buf_flags src) FUSE_BUF_FD_SEEK"
  shows "copied + len < 2 ^ 63 \<Longrightarrow> dst_off + len < 2 ^ 63 \<Longrightarrow>
    fuse_buf_read_loop os dst dst_off src src_off len copied m w = Some (r, m', w') \<Longrightarrow>
    nat r - copied \<le> length (inp w) \<and> inp w = take (nat r - copied) (inp w) @ inp w' \<and>
    m' = mem_write m (buf_mem dst + dst_off) (take (nat r - copied) (inp w))"
proof (induction len arbitrary: dst_off src_off copied m w rule: less_induct)
  case (less len)
  note unf = fuse_buf_read_loop.simps[of os dst dst_off src src_off len copied m w]
  show ?case
  proof (cases "len = 0")
    case True
    then show ?thesis using less.prems unfolding unf by (auto simp: csimps)
  next
    case False
    obtain res w1 where call: "read_call os src src_off len w = (res, w1)" by fastforce
    note ok = read_call_ok[OF os call]
    have rd: "os_read os (buf_fd src) len w = (res, w1)" using call ns by (simp add: read_call_def)
    show ?thesis
    proof (cases res)
      case (Inl e)
      then have "inp w1 = inp w" using source_okD[OF source rd] by simp
      moreover have "w' = w1" "m' = m" "nat r - copied = 0"
        using Inl False ok less.prems unfolding unf call by (auto simp: csimps split: if_splits)
      ultimately show ?thesis by simp
    next
      case (Inr bs)
      let ?n = "length bs" and ?m = "mem_write m (buf_mem dst + dst_off) bs"
      have n: "?n \<le> len" using ok Inr by simp
      have i1: "inp w = bs @ inp w1" using Inr source_okD[OF source rd] by simp
      show ?thesis
      proof (cases "?n = 0 \<or> \<not> has_flag (buf_flags src) FUSE_BUF_FD_RETRY")
        case True
        then have "r = int copied + int ?n \<and> m' = ?m \<and> w' = w1"
          using Inr False n less.prems unfolding unf call by (auto simp: csimps split: if_splits)
        moreover from this have "nat r - copied = ?n" by (simp add: csimps)
        ultimately show ?thesis by (simp add: i1)
      next
        case cont: False
        have adds: "sz_add dst_off ?n = dst_off + ?n" "sz_add copied ?n = copied + ?n"
          "sz_sub len ?n = len - ?n" using n less.prems by (auto simp: csimps)
        have rec: "fuse_buf_read_loop os dst (dst_off + ?n) src (sz_add src_off ?n) (len - ?n)
            (copied + ?n) ?m w1 = Some (r, m', w')"
          using less.prems(3) Inr False cont unfolding unf call by (simp add: adds)
        obtain r2 m2 w2 where "fuse_buf_read_loop os dst (dst_off + ?n) src (sz_add src_off ?n) (len - ?n)
            (copied + ?n) ?m w1 = Some (r2, m2, w2)" "transfer_range (copied + ?n) (len - ?n) r2"
          using fuse_buf_read_loop_total[OF os, of "copied + ?n" "len - ?n" dst "dst_off + ?n" src
              "sz_add src_off ?n" ?m w1] n less.prems(1) by auto
        with rec have "transfer_range (copied + ?n) (len - ?n) r" by simp
        then have r: "copied + ?n \<le> nat r" using cont by (auto simp: transfer_range_def)
        then have k: "nat r - copied = ?n + (nat r - (copied + ?n))" by simp
        define X where "X = take (nat r - (copied + ?n)) (inp w1)"
        have IH: "nat r - (copied + ?n) \<le> length (inp w1) \<and> inp w1 = X @ inp w' \<and> m' = mem_write ?m (buf_mem dst + (dst_off + ?n)) X"
          unfolding X_def by (rule less.IH[OF _ _ _ rec]) (use cont n False less.prems in simp_all)
        have tk: "take (nat r - copied) (inp w) = bs @ X"
          unfolding i1 k X_def by simp
        have "inp w = (bs @ X) @ inp w'" using i1 conjunct1[OF conjunct2[OF IH]] by (simp only: append_assoc)
        moreover have "m' = mem_write m (buf_mem dst + dst_off) (bs @ X)"
          using IH mem_write_append[of m "buf_mem dst + dst_off" bs X] by (simp add: add.assoc)
        moreover have "nat r - copied \<le> length (inp w)" using conjunct1[OF IH] k i1 by simp
        ultimately show ?thesis unfolding tk by blast
      qed
    qed
  qed
qed

text \<open>What a transfer loop leaves alone.\<close>

lemma fuse_buf_write_loop_frame:
  assumes os: "os_ok os" and fr: "write_frame os (buf_fd dst) g"
    and ns: "\<not> has_flag (buf_flags dst) FUSE_BUF_FD_SEEK"
  shows "copied + len < 2 ^ 63 \<Longrightarrow>
    fuse_buf_write_loop os dst dst_off src src_off len copied m w = Some (r, w') \<Longrightarrow> g w' = g w"
proof (induction len arbitrary: dst_off src_off copied w rule: less_induct)
  case (less len)
  note unf = fuse_buf_write_loop.simps[of os dst dst_off src src_off len copied m w]
  show ?case
  proof (cases "len = 0")
    case True
    then show ?thesis using less.prems unfolding unf by simp
  next
    case False
    let ?bs = "mem_read m (buf_mem src + src_off) len"
    obtain res w1 where call: "write_call os dst dst_off ?bs w = (res, w1)" by fastforce
    note ok = write_call_ok[OF os call]
    have g1: "g w1 = g w"
      using fr[unfolded write_frame_def, rule_format, of ?bs w] call ns by (simp add: write_call_def)
    show ?thesis
    proof (cases "\<exists>n. res = Inr n \<and> n \<noteq> 0 \<and> has_flag (buf_flags dst) FUSE_BUF_FD_RETRY")
      case stop: False
      then have "w' = w1" using less.prems(2) False unfolding unf call
        by (auto split: if_splits sum.splits)
      then show ?thesis using g1 by simp
    next
      case True
      then obtain n where n: "res = Inr n" "n \<noteq> 0" "has_flag (buf_flags dst) FUSE_BUF_FD_RETRY" by blast
      then have "n \<le> len" using ok by simp
      then have "sz_sub len n = len - n" "sz_add copied n = copied + n"
        using less.prems(1) by (auto simp: csimps)
      then have "fuse_buf_write_loop os dst (sz_add dst_off n) src (sz_add src_off n) (len - n)
          (copied + n) m w1 = Some (r, w')"
        using less.prems(2) False n unfolding unf call by simp
      from less.IH[OF _ _ this] n \<open>n \<le> len\<close> False less.prems(1) have "g w' = g w1" by simp
      then show ?thesis using g1 by simp
    qed
  qed
qed

lemma fuse_buf_read_loop_frame:
  assumes os: "os_ok os" and fr: "read_frame os (buf_fd src) g"
    and ns: "\<not> has_flag (buf_flags src) FUSE_BUF_FD_SEEK"
  shows "copied + len < 2 ^ 63 \<Longrightarrow>
    fuse_buf_read_loop os dst dst_off src src_off len copied m w = Some (r, m', w') \<Longrightarrow> g w' = g w"
proof (induction len arbitrary: dst_off src_off copied m w rule: less_induct)
  case (less len)
  note unf = fuse_buf_read_loop.simps[of os dst dst_off src src_off len copied m w]
  show ?case
  proof (cases "len = 0")
    case True
    then show ?thesis using less.prems unfolding unf by simp
  next
    case False
    obtain res w1 where call: "read_call os src src_off len w = (res, w1)" by fastforce
    note ok = read_call_ok[OF os call]
    have g1: "g w1 = g w"
      using fr[unfolded read_frame_def, rule_format, of len w] call ns by (simp add: read_call_def)
    show ?thesis
    proof (cases "\<exists>bs. res = Inr bs \<and> bs \<noteq> [] \<and> has_flag (buf_flags src) FUSE_BUF_FD_RETRY")
      case stop: False
      then have "w' = w1" using less.prems(2) False unfolding unf call
        by (auto split: if_splits sum.splits)
      then show ?thesis using g1 by simp
    next
      case True
      then obtain bs where n: "res = Inr bs" "bs \<noteq> []" "has_flag (buf_flags src) FUSE_BUF_FD_RETRY" by blast
      then have le: "length bs \<le> len" using ok by simp
      then have "sz_sub len (length bs) = len - length bs" "sz_add copied (length bs) = copied + length bs"
        using less.prems(1) by (auto simp: csimps)
      then have "fuse_buf_read_loop os dst (sz_add dst_off (length bs)) src (sz_add src_off (length bs))
          (len - length bs) (copied + length bs) (mem_write m (buf_mem dst + dst_off) bs) w1
          = Some (r, m', w')"
        using less.prems(2) False n unfolding unf call by simp
      from less.IH[OF _ _ this] n le False less.prems(1) have "g w' = g w1" by simp
      then show ?thesis using g1 by simp
    qed
  qed
qed

definition splice_moves :: "'w os \<Rightarrow> int \<Rightarrow> int \<Rightarrow> ('w \<Rightarrow> byte list) \<Rightarrow> ('w \<Rightarrow> byte list) \<Rightarrow> bool" where
  "splice_moves os sfd dfd inp out \<longleftrightarrow> (\<forall>sp dp n fl w. case os_splice os sfd sp dfd dp n fl w of
      (Inl e, w') \<Rightarrow> inp w' = inp w \<and> out w' = out w
    | (Inr (k, _), w') \<Rightarrow> k \<le> length (inp w) \<and> inp w' = drop k (inp w) \<and> out w' = out w @ take k (inp w))"

text \<open>Two distinct stream descriptors, neither of them positioned.\<close>

definition stream_pair :: "'w os \<Rightarrow> fuse_buf \<Rightarrow> fuse_buf \<Rightarrow> ('w \<Rightarrow> byte list) \<Rightarrow> ('w \<Rightarrow> byte list) \<Rightarrow> bool" where
  "stream_pair os dst src inp out \<longleftrightarrow> os_ok os \<and>
     \<not> has_flag (buf_flags src) FUSE_BUF_FD_SEEK \<and> \<not> has_flag (buf_flags dst) FUSE_BUF_FD_SEEK \<and>
     sink_ok os (buf_fd dst) out \<and> source_ok os (buf_fd src) inp \<and>
     read_frame os (buf_fd src) out \<and> write_frame os (buf_fd dst) inp \<and>
     splice_moves os (buf_fd src) (buf_fd dst) inp out"

lemma fuse_buf_fd_to_fd_loop_stream:
  assumes sp: "stream_pair os dst src inp out"
  shows "copied + len < 2 ^ 63 \<Longrightarrow>
    fuse_buf_fd_to_fd_loop os dst dst_off src src_off len copied buf w = Some (r, w') \<Longrightarrow>
    out w' = out w @ take (nat r - copied) (inp w)"
proof (induction len arbitrary: dst_off src_off copied buf w rule: less_induct)
  case (less len)
  note unf = fuse_buf_fd_to_fd_loop.simps[of os dst dst_off src src_off len copied buf w]
  from sp have os: "os_ok os" and ns: "\<not> has_flag (buf_flags src) FUSE_BUF_FD_SEEK"
    "\<not> has_flag (buf_flags dst) FUSE_BUF_FD_SEEK" and sk: "sink_ok os (buf_fd dst) out"
    and sr: "source_ok os (buf_fd src) inp" and rf: "read_frame os (buf_fd src) out"
    and wf: "write_frame os (buf_fd dst) inp" by (auto simp: stream_pair_def)
  show ?case
  proof (cases "len = 0")
    case True
    then show ?thesis using less.prems unfolding unf by (auto simp: csimps)
  next
    case False
    let ?l = "min 4096 len"
    have sz: "buf_size fd_tmp = 4096" "buf_mem fd_tmp = 0" by (auto simp: fd_tmp_def)
    have "?l \<le> 4096" by simp
    then have l63: "?l < 2 ^ 63" by (rule le_less_trans) simp
    obtain r1 b1 w1 where rd: "fuse_buf_read os fd_tmp 0 src src_off ?l buf w = Some (r1, b1, w1)"
      and t1: "transfer_range 0 ?l r1"
      using fuse_buf_read_loop_total[OF os, of 0 ?l fd_tmp 0 src src_off buf w] l63
      by (auto simp: fuse_buf_read_def)
    have i0: "nat r1 \<le> length (inp w)" and i1: "inp w = take (nat r1) (inp w) @ inp w1" and b1: "b1 = mem_write buf 0 (take (nat r1) (inp w))"
      and o1: "out w1 = out w"
      using fuse_buf_read_loop_stream[OF os sr ns(1) _ _ rd[unfolded fuse_buf_read_def]]
        fuse_buf_read_loop_frame[OF os rf ns(1) _ rd[unfolded fuse_buf_read_def]] sz l63 by auto
    show ?thesis
    proof (cases "r1 \<le> 0")
      case True
      then have "w' = w1" "nat r - copied = 0" using less.prems False rd unfolding unf sz
        by (auto simp: csimps split: if_splits)
      then show ?thesis using o1 by simp
    next
      case pos: False
      then have n1: "nat r1 \<le> ?l" using t1 by (auto simp: transfer_range_def)
      have len1: "length (take (nat r1) (inp w)) = nat r1"
        using i0 by simp
      obtain r2 w2 where wr: "fuse_buf_write os dst dst_off fd_tmp 0 (nat r1) b1 w1 = Some (r2, w2)"
        and t2: "transfer_range 0 (nat r1) r2"
        using fuse_buf_write_loop_total[OF os, of 0 "nat r1" dst dst_off fd_tmp 0 b1 w1] n1 l63
        by (auto simp: fuse_buf_write_def)
      have n2: "nat r2 \<le> nat r1" using t2 pos by (auto simp: transfer_range_def split: if_splits)
      have "out w2 = out w1 @ mem_read b1 0 (nat r2)"
        using fuse_buf_write_loop_stream[OF os sk ns(2) _ _ wr[unfolded fuse_buf_write_def]] n1 l63 sz by auto
      also have "mem_read b1 0 (nat r2) = take (nat r2) (inp w)"
        unfolding b1 using len1 n2 mem_read_write_same[of buf 0 "take (nat r1) (inp w)"]
          take_mem_read[of "nat r2" b1 0 "nat r1"]
        by (simp add: b1 min_absorb1)
      finally have o2: "out w2 = out w @ take (nat r2) (inp w)" using o1 by simp
      have i2: "inp w2 = inp w1"
        using fuse_buf_write_loop_frame[OF os wf ns(2) _ wr[unfolded fuse_buf_write_def]] n1 l63 by auto
      show ?thesis
      proof (cases "r2 \<le> 0 \<or> nat r2 < ?l")
        case True
        then have "w' = w2" "nat r - copied = nat r2" using less.prems False pos rd wr n1 n2 unfolding unf sz
          by (auto simp: csimps split: if_splits)
        then show ?thesis using o2 by simp
      next
        case cont: False
        then have eq: "nat r2 = ?l" "nat r1 = ?l" using n1 n2 by auto
        have adds: "sz_sub len (nat r2) = len - nat r2" "sz_add copied (nat r2) = copied + nat r2"
          using eq less.prems(1) by (auto simp: csimps)
        have rec: "fuse_buf_fd_to_fd_loop os dst (sz_add dst_off (nat r2)) src (sz_add src_off (nat r2))
            (len - nat r2) (copied + nat r2) b1 w2 = Some (r, w')"
          using less.prems(2) False pos cont rd wr unfolding unf sz by (auto simp: adds split: if_splits)
        have "out w' = out w2 @ take (nat r - (copied + nat r2)) (inp w2)"
          by (rule less.IH[OF _ _ rec]) (use less.prems(1) eq False in auto)
        moreover obtain r3 w3 where "fuse_buf_fd_to_fd_loop os dst (sz_add dst_off (nat r2)) src
            (sz_add src_off (nat r2)) (len - nat r2) (copied + nat r2) b1 w2 = Some (r3, w3)"
            "transfer_range (copied + nat r2) (len - nat r2) r3"
          using fuse_buf_fd_to_fd_loop_total[OF os, of "copied + nat r2" "len - nat r2" dst
              "sz_add dst_off (nat r2)" src "sz_add src_off (nat r2)" b1 w2] eq less.prems(1) by auto
        then have "copied + nat r2 \<le> nat r" using rec cont by (auto simp: transfer_range_def)
        then have "take (nat r - copied) (inp w)
            = take (nat r2) (inp w) @ take (nat r - (copied + nat r2)) (drop (nat r2) (inp w))"
          by (simp add: take_add[symmetric])
        moreover have "inp w2 = drop (nat r2) (inp w)"
        proof -
          have "drop (nat r1) (inp w) = inp w1" using i1 len1 by (metis append_eq_conv_conj)
          then show ?thesis using i2 eq by simp
        qed
        ultimately show ?thesis using o2 by simp
      qed
    qed
  qed
qed

lemma fuse_buf_splice_loop_stream:
  assumes sp: "stream_pair os dst src inp out"
  shows "copied + len < 2 ^ 63 \<Longrightarrow>
    fuse_buf_splice_loop os dst dst_off src src_off len flags sf srcp dstp copied w = Some (r, w') \<Longrightarrow>
    out w' = out w @ take (nat r - copied) (inp w)"
proof (induction len arbitrary: srcp dstp copied w rule: less_induct)
  case (less len)
  note unf = fuse_buf_splice_loop.simps[of os dst dst_off src src_off len flags sf srcp dstp copied w]
  from sp have os: "os_ok os" and mv: "splice_moves os (buf_fd src) (buf_fd dst) inp out"
    by (auto simp: stream_pair_def)
  show ?case
  proof (cases "len = 0")
    case True
    then show ?thesis using less.prems unfolding unf by (auto simp: csimps)
  next
    case False
    obtain res w1 where call: "os_splice os (buf_fd src) srcp (buf_fd dst) dstp len sf w = (res, w1)"
      by fastforce
    note ok = splice_ok[OF os call]
    have mv1: "case os_splice os (buf_fd src) srcp (buf_fd dst) dstp len sf w of
        (Inl e, w') \<Rightarrow> inp w' = inp w \<and> out w' = out w
      | (Inr (k, _), w') \<Rightarrow> k \<le> length (inp w) \<and> inp w' = drop k (inp w) \<and> out w' = out w @ take k (inp w)"
      using mv unfolding splice_moves_def by (elim allE)
    show ?thesis
    proof (cases res)
      case (Inl e)
      then have io: "inp w1 = inp w" "out w1 = out w" using mv1 call by simp_all
      show ?thesis
      proof (cases "copied \<noteq> 0 \<or> e \<noteq> EINVAL \<or> has_flag flags FUSE_BUF_FORCE_SPLICE")
        case True
        then have "w' = w1" "nat r - copied = 0" using less.prems False Inl ok unfolding unf call
          by (auto simp: csimps split: if_splits)
        then show ?thesis using io by simp
      next
        case fb: False
        then have "fuse_buf_fd_to_fd os dst dst_off src src_off len w1 = Some (r, w')"
          using less.prems False Inl unfolding unf call by simp
        then show ?thesis using fuse_buf_fd_to_fd_loop_stream[OF sp, of 0 len] less.prems(1) fb io
          by (simp add: fuse_buf_fd_to_fd_def)
      qed
    next
      case (Inr t)
      obtain n sp' dp' where t: "t = (n, sp', dp')" by (cases t)
      have n: "n \<le> len" using ok Inr t by simp
      have io: "inp w1 = drop n (inp w)" "out w1 = out w @ take n (inp w)" using mv1 call Inr t by simp_all
      show ?thesis
      proof (cases "n = 0 \<or> (\<not> has_flag (buf_flags src) FUSE_BUF_FD_RETRY
               \<and> \<not> has_flag (buf_flags dst) FUSE_BUF_FD_RETRY)")
        case True
        then have "w' = w1" "r = int copied + int n" using less.prems False Inr t n unfolding unf call
          by (auto simp: csimps split: if_splits)
        then show ?thesis using io by (simp add: csimps)
      next
        case cont: False
        have adds: "sz_sub len n = len - n" "sz_add copied n = copied + n"
          using n less.prems(1) by (auto simp: csimps)
        have rec: "fuse_buf_splice_loop os dst dst_off src src_off (len - n) flags sf sp' dp' (copied + n) w1
            = Some (r, w')"
          using less.prems(2) False cont Inr t unfolding unf call by (auto simp: adds)
        have "out w' = out w1 @ take (nat r - (copied + n)) (inp w1)"
          by (rule less.IH[OF _ _ rec]) (use less.prems(1) n cont False in auto)
        moreover have "copied + n \<le> nat r"
          using fuse_buf_splice_loop_total[OF os, of "copied + n" "len - n" dst dst_off src src_off flags
              sf sp' dp' w1] rec cont n less.prems(1) by (auto simp: transfer_range_def)
        then have "take (nat r - copied) (inp w)
            = take n (inp w) @ take (nat r - (copied + n)) (drop n (inp w))"
          by (simp add: take_add[symmetric])
        ultimately show ?thesis using io by simp
      qed
    qed
  qed
qed

lemma fuse_buf_copy_one_stream:
  assumes sp: "stream_pair os dst src inp out" and len: "len < 2 ^ 63"
    and fds: "has_flag (buf_flags src) FUSE_BUF_IS_FD" "has_flag (buf_flags dst) FUSE_BUF_IS_FD"
    and ret: "fuse_buf_copy_one os dst dst_off src src_off len flags m w = Some (r, m', w')"
  shows "out w' = out w @ take (nat r) (inp w) \<and> m' = m"
proof (cases "has_flag flags FUSE_BUF_NO_SPLICE")
  case True
  then have "fuse_buf_fd_to_fd os dst dst_off src src_off len w = Some (r, w')" "m' = m"
    using ret fds by (auto simp: fuse_buf_copy_one_def Let_def)
  then show ?thesis using fuse_buf_fd_to_fd_loop_stream[OF sp, of 0 len] len
    by (simp add: fuse_buf_fd_to_fd_def)
next
  case False
  then have "fuse_buf_splice os dst dst_off src src_off len flags w = Some (r, w')" "m' = m"
    using ret fds by (auto simp: fuse_buf_copy_one_def Let_def)
  then show ?thesis using fuse_buf_splice_loop_stream[OF sp, of 0 len] len
    by (simp add: fuse_buf_splice_def)
qed

subsection \<open>Total size\<close>

lemma fuse_buf_size_loop_sum:
  "\<forall>b \<in> set bs. buf_size b \<noteq> SIZE_MAX \<Longrightarrow> acc + sum_list (map buf_size bs) < 2 ^ 64 \<Longrightarrow>
   fuse_buf_size_loop acc bs = acc + sum_list (map buf_size bs)"
  by (induction bs arbitrary: acc) (auto simp: csimps)

lemma fuse_buf_size_loop_append:
  "fuse_buf_size_loop acc (xs @ ys) = fuse_buf_size_loop (fuse_buf_size_loop acc xs) ys"
  by (induction xs arbitrary: acc) auto

subsection \<open>Properties\<close>

text \<open>A concrete kernel for the witnesses: one source stream and one sink stream, reads and
  writes of at most two bytes at a time, and no splice support (\<open>EINVAL\<close>).\<close>

definition two_byte_os :: "(byte list \<times> byte list) os" where
  "two_byte_os = \<lparr>
     os_write = (\<lambda>fd bs (i, out). (Inr (min 2 (length bs)), (i, out @ take 2 bs))),
     os_pwrite = (\<lambda>fd bs p (i, out). (Inr (min 2 (length bs)), (i, out @ take 2 bs))),
     os_read = (\<lambda>fd n (i, out). (Inr (take (min 2 n) i), (drop (min 2 n) i, out))),
     os_pread = (\<lambda>fd n p (i, out). (Inr (take (min 2 n) i), (drop (min 2 n) i, out))),
     os_splice = (\<lambda>i ip j jp n fl w. (Inl EINVAL, w))\<rparr>"

lemma take_min_length [simp]: "take (min k (length xs)) xs = take k xs"
  by (simp add: min_def)

lemma two_byte_os_ok: "os_ok two_byte_os"
  by (auto simp: os_ok_def two_byte_os_def split: prod.splits)

definition mem_buf :: "nat \<Rightarrow> nat \<Rightarrow> fuse_buf" where
  "mem_buf a n = \<lparr>buf_size = n, buf_metadata = 0, buf_footer = 0, buf_flags = 0, buf_mem = a,
     buf_fd = -1, buf_pos = 0\<rparr>"

definition fd_buf :: "32 word \<Rightarrow> nat \<Rightarrow> int \<Rightarrow> fuse_buf" where
  "fd_buf fl n fd = \<lparr>buf_size = n, buf_metadata = 0, buf_footer = 0, buf_flags = fl, buf_mem = 0,
     buf_fd = fd, buf_pos = 0\<rparr>"

definition vec_of :: "fuse_buf list \<Rightarrow> fuse_bufvec" where
  "vec_of bs = \<lparr>bv_count = length bs, bv_idx = 0, bv_off = 0, bv_buf = bs\<rparr>"

text \<open>Claim C6 (fuse_buf_copy_mem_correct). Copying between two vectors of memory buffers whose
  regions do not overlap returns the smaller of the two remaining totals, and the bytes now
  found at the front of the destination are exactly the bytes found at the front of the
  source before the call, across all buffer boundaries.\<close>

theorem fuse_buf_copy_mem_correct:
  assumes "bufvec_ok dstv" and "bufvec_ok srcv" and "all_mem dstv" and "all_mem srcv"
    and "copy_safe (pieces dstv) (pieces srcv)"
  shows "\<exists>dstv' srcv' m'. fuse_buf_copy os False dstv srcv flags m w
      = Some (Done (int (min (plen (pieces dstv)) (plen (pieces srcv))), dstv', srcv', m', w)) \<and>
    take (min (plen (pieces dstv)) (plen (pieces srcv))) (pread m' (pieces dstv))
      = take (min (plen (pieces dstv)) (plen (pieces srcv))) (pread m (pieces srcv))"
proof -
  obtain k mk where pc: "pcopy m (pieces dstv) (pieces srcv) = (k, mk)" by fastforce
  note cor = pcopy_correct[OF assms(5) pc]
  have "plen (pieces srcv) < 2 ^ 62" using assms(2) by (simp add: bufvec_ok_def)
  then have "0 + plen (pieces srcv) < 2 ^ 63" by simp
  from fuse_buf_copy_loop_mem[OF assms(1-4) this pc, of os flags w] cor
  show ?thesis by (auto simp: fuse_buf_copy_def)
qed

theorem fuse_buf_copy_mem_correct_witness:
  "\<exists>dstv' srcv' m'. fuse_buf_copy two_byte_os False (vec_of [mem_buf 100 3, mem_buf 200 4])
        (vec_of [mem_buf 0 2, mem_buf 10 3]) 0 (\<lambda>a. of_nat a) ([], [])
      = Some (Done (5, dstv', srcv', m', ([], []))) \<and>
    pread m' [(100, 3), (200, 2)] = [0, 1, 10, 11, 12]"
proof -
  let ?d = "vec_of [mem_buf 100 3, mem_buf 200 4]" and ?s = "vec_of [mem_buf 0 2, mem_buf 10 3]"
  have pd: "pieces ?d = [(100, 3), (200, 4)]" and ps: "pieces ?s = [(0, 2), (10, 3)]"
    by (simp_all add: pieces_def vec_of_def mem_buf_def)
  have h: "bufvec_ok ?d" "bufvec_ok ?s" "all_mem ?d" "all_mem ?s" "copy_safe (pieces ?d) (pieces ?s)"
    by (simp_all add: bufvec_ok_def pd ps all_mem_def copy_safe_def pieces_disjoint_def has_flag_def)
      (simp_all add: vec_of_def mem_buf_def)
  show ?thesis
    using fuse_buf_copy_mem_correct[OF h, of two_byte_os 0 "\<lambda>a. of_nat a" "([], [])"]
    by (simp add: pd ps mem_read_def upt_rec del: upt_Suc)
qed

text \<open>Claim C35 (fuse_buf_copy_terminates). For every mix of memory and descriptor buffers, with any
  flags, short transfers and errors included, \<open>fuse_buf_copy\<close> returns: none of its loops
  runs forever, no assertion of \<open>fuse_bufvec_advance\<close> fails, the vectors stay well-formed, and
  the result is a negative errno or a count no larger than either vector's remaining size.\<close>

theorem fuse_buf_copy_terminates:
  assumes "os_ok os" and "bufvec_ok dstv" and "bufvec_ok srcv"
  shows "\<exists>r dstv' srcv' m' w'.
    fuse_buf_copy os False dstv srcv flags m w = Some (Done (r, dstv', srcv', m', w')) \<and>
    bufvec_ok dstv' \<and> bufvec_ok srcv' \<and>
    r \<le> int (min (plen (pieces dstv)) (plen (pieces srcv)))"
proof -
  have "plen (pieces srcv) < 2 ^ 62" using assms(3) by (simp add: bufvec_ok_def)
  then have "0 + plen (pieces srcv) < 2 ^ 63" by simp
  from fuse_buf_copy_loop_total[OF assms this, of flags m w]
  show ?thesis unfolding fuse_buf_copy_def by (fastforce simp: transfer_range_def)
qed

theorem fuse_buf_copy_terminates_witness:
  "\<exists>r dstv' srcv' m' w'.
    fuse_buf_copy two_byte_os False (vec_of [fd_buf 10 5 4, mem_buf 64 8])
      (vec_of [mem_buf 0 3, fd_buf 2 7 3]) 0 (\<lambda>_. 0) ([1, 2, 3], [])
      = Some (Done (r, dstv', srcv', m', w')) \<and> bufvec_ok dstv' \<and> bufvec_ok srcv' \<and> r \<le> 10"
proof -
  have h: "bufvec_ok (vec_of [fd_buf 10 5 4, mem_buf 64 8])" "bufvec_ok (vec_of [mem_buf 0 3, fd_buf 2 7 3])"
    by (simp_all add: bufvec_ok_def vec_of_def mem_buf_def fd_buf_def pieces_def)
  have p: "plen (pieces (vec_of [fd_buf 10 5 4, mem_buf 64 8])) = 13"
    "plen (pieces (vec_of [mem_buf 0 3, fd_buf 2 7 3])) = 10"
    by (simp_all add: vec_of_def mem_buf_def fd_buf_def pieces_def)
  show ?thesis
    using fuse_buf_copy_terminates[OF two_byte_os_ok h, of 0 "\<lambda>_. 0" "([1, 2, 3], [])"]
    unfolding p by simp
qed

text \<open>Moving data between two stream descriptors, by
  splice, by splice falling back to read and write, or by read and write alone, delivers to
  the sink exactly the next \<open>r\<close> bytes of the source, in order, where \<open>r\<close> is the value
  returned; an error return delivers nothing. Process memory is not touched.\<close>

theorem fuse_buf_copy_one_preserves_stream:
  assumes "stream_pair os dst src inp out" and "len < 2 ^ 63"
    and "has_flag (buf_flags src) FUSE_BUF_IS_FD" and "has_flag (buf_flags dst) FUSE_BUF_IS_FD"
  shows "\<exists>r w'. fuse_buf_copy_one os dst dst_off src src_off len flags m w = Some (r, m, w') \<and>
    r \<le> int len \<and> out w' = out w @ take (nat r) (inp w)"
proof -
  have "os_ok os" using assms(1) by (simp add: stream_pair_def)
  from fuse_buf_copy_one_total[OF this assms(2), of dst dst_off src src_off flags m w]
  obtain r m' w' where ret: "fuse_buf_copy_one os dst dst_off src src_off len flags m w = Some (r, m', w')"
    and tr: "transfer_range 0 len r" by blast
  from fuse_buf_copy_one_stream[OF assms ret] ret tr show ?thesis by (auto simp: transfer_range_def)
qed

theorem fuse_buf_copy_one_preserves_stream_witness:
  "\<exists>r w'. fuse_buf_copy_one two_byte_os (fd_buf 10 9 4) 0 (fd_buf 10 9 3) 0 5 0 (\<lambda>_. 0)
        ([7, 8, 9], [1]) = Some (r, (\<lambda>_. 0), w') \<and> r \<le> 5 \<and>
      snd w' = [1] @ take (nat r) [7, 8, 9]"
proof -
  have sp: "stream_pair two_byte_os (fd_buf 10 9 4) (fd_buf 10 9 3) fst snd"
    by (simp add: stream_pair_def two_byte_os_ok)
      (auto simp: sink_ok_def source_ok_def read_frame_def write_frame_def splice_moves_def
        two_byte_os_def fd_buf_def has_flag_def buf_flag_defs split: prod.splits)
  have fl: "has_flag (buf_flags (fd_buf 10 9 3)) FUSE_BUF_IS_FD"
    "has_flag (buf_flags (fd_buf 10 9 4)) FUSE_BUF_IS_FD"
    by (simp_all add: fd_buf_def has_flag_def buf_flag_defs)
  show ?thesis
    using fuse_buf_copy_one_preserves_stream[OF sp _ fl, of 5 0 0 0 "\<lambda>_. 0" "([7, 8, 9], [1])"] by simp
qed

text \<open>The size of a vector with no unlimited (\<open>SIZE_MAX\<close>) buffer whose
  total fits in \<open>size_t\<close> is the sum of its buffers' sizes.\<close>

theorem fuse_buf_size_sum:
  assumes "bv_count bv = length (bv_buf bv)" and "\<forall>b \<in> set (bv_buf bv). buf_size b \<noteq> SIZE_MAX"
    and "sum_list (map buf_size (bv_buf bv)) < 2 ^ 64"
  shows "fuse_buf_size bv = sum_list (map buf_size (bv_buf bv))"
  using assms fuse_buf_size_loop_sum[of "bv_buf bv" 0] by (simp add: fuse_buf_size_def)

theorem fuse_buf_size_sum_witness:
  "fuse_buf_size (vec_of [mem_buf 0 5, mem_buf 9 7]) = 12"
  using fuse_buf_size_sum[of "vec_of [mem_buf 0 5, mem_buf 9 7]"]
  by (simp add: vec_of_def mem_buf_def SIZE_MAX_def)

text \<open>Claim C40 (fuse_buf_size_unlimited_wraps). A \<open>SIZE_MAX\<close> buffer (unlimited size) makes the
  accumulated size \<open>SIZE_MAX\<close>, but the loop goes on adding: a following buffer of size
  \<open>k + 1\<close> wraps the total around to \<open>k\<close>, so only a trailing unlimited buffer is reported as
  unlimited.\<close>

theorem fuse_buf_size_unlimited_wraps:
  assumes "k + 1 < SIZE_MAX"
  shows "fuse_buf_size (vec_of (bs @ [mem_buf a SIZE_MAX])) = SIZE_MAX \<and>
    fuse_buf_size (vec_of (bs @ [mem_buf a SIZE_MAX, mem_buf b (k + 1)])) = k"
  using assms
  by (simp add: fuse_buf_size_def vec_of_def fuse_buf_size_loop_append)
    (simp add: mem_buf_def sz_add_def SIZE_MAX_def)

theorem fuse_buf_size_unlimited_wraps_witness:
  "fuse_buf_size (vec_of ([mem_buf 0 9] @ [mem_buf 5 SIZE_MAX])) = SIZE_MAX \<and>
    fuse_buf_size (vec_of ([mem_buf 0 9] @ [mem_buf 5 SIZE_MAX, mem_buf 6 (41 + 1)])) = 41"
  by (rule fuse_buf_size_unlimited_wraps) (simp add: SIZE_MAX_def)

end
