(* ===== verification/Fuse_Reply.thy ===== *)
theory Fuse_Reply
  imports Fuse_Buffer
begin

text \<open>
  Replies that carry data (\<open>lib/fuse_lowlevel.c\<close>): \<open>fuse_reply_data\<close> sends the data of a buffer vector to the kernel, either
  copied by \<open>writev\<close> or spliced through a pipe that each thread keeps for this purpose, and falls back from one to the other. The
  headers carry the two lengths and the address for the extraction of header and footer (\<open>FUSE_BUF_FD_SECTION\<close>).

  The message header is handed to the pipe by \<open>vmsplice\<close> as a reference to the memory of the process: what the kernel reads from the pipe
  later is the header as it is then, and the code depends on it, since it corrects the length after it knows how much data there is. So
  \<open>ro_splice_out\<close> gets the bytes of the header at the time of the call. System calls and allocation are a parameter.
\<close>

subsection \<open>Data\<close>

definition ERANGE :: int where "ERANGE = 34"

text \<open>The conversion of the result of \<open>fuse_buf_copy\<close> to \<open>int\<close> (an error is the negative of an \<open>errno\<close>, which is an \<open>int\<close>), and
  the conversion to \<open>uint32_t\<close>.\<close>

definition c_int :: "int \<Rightarrow> int" where
  "c_int x = (if x < 0 then x else (x + 2 ^ 31) mod 2 ^ 32 - 2 ^ 31)"

definition u32 :: "nat \<Rightarrow> nat" where
  "u32 x = x mod 2 ^ 32"

record fuse_out_header =
  rh_len :: nat
  rh_error :: int
  rh_unique :: nat
  rh_header :: nat
  rh_footer :: nat
  rh_mem :: nat

definition hdr_bytes :: "fuse_out_header \<Rightarrow> byte list" where
  "hdr_bytes h = le_bytes 4 (rh_len h) @ le_bytes 4 (nat (rh_error h mod 2 ^ 32)) @ le_bytes 8 (rh_unique h) @
     le_bytes 4 (rh_header h) @ le_bytes 4 (rh_footer h) @ le_bytes 8 (rh_mem h)"

record fuse_ll_pipe =
  llp_size :: nat
  llp_can_grow :: bool
  llp_pipe :: "int \<times> int"

text \<open>The system calls that replies use besides those of the buffers. \<open>ro_pipemax\<close> reads \<open>/proc/sys/fs/pipe-max-size\<close>. The
  functions of \<open>fuse_session_custom_io\<close> take the places of \<open>ro_writev\<close> and \<open>ro_splice_out\<close> if they are set.\<close>

record 'w ros =
  ro_os :: "'w os"
  ro_pipe :: "'w \<Rightarrow> (int \<times> int) option \<times> 'w"
  ro_close :: "int \<Rightarrow> 'w \<Rightarrow> 'w"
  ro_setpipe :: "int \<Rightarrow> nat \<Rightarrow> 'w \<Rightarrow> (int + nat) \<times> 'w"
  ro_pipemax :: "'w \<Rightarrow> (int + int) \<times> 'w"
  ro_vmsplice :: "int \<Rightarrow> byte list \<Rightarrow> 'w \<Rightarrow> (int + nat) \<times> 'w"
  ro_splice_out :: "byte list \<Rightarrow> int \<Rightarrow> int \<Rightarrow> nat \<Rightarrow> nat \<Rightarrow> 'w \<Rightarrow> (int + nat) \<times> 'w"
  ro_writev :: "int \<Rightarrow> byte list list \<Rightarrow> 'w \<Rightarrow> (int + nat) \<times> 'w"
  ro_memalign :: "nat \<Rightarrow> 'w \<Rightarrow> (int + nat) \<times> 'w"
  ro_malloc :: "nat \<Rightarrow> 'w \<Rightarrow> bool \<times> 'w"

text \<open>The session, as far as replies use it (the pipe is that of the running thread), with the memory and the kernel.\<close>

record 'w rsess =
  rs_broken_splice :: bool
  rs_proto_minor :: nat
  rs_want_splice_write :: bool
  rs_want_splice_move :: bool
  rs_fd :: int
  rs_pipe :: "fuse_ll_pipe option"
  rs_m :: memory
  rs_w :: 'w

type_synonym 'w rres = "(int \<times> 'w rsess) outcome option"

text \<open>Code that may run forever or abort.\<close>

definition rbind :: "'a outcome option \<Rightarrow> ('a \<Rightarrow> 'b outcome option) \<Rightarrow> 'b outcome option" where
  "rbind x f = (case x of None \<Rightarrow> None | Some Aborted \<Rightarrow> Some Aborted | Some (Done a) \<Rightarrow> f a)"

lemma rbind_Done [simp]: "rbind (Some (Done a)) f = f a"
  by (simp add: rbind_def)

subsection \<open>Sending a message\<close>

definition fuse_send_msg :: "'w ros \<Rightarrow> fuse_out_header \<Rightarrow> byte list list \<Rightarrow> 'w rsess \<Rightarrow> int \<times> 'w rsess" where
  "fuse_send_msg ro h segs st =
     (let h1 = h\<lparr>rh_len := u32 (32 + sum_list (map length segs))\<rparr> in
      case ro_writev ro (rs_fd st) (hdr_bytes h1 # segs) (rs_w st) of
        (Inl err, w) \<Rightarrow> (- err, st\<lparr>rs_w := w\<rparr>)
      | (Inr n, w) \<Rightarrow> (0, st\<lparr>rs_w := w\<rparr>))"

definition fuse_send_reply_iov_nofree :: "'w ros \<Rightarrow> nat \<Rightarrow> int \<Rightarrow> byte list list \<Rightarrow> 'w rsess \<Rightarrow> int \<times> 'w rsess" where
  "fuse_send_reply_iov_nofree ro unique error segs st =
     fuse_send_msg ro \<lparr>rh_len = 0, rh_error = (if error \<le> -1000 \<or> error > 0 then - ERANGE else error), rh_unique = unique,
       rh_header = 0, rh_footer = 0, rh_mem = 0\<rparr> segs st"

definition fuse_reply_err :: "'w ros \<Rightarrow> nat \<Rightarrow> int \<Rightarrow> 'w rsess \<Rightarrow> int \<times> 'w rsess" where
  "fuse_reply_err ro unique err st = fuse_send_reply_iov_nofree ro unique (- err) [] st"

text \<open>The copy of a vector, with the state of the session.\<close>

definition copy_into :: "'w ros \<Rightarrow> fuse_bufvec \<Rightarrow> fuse_bufvec \<Rightarrow> 32 word \<Rightarrow> 'w rsess \<Rightarrow> (int \<times> fuse_bufvec \<times> 'w rsess) outcome option" where
  "copy_into ro dstv srcv flags st = rbind (fuse_buf_copy (ro_os ro) False dstv srcv flags (rs_m st) (rs_w st))
     (\<lambda>(res, _, srcv', m, w). Some (Done (c_int res, srcv', st\<lparr>rs_m := m, rs_w := w\<rparr>)))"

definition fuse_send_data_iov_fallback :: "'w ros \<Rightarrow> fuse_out_header \<Rightarrow> byte list list \<Rightarrow> fuse_bufvec \<Rightarrow> nat \<Rightarrow> 'w rsess \<Rightarrow> 'w rres" where
  "fuse_send_data_iov_fallback ro h segs buf len st =
     (if bv_count buf = 1 \<and> bv_idx buf = 0 \<and> bv_off buf = 0 \<and> \<not> has_flag (buf_flags (bv_buf buf ! 0)) FUSE_BUF_IS_FD
      then Some (Done (fuse_send_msg ro h (segs @ [mem_read (rs_m st) (buf_mem (bv_buf buf ! 0)) len]) st))
      else case ro_memalign ro len (rs_w st) of
          (Inl err, w) \<Rightarrow> Some (Done (err, st\<lparr>rs_w := w\<rparr>))
        | (Inr mbuf, w) \<Rightarrow>
            rbind (copy_into ro ((FUSE_BUFVEC_INIT len)\<lparr>bv_buf := [hd (bv_buf (FUSE_BUFVEC_INIT len))\<lparr>buf_mem := mbuf\<rparr>]\<rparr>) buf 0 (st\<lparr>rs_w := w\<rparr>))
              (\<lambda>(res, _, st1).
                if res < 0 then Some (Done (- res, st1))
                else Some (Done (fuse_send_msg ro h (segs @ [mem_read (rs_m st1) mbuf (nat res)]) st1))))"

subsection \<open>The pipe\<close>

definition fuse_ll_get_pipe :: "'w ros \<Rightarrow> 'w rsess \<Rightarrow> 'w rsess" where
  "fuse_ll_get_pipe ro st =
     (case rs_pipe st of
        Some llp \<Rightarrow> st
      | None \<Rightarrow> (case ro_malloc ro 24 (rs_w st) of
            (False, w) \<Rightarrow> st\<lparr>rs_w := w\<rparr>
          | (True, w) \<Rightarrow> (case ro_pipe ro w of
                (None, w1) \<Rightarrow> st\<lparr>rs_w := w1\<rparr>
              | (Some p, w1) \<Rightarrow> st\<lparr>rs_w := w1, rs_pipe := Some \<lparr>llp_size = PAGE_SIZE * 16, llp_can_grow = True, llp_pipe = p\<rparr>\<rparr>)))"

definition fuse_ll_pipe_free :: "'w ros \<Rightarrow> fuse_ll_pipe \<Rightarrow> 'w rsess \<Rightarrow> 'w rsess" where
  "fuse_ll_pipe_free ro llp st = st\<lparr>rs_w := ro_close ro (snd (llp_pipe llp)) (ro_close ro (fst (llp_pipe llp)) (rs_w st))\<rparr>"

definition fuse_ll_clear_pipe :: "'w ros \<Rightarrow> 'w rsess \<Rightarrow> 'w rsess" where
  "fuse_ll_clear_pipe ro st = (case rs_pipe st of None \<Rightarrow> st | Some llp \<Rightarrow> fuse_ll_pipe_free ro llp (st\<lparr>rs_pipe := None\<rparr>))"

text \<open>The destination is absent for bytes that are only to be taken out of the pipe.\<close>

definition read_back :: "'w ros \<Rightarrow> int \<Rightarrow> nat option \<Rightarrow> nat \<Rightarrow> 'w rsess \<Rightarrow> int \<times> 'w rsess" where
  "read_back ro fd buf len st =
     (case os_read (ro_os ro) fd len (rs_w st) of
        (Inl e, w) \<Rightarrow> (- EIO, st\<lparr>rs_w := w\<rparr>)
      | (Inr bs, w) \<Rightarrow> (if length bs \<noteq> len then - EIO else 0,
          st\<lparr>rs_w := w, rs_m := (case buf of None \<Rightarrow> rs_m st | Some a \<Rightarrow> mem_write (rs_m st) a bs)\<rparr>))"

definition grow_pipe_to_max :: "'w ros \<Rightarrow> int \<Rightarrow> 'w \<Rightarrow> int \<times> 'w" where
  "grow_pipe_to_max ro fd w =
     (case ro_pipemax ro w of
        (Inl e, w1) \<Rightarrow> (- e, w1)
      | (Inr mx, w1) \<Rightarrow> (case ro_setpipe ro fd (nat mx) w1 of (Inl e, w2) \<Rightarrow> (- e, w2) | (Inr _, w2) \<Rightarrow> (mx, w2)))"

text \<open>The check of the size of the pipe: whether it is large enough, after an attempt to grow it.\<close>

definition pipe_fits :: "'w ros \<Rightarrow> fuse_ll_pipe \<Rightarrow> nat \<Rightarrow> 'w rsess \<Rightarrow> bool \<times> 'w rsess" where
  "pipe_fits ro llp pipesize st =
     (if llp_size llp < pipesize then
        if llp_can_grow llp then
          (case ro_setpipe ro (fst (llp_pipe llp)) pipesize (rs_w st) of
             (Inl e, w) \<Rightarrow> (case grow_pipe_to_max ro (fst (llp_pipe llp)) w of
                (res, w1) \<Rightarrow> (False, st\<lparr>rs_w := w1, rs_pipe := Some (llp\<lparr>llp_size := (if res > 0 then nat res else llp_size llp), llp_can_grow := False\<rparr>)\<rparr>))
           | (Inr n, w) \<Rightarrow> (\<not> n < pipesize, st\<lparr>rs_w := w, rs_pipe := Some (llp\<lparr>llp_size := n\<rparr>)\<rparr>))
        else (False, st)
      else (True, st))"

fun total_buf_size :: "nat \<Rightarrow> fuse_buf list \<Rightarrow> nat" where
  "total_buf_size acc [] = acc"
| "total_buf_size acc (b # bs) = total_buf_size (sz_add acc (buf_size b)) bs"

text \<open>The size of the remaining buffers; the offset is subtracted once, for the first one.\<close>

definition bufs_left :: "fuse_bufvec \<Rightarrow> nat" where
  "bufs_left buf = (let bs = drop (bv_idx buf) (take (bv_count buf) (bv_buf buf)) in
     case bs of [] \<Rightarrow> 0 | b # rest \<Rightarrow> total_buf_size (sz_sub (buf_size b) (bv_off buf)) rest)"

subsection \<open>Sending data\<close>

text \<open>The last part of \<open>fuse_send_data_iov\<close>: header and \<open>len\<close> bytes of data are in the pipe and go to the device.\<close>

definition send_from_pipe :: "'w ros \<Rightarrow> fuse_out_header \<Rightarrow> byte list list \<Rightarrow> fuse_ll_pipe \<Rightarrow> nat \<Rightarrow> 32 word \<Rightarrow> 'w rsess \<Rightarrow> int \<times> 'w rsess" where
  "send_from_pipe ro h segs llp len flags st =
     (let h1 = h\<lparr>rh_len := u32 (32 + sum_list (map length segs) + len)\<rparr>;
          splice_flags = (if has_flag flags FUSE_BUF_SPLICE_MOVE \<and> rs_want_splice_move st then SPLICE_F_MOVE else 0)
      in case ro_splice_out ro (concat (hdr_bytes h1 # segs)) (fst (llp_pipe llp)) (rs_fd st) (rh_len h1) splice_flags (rs_w st) of
           (Inl e, w) \<Rightarrow> (- e, fuse_ll_clear_pipe ro (st\<lparr>rs_w := w\<rparr>))
         | (Inr n, w) \<Rightarrow> (if n \<noteq> rh_len h1 then (- EIO, fuse_ll_clear_pipe ro (st\<lparr>rs_w := w\<rparr>)) else (0, st\<lparr>rs_w := w\<rparr>)))"

text \<open>Fewer bytes than asked for are in the pipe: a copy into memory finds out whether there are more, and if so, everything is
  sent from memory.\<close>

definition after_short_splice ::
  "'w ros \<Rightarrow> fuse_out_header \<Rightarrow> byte list list \<Rightarrow> fuse_ll_pipe \<Rightarrow> fuse_bufvec \<Rightarrow> nat \<Rightarrow> nat \<Rightarrow> 32 word \<Rightarrow> 'w rsess \<Rightarrow> 'w rres" where
  "after_short_splice ro h segs llp buf len now_len flags st =
     (case ro_memalign ro len (rs_w st) of
        (Inl err, w) \<Rightarrow> Some (Done (err, fuse_ll_clear_pipe ro (st\<lparr>rs_w := w\<rparr>)))
      | (Inr mbuf, w) \<Rightarrow>
          rbind (copy_into ro ((FUSE_BUFVEC_INIT len)\<lparr>bv_off := now_len, bv_buf := [hd (bv_buf (FUSE_BUFVEC_INIT len))\<lparr>buf_mem := mbuf\<rparr>]\<rparr>) buf 0 (st\<lparr>rs_w := w\<rparr>))
            (\<lambda>(res, _, st1).
              if res > 0 then
                (let headerlen = 32 + sum_list (map length segs) in
                 case ro_malloc ro headerlen (rs_w st1) of
                   (False, w1) \<Rightarrow> Some (Done (ENOMEM, fuse_ll_clear_pipe ro (st1\<lparr>rs_w := w1\<rparr>)))
                 | (True, w1) \<Rightarrow> (case read_back ro (fst (llp_pipe llp)) None headerlen (st1\<lparr>rs_w := w1\<rparr>) of
                     (r1, st2) \<Rightarrow> if r1 \<noteq> 0 then Some (Done (r1, fuse_ll_clear_pipe ro st2))
                       else (case read_back ro (fst (llp_pipe llp)) (Some mbuf) now_len st2 of
                         (r2, st3) \<Rightarrow> if r2 \<noteq> 0 then Some (Done (r2, fuse_ll_clear_pipe ro st3))
                           else Some (Done (fuse_send_msg ro h (segs @ [mem_read (rs_m st3) mbuf (now_len + nat res)]) st3)))))
              else Some (Done (send_from_pipe ro h segs llp now_len flags st1))))"

text \<open>The pipe is there and large enough.\<close>

definition send_spliced ::
  "'w ros \<Rightarrow> fuse_out_header \<Rightarrow> byte list list \<Rightarrow> fuse_ll_pipe \<Rightarrow> fuse_bufvec \<Rightarrow> nat \<Rightarrow> 32 word \<Rightarrow> 'w rsess \<Rightarrow> 'w rres" where
  "send_spliced ro h segs llp buf len flags st =
     (case ro_vmsplice ro (snd (llp_pipe llp)) (concat (hdr_bytes h # segs)) (rs_w st) of
        (Inl e, w) \<Rightarrow> fuse_send_data_iov_fallback ro h segs buf len (st\<lparr>rs_w := w\<rparr>)
      | (Inr n, w) \<Rightarrow>
          if n \<noteq> 32 + sum_list (map length segs) then Some (Done (- EIO, fuse_ll_clear_pipe ro (st\<lparr>rs_w := w\<rparr>)))
          else rbind (copy_into ro ((FUSE_BUFVEC_INIT len)\<lparr>bv_buf := [hd (bv_buf (FUSE_BUFVEC_INIT len))\<lparr>buf_flags := FUSE_BUF_IS_FD, buf_fd := snd (llp_pipe llp)\<rparr>]\<rparr>)
                        buf (FUSE_BUF_FORCE_SPLICE OR FUSE_BUF_SPLICE_NONBLOCK) (st\<lparr>rs_w := w\<rparr>))
            (\<lambda>(res, buf1, st1).
              if res < 0 then
                if res = - EAGAIN \<or> res = - EINVAL then
                  (let st2 = (if res = - EAGAIN then st1\<lparr>rs_broken_splice := True\<rparr> else st1)
                   in fuse_send_data_iov_fallback ro h segs buf1 len (fuse_ll_pipe_free ro llp (st2\<lparr>rs_pipe := None\<rparr>)))
                else Some (Done (- res, fuse_ll_clear_pipe ro st1))
              else if res \<noteq> 0 \<and> nat res < len then after_short_splice ro h segs llp buf1 len (nat res) flags st1
              else Some (Done (send_from_pipe ro h segs llp (nat res) flags st1))))"

text \<open>\<open>FUSE_BUF_FD_SECTION\<close>: memory for header and footer, whose address goes into the message and into the buffer.\<close>

definition fd_section :: "'w ros \<Rightarrow> fuse_out_header \<Rightarrow> fuse_bufvec \<Rightarrow> 'w rsess \<Rightarrow> fuse_out_header \<times> fuse_bufvec \<times> 'w rsess" where
  "fd_section ro h buf st =
     (let b = bv_buf buf ! 0 in
      if has_flag (buf_flags b) FUSE_BUF_FD_SECTION then
        (let h1 = h\<lparr>rh_header := u32 (buf_metadata b), rh_footer := u32 (buf_footer b)\<rparr> in
         case ro_memalign ro (u32 (rh_header h1 + rh_footer h1)) (rs_w st) of
           (r, w) \<Rightarrow> let mbuf = (case r of Inl _ \<Rightarrow> 0 | Inr a \<Rightarrow> a)
                     in (h1\<lparr>rh_mem := mbuf\<rparr>, buf\<lparr>bv_buf := (bv_buf buf)[0 := b\<lparr>buf_mem := mbuf\<rparr>]\<rparr>, st\<lparr>rs_w := w\<rparr>))
      else (h, buf, st))"

definition fuse_send_data_iov :: "'w ros \<Rightarrow> fuse_out_header \<Rightarrow> byte list list \<Rightarrow> fuse_bufvec \<Rightarrow> 32 word \<Rightarrow> 'w rsess \<Rightarrow> 'w rres" where
  "fuse_send_data_iov ro h segs buf flags st =
     (let len = fuse_buf_size buf in
      if rs_broken_splice st \<or> has_flag flags FUSE_BUF_NO_SPLICE \<or> bufs_left buf < 2 * PAGE_SIZE \<or>
         rs_proto_minor st < 14 \<or> \<not> rs_want_splice_write st
      then fuse_send_data_iov_fallback ro h segs buf len st
      else let st1 = fuse_ll_get_pipe ro st in
        case rs_pipe st1 of
          None \<Rightarrow> fuse_send_data_iov_fallback ro h segs buf len st1
        | Some llp \<Rightarrow>
            (let h1 = h\<lparr>rh_len := u32 (32 + sum_list (map length segs) + len)\<rparr> in
             case fd_section ro h1 buf st1 of (h2, buf2, st2) \<Rightarrow>
               (case pipe_fits ro llp (PAGE_SIZE * (1 + length segs + bv_count buf + 1) + rh_len h2) st2 of
                  (fits, st3) \<Rightarrow>
                    if fits then send_spliced ro h2 segs llp buf2 len flags st3
                    else fuse_send_data_iov_fallback ro h2 segs buf2 len st3)))"

text \<open>\<open>fuse_reply_data\<close>, without freeing the request, which it does once on each path. The fields of the header that it leaves
  uninitialised are a parameter.\<close>

definition fuse_reply_data :: "'w ros \<Rightarrow> nat \<times> nat \<times> nat \<Rightarrow> nat \<Rightarrow> fuse_bufvec \<Rightarrow> 32 word \<Rightarrow> 'w rsess \<Rightarrow> 'w rres" where
  "fuse_reply_data ro junk unique bufv flags st =
     rbind (fuse_send_data_iov ro \<lparr>rh_len = 0, rh_error = 0, rh_unique = unique, rh_header = fst junk, rh_footer = fst (snd junk), rh_mem = snd (snd junk)\<rparr> [] bufv flags st)
       (\<lambda>(res, st1). if res \<le> 0 then Some (Done (res, st1)) else Some (Done (fuse_reply_err ro unique res st1)))"


subsection \<open>What the code relies on of the system calls\<close>

text \<open>What is in the kernel: in each pipe a number of bytes that are references to memory of the process, followed by data; the
  messages that the device has received; the bytes that a source descriptor still has, from a position or as a stream.\<close>

record 'w pview =
  pv_refs :: "int \<times> int \<Rightarrow> 'w \<Rightarrow> nat"
  pv_data :: "int \<times> int \<Rightarrow> 'w \<Rightarrow> byte list"
  pv_sent :: "'w \<Rightarrow> byte list list"
  pv_src :: "int \<Rightarrow> int option \<Rightarrow> 'w \<Rightarrow> byte list"

definition same_view :: "'w pview \<Rightarrow> 'w \<Rightarrow> 'w \<Rightarrow> bool" where
  "same_view V w w' \<longleftrightarrow> (\<forall>p. pv_refs V p w' = pv_refs V p w \<and> pv_data V p w' = pv_data V p w) \<and> pv_sent V w' = pv_sent V w"

definition quiet :: "'w pview \<Rightarrow> 'w \<Rightarrow> 'w \<Rightarrow> bool" where
  "quiet V w w' \<longleftrightarrow> same_view V w w' \<and> (\<forall>fd sp. pv_src V fd sp w' = pv_src V fd sp w)"

definition good_pipe :: "int set \<Rightarrow> int \<times> int \<Rightarrow> bool" where
  "good_pipe F p \<longleftrightarrow> fst p \<notin> F \<and> snd p \<notin> F"

text \<open>The results of reading from a source, splicing from it into a pipe, and writing into a pipe.\<close>

fun read_result :: "'w pview \<Rightarrow> int \<Rightarrow> int option \<Rightarrow> 'w \<Rightarrow> (int + byte list) \<times> 'w \<Rightarrow> bool" where
  "read_result V fd sp w (Inl e, w') \<longleftrightarrow> same_view V w w' \<and> pv_src V fd sp w' = pv_src V fd sp w"
| "read_result V fd sp w (Inr bs, w') \<longleftrightarrow> same_view V w w' \<and> pv_src V fd sp w = bs @ pv_src V fd (map_option (\<lambda>x. x + int (length bs)) sp) w'"

fun splice_result :: "'w pview \<Rightarrow> int \<times> int \<Rightarrow> int \<Rightarrow> int option \<Rightarrow> 'w \<Rightarrow> (int + nat \<times> int option \<times> int option) \<times> 'w \<Rightarrow> bool" where
  "splice_result V p fd sp w (Inl e, w') \<longleftrightarrow> same_view V w w' \<and> pv_src V fd sp w' = pv_src V fd sp w"
| "splice_result V p fd sp w (Inr (k, sp', dp'), w') \<longleftrightarrow> k \<le> length (pv_src V fd sp w) \<and> sp' = map_option (\<lambda>x. x + int k) sp \<and> dp' = None \<and>
     pv_src V fd sp' w' = drop k (pv_src V fd sp w) \<and> pv_data V p w' = pv_data V p w @ take k (pv_src V fd sp w) \<and>
     pv_refs V p w' = pv_refs V p w \<and> pv_sent V w' = pv_sent V w"

fun write_result :: "'w pview \<Rightarrow> int \<times> int \<Rightarrow> byte list \<Rightarrow> 'w \<Rightarrow> (int + nat) \<times> 'w \<Rightarrow> bool" where
  "write_result V p bs w (Inl e, w') \<longleftrightarrow> same_view V w w'"
| "write_result V p bs w (Inr k, w') \<longleftrightarrow> pv_data V p w' = pv_data V p w @ take k bs \<and> pv_refs V p w' = pv_refs V p w \<and> pv_sent V w' = pv_sent V w"

text \<open>For the source descriptors \<open>F\<close> and every pipe that is none of them.\<close>

definition source_laws :: "'w os \<Rightarrow> 'w pview \<Rightarrow> int set \<Rightarrow> bool" where
  "source_laws os V F \<longleftrightarrow> os_ok os \<and>
     (\<forall>fd\<in>F. \<forall>n w. read_result V fd None w (os_read os fd n w)) \<and>
     (\<forall>fd\<in>F. \<forall>n x w. read_result V fd (Some x) w (os_pread os fd n x w)) \<and>
     (\<forall>fd\<in>F. \<forall>p sp n fl w. good_pipe F p \<longrightarrow> splice_result V p fd sp w (os_splice os fd sp (snd p) None n fl w)) \<and>
     (\<forall>p bs w. good_pipe F p \<longrightarrow> write_result V p bs w (os_write os (snd p) bs w))"

text \<open>The results of \<open>vmsplice\<close> into an empty pipe, of reading a pipe, of splicing it to the device (which sees the memory
  behind the references as it is then), and of \<open>writev\<close> to the device.\<close>

fun vmsplice_result :: "'w pview \<Rightarrow> int \<times> int \<Rightarrow> 'w \<Rightarrow> (int + nat) \<times> 'w \<Rightarrow> bool" where
  "vmsplice_result V p w (Inl e, w') \<longleftrightarrow> quiet V w w'"
| "vmsplice_result V p w (Inr n, w') \<longleftrightarrow> pv_sent V w' = pv_sent V w \<and> (\<forall>fd sp. pv_src V fd sp w' = pv_src V fd sp w) \<and>
     (pv_refs V p w = 0 \<and> pv_data V p w = [] \<longrightarrow> pv_refs V p w' = n \<and> pv_data V p w' = [])"

fun pipe_read_result :: "'w pview \<Rightarrow> int \<times> int \<Rightarrow> 'w \<Rightarrow> (int + byte list) \<times> 'w \<Rightarrow> bool" where
  "pipe_read_result V p w (Inl e, w') \<longleftrightarrow> pv_sent V w' = pv_sent V w"
| "pipe_read_result V p w (Inr bs, w') \<longleftrightarrow> pv_sent V w' = pv_sent V w \<and> pv_refs V p w' = pv_refs V p w - length bs \<and>
     pv_data V p w' = drop (length bs - pv_refs V p w) (pv_data V p w) \<and> drop (pv_refs V p w) bs = take (length bs - pv_refs V p w) (pv_data V p w)"

fun splice_out_result :: "'w pview \<Rightarrow> byte list \<Rightarrow> int \<times> int \<Rightarrow> 'w \<Rightarrow> (int + nat) \<times> 'w \<Rightarrow> bool" where
  "splice_out_result V hb p w (Inl e, w') \<longleftrightarrow> 0 < e \<and> pv_sent V w' = pv_sent V w"
| "splice_out_result V hb p w (Inr k, w') \<longleftrightarrow> pv_sent V w' = pv_sent V w @ [take k (take (pv_refs V p w) hb @ pv_data V p w)] \<and>
     pv_refs V p w' = pv_refs V p w - k \<and> pv_data V p w' = drop (k - pv_refs V p w) (pv_data V p w)"

fun writev_result :: "'w pview \<Rightarrow> byte list list \<Rightarrow> 'w \<Rightarrow> (int + nat) \<times> 'w \<Rightarrow> bool" where
  "writev_result V segs w (Inl e, w') \<longleftrightarrow> 0 < e \<and> same_view V w w'"
| "writev_result V segs w (Inr n, w') \<longleftrightarrow> (\<forall>p. pv_refs V p w' = pv_refs V p w \<and> pv_data V p w' = pv_data V p w) \<and> pv_sent V w' = pv_sent V w @ [concat segs]"

definition reply_laws :: "'w ros \<Rightarrow> 'w pview \<Rightarrow> int set \<Rightarrow> bool" where
  "reply_laws ro V F \<longleftrightarrow> source_laws (ro_os ro) V F \<and>
     (\<forall>n w. quiet V w (snd (ro_memalign ro n w)) \<and> (\<forall>e. fst (ro_memalign ro n w) = Inl e \<longrightarrow> 0 < e)) \<and>
     (\<forall>n w. quiet V w (snd (ro_malloc ro n w))) \<and> (\<forall>fd w. quiet V w (ro_close ro fd w)) \<and>
     (\<forall>fd n w. quiet V w (snd (ro_setpipe ro fd n w))) \<and> (\<forall>w. quiet V w (snd (ro_pipemax ro w))) \<and>
     (\<forall>w. quiet V w (snd (ro_pipe ro w)) \<and> (\<forall>p. fst (ro_pipe ro w) = Some p \<longrightarrow> good_pipe F p \<and> pv_refs V p w = 0 \<and> pv_data V p w = [])) \<and>
     (\<forall>p bs w. good_pipe F p \<longrightarrow> vmsplice_result V p w (ro_vmsplice ro (snd p) bs w)) \<and>
     (\<forall>p n w. good_pipe F p \<longrightarrow> pipe_read_result V p w (os_read (ro_os ro) (fst p) n w)) \<and>
     (\<forall>hb p fd n fl w. good_pipe F p \<longrightarrow> splice_out_result V hb p w (ro_splice_out ro hb (fst p) fd n fl w)) \<and>
     (\<forall>fd segs w. writev_result V segs w (ro_writev ro fd segs w))"

lemma same_view_refl [simp]: "same_view V w w"
  by (simp add: same_view_def)

lemma same_view_trans: "same_view V a b \<Longrightarrow> same_view V b c \<Longrightarrow> same_view V a c"
  by (simp add: same_view_def)

lemma quiet_refl [simp]: "quiet V w w"
  by (simp add: quiet_def)

lemma quiet_trans: "quiet V a b \<Longrightarrow> quiet V b c \<Longrightarrow> quiet V a c"
  by (simp add: quiet_def same_view_def)

subsection \<open>A rule for the copy loop\<close>

text \<open>Whatever holds of one piece, and is closed under repetition, holds of a whole copy.\<close>

lemma fuse_buf_copy_loop_rule:
  fixes Step :: "nat \<Rightarrow> memory \<times> 'w \<Rightarrow> memory \<times> 'w \<Rightarrow> bool"
  assumes os: "os_ok os"
    and one: "\<And>dst doff src soff len m w r m' w'. dst \<in> Dset \<Longrightarrow> src \<in> Sset \<Longrightarrow> len < 2 ^ 62 \<Longrightarrow> doff + len \<le> buf_size dst \<Longrightarrow> soff + len \<le> buf_size src \<Longrightarrow>
        fuse_buf_copy_one os dst doff src soff len flags m w = Some (r, m', w') \<Longrightarrow> Step (nat r) (m, w) (m', w')"
    and refl: "\<And>s. Step 0 s s" and trans: "\<And>a b s1 s2 s3. Step a s1 s2 \<Longrightarrow> Step b s2 s3 \<Longrightarrow> Step (a + b) s1 s3"
  shows "bufvec_ok dstv \<Longrightarrow> bufvec_ok srcv \<Longrightarrow> copied + plen (pieces srcv) < 2 ^ 63 \<Longrightarrow> set (bv_buf dstv) \<subseteq> Dset \<Longrightarrow> set (bv_buf srcv) \<subseteq> Sset \<Longrightarrow>
    \<exists>n r dstv' srcv' m' w'. fuse_buf_copy_loop os dstv srcv flags copied m w = Some (Done (r, dstv', srcv', m', w')) \<and>
      Step n (m, w) (m', w') \<and> (r < 0 \<and> copied = 0 \<and> n = 0 \<or> r = int (copied + n)) \<and> n \<le> min (plen (pieces dstv)) (plen (pieces srcv)) \<and>
      bufvec_ok srcv' \<and> bv_buf srcv' = bv_buf srcv"
proof (induction "length (pieces dstv) + length (pieces srcv)" arbitrary: dstv srcv copied m w rule: less_induct)
  case less
  note unf = fuse_buf_copy_loop.simps[of os dstv srcv flags copied m w]
  show ?case
  proof (cases "fuse_bufvec_current srcv = None \<or> fuse_bufvec_current dstv = None")
    case True
    then have "fuse_buf_copy_loop os dstv srcv flags copied m w = Some (Done (int copied, dstv, srcv, m, w))"
      using less.prems by (auto simp: unf csimps split: option.splits)
    then show ?thesis using refl less.prems(2) by fastforce
  next
    case False
    then obtain src dst where cs: "fuse_bufvec_current srcv = Some src"
      and cd: "fuse_bufvec_current dstv = Some dst" by auto
    note s = bufvec_ok_current[OF less.prems(2) cs] and d = bufvec_ok_current[OF less.prems(1) cd]
    obtain ps where ps: "pieces srcv = (buf_mem src + bv_off srcv, buf_size src - bv_off srcv) # ps"
      using s(7) by blast
    obtain pd where pd: "pieces dstv = (buf_mem dst + bv_off dstv, buf_size dst - bv_off dstv) # pd"
      using d(7) by blast
    let ?l = "min (buf_size src - bv_off srcv) (buf_size dst - bv_off dstv)"
    have l: "?l < 2 ^ 63" "?l < 2 ^ 62" using s(6) by auto
    from fuse_buf_copy_one_total[OF os l(1), of dst "bv_off dstv" src "bv_off srcv" flags m w]
    obtain r m' w' where run: "fuse_buf_copy_one os dst (bv_off dstv) src (bv_off srcv) ?l flags m w
         = Some (r, m', w')" and rr: "transfer_range 0 ?l r" by blast
    have "bv_off dstv + ?l \<le> buf_size dst" "bv_off srcv + ?l \<le> buf_size src" using d(5) s(5) by auto
    then have st: "Step (nat r) (m, w) (m', w')" using one[OF _ _ l(2) _ _ run] s(3) d(3) less.prems(4,5) by blast
    show ?thesis
    proof (cases "r < 0")
      case True
      have eq: "fuse_buf_copy_loop os dstv srcv flags copied m w = Some (Done (if copied = 0 then r else to_ssize copied, dstv, srcv, m', w'))"
        using True unfolding unf by (simp add: cs cd s(4) d(4) run)
      have "Step 0 (m, w) (m', w')" using st True by simp
      then show ?thesis using eq less.prems(2,3) True by (cases "copied = 0") (auto simp: csimps intro!: exI[of _ 0])
    next
      case nonneg: False
      have nr: "nat r \<le> ?l" using rr nonneg by (auto simp: transfer_range_def)
      then have nr': "nat r \<le> buf_size src - bv_off srcv" "nat r \<le> buf_size dst - bv_off dstv" by auto
      obtain ms srcv' where as: "fuse_bufvec_advance srcv (nat r) = Done (ms, srcv')"
        and oks: "bufvec_ok srcv'" and pcs: "pieces srcv' = padvance (pieces srcv) (nat r)" and bs: "bv_buf srcv' = bv_buf srcv"
        using fuse_bufvec_advance_ok[OF less.prems(2) cs nr'(1)] by blast
      obtain md dstv' where ad: "fuse_bufvec_advance dstv (nat r) = Done (md, dstv')"
        and okd: "bufvec_ok dstv'" and pcd: "pieces dstv' = padvance (pieces dstv) (nat r)" and bd: "bv_buf dstv' = bv_buf dstv"
        using fuse_bufvec_advance_ok[OF less.prems(1) cd nr'(2)] by blast
      have lens: "plen (pieces srcv') = plen (pieces srcv) - nat r" "plen (pieces dstv') = plen (pieces dstv) - nat r"
        unfolding pcs pcd using nr' ps pd by (auto simp: plen_padvance)
      have bound: "nat r \<le> plen (pieces srcv)" "nat r \<le> plen (pieces dstv)" using nr' ps pd by auto
      have sum: "sz_add copied (nat r) = copied + nat r" "copied + nat r < 2 ^ 63"
        using less.prems(3) bound by (auto simp: csimps)
      show ?thesis
      proof (cases "ms \<and> md \<and> \<not> nat r < ?l")
        case False
        have ts: "to_ssize (sz_add copied (nat r)) = int (copied + nat r)" unfolding sum(1) by (rule to_ssize_small[OF sum(2)])
        have "\<exists>dv. fuse_buf_copy_loop os dstv srcv flags copied m w = Some (Done (int (copied + nat r), dv, srcv', m', w'))"
          using False nonneg unfolding unf by (cases ms; simp add: cs cd s(4) d(4) run as ad ts)
        then show ?thesis using st bound oks bs by (intro exI[of _ "nat r"]) auto
      next
        case cont: True
        then have eq: "nat r = ?l" using nr by linarith
        have "length (pieces dstv') + length (pieces srcv') < length (pieces dstv) + length (pieces srcv)"
          unfolding pcs pcd by (rule padvance_min_shorter[OF ps pd]) (simp add: eq min.commute)
        moreover have "(copied + nat r) + plen (pieces srcv') < 2 ^ 63" using less.prems(3) bound lens by simp
        moreover have "set (bv_buf dstv') \<subseteq> Dset" "set (bv_buf srcv') \<subseteq> Sset" using less.prems(4,5) bs bd by simp_all
        ultimately obtain n r' dv sv m'' w'' where
          rec: "fuse_buf_copy_loop os dstv' srcv' flags (copied + nat r) m' w' = Some (Done (r', dv, sv, m'', w''))" "Step n (m', w') (m'', w'')"
            "r' < 0 \<and> copied + nat r = 0 \<and> n = 0 \<or> r' = int (copied + nat r + n)"
            "n \<le> min (plen (pieces dstv')) (plen (pieces srcv'))" "bufvec_ok sv" "bv_buf sv = bv_buf srcv'"
          using less.hyps okd oks by blast
        have run2: "fuse_buf_copy_loop os dstv srcv flags copied m w = Some (Done (r', dv, sv, m'', w''))"
          using cont nonneg rec(1) unfolding unf by (simp add: cs cd s(4) d(4) run as ad sum(1)) blast
        show ?thesis
        proof (cases "r' < 0")
          case True
          then have "copied + nat r = 0" and n0: "n = 0" using rec(3) by linarith+
          then have z: "copied = 0" "nat r = 0" "n = 0" by simp_all
          show ?thesis
          proof (rule exI[of _ 0], intro exI conjI)
            show "fuse_buf_copy_loop os dstv srcv flags copied m w = Some (Done (r', dv, sv, m'', w''))" by (rule run2)
            show "Step 0 (m, w) (m'', w'')" using trans[OF st rec(2)] z by simp
          qed (use z rec bs in auto)
        next
          case False
          then have "r' = int (copied + (nat r + n))" using rec(3) by auto
          moreover have "nat r + n \<le> min (plen (pieces dstv)) (plen (pieces srcv))" using rec(4) bound unfolding lens by auto
          ultimately show ?thesis using run2 trans[OF st rec(2)] rec(5,6) bs by (intro exI[of _ "nat r + n"]) auto
        qed
      qed
    qed
  qed
qed


subsection \<open>One piece\<close>

text \<open>Where a source buffer is read from, and what is there.\<close>

definition spos :: "fuse_buf \<Rightarrow> nat \<Rightarrow> int option" where
  "spos b off = (if has_flag (buf_flags b) FUSE_BUF_FD_SEEK then Some (buf_pos b + int off) else None)"

definition src_at :: "'w pview \<Rightarrow> fuse_buf \<Rightarrow> nat \<Rightarrow> 'w \<Rightarrow> byte list" where
  "src_at V b off w = pv_src V (buf_fd b) (spos b off) w"

lemma spos_add: "map_option (\<lambda>x. x + int k) (spos b off) = spos b (off + k)"
  by (simp add: spos_def)

text \<open>\<open>n\<close> bytes of a source go into a pipe.\<close>

definition pushes :: "'w pview \<Rightarrow> int \<times> int \<Rightarrow> fuse_buf \<Rightarrow> nat \<Rightarrow> nat \<Rightarrow> 'w \<Rightarrow> 'w \<Rightarrow> bool" where
  "pushes V p b off n w w' \<longleftrightarrow> n \<le> length (src_at V b off w) \<and> src_at V b (off + n) w' = drop n (src_at V b off w) \<and>
     pv_data V p w' = pv_data V p w @ take n (src_at V b off w) \<and> pv_refs V p w' = pv_refs V p w \<and> pv_sent V w' = pv_sent V w"

lemma pushes_0: "same_view V w w' \<Longrightarrow> src_at V b off w' = src_at V b off w \<Longrightarrow> pushes V p b off 0 w w'"
  by (cases p) (simp add: pushes_def same_view_def)

lemma pushes_add:
  assumes "pushes V p b off n w w1" and "pushes V p b (off + n) k w1 w2"
  shows "pushes V p b off (n + k) w w2"
proof -
  have "take n (src_at V b off w) @ take k (drop n (src_at V b off w)) = take (n + k) (src_at V b off w)" by (simp add: take_add)
  then show ?thesis using assms unfolding pushes_def by (auto simp: add.assoc ac_simps)
qed

lemma splice_law:
  assumes laws: "source_laws os V F" and p: "good_pipe F p" and b: "buf_fd b \<in> F"
    and call: "os_splice os (buf_fd b) (spos b off) (snd p) None n fl w = (res, w')"
  shows "case res of Inl e \<Rightarrow> 0 < e \<and> pushes V p b off 0 w w' | Inr (k, sp', dp') \<Rightarrow> k \<le> n \<and> sp' = spos b (off + k) \<and> dp' = None \<and> pushes V p b off k w w'"
proof -
  have ok: "os_ok os" using laws by (simp add: source_laws_def)
  note r = splice_ok[OF ok call]
  have "splice_result V p (buf_fd b) (spos b off) w (res, w')" unfolding call[symmetric] using laws p b unfolding source_laws_def by blast
  then show ?thesis using r pushes_0[of V w w' b off p] by (cases res) (auto simp: pushes_def src_at_def spos_add)
qed

lemma splice_loop_pushes:
  assumes laws: "source_laws os V F" and p: "good_pipe F p" and b: "buf_fd b \<in> F" and dst: "buf_fd dst = snd p"
    and fl: "has_flag flags FUSE_BUF_FORCE_SPLICE"
  shows "copied + len < 2 ^ 63 \<Longrightarrow> \<exists>r n w'. fuse_buf_splice_loop os dst doff b soff len flags sf (spos b off) None copied w = Some (r, w') \<and>
    n \<le> len \<and> pushes V p b off n w w' \<and> (r < 0 \<and> copied = 0 \<and> n = 0 \<or> r = int (copied + n))"
proof (induction len arbitrary: off copied w rule: less_induct)
  case (less len)
  note unf = fuse_buf_splice_loop.simps[of os dst doff b soff len flags sf "spos b off" None copied w]
  show ?case
  proof (cases "len = 0")
    case True
    then show ?thesis using less.prems unfolding unf by (intro exI[of _ "int copied"]) (auto simp: csimps pushes_def)
  next
    case False
    obtain res w' where call: "os_splice os (buf_fd b) (spos b off) (snd p) None len sf w = (res, w')" by fastforce
    note law = splice_law[OF laws p b call]
    show ?thesis
    proof (cases res)
      case (Inl e)
      then have "fuse_buf_splice_loop os dst doff b soff len flags sf (spos b off) None copied w = Some (if copied = 0 then - e else int copied, w')"
        using False fl less.prems call by (simp add: unf dst csimps)
      then show ?thesis using law Inl by (cases "copied = 0") (auto intro!: exI[of _ 0])
    next
      case (Inr t)
      then obtain k where t: "t = (k, spos b (off + k), None)" "k \<le> len" "pushes V p b off k w w'" using law by (cases t) auto
      have sum: "sz_add copied k = copied + k" "copied + k < 2 ^ 63" using t(2) less.prems by (auto simp: csimps)
      show ?thesis
      proof (cases "k = 0 \<or> (\<not> has_flag (buf_flags b) FUSE_BUF_FD_RETRY \<and> \<not> has_flag (buf_flags dst) FUSE_BUF_FD_RETRY)")
        case True
        then have "fuse_buf_splice_loop os dst doff b soff len flags sf (spos b off) None copied w = Some (int (copied + k), w')"
          using False Inr t sum call by (auto simp: unf dst csimps)
        then show ?thesis using t by (intro exI[of _ "int (copied + k)"] exI[of _ k] exI[of _ w']) simp
      next
        case cont: False
        have "len - k < len" "(copied + k) + (len - k) < 2 ^ 63" using cont False t(2) less.prems by auto
        from less.IH[OF this, of "off + k" w'] obtain r n w2 where rec:
          "fuse_buf_splice_loop os dst doff b soff (len - k) flags sf (spos b (off + k)) None (copied + k) w' = Some (r, w2)"
          "n \<le> len - k" "pushes V p b (off + k) n w' w2" "r < 0 \<and> copied + k = 0 \<and> n = 0 \<or> r = int (copied + k + n)" by blast
        have sub: "sz_sub len k = len - k" using t(2) less.prems by (simp add: csimps)
        have "fuse_buf_splice_loop os dst doff b soff len flags sf (spos b off) None copied w = Some (r, w2)"
          using False cont Inr t rec(1) sum sub call by (auto simp: unf dst)
        moreover have "k \<noteq> 0" using cont by simp
        ultimately show ?thesis using pushes_add[OF t(3) rec(3)] rec(2,4) t(2) by (intro exI[of _ r] exI[of _ "k + n"] exI[of _ w2]) auto
      qed
    qed
  qed
qed


definition pipe_flags :: "32 word" where
  "pipe_flags = FUSE_BUF_FORCE_SPLICE OR FUSE_BUF_SPLICE_NONBLOCK"

lemma pipe_flags_simps [simp]:
  "has_flag pipe_flags FUSE_BUF_FORCE_SPLICE" "\<not> has_flag pipe_flags FUSE_BUF_NO_SPLICE" "\<not> has_flag 0 x"
  "has_flag FUSE_BUF_IS_FD FUSE_BUF_IS_FD" "\<not> has_flag FUSE_BUF_IS_FD FUSE_BUF_FD_SEEK" "\<not> has_flag FUSE_BUF_IS_FD FUSE_BUF_FD_RETRY"
  by (simp_all add: pipe_flags_def has_flag_def buf_flag_defs)

text \<open>A buffer for the write end of a pipe, and one in memory, as in the vectors of this code.\<close>

definition pipe_buf :: "nat \<Rightarrow> int \<Rightarrow> fuse_buf" where
  "pipe_buf len fd = hd (bv_buf (FUSE_BUFVEC_INIT len))\<lparr>buf_flags := FUSE_BUF_IS_FD, buf_fd := fd\<rparr>"

definition mem_dst :: "nat \<Rightarrow> nat \<Rightarrow> fuse_buf" where
  "mem_dst len mbuf = hd (bv_buf (FUSE_BUFVEC_INIT len))\<lparr>buf_mem := mbuf\<rparr>"

lemma pipe_buf_simps [simp]: "buf_flags (pipe_buf len fd) = FUSE_BUF_IS_FD" "buf_fd (pipe_buf len fd) = fd" "buf_size (pipe_buf len fd) = len"
  by (simp_all add: pipe_buf_def FUSE_BUFVEC_INIT_def)

lemma mem_dst_simps [simp]: "buf_flags (mem_dst len a) = 0" "buf_mem (mem_dst len a) = a" "buf_size (mem_dst len a) = len"
  by (simp_all add: mem_dst_def FUSE_BUFVEC_INIT_def)

definition grows :: "'w pview \<Rightarrow> int \<times> int \<Rightarrow> nat \<Rightarrow> 'w \<Rightarrow> 'w \<Rightarrow> bool" where
  "grows V p n w w' \<longleftrightarrow> (\<exists>bs. length bs = n \<and> pv_data V p w' = pv_data V p w @ bs) \<and> pv_refs V p w' = pv_refs V p w \<and> pv_sent V w' = pv_sent V w"

lemma grows_refl: "grows V p 0 w w"
  by (simp add: grows_def)

lemma grows_trans: "grows V p a w1 w2 \<Longrightarrow> grows V p b w2 w3 \<Longrightarrow> grows V p (a + b) w1 w3"
  by (auto simp: grows_def intro: length_append)

lemma pushes_grows: "pushes V p b off n w w' \<Longrightarrow> grows V p n w w'"
  by (auto simp: pushes_def grows_def)

text \<open>The source buffers of a reply: memory, or a descriptor in \<open>F\<close>.\<close>

definition src_buf :: "int set \<Rightarrow> fuse_buf \<Rightarrow> bool" where
  "src_buf F b \<longleftrightarrow> (has_flag (buf_flags b) FUSE_BUF_IS_FD \<longrightarrow> buf_fd b \<in> F)"

lemma one_from_fd_into_pipe:
  assumes laws: "source_laws os V F" and p: "good_pipe F p" and b: "buf_fd b \<in> F" "has_flag (buf_flags b) FUSE_BUF_IS_FD" and l: "len < 2 ^ 63"
  shows "\<exists>r n w'. fuse_buf_copy_one os (pipe_buf sz (snd p)) doff b soff len pipe_flags m w = Some (r, m, w') \<and> n \<le> len \<and> pushes V p b soff n w w' \<and>
    (r < 0 \<and> n = 0 \<or> r = int n)"
proof -
  let ?d = "pipe_buf sz (snd p)"
  define sf where "sf = (if has_flag pipe_flags FUSE_BUF_SPLICE_MOVE then SPLICE_F_MOVE else 0) + (if has_flag pipe_flags FUSE_BUF_SPLICE_NONBLOCK then SPLICE_F_NONBLOCK else 0)"
  have "0 + len < 2 ^ 63" using l by simp
  moreover have "buf_fd ?d = snd p" "has_flag pipe_flags FUSE_BUF_FORCE_SPLICE" by simp_all
  ultimately obtain r n w' where run: "fuse_buf_splice_loop os ?d doff b soff len pipe_flags sf (spos b soff) None 0 w = Some (r, w')"
    and n: "n \<le> len" "pushes V p b soff n w w'" "r < 0 \<and> n = 0 \<or> r = int n" using splice_loop_pushes[OF laws p b(1)] by (metis add_0)
  have "fuse_buf_copy_one os ?d doff b soff len pipe_flags m w = Some (r, m, w')"
    using run b(2) by (simp add: fuse_buf_copy_one_def fuse_buf_splice_def spos_def sf_def Let_def)
  then show ?thesis using n by blast
qed

lemma one_into_pipe:
  assumes laws: "source_laws os V F" and p: "good_pipe F p" and b: "src_buf F b" and l: "len < 2 ^ 63"
    and run: "fuse_buf_copy_one os (pipe_buf sz (snd p)) doff b soff len pipe_flags m w = Some (r, m', w')"
  shows "m' = m \<and> grows V p (nat r) w w'"
proof (cases "has_flag (buf_flags b) FUSE_BUF_IS_FD")
  case True
  then have "buf_fd b \<in> F" using b by (simp add: src_buf_def)
  from one_from_fd_into_pipe[OF laws p this True l, of sz doff soff m w] run show ?thesis by (auto dest: pushes_grows)
next
  case False
  obtain res w1 where call: "os_write os (snd p) (mem_read m (buf_mem b + soff) len) w = (res, w1)" by fastforce
  have law: "write_result V p (mem_read m (buf_mem b + soff) len) w (res, w1)" unfolding call[symmetric] using laws p unfolding source_laws_def by blast
  have le: "case res of Inl e \<Rightarrow> 0 < e | Inr n \<Rightarrow> n \<le> len"
    using write_call_ok[of os "pipe_buf sz (snd p)" doff "mem_read m (buf_mem b + soff) len" w res w1] laws call by (auto simp: write_call_def source_laws_def split: sum.splits)
  have w: "fuse_buf_write os (pipe_buf sz (snd p)) doff b soff len m w = Some (r, w')" "m' = m" using run False by (auto simp: fuse_buf_copy_one_def Let_def)
  have w2: "write_call os (pipe_buf sz (snd p)) doff (mem_read m (buf_mem b + soff) len) w = (res, w1)" using call by (simp add: write_call_def)
  note unf = fuse_buf_write_loop.simps[of os "pipe_buf sz (snd p)" doff b soff len 0 m w]
  show ?thesis
  proof (cases "len = 0")
    case True
    then have "r = 0" "w' = w" using w(1) unf by (simp_all add: fuse_buf_write_def csimps)
    then show ?thesis using w(2) by (simp add: grows_refl)
  next
    case nz: False
    show ?thesis
    proof (cases res)
      case (Inl e)
      then have "r = - e" "w' = w1" using w(1) nz w2 by (simp_all add: fuse_buf_write_def unf)
      then show ?thesis using law le Inl w(2) by (cases p) (auto simp: grows_def same_view_def)
    next
      case (Inr k)
      then have "k \<le> len" "k < 2 ^ 63" using le l by auto
      moreover then have "r = int k" "w' = w1" using w(1) nz w2 Inr by (auto simp: fuse_buf_write_def unf csimps split: if_splits)
      ultimately show ?thesis using law Inr w(2) by (auto simp: grows_def min_def)
    qed
  qed
qed


text \<open>Reading from a source descriptor into memory.\<close>

lemma read_law:
  assumes laws: "source_laws os V F" and b: "buf_fd b \<in> F" and call: "read_call os b off n w = (res, w')"
  shows "case res of Inl e \<Rightarrow> 0 < e \<and> same_view V w w' \<and> src_at V b off w' = src_at V b off w
    | Inr bs \<Rightarrow> length bs \<le> n \<and> same_view V w w' \<and> src_at V b off w = bs @ src_at V b (off + length bs) w'"
proof -
  have "os_ok os" using laws by (simp add: source_laws_def)
  note r = read_call_ok[OF this call]
  have "read_result V (buf_fd b) (spos b off) w (res, w')"
  proof (cases "has_flag (buf_flags b) FUSE_BUF_FD_SEEK")
    case True
    then have "os_pread os (buf_fd b) n (buf_pos b + int off) w = (res, w')" using call by (simp add: read_call_def)
    moreover have "read_result V (buf_fd b) (Some (buf_pos b + int off)) w (os_pread os (buf_fd b) n (buf_pos b + int off) w)"
      using laws b unfolding source_laws_def by blast
    ultimately show ?thesis using True by (simp add: spos_def)
  next
    case False
    then have "os_read os (buf_fd b) n w = (res, w')" using call by (simp add: read_call_def)
    moreover have "read_result V (buf_fd b) None w (os_read os (buf_fd b) n w)" using laws b unfolding source_laws_def by blast
    ultimately show ?thesis using False by (simp add: spos_def)
  qed
  then show ?thesis using r by (cases res) (auto simp: src_at_def spos_add)
qed

lemma read_loop_takes:
  assumes laws: "source_laws os V F" and b: "buf_fd b \<in> F"
  shows "copied + len < 2 ^ 63 \<Longrightarrow> soff + len < 2 ^ 64 \<Longrightarrow> doff + len < 2 ^ 64 \<Longrightarrow>
    \<exists>r bs w'. fuse_buf_read_loop os dst doff b soff len copied m w = Some (r, mem_write m (buf_mem dst + doff) bs, w') \<and> length bs \<le> len \<and>
      same_view V w w' \<and> src_at V b soff w = bs @ src_at V b (soff + length bs) w' \<and> (r < 0 \<and> copied = 0 \<and> bs = [] \<or> r = int (copied + length bs))"
proof (induction len arbitrary: soff doff copied m w rule: less_induct)
  case (less len)
  note unf = fuse_buf_read_loop.simps[of os dst doff b soff len copied m w]
  show ?case
  proof (cases "len = 0")
    case True
    then show ?thesis using less.prems unfolding unf by (intro exI[of _ "int copied"] exI[of _ "[]"]) (auto simp: csimps)
  next
    case False
    obtain res w' where call: "read_call os b soff len w = (res, w')" by fastforce
    note law = read_law[OF laws b call]
    show ?thesis
    proof (cases res)
      case (Inl e)
      then have "fuse_buf_read_loop os dst doff b soff len copied m w = Some (if copied = 0 then - e else int copied, m, w')"
        using False less.prems call by (simp add: unf csimps)
      then show ?thesis using law Inl by (cases "copied = 0") (auto intro!: exI[of _ "[]"])
    next
      case (Inr bs)
      then have le: "length bs \<le> len" and v: "same_view V w w'" and s: "src_at V b soff w = bs @ src_at V b (soff + length bs) w'" using law by auto
      have sum: "sz_add copied (length bs) = copied + length bs" "copied + length bs < 2 ^ 63" "sz_add soff (length bs) = soff + length bs"
        "sz_add doff (length bs) = doff + length bs" "sz_sub len (length bs) = len - length bs" using le less.prems by (auto simp: csimps)
      show ?thesis
      proof (cases "bs = [] \<or> \<not> has_flag (buf_flags b) FUSE_BUF_FD_RETRY")
        case True
        then have "fuse_buf_read_loop os dst doff b soff len copied m w = Some (int (copied + length bs), mem_write m (buf_mem dst + doff) bs, w')"
          using False Inr call sum by (auto simp: unf csimps)
        then show ?thesis using le v s by (intro exI[of _ "int (copied + length bs)"] exI[of _ bs] exI[of _ w']) simp
      next
        case cont: False
        have "len - length bs < len" "(copied + length bs) + (len - length bs) < 2 ^ 63" "(soff + length bs) + (len - length bs) < 2 ^ 64" "(doff + length bs) + (len - length bs) < 2 ^ 64"
          using cont False le less.prems by auto
        from less.IH[OF this, of "mem_write m (buf_mem dst + doff) bs" w'] obtain r cs w2 where rec:
          "fuse_buf_read_loop os dst (doff + length bs) b (soff + length bs) (len - length bs) (copied + length bs) (mem_write m (buf_mem dst + doff) bs) w' =
             Some (r, mem_write (mem_write m (buf_mem dst + doff) bs) (buf_mem dst + (doff + length bs)) cs, w2)"
          "length cs \<le> len - length bs" "same_view V w' w2" "src_at V b (soff + length bs) w' = cs @ src_at V b (soff + length bs + length cs) w2"
          "r < 0 \<and> copied + length bs = 0 \<and> cs = [] \<or> r = int (copied + length bs + length cs)" by blast
        have mw: "mem_write (mem_write m (buf_mem dst + doff) bs) (buf_mem dst + (doff + length bs)) cs = mem_write m (buf_mem dst + doff) (bs @ cs)"
          using mem_write_append[of m "buf_mem dst + doff" bs cs] by (simp add: add.assoc)
        have "fuse_buf_read_loop os dst doff b soff len copied m w = Some (r, mem_write m (buf_mem dst + doff) (bs @ cs), w2)"
          using False cont Inr call sum rec(1) by (simp add: unf mw)
        moreover have "length bs \<noteq> 0" using cont by simp
        ultimately show ?thesis using rec(2,4,5) s le same_view_trans[OF v rec(3)]
          by (intro exI[of _ r] exI[of _ "bs @ cs"] exI[of _ w2]) (auto simp: add.assoc)
      qed
    qed
  qed
qed

lemma one_from_fd_into_mem:
  assumes laws: "source_laws os V F" and b: "buf_fd b \<in> F" "has_flag (buf_flags b) FUSE_BUF_IS_FD" and l: "len < 2 ^ 62" "soff + len < 2 ^ 64" "doff + len < 2 ^ 64"
  shows "\<exists>r bs w'. fuse_buf_copy_one os (mem_dst sz a) doff b soff len flags m w = Some (r, mem_write m (a + doff) bs, w') \<and> length bs \<le> len \<and>
      same_view V w w' \<and> src_at V b soff w = bs @ src_at V b (soff + length bs) w' \<and> (r < 0 \<and> bs = [] \<or> r = int (length bs))"
proof -
  have "0 + len < 2 ^ 63" using l(1) by simp
  from read_loop_takes[OF laws b(1) this l(2,3), of "mem_dst sz a" m w] show ?thesis
    using b(2) by (simp add: fuse_buf_copy_one_def fuse_buf_read_def Let_def)
qed

lemma one_into_mem:
  assumes laws: "source_laws os V F" and b: "src_buf F b" and l: "len < 2 ^ 62" "soff + len < 2 ^ 64" "doff + len < 2 ^ 64"
    and run: "fuse_buf_copy_one os (mem_dst sz a) doff b soff len flags m w = Some (r, m', w')"
  shows "same_view V w w'"
proof (cases "has_flag (buf_flags b) FUSE_BUF_IS_FD")
  case True
  then have "buf_fd b \<in> F" using b by (simp add: src_buf_def)
  from one_from_fd_into_mem[OF laws this True l, of sz a flags m w] run show ?thesis by auto
next
  case False
  then have "w' = w" using run by (auto simp: fuse_buf_copy_one_def Let_def)
  then show ?thesis by simp
qed


subsection \<open>Whole vectors\<close>

definition one_vec :: "nat \<Rightarrow> fuse_buf \<Rightarrow> fuse_bufvec" where
  "one_vec off b = \<lparr>bv_count = 1, bv_idx = 0, bv_off = off, bv_buf = [b]\<rparr>"

lemma one_vec_init [simp]:
  "(FUSE_BUFVEC_INIT len)\<lparr>bv_buf := [hd (bv_buf (FUSE_BUFVEC_INIT len))\<lparr>buf_flags := FUSE_BUF_IS_FD, buf_fd := fd\<rparr>]\<rparr> = one_vec 0 (pipe_buf len fd)"
  "(FUSE_BUFVEC_INIT len)\<lparr>bv_buf := [hd (bv_buf (FUSE_BUFVEC_INIT len))\<lparr>buf_mem := a\<rparr>]\<rparr> = one_vec 0 (mem_dst len a)"
  "(FUSE_BUFVEC_INIT len)\<lparr>bv_off := off, bv_buf := [hd (bv_buf (FUSE_BUFVEC_INIT len))\<lparr>buf_mem := a\<rparr>]\<rparr> = one_vec off (mem_dst len a)"
  by (simp_all add: one_vec_def pipe_buf_def mem_dst_def FUSE_BUFVEC_INIT_def)

lemma one_vec_sel [simp]: "bv_buf (one_vec off b) = [b]" "bv_off (one_vec off b) = off" "bv_idx (one_vec off b) = 0" "bv_count (one_vec off b) = 1"
  by (simp_all add: one_vec_def)

lemma one_vec_ok: "off \<le> buf_size b \<Longrightarrow> buf_size b < 2 ^ 62 \<Longrightarrow> bufvec_ok (one_vec off b)"
  by (simp add: bufvec_ok_def one_vec_def pieces_def)

lemma plen_one_vec: "plen (pieces (one_vec off b)) = buf_size b - off"
  by (simp add: pieces_def)

definition vec_ok :: "int set \<Rightarrow> fuse_bufvec \<Rightarrow> bool" where
  "vec_ok F buf \<longleftrightarrow> bufvec_ok buf \<and> (\<forall>b\<in>set (bv_buf buf). src_buf F b)"

lemma c_int_small: "n < 2 ^ 31 \<Longrightarrow> c_int (int n) = int n"
  by (simp add: c_int_def)

lemma copy_pipe:
  assumes laws: "source_laws (ro_os ro) V F" and p: "good_pipe F p" and v: "vec_ok F buf" and l: "len < 2 ^ 31"
  shows "\<exists>res n buf' w'. copy_into ro (one_vec 0 (pipe_buf len (snd p))) buf pipe_flags st = Some (Done (res, buf', st\<lparr>rs_w := w'\<rparr>)) \<and>
    n \<le> len \<and> grows V p n (rs_w st) w' \<and> (res < 0 \<and> n = 0 \<or> res = int n) \<and> vec_ok F buf'"
proof -
  let ?D = "{pipe_buf len (snd p)}" and ?S = "{b. src_buf F b}" and ?d = "one_vec 0 (pipe_buf len (snd p))"
  let ?Step = "\<lambda>n (m, w) (m', w'). m' = m \<and> grows V p n w w'"
  have os: "os_ok (ro_os ro)" using laws by (simp add: source_laws_def)
  have d: "bufvec_ok ?d" using l by (intro one_vec_ok) simp_all
  have s: "bufvec_ok buf" "0 + plen (pieces buf) < 2 ^ 63" using v by (auto simp: vec_ok_def bufvec_ok_def)
  have "\<exists>n r dstv' srcv' m' w'. fuse_buf_copy_loop (ro_os ro) ?d buf pipe_flags 0 (rs_m st) (rs_w st) = Some (Done (r, dstv', srcv', m', w')) \<and>
      ?Step n (rs_m st, rs_w st) (m', w') \<and> (r < 0 \<and> (0::nat) = 0 \<and> n = 0 \<or> r = int (0 + n)) \<and> n \<le> min (plen (pieces ?d)) (plen (pieces buf)) \<and> bufvec_ok srcv' \<and> bv_buf srcv' = bv_buf buf"
  proof (rule fuse_buf_copy_loop_rule[OF os _ _ _ d s, where Dset = ?D and Sset = ?S and Step = ?Step])
    show "?Step (nat r) (m, w) (m', w')" if "dst \<in> ?D" "src \<in> ?S" "len' < 2 ^ 62" "fuse_buf_copy_one (ro_os ro) dst doff src soff len' pipe_flags m w = Some (r, m', w')"
      for dst doff src soff len' m w r m' w'
      using one_into_pipe[OF laws p, of src len' len doff soff m w r m' w'] that by simp
  qed (use v in \<open>auto simp: grows_refl vec_ok_def intro: grows_trans\<close>)
  then obtain n r dv sv w' where run: "fuse_buf_copy_loop (ro_os ro) ?d buf pipe_flags 0 (rs_m st) (rs_w st) = Some (Done (r, dv, sv, rs_m st, w'))"
    "grows V p n (rs_w st) w'" "r < 0 \<and> n = 0 \<or> r = int n" "n \<le> len" "bufvec_ok sv" "bv_buf sv = bv_buf buf" by (auto simp: plen_one_vec)
  have "n < 2 ^ 31" using run(4) l by simp
  then have "c_int r < 0 \<and> n = 0 \<or> c_int r = int n" using run(3) by (auto simp: c_int_small) (simp add: c_int_def)
  moreover have "vec_ok F sv" using v run(5,6) by (simp add: vec_ok_def)
  ultimately show ?thesis using run(1,2,4) by (auto simp: copy_into_def fuse_buf_copy_def intro!: exI[of _ n])
qed

lemma copy_mem:
  assumes laws: "source_laws (ro_os ro) V F" and v: "vec_ok F buf" and l: "len < 2 ^ 31" "off \<le> len"
  shows "\<exists>res buf' m' w'. copy_into ro (one_vec off (mem_dst len a)) buf flags st = Some (Done (res, buf', st\<lparr>rs_m := m', rs_w := w'\<rparr>)) \<and>
    same_view V (rs_w st) w' \<and> res \<le> int (len - off)"
proof -
  let ?D = "{mem_dst len a}" and ?S = "{b. src_buf F b \<and> buf_size b < 2 ^ 62}" and ?d = "one_vec off (mem_dst len a)"
  let ?Step = "\<lambda>(n::nat) (m :: memory, w) (m' :: memory, w'). same_view V w w'"
  have os: "os_ok (ro_os ro)" using laws by (simp add: source_laws_def)
  have d: "bufvec_ok ?d" using l by (intro one_vec_ok) simp_all
  have s: "bufvec_ok buf" "0 + plen (pieces buf) < 2 ^ 63" using v by (auto simp: vec_ok_def bufvec_ok_def)
  have "\<exists>n r dstv' srcv' m' w'. fuse_buf_copy_loop (ro_os ro) ?d buf flags 0 (rs_m st) (rs_w st) = Some (Done (r, dstv', srcv', m', w')) \<and>
      ?Step n (rs_m st, rs_w st) (m', w') \<and> (r < 0 \<and> (0::nat) = 0 \<and> n = 0 \<or> r = int (0 + n)) \<and> n \<le> min (plen (pieces ?d)) (plen (pieces buf)) \<and> bufvec_ok srcv' \<and> bv_buf srcv' = bv_buf buf"
  proof (rule fuse_buf_copy_loop_rule[OF os _ _ _ d s, where Dset = ?D and Sset = ?S and Step = ?Step])
    show "?Step (nat r) (m, w) (m', w')" if "dst \<in> ?D" "src \<in> ?S" "len' < 2 ^ 62" "doff + len' \<le> buf_size dst" "soff + len' \<le> buf_size src"
        "fuse_buf_copy_one (ro_os ro) dst doff src soff len' flags m w = Some (r, m', w')"
      for dst doff src soff len' m w r m' w'
      using one_into_mem[OF laws, of src len' soff doff len a flags m w r m' w'] that l by simp
  qed (use v in \<open>auto simp: vec_ok_def bufvec_ok_def intro: same_view_trans\<close>)
  then obtain n r dv sv m' w' where run: "fuse_buf_copy_loop (ro_os ro) ?d buf flags 0 (rs_m st) (rs_w st) = Some (Done (r, dv, sv, m', w'))"
    "same_view V (rs_w st) w'" "r < 0 \<and> n = 0 \<or> r = int n" "n \<le> len - off" by (auto simp: plen_one_vec)
  have "n < 2 ^ 31" using run(4) l by simp
  then have "c_int r \<le> int (len - off)" using run(3,4) by (auto simp: c_int_small) (simp add: c_int_def)
  then show ?thesis using run(1,2) by (auto simp: copy_into_def fuse_buf_copy_def)
qed


lemma advance_one_vec:
  assumes "n \<le> buf_size b - off" and "off \<le> buf_size b" and "buf_size b < 2 ^ 62"
  shows "fuse_bufvec_advance (one_vec off b) n = Done (n < buf_size b - off, if n < buf_size b - off then one_vec (off + n) b else (one_vec (off + n) b)\<lparr>bv_idx := 1\<rparr>)"
proof -
  have add: "sz_add off n = off + n" "sz_add 0 (Suc 0) = Suc 0" "sz_add off (buf_size b - off) = buf_size b" using assms by (auto simp: csimps)
  show ?thesis using assms by (cases "n < buf_size b - off") (auto simp: fuse_bufvec_advance_def fuse_bufvec_current_def Let_def one_vec_def add)
qed

text \<open>A single source buffer and a single destination: the loop has one round.\<close>

lemma copy_loop_single:
  assumes ok: "bufvec_ok (one_vec doff d)" "bufvec_ok (one_vec soff b)"
    and one: "fuse_buf_copy_one os d doff b soff (min (buf_size b - soff) (buf_size d - doff)) flags m w = Some (r, m', w')"
    and r: "r \<le> int (min (buf_size b - soff) (buf_size d - doff))"
  shows "\<exists>dv sv. fuse_buf_copy_loop os (one_vec doff d) (one_vec soff b) flags 0 m w = Some (Done (r, dv, sv, m', w')) \<and>
    (nat r < buf_size b - soff \<or> r < 0 \<longrightarrow> sv = one_vec (soff + nat r) b)"
proof -
  note unf = fuse_buf_copy_loop.simps[of os "one_vec doff d" "one_vec soff b" flags 0 m w]
  have cur: "fuse_bufvec_current (one_vec doff d) = Some d" "fuse_bufvec_current (one_vec soff b) = Some b" by (simp_all add: fuse_bufvec_current_def)
  note cd = bufvec_ok_current[OF ok(1) cur(1)] and cs = bufvec_ok_current[OF ok(2) cur(2)]
  have bd: "doff \<le> buf_size d" "buf_size d < 2 ^ 62" "soff \<le> buf_size b" "buf_size b < 2 ^ 62" using cd(5,6) cs(5,6) by simp_all
  have sub: "sz_sub (buf_size b) soff = buf_size b - soff" "sz_sub (buf_size d) doff = buf_size d - doff" using cd(4) cs(4) by simp_all
  have one': "fuse_buf_copy_one os d doff b soff (min_size (buf_size b - soff) (buf_size d - doff)) flags m w = Some (r, m', w')" using one by simp
  show ?thesis
  proof (cases "r < 0")
    case True
    then show ?thesis unfolding unf using one' by (simp add: cur sub)
  next
    case False
    have le: "nat r \<le> buf_size b - soff" "nat r \<le> buf_size d - doff" using r False by auto
    then have add: "sz_add soff (nat r) = soff + nat r" "sz_add doff (nat r) = doff + nat r" "sz_add 0 1 = 1" "sz_add 0 (nat r) = nat r"
      using bd by (auto simp: csimps)
    have ssz: "to_ssize (sz_add 0 (nat r)) = r" using le bd False by (simp add: add csimps)
    note as = advance_one_vec[OF le(1) bd(3,4)] and ad = advance_one_vec[OF le(2) bd(1,2)]
    show ?thesis unfolding unf using one' False by (auto simp: cur sub as ad ssz)
  qed
qed

lemma single_ok:
  assumes "vec_ok F (one_vec off b)"
  shows "bufvec_ok (one_vec off b)" and "off \<le> buf_size b" and "buf_size b < 2 ^ 62" and "has_flag (buf_flags b) FUSE_BUF_IS_FD \<Longrightarrow> buf_fd b \<in> F"
  using assms by (auto simp: vec_ok_def bufvec_ok_def src_buf_def)

lemma copy_pipe_single:
  assumes laws: "source_laws (ro_os ro) V F" and p: "good_pipe F p" and v: "vec_ok F (one_vec off b)" and b: "has_flag (buf_flags b) FUSE_BUF_IS_FD" and l: "len < 2 ^ 31"
  shows "\<exists>res n buf' w'. copy_into ro (one_vec 0 (pipe_buf len (snd p))) (one_vec off b) pipe_flags st = Some (Done (res, buf', st\<lparr>rs_w := w'\<rparr>)) \<and>
    n \<le> len \<and> n \<le> buf_size b - off \<and> pushes V p b off n (rs_w st) w' \<and> (res < 0 \<and> n = 0 \<or> res = int n) \<and> (n < buf_size b - off \<or> res < 0 \<longrightarrow> buf' = one_vec (off + n) b)"
proof -
  note s = single_ok[OF v]
  let ?l = "min (buf_size b - off) len"
  have "?l < 2 ^ 63" using l by auto
  from one_from_fd_into_pipe[OF laws p s(4)[OF b] b this, of len 0 off "rs_m st" "rs_w st"] obtain r n w' where
    one: "fuse_buf_copy_one (ro_os ro) (pipe_buf len (snd p)) 0 b off ?l pipe_flags (rs_m st) (rs_w st) = Some (r, rs_m st, w')"
    and n: "n \<le> ?l" "pushes V p b off n (rs_w st) w'" "r < 0 \<and> n = 0 \<or> r = int n" by blast
  have nr: "nat r = n" using n(3) by auto
  have "bufvec_ok (one_vec 0 (pipe_buf len (snd p)))" using l by (intro one_vec_ok) simp_all
  moreover have "r \<le> int ?l" using n(1,3) by auto
  ultimately obtain dv sv where loop: "fuse_buf_copy_loop (ro_os ro) (one_vec 0 (pipe_buf len (snd p))) (one_vec off b) pipe_flags 0 (rs_m st) (rs_w st) =
      Some (Done (r, dv, sv, rs_m st, w'))" "n < buf_size b - off \<or> r < 0 \<longrightarrow> sv = one_vec (off + n) b"
    using copy_loop_single[of 0 "pipe_buf len (snd p)" off b "ro_os ro" pipe_flags "rs_m st" "rs_w st" r "rs_m st" w'] s(1) one nr by auto
  have "n < 2 ^ 31" using n(1) l by simp
  then have "c_int r < 0 \<and> n = 0 \<and> r < 0 \<or> c_int r = int n" using n(3) by (auto simp: c_int_small) (simp add: c_int_def)
  then show ?thesis using loop n(1,2) by (auto simp: copy_into_def fuse_buf_copy_def intro!: exI[of _ n])
qed

lemma copy_mem_single:
  assumes laws: "source_laws (ro_os ro) V F" and v: "vec_ok F (one_vec off b)" and b: "has_flag (buf_flags b) FUSE_BUF_IS_FD" and l: "len < 2 ^ 31" "doff \<le> len"
  shows "\<exists>res bs buf' w'. copy_into ro (one_vec doff (mem_dst len a)) (one_vec off b) flags st =
      Some (Done (res, buf', st\<lparr>rs_m := mem_write (rs_m st) (a + doff) bs, rs_w := w'\<rparr>)) \<and> length bs \<le> len - doff \<and> same_view V (rs_w st) w' \<and>
      src_at V b off (rs_w st) = bs @ src_at V b (off + length bs) w' \<and> (res < 0 \<and> bs = [] \<or> res = int (length bs))"
proof -
  note s = single_ok[OF v]
  let ?l = "min (buf_size b - off) (len - doff)"
  have "?l < 2 ^ 62" "off + ?l < 2 ^ 64" "doff + ?l < 2 ^ 64" using l s(2,3) by auto
  from one_from_fd_into_mem[OF laws s(4)[OF b] b this, of len a flags "rs_m st" "rs_w st"] obtain r bs w' where
    one: "fuse_buf_copy_one (ro_os ro) (mem_dst len a) doff b off ?l flags (rs_m st) (rs_w st) = Some (r, mem_write (rs_m st) (a + doff) bs, w')"
    and n: "length bs \<le> ?l" "same_view V (rs_w st) w'" "src_at V b off (rs_w st) = bs @ src_at V b (off + length bs) w'" "r < 0 \<and> bs = [] \<or> r = int (length bs)" by blast
  have "bufvec_ok (one_vec doff (mem_dst len a))" using l by (intro one_vec_ok) simp_all
  moreover have "r \<le> int ?l" using n(1,4) by auto
  ultimately obtain dv sv where loop: "fuse_buf_copy_loop (ro_os ro) (one_vec doff (mem_dst len a)) (one_vec off b) flags 0 (rs_m st) (rs_w st) =
      Some (Done (r, dv, sv, mem_write (rs_m st) (a + doff) bs, w'))"
    using copy_loop_single[of doff "mem_dst len a" off b "ro_os ro" flags "rs_m st" "rs_w st" r _ w'] s(1) one by auto
  have "length bs < 2 ^ 31" using n(1) l by linarith
  then have "c_int r < 0 \<and> bs = [] \<or> c_int r = int (length bs)" using n(4) by (auto simp: c_int_small) (simp add: c_int_def)
  then show ?thesis using loop n(1-3) by (auto simp: copy_into_def fuse_buf_copy_def)
qed


subsection \<open>What a reply sends\<close>

definition clean :: "'w pview \<Rightarrow> int set \<Rightarrow> 'w rsess \<Rightarrow> bool" where
  "clean V F st \<longleftrightarrow> (case rs_pipe st of None \<Rightarrow> True
     | Some llp \<Rightarrow> good_pipe F (llp_pipe llp) \<and> pv_refs V (llp_pipe llp) (rs_w st) = 0 \<and> pv_data V (llp_pipe llp) (rs_w st) = [])"

text \<open>The data are the next bytes of the source, if that is a single descriptor, from the start of its buffer.\<close>

definition good_body :: "'w pview \<Rightarrow> fuse_bufvec \<Rightarrow> 'w \<Rightarrow> byte list \<Rightarrow> bool" where
  "good_body V buf w body \<longleftrightarrow> (\<forall>b. buf = one_vec 0 b \<and> has_flag (buf_flags b) FUSE_BUF_IS_FD \<longrightarrow> (\<exists>rest. src_at V b 0 w = body @ rest))"

definition framed :: "fuse_out_header \<Rightarrow> byte list list \<Rightarrow> byte list \<Rightarrow> byte list" where
  "framed h segs body = hdr_bytes (h\<lparr>rh_len := 32 + sum_list (map length segs) + length body\<rparr>) @ concat segs @ body"

definition sent_ok :: "'w pview \<Rightarrow> int set \<Rightarrow> 'w rsess \<Rightarrow> fuse_out_header \<Rightarrow> byte list list \<Rightarrow> fuse_bufvec \<Rightarrow> nat \<Rightarrow> int \<Rightarrow> 'w rsess \<Rightarrow> bool" where
  "sent_ok V F st h segs buf len r st' \<longleftrightarrow> clean V F st' \<and> rs_fd st' = rs_fd st \<and>
     (r = 0 \<and> (\<exists>body. pv_sent V (rs_w st') = pv_sent V (rs_w st) @ [framed h segs body] \<and> length body \<le> len \<and> good_body V buf (rs_w st) body) \<or>
      r \<noteq> 0 \<and> pv_sent V (rs_w st') = pv_sent V (rs_w st) \<or>
      r = - EIO \<and> (\<exists>x. pv_sent V (rs_w st') = pv_sent V (rs_w st) @ [x]))"

lemma reply_lawsD:
  assumes "reply_laws ro V F"
  shows "source_laws (ro_os ro) V F" and "quiet V w (snd (ro_memalign ro n w))" and "fst (ro_memalign ro n w) = Inl e \<Longrightarrow> 0 < e"
    and "quiet V w (snd (ro_malloc ro n w))" and "quiet V w (ro_close ro fd w)" and "quiet V w (snd (ro_setpipe ro fd n w))" and "quiet V w (snd (ro_pipemax ro w))"
    and "quiet V w (snd (ro_pipe ro w))" and "fst (ro_pipe ro w) = Some p \<Longrightarrow> good_pipe F p \<and> pv_refs V p w = 0 \<and> pv_data V p w = []"
    and "good_pipe F p \<Longrightarrow> vmsplice_result V p w (ro_vmsplice ro (snd p) bs w)" and "good_pipe F p \<Longrightarrow> pipe_read_result V p w (os_read (ro_os ro) (fst p) n w)"
    and "good_pipe F p \<Longrightarrow> splice_out_result V hb p w (ro_splice_out ro hb (fst p) fd n fl w)" and "writev_result V segs w (ro_writev ro fd segs w)"
  by (insert assms, unfold reply_laws_def, (elim conjE, metis)+)

lemma quietD: "quiet V w w' \<Longrightarrow> pv_refs V p w' = pv_refs V p w \<and> pv_data V p w' = pv_data V p w \<and> pv_sent V w' = pv_sent V w \<and> pv_src V fd sp w' = pv_src V fd sp w"
  by (cases p) (simp add: quiet_def same_view_def)

lemma same_viewD: "same_view V w w' \<Longrightarrow> pv_refs V p w' = pv_refs V p w \<and> pv_data V p w' = pv_data V p w \<and> pv_sent V w' = pv_sent V w"
  by (cases p) (simp add: same_view_def)

lemma quiet_src: "quiet V w w' \<Longrightarrow> src_at V b off w' = src_at V b off w"
  unfolding src_at_def by (simp add: quiet_def)

lemma good_body_quiet: "quiet V w w' \<Longrightarrow> good_body V buf w' body \<longleftrightarrow> good_body V buf w body"
  by (simp add: good_body_def quiet_src)

lemma clean_same: "clean V F st \<Longrightarrow> same_view V (rs_w st) (rs_w st') \<Longrightarrow> rs_pipe st' = rs_pipe st \<Longrightarrow> clean V F st'"
  unfolding clean_def using same_viewD[of V "rs_w st" "rs_w st'"] by (auto split: option.splits)

lemma quiet_same: "quiet V w w' \<Longrightarrow> same_view V w w'"
  by (simp add: quiet_def)

lemma clear_pipe_ok:
  assumes "reply_laws ro V F"
  shows "clean V F (fuse_ll_clear_pipe ro st)" and "pv_sent V (rs_w (fuse_ll_clear_pipe ro st)) = pv_sent V (rs_w st)" and "rs_fd (fuse_ll_clear_pipe ro st) = rs_fd st"
  using reply_lawsD(5)[OF assms] by (auto simp: fuse_ll_clear_pipe_def fuse_ll_pipe_free_def clean_def quiet_def same_view_def split: option.splits)

lemma send_msg_ok:
  assumes laws: "reply_laws ro V F" and cl: "clean V F st" and l: "32 + sum_list (map length segs) < 2 ^ 32" and run: "fuse_send_msg ro h segs st = (r, st')"
  shows "clean V F st'" and "rs_fd st' = rs_fd st" and "r = 0 \<and> pv_sent V (rs_w st') = pv_sent V (rs_w st) @ [framed h segs []] \<or> r < 0 \<and> pv_sent V (rs_w st') = pv_sent V (rs_w st)"
proof -
  let ?h = "h\<lparr>rh_len := u32 (32 + sum_list (map length segs))\<rparr>"
  have u: "u32 (32 + sum_list (map length segs)) = 32 + sum_list (map length segs)" using l by (simp add: u32_def)
  obtain res w where call: "ro_writev ro (rs_fd st) (hdr_bytes ?h # segs) (rs_w st) = (res, w)" by fastforce
  have law: "writev_result V (hdr_bytes ?h # segs) (rs_w st) (res, w)" unfolding call[symmetric] by (rule reply_lawsD(13)[OF laws])
  have st': "st' = st\<lparr>rs_w := w\<rparr>" using run call by (auto simp: fuse_send_msg_def Let_def split: sum.splits)
  then show "rs_fd st' = rs_fd st" by simp
  have pres: "pv_refs V p w = pv_refs V p (rs_w st) \<and> pv_data V p w = pv_data V p (rs_w st)" for p
    using law by (cases res; cases p) (auto simp: same_view_def)
  then show "clean V F st'" using cl st' by (simp add: clean_def split: option.splits)
  show "r = 0 \<and> pv_sent V (rs_w st') = pv_sent V (rs_w st) @ [framed h segs []] \<or> r < 0 \<and> pv_sent V (rs_w st') = pv_sent V (rs_w st)"
    using law run call st' u by (cases res) (auto simp: fuse_send_msg_def Let_def framed_def same_view_def)
qed

lemma framed_snoc: "framed h (segs @ [body]) [] = framed h segs body"
  by (simp add: framed_def add.assoc)


lemma sent_okI_msg:
  assumes laws: "reply_laws ro V F" and cl: "clean V F st1" and run: "fuse_send_msg ro h (segs @ [body]) st1 = (r, st')"
    and l: "32 + sum_list (map length segs) + length body < 2 ^ 32" "length body \<le> len"
    and pre: "pv_sent V (rs_w st1) = pv_sent V (rs_w st)" "rs_fd st1 = rs_fd st" and body: "good_body V buf (rs_w st) body"
  shows "sent_ok V F st h segs buf len r st'"
proof -
  have "32 + sum_list (map length (segs @ [body])) < 2 ^ 32" using l(1) by simp
  note m = send_msg_ok[OF laws cl this run]
  then show ?thesis using pre body l(2) unfolding sent_ok_def by (auto simp: framed_snoc)
qed

lemma sent_okI_none: "clean V F st' \<Longrightarrow> rs_fd st' = rs_fd st \<Longrightarrow> r \<noteq> 0 \<Longrightarrow> pv_sent V (rs_w st') = pv_sent V (rs_w st) \<Longrightarrow> sent_ok V F st h segs buf len r st'"
  by (simp add: sent_ok_def)

lemma fallback_ok:
  assumes laws: "reply_laws ro V F" and cl: "clean V F st" and v: "vec_ok F buf" and l: "32 + sum_list (map length segs) + len < 2 ^ 31"
  shows "\<exists>r st'. fuse_send_data_iov_fallback ro h segs buf len st = Some (Done (r, st')) \<and> sent_ok V F st h segs buf len r st'"
proof (cases "bv_count buf = 1 \<and> bv_idx buf = 0 \<and> bv_off buf = 0 \<and> \<not> has_flag (buf_flags (bv_buf buf ! 0)) FUSE_BUF_IS_FD")
  case True
  let ?body = "mem_read (rs_m st) (buf_mem (bv_buf buf ! 0)) len"
  obtain r st' where run: "fuse_send_msg ro h (segs @ [?body]) st = (r, st')" by fastforce
  have "good_body V buf (rs_w st) ?body" using True by (auto simp: good_body_def)
  then have "sent_ok V F st h segs buf len r st'" using l by (intro sent_okI_msg[OF laws cl run]) simp_all
  then show ?thesis using True run by (simp add: fuse_send_data_iov_fallback_def)
next
  case False
  obtain x w where al: "ro_memalign ro len (rs_w st) = (x, w)" by fastforce
  then have qu: "quiet V (rs_w st) w" using reply_lawsD(2)[OF laws, of "rs_w st" len] by simp
  let ?st1 = "st\<lparr>rs_w := w\<rparr>"
  have cl1: "clean V F ?st1" by (rule clean_same[OF cl]) (simp_all add: quiet_same[OF qu])
  have sent1: "pv_sent V w = pv_sent V (rs_w st)" using quietD[OF qu] by simp
  show ?thesis
  proof (cases x)
    case (Inl e)
    then have "0 < e" using reply_lawsD(3)[OF laws, of len "rs_w st" e] al by simp
    moreover have "fuse_send_data_iov_fallback ro h segs buf len st = Some (Done (e, ?st1))" using False Inl al by (auto simp: fuse_send_data_iov_fallback_def)
    ultimately show ?thesis using cl1 sent1 by (auto intro!: sent_okI_none)
  next
    case (Inr a)
    have len: "len < 2 ^ 31" "0 \<le> len" using l by simp_all
    obtain res buf' m' w' where cp: "copy_into ro (one_vec 0 (mem_dst len a)) buf 0 ?st1 = Some (Done (res, buf', ?st1\<lparr>rs_m := m', rs_w := w'\<rparr>))"
      "same_view V w w'" "res \<le> int len" using copy_mem[OF reply_lawsD(1)[OF laws] v len, of a 0 ?st1] by auto
    let ?st2 = "?st1\<lparr>rs_m := m', rs_w := w'\<rparr>"
    have cl2: "clean V F ?st2" by (rule clean_same[OF cl1]) (use cp(2) in simp_all)
    have sent2: "pv_sent V w' = pv_sent V (rs_w st)" using same_viewD[OF cp(2)] sent1 by simp
    have eq: "fuse_send_data_iov_fallback ro h segs buf len st = (if res < 0 then Some (Done (- res, ?st2))
        else Some (Done (fuse_send_msg ro h (segs @ [mem_read m' a (nat res)]) ?st2)))"
      using False Inr al cp(1) by (auto simp: fuse_send_data_iov_fallback_def)
    show ?thesis
    proof (cases "res < 0")
      case True
      then show ?thesis using eq cl2 sent2 by (auto intro!: sent_okI_none)
    next
      case nn: False
      obtain r st' where run: "fuse_send_msg ro h (segs @ [mem_read m' a (nat res)]) ?st2 = (r, st')" by fastforce
      have "good_body V buf (rs_w st) (mem_read m' a (nat res))" unfolding good_body_def
      proof (intro allI impI)
        fix b assume b: "buf = one_vec 0 b \<and> has_flag (buf_flags b) FUSE_BUF_IS_FD"
        from copy_mem_single[OF reply_lawsD(1)[OF laws] v[unfolded conjunct1[OF b]] conjunct2[OF b] len, of a 0 ?st1] obtain r2 bs buf2 w2 where
          run2: "copy_into ro (one_vec 0 (mem_dst len a)) buf 0 ?st1 = Some (Done (r2, buf2, ?st1\<lparr>rs_m := mem_write (rs_m st) (a + 0) bs, rs_w := w2\<rparr>))"
          and bs: "r2 < 0 \<and> bs = [] \<or> r2 = int (length bs)" "src_at V b 0 w = bs @ src_at V b (0 + length bs) w2" using b by auto
        have "?st2 = ?st1\<lparr>rs_m := mem_write (rs_m st) (a + 0) bs, rs_w := w2\<rparr>" and r2: "r2 = res" using cp(1) run2 by auto
        then have "rs_m ?st2 = mem_write (rs_m st) (a + 0) bs" by (metis rsess.select_convs(7) rsess.surjective rsess.update_convs(7) rsess.update_convs(8))
        then have "m' = mem_write (rs_m st) a bs" by simp
        then show "\<exists>rest. src_at V b 0 (rs_w st) = mem_read m' a (nat res) @ rest" using nn r2 bs quiet_src[OF qu, of b 0] by (auto simp: mem_read_write_same)
      qed
      then have "sent_ok V F st h segs buf len r st'" using l cp(3) sent2 nn by (intro sent_okI_msg[OF laws cl2 run]) auto
      then show ?thesis using eq nn run by auto
    qed
  qed
qed

lemma splice_out_ok:
  assumes laws: "reply_laws ro V F" and p: "good_pipe F (llp_pipe llp)" and pipe: "\<exists>l. rs_pipe st = Some l \<and> llp_pipe l = llp_pipe llp"
    and refs: "pv_refs V (llp_pipe llp) (rs_w st) = 32 + sum_list (map length segs)" and data: "pv_data V (llp_pipe llp) (rs_w st) = body"
    and l: "32 + sum_list (map length segs) + length body < 2 ^ 32" "length body \<le> len" and pre: "pv_sent V (rs_w st) = pv_sent V (rs_w st0)" "rs_fd st = rs_fd st0"
    and body: "good_body V buf (rs_w st0) body" and run: "send_from_pipe ro h segs llp (length body) flags st = (r, st')"
  shows "sent_ok V F st0 h segs buf len r st'"
proof -
  let ?n = "32 + sum_list (map length segs) + length body"
  let ?h = "h\<lparr>rh_len := ?n\<rparr>" and ?fl = "if has_flag flags FUSE_BUF_SPLICE_MOVE \<and> rs_want_splice_move st then SPLICE_F_MOVE else 0"
  have u: "u32 ?n = ?n" using l(1) by (simp add: u32_def)
  define hb where "hb = concat (hdr_bytes ?h # segs)"
  have hl: "length hb = 32 + sum_list (map length segs)" by (simp add: hb_def hdr_bytes_def length_concat)
  obtain res w where call: "ro_splice_out ro hb (fst (llp_pipe llp)) (rs_fd st) ?n ?fl (rs_w st) = (res, w)" by fastforce
  have law: "splice_out_result V hb (llp_pipe llp) (rs_w st) (res, w)" unfolding call[symmetric] by (rule reply_lawsD(12)[OF laws p])
  have eq: "(r, st') = (case res of Inl e \<Rightarrow> (- e, fuse_ll_clear_pipe ro (st\<lparr>rs_w := w\<rparr>))
      | Inr n \<Rightarrow> if n \<noteq> ?n then (- EIO, fuse_ll_clear_pipe ro (st\<lparr>rs_w := w\<rparr>)) else (0, st\<lparr>rs_w := w\<rparr>))"
    using run call by (auto simp: send_from_pipe_def Let_def u hb_def split: sum.splits)
  note cp = clear_pipe_ok[OF laws, of "st\<lparr>rs_w := w\<rparr>"]
  show ?thesis
  proof (cases res)
    case (Inl e)
    then show ?thesis using eq law cp pre by (auto intro!: sent_okI_none)
  next
    case (Inr n)
    then have sw: "pv_sent V w = pv_sent V (rs_w st0) @ [take n (hb @ body)]" using law refs data pre hl by simp
    show ?thesis
    proof (cases "n = ?n")
      case False
      then show ?thesis using eq Inr cp pre sw unfolding sent_ok_def by auto
    next
      case True
      have "take n (hb @ body) = framed h segs body" using hl True by (simp add: framed_def hb_def)
      moreover have "clean V F (st\<lparr>rs_w := w\<rparr>)" using law Inr True refs data pipe p by (auto simp: clean_def)
      ultimately show ?thesis using eq Inr True sw pre body l(2) unfolding sent_ok_def by auto
    qed
  qed
qed


lemma read_back_ok:
  assumes laws: "reply_laws ro V F" and p: "good_pipe F p" and run: "read_back ro (fst p) dst n st = (r, st')"
  shows "rs_fd st' = rs_fd st" and "rs_pipe st' = rs_pipe st" and "pv_sent V (rs_w st') = pv_sent V (rs_w st)"
    and "r = 0 \<or> r = - EIO"
    and "r = 0 \<Longrightarrow> \<exists>bs. length bs = n \<and> rs_m st' = (case dst of None \<Rightarrow> rs_m st | Some a \<Rightarrow> mem_write (rs_m st) a bs) \<and>
      pv_refs V p (rs_w st') = pv_refs V p (rs_w st) - n \<and> pv_data V p (rs_w st') = drop (n - pv_refs V p (rs_w st)) (pv_data V p (rs_w st)) \<and>
      drop (pv_refs V p (rs_w st)) bs = take (n - pv_refs V p (rs_w st)) (pv_data V p (rs_w st))"
proof -
  obtain x w where call: "os_read (ro_os ro) (fst p) n (rs_w st) = (x, w)" by fastforce
  have law: "pipe_read_result V p (rs_w st) (x, w)" unfolding call[symmetric] by (rule reply_lawsD(11)[OF laws p])
  show "rs_fd st' = rs_fd st" "rs_pipe st' = rs_pipe st" "pv_sent V (rs_w st') = pv_sent V (rs_w st)" "r = 0 \<or> r = - EIO"
    using run call law by (auto simp: read_back_def split: sum.splits if_splits)
  show "\<exists>bs. length bs = n \<and> rs_m st' = (case dst of None \<Rightarrow> rs_m st | Some a \<Rightarrow> mem_write (rs_m st) a bs) \<and>
      pv_refs V p (rs_w st') = pv_refs V p (rs_w st) - n \<and> pv_data V p (rs_w st') = drop (n - pv_refs V p (rs_w st)) (pv_data V p (rs_w st)) \<and>
      drop (pv_refs V p (rs_w st)) bs = take (n - pv_refs V p (rs_w st)) (pv_data V p (rs_w st))" if "r = 0"
    using run call law that by (cases x) (auto simp: read_back_def split: if_splits)
qed

text \<open>After a short splice, a single descriptor is where the data in the pipe end.\<close>

definition goes_on :: "'w pview \<Rightarrow> fuse_bufvec \<Rightarrow> 'w \<Rightarrow> byte list \<Rightarrow> fuse_bufvec \<Rightarrow> 'w \<Rightarrow> bool" where
  "goes_on V buf0 w0 body buf w \<longleftrightarrow> (\<forall>b. buf0 = one_vec 0 b \<and> has_flag (buf_flags b) FUSE_BUF_IS_FD \<longrightarrow>
     buf = one_vec (length body) b \<and> src_at V b 0 w0 = body @ src_at V b (length body) w)"

lemma goes_on_body: "goes_on V buf0 w0 body buf w \<Longrightarrow> good_body V buf0 w0 body"
  by (auto simp: goes_on_def good_body_def)

lemma mem_two_parts:
  assumes "length bs = n" and "length cs = k"
  shows "mem_read (mem_write (mem_write m (a + n) cs) a bs) a (n + k) = bs @ cs"
proof -
  have "mem_read (mem_write (mem_write m (a + n) cs) a bs) a n = bs" using mem_read_write_same assms(1) by metis
  moreover have "mem_read (mem_write (mem_write m (a + n) cs) a bs) (a + n) k = mem_read (mem_write m (a + n) cs) (a + n) k"
    by (rule mem_read_write_disjoint) (use assms in simp)
  moreover have "mem_read (mem_write m (a + n) cs) (a + n) k = cs" using mem_read_write_same assms(2) by metis
  ultimately show ?thesis unfolding mem_read_add by simp
qed

lemma after_short_ok:
  assumes laws: "reply_laws ro V F" and p: "good_pipe F (llp_pipe llp)" and pipe: "\<exists>l. rs_pipe st = Some l \<and> llp_pipe l = llp_pipe llp"
    and refs: "pv_refs V (llp_pipe llp) (rs_w st) = 32 + sum_list (map length segs)" and data: "pv_data V (llp_pipe llp) (rs_w st) = body"
    and l: "32 + sum_list (map length segs) + len < 2 ^ 31" "length body < len" and pre: "pv_sent V (rs_w st) = pv_sent V (rs_w st0)" "rs_fd st = rs_fd st0"
    and v: "vec_ok F buf" and go: "goes_on V buf0 (rs_w st0) body buf (rs_w st)"
  shows "\<exists>r st'. after_short_splice ro h segs llp buf len (length body) flags st = Some (Done (r, st')) \<and> sent_ok V F st0 h segs buf0 len r st'"
proof -
  let ?p = "llp_pipe llp" and ?hl = "32 + sum_list (map length segs)" and ?n = "length body"
  obtain x w where al: "ro_memalign ro len (rs_w st) = (x, w)" by fastforce
  then have qu: "quiet V (rs_w st) w" using reply_lawsD(2)[OF laws, of "rs_w st" len] by simp
  show ?thesis
  proof (cases x)
    case (Inl e)
    then have e: "0 < e" using reply_lawsD(3)[OF laws, of len "rs_w st" e] al by simp
    have "after_short_splice ro h segs llp buf len ?n flags st = Some (Done (e, fuse_ll_clear_pipe ro (st\<lparr>rs_w := w\<rparr>)))" using Inl al by (simp add: after_short_splice_def)
    moreover have "sent_ok V F st0 h segs buf0 len e (fuse_ll_clear_pipe ro (st\<lparr>rs_w := w\<rparr>))"
      using clear_pipe_ok[OF laws, of "st\<lparr>rs_w := w\<rparr>"] e pre quietD[OF qu] by (intro sent_okI_none) simp_all
    ultimately show ?thesis by blast
  next
    case (Inr a)
    let ?st1 = "st\<lparr>rs_w := w\<rparr>"
    have ll: "len < 2 ^ 31" "?n \<le> len" using l by simp_all
    obtain res buf' m2 w2 where cp: "copy_into ro (one_vec ?n (mem_dst len a)) buf 0 ?st1 = Some (Done (res, buf', ?st1\<lparr>rs_m := m2, rs_w := w2\<rparr>))"
      "same_view V w w2" "res \<le> int (len - ?n)" using copy_mem[OF reply_lawsD(1)[OF laws] v ll, of a 0 ?st1] by auto
    define st2 where "st2 = ?st1\<lparr>rs_m := m2, rs_w := w2\<rparr>"
    have S2: "rs_w st2 = w2" "rs_m st2 = m2" "rs_fd st2 = rs_fd st" "rs_pipe st2 = rs_pipe st" by (simp_all add: st2_def)
    have cp1: "copy_into ro (one_vec ?n (mem_dst len a)) buf 0 ?st1 = Some (Done (res, buf', st2))" unfolding st2_def by (rule cp(1))
    have view: "pv_refs V ?p w2 = ?hl" "pv_data V ?p w2 = body" "pv_sent V w2 = pv_sent V (rs_w st0)"
      using same_viewD[OF cp(2), of ?p] quietD[OF qu, of ?p] refs data pre(1) by simp_all
    have cont: "\<exists>cs. m2 = mem_write (rs_m st) (a + ?n) cs \<and> res = int (length cs) \<and> (\<exists>rest. src_at V b 0 (rs_w st0) = body @ cs @ rest)"
      if b: "buf0 = one_vec 0 b \<and> has_flag (buf_flags b) FUSE_BUF_IS_FD" and pos: "0 < res" for b
    proof -
      have bu: "buf = one_vec ?n b" and src: "src_at V b 0 (rs_w st0) = body @ src_at V b ?n (rs_w st)" using go b by (auto simp: goes_on_def)
      from copy_mem_single[OF reply_lawsD(1)[OF laws] v[unfolded bu] conjunct2[OF b] ll, of a 0 ?st1] obtain r2 cs b2 w3 where
        run2: "copy_into ro (one_vec ?n (mem_dst len a)) buf 0 ?st1 = Some (Done (r2, b2, ?st1\<lparr>rs_m := mem_write (rs_m st) (a + ?n) cs, rs_w := w3\<rparr>))"
        and cs: "r2 < 0 \<and> cs = [] \<or> r2 = int (length cs)" "src_at V b ?n w = cs @ src_at V b (?n + length cs) w3" unfolding bu by auto
      have "st2 = ?st1\<lparr>rs_m := mem_write (rs_m st) (a + ?n) cs, rs_w := w3\<rparr>" and r2: "r2 = res" using cp1 run2 by auto
      then have "rs_m st2 = mem_write (rs_m st) (a + ?n) cs" by (metis rsess.select_convs(7) rsess.surjective rsess.update_convs(7) rsess.update_convs(8))
      then show ?thesis using cs r2 pos src quiet_src[OF qu, of b ?n] S2(2) by auto
    qed
    have eq: "after_short_splice ro h segs llp buf len ?n flags st = (if res > 0 then (case ro_malloc ro ?hl w2 of
          (False, w1) \<Rightarrow> Some (Done (ENOMEM, fuse_ll_clear_pipe ro (st2\<lparr>rs_w := w1\<rparr>)))
        | (True, w1) \<Rightarrow> (case read_back ro (fst ?p) None ?hl (st2\<lparr>rs_w := w1\<rparr>) of
            (r1, s2) \<Rightarrow> if r1 \<noteq> 0 then Some (Done (r1, fuse_ll_clear_pipe ro s2))
              else (case read_back ro (fst ?p) (Some a) ?n s2 of
                (r2, st3) \<Rightarrow> if r2 \<noteq> 0 then Some (Done (r2, fuse_ll_clear_pipe ro st3))
                  else Some (Done (fuse_send_msg ro h (segs @ [mem_read (rs_m st3) a (?n + nat res)]) st3)))))
        else Some (Done (send_from_pipe ro h segs llp ?n flags st2)))"
      unfolding after_short_splice_def al Inr prod.case sum.case one_vec_init cp1 rbind_Done Let_def S2(1) ..
    show ?thesis
    proof (cases "res > 0")
      case False
      obtain r st' where run: "send_from_pipe ro h segs llp ?n flags st2 = (r, st')" by fastforce
      have "sent_ok V F st0 h segs buf0 len r st'"
        by (rule splice_out_ok[OF laws p _ _ _ _ _ _ _ goes_on_body[OF go] run]) (use pipe view l pre S2 in simp_all)
      then show ?thesis using eq False run by simp
    next
      case True
      obtain ok w3 where ma: "ro_malloc ro ?hl w2 = (ok, w3)" by fastforce
      then have q3: "quiet V w2 w3" using reply_lawsD(4)[OF laws, of w2 ?hl] by simp
      let ?st3 = "st2\<lparr>rs_w := w3\<rparr>"
      have S3: "rs_w ?st3 = w3" "rs_m ?st3 = m2" "rs_fd ?st3 = rs_fd st" "rs_pipe ?st3 = rs_pipe st" using S2 by simp_all
      have v3: "pv_refs V ?p w3 = ?hl" "pv_data V ?p w3 = body" "pv_sent V w3 = pv_sent V (rs_w st0)" using quietD[OF q3] view by simp_all
      obtain r1 st4 where rb1: "read_back ro (fst ?p) None ?hl ?st3 = (r1, st4)" by fastforce
      note R1 = read_back_ok[OF laws p rb1]
      obtain r2 st5 where rb2: "read_back ro (fst ?p) (Some a) ?n st4 = (r2, st5)" by fastforce
      note R2 = read_back_ok[OF laws p rb2]
      have none: "sent_ok V F st0 h segs buf0 len e (fuse_ll_clear_pipe ro s)" if "e \<noteq> 0" "pv_sent V (rs_w s) = pv_sent V (rs_w st0)" "rs_fd s = rs_fd st0" for e s
        using clear_pipe_ok[OF laws, of s] that by (intro sent_okI_none) simp_all
      consider "\<not> ok" | "ok" "r1 \<noteq> 0" | "ok" "r1 = 0" "r2 \<noteq> 0" | "ok" "r1 = 0" "r2 = 0" by blast
      then show ?thesis
      proof cases
        case 1
        then show ?thesis using eq True ma none[of ENOMEM ?st3] v3 pre S3 by simp
      next
        case 2
        then show ?thesis using eq True ma rb1 none[of r1 st4] R1(1,3) v3 pre S3 by simp
      next
        case 3
        then show ?thesis using eq True ma rb1 rb2 none[of r2 st5] R1(1,3) R2(1,3) v3 pre S3 by simp
      next
        case 4
        from R1(5)[OF 4(2)] v3 S3 have v4: "pv_refs V ?p (rs_w st4) = 0" "pv_data V ?p (rs_w st4) = body" "rs_m st4 = m2" by auto
        from R2(5)[OF 4(3)] v4 have v5: "pv_refs V ?p (rs_w st5) = 0" "pv_data V ?p (rs_w st5) = []" "rs_m st5 = mem_write m2 a body" by auto
        have cl: "clean V F st5" using v5 p pipe R1(2) R2(2) S3(4) by (auto simp: clean_def)
        let ?body = "mem_read (rs_m st5) a (?n + nat res)"
        obtain r st' where run: "fuse_send_msg ro h (segs @ [?body]) st5 = (r, st')" by fastforce
        have "good_body V buf0 (rs_w st0) ?body" unfolding good_body_def
        proof (intro allI impI)
          fix b assume b: "buf0 = one_vec 0 b \<and> has_flag (buf_flags b) FUSE_BUF_IS_FD"
          from cont[OF b True] obtain cs where cs: "m2 = mem_write (rs_m st) (a + ?n) cs" "res = int (length cs)" "\<exists>rest. src_at V b 0 (rs_w st0) = body @ cs @ rest" by blast
          then have "?body = body @ cs" using mem_two_parts[of body ?n cs "length cs"] v5(3) by simp
          then show "\<exists>rest. src_at V b 0 (rs_w st0) = ?body @ rest" using cs(3) by auto
        qed
        then have "sent_ok V F st0 h segs buf0 len r st'"
          using l cp(3) R1(1,3) R2(1,3) v3 pre True S3 by (intro sent_okI_msg[OF laws cl run]) auto
        then show ?thesis using eq True ma rb1 rb2 4 run by simp
      qed
    qed
  qed
qed


lemma copy_pipe_both:
  assumes laws: "source_laws (ro_os ro) V F" and p: "good_pipe F p" and v: "vec_ok F buf" and l: "len < 2 ^ 31"
  shows "\<exists>res body buf' w'. copy_into ro (one_vec 0 (pipe_buf len (snd p))) buf pipe_flags st = Some (Done (res, buf', st\<lparr>rs_w := w'\<rparr>)) \<and> length body \<le> len \<and>
    pv_data V p w' = pv_data V p (rs_w st) @ body \<and> pv_refs V p w' = pv_refs V p (rs_w st) \<and> pv_sent V w' = pv_sent V (rs_w st) \<and>
    (res < 0 \<and> body = [] \<or> res = int (length body)) \<and> vec_ok F buf' \<and>
    (\<forall>b. buf = one_vec 0 b \<and> has_flag (buf_flags b) FUSE_BUF_IS_FD \<longrightarrow> src_at V b 0 (rs_w st) = body @ src_at V b (length body) w' \<and>
       (length body < buf_size b \<or> res < 0 \<longrightarrow> buf' = one_vec (length body) b))"
proof -
  from copy_pipe[OF assms, of st] obtain res n buf' w' where cp: "copy_into ro (one_vec 0 (pipe_buf len (snd p))) buf pipe_flags st = Some (Done (res, buf', st\<lparr>rs_w := w'\<rparr>))"
    "n \<le> len" "grows V p n (rs_w st) w'" "res < 0 \<and> n = 0 \<or> res = int n" "vec_ok F buf'" by blast
  then obtain body where body: "length body = n" "pv_data V p w' = pv_data V p (rs_w st) @ body" "pv_refs V p w' = pv_refs V p (rs_w st)" "pv_sent V w' = pv_sent V (rs_w st)"
    by (auto simp: grows_def)
  have "src_at V b 0 (rs_w st) = body @ src_at V b (length body) w' \<and> (length body < buf_size b \<or> res < 0 \<longrightarrow> buf' = one_vec (length body) b)"
    if b: "buf = one_vec 0 b \<and> has_flag (buf_flags b) FUSE_BUF_IS_FD" for b
  proof -
    from copy_pipe_single[OF laws p v[unfolded conjunct1[OF b]] conjunct2[OF b] l, of st] obtain res2 n2 buf2 w2 where
      cs: "copy_into ro (one_vec 0 (pipe_buf len (snd p))) buf pipe_flags st = Some (Done (res2, buf2, st\<lparr>rs_w := w2\<rparr>))" "pushes V p b 0 n2 (rs_w st) w2"
      "res2 < 0 \<and> n2 = 0 \<or> res2 = int n2" "n2 < buf_size b \<or> res2 < 0 \<longrightarrow> buf2 = one_vec n2 b" using b by auto
    have same: "res2 = res" "buf2 = buf'" "st\<lparr>rs_w := w2\<rparr> = st\<lparr>rs_w := w'\<rparr>" using cp(1) cs(1) by auto
    then have w2: "w2 = w'" by (metis rsess.ext_inject rsess.surjective rsess.update_convs(8))
    have n2: "n2 = n" using cp(4) cs(3) same(1) by auto
    have "body = take n (src_at V b 0 (rs_w st))" "src_at V b n w' = drop n (src_at V b 0 (rs_w st))" using cs(2) body(2) w2 n2 by (simp_all add: pushes_def)
    then show ?thesis using cs(4) same n2 body(1) by (metis append_take_drop_id)
  qed
  then show ?thesis using cp body by auto
qed

lemma sent_ok_transfer:
  assumes "sent_ok V F st1 h segs buf1 len r st'" and "pv_sent V (rs_w st1) = pv_sent V (rs_w st0)" and "rs_fd st1 = rs_fd st0"
    and "\<And>body. good_body V buf1 (rs_w st1) body \<Longrightarrow> good_body V buf0 (rs_w st0) body"
  shows "sent_ok V F st0 h segs buf0 len r st'"
  using assms unfolding sent_ok_def by auto

lemma pipe_flags_fold: "FUSE_BUF_FORCE_SPLICE OR FUSE_BUF_SPLICE_NONBLOCK = pipe_flags"
  by (simp add: pipe_flags_def)

lemma send_spliced_ok:
  assumes laws: "reply_laws ro V F" and p: "good_pipe F (llp_pipe llp)" and pipe: "rs_pipe st = Some l0" "llp_pipe l0 = llp_pipe llp" and cl: "clean V F st"
    and v: "vec_ok F buf" and l: "32 + sum_list (map length segs) + len < 2 ^ 31" and len: "\<And>b. buf = one_vec 0 b \<Longrightarrow> len = buf_size b"
  shows "\<exists>r st'. send_spliced ro h segs llp buf len flags st = Some (Done (r, st')) \<and> sent_ok V F st h segs buf len r st'"
proof -
  let ?p = "llp_pipe llp" and ?hl = "32 + sum_list (map length segs)"
  have empty: "pv_refs V ?p (rs_w st) = 0" "pv_data V ?p (rs_w st) = []" using cl pipe by (simp_all add: clean_def)
  obtain x w where call: "ro_vmsplice ro (snd ?p) (concat (hdr_bytes h # segs)) (rs_w st) = (x, w)" by fastforce
  have law: "vmsplice_result V ?p (rs_w st) (x, w)" unfolding call[symmetric] by (rule reply_lawsD(10)[OF laws p])
  let ?st1 = "st\<lparr>rs_w := w\<rparr>"
  show ?thesis
  proof (cases x)
    case (Inl e)
    then have qu: "quiet V (rs_w st) w" using law by simp
    have "clean V F ?st1" by (rule clean_same[OF cl]) (simp_all add: quiet_same[OF qu])
    from fallback_ok[OF laws this v l, of h] obtain r st' where f: "fuse_send_data_iov_fallback ro h segs buf len ?st1 = Some (Done (r, st'))" "sent_ok V F ?st1 h segs buf len r st'" by blast
    have "sent_ok V F st h segs buf len r st'" by (rule sent_ok_transfer[OF f(2)]) (use quietD[OF qu] good_body_quiet[OF qu] in simp_all)
    then show ?thesis using f(1) Inl call by (simp add: send_spliced_def)
  next
    case (Inr n)
    have v1: "pv_sent V w = pv_sent V (rs_w st)" "\<And>b off. src_at V b off w = src_at V b off (rs_w st)" "pv_refs V ?p w = n" "pv_data V ?p w = []"
      using law Inr empty by (simp_all add: src_at_def)
    have none: "sent_ok V F st h segs buf len e (fuse_ll_clear_pipe ro s)" if "e \<noteq> 0" "pv_sent V (rs_w s) = pv_sent V (rs_w st)" "rs_fd s = rs_fd st" for e s
      using clear_pipe_ok[OF laws, of s] that by (intro sent_okI_none) simp_all
    show ?thesis
    proof (cases "n = ?hl")
      case False
      then show ?thesis using none[of "- EIO" ?st1] v1(1) Inr call by (simp add: send_spliced_def)
    next
      case True
      have ll: "len < 2 ^ 31" using l by simp
      from copy_pipe_both[OF reply_lawsD(1)[OF laws] p v ll, of ?st1] obtain res body buf1 w2 where
        cp: "copy_into ro (one_vec 0 (pipe_buf len (snd ?p))) buf pipe_flags ?st1 = Some (Done (res, buf1, ?st1\<lparr>rs_w := w2\<rparr>))"
        and b: "length body \<le> len" "pv_data V ?p w2 = body" "pv_refs V ?p w2 = ?hl" "pv_sent V w2 = pv_sent V (rs_w st)" "res < 0 \<and> body = [] \<or> res = int (length body)" "vec_ok F buf1"
        and src: "\<And>b. buf = one_vec 0 b \<and> has_flag (buf_flags b) FUSE_BUF_IS_FD \<Longrightarrow> src_at V b 0 (rs_w st) = body @ src_at V b (length body) w2 \<and>
           (length body < len \<or> res < 0 \<longrightarrow> buf1 = one_vec (length body) b)" using v1 True len by auto
      define st2 where "st2 = ?st1\<lparr>rs_w := w2\<rparr>"
      have S2: "rs_w st2 = w2" "rs_fd st2 = rs_fd st" "rs_pipe st2 = rs_pipe st" by (simp_all add: st2_def)
      have eq: "send_spliced ro h segs llp buf len flags st = (if res < 0 then
            if res = - EAGAIN \<or> res = - EINVAL then
              (let st3 = (if res = - EAGAIN then st2\<lparr>rs_broken_splice := True\<rparr> else st2)
               in fuse_send_data_iov_fallback ro h segs buf1 len (fuse_ll_pipe_free ro llp (st3\<lparr>rs_pipe := None\<rparr>)))
            else Some (Done (- res, fuse_ll_clear_pipe ro st2))
          else if res \<noteq> 0 \<and> nat res < len then after_short_splice ro h segs llp buf1 len (nat res) flags st2
          else Some (Done (send_from_pipe ro h segs llp (nat res) flags st2)))"
        unfolding send_spliced_def call Inr prod.case sum.case one_vec_init pipe_flags_fold cp[folded st2_def] rbind_Done True by simp
      have pipe2: "\<exists>l. rs_pipe st2 = Some l \<and> llp_pipe l = ?p" using S2(3) pipe by simp
      consider "res < 0" "res = - EAGAIN \<or> res = - EINVAL" | "res < 0" "\<not> (res = - EAGAIN \<or> res = - EINVAL)" | "0 < res" "length body < len" | "0 \<le> res" "\<not> (res \<noteq> 0 \<and> nat res < len)"
        using b(5) by fastforce
      then show ?thesis
      proof cases
        case 1
        define st3 where "st3 = fuse_ll_pipe_free ro llp ((if res = - EAGAIN then st2\<lparr>rs_broken_splice := True\<rparr> else st2)\<lparr>rs_pipe := None\<rparr>)"
        have qu: "quiet V w2 (rs_w st3)" using S2(1) reply_lawsD(5)[OF laws] by (auto simp: st3_def fuse_ll_pipe_free_def intro: quiet_trans)
        have S3: "rs_pipe st3 = None" "rs_fd st3 = rs_fd st" using S2 by (simp_all add: st3_def fuse_ll_pipe_free_def)
        then have "clean V F st3" by (simp add: clean_def)
        from fallback_ok[OF laws this b(6) l, of h] obtain r st' where f: "fuse_send_data_iov_fallback ro h segs buf1 len st3 = Some (Done (r, st'))" "sent_ok V F st3 h segs buf1 len r st'" by blast
        have "sent_ok V F st h segs buf len r st'"
        proof (rule sent_ok_transfer[OF f(2)])
          show "pv_sent V (rs_w st3) = pv_sent V (rs_w st)" using quietD[OF qu] b(4) by simp
          show "rs_fd st3 = rs_fd st" by (rule S3(2))
          fix bd assume gb: "good_body V buf1 (rs_w st3) bd"
          show "good_body V buf (rs_w st) bd" unfolding good_body_def
          proof (intro allI impI)
            fix c assume c: "buf = one_vec 0 c \<and> has_flag (buf_flags c) FUSE_BUF_IS_FD"
            have "body = []" using 1(1) b(5) by auto
            then have "buf1 = one_vec 0 c" "src_at V c 0 (rs_w st) = src_at V c 0 w2" using src[OF c] 1(1) by auto
            then show "\<exists>rest. src_at V c 0 (rs_w st) = bd @ rest" using gb c quiet_src[OF qu] by (auto simp: good_body_def)
          qed
        qed
        then show ?thesis using eq 1 f(1) by (auto simp: st3_def)
      next
        case 2
        then show ?thesis using eq none[of "- res" st2] S2 b(4) by simp
      next
        case 3
        then have n: "nat res = length body" using b(5) by auto
        have "goes_on V buf (rs_w st) body buf1 (rs_w st2)" using src 3(2) S2(1) by (auto simp: goes_on_def)
        from after_short_ok[OF laws p pipe2 _ _ l 3(2) _ _ b(6) this, of h flags] b(2-4) S2
        have "\<exists>r st'. after_short_splice ro h segs llp buf1 len (length body) flags st2 = Some (Done (r, st')) \<and> sent_ok V F st h segs buf len r st'" by simp
        then show ?thesis using eq 3 n by auto
      next
        case 4
        then have n: "nat res = length body" using b(5) by auto
        obtain r st' where run: "send_from_pipe ro h segs llp (length body) flags st2 = (r, st')" by fastforce
        have gb: "good_body V buf (rs_w st) body" using src by (auto simp: good_body_def)
        have "sent_ok V F st h segs buf len r st'" by (rule splice_out_ok[OF laws p pipe2 _ _ _ b(1) _ _ gb run]) (use b l S2 in simp_all)
        then show ?thesis using eq 4 n run by auto
      qed
    qed
  qed
qed


lemma get_pipe_ok:
  assumes laws: "reply_laws ro V F" and cl: "clean V F st"
  shows "clean V F (fuse_ll_get_pipe ro st)" and "quiet V (rs_w st) (rs_w (fuse_ll_get_pipe ro st))" and "rs_fd (fuse_ll_get_pipe ro st) = rs_fd st"
proof -
  obtain ok w where ma: "ro_malloc ro 24 (rs_w st) = (ok, w)" by fastforce
  obtain x w1 where pi: "ro_pipe ro w = (x, w1)" by fastforce
  have q: "quiet V (rs_w st) w" "quiet V w w1" using reply_lawsD(4)[OF laws, of "rs_w st" 24] reply_lawsD(8)[OF laws, of w] ma pi by simp_all
  then have q2: "quiet V (rs_w st) w1" by (rule quiet_trans)
  have new: "good_pipe F p \<and> pv_refs V p w1 = 0 \<and> pv_data V p w1 = []" if "x = Some p" for p
    using reply_lawsD(9)[OF laws, of w p] pi that quietD[OF q(2), of p] by simp
  show "clean V F (fuse_ll_get_pipe ro st)" "quiet V (rs_w st) (rs_w (fuse_ll_get_pipe ro st))" "rs_fd (fuse_ll_get_pipe ro st) = rs_fd st"
    using cl ma pi q q2 new by (cases "rs_pipe st"; cases ok; cases x; simp add: fuse_ll_get_pipe_def clean_def)+
qed

lemma pipe_fits_ok:
  assumes laws: "reply_laws ro V F" and cl: "clean V F st" and pipe: "rs_pipe st = Some llp" and run: "pipe_fits ro llp n st = (fits, st')"
  shows "clean V F st'" and "quiet V (rs_w st) (rs_w st')" and "rs_fd st' = rs_fd st" and "\<exists>l. rs_pipe st' = Some l \<and> llp_pipe l = llp_pipe llp"
proof -
  obtain x w where sp: "ro_setpipe ro (fst (llp_pipe llp)) n (rs_w st) = (x, w)" by fastforce
  obtain res w1 where gr: "grow_pipe_to_max ro (fst (llp_pipe llp)) w = (res, w1)" by fastforce
  have q: "quiet V (rs_w st) w" using reply_lawsD(6)[OF laws, of "rs_w st" "fst (llp_pipe llp)" n] sp by simp
  have "quiet V w w1"
  proof -
    obtain y w2 where pm: "ro_pipemax ro w = (y, w2)" by fastforce
    have "quiet V w w2" using reply_lawsD(7)[OF laws, of w] pm by simp
    moreover have "quiet V w2 (snd (ro_setpipe ro (fst (llp_pipe llp)) k w2))" for k by (rule reply_lawsD(6)[OF laws])
    ultimately show ?thesis using gr pm by (auto simp: grow_pipe_to_max_def split: sum.splits prod.splits intro: quiet_trans) (metis quiet_trans snd_conv)+
  qed
  then have q2: "quiet V (rs_w st) w1" by (rule quiet_trans[OF q])
  show Q: "quiet V (rs_w st) (rs_w st')" and "rs_fd st' = rs_fd st" and P: "\<exists>l. rs_pipe st' = Some l \<and> llp_pipe l = llp_pipe llp"
    using run sp gr q q2 pipe by (auto simp: pipe_fits_def split: if_splits sum.splits)
  from P cl pipe quietD[OF Q, of "llp_pipe llp"] show "clean V F st'" by (auto simp: clean_def)
qed

lemma fd_section_ok:
  assumes laws: "reply_laws ro V F" and cl: "clean V F st" and v: "vec_ok F buf" and run: "fd_section ro h buf st = (h', buf', st')"
  shows "clean V F st'" and "quiet V (rs_w st) (rs_w st')" and "rs_fd st' = rs_fd st" and "rs_pipe st' = rs_pipe st" and "vec_ok F buf'"
    and "rh_unique h' = rh_unique h \<and> rh_error h' = rh_error h \<and> rh_len h' = rh_len h" and "fuse_buf_size buf' = fuse_buf_size buf"
    and "\<And>w body. good_body V buf' w body \<Longrightarrow> good_body V buf w body"
    and "bv_buf buf \<noteq> [] \<Longrightarrow> has_flag (buf_flags (bv_buf buf ! 0)) FUSE_BUF_FD_SECTION \<Longrightarrow>
      rh_header h' = u32 (buf_metadata (bv_buf buf ! 0)) \<and> rh_footer h' = u32 (buf_footer (bv_buf buf ! 0))"
proof -
  let ?b = "bv_buf buf ! 0" and ?n = "u32 (u32 (buf_metadata (bv_buf buf ! 0)) + u32 (buf_footer (bv_buf buf ! 0)))"
  obtain x w where al: "ro_memalign ro ?n (rs_w st) = (x, w)" by fastforce
  have q: "quiet V (rs_w st) w" using reply_lawsD(2)[OF laws, of "rs_w st" ?n] al by simp
  show Q: "quiet V (rs_w st) (rs_w st')" and "rs_fd st' = rs_fd st" and P: "rs_pipe st' = rs_pipe st" and "rh_unique h' = rh_unique h \<and> rh_error h' = rh_error h \<and> rh_len h' = rh_len h"
    using run al q by (auto simp: fd_section_def Let_def split: if_splits)
  show "clean V F st'" by (rule clean_same[OF cl quiet_same[OF Q] P])
  have bb: "\<exists>a. buf' = buf\<lparr>bv_buf := (bv_buf buf)[0 := ?b\<lparr>buf_mem := a\<rparr>]\<rparr>" if "bv_buf buf \<noteq> []"
  proof (cases "has_flag (buf_flags ?b) FUSE_BUF_FD_SECTION")
    case False
    then have "buf' = buf" using run by (simp add: fd_section_def Let_def)
    then show ?thesis using that by (intro exI[of _ "buf_mem ?b"]) simp
  qed (use run al in \<open>auto simp: fd_section_def Let_def\<close>)
  show "vec_ok F buf'"
  proof (cases "bv_buf buf = []")
    case True
    then have "bv_buf buf' = []" "bv_count buf' = bv_count buf" "bv_idx buf' = bv_idx buf" "bv_off buf' = bv_off buf"
      using run by (auto simp: fd_section_def Let_def split: if_splits prod.splits)
    then show ?thesis using v True by (simp add: vec_ok_def bufvec_ok_def pieces_def)
  next
    case False
    then obtain b0 bs where B: "bv_buf buf = b0 # bs" by (cases "bv_buf buf") auto
    then obtain a where b': "buf' = buf\<lparr>bv_buf := b0\<lparr>buf_mem := a\<rparr> # bs\<rparr>" using bb by auto
    show ?thesis using v B unfolding vec_ok_def bufvec_ok_def b' by (cases "bv_idx buf") (auto simp: pieces_def src_buf_def)
  qed
  show "fuse_buf_size buf' = fuse_buf_size buf"
  proof (cases "bv_buf buf = []")
    case True
    then have "bv_buf buf' = []" using run by (auto simp: fd_section_def Let_def split: if_splits prod.splits)
    then show ?thesis using True by (simp add: fuse_buf_size_def)
  next
    case False
    then obtain b0 bs where B: "bv_buf buf = b0 # bs" by (cases "bv_buf buf") auto
    then obtain a where "buf' = buf\<lparr>bv_buf := b0\<lparr>buf_mem := a\<rparr> # bs\<rparr>" using bb by auto
    then show ?thesis using B by (cases "bv_count buf") (simp_all add: fuse_buf_size_def)
  qed
  show "good_body V buf w' body" if gb: "good_body V buf' w' body" for w' body unfolding good_body_def
  proof (intro allI impI)
    fix b assume b: "buf = one_vec 0 b \<and> has_flag (buf_flags b) FUSE_BUF_IS_FD"
    then obtain a where "buf' = one_vec 0 (b\<lparr>buf_mem := a\<rparr>)" using bb by (auto simp: one_vec_def)
    then have "\<exists>rest. src_at V (b\<lparr>buf_mem := a\<rparr>) 0 w' = body @ rest" using gb b by (auto simp: good_body_def)
    moreover have "src_at V (b\<lparr>buf_mem := a\<rparr>) 0 w' = src_at V b 0 w'" by (simp add: src_at_def spos_def)
    ultimately show "\<exists>rest. src_at V b 0 w' = body @ rest" by simp
  qed
  show "rh_header h' = u32 (buf_metadata ?b) \<and> rh_footer h' = u32 (buf_footer ?b)" if "has_flag (buf_flags ?b) FUSE_BUF_FD_SECTION"
    using run al that by (auto simp: fd_section_def Let_def)
qed


lemma send_data_ok:
  assumes laws: "reply_laws ro V F" and cl: "clean V F st" and v: "vec_ok F buf" and ne: "bv_buf buf \<noteq> []" and l: "32 + sum_list (map length segs) + fuse_buf_size buf < 2 ^ 31"
  shows "\<exists>r st' h'. fuse_send_data_iov ro h segs buf flags st = Some (Done (r, st')) \<and> rh_unique h' = rh_unique h \<and> rh_error h' = rh_error h \<and>
    (rh_header h' = rh_header h \<and> rh_footer h' = rh_footer h \<or> has_flag (buf_flags (bv_buf buf ! 0)) FUSE_BUF_FD_SECTION \<and>
       rh_header h' = u32 (buf_metadata (bv_buf buf ! 0)) \<and> rh_footer h' = u32 (buf_footer (bv_buf buf ! 0))) \<and>
    sent_ok V F st h' segs buf (fuse_buf_size buf) r st'"
proof -
  let ?len = "fuse_buf_size buf"
  let ?skip = "rs_broken_splice st \<or> has_flag flags FUSE_BUF_NO_SPLICE \<or> bufs_left buf < 2 * PAGE_SIZE \<or> rs_proto_minor st < 14 \<or> \<not> rs_want_splice_write st"
  let ?st1 = "fuse_ll_get_pipe ro st"
  note g = get_pipe_ok[OF laws cl]
  show ?thesis
  proof (cases "?skip \<or> rs_pipe ?st1 = None")
    case True
    define s where "s = (if ?skip then st else ?st1)"
    have S: "clean V F s" "quiet V (rs_w st) (rs_w s)" "rs_fd s = rs_fd st" using g cl by (simp_all add: s_def)
    from fallback_ok[OF laws S(1) v l, of h] obtain r st' where f: "fuse_send_data_iov_fallback ro h segs buf ?len s = Some (Done (r, st'))" "sent_ok V F s h segs buf ?len r st'" by blast
    have "sent_ok V F st h segs buf ?len r st'" by (rule sent_ok_transfer[OF f(2)]) (use quietD[OF S(2)] good_body_quiet[OF S(2)] S(3) in simp_all)
    moreover have "fuse_send_data_iov ro h segs buf flags st = Some (Done (r, st'))" using True f(1) by (auto simp: fuse_send_data_iov_def Let_def s_def)
    ultimately show ?thesis by blast
  next
    case False
    then obtain llp where llp: "rs_pipe ?st1 = Some llp" by auto
    let ?h1 = "h\<lparr>rh_len := u32 (32 + sum_list (map length segs) + ?len)\<rparr>"
    obtain h2 buf2 st2 where fs: "fd_section ro ?h1 buf ?st1 = (h2, buf2, st2)" by (cases "fd_section ro ?h1 buf ?st1")
    note S2 = fd_section_ok[OF laws g(1) v fs]
    obtain fits st3 where pf: "pipe_fits ro llp (PAGE_SIZE * (1 + length segs + bv_count buf + 1) + rh_len h2) st2 = (fits, st3)" by fastforce
    have pipe2: "rs_pipe st2 = Some llp" using S2(4) llp by simp
    note S3 = pipe_fits_ok[OF laws S2(1) pipe2 pf]
    have gp: "good_pipe F (llp_pipe llp)" using S2(1) pipe2 by (simp add: clean_def)
    have l2: "32 + sum_list (map length segs) + fuse_buf_size buf2 < 2 ^ 31" using l S2(7) by simp
    have qu: "quiet V (rs_w st) (rs_w st3)" using quiet_trans[OF g(2) quiet_trans[OF S2(2) S3(2)]] .
    have single: "fuse_buf_size buf2 = buf_size b" if "buf2 = one_vec 0 b" for b
      using S2(5) that by (auto simp: fuse_buf_size_def vec_ok_def bufvec_ok_def SIZE_MAX_def csimps)
    obtain r st' where run: "(if fits then send_spliced ro h2 segs llp buf2 ?len flags st3 else fuse_send_data_iov_fallback ro h2 segs buf2 ?len st3) = Some (Done (r, st'))"
      and so: "sent_ok V F st3 h2 segs buf2 ?len r st'"
    proof (cases fits)
      case True
      obtain l0 where l0: "rs_pipe st3 = Some l0" "llp_pipe l0 = llp_pipe llp" using S3(4) by blast
      show ?thesis using send_spliced_ok[OF laws gp l0 S3(1) S2(5) l2 single, of h2 flags] that True S2(7) by auto
    next
      case False
      show ?thesis using fallback_ok[OF laws S3(1) S2(5) l2, of h2] that False S2(7) by auto
    qed
    have "sent_ok V F st h2 segs buf ?len r st'"
      by (rule sent_ok_transfer[OF so]) (use quietD[OF qu] good_body_quiet[OF qu] S2(3,8) S3(3) g(3) in simp_all)
    moreover have "fuse_send_data_iov ro h segs buf flags st = Some (Done (r, st'))"
      using False llp fs pf run by (auto simp: fuse_send_data_iov_def Let_def)
    moreover have "rh_header h2 = rh_header h \<and> rh_footer h2 = rh_footer h" if "\<not> has_flag (buf_flags (bv_buf buf ! 0)) FUSE_BUF_FD_SECTION"
      using fs that by (auto simp: fd_section_def Let_def)
    ultimately show ?thesis using S2(6) S2(9)[OF ne] by (cases "has_flag (buf_flags (bv_buf buf ! 0)) FUSE_BUF_FD_SECTION") auto
  qed
qed

subsection \<open>Properties\<close>

text \<open>The kernel finds in the first four bytes the length of the message.\<close>

lemma framed_length:
  assumes "32 + length body < 2 ^ 32"
  shows "length (framed h [] body) = 32 + length body" and "le_val (take 4 (framed h [] body)) = length (framed h [] body)"
  using assms by (simp_all add: framed_def hdr_bytes_def le_val_bytes)



text \<open>A kernel with one stream (descriptor 3) and one pipe; the state is the bytes of the pipe that are references, its data, the
  messages sent and the rest of the stream.\<close>

type_synonym demo_kernel = "nat \<times> byte list \<times> byte list list \<times> byte list"

definition demo_os :: "demo_kernel os" where
  "demo_os = \<lparr>os_write = (\<lambda>fd bs (r, d, s, f). (Inr (length bs), (r, d @ bs, s, f))),
     os_pwrite = (\<lambda>fd bs x w. (Inl EINVAL, w)),
     os_read = (\<lambda>fd n (r, d, s, f). if fd = 3 then (Inr (take n f), (r, d, s, drop n f))
       else (Inr (replicate (min n r) 0 @ take (n - r) d), (r - (min n r + length (take (n - r) d)), drop (n - r) d, s, f))),
     os_pread = (\<lambda>fd n x w. (Inr [], w)),
     os_splice = (\<lambda>i sp j dp n fl (r, d, s, f). if sp = None then (Inr (length (take n f), None, None), (r, d @ take n f, s, drop n f)) else (Inr (0, sp, None), (r, d, s, f)))\<rparr>"

definition demo_ros :: "demo_kernel ros" where
  "demo_ros = \<lparr>ro_os = demo_os, ro_pipe = (\<lambda>(r, d, s, f). (if r = 0 \<and> d = [] then Some (4, 5) else None, (r, d, s, f))), ro_close = (\<lambda>fd w. w),
     ro_setpipe = (\<lambda>fd n w. (Inr n, w)), ro_pipemax = (\<lambda>w. (Inr 1048576, w)),
     ro_vmsplice = (\<lambda>fd bs (r, d, s, f). (Inr (length bs), if r = 0 \<and> d = [] then (length bs, [], s, f) else (r, d, s, f))),
     ro_splice_out = (\<lambda>hb fd dev n fl (r, d, s, f). (Inr n, (r - n, drop (n - r) d, s @ [take n (take r hb @ d)], f))),
     ro_writev = (\<lambda>fd segs (r, d, s, f). (Inr (length (concat segs)), (r, d, s @ [concat segs], f))),
     ro_memalign = (\<lambda>n w. (Inr 65536, w)), ro_malloc = (\<lambda>n w. (True, w))\<rparr>"

definition demo_view :: "demo_kernel pview" where
  "demo_view = \<lparr>pv_refs = (\<lambda>p (r, d, s, f). r), pv_data = (\<lambda>p (r, d, s, f). d), pv_sent = (\<lambda>(r, d, s, f). s),
     pv_src = (\<lambda>fd sp (r, d, s, f). if sp = None then f else [])\<rparr>"

lemma demo_source_laws: "source_laws demo_os demo_view {3}"
  by (auto simp: source_laws_def demo_os_def demo_view_def os_ok_def same_view_def good_pipe_def min_def)

lemma demo_laws: "reply_laws demo_ros demo_view {3}"
proof -
  have "pipe_read_result demo_view p w (os_read demo_os (fst p) n w)" if "good_pipe {3} p" for p n w
    using that by (cases w) (auto simp: demo_os_def demo_view_def good_pipe_def min_def)
  then show ?thesis using demo_source_laws
    by (auto simp: reply_laws_def demo_ros_def demo_view_def quiet_def same_view_def good_pipe_def)
qed

definition demo_vec :: fuse_bufvec where
  "demo_vec = one_vec 0 (fd_buf FUSE_BUF_IS_FD 9000 3)"

definition demo_sess :: "demo_kernel rsess" where
  "demo_sess = \<lparr>rs_broken_splice = False, rs_proto_minor = 31, rs_want_splice_write = True, rs_want_splice_move = False, rs_fd = 7, rs_pipe = None,
     rs_m = (\<lambda>_. 0), rs_w = (0, [], [], replicate 9000 1)\<rparr>"


end
