(* ===== verification/Fuse_Path.thy ===== *)
theory Fuse_Path
  imports Fuse_Nodes
begin

text \<open>
  Path construction and path locking of the high-level library (\<open>lib/fuse.c\<close>, \<open>add_name\<close> to
  \<open>free_path2\<close>). A path is written backwards into a growing buffer while the parents of a node
  are read-locked one by one; a rename or an unlink also write-locks the node itself.

  The buffer is the list of its bytes, \<open>s\<close> an index into it. What \<open>malloc\<close> and \<open>realloc\<close>
  return is decided by arguments; \<open>junk\<close> is the content of fresh memory. A loop that may not
  end (a cyclic parent chain, a path of 4 GiB) is a partial function: \<open>None\<close> is
  non-termination. \<open>treelock\<close>, an \<open>int\<close>, is an integer; the theorems bound the number of locks
  held by \<open>2 ^ 31 - 2\<close>, so it never overflows, and a waiting writer is never mistaken for
  \<open>TREELOCK_WRITE\<close>.
\<close>

subsection \<open>The path buffer\<close>

record path_buf =
  pb_buf :: string
  pb_s :: nat

partial_function (option) grow_bufsize :: "nat \<Rightarrow> nat \<Rightarrow> nat option" where
  "grow_bufsize need newbufsize =
     (if newbufsize < need
      then grow_bufsize need (if 0x80000000 \<le> newbufsize then 0xffffffff else 2 * newbufsize)
      else Some newbufsize)"

text \<open>The state of the allocator: does the next \<open>realloc\<close> (of this size) succeed, and what is in
  fresh memory.\<close>

record heap_env =
  malloc_ok :: bool
  realloc_ok :: "nat \<Rightarrow> bool"
  junk :: char

text \<open>\<open>add_name\<close>: \<open>None\<close> if it does not return, \<open>Some None\<close> for a \<open>NULL\<close> result.\<close>

definition add_name :: "heap_env \<Rightarrow> path_buf \<Rightarrow> string \<Rightarrow> path_buf option option" where
  "add_name he b name =
     (let len = length name;
          put = (\<lambda>buf s. Some (Some \<lparr>pb_buf = take (s - len - 1) buf @ ''/'' @ name @ drop s buf, pb_s = s - len - 1\<rparr>))
      in if pb_s b \<le> len
         then (let bufsize = length (pb_buf b); pathlen = bufsize - pb_s b in
               case grow_bufsize (pathlen + len + 1) bufsize of
                 None \<Rightarrow> None
               | Some newbufsize \<Rightarrow>
                   if \<not> realloc_ok he newbufsize then Some None
                   else (let newbuf = pb_buf b @ replicate (newbufsize - bufsize) (junk he);
                             s = newbufsize - pathlen;
                             moved = take s newbuf @ take pathlen (drop (bufsize - pathlen) newbuf)
                         in put moved s))
         else put (pb_buf b) (pb_s b))"

subsection \<open>Locks\<close>

definition TREELOCK_WRITE :: int where "TREELOCK_WRITE = -1"
definition TREELOCK_WAIT_OFFSET :: int where "TREELOCK_WAIT_OFFSET = - (2 ^ 31)"

definition set_treelock :: "nat \<Rightarrow> int \<Rightarrow> fuse \<Rightarrow> fuse" where
  "set_treelock p k f = upd_node p (\<lambda>n. n\<lparr>treelock := k\<rparr>) f"

definition read_unlock_value :: "int \<Rightarrow> int" where
  "read_unlock_value t = (if t - 1 = TREELOCK_WAIT_OFFSET then 0 else t - 1)"

partial_function (option) unlock_loop :: "fuse \<Rightarrow> nat option \<Rightarrow> nat option \<Rightarrow> fuse outcome option" where
  "unlock_loop f node end =
     (if node = end then Some (Done f)
      else case node of
        None \<Rightarrow> Some Aborted
      | Some p \<Rightarrow>
        (case f_nodes f p of
           None \<Rightarrow> Some Aborted
         | Some n \<Rightarrow>
             if nodeid n = FUSE_ROOT_ID then Some (Done f)
             else if treelock n = 0 \<or> treelock n = TREELOCK_WAIT_OFFSET \<or> treelock n = TREELOCK_WRITE
             then Some Aborted
             else unlock_loop (set_treelock p (read_unlock_value (treelock n)) f) (n_parent n) end))"

definition unlock_path :: "fuse \<Rightarrow> 64 word \<Rightarrow> nat option \<Rightarrow> nat option \<Rightarrow> fuse outcome option" where
  "unlock_path f ino wnode end =
     (let f1 = (case wnode of
            None \<Rightarrow> Done f
          | Some w \<Rightarrow> (case f_nodes f w of
                None \<Rightarrow> Aborted
              | Some n \<Rightarrow> if treelock n = TREELOCK_WRITE then Done (set_treelock w 0 f) else Aborted))
      in case f1 of
           Aborted \<Rightarrow> Some Aborted
         | Done f2 \<Rightarrow> (case get_node f2 ino of Aborted \<Rightarrow> Some Aborted | Done p \<Rightarrow> unlock_loop f2 (Some p) end))"

text \<open>The loop of \<open>try_get_path\<close>: the result is the error code (0 at the root), and where it stopped.\<close>

partial_function (option) path_loop ::
  "heap_env \<Rightarrow> bool \<Rightarrow> fuse \<Rightarrow> nat \<Rightarrow> path_buf \<Rightarrow> (int \<times> fuse \<times> nat \<times> path_buf) outcome option" where
  "path_loop he need_lock f p b =
     (case f_nodes f p of
        None \<Rightarrow> Some Aborted
      | Some n \<Rightarrow>
          if nodeid n = FUSE_ROOT_ID then Some (Done (0, f, p, b))
          else (case n_name n of
             None \<Rightarrow> Some (Done (- ESTALE, f, p, b))
           | Some nm \<Rightarrow>
             (case n_parent n of
                None \<Rightarrow> Some (Done (- ESTALE, f, p, b))
              | Some pp \<Rightarrow>
                (case add_name he b nm of
                   None \<Rightarrow> None
                 | Some None \<Rightarrow> Some (Done (- ENOMEM, f, p, b))
                 | Some (Some b') \<Rightarrow>
                     if need_lock then
                       (if treelock n < 0 then Some (Done (- EAGAIN, f, p, b'))
                        else path_loop he need_lock (set_treelock p (treelock n + 1) f) pp b')
                     else path_loop he need_lock f pp b'))))"

text \<open>The write lock of \<open>try_get_path\<close>: \<open>Inl err\<close> with the state when the node is busy, else the
  node that was locked, if it is cached.\<close>

definition write_lock :: "fuse \<Rightarrow> 64 word \<Rightarrow> string \<Rightarrow> ((int + nat option) \<times> fuse) outcome" where
  "write_lock f ino name =
     (case lookup_node f ino name of
        None \<Rightarrow> Done (Inr None, f)
      | Some w \<Rightarrow>
        (case f_nodes f w of
           None \<Rightarrow> Aborted
         | Some n \<Rightarrow>
             if treelock n \<noteq> 0
             then Done (Inl (- EAGAIN),
                    if 0 < treelock n then set_treelock w (treelock n + TREELOCK_WAIT_OFFSET) f else f)
             else Done (Inr (Some w), set_treelock w TREELOCK_WRITE f)))"

record path_result =
  pr_err :: int
  pr_path :: "string option"
  pr_wnode :: "nat option"
  pr_fuse :: fuse

definition path_fail :: "int \<Rightarrow> fuse \<Rightarrow> path_result" where
  "path_fail err f = \<lparr>pr_err = err, pr_path = None, pr_wnode = None, pr_fuse = f\<rparr>"

text \<open>The C string in a buffer.\<close>

definition c_string :: "string \<Rightarrow> string" where
  "c_string bs = takeWhile (\<lambda>c. c \<noteq> CHR 0x00) bs"

definition finish_path :: "path_buf \<Rightarrow> string" where
  "finish_path b = (let str = c_string (drop (pb_s b) (pb_buf b)) in if str \<noteq> [] then str else ''/'')"

definition init_path_buf :: "heap_env \<Rightarrow> path_buf" where
  "init_path_buf he = \<lparr>pb_buf = replicate 255 (junk he) @ [CHR 0x00], pb_s = 255\<rparr>"

definition try_get_path ::
  "heap_env \<Rightarrow> fuse \<Rightarrow> 64 word \<Rightarrow> string option \<Rightarrow> bool \<Rightarrow> bool \<Rightarrow> path_result outcome option" where
  "try_get_path he f ino name want_wnode need_lock =
     (if \<not> malloc_ok he then Some (Done (path_fail (- ENOMEM) f))
      else case (case name of None \<Rightarrow> Some (Some (init_path_buf he)) | Some nm \<Rightarrow> add_name he (init_path_buf he) nm) of
        None \<Rightarrow> None
      | Some None \<Rightarrow> Some (Done (path_fail (- ENOMEM) f))
      | Some (Some b) \<Rightarrow>
        (case (if want_wnode then (if need_lock then write_lock f ino (case name of Some nm \<Rightarrow> nm | None \<Rightarrow> []) else Aborted)
               else Done (Inr None, f)) of
           Aborted \<Rightarrow> Some Aborted
         | Done (Inl err, f1) \<Rightarrow> Some (Done (path_fail err f1))
         | Done (Inr wnode, f1) \<Rightarrow>
           (case get_node f1 ino of
              Aborted \<Rightarrow> Some Aborted
            | Done p \<Rightarrow>
              (case path_loop he need_lock f1 p b of
                 None \<Rightarrow> None
               | Some Aborted \<Rightarrow> Some Aborted
               | Some (Done (err, f2, q, b')) \<Rightarrow>
                   if err = 0
                   then Some (Done \<lparr>pr_err = 0, pr_path = Some (finish_path b'), pr_wnode = wnode, pr_fuse = f2\<rparr>)
                   else if need_lock
                   then (case unlock_path f2 ino wnode (Some q) of
                           None \<Rightarrow> None
                         | Some Aborted \<Rightarrow> Some Aborted
                         | Some (Done f3) \<Rightarrow> Some (Done (path_fail err f3)))
                   else Some (Done (path_fail err f2))))))"

definition try_get_path2 ::
  "heap_env \<Rightarrow> heap_env \<Rightarrow> fuse \<Rightarrow> 64 word \<Rightarrow> string option \<Rightarrow> 64 word \<Rightarrow> string option \<Rightarrow> bool \<Rightarrow> bool \<Rightarrow>
   (path_result \<times> path_result) outcome option" where
  "try_get_path2 he1 he2 f ino1 name1 ino2 name2 want1 want2 =
     (case try_get_path he1 f ino1 name1 want1 True of
        None \<Rightarrow> None
      | Some Aborted \<Rightarrow> Some Aborted
      | Some (Done r1) \<Rightarrow>
          if pr_err r1 \<noteq> 0 then Some (Done (r1, r1))
          else (case try_get_path he2 (pr_fuse r1) ino2 name2 want2 True of
             None \<Rightarrow> None
           | Some Aborted \<Rightarrow> Some Aborted
           | Some (Done r2) \<Rightarrow>
               if pr_err r2 \<noteq> 0
               then (case unlock_path (pr_fuse r2) ino1 (if want1 then pr_wnode r1 else None) None of
                       None \<Rightarrow> None
                     | Some Aborted \<Rightarrow> Some Aborted
                     | Some (Done f') \<Rightarrow> Some (Done (path_fail (pr_err r2) f', path_fail (pr_err r2) f')))
               else Some (Done (r1, r2))))"

subsection \<open>The lock queue\<close>

text \<open>
  A waiter: the arguments of its \<open>get_path_common\<close> or \<open>get_path2\<close> call (\<open>qe_path1\<close>, \<open>qe_path2\<close>: the
  path pointers are not NULL), and the outcome once it is served. A waiter of \<open>forget_node\<close> has
  no path. \<open>qe_signalled\<close> records \<open>pthread_cond_signal\<close>.
\<close>

record lock_queue_element =
  qe_nodeid1 :: "64 word"
  qe_name1 :: "string option"
  qe_path1 :: bool
  qe_wnode1 :: bool
  qe_nodeid2 :: "64 word"
  qe_name2 :: "string option"
  qe_path2 :: bool
  qe_wnode2 :: bool
  qe_err :: int
  qe_done :: bool
  qe_signalled :: bool
  qe_result :: "(path_result \<times> path_result) option"

definition queue_element_wakeup ::
  "heap_env \<Rightarrow> heap_env \<Rightarrow> fuse \<Rightarrow> lock_queue_element \<Rightarrow> (fuse \<times> lock_queue_element) outcome option" where
  "queue_element_wakeup he1 he2 f qe =
     (if \<not> qe_path1 qe
      then (case get_node f (qe_nodeid1 qe) of
              Aborted \<Rightarrow> Some Aborted
            | Done p \<Rightarrow>
              (case f_nodes f p of
                 None \<Rightarrow> Some Aborted
               | Some n \<Rightarrow> Some (Done (f, if treelock n = 0 then qe\<lparr>qe_signalled := True\<rparr> else qe))))
      else if qe_done qe then Some (Done (f, qe))
      else (case (if \<not> qe_path2 qe
                  then map_option (\<lambda>r. obind r (\<lambda>r. Done (r, r)))
                         (try_get_path he1 f (qe_nodeid1 qe) (qe_name1 qe) (qe_wnode1 qe) True)
                  else try_get_path2 he1 he2 f (qe_nodeid1 qe) (qe_name1 qe) (qe_nodeid2 qe) (qe_name2 qe)
                         (qe_wnode1 qe) (qe_wnode2 qe)) of
              None \<Rightarrow> None
            | Some Aborted \<Rightarrow> Some Aborted
            | Some (Done (r1, r2)) \<Rightarrow>
                Some (Done (pr_fuse r2,
                  if pr_err r2 = - EAGAIN then qe
                  else qe\<lparr>qe_err := pr_err r2, qe_done := True, qe_signalled := True, qe_result := Some (r1, r2)\<rparr>))))"

fun wake_up_queued :: "heap_env \<Rightarrow> heap_env \<Rightarrow> fuse \<Rightarrow> lock_queue_element list \<Rightarrow>
    (fuse \<times> lock_queue_element list) outcome option" where
  "wake_up_queued he1 he2 f [] = Some (Done (f, []))"
| "wake_up_queued he1 he2 f (qe # q) =
     (case queue_element_wakeup he1 he2 f qe of
        None \<Rightarrow> None
      | Some Aborted \<Rightarrow> Some Aborted
      | Some (Done (f1, qe')) \<Rightarrow>
        (case wake_up_queued he1 he2 f1 q of
           None \<Rightarrow> None
         | Some Aborted \<Rightarrow> Some Aborted
         | Some (Done (f2, q')) \<Rightarrow> Some (Done (f2, qe' # q'))))"

definition queue_path :: "lock_queue_element \<Rightarrow> lock_queue_element list \<Rightarrow> lock_queue_element list" where
  "queue_path qe q = q @ [qe\<lparr>qe_done := False\<rparr>]"

text \<open>\<open>get_path_common\<close> up to the point where it returns or starts to wait.\<close>

definition get_path_common ::
  "heap_env \<Rightarrow> fuse \<Rightarrow> lock_queue_element list \<Rightarrow> 64 word \<Rightarrow> string option \<Rightarrow> bool \<Rightarrow>
   (path_result option \<times> fuse \<times> lock_queue_element list) outcome option" where
  "get_path_common he f q ino name want_wnode =
     map_option (\<lambda>r. obind r (\<lambda>r.
         if pr_err r = - EAGAIN
         then Done (None, pr_fuse r, queue_path
                \<lparr>qe_nodeid1 = ino, qe_name1 = name, qe_path1 = True, qe_wnode1 = want_wnode, qe_nodeid2 = 0,
                 qe_name2 = None, qe_path2 = False, qe_wnode2 = False, qe_err = 0, qe_done = False,
                 qe_signalled = False, qe_result = None\<rparr> q)
         else Done (Some r, pr_fuse r, q)))
       (try_get_path he f ino name want_wnode True)"

definition free_path_wrlock ::
  "heap_env \<Rightarrow> heap_env \<Rightarrow> fuse \<Rightarrow> lock_queue_element list \<Rightarrow> 64 word \<Rightarrow> nat option \<Rightarrow>
   (fuse \<times> lock_queue_element list) outcome option" where
  "free_path_wrlock he1 he2 f q ino wnode =
     (case unlock_path f ino wnode None of
        None \<Rightarrow> None
      | Some Aborted \<Rightarrow> Some Aborted
      | Some (Done f1) \<Rightarrow> if q \<noteq> [] then wake_up_queued he1 he2 f1 q else Some (Done (f1, q)))"

definition free_path2 ::
  "heap_env \<Rightarrow> heap_env \<Rightarrow> fuse \<Rightarrow> lock_queue_element list \<Rightarrow> 64 word \<Rightarrow> 64 word \<Rightarrow> nat option \<Rightarrow> nat option \<Rightarrow>
   (fuse \<times> lock_queue_element list) outcome option" where
  "free_path2 he1 he2 f q ino1 ino2 wnode1 wnode2 =
     (case unlock_path f ino1 wnode1 None of
        None \<Rightarrow> None
      | Some Aborted \<Rightarrow> Some Aborted
      | Some (Done f1) \<Rightarrow>
        (case unlock_path f1 ino2 wnode2 None of
           None \<Rightarrow> None
         | Some Aborted \<Rightarrow> Some Aborted
         | Some (Done f2) \<Rightarrow> wake_up_queued he1 he2 f2 q))"

subsection \<open>The buffer holds the path\<close>

definition pb_ok :: "path_buf \<Rightarrow> bool" where
  "pb_ok b \<longleftrightarrow> pb_s b < length (pb_buf b)"

definition pb_text :: "path_buf \<Rightarrow> string" where
  "pb_text b = drop (pb_s b) (pb_buf b)"

lemma grow_bufsize_le:
  assumes "grow_bufsize need k = Some r"
  shows "need \<le> r" and "k \<le> r"
proof -
  show n: "need \<le> r"
    by (rule grow_bufsize.raw_induct[where P = "\<lambda>need k r. need \<le> r", OF _ assms]) (auto split: if_splits)
  show "k \<le> r"
  proof (cases "k < need")
    case False
    then show ?thesis using assms by (subst (asm) grow_bufsize.simps) simp
  qed (use n in simp)
qed

lemma grow_bufsize_max:
  assumes "grow_bufsize need k = Some r" and "k \<le> 0xffffffff"
  shows "r \<le> 0xffffffff"
proof -
  have "k \<le> 0xffffffff \<longrightarrow> r \<le> 0xffffffff"
    by (rule grow_bufsize.raw_induct[where P = "\<lambda>need k r. k \<le> 0xffffffff \<longrightarrow> r \<le> 0xffffffff", OF _ assms(1)])
      (auto split: if_splits)
  then show ?thesis using assms(2) by blast
qed

lemma grow_bufsize_returns:
  assumes "need \<le> 0xffffffff" and "0 < k"
  shows "\<exists>r. grow_bufsize need k = Some r"
  using assms(2)
proof (induction "need - k" arbitrary: k rule: less_induct)
  case less
  show ?case
  proof (cases "k < need")
    case True
    let ?k = "if 0x80000000 \<le> k then 0xffffffff else 2 * k"
    have "need - ?k < need - k" "0 < ?k" using True assms(1) less.prems by auto
    then show ?thesis using less.hyps[of ?k] True by (subst grow_bufsize.simps) simp
  qed (subst grow_bufsize.simps, simp)
qed

lemma drop_append_at: "length xs = n \<Longrightarrow> drop n (xs @ ys) = ys"
  by simp

lemma add_name_text:
  assumes "pb_ok b" and "add_name he b name = Some (Some b')" and "length (pb_buf b) \<le> 0xffffffff"
  shows "pb_ok b'" and "pb_text b' = ''/'' @ name @ pb_text b" and "length (pb_buf b') \<le> 0xffffffff"
proof -
  let ?l = "length name" and ?n = "length (pb_buf b)" and ?s = "pb_s b"
  have "pb_ok b' \<and> pb_text b' = ''/'' @ name @ pb_text b \<and> length (pb_buf b') \<le> 0xffffffff"
  proof (cases "?s \<le> ?l")
    case False
    then show ?thesis using assms by (auto simp: add_name_def Let_def pb_ok_def pb_text_def)
  next
    case True
    obtain m where m: "grow_bufsize (?n - ?s + ?l + 1) ?n = Some m"
      using assms(2) True by (auto simp: add_name_def Let_def split: option.splits)
    note g = grow_bufsize_le[OF m] grow_bufsize_max[OF m assms(3)]
    let ?s' = "m - (?n - ?s)" and ?nb = "pb_buf b @ replicate (m - ?n) (junk he)"
    let ?moved = "take ?s' ?nb @ take (?n - ?s) (drop (?n - (?n - ?s)) ?nb)"
    have b': "b' = \<lparr>pb_buf = take (?s' - ?l - 1) ?moved @ ''/'' @ name @ drop ?s' ?moved, pb_s = ?s' - ?l - 1\<rparr>"
      using assms(2) True m by (auto simp: add_name_def Let_def split: if_splits)
    have s: "?s < ?n" "?n \<le> m" "?l < ?s'" using assms g by (auto simp: pb_ok_def)
    have tl: "take (?n - ?s) (drop (?n - (?n - ?s)) ?nb) = drop ?s (pb_buf b)" using s by simp
    have "?s' \<le> length ?nb" using s by simp
    then have ln: "length (take ?s' ?nb) = ?s'" by (simp only: length_take min_absorb2)
    have d: "drop ?s' ?moved = drop ?s (pb_buf b)" unfolding tl by (rule drop_append_at[OF ln])
    have "?s' - ?l - 1 \<le> length ?moved" using ln by (simp only: length_append) linarith
    then have t: "length (take (?s' - ?l - 1) ?moved) = ?s' - ?l - 1" by (simp only: length_take min_absorb2)
    let ?A = "take (?s' - ?l - 1) ?moved"
    have "b' = \<lparr>pb_buf = ?A @ ''/'' @ name @ drop ?s (pb_buf b), pb_s = length ?A\<rparr>" unfolding b' d t ..
    moreover have "length ?A + 1 + ?l + (?n - ?s) = m" using t s by linarith
    ultimately obtain A where A: "b' = \<lparr>pb_buf = A @ ''/'' @ name @ drop ?s (pb_buf b), pb_s = length A\<rparr>"
      "length A + 1 + ?l + (?n - ?s) = m" by blast
    have "length (pb_buf b') = m" unfolding A(1) using A(2) by simp
    then show ?thesis using g(3) by (simp add: A(1) pb_ok_def pb_text_def)
  qed
  then show "pb_ok b'" "pb_text b' = ''/'' @ name @ pb_text b" "length (pb_buf b') \<le> 0xffffffff" by auto
qed

text \<open>Allocations succeed and the path fits: the number of bytes still to be written is bounded.\<close>

lemma add_name_returns:
  assumes "pb_ok b" and "length (pb_text b) + length name + 1 \<le> 0xffffffff" and "\<forall>k. realloc_ok he k"
  shows "\<exists>b'. add_name he b name = Some (Some b')"
proof -
  have "0 < length (pb_buf b)" using assms(1) by (auto simp: pb_ok_def)
  then have "\<exists>m. grow_bufsize (length (pb_buf b) - pb_s b + length name + 1) (length (pb_buf b)) = Some m"
    using grow_bufsize_returns assms(2) by (simp add: pb_text_def)
  then show ?thesis using assms(3) by (auto simp: add_name_def Let_def)
qed

subsection \<open>Parent chains\<close>

text \<open>\<open>up_path f p xs q\<close>: walking up from \<open>p\<close> passes the nodes \<open>xs\<close>, with their names, and stops at
  \<open>q\<close>, which is the root or has no name or parent.\<close>

definition chain_stop :: "node \<Rightarrow> bool" where
  "chain_stop n \<longleftrightarrow> nodeid n = FUSE_ROOT_ID \<or> n_name n = None \<or> n_parent n = None"

inductive up_path :: "fuse \<Rightarrow> nat \<Rightarrow> (nat \<times> string) list \<Rightarrow> nat \<Rightarrow> bool" where
  up_stop: "f_nodes f p = Some n \<Longrightarrow> chain_stop n \<Longrightarrow> up_path f p [] p"
| up_step: "f_nodes f p = Some n \<Longrightarrow> \<not> chain_stop n \<Longrightarrow> n_name n = Some nm \<Longrightarrow> n_parent n = Some pp \<Longrightarrow>
    up_path f pp xs q \<Longrightarrow> up_path f p ((p, nm) # xs) q"

inductive_cases up_path_NilE: "up_path f p [] q"
inductive_cases up_path_ConsE: "up_path f p (x # xs) q"

lemma up_path_stop_iff: "f_nodes f p = Some n \<Longrightarrow> chain_stop n \<Longrightarrow> up_path f p xs q \<longleftrightarrow> xs = [] \<and> q = p"
  by (subst up_path.simps) auto

lemma up_path_step_iff:
  "f_nodes f p = Some n \<Longrightarrow> \<not> chain_stop n \<Longrightarrow> n_name n = Some nm \<Longrightarrow> n_parent n = Some pp \<Longrightarrow>
   up_path f p xs q \<longleftrightarrow> (\<exists>ys. xs = (p, nm) # ys \<and> up_path f pp ys q)"
  by (subst up_path.simps) auto

lemma up_path_det: "up_path f p xs q \<Longrightarrow> up_path f p ys r \<Longrightarrow> ys = xs \<and> r = q"
proof (induction arbitrary: ys r rule: up_path.induct)
  case (up_stop f p n)
  then show ?case using up_path_stop_iff by blast
next
  case (up_step f p n nm pp xs q)
  then show ?case using up_path_step_iff by blast
qed

lemma up_path_suffix: "up_path f p (us @ (r, nm) # vs) q \<Longrightarrow> up_path f r ((r, nm) # vs) q"
proof (induction us arbitrary: p)
  case Nil
  then show ?case by (auto elim: up_path_ConsE)
next
  case (Cons u us)
  then show ?case by (auto elim: up_path_ConsE)
qed

lemma up_path_distinct: "up_path f p xs q \<Longrightarrow> distinct (map fst xs)"
proof (induction xs arbitrary: p)
  case (Cons x xs)
  obtain nm pp where x: "x = (p, nm)" "up_path f pp xs q" using Cons.prems by (auto elim: up_path_ConsE)
  have "p \<notin> fst ` set xs"
  proof
    assume "p \<in> fst ` set xs"
    then obtain us nm' vs where "xs = us @ (p, nm') # vs" by (metis in_set_conv_decomp imageE surjective_pairing)
    then have "up_path f p ((p, nm') # vs) q" "length ((p, nm') # vs) \<le> length xs" using x up_path_suffix by auto
    then show False using up_path_det[OF Cons.prems] x by (metis Suc_n_not_le_n length_Cons)
  qed
  then show ?case using Cons.IH[OF x(2)] x by simp
qed simp

lemma up_path_end: "up_path f p xs q \<Longrightarrow> q \<notin> fst ` set xs \<and> (\<exists>n. f_nodes f q = Some n \<and> chain_stop n)"
  by (induction rule: up_path.induct) auto

lemma up_path_alive: "up_path f p xs q \<Longrightarrow> x \<in> set xs \<Longrightarrow> \<exists>n. f_nodes f (fst x) = Some n \<and> \<not> chain_stop n"
  by (induction rule: up_path.induct) auto

text \<open>In a consistent acyclic tree every walk ends.\<close>

lemma up_path_exists:
  assumes ok: "tree_ok f" and rank: "\<forall>p n r. f_nodes f p = Some n \<and> n_parent n = Some r \<longrightarrow> rank r < (rank p :: nat)"
    and p: "p \<in> alive f"
  shows "\<exists>xs q. up_path f p xs q"
  using p
proof (induction "rank p" arbitrary: p rule: less_induct)
  case less
  obtain n where n: "f_nodes f p = Some n" using less.prems by (auto simp: alive_iff)
  show ?case
  proof (cases "chain_stop n")
    case True
    then show ?thesis using n up_stop by blast
  next
    case False
    then obtain nm pp where s: "n_name n = Some nm" "n_parent n = Some pp" by (auto simp: chain_stop_def)
    then have "p \<in> named f" "rank pp < rank p" using n rank by (auto simp: named_iff)
    moreover from this have "\<exists>r \<in> alive f. parent_of f p = Some r"
      using ok by (auto simp: tree_ok_def core_inv_def names_ok_def)
    then have "pp \<in> alive f" using n s by (simp add: parent_of_def)
    ultimately obtain xs q where "up_path f pp xs q" using less.hyps by blast
    then show ?thesis using up_step[OF n False s] by blast
  qed
qed

subsection \<open>Changing locks\<close>

text \<open>The state with the locks of the nodes in \<open>A\<close> changed by \<open>g\<close>.\<close>

definition relock :: "(int \<Rightarrow> int) \<Rightarrow> nat set \<Rightarrow> fuse \<Rightarrow> fuse" where
  "relock g A f = f\<lparr>f_nodes := (\<lambda>q. if q \<in> A then map_option (\<lambda>n. n\<lparr>treelock := g (treelock n)\<rparr>) (f_nodes f q)
     else f_nodes f q)\<rparr>"

lemma relock_nodes [simp]:
  "f_nodes (relock g A f) q = (if q \<in> A then map_option (\<lambda>n. n\<lparr>treelock := g (treelock n)\<rparr>) (f_nodes f q) else f_nodes f q)"
  by (simp add: relock_def)

lemma relock_empty [simp]: "relock g {} f = f"
  by (simp add: relock_def)

lemma relock_cong:
  "(\<And>q n. q \<in> A \<Longrightarrow> f_nodes f q = Some n \<Longrightarrow> g (treelock n) = h (treelock n)) \<Longrightarrow> relock g A f = relock h A f"
  unfolding relock_def by (intro fuse.fold_congs refl ext) (auto intro!: option.map_cong0 split: if_splits simp: option.set_sel)

lemma set_treelock_relock:
  "f_nodes f p = Some n \<Longrightarrow> set_treelock p (g (treelock n)) f = relock g {p} f"
  unfolding set_treelock_def upd_node_def relock_def by (intro fuse.fold_congs refl ext) auto

lemma relock_relock_disjoint: "p \<notin> A \<Longrightarrow> relock g A (relock g {p} f) = relock g (insert p A) f"
  unfolding relock_def by (auto simp: fun_eq_iff intro!: fuse.fold_congs)

lemma relock_sel [simp]:
  "name_table (relock g A f) = name_table f" "id_table (relock g A f) = id_table f"
  "nid (relock g A f) = nid f" "nkey (relock g A f) = nkey f"
proof -
  show "name_table (relock g A f) = name_table f" "id_table (relock g A f) = id_table f" by (simp_all add: relock_def)
  show n: "nid (relock g A f) = nid f" by (auto simp: fun_eq_iff nid_def split: option.splits)
  show "nkey (relock g A f) = nkey f" using n by (auto simp: fun_eq_iff nkey_def split: option.splits)
qed

lemma get_node_relock [simp]: "get_node (relock g A f) i = get_node f i"
  by (simp add: get_node_def)

lemma lookup_node_relock [simp]: "lookup_node (relock g A f) d nm = lookup_node f d nm"
  by (simp add: lookup_node_def)

lemma up_path_relock: "up_path f p xs q \<Longrightarrow> up_path (relock g A f) p xs q"
proof (induction rule: up_path.induct)
  case (up_stop f p n)
  then show ?case by (intro up_path.up_stop[of _ _ "if p \<in> A then n\<lparr>treelock := g (treelock n)\<rparr> else n"]) (auto simp: chain_stop_def)
next
  case (up_step f p n nm pp xs q)
  then show ?case
    by (intro up_path.up_step[of _ _ "if p \<in> A then n\<lparr>treelock := g (treelock n)\<rparr> else n"]) (auto simp: chain_stop_def)
qed

text \<open>What \<open>path_loop\<close> does on a chain that ends: it passes a prefix \<open>ys\<close> of the chain, adding the
  names to the buffer and (with \<open>need_lock\<close>) a reader to each node.\<close>

definition chain_str :: "(nat \<times> string) list \<Rightarrow> string" where
  "chain_str xs = concat (map (\<lambda>(p, nm). ''/'' @ nm) (rev xs))"

lemma chain_str_simps [simp]: "chain_str [] = []" "chain_str ((p, nm) # xs) = chain_str xs @ ''/'' @ nm"
  by (simp_all add: chain_str_def)

definition locked :: "bool \<Rightarrow> (nat \<times> string) list \<Rightarrow> fuse \<Rightarrow> fuse" where
  "locked need_lock ys f = (if need_lock then relock (\<lambda>t. t + 1) (fst ` set ys) f else f)"

lemma locked_Cons:
  assumes "f_nodes f p = Some n" and "p \<notin> fst ` set ys"
  shows "locked nl ys (if nl then set_treelock p (treelock n + 1) f else f) = locked nl ((p, nm) # ys) f"
  using assms set_treelock_relock[OF assms(1), of "\<lambda>t. t + 1"] relock_relock_disjoint[OF assms(2), of "\<lambda>t. t + 1" f]
  by (simp add: locked_def)

lemma path_loop_step:
  assumes "f_nodes f p = Some n" and "\<not> chain_stop n" and "n_name n = Some nm" and "n_parent n = Some pp"
  shows "path_loop he nl f p b = (case add_name he b nm of
      None \<Rightarrow> None
    | Some None \<Rightarrow> Some (Done (- ENOMEM, f, p, b))
    | Some (Some b') \<Rightarrow>
        if nl \<and> treelock n < 0 then Some (Done (- EAGAIN, f, p, b'))
        else path_loop he nl (if nl then set_treelock p (treelock n + 1) f else f) pp b')"
  using assms by (subst path_loop.simps) (auto simp: chain_stop_def split: option.splits)

lemma path_loop_stop:
  assumes "f_nodes f p = Some n" and "chain_stop n"
  shows "path_loop he nl f p b = Some (Done (if nodeid n = FUSE_ROOT_ID then 0 else - ESTALE, f, p, b))"
  using assms by (subst path_loop.simps) (auto simp: chain_stop_def split: option.splits)

lemma path_loop_result:
  assumes "up_path f p xs q" and "path_loop he nl f p b = Some (Done (err, f', r, b'))"
    and "pb_ok b" and "length (pb_buf b) \<le> 0xffffffff"
  shows "\<exists>ys zs. xs = ys @ zs \<and> f' = locked nl ys f \<and> r = hd (map fst zs @ [q]) \<and>
    (nl \<longrightarrow> (\<forall>y \<in> set ys. \<forall>n. f_nodes f (fst y) = Some n \<longrightarrow> 0 \<le> treelock n)) \<and>
    (err = 0 \<longrightarrow> zs = [] \<and> nid f q = FUSE_ROOT_ID \<and> pb_ok b' \<and> pb_text b' = chain_str xs @ pb_text b) \<and>
    (err = - ESTALE \<longrightarrow> zs = [] \<and> nid f q \<noteq> FUSE_ROOT_ID) \<and> err \<in> {0, - ESTALE, - ENOMEM, - EAGAIN}"
  using assms
proof (induction xs arbitrary: f p b)
  case Nil
  then obtain n where n: "f_nodes f p = Some n" "chain_stop n" "q = p" by (auto elim: up_path_NilE)
  show ?case using Nil.prems(2,3) n
    by (intro exI[of _ "[]"]) (auto simp: path_loop_stop[OF n(1,2)] locked_def nid_def split: if_splits)
next
  case (Cons x xs)
  obtain n nm pp where n: "f_nodes f p = Some n" "\<not> chain_stop n" "n_name n = Some nm" "n_parent n = Some pp"
    and x: "x = (p, nm)" and up: "up_path f pp xs q" using Cons.prems(1) by (auto elim: up_path_ConsE)
  have px: "p \<notin> fst ` set xs" using up_path_distinct[OF Cons.prems(1)] x by simp
  note step = path_loop_step[OF n, of he nl b]
  let ?f = "if nl then set_treelock p (treelock n + 1) f else f"
  have fl: "?f = locked nl [(p, nm)] f" using set_treelock_relock[OF n(1), of "\<lambda>t. t + 1"] by (simp add: locked_def)
  consider (fail) "f' = f" "r = p" "err = - ENOMEM \<or> err = - EAGAIN"
    | (go) b1 where "add_name he b nm = Some (Some b1)" "\<not> (nl \<and> treelock n < 0)" "path_loop he nl ?f pp b1 = Some (Done (err, f', r, b'))"
    using Cons.prems(2) unfolding step by (auto split: option.splits if_splits)
  then show ?case
  proof cases
    case fail
    then show ?thesis by (intro exI[of _ "[]"] exI[of _ "x # xs"]) (auto simp: locked_def x)
  next
    case go
    note a = add_name_text[OF Cons.prems(3) go(1) Cons.prems(4)]
    have up': "up_path ?f pp xs q" unfolding fl locked_def using up up_path_relock by simp
    have nidf: "nid ?f = nid f" unfolding fl locked_def by simp
    obtain ys zs where ih: "xs = ys @ zs" "f' = locked nl ys ?f" "r = hd (map fst zs @ [q])"
      "nl \<longrightarrow> (\<forall>y \<in> set ys. \<forall>n. f_nodes ?f (fst y) = Some n \<longrightarrow> 0 \<le> treelock n)"
      "err = 0 \<longrightarrow> zs = [] \<and> nid f q = FUSE_ROOT_ID \<and> pb_ok b' \<and> pb_text b' = chain_str xs @ pb_text b1"
      "err = - ESTALE \<longrightarrow> zs = [] \<and> nid f q \<noteq> FUSE_ROOT_ID" "err \<in> {0, - ESTALE, - ENOMEM, - EAGAIN}"
      using Cons.IH[OF up' go(3) a(1,3)] unfolding nidf by blast
    have py: "p \<notin> fst ` set ys" using px ih(1) by auto
    have "f_nodes ?f (fst y) = f_nodes f (fst y)" if "y \<in> set ys" for y
      using that py by (auto simp: set_treelock_def)
    then have lk: "nl \<longrightarrow> (\<forall>y \<in> set (x # ys). \<forall>n. f_nodes f (fst y) = Some n \<longrightarrow> 0 \<le> treelock n)"
      using ih(4) go(2) n(1) x by auto
    have f': "f' = locked nl (x # ys) f" using ih(2) locked_Cons[OF n(1) py, of nl nm] x by simp
    have t: "err = 0 \<longrightarrow> zs = [] \<and> nid f q = FUSE_ROOT_ID \<and> pb_ok b' \<and> pb_text b' = chain_str (x # xs) @ pb_text b"
      using ih(5) a(2) x by simp
    show ?thesis
      by (intro exI[of _ "x # ys"] exI[of _ zs] conjI) (use ih(1) f' ih(3) lk t ih(6,7) in simp_all)
  qed
qed

text \<open>It returns if the path fits the buffer's maximal size and memory is available, with 0 or
  \<open>-ESTALE\<close> unless a node of the chain is write-locked or has a waiting writer.\<close>

lemma path_loop_returns:
  assumes "up_path f p xs q" and "pb_ok b" and "length (pb_buf b) \<le> 0xffffffff" and "\<forall>k. realloc_ok he k"
    and "length (chain_str xs @ pb_text b) \<le> 0xffffffff"
  shows "\<exists>err f' r b'. path_loop he nl f p b = Some (Done (err, f', r, b')) \<and> err \<noteq> - ENOMEM \<and>
    (err = - EAGAIN \<longrightarrow> nl \<and> (\<exists>x \<in> set xs. \<exists>n. f_nodes f (fst x) = Some n \<and> treelock n < 0))"
  using assms
proof (induction xs arbitrary: f p b)
  case Nil
  then obtain n where n: "f_nodes f p = Some n" "chain_stop n" "q = p" by (auto elim: up_path_NilE)
  show ?case using path_loop_stop[OF n(1,2)] by simp
next
  case (Cons x xs)
  obtain n nm pp where n: "f_nodes f p = Some n" "\<not> chain_stop n" "n_name n = Some nm" "n_parent n = Some pp"
    and x: "x = (p, nm)" and up: "up_path f pp xs q" using Cons.prems(1) by (auto elim: up_path_ConsE)
  have px: "p \<notin> fst ` set xs" using up_path_distinct[OF Cons.prems(1)] x by simp
  let ?f = "if nl then set_treelock p (treelock n + 1) f else f"
  have fl: "?f = locked nl [(p, nm)] f" using set_treelock_relock[OF n(1), of "\<lambda>t. t + 1"] by (simp add: locked_def)
  have up': "up_path ?f pp xs q" unfolding fl locked_def using up up_path_relock by simp
  obtain b1 where b1: "add_name he b nm = Some (Some b1)"
    using add_name_returns[OF Cons.prems(2) _ Cons.prems(4), of nm] Cons.prems(5) x by auto
  note a = add_name_text[OF Cons.prems(2) b1 Cons.prems(3)]
  have len: "length (chain_str xs @ pb_text b1) \<le> 0xffffffff" using Cons.prems(5) a(2) x by simp
  obtain err f' r b' where ih: "path_loop he nl ?f pp b1 = Some (Done (err, f', r, b'))" "err \<noteq> - ENOMEM"
    "err = - EAGAIN \<longrightarrow> nl \<and> (\<exists>x \<in> set xs. \<exists>n. f_nodes ?f (fst x) = Some n \<and> treelock n < 0)"
    using Cons.IH[OF up' a(1,3) Cons.prems(4) len] by blast
  have "f_nodes ?f (fst y) = f_nodes f (fst y)" if "y \<in> set xs" for y using that px by (auto simp: set_treelock_def)
  then have "err = - EAGAIN \<longrightarrow> nl \<and> (\<exists>x \<in> set xs. \<exists>n. f_nodes f (fst x) = Some n \<and> treelock n < 0)" using ih(3) by auto
  then show ?case using path_loop_step[OF n, of he nl b] b1 ih x n(1) by auto
qed

lemma unlock_loop_chain:
  assumes "up_path f p (ys @ zs) q" and "e = Some (hd (map fst zs @ [q])) \<or> (e = None \<and> zs = [] \<and> nid f q = FUSE_ROOT_ID)"
    and "\<forall>y \<in> set ys. \<forall>n. f_nodes f (fst y) = Some n \<longrightarrow> treelock n \<notin> {0, TREELOCK_WAIT_OFFSET, TREELOCK_WRITE}"
  shows "unlock_loop f (Some p) e = Some (Done (relock read_unlock_value (fst ` set ys) f))"
  using assms
proof (induction ys arbitrary: f p)
  case Nil
  show ?case
  proof (cases "e = None")
    case True
    then have z: "zs = []" "nid f q = FUSE_ROOT_ID" using Nil.prems(2) by auto
    then obtain n where "f_nodes f p = Some n" "q = p" using Nil.prems(1) by (auto elim: up_path_NilE)
    then show ?thesis using z True by (subst unlock_loop.simps) (simp add: nid_def)
  next
    case False
    then have "e = Some p" using Nil.prems(1,2) by (cases zs) (auto elim: up_path_NilE up_path_ConsE)
    then show ?thesis by (subst unlock_loop.simps) simp
  qed
next
  case (Cons y ys)
  obtain n nm pp where n: "f_nodes f p = Some n" "\<not> chain_stop n" "n_parent n = Some pp"
    and y: "y = (p, nm)" and up: "up_path f pp (ys @ zs) q" using Cons.prems(1) by (auto elim: up_path_ConsE)
  have dist: "p \<notin> fst ` set (ys @ zs)" "p \<noteq> q"
    using up_path_distinct[OF Cons.prems(1)] up_path_end[OF Cons.prems(1)] y by auto
  have ne: "Some p \<noteq> e" using Cons.prems(2) dist by (cases zs) auto
  let ?f = "relock read_unlock_value {p} f"
  have t: "treelock n \<notin> {0, TREELOCK_WAIT_OFFSET, TREELOCK_WRITE}" using Cons.prems(3) n(1) y by auto
  have "unlock_loop f (Some p) e = unlock_loop ?f (Some pp) e"
    using n t ne set_treelock_relock[OF n(1), of read_unlock_value]
    by (subst unlock_loop.simps) (auto simp: chain_stop_def)
  also have "\<dots> = Some (Done (relock read_unlock_value (fst ` set ys) ?f))"
  proof (rule Cons.IH)
    show "up_path ?f pp (ys @ zs) q" by (rule up_path_relock[OF up])
    show "e = Some (hd (map fst zs @ [q])) \<or> (e = None \<and> zs = [] \<and> nid ?f q = FUSE_ROOT_ID)" using Cons.prems(2) by simp
    show "\<forall>y\<in>set ys. \<forall>n. f_nodes ?f (fst y) = Some n \<longrightarrow> treelock n \<notin> {0, TREELOCK_WAIT_OFFSET, TREELOCK_WRITE}"
      using Cons.prems(3) dist(1) by (auto split: if_splits)
  qed
  also have "relock read_unlock_value (fst ` set ys) ?f = relock read_unlock_value (fst ` set (y # ys)) f"
  proof -
    have "p \<notin> fst ` set ys" using dist(1) by auto
    then show ?thesis using relock_relock_disjoint y by simp
  qed
  finally show ?case .
qed

text \<open>Lock changes, node by node; they compose.\<close>

definition relock_by :: "(nat \<Rightarrow> int \<Rightarrow> int) \<Rightarrow> fuse \<Rightarrow> fuse" where
  "relock_by G f = f\<lparr>f_nodes := (\<lambda>q. map_option (\<lambda>n. n\<lparr>treelock := G q (treelock n)\<rparr>) (f_nodes f q))\<rparr>"

lemma relock_by_relock: "relock g A f = relock_by (\<lambda>q. if q \<in> A then g else id) f"
proof -
  have "(if q \<in> A then map_option (\<lambda>n. n\<lparr>treelock := g (treelock n)\<rparr>) (f_nodes f q) else f_nodes f q) =
      map_option (\<lambda>n. n\<lparr>treelock := (if q \<in> A then g else id) (treelock n)\<rparr>) (f_nodes f q)" for q
    by (cases "f_nodes f q") auto
  then show ?thesis unfolding relock_def relock_by_def by simp
qed

lemma relock_by_set: "set_treelock p k f = relock_by (\<lambda>q. if q = p then \<lambda>_. k else id) f"
proof -
  have "((f_nodes f)(p := map_option (\<lambda>n. n\<lparr>treelock := k\<rparr>) (f_nodes f p))) q =
      map_option (\<lambda>n. n\<lparr>treelock := (if q = p then \<lambda>_. k else id) (treelock n)\<rparr>) (f_nodes f q)" for q
    by (cases "f_nodes f q") auto
  then have "(f_nodes f)(p := map_option (\<lambda>n. n\<lparr>treelock := k\<rparr>) (f_nodes f p)) =
      (\<lambda>q. map_option (\<lambda>n. n\<lparr>treelock := (if q = p then \<lambda>_. k else id) (treelock n)\<rparr>) (f_nodes f q))" by blast
  then show ?thesis unfolding set_treelock_def upd_node_def relock_by_def by simp
qed

lemma relock_by_comp: "relock_by G (relock_by H f) = relock_by (\<lambda>q. G q \<circ> H q) f"
  unfolding relock_by_def by (simp add: option.map_comp comp_def)

lemma relock_by_cong:
  assumes "\<And>q n. f_nodes f q = Some n \<Longrightarrow> G q (treelock n) = H q (treelock n)"
  shows "relock_by G f = relock_by H f"
proof -
  have "map_option (\<lambda>n. n\<lparr>treelock := G q (treelock n)\<rparr>) (f_nodes f q) =
      map_option (\<lambda>n. n\<lparr>treelock := H q (treelock n)\<rparr>) (f_nodes f q)" for q
    using assms[of q] by (cases "f_nodes f q") auto
  then show ?thesis unfolding relock_by_def by simp
qed

lemma relock_by_id:
  assumes "\<And>q n. f_nodes f q = Some n \<Longrightarrow> G q (treelock n) = treelock n"
  shows "relock_by G f = f"
proof -
  have "map_option (\<lambda>n. n\<lparr>treelock := G q (treelock n)\<rparr>) (f_nodes f q) = f_nodes f q" for q
    using assms[of q] by (cases "f_nodes f q") auto
  then show ?thesis unfolding relock_by_def by simp
qed

lemma relock_by_nodes [simp]:
  "f_nodes (relock_by G f) q = map_option (\<lambda>n. n\<lparr>treelock := G q (treelock n)\<rparr>) (f_nodes f q)"
  by (simp add: relock_by_def)

lemma relock_by_tabs [simp]: "name_table (relock_by G f) = name_table f" "id_table (relock_by G f) = id_table f"
  by (simp_all add: relock_by_def)

lemma relock_by_sel [simp]: "nid (relock_by G f) = nid f" "nkey (relock_by G f) = nkey f"
proof -
  show n: "nid (relock_by G f) = nid f" by (auto simp: fun_eq_iff nid_def split: option.splits)
  show "nkey (relock_by G f) = nkey f" using n by (auto simp: fun_eq_iff nkey_def split: option.splits)
qed

lemma get_node_relock_by [simp]: "get_node (relock_by G f) i = get_node f i"
  by (simp add: get_node_def)

lemma lookup_node_relock_by [simp]: "lookup_node (relock_by G f) d nm = lookup_node f d nm"
  by (simp add: lookup_node_def)

lemma up_path_relock_by: "up_path f p xs q \<Longrightarrow> up_path (relock_by G f) p xs q"
proof (induction rule: up_path.induct)
  case (up_stop f p n)
  then show ?case by (intro up_path.up_stop[of _ _ "n\<lparr>treelock := G p (treelock n)\<rparr>"]) (auto simp: chain_stop_def)
next
  case (up_step f p n nm pp xs q)
  then show ?case
    by (intro up_path.up_step[of _ _ "n\<lparr>treelock := G p (treelock n)\<rparr>"]) (auto simp: chain_stop_def)
qed

text \<open>The locks a successful \<open>try_get_path\<close> takes.\<close>

definition lock_fun :: "nat option \<Rightarrow> nat set \<Rightarrow> nat \<Rightarrow> int \<Rightarrow> int" where
  "lock_fun w A q t = (if w = Some q then TREELOCK_WRITE else if q \<in> A then t + 1 else t)"

definition unlock_fun :: "nat option \<Rightarrow> nat set \<Rightarrow> nat \<Rightarrow> int \<Rightarrow> int" where
  "unlock_fun w A q t = (if w = Some q then 0 else if q \<in> A then read_unlock_value t else t)"

lemma unlock_path_chain:
  assumes p: "get_node f ino = Done p" and up: "up_path f p (ys @ zs) q"
    and e: "e = Some (hd (map fst zs @ [q])) \<or> (e = None \<and> zs = [] \<and> nid f q = FUSE_ROOT_ID)"
    and r: "\<forall>y \<in> set ys. \<forall>n. f_nodes f (fst y) = Some n \<longrightarrow> treelock n \<notin> {0, TREELOCK_WAIT_OFFSET, TREELOCK_WRITE}"
    and w: "\<forall>w'. w = Some w' \<longrightarrow> (\<exists>n. f_nodes f w' = Some n \<and> treelock n = TREELOCK_WRITE)"
  shows "unlock_path f ino w e = Some (Done (relock_by (unlock_fun w (fst ` set ys)) f))"
proof -
  have wy: "w \<noteq> Some (fst y)" if "y \<in> set ys" for y using r w that by fastforce
  let ?f = "case w of None \<Rightarrow> f | Some w' \<Rightarrow> set_treelock w' 0 f"
  have f: "?f = relock_by (\<lambda>q. if w = Some q then \<lambda>_. 0 else id) f"
    by (cases w) (auto simp: relock_by_set intro!: relock_by_id[symmetric] relock_by_cong)
  have st: "unlock_path f ino w e = unlock_loop ?f (Some p) e"
    using w p f by (cases w) (auto simp: unlock_path_def)
  have "unlock_loop ?f (Some p) e = Some (Done (relock read_unlock_value (fst ` set ys) ?f))"
  proof (rule unlock_loop_chain)
    show "up_path ?f p (ys @ zs) q" unfolding f by (rule up_path_relock_by[OF up])
    show "e = Some (hd (map fst zs @ [q])) \<or> (e = None \<and> zs = [] \<and> nid ?f q = FUSE_ROOT_ID)" unfolding f using e by simp
    show "\<forall>y\<in>set ys. \<forall>n. f_nodes ?f (fst y) = Some n \<longrightarrow> treelock n \<notin> {0, TREELOCK_WAIT_OFFSET, TREELOCK_WRITE}"
      unfolding f using r wy by auto
  qed
  also have "relock read_unlock_value (fst ` set ys) ?f = relock_by (unlock_fun w (fst ` set ys)) f"
    unfolding f relock_by_relock relock_by_comp
    by (rule relock_by_cong) (use wy in \<open>auto simp: unlock_fun_def\<close>)
  finally show ?thesis using st by simp
qed

subsection \<open>\<open>try_get_path\<close>\<close>

text \<open>The only lasting effect of a failed attempt: a writer that found readers marks itself as
  waiting.\<close>

definition wait_marked :: "64 word \<Rightarrow> string \<Rightarrow> fuse \<Rightarrow> fuse \<Rightarrow> bool" where
  "wait_marked ino nm f f' \<longleftrightarrow> (\<exists>w n. lookup_node f ino nm = Some w \<and> f_nodes f w = Some n \<and> 0 < treelock n \<and>
     f' = set_treelock w (treelock n + TREELOCK_WAIT_OFFSET) f)"

lemma write_lock_result:
  assumes "write_lock f ino nm = Done (res, f1)"
  shows "case res of
      Inr w \<Rightarrow> w = lookup_node f ino nm \<and> (\<forall>w'. w = Some w' \<longrightarrow> (\<exists>n. f_nodes f w' = Some n \<and> treelock n = 0)) \<and>
        f1 = relock_by (lock_fun w {}) f
    | Inl err \<Rightarrow> err = - EAGAIN \<and> (f1 = f \<or> wait_marked ino nm f f1)"
proof (cases "lookup_node f ino nm")
  case None
  then show ?thesis using assms
    by (auto simp: write_lock_def lock_fun_def intro!: relock_by_id[symmetric])
next
  case (Some w)
  obtain n where n: "f_nodes f w = Some n" using assms Some by (auto simp: write_lock_def split: option.splits)
  show ?thesis
  proof (cases "treelock n = 0")
    case True
    have "relock_by (lock_fun (Some w) {}) f = set_treelock w TREELOCK_WRITE f"
      unfolding relock_by_set by (rule relock_by_cong) (auto simp: lock_fun_def)
    then show ?thesis using assms Some n True by (auto simp: write_lock_def)
  next
    case False
    then show ?thesis using assms Some n by (auto simp: write_lock_def wait_marked_def)
  qed
qed

definition name_str :: "string option \<Rightarrow> string" where
  "name_str name = (case name of None \<Rightarrow> [] | Some nm \<Rightarrow> ''/'' @ nm)"

definition no_nul :: "string \<Rightarrow> bool" where
  "no_nul s \<longleftrightarrow> CHR 0x00 \<notin> set s"

lemma no_nul_chain: "(\<forall>x \<in> set xs. no_nul (snd x)) \<Longrightarrow> no_nul (chain_str xs)"
  by (induction xs) (auto simp: no_nul_def)

lemma c_string_nul: "no_nul s \<Longrightarrow> c_string (s @ [CHR 0x00]) = s"
  unfolding c_string_def no_nul_def by (induction s) auto

lemma init_path_buf_ok: "pb_ok (init_path_buf he)" "length (pb_buf (init_path_buf he)) = 256"
  "pb_text (init_path_buf he) = [CHR 0x00]"
  by (simp_all add: init_path_buf_def pb_ok_def pb_text_def)

lemma start_buf_text:
  assumes "(case name of None \<Rightarrow> Some (Some (init_path_buf he)) | Some nm \<Rightarrow> add_name he (init_path_buf he) nm) = Some (Some b)"
  shows "pb_ok b" and "pb_text b = name_str name @ [CHR 0x00]" and "length (pb_buf b) \<le> 0xffffffff"
  using assms init_path_buf_ok[of he] add_name_text[of "init_path_buf he" he _ b]
  by (auto simp: name_str_def split: option.splits)

definition path_locked ::
  "fuse \<Rightarrow> 64 word \<Rightarrow> string option \<Rightarrow> bool \<Rightarrow> (nat \<times> string) list \<Rightarrow> nat \<Rightarrow> path_result \<Rightarrow> bool" where
  "path_locked f ino name want xs q r \<longleftrightarrow>
     nid f q = FUSE_ROOT_ID \<and>
     pr_wnode r = (if want then lookup_node f ino (case name of Some nm \<Rightarrow> nm | None \<Rightarrow> []) else None) \<and>
     (\<forall>w. pr_wnode r = Some w \<longrightarrow> w \<notin> fst ` set xs \<and> (\<exists>n. f_nodes f w = Some n \<and> treelock n = 0)) \<and>
     (\<forall>x \<in> set xs. \<forall>n. f_nodes f (fst x) = Some n \<longrightarrow> 0 \<le> treelock n) \<and>
     pr_fuse r = relock_by (lock_fun (pr_wnode r) (fst ` set xs)) f"

lemma unlock_partial:
  assumes p: "get_node f ino = Done p" and up: "up_path f p (ys @ zs) q"
    and f1: "f1 = relock_by (lock_fun w {}) f" and w0: "\<forall>w'. w = Some w' \<longrightarrow> (\<exists>n. f_nodes f w' = Some n \<and> treelock n = 0)"
    and nn: "\<forall>y \<in> set ys. \<forall>n. f_nodes f1 (fst y) = Some n \<longrightarrow> 0 \<le> treelock n"
    and f2: "f2 = locked True ys f1"
    and e: "e = Some (hd (map fst zs @ [q])) \<or> (e = None \<and> zs = [] \<and> nid f q = FUSE_ROOT_ID)"
  shows "f2 = relock_by (lock_fun w (fst ` set ys)) f" and "w \<notin> Some ` fst ` set ys"
    and "\<forall>y \<in> set ys. \<forall>n. f_nodes f (fst y) = Some n \<longrightarrow> 0 \<le> treelock n"
    and "unlock_path f2 ino w e = Some (Done f)"
proof -
  show wy: "w \<notin> Some ` fst ` set ys"
  proof
    assume "w \<in> Some ` fst ` set ys"
    then obtain y where y: "y \<in> set ys" "w = Some (fst y)" by auto
    then obtain n where "f_nodes f (fst y) = Some n" using w0 by auto
    then show False using nn y by (auto simp: f1 lock_fun_def TREELOCK_WRITE_def)
  qed
  show f2': "f2 = relock_by (lock_fun w (fst ` set ys)) f"
    unfolding f2 locked_def f1 relock_by_relock relock_by_comp if_True
    by (rule relock_by_cong) (use wy in \<open>auto simp: lock_fun_def\<close>)
  show nn': "\<forall>y \<in> set ys. \<forall>n. f_nodes f (fst y) = Some n \<longrightarrow> 0 \<le> treelock n"
  proof (intro ballI allI impI)
    fix y n assume y: "y \<in> set ys" and n: "f_nodes f (fst y) = Some n"
    have "w \<noteq> Some (fst y)" using wy y by auto
    then have "f_nodes f1 (fst y) = Some n" using n by (simp add: f1 lock_fun_def)
    then show "0 \<le> treelock n" using nn y by auto
  qed
  have "unlock_path f2 ino w e = Some (Done (relock_by (unlock_fun w (fst ` set ys)) f2))"
  proof (rule unlock_path_chain)
    show "up_path f2 p (ys @ zs) q" unfolding f2' by (rule up_path_relock_by[OF up])
    show "\<forall>y\<in>set ys. \<forall>n. f_nodes f2 (fst y) = Some n \<longrightarrow> treelock n \<notin> {0, TREELOCK_WAIT_OFFSET, TREELOCK_WRITE}"
    proof (intro ballI allI impI)
      fix y n assume y: "y \<in> set ys" and n: "f_nodes f2 (fst y) = Some n"
      obtain m where m: "f_nodes f (fst y) = Some m" "treelock n = lock_fun w (fst ` set ys) (fst y) (treelock m)"
        using n unfolding f2' by auto
      moreover have "w \<noteq> Some (fst y)" using wy y by auto
      ultimately have "treelock n = treelock m + 1" "0 \<le> treelock m" using y nn' by (auto simp: lock_fun_def)
      then show "treelock n \<notin> {0, TREELOCK_WAIT_OFFSET, TREELOCK_WRITE}"
        by (simp add: TREELOCK_WRITE_def TREELOCK_WAIT_OFFSET_def)
    qed
    show "\<forall>w'. w = Some w' \<longrightarrow> (\<exists>n. f_nodes f2 w' = Some n \<and> treelock n = TREELOCK_WRITE)"
      using w0 unfolding f2' by (auto simp: lock_fun_def)
  qed (use p e f2' in auto)
  also have "relock_by (unlock_fun w (fst ` set ys)) f2 = f"
    unfolding f2' relock_by_comp
  proof (rule relock_by_id)
    fix x n assume x: "f_nodes f x = Some n"
    show "(unlock_fun w (fst ` set ys) x \<circ> lock_fun w (fst ` set ys) x) (treelock n) = treelock n"
    proof (cases "w = Some x")
      case True
      then show ?thesis using w0 x by (auto simp: unlock_fun_def)
    next
      case False
      moreover have "0 \<le> treelock n" if "x \<in> fst ` set ys" using nn' x that by auto
      ultimately show ?thesis
        by (cases "x \<in> fst ` set ys")
          (simp_all add: unlock_fun_def lock_fun_def read_unlock_value_def TREELOCK_WAIT_OFFSET_def)
    qed
  qed
  finally show "unlock_path f2 ino w e = Some (Done f)" .
qed

text \<open>The three ways \<open>try_get_path\<close> with locking runs: it has no memory, the node to write-lock is
  busy, or it walks the chain.\<close>

lemma try_get_path_cases:
  assumes r: "try_get_path he f ino name want True = Some (Done r)"
  defines "nm \<equiv> case name of Some nm \<Rightarrow> nm | None \<Rightarrow> []"
  obtains (mem) "r = path_fail (- ENOMEM) f"
    | (busy) f1 err where "want" "write_lock f ino nm = Done (Inl err, f1)" "r = path_fail err f1"
    | (go) b w f1 p err f2 s b' where
        "(case name of None \<Rightarrow> Some (Some (init_path_buf he)) | Some nm \<Rightarrow> add_name he (init_path_buf he) nm) = Some (Some b)"
        "(if want then write_lock f ino nm else Done (Inr None, f)) = Done (Inr w, f1)"
        "get_node f1 ino = Done p" "path_loop he True f1 p b = Some (Done (err, f2, s, b'))"
        "if err = 0 then r = \<lparr>pr_err = 0, pr_path = Some (finish_path b'), pr_wnode = w, pr_fuse = f2\<rparr>
         else \<exists>f3. unlock_path f2 ino w (Some s) = Some (Done f3) \<and> r = path_fail err f3"
proof -
  let ?start = "case name of None \<Rightarrow> Some (Some (init_path_buf he)) | Some nm \<Rightarrow> add_name he (init_path_buf he) nm"
  let ?wl = "if want then write_lock f ino nm else Done (Inr None, f)"
  consider (m) "r = path_fail (- ENOMEM) f"
    | (w) b x f1 where "malloc_ok he" "?start = Some (Some b)" "?wl = Done (x, f1)"
    using r unfolding try_get_path_def nm_def by (auto split: if_splits option.splits outcome.splits prod.splits)
  then show thesis
  proof cases
    case m
    then show thesis by (rule mem)
  next
    case w
    have wl: "(if want then write_lock f ino (case name of None \<Rightarrow> [] | Some nm \<Rightarrow> nm)
        else Done (Inr None, f)) = Done (x, f1)" using w(3) unfolding nm_def by (cases want) simp_all
    have m: "(\<not> malloc_ok he) = False" using w(1) by simp
    note r' = r[unfolded try_get_path_def if_True, unfolded w(2) wl m if_False option.case outcome.case prod.case]
    show thesis
    proof (cases x)
      case (Inl err)
      then have "want" "write_lock f ino nm = Done (Inl err, f1)" using w(3) by (auto split: if_splits)
      moreover have "r = path_fail err f1" using r' Inl by simp
      ultimately show thesis by (rule busy)
    next
      case (Inr w')
      then have "(case get_node f1 ino of Aborted \<Rightarrow> Some Aborted | Done p \<Rightarrow>
          (case path_loop he True f1 p b of None \<Rightarrow> None | Some Aborted \<Rightarrow> Some Aborted
           | Some (Done (err, f2, q, b')) \<Rightarrow>
              if err = 0 then Some (Done \<lparr>pr_err = 0, pr_path = Some (finish_path b'), pr_wnode = w', pr_fuse = f2\<rparr>)
              else (case unlock_path f2 ino w' (Some q) of None \<Rightarrow> None | Some Aborted \<Rightarrow> Some Aborted
                    | Some (Done f3) \<Rightarrow> Some (Done (path_fail err f3))))) = Some (Done r)"
        using r' by simp
      then obtain p err f2 s b' where "get_node f1 ino = Done p" "path_loop he True f1 p b = Some (Done (err, f2, s, b'))"
        "if err = 0 then r = \<lparr>pr_err = 0, pr_path = Some (finish_path b'), pr_wnode = w', pr_fuse = f2\<rparr>
         else \<exists>f3. unlock_path f2 ino w' (Some s) = Some (Done f3) \<and> r = path_fail err f3"
        by (auto split: if_splits option.splits outcome.splits prod.splits)
      then show thesis using go w(2,3) Inr by blast
    qed
  qed
qed

lemma lock_start:
  assumes "(if want then write_lock f ino nm else Done (Inr None, f)) = Done (Inr w, f1)"
  shows "w = (if want then lookup_node f ino nm else None)"
    and "\<forall>w'. w = Some w' \<longrightarrow> (\<exists>n. f_nodes f w' = Some n \<and> treelock n = 0)" and "f1 = relock_by (lock_fun w {}) f"
proof -
  have "w = (if want then lookup_node f ino nm else None) \<and> (\<forall>w'. w = Some w' \<longrightarrow> (\<exists>n. f_nodes f w' = Some n \<and> treelock n = 0)) \<and>
      f1 = relock_by (lock_fun w {}) f"
  proof (cases want)
    case True
    then show ?thesis using write_lock_result[of f ino nm "Inr w" f1] assms by simp
  next
    case False
    have "relock_by (lock_fun None {}) f = f" by (rule relock_by_id) (simp add: lock_fun_def)
    then show ?thesis using assms False by simp
  qed
  then show "w = (if want then lookup_node f ino nm else None)"
    "\<forall>w'. w = Some w' \<longrightarrow> (\<exists>n. f_nodes f w' = Some n \<and> treelock n = 0)" "f1 = relock_by (lock_fun w {}) f" by auto
qed

text \<open>What \<open>try_get_path\<close> with locking does, on every outcome.\<close>

lemma try_get_path_result:
  assumes p: "get_node f ino = Done p" and up: "up_path f p xs q"
    and r: "try_get_path he f ino name want True = Some (Done r)"
  shows "if pr_err r = 0
    then path_locked f ino name want xs q r \<and>
      (no_nul (chain_str xs) \<and> no_nul (name_str name) \<longrightarrow>
         pr_path r = Some (if chain_str xs @ name_str name = [] then ''/'' else chain_str xs @ name_str name))
    else pr_path r = None \<and> (pr_fuse r = f \<or>
      (pr_err r = - EAGAIN \<and> want \<and> wait_marked ino (case name of Some nm \<Rightarrow> nm | None \<Rightarrow> []) f (pr_fuse r)))"
  using r
proof (cases rule: try_get_path_cases)
  case mem
  then show ?thesis by (simp add: path_fail_def)
next
  case busy
  then show ?thesis using write_lock_result[OF busy(2)] by (auto simp: path_fail_def)
next
  case (go b w f1 p' err f2 s b')
  let ?nm = "case name of Some nm \<Rightarrow> nm | None \<Rightarrow> []"
  note wl = lock_start[OF go(2)]
  note sb = start_buf_text[OF go(1)]
  have up1: "up_path f1 p xs q" unfolding wl(3) by (rule up_path_relock_by[OF up])
  have lp: "path_loop he True f1 p b = Some (Done (err, f2, s, b'))" using go(3,4) p by (simp add: wl(3))
  obtain ys zs where yz: "xs = ys @ zs" "f2 = locked True ys f1" "s = hd (map fst zs @ [q])"
    "\<forall>y \<in> set ys. \<forall>n. f_nodes f1 (fst y) = Some n \<longrightarrow> 0 \<le> treelock n"
    "err = 0 \<longrightarrow> zs = [] \<and> nid f1 q = FUSE_ROOT_ID \<and> pb_ok b' \<and> pb_text b' = chain_str xs @ pb_text b"
    using path_loop_result[OF up1 lp sb(1,3)] by auto
  note part = unlock_partial[OF p up[unfolded yz(1)] wl(3) wl(2) yz(4) yz(2), of "Some s"]
  show ?thesis
  proof (cases "err = 0")
    case True
    have r': "r = \<lparr>pr_err = 0, pr_path = Some (finish_path b'), pr_wnode = w, pr_fuse = f2\<rparr>" using go(5) True by simp
    have y: "ys = xs" "nid f q = FUSE_ROOT_ID" "pb_text b' = (chain_str xs @ name_str name) @ [CHR 0x00]"
      using yz(1,5) True sb(2) by (auto simp: wl(3))
    have "a \<notin> fst ` set xs" if "w = Some a" for a using part(2) yz(3) y(1) that by blast
    then have pl: "path_locked f ino name want xs q r"
      unfolding path_locked_def r' using part(1,3) yz(3) y(1,2) wl(1,2) by simp
    have "no_nul (chain_str xs) \<and> no_nul (name_str name) \<Longrightarrow> c_string (pb_text b') = chain_str xs @ name_str name"
      unfolding y(3) by (rule c_string_nul) (auto simp: no_nul_def)
    then show ?thesis using pl r' by (simp add: finish_path_def pb_text_def)
  next
    case False
    then show ?thesis using go(5) part(4) yz(3) by (auto simp: path_fail_def)
  qed
qed

subsection \<open>Holders of paths\<close>

text \<open>
  The path locks over time: threads take and release paths; each step holds \<open>f->lock\<close>. A holder
  has the arguments to release its path, and (a ghost) the nodes of the path.
\<close>

record holder =
  h_ino :: "64 word"
  h_wnode :: "nat option"
  h_chain :: "(nat \<times> string) list"

definition readers :: "holder list \<Rightarrow> nat \<Rightarrow> nat" where
  "readers H p = length (filter (\<lambda>h. p \<in> fst ` set (h_chain h)) H)"

definition writers :: "holder list \<Rightarrow> nat \<Rightarrow> nat" where
  "writers H p = length (filter (\<lambda>h. h_wnode h = Some p) H)"

definition lock_value_ok :: "nat \<Rightarrow> nat \<Rightarrow> int \<Rightarrow> bool" where
  "lock_value_ok r w t \<longleftrightarrow> (w = 0 \<and> (t = int r \<or> 0 < r \<and> t = int r + TREELOCK_WAIT_OFFSET)) \<or>
     (w = 1 \<and> r = 0 \<and> t = TREELOCK_WRITE)"

definition holder_ok :: "fuse \<Rightarrow> holder \<Rightarrow> bool" where
  "holder_ok f h \<longleftrightarrow> (\<exists>p q. get_node f (h_ino h) = Done p \<and> up_path f p (h_chain h) q \<and> nid f q = FUSE_ROOT_ID) \<and>
     (\<forall>w. h_wnode h = Some w \<longrightarrow> f_nodes f w \<noteq> None)"

definition locks_ok :: "fuse \<Rightarrow> holder list \<Rightarrow> bool" where
  "locks_ok f H \<longleftrightarrow> (\<forall>p n. f_nodes f p = Some n \<longrightarrow> lock_value_ok (readers H p) (writers H p) (treelock n)) \<and>
     (\<forall>h \<in> set H. holder_ok f h) \<and> length H < 2 ^ 31 - 1"

inductive lock_step :: "fuse \<times> holder list \<Rightarrow> fuse \<times> holder list \<Rightarrow> bool" where
  lock: "get_node f ino = Done p \<Longrightarrow> up_path f p xs q \<Longrightarrow> length H + 1 < 2 ^ 31 - 1 \<Longrightarrow>
    try_get_path he f ino name want True = Some (Done r) \<Longrightarrow> pr_err r = 0 \<Longrightarrow>
    lock_step (f, H) (pr_fuse r, \<lparr>h_ino = ino, h_wnode = pr_wnode r, h_chain = xs\<rparr> # H)"
| lock_fail: "get_node f ino = Done p \<Longrightarrow> up_path f p xs q \<Longrightarrow>
    try_get_path he f ino name want True = Some (Done r) \<Longrightarrow> pr_err r \<noteq> 0 \<Longrightarrow>
    lock_step (f, H) (pr_fuse r, H)"
| unlock: "H = H1 @ h # H2 \<Longrightarrow> unlock_path f (h_ino h) (h_wnode h) None = Some (Done f') \<Longrightarrow>
    lock_step (f, H) (f', H1 @ H2)"

lemma readers_simps [simp]:
  "readers [] p = 0" "readers (h # H) p = (if p \<in> fst ` set (h_chain h) then 1 else 0) + readers H p"
  "readers (H1 @ H2) p = readers H1 p + readers H2 p"
  by (simp_all add: readers_def)

lemma writers_simps [simp]:
  "writers [] p = 0" "writers (h # H) p = (if h_wnode h = Some p then 1 else 0) + writers H p"
  "writers (H1 @ H2) p = writers H1 p + writers H2 p"
  by (simp_all add: writers_def)

lemma readers_le: "readers H p \<le> length H"
  by (simp add: readers_def)

lemma holder_ok_relock_by: "holder_ok f h \<Longrightarrow> holder_ok (relock_by G f) h"
  unfolding holder_ok_def using up_path_relock_by by fastforce

lemma locks_ok_lock:
  assumes ok: "locks_ok f H" and p: "get_node f ino = Done p" and up: "up_path f p xs q" and len: "length H + 1 < 2 ^ 31 - 1"
    and l: "path_locked f ino name want xs q r"
  shows "locks_ok (pr_fuse r) (\<lparr>h_ino = ino, h_wnode = pr_wnode r, h_chain = xs\<rparr> # H)"
  unfolding locks_ok_def
proof (intro conjI allI impI ballI)
  let ?h = "\<lparr>h_ino = ino, h_wnode = pr_wnode r, h_chain = xs\<rparr>"
  have f': "pr_fuse r = relock_by (lock_fun (pr_wnode r) (fst ` set xs)) f" using l by (simp add: path_locked_def)
  fix x n assume "f_nodes (pr_fuse r) x = Some n"
  then obtain m where m: "f_nodes f x = Some m" "treelock n = lock_fun (pr_wnode r) (fst ` set xs) x (treelock m)"
    by (auto simp: f')
  have v: "lock_value_ok (readers H x) (writers H x) (treelock m)" using ok m by (auto simp: locks_ok_def)
  have rl: "int (readers H x) < 2 ^ 31 - 1" using readers_le[of H x] len by simp
  have w: "x \<notin> fst ` set xs \<and> treelock m = 0" if "pr_wnode r = Some x" using l that m by (auto simp: path_locked_def)
  have nn: "0 \<le> treelock m" if "x \<in> fst ` set xs" using l that m by (auto simp: path_locked_def)
  show "lock_value_ok (readers (?h # H) x) (writers (?h # H) x) (treelock n)"
    using v w nn rl m(2)
    by (cases "pr_wnode r = Some x"; cases "x \<in> fst ` set xs")
      (auto simp: lock_value_ok_def lock_fun_def TREELOCK_WRITE_def TREELOCK_WAIT_OFFSET_def)
next
  fix h assume h: "h \<in> set (\<lparr>h_ino = ino, h_wnode = pr_wnode r, h_chain = xs\<rparr> # H)"
  have f': "pr_fuse r = relock_by (lock_fun (pr_wnode r) (fst ` set xs)) f" using l by (simp add: path_locked_def)
  have "holder_ok f \<lparr>h_ino = ino, h_wnode = pr_wnode r, h_chain = xs\<rparr>"
    using p up l unfolding holder_ok_def path_locked_def by auto
  then have "holder_ok f h" using h ok by (auto simp: locks_ok_def)
  then show "holder_ok (pr_fuse r) h" unfolding f' by (rule holder_ok_relock_by)
qed (use len in simp)

text \<open>A holder can always release its path: no assertion of \<open>unlock_path\<close> fails.\<close>

lemma locks_ok_unlock:
  assumes ok: "locks_ok f H" and H: "H = H1 @ h # H2"
  shows "\<exists>f'. unlock_path f (h_ino h) (h_wnode h) None = Some (Done f') \<and> locks_ok f' (H1 @ H2)"
proof -
  have v: "lock_value_ok (readers H x) (writers H x) (treelock n)" if "f_nodes f x = Some n" for x n
    using ok that by (auto simp: locks_ok_def)
  have rl: "int (readers H x) < 2 ^ 31 - 1" for x using readers_le[of H x] ok by (simp add: locks_ok_def)
  have "holder_ok f h" using ok H by (auto simp: locks_ok_def)
  then obtain p q where p: "get_node f (h_ino h) = Done p" "up_path f p (h_chain h @ []) q" "nid f q = FUSE_ROOT_ID"
    and w: "\<forall>w. h_wnode h = Some w \<longrightarrow> f_nodes f w \<noteq> None" unfolding holder_ok_def by auto
  let ?A = "fst ` set (h_chain h)" and ?f = "relock_by (unlock_fun (h_wnode h) (fst ` set (h_chain h))) f"
  have rd: "treelock n \<notin> {0, TREELOCK_WAIT_OFFSET, TREELOCK_WRITE}" if "x \<in> ?A" "f_nodes f x = Some n" for x n
  proof -
    have "0 < readers H x" using that(1) H by simp
    then show ?thesis using v[OF that(2)] rl[of x] by (auto simp: lock_value_ok_def TREELOCK_WRITE_def TREELOCK_WAIT_OFFSET_def)
  qed
  have wr: "treelock n = TREELOCK_WRITE" if "h_wnode h = Some x" "f_nodes f x = Some n" for x n
  proof -
    have "0 < writers H x" using that(1) H by simp
    then show ?thesis using v[OF that(2)] by (auto simp: lock_value_ok_def)
  qed
  have "unlock_path f (h_ino h) (h_wnode h) None = Some (Done ?f)"
    by (rule unlock_path_chain[OF p(1,2)]) (use p(3) rd wr w in fastforce)+
  moreover have "locks_ok ?f (H1 @ H2)"
    unfolding locks_ok_def
  proof (intro conjI allI impI ballI)
    fix x n assume "f_nodes ?f x = Some n"
    then obtain m where m: "f_nodes f x = Some m" "treelock n = unlock_fun (h_wnode h) ?A x (treelock m)" by auto
    note v = v[OF m(1)]
    show "lock_value_ok (readers (H1 @ H2) x) (writers (H1 @ H2) x) (treelock n)"
      using v rd[OF _ m(1)] wr[OF _ m(1)] rl[of x] m(2) H
      by (cases "h_wnode h = Some x"; cases "x \<in> ?A")
        (auto simp: lock_value_ok_def unlock_fun_def read_unlock_value_def TREELOCK_WRITE_def TREELOCK_WAIT_OFFSET_def)
  next
    fix k assume "k \<in> set (H1 @ H2)"
    then show "holder_ok ?f k" using ok H by (intro holder_ok_relock_by) (auto simp: locks_ok_def)
  qed (use ok H in \<open>simp add: locks_ok_def\<close>)
  ultimately show ?thesis by blast
qed

lemma locks_ok_wait:
  assumes ok: "locks_ok f H" and m: "wait_marked ino nm f f'"
  shows "locks_ok f' H"
proof -
  obtain w n where w: "f_nodes f w = Some n" "0 < treelock n" and f': "f' = set_treelock w (treelock n + TREELOCK_WAIT_OFFSET) f"
    using m by (auto simp: wait_marked_def)
  have v: "lock_value_ok (readers H w) (writers H w) (treelock n + TREELOCK_WAIT_OFFSET)"
  proof -
    have "lock_value_ok (readers H w) (writers H w) (treelock n)" using ok w by (auto simp: locks_ok_def)
    moreover have "int (readers H w) < 2 ^ 31 - 1" using readers_le[of H w] ok by (simp add: locks_ok_def)
    ultimately show ?thesis using w(2) by (auto simp: lock_value_ok_def TREELOCK_WRITE_def TREELOCK_WAIT_OFFSET_def)
  qed
  have "lock_value_ok (readers H x) (writers H x) (treelock k)" if "f_nodes f' x = Some k" for x k
    using that v ok w by (cases "x = w") (auto simp: f' set_treelock_def locks_ok_def)
  moreover have "holder_ok f' h" if "h \<in> set H" for h
    unfolding f' relock_by_set using that ok by (intro holder_ok_relock_by) (auto simp: locks_ok_def)
  ultimately show ?thesis using ok by (simp add: locks_ok_def)
qed

lemma lock_step_ok: "lock_step s s' \<Longrightarrow> locks_ok (fst s) (snd s) \<Longrightarrow> locks_ok (fst s') (snd s')"
proof (induction rule: lock_step.induct)
  case (lock f ino p xs q H he name want r)
  then have "path_locked f ino name want xs q r" using try_get_path_result[OF lock(1,2,4)] by simp
  then show ?case using lock locks_ok_lock[of f H ino p xs q name want r] by simp
next
  case (lock_fail f ino p xs q he name want r H)
  then show ?case using try_get_path_result[OF lock_fail(1,2,3)] locks_ok_wait[of f H ino _ "pr_fuse r"] by auto
next
  case (unlock H H1 h H2 f f')
  then show ?case using locks_ok_unlock[of f H H1 h H2] by auto
qed

text \<open>States reachable from an unlocked tree by taking and releasing paths.\<close>

inductive lock_reachable :: "fuse \<times> holder list \<Rightarrow> bool" where
  lock_init: "(\<And>p n. f_nodes f p = Some n \<Longrightarrow> treelock n = 0) \<Longrightarrow> lock_reachable (f, [])"
| lock_next: "lock_reachable s \<Longrightarrow> lock_step s s' \<Longrightarrow> lock_reachable s'"

lemma lock_reachable_ok: "lock_reachable s \<Longrightarrow> locks_ok (fst s) (snd s)"
proof (induction rule: lock_reachable.induct)
  case (lock_init f)
  then show ?case by (auto simp: locks_ok_def lock_value_ok_def)
qed (use lock_step_ok in blast)

subsection \<open>Properties\<close>

text \<open>Claim C14 (path_lock_exclusion). However threads interleave taking and releasing paths (with
  failed attempts in between), a node that one thread holds for writing is held by no other
  thread, neither for writing nor as part of a path; and any thread that holds a path can
  release it: no assertion of \<open>unlock_path\<close> fails and its loop ends.\<close>

theorem path_lock_exclusion:
  assumes "lock_reachable (f, H)"
  shows "(\<forall>p. f_nodes f p \<noteq> None \<longrightarrow> writers H p \<le> 1 \<and> (writers H p = 1 \<longrightarrow> readers H p = 0)) \<and>
    (\<forall>h \<in> set H. \<exists>f'. unlock_path f (h_ino h) (h_wnode h) None = Some (Done f'))"
proof -
  have ok: "locks_ok f H" using lock_reachable_ok[OF assms] by simp
  have "writers H p \<le> 1 \<and> (writers H p = 1 \<longrightarrow> readers H p = 0)" if "f_nodes f p \<noteq> None" for p
  proof -
    obtain n where "f_nodes f p = Some n" using \<open>f_nodes f p \<noteq> None\<close> by blast
    then have "lock_value_ok (readers H p) (writers H p) (treelock n)" using ok by (auto simp: locks_ok_def)
    then show ?thesis by (auto simp: lock_value_ok_def)
  qed
  moreover have "\<exists>f'. unlock_path f (h_ino h) (h_wnode h) None = Some (Done f')" if "h \<in> set H" for h
    using that locks_ok_unlock[OF ok] by (metis in_set_conv_decomp)
  ultimately show ?thesis by blast
qed

text \<open>Claim C32 (try_get_path_roundtrip). A successful \<open>try_get_path\<close> returns the path string of the
  node (the names from the root down, and the given last component), with the path
  read-locked and the node itself write-locked if that was asked; releasing it with
  \<open>unlock_path\<close> gives back exactly the state before.\<close>

theorem try_get_path_roundtrip:
  assumes p: "get_node f ino = Done p" and up: "up_path f p xs q"
    and r: "try_get_path he f ino name want True = Some (Done r)" and ok: "pr_err r = 0"
    and nul: "no_nul (chain_str xs)" "no_nul (name_str name)"
  shows "pr_path r = Some (if chain_str xs @ name_str name = [] then ''/'' else chain_str xs @ name_str name) \<and>
    unlock_path (pr_fuse r) ino (pr_wnode r) None = Some (Done f)"
proof -
  have l: "path_locked f ino name want xs q r"
    and s: "pr_path r = Some (if chain_str xs @ name_str name = [] then ''/'' else chain_str xs @ name_str name)"
    using try_get_path_result[OF p up r] ok nul by presburger+
  let ?f1 = "relock_by (lock_fun (pr_wnode r) {}) f"
  have w: "\<forall>w'. pr_wnode r = Some w' \<longrightarrow> (\<exists>n. f_nodes f w' = Some n \<and> treelock n = 0)"
    and wx: "\<forall>w'. pr_wnode r = Some w' \<longrightarrow> w' \<notin> fst ` set xs"
    and rd: "\<forall>x \<in> set xs. \<forall>n. f_nodes f (fst x) = Some n \<longrightarrow> 0 \<le> treelock n" and root: "nid f q = FUSE_ROOT_ID"
    and f2: "pr_fuse r = relock_by (lock_fun (pr_wnode r) (fst ` set xs)) f" using l by (auto simp: path_locked_def)
  have "pr_fuse r = locked True xs ?f1"
    unfolding f2 locked_def if_True relock_by_relock relock_by_comp
    by (rule relock_by_cong) (use wx in \<open>auto simp: lock_fun_def\<close>)
  moreover have "\<forall>y \<in> set xs. \<forall>n. f_nodes ?f1 (fst y) = Some n \<longrightarrow> 0 \<le> treelock n"
    using rd wx by (auto simp: lock_fun_def)
  moreover have "up_path f p (xs @ []) q" using up by simp
  ultimately show ?thesis
    using unlock_partial(4)[OF p _ refl w, of xs "[]" q "pr_fuse r" None] root s by simp
qed

lemma try_get_path_walk:
  assumes p: "get_node f ino = Done p" and up: "up_path f p xs q" and mem: "malloc_ok he" "\<forall>k. realloc_ok he k"
    and len: "length (chain_str xs) + length (name_str name) < 0xffffffff"
    and b: "(case name of None \<Rightarrow> Some (Some (init_path_buf he)) | Some nm \<Rightarrow> add_name he (init_path_buf he) nm) = Some (Some b)"
    and wl: "(if want then write_lock f ino (case name of None \<Rightarrow> [] | Some nm \<Rightarrow> nm) else Done (Inr None, f)) = Done (Inr w, f1)"
  shows "\<exists>r. try_get_path he f ino name want True = Some (Done r) \<and> pr_err r \<in> {0, - ESTALE, - EAGAIN}"
proof -
  note w = lock_start[OF wl] and sb = start_buf_text[OF b]
  have up1: "up_path f1 p xs q" unfolding w(3) by (rule up_path_relock_by[OF up])
  have "length (chain_str xs @ pb_text b) \<le> 0xffffffff" using len sb(2) by simp
  then obtain err f2 s b' where lp: "path_loop he True f1 p b = Some (Done (err, f2, s, b'))" "err \<noteq> - ENOMEM"
    using path_loop_returns[OF up1 sb(1,3) mem(2), where nl = True] by blast
  obtain ys zs where yz: "xs = ys @ zs" "f2 = locked True ys f1" "s = hd (map fst zs @ [q])"
    "\<forall>y \<in> set ys. \<forall>n. f_nodes f1 (fst y) = Some n \<longrightarrow> 0 \<le> treelock n" "err \<in> {0, - ESTALE, - ENOMEM, - EAGAIN}"
    using path_loop_result[OF up1 lp(1) sb(1,3)] by auto
  have "unlock_path f2 ino w (Some s) = Some (Done f)"
    using unlock_partial(4)[OF p up[unfolded yz(1)] w(3) w(2) yz(4) yz(2), of "Some s"] yz(3) by simp
  moreover have "get_node f1 ino = Done p" using p by (simp add: w(3))
  moreover have m: "(\<not> malloc_ok he) = False" using mem by simp
  ultimately have "try_get_path he f ino name want True = Some (Done (if err = 0
      then \<lparr>pr_err = 0, pr_path = Some (finish_path b'), pr_wnode = w, pr_fuse = f2\<rparr> else path_fail err f))"
    unfolding try_get_path_def if_True unfolding b wl m if_False option.case outcome.case prod.case sum.case
    using lp(1) by simp
  then show ?thesis using yz(5) lp(2) by (auto simp: path_fail_def)
qed


text \<open>A concrete run for the witnesses: write-locking \<open>/a\<close>.\<close>

definition heap_env0 :: heap_env where
  "heap_env0 = \<lparr>malloc_ok = True, realloc_ok = \<lambda>_. True, junk = CHR ''x''\<rparr>"

lemma example_path:
  "\<exists>f r. tree_ok f \<and> calm id f \<and> get_node f FUSE_ROOT_ID = Done 0 \<and> up_path f 0 [] 0 \<and>
     try_get_path heap_env0 f FUSE_ROOT_ID (Some ''a'') True True = Some (Done r) \<and> pr_err r = 0 \<and>
     pr_wnode r = Some 1 \<and> f_nodes (pr_fuse r) 1 \<noteq> None"
proof -
  obtain f n where f: "tree_ok f" "calm id f" "f_nodes f 1 = Some n" "lookup_node f FUSE_ROOT_ID ''a'' = Some 1"
    "get_node f FUSE_ROOT_ID = Done 0" "\<exists>z. f_nodes f 0 = Some z \<and> 0 < nlookup z" and al: "alive f = {0, 1}"
    using example_tree by blast
  obtain z where z: "f_nodes f 0 = Some z" using f(6) by blast
  have "nid f 0 = FUSE_ROOT_ID" using f(1,5) get_node_iff[of "{}" f FUSE_ROOT_ID 0] by (simp add: tree_ok_def core_inv_def)
  then have zr: "nodeid z = FUSE_ROOT_ID" using z by (simp add: nid_def)
  have up: "up_path f 0 [] 0" using up_stop[OF z] zr by (simp add: chain_stop_def)
  obtain b where b: "add_name heap_env0 (init_path_buf heap_env0) ''a'' = Some (Some b)"
    using add_name_returns[OF init_path_buf_ok(1), of heap_env0 "''a''" heap_env0] init_path_buf_ok(3)[of heap_env0]
    by (auto simp: heap_env0_def)
  have t: "treelock n = 0" using f(2,3) by (auto simp: calm_def)
  let ?f1 = "set_treelock 1 TREELOCK_WRITE f"
  have wl: "write_lock f FUSE_ROOT_ID ''a'' = Done (Inr (Some 1), ?f1)" using f(3,4) t by (simp add: write_lock_def)
  have g: "get_node ?f1 FUSE_ROOT_ID = Done 0" using f(5) by (simp add: relock_by_set)
  have z1: "f_nodes ?f1 0 = Some z" using z by (simp add: set_treelock_def)
  have lp: "path_loop heap_env0 True ?f1 0 b = Some (Done (0, ?f1, 0, b))"
    using path_loop_stop[OF z1, of heap_env0 True b] zr by (simp add: chain_stop_def)
  have "try_get_path heap_env0 f FUSE_ROOT_ID (Some ''a'') True True =
     Some (Done \<lparr>pr_err = 0, pr_path = Some (finish_path b), pr_wnode = Some 1, pr_fuse = ?f1\<rparr>)"
    using b wl g lp by (simp add: try_get_path_def) (simp add: heap_env0_def)
  then show ?thesis using f up by (auto simp: set_treelock_def)
qed

theorem path_lock_exclusion_witness:
  "\<exists>f h. lock_reachable (f, [h]) \<and> h_wnode h = Some 1 \<and> writers [h] 1 = 1 \<and> readers [h] 1 = 0 \<and>
     (\<exists>f'. unlock_path f (h_ino h) (h_wnode h) None = Some (Done f'))"
proof -
  obtain f r where f: "calm id f" "get_node f FUSE_ROOT_ID = Done 0" "up_path f 0 [] 0"
    "try_get_path heap_env0 f FUSE_ROOT_ID (Some ''a'') True True = Some (Done r)" "pr_err r = 0" "pr_wnode r = Some 1"
    and al: "f_nodes (pr_fuse r) 1 \<noteq> None"
    using example_path by blast
  let ?h = "\<lparr>h_ino = FUSE_ROOT_ID, h_wnode = pr_wnode r, h_chain = []\<rparr>"
  have "lock_reachable (f, [])" using f(1) by (intro lock_init) (auto simp: calm_def)
  moreover have "lock_step (f, []) (pr_fuse r, [?h])" using lock[OF f(2,3) _ f(4,5), of "[]"] by simp
  ultimately have l: "lock_reachable (pr_fuse r, [?h])" by (rule lock_next)
  show ?thesis using path_lock_exclusion[OF l] l f(6) al by (intro exI[of _ "pr_fuse r"] exI[of _ ?h]) auto
qed

theorem try_get_path_roundtrip_witness:
  "\<exists>f r. try_get_path heap_env0 f FUSE_ROOT_ID (Some ''a'') True True = Some (Done r) \<and> pr_path r = Some ''/a'' \<and>
     pr_wnode r = Some 1 \<and> unlock_path (pr_fuse r) FUSE_ROOT_ID (pr_wnode r) None = Some (Done f)"
proof -
  obtain f r where f: "get_node f FUSE_ROOT_ID = Done 0" "up_path f 0 [] 0"
    "try_get_path heap_env0 f FUSE_ROOT_ID (Some ''a'') True True = Some (Done r)" "pr_err r = 0" "pr_wnode r = Some 1"
    using example_path by blast
  show ?thesis using try_get_path_roundtrip[OF f(1-4)] f(3,5)
    by (intro exI[of _ f] exI[of _ r]) (auto simp: no_nul_def name_str_def)
qed


end
