(* ===== verification/Fuse_Opt.thy ===== *)
theory Fuse_Opt
  imports Fuse_Prelude
begin

text \<open>
  The option parser of the library (\<open>libfuse/lib/fuse_opt.c\<close>): argument vectors, option templates, the
  comma separated groups after \<open>-o\<close> with their escapes, and the parse of a whole command line.

  A C string is a list of characters without the terminating zero. An argument vector is the list of its
  \<open>argc\<close> strings, or \<open>None\<close> for a null pointer. A failed \<open>assert\<close>, a write behind an allocated buffer and a read
  behind the end of \<open>argv\<close> are \<open>Aborted\<close>. Each allocation takes the next element of a list that says
  whether it succeeds; behind its end all do. The memory behind \<open>data\<close>, the \<open>sscanf\<close> formats and the
  processing function belong to the caller and are parameters. Log messages are not modelled.
\<close>

subsection \<open>Data\<close>

record opt_args =
  oa_argv :: "string list option"
  oa_allocated :: bool

abbreviation oa_list :: "opt_args \<Rightarrow> string list" where
  "oa_list a \<equiv> (case oa_argv a of None \<Rightarrow> [] | Some l \<Rightarrow> l)"

abbreviation oa_argc :: "opt_args \<Rightarrow> nat" where
  "oa_argc a \<equiv> length (oa_list a)"

text \<open>An option description; the list of them ends at its end, not with a null template.\<close>

record fuse_opt =
  templ :: string
  opt_offset :: nat
  opt_value :: int

definition KEY_OFFSET :: nat where "KEY_OFFSET = 2 ^ 32 - 1"

definition FUSE_OPT_KEY :: "string \<Rightarrow> int \<Rightarrow> fuse_opt" where
  "FUSE_OPT_KEY t k = \<lparr>templ = t, opt_offset = KEY_OFFSET, opt_value = k\<rparr>"

definition FUSE_OPT_KEY_OPT :: int where "FUSE_OPT_KEY_OPT = -1"
definition FUSE_OPT_KEY_NONOPT :: int where "FUSE_OPT_KEY_NONOPT = -2"
definition FUSE_OPT_KEY_KEEP :: int where "FUSE_OPT_KEY_KEEP = -3"
definition FUSE_OPT_KEY_DISCARD :: int where "FUSE_OPT_KEY_DISCARD = -4"

text \<open>The constant part of \<open>struct fuse_opt_context\<close>: options, processing function, argument vector, and what
  a store through a pointer into \<open>data\<close> does: an integer, a string (the old one is freed), and a successful
  \<open>sscanf\<close> (\<open>None\<close>: it does not assign exactly one value).\<close>

record 'd opt_env =
  ev_opt :: "fuse_opt list"
  ev_proc :: "('d \<Rightarrow> string \<Rightarrow> int \<Rightarrow> opt_args \<Rightarrow> int \<times> 'd \<times> opt_args) option"
  ev_argv :: "string list"
  ev_int :: "nat \<Rightarrow> int \<Rightarrow> 'd \<Rightarrow> 'd"
  ev_str :: "nat \<Rightarrow> string \<Rightarrow> 'd \<Rightarrow> 'd"
  ev_scan :: "nat \<Rightarrow> string \<Rightarrow> string \<Rightarrow> 'd \<Rightarrow> 'd option"

text \<open>The part that changes.\<close>

record 'd fuse_opt_context =
  cx_data :: 'd
  cx_argctr :: nat
  cx_outargs :: opt_args
  cx_opts :: "string option"
  cx_nonopt :: nat
  cx_mem :: "bool list"

subsection \<open>Argument vectors\<close>

definition alloc :: "bool list \<Rightarrow> bool \<times> bool list" where
  "alloc mem = (case mem of [] \<Rightarrow> (True, []) | b # bs \<Rightarrow> (b, bs))"

definition fuse_opt_free_args :: "opt_args \<Rightarrow> opt_args" where
  "fuse_opt_free_args args = \<lparr>oa_argv = None, oa_allocated = False\<rparr>"

definition fuse_opt_add_arg :: "opt_args \<Rightarrow> string \<Rightarrow> bool list \<Rightarrow> (int \<times> opt_args \<times> bool list) outcome" where
  "fuse_opt_add_arg args arg mem =
     (if oa_argv args \<noteq> None \<and> \<not> oa_allocated args then Aborted
      else (case alloc mem of
          (False, m1) \<Rightarrow> Done (-1, args, m1)
        | (True, m1) \<Rightarrow> (case alloc m1 of
            (False, m2) \<Rightarrow> Done (-1, args, m2)
          | (True, m2) \<Rightarrow> Done (0, \<lparr>oa_argv = Some (oa_list args @ [arg]), oa_allocated = True\<rparr>, m2))))"

definition fuse_opt_insert_arg :: "opt_args \<Rightarrow> nat \<Rightarrow> string \<Rightarrow> bool list \<Rightarrow> (int \<times> opt_args \<times> bool list) outcome" where
  "fuse_opt_insert_arg args pos arg mem =
     (if oa_argc args < pos then Aborted
      else obind (fuse_opt_add_arg args arg mem) (\<lambda>(res, args1, m1).
        if res = -1 then Done (-1, args1, m1)
        else if pos \<noteq> oa_argc args1 - 1
        then (let v = oa_list args1; newarg = v ! (length v - 1)
              in Done (0, args1\<lparr>oa_argv := Some (take pos v @ newarg # take (length v - pos - 1) (drop pos v))\<rparr>, m1))
        else Done (0, args1, m1)))"

definition next_arg :: "'d opt_env \<Rightarrow> 'd fuse_opt_context \<Rightarrow> int \<times> 'd fuse_opt_context" where
  "next_arg ev ctx = (if length (ev_argv ev) \<le> cx_argctr ctx + 1 then (-1, ctx)
     else (0, ctx\<lparr>cx_argctr := cx_argctr ctx + 1\<rparr>))"

definition add_arg :: "'d fuse_opt_context \<Rightarrow> string \<Rightarrow> (int \<times> 'd fuse_opt_context) outcome" where
  "add_arg ctx arg = obind (fuse_opt_add_arg (cx_outargs ctx) arg (cx_mem ctx)) (\<lambda>(res, args, m).
     Done (res, ctx\<lparr>cx_outargs := args, cx_mem := m\<rparr>))"

fun escape_opt :: "bool \<Rightarrow> string \<Rightarrow> string" where
  "escape_opt esc [] = []"
| "escape_opt esc (c # cs) = (if esc \<and> (c = CHR '','' \<or> c = CHR 0x5C) then [CHR 0x5C, c] else [c]) @ escape_opt esc cs"

text \<open>The buffer has room for \<open>oldlen + 1 + 2 * strlen(opt) + 1\<close> characters.\<close>

definition add_opt_common :: "string option \<Rightarrow> string \<Rightarrow> bool \<Rightarrow> bool list \<Rightarrow> (int \<times> string option \<times> bool list) outcome" where
  "add_opt_common opts opt esc mem =
     (let old = (case opts of None \<Rightarrow> [] | Some s \<Rightarrow> s); oldlen = length old
      in case alloc mem of
          (False, m1) \<Rightarrow> Done (-1, opts, m1)
        | (True, m1) \<Rightarrow>
            (let d = (if oldlen \<noteq> 0 then old @ [CHR '',''] else old) @ escape_opt esc opt
             in if oldlen + 1 + length opt * 2 + 1 < length d + 1 then Aborted else Done (0, Some d, m1)))"

definition fuse_opt_add_opt :: "string option \<Rightarrow> string \<Rightarrow> bool list \<Rightarrow> (int \<times> string option \<times> bool list) outcome" where
  "fuse_opt_add_opt opts opt mem = add_opt_common opts opt False mem"

definition fuse_opt_add_opt_escaped :: "string option \<Rightarrow> string \<Rightarrow> bool list \<Rightarrow> (int \<times> string option \<times> bool list) outcome" where
  "fuse_opt_add_opt_escaped opts opt mem = add_opt_common opts opt True mem"

definition add_opt :: "'d fuse_opt_context \<Rightarrow> string \<Rightarrow> (int \<times> 'd fuse_opt_context) outcome" where
  "add_opt ctx opt = obind (add_opt_common (cx_opts ctx) opt True (cx_mem ctx)) (\<lambda>(res, opts, m).
     Done (res, ctx\<lparr>cx_opts := opts, cx_mem := m\<rparr>))"

definition call_proc :: "'d opt_env \<Rightarrow> 'd fuse_opt_context \<Rightarrow> string \<Rightarrow> int \<Rightarrow> bool \<Rightarrow> (int \<times> 'd fuse_opt_context) outcome" where
  "call_proc ev ctx arg key isopt =
     (if key = FUSE_OPT_KEY_DISCARD then Done (0, ctx)
      else
       (let add = (\<lambda>ctx. if isopt then add_opt ctx arg else add_arg ctx arg)
        in case (if key \<noteq> FUSE_OPT_KEY_KEEP then ev_proc ev else None) of
            None \<Rightarrow> add ctx
          | Some proc \<Rightarrow> (case proc (cx_data ctx) arg key (cx_outargs ctx) of (res, data, outargs) \<Rightarrow>
              (let ctx1 = ctx\<lparr>cx_data := data, cx_outargs := outargs\<rparr>
               in if res = -1 \<or> res = 0 then Done (res, ctx1) else add ctx1))))"

subsection \<open>Templates\<close>

definition strchr :: "string \<Rightarrow> char \<Rightarrow> nat option" where
  "strchr s c = (if c \<in> set s then Some (length (takeWhile (\<lambda>x. x \<noteq> c) s)) else None)"

text \<open>\<open>Some sep\<close>: the template matches and \<open>*sepp\<close> is \<open>sep\<close>.\<close>

definition match_template :: "string \<Rightarrow> string \<Rightarrow> nat option" where
  "match_template t arg =
     (let sep = (case strchr t (CHR ''='') of Some i \<Rightarrow> Some i | None \<Rightarrow> strchr t (CHR '' ''));
          found = (case sep of
             None \<Rightarrow> None
           | Some i \<Rightarrow>
               if i + 1 = length t \<or> t ! (i + 1) = CHR ''%''
               then (let tlen = (if t ! i = CHR ''='' then i + 1 else i)
                     in if tlen \<le> length arg \<and> take tlen arg = take tlen t then Some i else None)
               else None)
      in case found of Some i \<Rightarrow> Some i | None \<Rightarrow> if t = arg then Some 0 else None)"

text \<open>The matching option, \<open>sep\<close>, and the options behind it.\<close>

fun find_opt :: "fuse_opt list \<Rightarrow> string \<Rightarrow> (fuse_opt \<times> nat \<times> fuse_opt list) option" where
  "find_opt [] arg = None"
| "find_opt (opt # opts) arg =
     (case match_template (templ opt) arg of Some sep \<Rightarrow> Some (opt, sep, opts) | None \<Rightarrow> find_opt opts arg)"

definition fuse_opt_match :: "fuse_opt list \<Rightarrow> string \<Rightarrow> int" where
  "fuse_opt_match opts opt = (if find_opt opts opt \<noteq> None then 1 else 0)"

definition process_opt_param ::
  "'d opt_env \<Rightarrow> 'd fuse_opt_context \<Rightarrow> nat \<Rightarrow> string \<Rightarrow> string \<Rightarrow> (int \<times> 'd fuse_opt_context) outcome" where
  "process_opt_param ev ctx var format param =
     (if format = [] \<or> format ! 0 \<noteq> CHR ''%'' then Aborted
      else if 1 < length format \<and> format ! 1 = CHR ''s''
      then (case alloc (cx_mem ctx) of
          (False, m) \<Rightarrow> Done (-1, ctx\<lparr>cx_mem := m\<rparr>)
        | (True, m) \<Rightarrow> Done (0, ctx\<lparr>cx_mem := m, cx_data := ev_str ev var param (cx_data ctx)\<rparr>))
      else (case ev_scan ev var format param (cx_data ctx) of
          None \<Rightarrow> Done (-1, ctx)
        | Some d \<Rightarrow> Done (0, ctx\<lparr>cx_data := d\<rparr>)))"

definition process_opt ::
  "'d opt_env \<Rightarrow> 'd fuse_opt_context \<Rightarrow> fuse_opt \<Rightarrow> nat \<Rightarrow> string \<Rightarrow> bool \<Rightarrow> (int \<times> 'd fuse_opt_context) outcome" where
  "process_opt ev ctx opt sep arg isopt =
     (if opt_offset opt = KEY_OFFSET
      then obind (call_proc ev ctx arg (opt_value opt) isopt) (\<lambda>(res, ctx1). Done (if res = -1 then -1 else 0, ctx1))
      else if sep \<noteq> 0 \<and> sep + 1 < length (templ opt)
      then (let param = drop (if templ opt ! sep = CHR ''='' then sep + 1 else sep) arg
            in process_opt_param ev ctx (opt_offset opt) (drop (sep + 1) (templ opt)) param)
      else Done (0, ctx\<lparr>cx_data := ev_int ev (opt_offset opt) (opt_value opt) (cx_data ctx)\<rparr>))"

definition process_opt_sep_arg ::
  "'d opt_env \<Rightarrow> 'd fuse_opt_context \<Rightarrow> fuse_opt \<Rightarrow> nat \<Rightarrow> string \<Rightarrow> bool \<Rightarrow> (int \<times> 'd fuse_opt_context) outcome" where
  "process_opt_sep_arg ev ctx opt sep arg isopt =
     (case next_arg ev ctx of
        (res, ctx1) \<Rightarrow>
          if res = -1 then Done (-1, ctx1)
          else if length (ev_argv ev) \<le> cx_argctr ctx1 then Aborted
          else (case alloc (cx_mem ctx1) of
              (False, m) \<Rightarrow> Done (-1, ctx1\<lparr>cx_mem := m\<rparr>)
            | (True, m) \<Rightarrow> process_opt ev (ctx1\<lparr>cx_mem := m\<rparr>) opt sep (take sep arg @ ev_argv ev ! cx_argctr ctx1) isopt))"

lemma find_opt_shorter: "find_opt opts arg = Some (opt, sep, rest) \<Longrightarrow> length rest < length opts"
  by (induction opts) (auto split: option.splits)

text \<open>The loop of \<open>process_gopt\<close> from a match on.\<close>

function process_gopt_loop ::
  "'d opt_env \<Rightarrow> fuse_opt list \<Rightarrow> string \<Rightarrow> bool \<Rightarrow> 'd fuse_opt_context \<Rightarrow> (int \<times> 'd fuse_opt_context) outcome" where
  "process_gopt_loop ev opts arg isopt ctx =
     (case find_opt opts arg of
        None \<Rightarrow> Done (0, ctx)
      | Some (opt, sep, rest) \<Rightarrow>
          obind (if sep \<noteq> 0 \<and> templ opt ! sep = CHR '' '' \<and> length arg \<le> sep
                 then process_opt_sep_arg ev ctx opt sep arg isopt else process_opt ev ctx opt sep arg isopt) (\<lambda>(res, ctx1).
            if res = -1 then Done (-1, ctx1) else process_gopt_loop ev rest arg isopt ctx1))"
  by pat_completeness auto
termination
  by (relation "measure (\<lambda>(ev, opts, arg, isopt, ctx). length opts)") (auto dest: find_opt_shorter)

declare process_gopt_loop.simps [simp del]

definition process_gopt :: "'d opt_env \<Rightarrow> 'd fuse_opt_context \<Rightarrow> string \<Rightarrow> bool \<Rightarrow> (int \<times> 'd fuse_opt_context) outcome" where
  "process_gopt ev ctx arg isopt =
     (if find_opt (ev_opt ev) arg \<noteq> None then process_gopt_loop ev (ev_opt ev) arg isopt ctx
      else call_proc ev ctx arg FUSE_OPT_KEY_OPT isopt)"

subsection \<open>Option groups\<close>

definition is_digit_upto :: "nat \<Rightarrow> char \<Rightarrow> bool" where
  "is_digit_upto k c \<longleftrightarrow> 48 \<le> (of_char c :: nat) \<and> (of_char c :: nat) \<le> 48 + k"

text \<open>One character that is not a separator is read from \<open>c # s\<close>: the character it stands for, and what follows.\<close>

definition unescape :: "char \<Rightarrow> string \<Rightarrow> char \<times> string" where
  "unescape c s =
     (if c = CHR 0x5C \<and> s \<noteq> []
      then (if 3 \<le> length s \<and> is_digit_upto 3 (s ! 0) \<and> is_digit_upto 7 (s ! 1) \<and> is_digit_upto 7 (s ! 2)
            then (char_of ((of_char (s ! 0) - 48) * 64 + (of_char (s ! 1) - 48) * 8 + (of_char (s ! 2) - 48) :: nat), drop 3 s)
            else (hd s, tl s))
      else (c, s))"

lemma unescape_shorter: "length (snd (unescape c s)) \<le> length s"
  by (auto simp: unescape_def)

text \<open>The buffer up to its first zero, as \<open>process_gopt\<close> sees it.\<close>

definition c_str :: "string \<Rightarrow> string" where
  "c_str d = takeWhile (\<lambda>c. c \<noteq> CHR 0x00) d"

function process_real_option_group ::
  "'d opt_env \<Rightarrow> string \<Rightarrow> string \<Rightarrow> 'd fuse_opt_context \<Rightarrow> (int \<times> 'd fuse_opt_context) outcome" where
  "process_real_option_group ev [] d ctx =
     obind (process_gopt ev ctx (c_str d) True) (\<lambda>(res, ctx1). Done (if res = -1 then -1 else 0, ctx1))"
| "process_real_option_group ev (c # s) d ctx =
     (if c = CHR '',''
      then obind (process_gopt ev ctx (c_str d) True) (\<lambda>(res, ctx1).
             if res = -1 then Done (-1, ctx1) else process_real_option_group ev s [] ctx1)
      else (let u = unescape c s in process_real_option_group ev (snd u) (d @ [fst u]) ctx))"
  by pat_completeness auto
termination
  by (relation "measure (\<lambda>(ev, s, d, ctx). length s)") (auto simp: unescape_shorter le_imp_less_Suc)

definition process_option_group :: "'d opt_env \<Rightarrow> 'd fuse_opt_context \<Rightarrow> string \<Rightarrow> (int \<times> 'd fuse_opt_context) outcome" where
  "process_option_group ev ctx opts =
     (case alloc (cx_mem ctx) of
        (False, m) \<Rightarrow> Done (-1, ctx\<lparr>cx_mem := m\<rparr>)
      | (True, m) \<Rightarrow> process_real_option_group ev opts [] (ctx\<lparr>cx_mem := m\<rparr>))"

subsection \<open>Command lines\<close>

definition process_one :: "'d opt_env \<Rightarrow> 'd fuse_opt_context \<Rightarrow> string \<Rightarrow> (int \<times> 'd fuse_opt_context) outcome" where
  "process_one ev ctx arg =
     (if cx_nonopt ctx \<noteq> 0 \<or> arg = [] \<or> arg ! 0 \<noteq> CHR ''-'' then call_proc ev ctx arg FUSE_OPT_KEY_NONOPT False
      else if 2 \<le> length arg \<and> arg ! 1 = CHR ''o''
      then (if 3 \<le> length arg then process_option_group ev ctx (drop 2 arg)
            else (case next_arg ev ctx of (res, ctx1) \<Rightarrow>
              if res = -1 then Done (-1, ctx1)
              else if length (ev_argv ev) \<le> cx_argctr ctx1 then Aborted
              else process_option_group ev ctx1 (ev_argv ev ! cx_argctr ctx1)))
      else if arg = ''--''
      then obind (add_arg ctx arg) (\<lambda>(res, ctx1).
             if res = -1 then Done (-1, ctx1) else Done (0, ctx1\<lparr>cx_nonopt := oa_argc (cx_outargs ctx1)\<rparr>))
      else process_gopt ev ctx arg False)"

lemmas argctr_defs = add_arg_def add_opt_def call_proc_def process_opt_param_def process_opt_def process_opt_sep_arg_def next_arg_def

lemma call_proc_argctr: "call_proc ev ctx arg key isopt = Done (r, ctx1) \<Longrightarrow> cx_argctr ctx1 = cx_argctr ctx"
  by (auto simp: call_proc_def add_arg_def add_opt_def Let_def split: if_splits option.splits prod.splits)

lemma process_opt_argctr: "process_opt ev ctx opt sep arg isopt = Done (r, ctx1) \<Longrightarrow> cx_argctr ctx1 = cx_argctr ctx"
  by (auto simp: process_opt_def process_opt_param_def Let_def dest: call_proc_argctr split: if_splits option.splits prod.splits bool.splits)

lemma sep_arg_argctr: "process_opt_sep_arg ev ctx opt sep arg isopt = Done (r, ctx1) \<Longrightarrow> cx_argctr ctx \<le> cx_argctr ctx1"
  by (auto simp: process_opt_sep_arg_def next_arg_def dest: process_opt_argctr split: if_splits prod.splits bool.splits)

lemma gopt_loop_argctr: "process_gopt_loop ev opts arg isopt ctx = Done (r, ctx1) \<Longrightarrow> cx_argctr ctx \<le> cx_argctr ctx1"
proof (induction ev opts arg isopt ctx rule: process_gopt_loop.induct)
  case (1 ev opts arg isopt ctx)
  show ?case
  proof (cases "find_opt opts arg")
    case None
    then show ?thesis using 1(2) by (simp add: process_gopt_loop.simps[of ev opts])
  next
    case (Some z)
    obtain opt sep rest where z: "z = (opt, sep, rest)" by (cases z) auto
    let ?step = "if sep \<noteq> 0 \<and> templ opt ! sep = CHR '' '' \<and> length arg \<le> sep
                 then process_opt_sep_arg ev ctx opt sep arg isopt else process_opt ev ctx opt sep arg isopt"
    obtain res c where c: "?step = Done (res, c)" and k: "(if res = -1 then Done (-1, c) else process_gopt_loop ev rest arg isopt c) = Done (r, ctx1)"
      using 1(2) Some z by (auto simp: process_gopt_loop.simps[of ev opts])
    have le: "cx_argctr ctx \<le> cx_argctr c"
    proof (cases "sep \<noteq> 0 \<and> templ opt ! sep = CHR '' '' \<and> length arg \<le> sep")
      case True
      then show ?thesis using c by (intro sep_arg_argctr) simp
    next
      case False
      then have "process_opt ev ctx opt sep arg isopt = Done (res, c)" using c by (simp only: if_not_P if_False)
      then show ?thesis using process_opt_argctr by fastforce
    qed
    show ?thesis
    proof (cases "res = -1")
      case True
      then show ?thesis using k le by simp
    next
      case False
      then have "process_gopt_loop ev rest arg isopt c = Done (r, ctx1)" using k by simp
      from 1(1)[OF Some[unfolded z] refl refl c refl False this] le show ?thesis by simp
    qed
  qed
qed

lemma gopt_argctr: "process_gopt ev ctx arg isopt = Done (r, ctx1) \<Longrightarrow> cx_argctr ctx \<le> cx_argctr ctx1"
  by (auto simp: process_gopt_def dest: gopt_loop_argctr call_proc_argctr split: if_splits)

lemma group_argctr: "process_real_option_group ev s d ctx = Done (r, ctx1) \<Longrightarrow> cx_argctr ctx \<le> cx_argctr ctx1"
proof (induction ev s d ctx rule: process_real_option_group.induct)
  case (1 ev d ctx)
  then show ?case by (auto dest: gopt_argctr split: if_splits prod.splits)
next
  case (2 ev c s d ctx)
  show ?case
  proof (cases "c = CHR '',''")
    case True
    then obtain res c1 where g: "process_gopt ev ctx (c_str d) True = Done (res, c1)"
      and k: "(if res = -1 then Done (-1, c1) else process_real_option_group ev s [] c1) = Done (r, ctx1)" using 2(3) by auto
    show ?thesis
    proof (cases "res = -1")
      case False
      then show ?thesis using 2(1)[OF True g refl False] k gopt_argctr[OF g] by simp
    qed (use k gopt_argctr[OF g] in simp)
  next
    case False
    then show ?thesis using 2(2)[OF False refl] 2(3) by (simp add: Let_def)
  qed
qed

lemma process_one_argctr: "process_one ev ctx arg = Done (r, ctx1) \<Longrightarrow> cx_argctr ctx \<le> cx_argctr ctx1"
  by (auto simp: process_one_def process_option_group_def next_arg_def add_arg_def dest: call_proc_argctr gopt_argctr group_argctr
    split: if_splits prod.splits bool.splits)

text \<open>The loop over the arguments; the counter may be advanced inside.\<close>

function opt_parse_loop :: "'d opt_env \<Rightarrow> 'd fuse_opt_context \<Rightarrow> (int \<times> 'd fuse_opt_context) outcome" where
  "opt_parse_loop ev ctx =
     (if cx_argctr ctx < length (ev_argv ev)
      then obind (process_one ev ctx (ev_argv ev ! cx_argctr ctx)) (\<lambda>(res, ctx1).
             if res = -1 then Done (-1, ctx1) else opt_parse_loop ev (ctx1\<lparr>cx_argctr := cx_argctr ctx1 + 1\<rparr>))
      else Done (0, ctx))"
  by pat_completeness auto
termination
  by (relation "measure (\<lambda>(ev, ctx). length (ev_argv ev) - cx_argctr ctx)") (auto dest!: process_one_argctr)

declare opt_parse_loop.simps [simp del]

definition insert_opts :: "'d fuse_opt_context \<Rightarrow> (int \<times> 'd fuse_opt_context) outcome" where
  "insert_opts ctx = (case cx_opts ctx of
     None \<Rightarrow> Done (0, ctx)
   | Some opts \<Rightarrow> obind (fuse_opt_insert_arg (cx_outargs ctx) 1 ''-o'' (cx_mem ctx)) (\<lambda>(res, a1, m1).
       if res = -1 then Done (-1, ctx\<lparr>cx_outargs := a1, cx_mem := m1\<rparr>)
       else obind (fuse_opt_insert_arg a1 2 opts m1) (\<lambda>(res2, a2, m2).
         Done (if res2 = -1 then -1 else 0, ctx\<lparr>cx_outargs := a2, cx_mem := m2\<rparr>))))"

definition drop_separator :: "'d fuse_opt_context \<Rightarrow> 'd fuse_opt_context" where
  "drop_separator ctx =
     (let v = oa_list (cx_outargs ctx)
      in if cx_nonopt ctx \<noteq> 0 \<and> cx_nonopt ctx = length v \<and> v ! (length v - 1) = ''--''
         then ctx\<lparr>cx_outargs := (cx_outargs ctx)\<lparr>oa_argv := Some (take (length v - 1) v)\<rparr>\<rparr> else ctx)"

definition opt_parse :: "'d opt_env \<Rightarrow> 'd fuse_opt_context \<Rightarrow> (int \<times> 'd fuse_opt_context) outcome" where
  "opt_parse ev ctx =
     obind (if ev_argv ev \<noteq> [] then add_arg ctx (ev_argv ev ! 0) else Done (0, ctx)) (\<lambda>(res, ctx1).
       if res = -1 then Done (-1, ctx1)
       else obind (opt_parse_loop ev (ctx1\<lparr>cx_argctr := 1\<rparr>)) (\<lambda>(res2, ctx2).
         if res2 = -1 then Done (-1, ctx2)
         else obind (insert_opts ctx2) (\<lambda>(res3, ctx3).
           if res3 = -1 then Done (-1, ctx3) else Done (0, drop_separator ctx3))))"

text \<open>The result, the argument vector and the data afterwards, and the memory that is left.\<close>

definition fuse_opt_parse ::
  "opt_args \<Rightarrow> 'd \<Rightarrow> 'd opt_env \<Rightarrow> bool list \<Rightarrow> (int \<times> opt_args \<times> 'd \<times> bool list) outcome" where
  "fuse_opt_parse args data ev mem =
     (if oa_argc args = 0 then Done (0, args, data, mem)
      else obind (opt_parse (ev\<lparr>ev_argv := oa_list args\<rparr>)
             \<lparr>cx_data = data, cx_argctr = 0, cx_outargs = \<lparr>oa_argv = None, oa_allocated = False\<rparr>, cx_opts = None, cx_nonopt = 0, cx_mem = mem\<rparr>)
           (\<lambda>(res, ctx). Done (res, if res \<noteq> -1 then cx_outargs ctx else args, cx_data ctx, cx_mem ctx)))"


subsection \<open>Safety\<close>

text \<open>An argument vector the parser may append to, with at least the program name in it.\<close>

definition args_ok :: "opt_args \<Rightarrow> bool" where
  "args_ok a \<longleftrightarrow> oa_allocated a \<and> oa_list a \<noteq> []"

definition proc_ok :: "'d opt_env \<Rightarrow> bool" where
  "proc_ok ev \<longleftrightarrow> (\<forall>proc. ev_proc ev = Some proc \<longrightarrow> (\<forall>d arg key out. args_ok out \<longrightarrow> args_ok (snd (snd (proc d arg key out)))))"

text \<open>An operation of the parser ends without an abort and keeps its output vector in order.\<close>

definition runs :: "(int \<times> 'd fuse_opt_context) outcome \<Rightarrow> bool" where
  "runs out \<longleftrightarrow> (\<exists>r ctx. out = Done (r, ctx) \<and> args_ok (cx_outargs ctx))"

lemma runsI: "args_ok (cx_outargs ctx) \<Longrightarrow> runs (Done (r, ctx))"
  by (simp add: runs_def)

lemma runs_bind:
  assumes "runs out" and "\<And>r ctx. out = Done (r, ctx) \<Longrightarrow> args_ok (cx_outargs ctx) \<Longrightarrow> runs (f (r, ctx))"
  shows "runs (obind out f)"
  using assms by (auto simp: runs_def)

lemma add_arg_args:
  assumes "oa_argv a = None \<or> oa_allocated a"
  shows "\<exists>r a' m. fuse_opt_add_arg a arg mem = Done (r, a', m) \<and> (r = -1 \<and> a' = a \<or>
    r = 0 \<and> args_ok a' \<and> oa_list a' = oa_list a @ [arg])"
  using assms by (auto simp: fuse_opt_add_arg_def alloc_def args_ok_def split: list.split bool.split)

lemma add_arg_runs: "args_ok (cx_outargs ctx) \<Longrightarrow> runs (add_arg ctx arg)"
  using add_arg_args[of "cx_outargs ctx" arg "cx_mem ctx"] by (auto simp: add_arg_def runs_def args_ok_def)

lemma length_escape: "length (escape_opt esc s) \<le> 2 * length s"
  by (induction s) auto

lemma add_opt_common_result:
  "add_opt_common opts opt esc mem = (case alloc mem of (False, m) \<Rightarrow> Done (-1, opts, m)
    | (True, m) \<Rightarrow> Done (0, Some (let old = (case opts of None \<Rightarrow> [] | Some s \<Rightarrow> s) in
        (if old = [] then [] else old @ [CHR '','']) @ escape_opt esc opt), m))"
  using length_escape[of esc opt] by (auto simp: add_opt_common_def Let_def split: prod.split bool.split option.split)

lemma add_opt_runs: "args_ok (cx_outargs ctx) \<Longrightarrow> runs (add_opt ctx opt)"
  by (auto simp: add_opt_def add_opt_common_result runs_def split: prod.split bool.split)

lemma call_proc_runs:
  assumes p: "proc_ok ev" and ok: "args_ok (cx_outargs ctx)"
  shows "runs (call_proc ev ctx arg key isopt)"
proof -
  have add: "runs (if isopt then add_opt c arg else add_arg c arg)" if "args_ok (cx_outargs c)" for c :: "'a fuse_opt_context"
    using that add_opt_runs add_arg_runs by auto
  show ?thesis
  proof (cases "if key \<noteq> FUSE_OPT_KEY_KEEP then ev_proc ev else None")
    case None
    then show ?thesis using add[OF ok] ok unfolding call_proc_def by (simp add: runsI)
  next
    case (Some proc)
    then have "ev_proc ev = Some proc" by (simp split: if_splits)
    then have "args_ok (snd (snd (proc (cx_data ctx) arg key (cx_outargs ctx))))" using p ok unfolding proc_ok_def by blast
    then show ?thesis using add ok unfolding call_proc_def Some by (auto simp: Let_def split: prod.split intro!: runsI)
  qed
qed

lemma strchr_split: "c \<notin> set a \<Longrightarrow> strchr (a @ c # b) c = Some (length a)"
proof -
  assume "c \<notin> set a"
  then have "takeWhile (\<lambda>x. x \<noteq> c) (a @ c # b) = a" by (induction a) auto
  then show ?thesis by (simp add: strchr_def)
qed

lemma strchr_Some: "strchr s c = Some i \<longleftrightarrow> (\<exists>a b. s = a @ c # b \<and> c \<notin> set a \<and> i = length a)"
proof
  assume "strchr s c = Some i"
  moreover from this have "c \<in> set s" by (simp add: strchr_def split: if_splits)
  then obtain a b where "s = a @ c # b" "c \<notin> set a" by (meson split_list_first)
  ultimately show "\<exists>a b. s = a @ c # b \<and> c \<notin> set a \<and> i = length a" using strchr_split by fastforce
qed (auto simp: strchr_split)

lemma strchr_None: "strchr s c = None \<longleftrightarrow> c \<notin> set s"
  by (simp add: strchr_def)

text \<open>A match with a parameter, at \<open>sep\<close>: the separator is followed by nothing or by a format.\<close>

lemma match_template_sep:
  assumes "match_template t arg = Some sep" and "sep \<noteq> 0"
  shows "sep < length t" and "t ! sep = CHR ''='' \<or> t ! sep = CHR '' ''" and "sep + 1 < length t \<Longrightarrow> t ! (sep + 1) = CHR ''%''"
    and "sep \<le> length arg" and "t ! sep = CHR ''='' \<Longrightarrow> sep < length arg"
proof -
  let ?sep = "case strchr t (CHR ''='') of Some i \<Rightarrow> Some i | None \<Rightarrow> strchr t (CHR '' '')"
  have s: "?sep = Some sep" and f: "sep + 1 = length t \<or> t ! (sep + 1) = CHR ''%''"
    and l: "(if t ! sep = CHR ''='' then sep + 1 else sep) \<le> length arg"
    using assms by (auto simp: match_template_def Let_def split: option.splits if_splits)
  from s have "strchr t (CHR ''='') = Some sep \<or> strchr t (CHR '' '') = Some sep" by (auto split: option.splits)
  then have "sep < length t \<and> (t ! sep = CHR ''='' \<or> t ! sep = CHR '' '')" by (auto simp: strchr_Some)
  then show "sep < length t" and "t ! sep = CHR ''='' \<or> t ! sep = CHR '' ''" by blast+
  show "sep + 1 < length t \<Longrightarrow> t ! (sep + 1) = CHR ''%''" using f by auto
  show "sep \<le> length arg" and "t ! sep = CHR ''='' \<Longrightarrow> sep < length arg" using l by (auto split: if_splits)
qed

lemma find_opt_match: "find_opt opts arg = Some (opt, sep, rest) \<Longrightarrow> match_template (templ opt) arg = Some sep"
  by (induction opts) (auto split: option.splits)

lemma process_opt_runs:
  assumes p: "proc_ok ev" and ok: "args_ok (cx_outargs ctx)" and m: "match_template (templ opt) arg0 = Some sep"
  shows "runs (process_opt ev ctx opt sep arg isopt)"
proof (cases "opt_offset opt = KEY_OFFSET")
  case True
  show ?thesis unfolding process_opt_def True
    using runs_bind[OF call_proc_runs[OF p ok]] by (auto intro!: runs_bind[OF call_proc_runs[OF p ok]] runsI)
next
  case False
  have "drop (sep + 1) (templ opt) \<noteq> []" "drop (sep + 1) (templ opt) ! 0 = CHR ''%''" if "sep \<noteq> 0" "sep + 1 < length (templ opt)"
    using that match_template_sep(3)[OF m] by auto
  then show ?thesis using False ok
    by (auto simp: process_opt_def process_opt_param_def Let_def runs_def split: prod.split bool.split option.split)
qed

lemma sep_arg_runs:
  assumes p: "proc_ok ev" and ok: "args_ok (cx_outargs ctx)" and m: "match_template (templ opt) arg = Some sep"
  shows "runs (process_opt_sep_arg ev ctx opt sep arg isopt)"
  using process_opt_runs[OF p _ m] ok
  by (auto simp: process_opt_sep_arg_def next_arg_def split: prod.split bool.split intro!: runsI)

lemma gopt_loop_runs:
  assumes "proc_ok ev" and "args_ok (cx_outargs ctx)"
  shows "runs (process_gopt_loop ev opts arg isopt ctx)"
  using assms
proof (induction ev opts arg isopt ctx rule: process_gopt_loop.induct)
  case (1 ev opts arg isopt ctx)
  show ?case
  proof (cases "find_opt opts arg")
    case None
    then show ?thesis using 1(3) by (simp add: process_gopt_loop.simps[of ev opts] runsI)
  next
    case (Some z)
    obtain opt sep rest where z: "z = (opt, sep, rest)" by (cases z) auto
    let ?step = "if sep \<noteq> 0 \<and> templ opt ! sep = CHR '' '' \<and> length arg \<le> sep
                 then process_opt_sep_arg ev ctx opt sep arg isopt else process_opt ev ctx opt sep arg isopt"
    have m: "match_template (templ opt) arg = Some sep" using find_opt_match Some z by blast
    have "runs ?step" using sep_arg_runs[OF 1(2,3) m] process_opt_runs[OF 1(2,3) m] by simp
    then have "runs (obind ?step (\<lambda>(res, ctx1). if res = -1 then Done (-1, ctx1) else process_gopt_loop ev rest arg isopt ctx1))"
      by (rule runs_bind) (use 1(1)[OF Some[unfolded z] refl refl _ refl] 1(2) in \<open>auto intro: runsI\<close>)
    then show ?thesis using Some z by (simp add: process_gopt_loop.simps[of ev opts])
  qed
qed

lemma gopt_runs: "proc_ok ev \<Longrightarrow> args_ok (cx_outargs ctx) \<Longrightarrow> runs (process_gopt ev ctx arg isopt)"
  using gopt_loop_runs call_proc_runs by (auto simp: process_gopt_def)

lemma group_runs:
  assumes "proc_ok ev" and "args_ok (cx_outargs ctx)"
  shows "runs (process_real_option_group ev s d ctx)"
  using assms
proof (induction ev s d ctx rule: process_real_option_group.induct)
  case (1 ev d ctx)
  then show ?case unfolding process_real_option_group.simps by (intro runs_bind[OF gopt_runs]) (auto intro: runsI)
next
  case (2 ev c s d ctx)
  show ?case
  proof (cases "c = CHR '',''")
    case True
    have "runs (obind (process_gopt ev ctx (c_str d) True) (\<lambda>(res, ctx1).
             if res = -1 then Done (-1, ctx1) else process_real_option_group ev s [] ctx1))"
      by (rule runs_bind[OF gopt_runs[OF 2(3,4)]]) (use 2(1)[OF True _ refl] 2(3) in \<open>auto intro: runsI\<close>)
    then show ?thesis using True by simp
  next
    case False
    then show ?thesis using 2(2)[OF False refl] 2(3,4) by (simp add: Let_def)
  qed
qed

lemma process_one_runs:
  assumes p: "proc_ok ev" and ok: "args_ok (cx_outargs ctx)"
  shows "runs (process_one ev ctx arg)"
proof -
  have g: "runs (process_option_group ev c opts)" if "args_ok (cx_outargs c)" for c :: "'a fuse_opt_context" and opts
    using that group_runs[OF p] by (auto simp: process_option_group_def split: prod.split bool.split intro!: runsI)
  have a: "runs (obind (add_arg ctx arg) (\<lambda>(res, ctx1). if res = -1 then Done (-1, ctx1)
      else Done (0, ctx1\<lparr>cx_nonopt := oa_argc (cx_outargs ctx1)\<rparr>)))"
    by (rule runs_bind[OF add_arg_runs[OF ok]]) (auto intro: runsI)
  show ?thesis using g a call_proc_runs[OF p ok] gopt_runs[OF p ok] ok
    by (auto simp: process_one_def next_arg_def intro!: runsI)
qed


lemma parse_loop_runs:
  assumes "proc_ok ev" and "args_ok (cx_outargs ctx)"
  shows "runs (opt_parse_loop ev ctx)"
  using assms
proof (induction ev ctx rule: opt_parse_loop.induct)
  case (1 ev ctx)
  show ?case
  proof (cases "cx_argctr ctx < length (ev_argv ev)")
    case True
    have "runs (obind (process_one ev ctx (ev_argv ev ! cx_argctr ctx)) (\<lambda>(res, ctx1).
        if res = -1 then Done (-1, ctx1) else opt_parse_loop ev (ctx1\<lparr>cx_argctr := cx_argctr ctx1 + 1\<rparr>)))"
      by (rule runs_bind[OF process_one_runs[OF 1(2,3)]]) (use 1(1)[OF True _ refl] 1(2) in \<open>auto intro: runsI\<close>)
    then show ?thesis using True by (simp add: opt_parse_loop.simps)
  qed (use 1(3) in \<open>simp add: opt_parse_loop.simps runsI\<close>)
qed

lemma insert_arg_result:
  assumes "args_ok a" and "pos \<le> oa_argc a"
  shows "\<exists>r a' m. fuse_opt_insert_arg a pos arg mem = Done (r, a', m) \<and> args_ok a' \<and>
    (r = -1 \<or> r = 0 \<and> oa_list a' = take pos (oa_list a) @ arg # drop pos (oa_list a))"
proof -
  have "oa_argv a = None \<or> oa_allocated a" using assms(1) by (simp add: args_ok_def)
  from add_arg_args[OF this, of arg mem] obtain r a' m where r: "fuse_opt_add_arg a arg mem = Done (r, a', m)"
    and c: "r = -1 \<and> a' = a \<or> r = 0 \<and> args_ok a' \<and> oa_list a' = oa_list a @ [arg]" by blast
  show ?thesis
  proof (cases "r = -1")
    case True
    then show ?thesis using assms r c by (auto simp: fuse_opt_insert_arg_def)
  next
    case False
    then have c: "r = 0" "args_ok a'" "oa_list a' = oa_list a @ [arg]" using c by auto
    show ?thesis
    proof (cases "pos = oa_argc a")
      case True
      then show ?thesis using r c assms by (auto simp: fuse_opt_insert_arg_def)
    next
      case False
      then have "pos < oa_argc a" using assms(2) by simp
      then show ?thesis using r c assms by (simp add: fuse_opt_insert_arg_def Let_def args_ok_def nth_append)
    qed
  qed
qed

lemma insert_opts_runs:
  assumes ok: "args_ok (cx_outargs ctx)"
  shows "runs (insert_opts ctx)"
proof (cases "cx_opts ctx")
  case None
  then show ?thesis using ok by (simp add: insert_opts_def runsI)
next
  case (Some opts)
  let ?a = "cx_outargs ctx"
  have n: "1 \<le> oa_argc ?a" using ok by (auto simp: args_ok_def Suc_le_eq)
  obtain r a1 m where 1: "fuse_opt_insert_arg ?a 1 ''-o'' (cx_mem ctx) = Done (r, a1, m)" "args_ok a1"
    "r = -1 \<or> r = 0 \<and> oa_list a1 = take 1 (oa_list ?a) @ ''-o'' # drop 1 (oa_list ?a)" using insert_arg_result[OF ok n] by blast
  show ?thesis
  proof (cases "r = -1")
    case True
    then show ?thesis using 1 Some by (simp add: insert_opts_def runs_def)
  next
    case False
    then have "2 \<le> oa_argc a1" using 1(3) n by simp
    from insert_arg_result[OF 1(2) this, of opts m] obtain r2 a2 m2 where "fuse_opt_insert_arg a1 2 opts m = Done (r2, a2, m2)" "args_ok a2" by blast
    then show ?thesis using 1 Some False by (simp add: insert_opts_def runs_def)
  qed
qed

lemma drop_separator_alloc: "oa_allocated (cx_outargs (drop_separator ctx)) = oa_allocated (cx_outargs ctx)"
  by (simp add: drop_separator_def Let_def)

text \<open>Claim C23 (fuse_opt_parse_safe). Parsing a command line always ends, whatever the options, the arguments and the failures of memory
  allocation: no \<open>assert\<close> of the parser fails, no argument behind the end of \<open>argv\<close> is read and no buffer overrun, as long as
  the processing function keeps the output vector allocated and not empty. The result is 0, or -1 with the
  caller's arguments untouched.\<close>

theorem fuse_opt_parse_safe:
  assumes "proc_ok ev"
  shows "\<exists>res args' data' m. fuse_opt_parse args data ev mem = Done (res, args', data', m) \<and>
    (res = -1 \<and> args' = args \<or> res = 0 \<and> (if oa_argc args = 0 then args' = args else oa_allocated args'))"
proof (cases "oa_argc args = 0")
  case True
  then show ?thesis by (simp add: fuse_opt_parse_def)
next
  case False
  let ?ev = "ev\<lparr>ev_argv := oa_list args\<rparr>"
  let ?c = "\<lparr>cx_data = data, cx_argctr = 0, cx_outargs = \<lparr>oa_argv = None, oa_allocated = False\<rparr>, cx_opts = None, cx_nonopt = 0, cx_mem = mem\<rparr>"
  have p: "proc_ok ?ev" using assms by (simp add: proc_ok_def)
  have ne: "oa_list args \<noteq> []" using False by simp
  obtain r a m where a: "fuse_opt_add_arg \<lparr>oa_argv = None, oa_allocated = False\<rparr> (oa_list args ! 0) mem = Done (r, a, m)"
    "r = -1 \<or> r = 0 \<and> args_ok a" using add_arg_args[of "\<lparr>oa_argv = None, oa_allocated = False\<rparr>"] by fastforce
  have "\<exists>res ctx. opt_parse ?ev ?c = Done (res, ctx) \<and> (res = -1 \<or> res = 0 \<and> oa_allocated (cx_outargs ctx))"
  proof (cases "r = -1")
    case True
    then show ?thesis using a ne by (simp add: opt_parse_def add_arg_def)
  next
    case False
    let ?c1 = "?c\<lparr>cx_outargs := a, cx_mem := m, cx_argctr := 1\<rparr>"
    have "args_ok (cx_outargs ?c1)" using a(2) False by simp
    from parse_loop_runs[OF p this] obtain r2 c2 where 2: "opt_parse_loop ?ev ?c1 = Done (r2, c2)" "args_ok (cx_outargs c2)" by (auto simp: runs_def)
    from insert_opts_runs[OF 2(2)] obtain r3 c3 where 3: "insert_opts c2 = Done (r3, c3)" "args_ok (cx_outargs c3)" by (auto simp: runs_def)
    show ?thesis using a ne False 2 3 by (simp add: opt_parse_def add_arg_def drop_separator_alloc args_ok_def)
  qed
  then obtain res ctx where o: "opt_parse ?ev ?c = Done (res, ctx)" and "res = -1 \<or> res = 0 \<and> oa_allocated (cx_outargs ctx)" by blast
  then show ?thesis using False by (auto simp: fuse_opt_parse_def)
qed

definition no_options :: "unit opt_env" where
  "no_options = \<lparr>ev_opt = [], ev_proc = None, ev_argv = [], ev_int = (\<lambda>_ _ d. d), ev_str = (\<lambda>_ _ d. d), ev_scan = (\<lambda>_ _ _ d. Some d)\<rparr>"

theorem fuse_opt_parse_safe_witness:
  "\<exists>res args' m. fuse_opt_parse \<lparr>oa_argv = Some [''mount'', ''-oa,b'', ''/mnt''], oa_allocated = False\<rparr> () no_options [True, False] = Done (res, args', (), m) \<and>
    (res = -1 \<or> oa_allocated args')"
proof -
  have "proc_ok no_options" by (simp add: proc_ok_def no_options_def)
  from fuse_opt_parse_safe[OF this, of "\<lparr>oa_argv = Some [''mount'', ''-oa,b'', ''/mnt''], oa_allocated = False\<rparr>" "()" "[True, False]"]
  show ?thesis by auto
qed

subsection \<open>Matching\<close>

lemma first_split_unique:
  "a @ c # b = a' @ c # b' \<Longrightarrow> c \<notin> set a \<Longrightarrow> c \<notin> set a' \<Longrightarrow> a' = a \<and> b' = b"
proof (induction a arbitrary: a')
  case Nil
  then show ?case by (cases a') auto
next
  case (Cons x a)
  then show ?case by (cases a') auto
qed

text \<open>The templates of \<open>fuse_opt.h\<close>: a template matches itself; with a separator that is followed by nothing or a
  format it also matches every argument that starts with the part before it (and the \<open>=\<close> itself); the first \<open>=\<close> counts, and a
  space only if there is no \<open>=\<close>.\<close>

theorem match_template_kinds:
  "match_template t arg \<noteq> None \<longleftrightarrow> arg = t \<or>
    (\<exists>b f p. t = b @ CHR ''='' # f \<and> CHR ''='' \<notin> set b \<and> (f = [] \<or> hd f = CHR ''%'') \<and> arg = b @ CHR ''='' # p) \<or>
    (\<exists>b f p. t = b @ CHR '' '' # f \<and> CHR ''='' \<notin> set t \<and> CHR '' '' \<notin> set b \<and> (f = [] \<or> hd f = CHR ''%'') \<and> arg = b @ p)"
    (is "?m \<longleftrightarrow> arg = t \<or> ?E \<or> ?S")
proof (cases "strchr t (CHR ''='')")
  case (Some i)
  then obtain b f where t: "t = b @ CHR ''='' # f" "CHR ''='' \<notin> set b" "i = length b" by (auto simp: strchr_Some)
  have nS: "\<not> ?S" using t by auto
  have E: "?E \<longleftrightarrow> (f = [] \<or> hd f = CHR ''%'') \<and> (\<exists>p. arg = b @ CHR ''='' # p)"
  proof
    assume ?E
    then obtain b' f' p where e: "t = b' @ CHR ''='' # f'" "CHR ''='' \<notin> set b'" "f' = [] \<or> hd f' = CHR ''%''" "arg = b' @ CHR ''='' # p" by blast
    then have "b' = b \<and> f' = f" using t by (intro first_split_unique[of b "CHR ''=''"]) simp_all
    then show "(f = [] \<or> hd f = CHR ''%'') \<and> (\<exists>p. arg = b @ CHR ''='' # p)" using e by auto
  qed (use t in blast)
  have pre: "(\<exists>p. arg = b @ CHR ''='' # p) \<longleftrightarrow> length b + 1 \<le> length arg \<and> take (length b + 1) arg = b @ [CHR ''='']"
  proof
    assume "length b + 1 \<le> length arg \<and> take (length b + 1) arg = b @ [CHR ''='']"
    then have "arg = (b @ [CHR ''='']) @ drop (length b + 1) arg" by (metis append_take_drop_id)
    then show "\<exists>p. arg = b @ CHR ''='' # p" by (intro exI[of _ "drop (length b + 1) arg"]) simp
  qed auto
  have f: "length b + 1 = length t \<or> t ! (length b + 1) = CHR ''%'' \<longleftrightarrow> f = [] \<or> hd f = CHR ''%''" using t by (cases f) (auto simp: nth_append)
  show ?thesis unfolding E pre using nS t Some f by (auto simp: match_template_def Let_def split: if_splits)
next
  case None
  then have ne: "CHR ''='' \<notin> set t" by (simp add: strchr_None)
  then have nE: "\<not> ?E" by auto
  show ?thesis
  proof (cases "strchr t (CHR '' '')")
    case no: None
    then have "\<not> ?S" by (auto simp: strchr_None)
    then show ?thesis using None no nE by (auto simp: match_template_def)
  next
    case (Some i)
    then obtain b f where t: "t = b @ CHR '' '' # f" "CHR '' '' \<notin> set b" "i = length b" by (auto simp: strchr_Some)
    have S: "?S \<longleftrightarrow> (f = [] \<or> hd f = CHR ''%'') \<and> (\<exists>p. arg = b @ p)"
    proof
      assume ?S
      then obtain b' f' p where e: "t = b' @ CHR '' '' # f'" "CHR '' '' \<notin> set b'" "f' = [] \<or> hd f' = CHR ''%''" "arg = b' @ p" by blast
      then have "b' = b \<and> f' = f" using t by (intro first_split_unique[of b "CHR '' ''"]) simp_all
      then show "(f = [] \<or> hd f = CHR ''%'') \<and> (\<exists>p. arg = b @ p)" using e by auto
    qed (use t ne in blast)
    have pre: "(\<exists>p. arg = b @ p) \<longleftrightarrow> length b \<le> length arg \<and> take (length b) arg = b"
    proof
      assume "length b \<le> length arg \<and> take (length b) arg = b"
      then show "\<exists>p. arg = b @ p" by (metis append_take_drop_id)
    qed auto
    have f: "length b + 1 = length t \<or> t ! (length b + 1) = CHR ''%'' \<longleftrightarrow> f = [] \<or> hd f = CHR ''%''" using t by (cases f) (auto simp: nth_append)
    show ?thesis unfolding S pre using nE t None Some f by (auto simp: match_template_def Let_def split: if_splits)
  qed
qed


subsection \<open>Option groups and command lines\<close>

text \<open>The options of a group one after the other.\<close>

fun run_options :: "'d opt_env \<Rightarrow> string list \<Rightarrow> 'd fuse_opt_context \<Rightarrow> (int \<times> 'd fuse_opt_context) outcome" where
  "run_options ev [] ctx = Done (0, ctx)"
| "run_options ev (opt # opts) ctx = obind (process_gopt ev ctx opt True) (\<lambda>(res, ctx1).
     if res = -1 then Done (-1, ctx1) else run_options ev opts ctx1)"

fun join_opts :: "string list \<Rightarrow> string" where
  "join_opts [] = []"
| "join_opts [opt] = escape_opt True opt"
| "join_opts (opt # opts) = escape_opt True opt @ CHR '','' # join_opts opts"

definition plain_opt :: "string \<Rightarrow> bool" where
  "plain_opt opt \<longleftrightarrow> opt \<noteq> [] \<and> CHR 0x00 \<notin> set opt"

fun add_options :: "string option \<Rightarrow> string list \<Rightarrow> string option" where
  "add_options opts [] = opts"
| "add_options opts (opt # rest) = (case fuse_opt_add_opt_escaped opts opt [] of
     Done (_, opts1, _) \<Rightarrow> add_options opts1 rest | Aborted \<Rightarrow> None)"

lemma escape_not_Nil: "opt \<noteq> [] \<Longrightarrow> escape_opt esc opt \<noteq> []"
  by (cases opt) auto

lemma add_escaped: "fuse_opt_add_opt_escaped opts opt [] = Done (0, Some (let old = (case opts of None \<Rightarrow> [] | Some s \<Rightarrow> s) in
        (if old = [] then [] else old @ [CHR '','']) @ escape_opt True opt), [])"
  by (simp add: fuse_opt_add_opt_escaped_def add_opt_common_result alloc_def)

lemma join_opts_snoc: "opts \<noteq> [] \<Longrightarrow> join_opts (opts @ [opt]) = join_opts opts @ CHR '','' # escape_opt True opt"
  by (induction opts rule: join_opts.induct) simp_all

lemma join_not_Nil: "opts \<noteq> [] \<Longrightarrow> list_all plain_opt opts \<Longrightarrow> join_opts opts \<noteq> []"
  by (induction opts rule: join_opts.induct) (auto simp: plain_opt_def escape_not_Nil)

lemma add_options_join:
  assumes "list_all plain_opt (done_opts @ opts)"
  shows "add_options (if done_opts = [] then None else Some (join_opts done_opts)) opts
    = (if done_opts @ opts = [] then None else Some (join_opts (done_opts @ opts)))"
  using assms
proof (induction opts arbitrary: done_opts)
  case (Cons opt opts)
  have "fuse_opt_add_opt_escaped (if done_opts = [] then None else Some (join_opts done_opts)) opt [] = Done (0, Some (join_opts (done_opts @ [opt])), [])"
    using Cons.prems join_not_Nil[of done_opts] by (simp add: add_escaped join_opts_snoc Let_def)
  then show ?case using Cons.IH[of "done_opts @ [opt]"] Cons.prems by simp
qed simp

lemma unescape_escaped:
  "process_real_option_group ev (escape_opt True opt @ rest) d ctx = process_real_option_group ev rest (d @ opt) ctx"
proof (induction opt arbitrary: d)
  case (Cons c opt)
  have "unescape (CHR 0x5C) (c # s) = (c, s)" if "c = CHR '','' \<or> c = CHR 0x5C" for s
    using that by (auto simp: unescape_def is_digit_upto_def)
  moreover have "unescape c s = (c, s)" if "c \<noteq> CHR 0x5C" for s using that by (simp add: unescape_def)
  ultimately show ?case using Cons.IH[of "d @ [c]"] by (cases "c = CHR '','' \<or> c = CHR 0x5C") (auto simp: Let_def)
qed simp

lemma plain_c_str: "plain_opt opt \<Longrightarrow> c_str opt = opt"
  by (auto simp: c_str_def plain_opt_def)

lemma group_join:
  "opts \<noteq> [] \<Longrightarrow> list_all plain_opt opts \<Longrightarrow> process_real_option_group ev (join_opts opts) [] ctx = run_options ev opts ctx"
proof (induction opts arbitrary: ctx rule: join_opts.induct)
  case (2 opt)
  have "process_real_option_group ev (escape_opt True opt) [] ctx = process_real_option_group ev [] opt ctx"
    using unescape_escaped[of ev opt "[]"] by simp
  also have "\<dots> = run_options ev [opt] ctx"
    using 2 by (cases "process_gopt ev ctx opt True") (auto simp: plain_c_str)
  finally show ?case by simp
next
  case (3 opt o2 opts)
  have ih: "process_real_option_group ev (join_opts (o2 # opts)) [] = run_options ev (o2 # opts)"
    by (intro ext 3(1)) (use 3 in simp_all)
  have c: "c_str opt = opt" using 3 by (simp add: plain_c_str)
  show ?case unfolding join_opts.simps(3) unescape_escaped append_Nil run_options.simps(2)[of ev opt] ih[symmetric]
    by (simp add: c)
qed simp

text \<open>Claim C24 (option_group_roundtrip). Escaping and splitting are inverse: whatever characters the options contain, the string that
  \<open>fuse_opt_add_opt_escaped\<close> builds from a list of options is split by the parser into exactly these options, in this order.\<close>

theorem option_group_roundtrip:
  assumes "opts \<noteq> []" and "\<And>opt. opt \<in> set opts \<Longrightarrow> opt \<noteq> [] \<and> CHR 0x00 \<notin> set opt"
  shows "\<exists>s. add_options None opts = Some s \<and> process_real_option_group ev s [] ctx = run_options ev opts ctx"
proof -
  have "list_all plain_opt opts" using assms(2) by (auto simp: list_all_iff plain_opt_def)
  then show ?thesis using assms(1) add_options_join[of "[]" opts] group_join by auto
qed

theorem option_group_roundtrip_witness:
  "\<exists>s. add_options None [''a=1,2'', ''back'' @ [CHR 0x5C] @ ''053''] = Some s \<and>
     process_real_option_group no_options s [] \<lparr>cx_data = (), cx_argctr = 1, cx_outargs = \<lparr>oa_argv = Some [''p''], oa_allocated = True\<rparr>, cx_opts = None, cx_nonopt = 0, cx_mem = []\<rparr>
     = run_options no_options [''a=1,2'', ''back'' @ [CHR 0x5C] @ ''053''] \<lparr>cx_data = (), cx_argctr = 1, cx_outargs = \<lparr>oa_argv = Some [''p''], oa_allocated = True\<rparr>, cx_opts = None, cx_nonopt = 0, cx_mem = []\<rparr>"
  by (rule option_group_roundtrip) auto


text \<open>A command line: the program, groups of options behind \<open>-o\<close>, and further arguments.\<close>

definition cmdline :: "string \<Rightarrow> string list list \<Rightarrow> string list \<Rightarrow> string list" where
  "cmdline prog gs xs = prog # concat (map (\<lambda>g. [''-o'', join_opts g]) gs) @ xs"

definition bare :: "'d opt_env \<Rightarrow> bool" where
  "bare ev \<longleftrightarrow> ev_opt ev = [] \<and> ev_proc ev = None"

lemma bare_call_proc:
  assumes "bare ev" and "key = FUSE_OPT_KEY_OPT \<or> key = FUSE_OPT_KEY_NONOPT"
  shows "call_proc ev ctx arg key isopt = (if isopt then add_opt ctx arg else add_arg ctx arg)"
  using assms by (auto simp: call_proc_def bare_def FUSE_OPT_KEY_OPT_def FUSE_OPT_KEY_NONOPT_def FUSE_OPT_KEY_DISCARD_def)

lemma bare_gopt: "bare ev \<Longrightarrow> process_gopt ev ctx arg True = add_opt ctx arg"
  by (simp add: process_gopt_def bare_call_proc) (simp add: bare_def)

lemma add_opt_mem: "cx_mem ctx = [] \<Longrightarrow> add_opt ctx opt = Done (0, ctx\<lparr>cx_opts := add_options (cx_opts ctx) [opt]\<rparr>)"
  by (simp add: add_opt_def add_escaped[unfolded fuse_opt_add_opt_escaped_def] fuse_opt_add_opt_escaped_def)

lemma add_options_append: "add_options s (a @ b) = add_options (add_options s a) b"
  by (induction s a rule: add_options.induct) (simp_all add: add_escaped)

lemma bare_run_options:
  assumes "bare ev" and "cx_mem ctx = []"
  shows "run_options ev opts ctx = Done (0, ctx\<lparr>cx_opts := add_options (cx_opts ctx) opts\<rparr>)"
  using assms(2)
proof (induction opts arbitrary: ctx)
  case (Cons opt opts)
  then show ?case using add_options_append[of "cx_opts ctx" "[opt]" opts]
    by (simp add: bare_gopt[OF assms(1)] add_opt_mem del: add_options.simps)
qed simp

lemma bare_nonopts:
  assumes b: "bare ev" and "cx_mem ctx = []" and "args_ok (cx_outargs ctx)" and "drop (cx_argctr ctx) (ev_argv ev) = xs"
    and "\<And>x. x \<in> set xs \<Longrightarrow> x = [] \<or> hd x \<noteq> CHR ''-''"
  shows "\<exists>k. opt_parse_loop ev ctx = Done (0, ctx\<lparr>cx_outargs := \<lparr>oa_argv = Some (oa_list (cx_outargs ctx) @ xs), oa_allocated = True\<rparr>, cx_argctr := k\<rparr>)"
  using assms(2-)
proof (induction xs arbitrary: ctx)
  case Nil
  then have "\<not> cx_argctr ctx < length (ev_argv ev)" by simp
  moreover have "\<lparr>oa_argv = Some (oa_list (cx_outargs ctx)), oa_allocated = True\<rparr> = cx_outargs ctx"
    using Nil(2) by (cases "cx_outargs ctx") (auto simp: args_ok_def split: option.splits)
  ultimately show ?case by (intro exI[of _ "cx_argctr ctx"]) (simp add: opt_parse_loop.simps)
next
  case (Cons x xs)
  let ?i = "cx_argctr ctx"
  have i: "?i < length (ev_argv ev)" "ev_argv ev ! ?i = x" "drop (?i + 1) (ev_argv ev) = xs"
    using Cons.prems(3) by (metis drop_eq_Nil linorder_not_le list.discI, metis hd_drop_conv_nth drop_eq_Nil linorder_not_le list.discI list.sel(1),
      metis Suc_eq_plus1 drop_Suc list.sel(3) tl_drop)
  have x: "x = [] \<or> x ! 0 \<noteq> CHR ''-''" using Cons.prems(4)[of x] by (cases x) auto
  define ctx1 where "ctx1 = ctx\<lparr>cx_outargs := \<lparr>oa_argv = Some (oa_list (cx_outargs ctx) @ [x]), oa_allocated = True\<rparr>, cx_argctr := ?i + 1\<rparr>"
  have "process_one ev ctx x = Done (0, ctx\<lparr>cx_outargs := \<lparr>oa_argv = Some (oa_list (cx_outargs ctx) @ [x]), oa_allocated = True\<rparr>\<rparr>)"
    using x Cons.prems(1,2) by (auto simp: process_one_def bare_call_proc[OF b] add_arg_def fuse_opt_add_arg_def alloc_def args_ok_def)
  then have step: "opt_parse_loop ev ctx = opt_parse_loop ev ctx1" using i by (simp add: opt_parse_loop.simps[of ev ctx] ctx1_def)
  have "\<exists>k. opt_parse_loop ev ctx1 = Done (0, ctx1\<lparr>cx_outargs := \<lparr>oa_argv = Some (oa_list (cx_outargs ctx1) @ xs), oa_allocated = True\<rparr>, cx_argctr := k\<rparr>)"
    using Cons.prems i by (intro Cons.IH) (auto simp: ctx1_def args_ok_def)
  then show ?case unfolding step by (auto simp: ctx1_def fuse_opt_context.defs)
qed


lemma drop_nth: "drop i L = x # xs \<Longrightarrow> i < length L \<and> L ! i = x \<and> drop (Suc i) L = xs"
  by (metis Cons_nth_drop_Suc drop_eq_Nil linorder_not_le list.discI list.inject)

lemma bare_groups:
  assumes b: "bare ev" and "cx_mem ctx = []" and "cx_nonopt ctx = 0"
    and "drop (cx_argctr ctx) (ev_argv ev) = concat (map (\<lambda>g. [''-o'', join_opts g]) gs) @ xs"
    and "\<And>g. g \<in> set gs \<Longrightarrow> g \<noteq> [] \<and> list_all plain_opt g"
  shows "opt_parse_loop ev ctx = opt_parse_loop ev (ctx\<lparr>cx_opts := add_options (cx_opts ctx) (concat gs), cx_argctr := cx_argctr ctx + 2 * length gs\<rparr>)"
  using assms(2-)
proof (induction gs arbitrary: ctx)
  case (Cons g gs)
  let ?i = "cx_argctr ctx"
  have i: "?i < length (ev_argv ev)" "ev_argv ev ! ?i = ''-o''" "drop (Suc ?i) (ev_argv ev) = join_opts g # concat (map (\<lambda>g. [''-o'', join_opts g]) gs) @ xs"
    using drop_nth[OF Cons.prems(3)[simplified]] by auto
  have j: "Suc ?i < length (ev_argv ev)" "ev_argv ev ! Suc ?i = join_opts g" "drop (Suc (Suc ?i)) (ev_argv ev) = concat (map (\<lambda>g. [''-o'', join_opts g]) gs) @ xs"
    using drop_nth[OF i(3)] by auto
  define ctx1 where "ctx1 = ctx\<lparr>cx_opts := add_options (cx_opts ctx) g, cx_argctr := Suc (Suc ?i)\<rparr>"
  have "process_one ev ctx ''-o'' = process_option_group ev (ctx\<lparr>cx_argctr := Suc ?i\<rparr>) (join_opts g)"
    using Cons.prems(2) i j by (simp add: process_one_def next_arg_def)
  also have "\<dots> = run_options ev g (ctx\<lparr>cx_argctr := Suc ?i, cx_mem := []\<rparr>)"
    using Cons.prems(1,4) group_join[of g] by (simp add: process_option_group_def alloc_def)
  also have "\<dots> = Done (0, ctx\<lparr>cx_argctr := Suc ?i, cx_mem := [], cx_opts := add_options (cx_opts ctx) g\<rparr>)"
    by (subst bare_run_options[OF b]) simp_all
  finally have "opt_parse_loop ev ctx = opt_parse_loop ev (ctx\<lparr>cx_argctr := Suc ?i, cx_mem := [], cx_opts := add_options (cx_opts ctx) g, cx_argctr := Suc (Suc ?i)\<rparr>)"
    using i by (simp add: opt_parse_loop.simps[of ev ctx])
  moreover have "ctx\<lparr>cx_argctr := Suc ?i, cx_mem := [], cx_opts := add_options (cx_opts ctx) g, cx_argctr := Suc (Suc ?i)\<rparr> = ctx1"
    using Cons.prems(1) by (simp add: ctx1_def)
  ultimately have s: "opt_parse_loop ev ctx = opt_parse_loop ev ctx1" by simp
  have "opt_parse_loop ev ctx1 = opt_parse_loop ev (ctx1\<lparr>cx_opts := add_options (cx_opts ctx1) (concat gs), cx_argctr := cx_argctr ctx1 + 2 * length gs\<rparr>)"
    using Cons.prems j by (intro Cons.IH) (auto simp: ctx1_def)
  moreover have "ctx1\<lparr>cx_opts := add_options (cx_opts ctx1) (concat gs), cx_argctr := cx_argctr ctx1 + 2 * length gs\<rparr> =
    ctx\<lparr>cx_opts := add_options (cx_opts ctx) (concat (g # gs)), cx_argctr := ?i + 2 * length (g # gs)\<rparr>"
    by (simp add: ctx1_def add_options_append)
  ultimately show ?case using s by simp
qed simp




end
