(* ===== verification/Fuse_Locks.thy ===== *)
theory Fuse_Locks
  imports Fuse_Prelude
begin

text \<open>
  The POSIX byte-range locks the library keeps per node (\<open>libfuse/lib/fuse.c\<close>): the search for a conflict, the
  insertion of a lock or unlock, which splits and merges the locks of its owner, and the handlers of
  \<open>F_GETLK\<close>, \<open>F_SETLK\<close> and flush. Offsets are integers; they stay in the range of \<open>off_t\<close>.
  The list of a node is the list of its locks. A write through a null pointer is \<open>Aborted\<close>. What the file
  system answers to \<open>fuse_fs_lock\<close> and \<open>fuse_fs_flush\<close> is a parameter of the handlers.
\<close>

datatype lock_type = F_RDLCK | F_WRLCK | F_UNLCK

record lock =
  lk_type :: lock_type
  lk_start :: int
  lk_end :: int
  lk_pid :: int
  lk_owner :: "64 word"

record flock =
  l_type :: lock_type
  l_start :: int
  l_len :: int
  l_pid :: int

definition OFFSET_MAX :: int where "OFFSET_MAX = 2 ^ 63 - 1"
definition ENOLCK :: int where [simp]: "ENOLCK = 37"

definition locks_conflict :: "lock list \<Rightarrow> lock \<Rightarrow> lock option" where
  "locks_conflict locks lock = find (\<lambda>l. lk_owner l \<noteq> lk_owner lock \<and> lk_start lock \<le> lk_end l \<and> lk_start l \<le> lk_end lock \<and>
     (lk_type l = F_WRLCK \<or> lk_type lock = F_WRLCK)) locks"

text \<open>Behind the loop: \<open>newl1\<close> is filled and linked in front of the rest.\<close>

definition link_new :: "bool \<Rightarrow> lock \<Rightarrow> lock list \<Rightarrow> lock list outcome" where
  "link_new newl1 lock rest =
     (if lk_type lock \<noteq> F_UNLCK then if newl1 then Done (lock # rest) else Aborted else Done rest)"

definition keep :: "lock \<Rightarrow> lock list outcome \<Rightarrow> lock list outcome" where
  "keep l out = obind out (\<lambda>ls. Done (l # ls))"

lemma keep_cong [fundef_cong]: "l = l' \<Longrightarrow> out = out' \<Longrightarrow> keep l out = keep l' out'"
  by simp

text \<open>The loop of \<open>locks_insert\<close> from the element at \<open>lp\<close> on; \<open>newl1\<close>, \<open>newl2\<close>: the spare locks are there.\<close>

function locks_insert_loop :: "bool \<Rightarrow> bool \<Rightarrow> lock \<Rightarrow> lock list \<Rightarrow> lock list outcome" where
  "locks_insert_loop newl1 newl2 lock [] = link_new newl1 lock []"
| "locks_insert_loop newl1 newl2 lock (l # ls) =
     (if lk_owner l \<noteq> lk_owner lock then keep l (locks_insert_loop newl1 newl2 lock ls)
      else if lk_type lock = lk_type l
      then (if lk_end l < lk_start lock - 1 then keep l (locks_insert_loop newl1 newl2 lock ls)
            else if lk_end lock < lk_start l - 1 then link_new newl1 lock (l # ls)
            else if lk_start l \<le> lk_start lock \<and> lk_end lock \<le> lk_end l then Done (l # ls)
            else (let lock1 = (if lk_start l < lk_start lock then lock\<lparr>lk_start := lk_start l\<rparr> else lock);
                      lock2 = (if lk_end lock1 < lk_end l then lock1\<lparr>lk_end := lk_end l\<rparr> else lock1)
                  in locks_insert_loop newl1 newl2 lock2 ls))
      else (if lk_end l < lk_start lock then keep l (locks_insert_loop newl1 newl2 lock ls)
            else if lk_end lock < lk_start l then link_new newl1 lock (l # ls)
            else if lk_start lock \<le> lk_start l \<and> lk_end l \<le> lk_end lock then locks_insert_loop newl1 newl2 lock ls
            else if lk_end l \<le> lk_end lock
            then keep (l\<lparr>lk_end := lk_start lock - 1\<rparr>) (locks_insert_loop newl1 newl2 lock ls)
            else if lk_start lock \<le> lk_start l then link_new newl1 lock (l\<lparr>lk_start := lk_end lock + 1\<rparr> # ls)
            else if newl2
            then keep (l\<lparr>lk_end := lk_start lock - 1\<rparr>)
                   (locks_insert_loop newl1 False lock (l\<lparr>lk_start := lk_end lock + 1\<rparr> # ls))
            else Aborted))"
  by pat_completeness auto
termination
  by (relation "measures [\<lambda>(n1, n2, lock, ls). if n2 then 1 else 0, \<lambda>(n1, n2, lock, ls). length ls]") auto

text \<open>\<open>mem1\<close>, \<open>mem2\<close>: the two allocations succeed.\<close>

definition locks_insert :: "bool \<Rightarrow> bool \<Rightarrow> lock \<Rightarrow> lock list \<Rightarrow> (int \<times> lock list) outcome" where
  "locks_insert mem1 mem2 lock locks =
     (let need = (lk_type lock \<noteq> F_UNLCK \<or> lk_start lock \<noteq> 0 \<or> lk_end lock \<noteq> OFFSET_MAX)
      in if need \<and> \<not> (mem1 \<and> mem2) then Done (- ENOLCK, locks)
         else obind (locks_insert_loop need need lock locks) (\<lambda>ls. Done (0, ls)))"

definition flock_to_lock :: "flock \<Rightarrow> lock" where
  "flock_to_lock fl = \<lparr>lk_type = l_type fl, lk_start = l_start fl,
     lk_end = (if l_len fl \<noteq> 0 then l_start fl + l_len fl - 1 else OFFSET_MAX), lk_pid = l_pid fl, lk_owner = 0\<rparr>"

definition lock_to_flock :: "lock \<Rightarrow> flock" where
  "lock_to_flock l = \<lparr>l_type = lk_type l, l_start = lk_start l,
     l_len = (if lk_end l = OFFSET_MAX then 0 else lk_end l - lk_start l + 1), l_pid = lk_pid l\<rparr>"

text \<open>The handlers; \<open>fs_lock\<close> is the result of \<open>fuse_lock_common\<close> (with the lock it leaves for \<open>F_GETLK\<close>). The reply is the
  error or the lock.\<close>

definition fuse_lib_getlk :: "(flock \<Rightarrow> int \<times> flock) \<Rightarrow> 64 word \<Rightarrow> flock \<Rightarrow> lock list \<Rightarrow> int + flock" where
  "fuse_lib_getlk fs_lock owner fl locks =
     (case locks_conflict locks ((flock_to_lock fl)\<lparr>lk_owner := owner\<rparr>) of
        Some conflict \<Rightarrow> Inr (lock_to_flock conflict)
      | None \<Rightarrow> (case fs_lock fl of (err, fl1) \<Rightarrow> if err = 0 then Inr fl1 else Inl err))"

definition fuse_lib_setlk :: "(flock \<Rightarrow> int \<times> flock) \<Rightarrow> bool \<Rightarrow> bool \<Rightarrow> 64 word \<Rightarrow> flock \<Rightarrow> lock list \<Rightarrow> (int \<times> lock list) outcome" where
  "fuse_lib_setlk fs_lock mem1 mem2 owner fl locks =
     (case fs_lock fl of (err, fl1) \<Rightarrow>
        if err \<noteq> 0 then Done (err, locks)
        else obind (locks_insert mem1 mem2 ((flock_to_lock fl1)\<lparr>lk_owner := owner\<rparr>) locks) (\<lambda>(_, ls). Done (0, ls)))"

definition fuse_flush_common :: "int \<Rightarrow> (flock \<Rightarrow> int \<times> flock) \<Rightarrow> bool \<Rightarrow> bool \<Rightarrow> 64 word \<Rightarrow> lock list \<Rightarrow> (int \<times> lock list) outcome" where
  "fuse_flush_common fs_flush fs_lock mem1 mem2 owner locks =
     (case fs_lock \<lparr>l_type = F_UNLCK, l_start = 0, l_len = 0, l_pid = 0\<rparr> of (errlock, fl1) \<Rightarrow>
        if errlock \<noteq> - ENOSYS
        then obind (locks_insert mem1 mem2 ((flock_to_lock fl1)\<lparr>lk_owner := owner\<rparr>) locks) (\<lambda>(_, ls).
               Done (if fs_flush = - ENOSYS then 0 else fs_flush, ls))
        else Done (fs_flush, locks))"

subsection \<open>What a list of locks means\<close>

text \<open>The owner \<open>w\<close> holds a lock of type \<open>t\<close> on byte \<open>x\<close>.\<close>

definition holds :: "lock list \<Rightarrow> 64 word \<Rightarrow> int \<Rightarrow> lock_type \<Rightarrow> bool" where
  "holds ls w x t \<longleftrightarrow> (\<exists>l\<in>set ls. lk_owner l = w \<and> lk_type l = t \<and> lk_start l \<le> x \<and> x \<le> lk_end l)"

abbreviation own :: "64 word \<Rightarrow> lock list \<Rightarrow> lock list" where
  "own w ls \<equiv> filter (\<lambda>l. lk_owner l = w) ls"

definition lock_ok :: "lock \<Rightarrow> bool" where
  "lock_ok l \<longleftrightarrow> 0 \<le> lk_start l \<and> lk_start l \<le> lk_end l \<and> lk_end l \<le> OFFSET_MAX"

text \<open>The locks of each owner are sorted and do not overlap.\<close>

definition locks_ok :: "lock list \<Rightarrow> bool" where
  "locks_ok ls \<longleftrightarrow> (\<forall>l\<in>set ls. lock_ok l \<and> lk_type l \<noteq> F_UNLCK) \<and> (\<forall>w. sorted_wrt (\<lambda>a b. lk_end a < lk_start b) (own w ls))"

text \<open>The meaning of the list after the insertion of \<open>lock\<close>.\<close>

definition inserted :: "lock \<Rightarrow> lock list \<Rightarrow> lock list \<Rightarrow> bool" where
  "inserted lock ls r \<longleftrightarrow> (\<forall>w x t. holds r w x t \<longleftrightarrow>
     (if w = lk_owner lock \<and> lk_start lock \<le> x \<and> x \<le> lk_end lock then t = lk_type lock \<and> t \<noteq> F_UNLCK else holds ls w x t))"

lemma holds_simps [simp]:
  "holds [] w x t = False"
  "holds (l # ls) w x t \<longleftrightarrow> (lk_owner l = w \<and> lk_type l = t \<and> lk_start l \<le> x \<and> x \<le> lk_end l) \<or> holds ls w x t"
  by (auto simp: holds_def)

lemma locks_ok_Cons:
  "locks_ok (l # ls) \<longleftrightarrow> lock_ok l \<and> lk_type l \<noteq> F_UNLCK \<and> locks_ok ls \<and> (\<forall>k\<in>set ls. lk_owner k = lk_owner l \<longrightarrow> lk_end l < lk_start k)"
  by (auto simp: locks_ok_def)

lemma locks_ok_Nil [simp]: "locks_ok []"
  by (simp add: locks_ok_def)

text \<open>What the loop needs, and what it gives: the new list, in order and with the right meaning; none of the owner's locks starts earlier
  than before.\<close>

definition loop_pre :: "bool \<Rightarrow> bool \<Rightarrow> lock \<Rightarrow> lock list \<Rightarrow> bool" where
  "loop_pre n1 n2 lock ls \<longleftrightarrow> locks_ok ls \<and> lock_ok lock \<and> (lk_type lock = F_UNLCK \<or> n1) \<and>
     (n2 \<or> (\<forall>l\<in>set ls. lk_owner l = lk_owner lock \<longrightarrow> \<not> (lk_start l < lk_start lock \<and> lk_end lock < lk_end l)))"

definition starts_from :: "int \<Rightarrow> 64 word \<Rightarrow> lock list \<Rightarrow> bool" where
  "starts_from b w ls \<longleftrightarrow> (\<forall>l\<in>set ls. lk_owner l = w \<longrightarrow> b \<le> lk_start l)"

lemma starts_from_simps [simp]:
  "starts_from b w []"
  "starts_from b w (l # ls) \<longleftrightarrow> (lk_owner l = w \<longrightarrow> b \<le> lk_start l) \<and> starts_from b w ls"
  by (simp_all add: starts_from_def)

definition result_ok :: "lock \<Rightarrow> lock list \<Rightarrow> lock list \<Rightarrow> bool" where
  "result_ok lock ls r \<longleftrightarrow> locks_ok r \<and> inserted lock ls r \<and>
     (\<forall>b. starts_from b (lk_owner lock) ls \<and> b \<le> lk_start lock \<longrightarrow> starts_from b (lk_owner lock) r) \<and>
     (\<forall>w. w \<noteq> lk_owner lock \<longrightarrow> own w r = own w ls)"

definition loop_post :: "lock \<Rightarrow> lock list \<Rightarrow> lock list outcome \<Rightarrow> bool" where
  "loop_post lock ls out \<longleftrightarrow> (\<exists>r. out = Done r \<and> result_ok lock ls r)"

lemma locks_ok_Cons':
  "locks_ok (l # ls) \<longleftrightarrow> lock_ok l \<and> lk_type l \<noteq> F_UNLCK \<and> locks_ok ls \<and> starts_from (lk_end l + 1) (lk_owner l) ls"
  unfolding locks_ok_Cons starts_from_def by (simp add: zless_imp_add1_zle int_one_le_iff_zero_less add1_zle_eq)

lemma starts_from_own: "own w r = own w ls \<Longrightarrow> starts_from b w r = starts_from b w ls"
proof -
  assume "own w r = own w ls"
  then have "set (own w r) = set (own w ls)" by simp
  then have "k \<in> set r \<and> lk_owner k = w \<longleftrightarrow> k \<in> set ls \<and> lk_owner k = w" for k by auto
  then show ?thesis unfolding starts_from_def by blast
qed

text \<open>A lock of another owner stays.\<close>

lemma keep_other:
  assumes "loop_post lock ls out" and ok: "locks_ok (l # ls)" and ne: "lk_owner l \<noteq> lk_owner lock"
  shows "loop_post lock (l # ls) (keep l out)"
proof -
  obtain r where r: "out = Done r" "locks_ok r" "inserted lock ls r"
    "\<And>b. starts_from b (lk_owner lock) ls \<and> b \<le> lk_start lock \<Longrightarrow> starts_from b (lk_owner lock) r"
    "\<And>w. w \<noteq> lk_owner lock \<Longrightarrow> own w r = own w ls" using assms(1) unfolding loop_post_def result_ok_def by blast
  have "locks_ok (l # r)" using r(2) ok starts_from_own[OF r(5)[OF ne]] by (simp add: locks_ok_Cons')
  moreover have "inserted lock (l # ls) (l # r)" using r(3) ne by (auto simp: inserted_def)
  ultimately have "result_ok lock (l # ls) (l # r)" using r(4,5) ne by (simp add: result_ok_def)
  then show ?thesis using r(1) by (simp add: loop_post_def keep_def)
qed

text \<open>The part of one of the owner's locks before \<open>lock\<close> stays; the part behind it, if any, is in the rest of the list.\<close>

lemma keep_front:
  assumes "loop_post lock ls' out" and ok: "locks_ok (l # ls)" and own: "lk_owner l = lk_owner lock"
    and l': "lk_owner l' = lk_owner l" "lk_type l' = lk_type l" "lk_start l' = lk_start l" "lock_ok l'" "lk_end l' < lk_start lock" "lk_end l' \<le> lk_end l"
    and meaning: "\<And>x t. \<not> (lk_start lock \<le> x \<and> x \<le> lk_end lock) \<Longrightarrow> holds (l' # ls') (lk_owner lock) x t = holds (l # ls) (lk_owner lock) x t"
    and rest: "starts_from (lk_end l' + 1) (lk_owner lock) ls'"
    and others: "\<And>w. w \<noteq> lk_owner lock \<Longrightarrow> own w ls' = own w ls" "\<And>w x t. w \<noteq> lk_owner lock \<Longrightarrow> holds ls' w x t = holds ls w x t"
  shows "loop_post lock (l # ls) (keep l' out)"
proof -
  obtain r where r: "out = Done r" "locks_ok r" "inserted lock ls' r"
    "\<And>b. starts_from b (lk_owner lock) ls' \<and> b \<le> lk_start lock \<Longrightarrow> starts_from b (lk_owner lock) r"
    "\<And>w. w \<noteq> lk_owner lock \<Longrightarrow> own w r = own w ls'" using assms(1) unfolding loop_post_def result_ok_def by blast
  have "lk_type l' \<noteq> F_UNLCK" using ok l'(2) by (simp add: locks_ok_Cons)
  moreover have "starts_from (lk_end l' + 1) (lk_owner l') r" using r(4)[of "lk_end l' + 1"] rest l' own by simp
  ultimately have "locks_ok (l' # r)" using r(2) l' by (simp add: locks_ok_Cons')
  moreover have "inserted lock (l # ls) (l' # r)" unfolding inserted_def
  proof (intro allI)
    fix v x t
    have i: "holds r v x t \<longleftrightarrow> (if v = lk_owner lock \<and> lk_start lock \<le> x \<and> x \<le> lk_end lock then t = lk_type lock \<and> t \<noteq> F_UNLCK else holds ls' v x t)"
      using r(3) by (simp add: inserted_def)
    show "holds (l' # r) v x t \<longleftrightarrow> (if v = lk_owner lock \<and> lk_start lock \<le> x \<and> x \<le> lk_end lock
        then t = lk_type lock \<and> t \<noteq> F_UNLCK else holds (l # ls) v x t)"
    proof (cases "v = lk_owner lock")
      case True
      then show ?thesis using i meaning[of x t] l'(5) own by (cases "lk_start lock \<le> x \<and> x \<le> lk_end lock") auto
    next
      case False
      then show ?thesis using i others(2)[OF False] own l'(1) by simp
    qed
  qed
  moreover have "starts_from b (lk_owner lock) (l' # r)" if "starts_from b (lk_owner lock) (l # ls) \<and> b \<le> lk_start lock" for b
  proof -
    have b: "b \<le> lk_start l'" using that own l' by simp
    moreover have "lk_start l' \<le> lk_end l'" using l'(4) by (simp add: lock_ok_def)
    ultimately have "starts_from b (lk_owner lock) ls'" using rest unfolding starts_from_def by fastforce
    then show ?thesis using r(4)[of b] that b by simp
  qed
  moreover have "own v (l' # r) = own v (l # ls)" if "v \<noteq> lk_owner lock" for v using r(5)[OF that] others(1)[OF that] l' own that by simp
  ultimately have "result_ok lock (l # ls) (l' # r)" unfolding result_ok_def by blast
  then show ?thesis using r(1) by (simp add: loop_post_def keep_def)
qed


lemma not_held_before: "starts_from b w ls \<Longrightarrow> x < b \<Longrightarrow> \<not> holds ls w x t"
  by (auto simp: starts_from_def holds_def)

text \<open>The new lock is linked in front of \<open>ls'\<close>.\<close>

lemma link_post:
  assumes ok: "locks_ok ls'" "lock_ok lock" and n1: "lk_type lock = F_UNLCK \<or> n1" and rest: "starts_from (lk_end lock + 1) (lk_owner lock) ls'"
    and meaning: "\<And>x t. \<not> (lk_start lock \<le> x \<and> x \<le> lk_end lock) \<Longrightarrow> holds ls' (lk_owner lock) x t = holds ls (lk_owner lock) x t"
    and others: "\<And>w. w \<noteq> lk_owner lock \<Longrightarrow> own w ls' = own w ls" "\<And>w x t. w \<noteq> lk_owner lock \<Longrightarrow> holds ls' w x t = holds ls w x t"
  shows "loop_post lock ls (link_new n1 lock ls')"
proof -
  define r where "r = (if lk_type lock = F_UNLCK then ls' else lock # ls')"
  have "locks_ok r" using ok rest by (simp add: r_def locks_ok_Cons')
  moreover have "inserted lock ls r" unfolding inserted_def
  proof (intro allI)
    fix v x t
    show "holds r v x t \<longleftrightarrow> (if v = lk_owner lock \<and> lk_start lock \<le> x \<and> x \<le> lk_end lock
        then t = lk_type lock \<and> t \<noteq> F_UNLCK else holds ls v x t)"
    proof (cases "v = lk_owner lock")
      case True
      then show ?thesis using meaning[of x t] not_held_before[OF rest, of x t] by (cases "lk_start lock \<le> x \<and> x \<le> lk_end lock") (auto simp: r_def)
    next
      case False
      then show ?thesis using others(2)[OF False] by (simp add: r_def)
    qed
  qed
  moreover have "starts_from b (lk_owner lock) r" if "starts_from b (lk_owner lock) ls \<and> b \<le> lk_start lock" for b
  proof -
    have "lk_start lock \<le> lk_end lock" using ok(2) by (simp add: lock_ok_def)
    then have "starts_from b (lk_owner lock) ls'" using rest that unfolding starts_from_def by fastforce
    then show ?thesis using that by (simp add: r_def)
  qed
  moreover have "own v r = own v ls" if "v \<noteq> lk_owner lock" for v using others(1)[OF that] that by (simp add: r_def)
  ultimately have "result_ok lock ls r" unfolding result_ok_def by blast
  moreover have "link_new n1 lock ls' = Done r" using n1 by (auto simp: link_new_def r_def)
  ultimately show ?thesis by (simp add: loop_post_def)
qed

text \<open>One of the owner's locks that \<open>lock\<close> covers or continues is taken out.\<close>

lemma delete_post:
  assumes post: "loop_post lock' ls out" and ok: "locks_ok (l # ls)" and own: "lk_owner l = lk_owner lock"
    and lock': "lk_owner lock' = lk_owner lock" "lk_type lock' = lk_type lock" "lk_start lock' \<le> lk_start l" "lk_start lock' \<le> lk_start lock"
      "lk_end lock \<le> lk_end lock'" "lk_end l \<le> lk_end lock'" "lk_start lock' = lk_start lock \<or> lk_start lock' = lk_start l"
    and grown: "\<And>x. lk_start lock' \<le> x \<Longrightarrow> x \<le> lk_end lock' \<Longrightarrow> \<not> (lk_start lock \<le> x \<and> x \<le> lk_end lock) \<Longrightarrow>
      lk_type l = lk_type lock \<and> lk_start l \<le> x \<and> x \<le> lk_end l"
  shows "loop_post lock (l # ls) out"
proof -
  obtain r where r: "out = Done r" "locks_ok r" "inserted lock' ls r"
    "\<And>b. starts_from b (lk_owner lock) ls \<and> b \<le> lk_start lock' \<Longrightarrow> starts_from b (lk_owner lock) r"
    "\<And>w. w \<noteq> lk_owner lock \<Longrightarrow> own w r = own w ls" using post lock' unfolding loop_post_def result_ok_def by metis
  have un: "lk_type l \<noteq> F_UNLCK" and rest: "starts_from (lk_end l + 1) (lk_owner lock) ls" using ok own by (simp_all add: locks_ok_Cons')
  have "inserted lock (l # ls) r" unfolding inserted_def
  proof (intro allI)
    fix v x t
    have i: "holds r v x t \<longleftrightarrow> (if v = lk_owner lock \<and> lk_start lock' \<le> x \<and> x \<le> lk_end lock' then t = lk_type lock \<and> t \<noteq> F_UNLCK else holds ls v x t)"
      using r(3) lock' by (simp add: inserted_def)
    show "holds r v x t \<longleftrightarrow> (if v = lk_owner lock \<and> lk_start lock \<le> x \<and> x \<le> lk_end lock
        then t = lk_type lock \<and> t \<noteq> F_UNLCK else holds (l # ls) v x t)"
    proof (cases "v = lk_owner lock")
      case True
      consider "lk_start lock \<le> x \<and> x \<le> lk_end lock" | "\<not> (lk_start lock \<le> x \<and> x \<le> lk_end lock)" "lk_start lock' \<le> x" "x \<le> lk_end lock'"
        | "\<not> (lk_start lock' \<le> x \<and> x \<le> lk_end lock')" "\<not> (lk_start lock \<le> x \<and> x \<le> lk_end lock)" by blast
      then show ?thesis
      proof cases
        case 1
        then show ?thesis using i True lock' by auto
      next
        case 2
        have g: "lk_type l = lk_type lock \<and> lk_start l \<le> x \<and> x \<le> lk_end l" using grown[OF 2(2,3,1)] .
        then have "\<not> holds ls v x t" using not_held_before[OF rest, of x t] True by simp
        then show ?thesis using i True 2 g own un by auto
      next
        case 3
        then have "\<not> (lk_start l \<le> x \<and> x \<le> lk_end l)" using lock' by linarith
        then show ?thesis using i True 3 by auto
      qed
    next
      case False
      then show ?thesis using i own by simp
    qed
  qed
  moreover have "starts_from b (lk_owner lock) r" if "starts_from b (lk_owner lock) (l # ls) \<and> b \<le> lk_start lock" for b
    using r(4)[of b] that own lock'(7) by auto
  ultimately have "result_ok lock (l # ls) r" unfolding result_ok_def using r(2,5) own by simp
  then show ?thesis using r(1) by (simp add: loop_post_def)
qed

lemma locks_insert_loop_correct: "loop_pre n1 n2 lock ls \<Longrightarrow> loop_post lock ls (locks_insert_loop n1 n2 lock ls)"
proof (induction n1 n2 lock ls rule: locks_insert_loop.induct)
  case (1 n1 n2 lock)
  then show ?case unfolding locks_insert_loop.simps by (intro link_post) (simp_all add: loop_pre_def)
next
  case (2 n1 n2 lock l ls)
  have ok: "locks_ok (l # ls)" "locks_ok ls" "lock_ok lock" "lock_ok l" and n1: "lk_type lock = F_UNLCK \<or> n1"
    and un: "lk_type l \<noteq> F_UNLCK" and rest: "starts_from (lk_end l + 1) (lk_owner l) ls"
    using 2(8) by (simp_all add: loop_pre_def locks_ok_Cons')
  have tail: "loop_pre n1 n2 lock ls" using 2(8) by (auto simp: loop_pre_def locks_ok_Cons)
  have bounds: "lk_start lock \<le> lk_end lock" "lk_start l \<le> lk_end l" "0 \<le> lk_start lock" "0 \<le> lk_start l" "lk_end lock \<le> OFFSET_MAX" "lk_end l \<le> OFFSET_MAX"
    using ok by (simp_all add: lock_ok_def)
  show ?case
  proof (cases "lk_owner l = lk_owner lock")
    case False
    then show ?thesis using keep_other[OF 2(1)[OF False tail] ok(1) False] by simp
  next
    case own: True
    note rest' = rest[unfolded own]
    show ?thesis
    proof (cases "lk_type lock = lk_type l")
      case same: True
      consider (before) "lk_end l < lk_start lock - 1" | (behind) "\<not> lk_end l < lk_start lock - 1" "lk_end lock < lk_start l - 1"
        | (inside) "\<not> lk_end l < lk_start lock - 1" "\<not> lk_end lock < lk_start l - 1" "lk_start l \<le> lk_start lock \<and> lk_end lock \<le> lk_end l"
        | (merge) "\<not> lk_end l < lk_start lock - 1" "\<not> lk_end lock < lk_start l - 1" "\<not> (lk_start l \<le> lk_start lock \<and> lk_end lock \<le> lk_end l)" by blast
      then show ?thesis
      proof cases
        case before
        have "loop_post lock (l # ls) (keep l (locks_insert_loop n1 n2 lock ls))"
          by (rule keep_front[OF 2(2)[OF _ same before tail]]) (use own ok before rest' in auto)
        then show ?thesis using own same before by simp
      next
        case behind
        have "starts_from (lk_end lock + 1) (lk_owner lock) (l # ls)" using rest' bounds behind unfolding starts_from_def by fastforce
        then have "loop_post lock (l # ls) (link_new n1 lock (l # ls))" by (intro link_post ok n1) simp_all
        then show ?thesis using own same behind by simp
      next
        case inside
        have "inserted lock (l # ls) (l # ls)" unfolding inserted_def
          using not_held_before[OF rest'] own same inside un by force
        then have "result_ok lock (l # ls) (l # ls)" using ok by (simp add: result_ok_def)
        then show ?thesis using own same inside by (simp add: loop_post_def)
      next
        case merge
        define lock2 where "lock2 = (let lock1 = (if lk_start l < lk_start lock then lock\<lparr>lk_start := lk_start l\<rparr> else lock)
          in if lk_end lock1 < lk_end l then lock1\<lparr>lk_end := lk_end l\<rparr> else lock1)"
        have l2: "lk_owner lock2 = lk_owner lock" "lk_type lock2 = lk_type lock" "lk_start lock2 = min (lk_start l) (lk_start lock)"
          "lk_end lock2 = max (lk_end l) (lk_end lock)" by (auto simp: lock2_def Let_def)
        have "loop_pre n1 n2 lock2 ls" using tail l2 bounds by (auto simp: loop_pre_def lock_ok_def)
        then have "loop_post lock2 ls (locks_insert_loop n1 n2 lock2 ls)" using 2(3)[OF _ same merge refl refl] own by (simp add: lock2_def Let_def)
        then have "loop_post lock (l # ls) (locks_insert_loop n1 n2 lock2 ls)"
          by (rule delete_post[OF _ ok(1) own]) (use l2 same merge bounds in auto)
        moreover have "locks_insert_loop n1 n2 lock (l # ls) = locks_insert_loop n1 n2 lock2 ls"
          using own same merge by (auto simp: lock2_def Let_def)
        ultimately show ?thesis by simp
      qed
    next
      case diff: False
      consider (before) "lk_end l < lk_start lock" | (behind) "\<not> lk_end l < lk_start lock" "lk_end lock < lk_start l"
        | (cover) "\<not> lk_end l < lk_start lock" "\<not> lk_end lock < lk_start l" "lk_start lock \<le> lk_start l \<and> lk_end l \<le> lk_end lock"
        | (tail) "\<not> lk_end l < lk_start lock" "\<not> lk_end lock < lk_start l" "\<not> (lk_start lock \<le> lk_start l \<and> lk_end l \<le> lk_end lock)" "lk_end l \<le> lk_end lock"
        | (head) "\<not> lk_end l < lk_start lock" "\<not> lk_end lock < lk_start l" "\<not> (lk_start lock \<le> lk_start l \<and> lk_end l \<le> lk_end lock)" "\<not> lk_end l \<le> lk_end lock"
            "lk_start lock \<le> lk_start l"
        | (split) "\<not> lk_end l < lk_start lock" "\<not> lk_end lock < lk_start l" "\<not> (lk_start lock \<le> lk_start l \<and> lk_end l \<le> lk_end lock)" "\<not> lk_end l \<le> lk_end lock"
            "\<not> lk_start lock \<le> lk_start l" by blast
      then show ?thesis
      proof cases
        case before
        have "loop_post lock (l # ls) (keep l (locks_insert_loop n1 n2 lock ls))"
          by (rule keep_front[OF 2(4)[OF _ diff before tail]]) (use own ok before rest' in auto)
        then show ?thesis using own diff before by simp
      next
        case behind
        have "starts_from (lk_end lock + 1) (lk_owner lock) (l # ls)" using rest' bounds behind unfolding starts_from_def by fastforce
        then have "loop_post lock (l # ls) (link_new n1 lock (l # ls))" by (intro link_post ok n1) simp_all
        then show ?thesis using own diff behind by simp
      next
        case cover
        have "loop_post lock (l # ls) (locks_insert_loop n1 n2 lock ls)"
          by (rule delete_post[OF 2(5)[OF _ diff cover tail] ok(1) own]) (use own cover in auto)
        then show ?thesis using own diff cover by simp
      next
        case t: tail
        let ?l = "l\<lparr>lk_end := lk_start lock - 1\<rparr>"
        have "starts_from (lk_start lock) (lk_owner lock) ls" using rest' t(1) unfolding starts_from_def by fastforce
        then have "loop_post lock (l # ls) (keep ?l (locks_insert_loop n1 n2 lock ls))"
          using t bounds own ok by (intro keep_front[OF 2(6)[OF _ diff t tail]]) (auto simp: lock_ok_def)
        then show ?thesis using own diff t by simp
      next
        case head
        let ?l = "l\<lparr>lk_start := lk_end lock + 1\<rparr>"
        have "locks_ok (?l # ls)" using ok(1) head bounds by (simp add: locks_ok_Cons' lock_ok_def)
        moreover have "starts_from (lk_end lock + 1) (lk_owner lock) (?l # ls)" using rest' head unfolding starts_from_def by fastforce
        ultimately have "loop_post lock (l # ls) (link_new n1 lock (?l # ls))"
          using head bounds own by (intro link_post ok n1) auto
        then show ?thesis using own diff head by simp
      next
        case split
        then have n2: n2 using 2(8) own by (auto simp: loop_pre_def)
        let ?l1 = "l\<lparr>lk_end := lk_start lock - 1\<rparr>" and ?l2 = "l\<lparr>lk_start := lk_end lock + 1\<rparr>"
        have "locks_ok (?l2 # ls)" using ok(1) split bounds by (simp add: locks_ok_Cons' lock_ok_def)
        moreover have "\<not> (lk_start k < lk_start lock \<and> lk_end lock < lk_end k)" if "k \<in> set (?l2 # ls)" "lk_owner k = lk_owner lock" for k
          using that rest' split bounds unfolding starts_from_def by (auto dest!: bspec)
        ultimately have pre2: "loop_pre n1 False lock (?l2 # ls)" using ok n1 by (simp add: loop_pre_def)
        have "starts_from (lk_start lock) (lk_owner lock) (?l2 # ls)" using rest' split bounds unfolding starts_from_def by fastforce
        then have "loop_post lock (l # ls) (keep ?l1 (locks_insert_loop n1 False lock (?l2 # ls)))"
          using split bounds own ok by (intro keep_front[OF 2(7)[OF _ diff split n2 pre2]]) (auto simp: lock_ok_def)
        then show ?thesis using own diff split n2 by simp
      qed
    qed
  qed
qed


lemma locks_insert_pre:
  assumes "locks_ok locks" and "lock_ok lock" and "need = (lk_type lock \<noteq> F_UNLCK \<or> lk_start lock \<noteq> 0 \<or> lk_end lock \<noteq> OFFSET_MAX)"
  shows "loop_pre need need lock locks"
  using assms by (auto simp: loop_pre_def locks_ok_def lock_ok_def)

text \<open>Claim C26 (locks_insert_refines). Setting or clearing a byte-range lock refines the assignment of the lock type to the bytes of its range: afterwards the
  owner holds exactly that type on the range (nothing after an unlock), and what it holds elsewhere and what others hold is as before. The
  list stays sorted and free of overlaps per owner, no spare lock is used twice, and if memory runs out nothing changes.\<close>

theorem locks_insert_refines:
  assumes "locks_ok locks" and "0 \<le> lk_start lock" and "lk_start lock \<le> lk_end lock" and "lk_end lock \<le> OFFSET_MAX"
  shows "\<exists>res locks'. locks_insert mem1 mem2 lock locks = Done (res, locks') \<and> locks_ok locks' \<and>
    (if res = 0 then \<forall>w x t. holds locks' w x t \<longleftrightarrow>
       (if w = lk_owner lock \<and> lk_start lock \<le> x \<and> x \<le> lk_end lock then t = lk_type lock \<and> t \<noteq> F_UNLCK else holds locks w x t)
     else res = - ENOLCK \<and> locks' = locks \<and> \<not> (mem1 \<and> mem2))"
proof -
  let ?need = "lk_type lock \<noteq> F_UNLCK \<or> lk_start lock \<noteq> 0 \<or> lk_end lock \<noteq> OFFSET_MAX"
  have l: "lock_ok lock" using assms by (simp add: lock_ok_def)
  obtain r where r: "locks_insert_loop ?need ?need lock locks = Done r" "locks_ok r" "inserted lock locks r"
    using locks_insert_loop_correct[OF locks_insert_pre[OF assms(1) l refl]] unfolding loop_post_def result_ok_def by blast
  show ?thesis
  proof (cases "?need \<and> \<not> (mem1 \<and> mem2)")
    case True
    then have "locks_insert mem1 mem2 lock locks = Done (- ENOLCK, locks)" by (auto simp: locks_insert_def)
    then show ?thesis using assms(1) True by auto
  next
    case False
    then have "locks_insert mem1 mem2 lock locks = Done (0, r)" using r(1) by (simp only: locks_insert_def Let_def) simp
    then show ?thesis using r(2,3) by (simp add: inserted_def)
  qed
qed

text \<open>A node with a write lock of owner 1 on the bytes 0 to 99 and a read lock of owner 2 behind it.\<close>

definition demo_locks :: "lock list" where
  "demo_locks = [\<lparr>lk_type = F_WRLCK, lk_start = 0, lk_end = 99, lk_pid = 7, lk_owner = 1\<rparr>,
     \<lparr>lk_type = F_RDLCK, lk_start = 100, lk_end = 200, lk_pid = 8, lk_owner = 2\<rparr>]"

lemma demo_locks_ok: "locks_ok demo_locks"
  by (simp add: demo_locks_def locks_ok_Cons lock_ok_def OFFSET_MAX_def)

theorem locks_insert_refines_witness:
  "\<exists>res locks'. locks_insert True True \<lparr>lk_type = F_UNLCK, lk_start = 10, lk_end = 19, lk_pid = 7, lk_owner = 1\<rparr> demo_locks = Done (res, locks') \<and>
     res = 0 \<and> holds locks' 1 9 F_WRLCK \<and> \<not> holds locks' 1 10 F_WRLCK \<and> holds locks' 1 20 F_WRLCK"
proof -
  let ?u = "\<lparr>lk_type = F_UNLCK, lk_start = 10, lk_end = 19, lk_pid = 7, lk_owner = 1\<rparr>"
  obtain res locks' where "locks_insert True True ?u demo_locks = Done (res, locks')"
    "if res = 0 then \<forall>w x t. holds locks' w x t \<longleftrightarrow>
       (if w = lk_owner ?u \<and> lk_start ?u \<le> x \<and> x \<le> lk_end ?u then t = lk_type ?u \<and> t \<noteq> F_UNLCK else holds demo_locks w x t)
     else res = - ENOLCK \<and> locks' = demo_locks \<and> \<not> (True \<and> True)"
    using locks_insert_refines[OF demo_locks_ok, of ?u True True] by (auto simp: OFFSET_MAX_def)
  then show ?thesis by (auto simp: demo_locks_def split: if_splits)
qed

text \<open>Claim C27 (locks_conflict_exact). A lock request is reported as conflicting exactly when another owner holds a lock on one of its bytes and one of the two is a
  write lock; the lock that is reported is such a one, and \<open>F_GETLK\<close> tells its range.\<close>

theorem locks_conflict_exact:
  assumes "locks_ok locks" and "lk_start lock \<le> lk_end lock"
  shows "(locks_conflict locks lock \<noteq> None \<longleftrightarrow>
      (\<exists>w x t. w \<noteq> lk_owner lock \<and> lk_start lock \<le> x \<and> x \<le> lk_end lock \<and> holds locks w x t \<and> (t = F_WRLCK \<or> lk_type lock = F_WRLCK))) \<and>
    (\<forall>l. locks_conflict locks lock = Some l \<longrightarrow> l \<in> set locks \<and> lk_owner l \<noteq> lk_owner lock \<and>
       flock_to_lock (lock_to_flock l) = l\<lparr>lk_owner := 0\<rparr>)"
proof -
  let ?P = "\<lambda>l. lk_owner l \<noteq> lk_owner lock \<and> lk_start lock \<le> lk_end l \<and> lk_start l \<le> lk_end lock \<and> (lk_type l = F_WRLCK \<or> lk_type lock = F_WRLCK)"
  have wf: "lock_ok l" if "l \<in> set locks" for l using assms(1) that by (simp add: locks_ok_def)
  have "(\<exists>l\<in>set locks. ?P l) \<longleftrightarrow>
      (\<exists>w x t. w \<noteq> lk_owner lock \<and> lk_start lock \<le> x \<and> x \<le> lk_end lock \<and> holds locks w x t \<and> (t = F_WRLCK \<or> lk_type lock = F_WRLCK))" (is "?L \<longleftrightarrow> ?R")
  proof
    assume ?L
    then obtain l where l: "l \<in> set locks" "?P l" by blast
    let ?x = "max (lk_start lock) (lk_start l)"
    have "lk_start lock \<le> ?x \<and> ?x \<le> lk_end lock \<and> holds locks (lk_owner l) ?x (lk_type l)"
      using l wf[OF l(1)] assms(2) by (auto simp: holds_def lock_ok_def intro!: bexI[of _ l])
    then show ?R using l(2) by blast
  next
    assume ?R
    then obtain w x t l where "w \<noteq> lk_owner lock" "lk_start lock \<le> x" "x \<le> lk_end lock" "t = F_WRLCK \<or> lk_type lock = F_WRLCK"
      "l \<in> set locks" "lk_owner l = w" "lk_type l = t" "lk_start l \<le> x" "x \<le> lk_end l" unfolding holds_def by blast
    then show ?L by (intro bexI[of _ l] conjI) simp_all
  qed
  moreover have "locks_conflict locks lock \<noteq> None \<longleftrightarrow> (\<exists>l\<in>set locks. ?P l)"
    unfolding locks_conflict_def by (auto simp: find_None_iff)
  moreover have "l \<in> set locks \<and> lk_owner l \<noteq> lk_owner lock \<and> flock_to_lock (lock_to_flock l) = l\<lparr>lk_owner := 0\<rparr>"
    if "locks_conflict locks lock = Some l" for l
  proof -
    have "l \<in> set locks \<and> ?P l" by (rule find_SomeD[OF that[unfolded locks_conflict_def]])
    then show ?thesis using wf[of l] by (auto simp: flock_to_lock_def lock_to_flock_def lock_ok_def)
  qed
  ultimately show ?thesis by blast
qed

theorem locks_conflict_exact_witness:
  "locks_conflict demo_locks \<lparr>lk_type = F_RDLCK, lk_start = 50, lk_end = 150, lk_pid = 9, lk_owner = 3\<rparr> \<noteq> None"
proof -
  let ?q = "\<lparr>lk_type = F_RDLCK, lk_start = 50, lk_end = 150, lk_pid = 9, lk_owner = 3\<rparr>"
  have "\<exists>w x t. w \<noteq> lk_owner ?q \<and> lk_start ?q \<le> x \<and> x \<le> lk_end ?q \<and> holds demo_locks w x t \<and> (t = F_WRLCK \<or> lk_type ?q = F_WRLCK)"
    by (intro exI[of _ 1] exI[of _ 60] exI[of _ F_WRLCK]) (simp add: demo_locks_def)
  then show ?thesis using locks_conflict_exact[OF demo_locks_ok, of ?q] by simp
qed

end
