(* ===== verification/Fuse_Slab.thy ===== *)
theory Fuse_Slab
  imports Fuse_Prelude
begin

text \<open>
  The slab allocator for nodes (\<open>libfuse/lib/fuse.c\<close>, with \<open>FUSE_NODE_SLAB\<close>): pages are cut into blocks of the size of a
  node, each page keeps the list of its free blocks and counts the used ones, and the pages are on the list
  of partly used or of full pages. The interface to its client, the node table, is the locale
  \<open>block_allocator\<close>; it is interpreted on the model of the code at the end.

  Addresses are natural numbers. A page is at a multiple of the page size. An access to a page that is not mapped,
  taking a block from an empty free list and counting below zero are \<open>Aborted\<close>. What \<open>mmap\<close> returns is an argument.
\<close>

record node_slab =
  sl_freelist :: "nat list"
  sl_used :: nat

record slabs =
  sb_pages :: "nat \<Rightarrow> node_slab option"
  sb_partial :: "nat list"
  sb_full :: "nat list"
  sb_pagesize :: nat
  sb_node_size :: nat
  sb_header :: nat

definition node_to_slab :: "slabs \<Rightarrow> nat \<Rightarrow> nat" where
  "node_to_slab f node = node - node mod sb_pagesize f"

definition slab_num :: "slabs \<Rightarrow> nat" where
  "slab_num f = (sb_pagesize f - sb_header f) div sb_node_size f"

definition slab_nodes :: "slabs \<Rightarrow> nat \<Rightarrow> nat list" where
  "slab_nodes f mem = map (\<lambda>i. mem + sb_pagesize f - slab_num f * sb_node_size f + i * sb_node_size f) [0..<slab_num f]"

definition alloc_slab :: "nat option \<Rightarrow> slabs \<Rightarrow> int \<times> slabs" where
  "alloc_slab mmap_result f =
     (case mmap_result of
        None \<Rightarrow> (-1, f)
      | Some mem \<Rightarrow> (0, f\<lparr>sb_pages := (sb_pages f)(mem \<mapsto> \<lparr>sl_freelist = slab_nodes f mem, sl_used = 0\<rparr>),
                           sb_partial := sb_partial f @ [mem]\<rparr>))"

text \<open>The block is taken from the first partly used page.\<close>

definition take_block :: "slabs \<Rightarrow> (nat option \<times> slabs) outcome" where
  "take_block f =
     (case sb_partial f of
        [] \<Rightarrow> Aborted
      | b # rest \<Rightarrow>
          (case sb_pages f b of
             None \<Rightarrow> Aborted
           | Some slab \<Rightarrow>
               (case sl_freelist slab of
                  [] \<Rightarrow> Aborted
                | node # free \<Rightarrow>
                    (let f1 = f\<lparr>sb_pages := (sb_pages f)(b \<mapsto> \<lparr>sl_freelist = free, sl_used = sl_used slab + 1\<rparr>)\<rparr>
                     in Done (Some node, if free = [] then f1\<lparr>sb_partial := rest, sb_full := sb_full f @ [b]\<rparr> else f1)))))"

definition alloc_node :: "nat option \<Rightarrow> slabs \<Rightarrow> (nat option \<times> slabs) outcome" where
  "alloc_node mmap_result f =
     (if sb_partial f = []
      then (case alloc_slab mmap_result f of (res, f1) \<Rightarrow> if res \<noteq> 0 then Done (None, f1) else take_block f1)
      else take_block f)"

text \<open>A page is on one of the two lists.\<close>

definition free_slab :: "nat \<Rightarrow> slabs \<Rightarrow> slabs" where
  "free_slab b f = f\<lparr>sb_pages := (sb_pages f)(b := None), sb_partial := remove1 b (sb_partial f), sb_full := remove1 b (sb_full f)\<rparr>"

definition free_node_mem :: "nat \<Rightarrow> slabs \<Rightarrow> slabs outcome" where
  "free_node_mem node f =
     (let b = node_to_slab f node in
      case sb_pages f b of
        None \<Rightarrow> Aborted
      | Some slab \<Rightarrow>
          if sl_used slab = 0 then Aborted
          else if sl_used slab - 1 \<noteq> 0
          then (let f1 = (if sl_freelist slab = [] then f\<lparr>sb_full := remove1 b (sb_full f), sb_partial := sb_partial f @ [b]\<rparr> else f)
                in Done (f1\<lparr>sb_pages := (sb_pages f)(b \<mapsto> \<lparr>sl_freelist = node # sl_freelist slab, sl_used = sl_used slab - 1\<rparr>)\<rparr>))
          else Done (free_slab b f))"

subsection \<open>The interface\<close>

text \<open>What a client relies on: \<open>ok s A\<close> says that exactly the blocks of \<open>A\<close> are given out; a new block is none of them and
  keeps its distance; a block that is given back can be given out again.\<close>

locale block_allocator =
  fixes alloc :: "'m \<Rightarrow> 's \<Rightarrow> (nat option \<times> 's) outcome" and free :: "nat \<Rightarrow> 's \<Rightarrow> 's outcome"
    and ok :: "'s \<Rightarrow> nat set \<Rightarrow> bool" and grant :: "'m \<Rightarrow> 's \<Rightarrow> bool" and width :: "'s \<Rightarrow> nat"
  assumes alloc_law: "ok s A \<Longrightarrow> grant m s \<Longrightarrow> \<exists>r s'. alloc m s = Done (r, s') \<and> width s' = width s \<and>
      (case r of None \<Rightarrow> ok s' A | Some n \<Rightarrow> n \<notin> A \<and> ok s' (insert n A))"
    and free_law: "ok s A \<Longrightarrow> n \<in> A \<Longrightarrow> \<exists>s'. free n s = Done s' \<and> width s' = width s \<and> ok s' (A - {n})"
    and apart_law: "ok s A \<Longrightarrow> n \<in> A \<Longrightarrow> k \<in> A \<Longrightarrow> n \<noteq> k \<Longrightarrow> n + width s \<le> k \<or> k + width s \<le> n"
begin

text \<open>Any sequence of requests of a client that only gives back what it has: \<open>Inl m\<close> asks for a block, \<open>Inr k\<close> gives back
  the \<open>k\<close>th block it holds.\<close>

fun client :: "('m + nat) list \<Rightarrow> nat list \<Rightarrow> 's \<Rightarrow> (nat list \<times> 's) outcome" where
  "client [] held s = Done (held, s)"
| "client (Inl m # ops) held s = (if grant m s then obind (alloc m s) (\<lambda>(r, s1).
     client ops (case r of None \<Rightarrow> held | Some n \<Rightarrow> n # held) s1) else client ops held s)"
| "client (Inr k # ops) held s = (if k < length held
     then obind (free (held ! k) s) (\<lambda>s1. client ops (take k held @ drop (Suc k) held) s1) else client ops held s)"

lemma remove_nth_set:
  assumes "distinct xs" and "k < length xs"
  shows "set (take k xs @ drop (Suc k) xs) = set xs - {xs ! k}" and "distinct (take k xs @ drop (Suc k) xs)"
proof -
  have e: "xs = take k xs @ xs ! k # drop (Suc k) xs" using id_take_nth_drop[OF assms(2)] .
  have d: "distinct (take k xs @ xs ! k # drop (Suc k) xs)" using assms(1) e by simp
  have "set xs = set (take k xs) \<union> insert (xs ! k) (set (drop (Suc k) xs))" by (subst e) simp
  then show "set (take k xs @ drop (Suc k) xs) = set xs - {xs ! k}" using d by auto
  show "distinct (take k xs @ drop (Suc k) xs)" using d by simp
qed

lemma client_safe:
  assumes "ok s (set held)" and "distinct held"
  shows "\<exists>held' s'. client ops held s = Done (held', s') \<and> distinct held' \<and> ok s' (set held') \<and> width s' = width s \<and>
    (\<forall>n\<in>set held'. \<forall>m\<in>set held'. n \<noteq> m \<longrightarrow> n + width s \<le> m \<or> m + width s \<le> n)"
  using assms
proof (induction ops arbitrary: held s)
  case Nil
  then show ?case using apart_law by fastforce
next
  case (Cons op ops)
  show ?case
  proof (cases op)
    case (Inl m)
    show ?thesis
    proof (cases "grant m s")
      case True
      from alloc_law[OF Cons.prems(1) True] obtain r s1 where a: "alloc m s = Done (r, s1)" and w: "width s1 = width s"
        and r: "case r of None \<Rightarrow> ok s1 (set held) | Some n \<Rightarrow> n \<notin> set held \<and> ok s1 (insert n (set held))" by blast
      define held1 where "held1 = (case r of None \<Rightarrow> held | Some n \<Rightarrow> n # held)"
      have "ok s1 (set held1)" "distinct held1" using r Cons.prems(2) by (auto simp: held1_def split: option.splits)
      from Cons.IH[OF this] show ?thesis using Inl True a w by (simp add: held1_def)
    qed (use Cons Inl in simp)
  next
    case (Inr k)
    show ?thesis
    proof (cases "k < length held")
      case True
      from free_law[OF Cons.prems(1), of "held ! k"] True obtain s1 where f: "free (held ! k) s = Done s1" and w: "width s1 = width s"
        and o: "ok s1 (set held - {held ! k})" by auto
      note rem = remove_nth_set[OF Cons.prems(2) True]
      have "ok s1 (set (take k held @ drop (Suc k) held))" unfolding rem(1) by (rule o)
      from Cons.IH[OF this rem(2)] show ?thesis using Inr True f w by simp
    qed (use Cons Inr in simp)
  qed
qed

end

subsection \<open>The slab allocator is one\<close>

text \<open>The blocks of a page that are given out.\<close>

definition used_of :: "slabs \<Rightarrow> nat set \<Rightarrow> nat \<Rightarrow> nat set" where
  "used_of f A b = A \<inter> set (slab_nodes f b)"

definition page_ok :: "slabs \<Rightarrow> nat set \<Rightarrow> nat \<Rightarrow> node_slab \<Rightarrow> bool" where
  "page_ok f A b slab \<longleftrightarrow> sb_pagesize f dvd b \<and> distinct (sl_freelist slab) \<and> set (sl_freelist slab) = set (slab_nodes f b) - A \<and>
     sl_used slab = card (used_of f A b)"

definition sizes_ok :: "slabs \<Rightarrow> bool" where
  "sizes_ok f \<longleftrightarrow> 0 < sb_node_size f \<and> sb_header f + sb_node_size f \<le> sb_pagesize f"

definition lists_ok :: "slabs \<Rightarrow> bool" where
  "lists_ok f \<longleftrightarrow> distinct (sb_partial f) \<and> distinct (sb_full f) \<and>
     (\<forall>b. b \<in> set (sb_partial f) \<longleftrightarrow> (\<exists>slab. sb_pages f b = Some slab \<and> sl_freelist slab \<noteq> [])) \<and>
     (\<forall>b. b \<in> set (sb_full f) \<longleftrightarrow> (\<exists>slab. sb_pages f b = Some slab \<and> sl_freelist slab = []))"

text \<open>Only pages of \<open>E\<close> may be without a block in use.\<close>

definition slabs_inv :: "nat set \<Rightarrow> slabs \<Rightarrow> nat set \<Rightarrow> bool" where
  "slabs_inv E f A \<longleftrightarrow> sizes_ok f \<and> lists_ok f \<and>
     (\<forall>b slab. sb_pages f b = Some slab \<longrightarrow> page_ok f A b slab \<and> (b \<notin> E \<longrightarrow> used_of f A b \<noteq> {})) \<and>
     (\<forall>n\<in>A. \<exists>b. sb_pages f b \<noteq> None \<and> n \<in> set (slab_nodes f b))"

definition slabs_ok :: "slabs \<Rightarrow> nat set \<Rightarrow> bool" where
  "slabs_ok f A \<longleftrightarrow> slabs_inv {} f A"

text \<open>\<open>mmap\<close> gives a page that is not mapped.\<close>

definition fresh_page :: "nat option \<Rightarrow> slabs \<Rightarrow> bool" where
  "fresh_page m f \<longleftrightarrow> (\<forall>b. m = Some b \<longrightarrow> sb_pagesize f dvd b \<and> sb_pages f b = None)"


text \<open>The blocks of a page lie in it, apart from each other.\<close>

lemma slab_num_pos: "sizes_ok f \<Longrightarrow> 0 < slab_num f"
  unfolding sizes_ok_def slab_num_def div_greater_zero_iff by linarith

lemma slab_num_fits: "sizes_ok f \<Longrightarrow> slab_num f * sb_node_size f + sb_header f \<le> sb_pagesize f"
proof -
  assume ok: "sizes_ok f"
  have "slab_num f * sb_node_size f \<le> sb_pagesize f - sb_header f" unfolding slab_num_def by (rule div_times_less_eq_dividend)
  then show ?thesis using ok unfolding sizes_ok_def by linarith
qed

lemma slab_nodes_range:
  assumes ok: "sizes_ok f" and n: "n \<in> set (slab_nodes f b)"
  shows "b \<le> n" and "n + sb_node_size f \<le> b + sb_pagesize f" and "sb_pagesize f dvd b \<Longrightarrow> node_to_slab f n = b"
proof -
  let ?P = "sb_pagesize f" and ?w = "sb_node_size f" and ?k = "slab_num f"
  obtain i where i: "i < ?k" "n = b + ?P - ?k * ?w + i * ?w" using n by (auto simp: slab_nodes_def)
  have "Suc i * ?w \<le> ?k * ?w" using i(1) by (intro mult_le_mono1) simp
  moreover have "?k * ?w \<le> ?P" using slab_num_fits[OF ok] by simp
  ultimately show b: "b \<le> n" and e: "n + ?w \<le> b + ?P" using i(2) by auto
  assume d: "?P dvd b"
  have "n < b + ?P" using e ok by (simp add: sizes_ok_def)
  obtain q where q: "b = ?P * q" using d by (rule dvdE)
  have "n = ?P * q + (n - b)" using b q by simp
  then have "n mod ?P = (n - b) mod ?P" by (metis mod_mult_self4 add.commute)
  also have "\<dots> = n - b" using \<open>n < b + ?P\<close> b by simp
  finally have "n mod ?P = n - b" .
  then show "node_to_slab f n = b" using b by (simp add: node_to_slab_def)
qed

lemma slab_nodes_apart:
  assumes "n \<in> set (slab_nodes f b)" and "k \<in> set (slab_nodes f b)" and "n \<noteq> k"
  shows "n + sb_node_size f \<le> k \<or> k + sb_node_size f \<le> n"
proof -
  let ?w = "sb_node_size f" and ?o = "b + sb_pagesize f - slab_num f * sb_node_size f"
  obtain i j where ij: "n = ?o + i * ?w" "k = ?o + j * ?w" using assms(1,2) by (auto simp: slab_nodes_def)
  then have "i \<noteq> j" using assms(3) by auto
  then have "Suc i * ?w \<le> j * ?w \<or> Suc j * ?w \<le> i * ?w" by (metis mult_le_mono1 Suc_leI linorder_neqE_nat)
  then show ?thesis using ij by auto
qed

lemma slab_nodes_distinct: "sizes_ok f \<Longrightarrow> distinct (slab_nodes f b)"
  by (auto simp: slab_nodes_def distinct_map inj_on_def sizes_ok_def)

lemma pages_apart:
  assumes ok: "sizes_ok f" and d: "sb_pagesize f dvd b" "sb_pagesize f dvd c" "b \<noteq> c" and n: "n \<in> set (slab_nodes f b)" and k: "k \<in> set (slab_nodes f c)"
  shows "n + sb_node_size f \<le> k \<or> k + sb_node_size f \<le> n"
proof -
  let ?P = "sb_pagesize f"
  obtain i j where ij: "b = ?P * i" "c = ?P * j" using d(1,2) by (elim dvdE)
  then have "Suc i \<le> j \<or> Suc j \<le> i" using d(3) by auto
  then have "?P * Suc i \<le> ?P * j \<or> ?P * Suc j \<le> ?P * i" by (meson mult_le_mono2)
  then have "b + ?P \<le> c \<or> c + ?P \<le> b" using ij by auto
  then show ?thesis using slab_nodes_range(1,2)[OF ok n] slab_nodes_range(1,2)[OF ok k] by linarith
qed

lemma inv_page:
  assumes "slabs_inv E f A" and "sb_pages f b = Some slab"
  shows "sb_pagesize f dvd b" and "distinct (sl_freelist slab)" and "set (sl_freelist slab) = set (slab_nodes f b) - A"
    and "sl_used slab = card (used_of f A b)" and "b \<notin> E \<Longrightarrow> used_of f A b \<noteq> {}"
proof -
  from assms have "page_ok f A b slab \<and> (b \<notin> E \<longrightarrow> used_of f A b \<noteq> {})" unfolding slabs_inv_def by blast
  then show "sb_pagesize f dvd b" and "distinct (sl_freelist slab)" and "set (sl_freelist slab) = set (slab_nodes f b) - A"
    and "sl_used slab = card (used_of f A b)" and "b \<notin> E \<Longrightarrow> used_of f A b \<noteq> {}" by (simp_all add: page_ok_def)
qed

lemma inv_block:
  assumes "slabs_inv E f A" and "n \<in> A"
  obtains b slab where "sb_pages f b = Some slab" and "n \<in> set (slab_nodes f b)" and "sb_pagesize f dvd b" and "node_to_slab f n = b"
proof -
  from assms obtain b slab where b: "sb_pages f b = Some slab" "n \<in> set (slab_nodes f b)" unfolding slabs_inv_def by blast
  moreover have "sizes_ok f" using assms(1) by (simp add: slabs_inv_def)
  ultimately show ?thesis using that inv_page(1)[OF assms(1) b(1)] slab_nodes_range(3) by blast
qed

lemma blocks_apart:
  assumes ok: "slabs_inv E f A" and n: "n \<in> A" and k: "k \<in> A" and "n \<noteq> k"
  shows "n + sb_node_size f \<le> k \<or> k + sb_node_size f \<le> n"
proof -
  have s: "sizes_ok f" using ok by (simp add: slabs_inv_def)
  obtain b where b: "n \<in> set (slab_nodes f b)" "sb_pagesize f dvd b" using inv_block[OF ok n] by blast
  obtain c where c: "k \<in> set (slab_nodes f c)" "sb_pagesize f dvd c" using inv_block[OF ok k] by blast
  show ?thesis
  proof (cases "b = c")
    case True
    then show ?thesis using slab_nodes_apart[OF b(1)] c(1) assms(4) by simp
  next
    case False
    then show ?thesis using pages_apart[OF s b(2) c(2) False b(1) c(1)] by simp
  qed
qed

lemma page_of_block:
  assumes "sizes_ok f" and "sb_pagesize f dvd b" and "sb_pagesize f dvd c" and "n \<in> set (slab_nodes f b)" and "n \<in> set (slab_nodes f c)"
  shows "b = c"
  using slab_nodes_range(3)[OF assms(1,4,2)] slab_nodes_range(3)[OF assms(1,5,3)] by simp

text \<open>The state after a change of one page: the other pages keep their free lists.\<close>

lemma used_of_other:
  assumes "sizes_ok f" and "sb_pagesize f dvd b" and "sb_pagesize f dvd c" and "n \<in> set (slab_nodes f b)" and "b \<noteq> c"
  shows "used_of f (insert n A) c = used_of f A c" and "used_of f (A - {n}) c = used_of f A c"
    and "set (slab_nodes f c) - insert n A = set (slab_nodes f c) - A" and "set (slab_nodes f c) - (A - {n}) = set (slab_nodes f c) - A"
proof -
  have "n \<notin> set (slab_nodes f c)" using page_of_block[OF assms(1-4)] assms(5) by blast
  then show "used_of f (insert n A) c = used_of f A c" and "used_of f (A - {n}) c = used_of f A c"
    and "set (slab_nodes f c) - insert n A = set (slab_nodes f c) - A" and "set (slab_nodes f c) - (A - {n}) = set (slab_nodes f c) - A"
    by (auto simp: used_of_def)
qed


lemma layout_simps [simp]:
  "slab_nodes (f\<lparr>sb_pages := x\<rparr>) = slab_nodes f" "slab_nodes (f\<lparr>sb_partial := y\<rparr>) = slab_nodes f" "slab_nodes (f\<lparr>sb_full := y\<rparr>) = slab_nodes f"
  "sizes_ok (f\<lparr>sb_pages := x\<rparr>) = sizes_ok f" "sizes_ok (f\<lparr>sb_partial := y\<rparr>) = sizes_ok f" "sizes_ok (f\<lparr>sb_full := y\<rparr>) = sizes_ok f"
  by (auto simp: slab_nodes_def slab_num_def sizes_ok_def fun_eq_iff)

lemma inv_change:
  assumes inv: "slabs_inv E f A" and E: "E \<subseteq> {b}" and lay: "slab_nodes f' = slab_nodes f" "sizes_ok f'" "sb_pagesize f' = sb_pagesize f"
    and pages: "\<And>c. c \<noteq> b \<Longrightarrow> sb_pages f' c = sb_pages f c"
    and others: "\<And>c. c \<noteq> b \<Longrightarrow> sb_pagesize f dvd c \<Longrightarrow> used_of f A' c = used_of f A c \<and> set (slab_nodes f c) - A' = set (slab_nodes f c) - A"
    and here: "\<And>slab. sb_pages f' b = Some slab \<Longrightarrow> page_ok f A' b slab \<and> used_of f A' b \<noteq> {}"
    and lists: "lists_ok f'" and cover: "\<And>n. n \<in> A' \<Longrightarrow> \<exists>c. sb_pages f' c \<noteq> None \<and> n \<in> set (slab_nodes f c)"
  shows "slabs_inv {} f' A'"
proof -
  have u: "used_of f' = used_of f" using lay by (simp add: used_of_def fun_eq_iff)
  have p: "page_ok f' = page_ok f" using lay by (simp add: page_ok_def u fun_eq_iff)
  have "page_ok f A' c slab \<and> used_of f A' c \<noteq> {}" if c: "sb_pages f' c = Some slab" for c slab
  proof (cases "c = b")
    case True
    then show ?thesis using here c by blast
  next
    case False
    then have o: "sb_pages f c = Some slab" using pages c by simp
    note page = inv_page[OF inv o]
    have "c \<notin> E" using E False by blast
    then show ?thesis using others[OF False page(1)] page by (simp add: page_ok_def)
  qed
  then show ?thesis using lay lists cover by (simp add: slabs_inv_def u p)
qed

text \<open>Taking a block from the first partly used page.\<close>

lemma lists_take:
  fixes u :: nat
  assumes l: "lists_ok f" and p: "sb_partial f = b # rest" and s: "sb_pages f b = Some slab" and fl: "sl_freelist slab = node # free"
  defines "f1 \<equiv> f\<lparr>sb_pages := (sb_pages f)(b \<mapsto> \<lparr>sl_freelist = free, sl_used = u\<rparr>)\<rparr>"
  shows "lists_ok (if free = [] then f1\<lparr>sb_partial := rest, sb_full := sb_full f @ [b]\<rparr> else f1)"
proof -
  have a: "distinct (b # rest)" "distinct (sb_full f)" using l p by (auto simp: lists_ok_def)
  have b: "\<And>c. c \<in> set (b # rest) \<longleftrightarrow> (\<exists>slab. sb_pages f c = Some slab \<and> sl_freelist slab \<noteq> [])"
    and c: "\<And>c. c \<in> set (sb_full f) \<longleftrightarrow> (\<exists>slab. sb_pages f c = Some slab \<and> sl_freelist slab = [])"
    using l unfolding lists_ok_def p by blast+
  have n: "b \<notin> set (sb_full f)" using c[of b] s fl by simp
  show ?thesis
  proof (cases "free = []")
    case True
    have "c \<in> set rest \<longleftrightarrow> (\<exists>slab. sb_pages f c = Some slab \<and> sl_freelist slab \<noteq> [] \<and> c \<noteq> b)" for c using b[of c] a(1) by auto
    then show ?thesis using True a n p c by (auto simp: lists_ok_def f1_def)
  next
    case False
    then show ?thesis using a p b c s fl n unfolding lists_ok_def f1_def by (auto split: if_splits)
  qed
qed

lemma take_block_step:
  assumes inv: "slabs_inv E f A" and p: "sb_partial f = b # rest" and E: "E \<subseteq> {b}"
  shows "\<exists>n f'. take_block f = Done (Some n, f') \<and> n \<notin> A \<and> slabs_inv {} f' (insert n A) \<and> sb_node_size f' = sb_node_size f"
proof -
  have l: "lists_ok f" and so: "sizes_ok f" using inv by (auto simp: slabs_inv_def)
  have "\<exists>slab. sb_pages f b = Some slab \<and> sl_freelist slab \<noteq> []" using l p unfolding lists_ok_def by (metis list.set_intros(1))
  then obtain slab n free where s: "sb_pages f b = Some slab" and fl: "sl_freelist slab = n # free" by (metis neq_Nil_conv)
  note page = inv_page[OF inv s]
  define f1 where "f1 = f\<lparr>sb_pages := (sb_pages f)(b \<mapsto> \<lparr>sl_freelist = free, sl_used = sl_used slab + 1\<rparr>)\<rparr>"
  define f' where "f' = (if free = [] then f1\<lparr>sb_partial := rest, sb_full := sb_full f @ [b]\<rparr> else f1)"
  have n: "n \<in> set (slab_nodes f b)" "n \<notin> A" using page(3) fl by auto
  have pages: "sb_pages f' = (sb_pages f)(b \<mapsto> \<lparr>sl_freelist = free, sl_used = sl_used slab + 1\<rparr>)" by (simp add: f'_def f1_def)
  have "slabs_inv {} f' (insert n A)"
  proof (rule inv_change[OF inv E])
    show "slab_nodes f' = slab_nodes f" "sizes_ok f'" "sb_pagesize f' = sb_pagesize f" using so by (simp_all add: f'_def f1_def)
    show "lists_ok f'" unfolding f'_def f1_def by (rule lists_take[OF l p s fl])
    show "sb_pages f' c = sb_pages f c" if "c \<noteq> b" for c using that pages by simp
    show "used_of f (insert n A) c = used_of f A c \<and> set (slab_nodes f c) - insert n A = set (slab_nodes f c) - A"
      if "c \<noteq> b" "sb_pagesize f dvd c" for c using used_of_other[OF so page(1) that(2) n(1)] that(1) by blast
    show "\<exists>c. sb_pages f' c \<noteq> None \<and> x \<in> set (slab_nodes f c)" if "x \<in> insert n A" for x
    proof (cases "x = n")
      case True
      then show ?thesis using n(1) pages by auto
    next
      case False
      then have "x \<in> A" using that by simp
      then show ?thesis by (rule inv_block[OF inv]) (auto simp: pages)
    qed
    have "used_of f (insert n A) b = insert n (used_of f A b)" "n \<notin> used_of f A b" "finite (used_of f A b)" using n by (auto simp: used_of_def)
    then show "page_ok f (insert n A) b sl \<and> used_of f (insert n A) b \<noteq> {}" if "sb_pages f' b = Some sl" for sl
      using that pages page fl by (auto simp: page_ok_def)
  qed
  moreover have "take_block f = Done (Some n, f')" using p s fl by (simp add: take_block_def f'_def f1_def)
  moreover have "sb_node_size f' = sb_node_size f" by (simp add: f'_def f1_def)
  ultimately show ?thesis using n(2) by blast
qed


text \<open>A new page: all its blocks are free.\<close>

lemma fresh_no_used:
  assumes inv: "slabs_inv {} f A" and "sb_pagesize f dvd b" and "sb_pages f b = None"
  shows "A \<inter> set (slab_nodes f b) = {}"
proof -
  have so: "sizes_ok f" using inv by (simp add: slabs_inv_def)
  have False if "n \<in> A" "n \<in> set (slab_nodes f b)" for n
    using inv_block[OF inv that(1)] slab_nodes_range(3)[OF so that(2) assms(2)] assms(3) by (metis option.distinct(1))
  then show ?thesis by blast
qed

lemma slab_nodes_not_empty: "sizes_ok f \<Longrightarrow> slab_nodes f b \<noteq> []"
  using slab_num_pos by (auto simp: slab_nodes_def)

lemma alloc_slab_step:
  assumes inv: "slabs_inv {} f A" and e: "sb_partial f = []" and d: "sb_pagesize f dvd b" and n: "sb_pages f b = None"
  shows "\<exists>f1. alloc_slab (Some b) f = (0, f1) \<and> slabs_inv {b} f1 A \<and> sb_partial f1 = [b] \<and> sb_node_size f1 = sb_node_size f"
proof -
  define f1 where "f1 = f\<lparr>sb_pages := (sb_pages f)(b \<mapsto> \<lparr>sl_freelist = slab_nodes f b, sl_used = 0\<rparr>), sb_partial := sb_partial f @ [b]\<rparr>"
  have so: "sizes_ok f" and l: "lists_ok f" using inv by (auto simp: slabs_inv_def)
  have free: "A \<inter> set (slab_nodes f b) = {}" by (rule fresh_no_used[OF inv d n])
  have lay: "slab_nodes f1 = slab_nodes f" "sizes_ok f1" "sb_pagesize f1 = sb_pagesize f" using so by (simp_all add: f1_def)
  have u: "used_of f1 = used_of f" and p: "page_ok f1 = page_ok f" using lay by (simp_all add: used_of_def page_ok_def fun_eq_iff)
  have "lists_ok f1" using l e n slab_nodes_not_empty[OF so, of b] unfolding lists_ok_def f1_def by auto
  moreover have "page_ok f A b \<lparr>sl_freelist = slab_nodes f b, sl_used = 0\<rparr>"
    using d free slab_nodes_distinct[OF so] by (auto simp: page_ok_def used_of_def)
  moreover have "page_ok f A c slab \<and> used_of f A c \<noteq> {}" if "sb_pages f c = Some slab" for c slab
    using inv_page[OF inv that] by (simp add: page_ok_def)
  moreover have "\<exists>c. sb_pages f1 c \<noteq> None \<and> x \<in> set (slab_nodes f c)" if "x \<in> A" for x
    using inv_block[OF inv that] n by (auto simp: f1_def)
  ultimately have "slabs_inv {b} f1 A" using lay unfolding slabs_inv_def u p by (auto simp: f1_def)
  then show ?thesis using e by (auto simp: alloc_slab_def f1_def)
qed

lemma alloc_node_step:
  assumes ok: "slabs_ok f A" and g: "fresh_page m f"
  shows "\<exists>r f'. alloc_node m f = Done (r, f') \<and> sb_node_size f' = sb_node_size f \<and>
    (case r of None \<Rightarrow> slabs_ok f' A | Some n \<Rightarrow> n \<notin> A \<and> slabs_ok f' (insert n A))"
proof (cases "sb_partial f")
  case (Cons b rest)
  have "slabs_inv {} f A" using ok by (simp add: slabs_ok_def)
  from take_block_step[OF this Cons] show ?thesis using Cons by (fastforce simp: alloc_node_def slabs_ok_def)
next
  case Nil
  show ?thesis
  proof (cases m)
    case None
    then show ?thesis using Nil ok by (simp add: alloc_node_def alloc_slab_def)
  next
    case (Some b)
    then have "sb_pagesize f dvd b" "sb_pages f b = None" using g by (auto simp: fresh_page_def)
    from alloc_slab_step[OF ok[unfolded slabs_ok_def] Nil this] obtain f1 where f1: "alloc_slab (Some b) f = (0, f1)"
      "slabs_inv {b} f1 A" "sb_partial f1 = [b]" "sb_node_size f1 = sb_node_size f" by blast
    from take_block_step[OF f1(2,3)] f1(1,4) Nil Some show ?thesis by (fastforce simp: alloc_node_def slabs_ok_def)
  qed
qed

text \<open>Giving a block back.\<close>

lemma lists_free_slab:
  assumes l: "lists_ok f"
  shows "lists_ok (free_slab b f)"
  using l unfolding lists_ok_def free_slab_def by (auto simp: set_remove1_eq)

lemma lists_put:
  fixes u :: nat
  assumes l: "lists_ok f" and s: "sb_pages f b = Some slab"
  defines "f1 \<equiv> (if sl_freelist slab = [] then f\<lparr>sb_full := remove1 b (sb_full f), sb_partial := sb_partial f @ [b]\<rparr> else f)"
  shows "lists_ok (f1\<lparr>sb_pages := (sb_pages f)(b \<mapsto> \<lparr>sl_freelist = node # sl_freelist slab, sl_used = u\<rparr>)\<rparr>)"
proof -
  have b: "b \<in> set (sb_partial f) \<longleftrightarrow> sl_freelist slab \<noteq> []" "b \<in> set (sb_full f) \<longleftrightarrow> sl_freelist slab = []"
    using l s unfolding lists_ok_def by auto
  show ?thesis
  proof (cases "sl_freelist slab = []")
    case True
    then show ?thesis using l b s unfolding lists_ok_def f1_def by (auto simp: set_remove1_eq)
  next
    case False
    then show ?thesis using l b s unfolding lists_ok_def f1_def by auto
  qed
qed

lemma free_node_step:
  assumes ok: "slabs_ok f A" and n: "n \<in> A"
  shows "\<exists>f'. free_node_mem n f = Done f' \<and> sb_node_size f' = sb_node_size f \<and> slabs_ok f' (A - {n})"
proof -
  have inv: "slabs_inv {} f A" using ok by (simp add: slabs_ok_def)
  have l: "lists_ok f" and so: "sizes_ok f" using inv by (auto simp: slabs_inv_def)
  obtain b slab where s: "sb_pages f b = Some slab" and nb: "n \<in> set (slab_nodes f b)" and b: "node_to_slab f n = b" using inv_block[OF inv n] by blast
  note page = inv_page[OF inv s]
  have u: "used_of f A b = insert n (used_of f (A - {n}) b)" "n \<notin> used_of f (A - {n}) b" "finite (used_of f (A - {n}) b)" using n nb by (auto simp: used_of_def)
  have c: "sl_used slab = Suc (card (used_of f (A - {n}) b))" using page(4) u by simp
  have E: "({} :: nat set) \<subseteq> {b}" by simp
  have others: "used_of f (A - {n}) c = used_of f A c \<and> set (slab_nodes f c) - (A - {n}) = set (slab_nodes f c) - A"
    if "c \<noteq> b" "sb_pagesize f dvd c" for c using used_of_other[OF so page(1) that(2) nb] that(1) by blast
  have cover: "\<exists>c. sb_pages f c \<noteq> None \<and> x \<in> set (slab_nodes f c)" if "x \<in> A - {n}" for x
  proof -
    from that have "x \<in> A" by simp
    then show ?thesis by (rule inv_block[OF inv]) auto
  qed
  show ?thesis
  proof (cases "used_of f (A - {n}) b = {}")
    case True
    have "slabs_inv {} (free_slab b f) (A - {n})"
    proof (rule inv_change[OF inv E _ _ _ _ others])
      show "slab_nodes (free_slab b f) = slab_nodes f" "sizes_ok (free_slab b f)" "sb_pagesize (free_slab b f) = sb_pagesize f" using so by (simp_all add: free_slab_def)
      show "lists_ok (free_slab b f)" by (rule lists_free_slab[OF l])
      show "\<exists>c. sb_pages (free_slab b f) c \<noteq> None \<and> x \<in> set (slab_nodes f c)" if "x \<in> A - {n}" for x
      proof -
        from cover that obtain c where c: "sb_pages f c \<noteq> None" "x \<in> set (slab_nodes f c)" by blast
        then have "c \<noteq> b" using True that by (auto simp: used_of_def)
        then show ?thesis using c by (auto simp: free_slab_def)
      qed
    qed (simp_all add: free_slab_def)
    moreover have "free_node_mem n f = Done (free_slab b f)" using True b c s by (simp add: free_node_mem_def)
    ultimately show ?thesis by (simp add: slabs_ok_def free_slab_def)
  next
    case False
    define f1 where "f1 = (if sl_freelist slab = [] then f\<lparr>sb_full := remove1 b (sb_full f), sb_partial := sb_partial f @ [b]\<rparr> else f)"
    define f2 where "f2 = f1\<lparr>sb_pages := (sb_pages f)(b \<mapsto> \<lparr>sl_freelist = n # sl_freelist slab, sl_used = sl_used slab - 1\<rparr>)\<rparr>"
    have pages: "sb_pages f2 = (sb_pages f)(b \<mapsto> \<lparr>sl_freelist = n # sl_freelist slab, sl_used = sl_used slab - 1\<rparr>)" by (simp add: f2_def)
    have "slabs_inv {} f2 (A - {n})"
    proof (rule inv_change[OF inv E _ _ _ _ others])
      show "slab_nodes f2 = slab_nodes f" "sizes_ok f2" "sb_pagesize f2 = sb_pagesize f" using so by (simp_all add: f2_def f1_def)
      show "lists_ok f2" unfolding f2_def f1_def by (rule lists_put[OF l s])
      show "page_ok f (A - {n}) b sl \<and> used_of f (A - {n}) b \<noteq> {}" if "sb_pages f2 b = Some sl" for sl
      proof -
        have sl: "sl = \<lparr>sl_freelist = n # sl_freelist slab, sl_used = card (used_of f (A - {n}) b)\<rparr>" using that pages c by simp
        have "n \<notin> set (sl_freelist slab)" "insert n (set (sl_freelist slab)) = set (slab_nodes f b) - (A - {n})" unfolding page(3) using n nb by blast+
        then show ?thesis using sl page(1,2) False by (simp add: page_ok_def)
      qed
      show "\<exists>c. sb_pages f2 c \<noteq> None \<and> x \<in> set (slab_nodes f c)" if "x \<in> A - {n}" for x using cover[OF that] pages by auto
    qed (simp_all add: pages)
    moreover have "free_node_mem n f = Done f2" using False b c s u(3) by (simp add: free_node_mem_def f2_def f1_def Let_def)
    moreover have "sb_node_size f2 = sb_node_size f" by (simp add: f2_def f1_def)
    ultimately show ?thesis by (simp add: slabs_ok_def)
  qed
qed

interpretation slab: block_allocator alloc_node free_node_mem slabs_ok fresh_page sb_node_size
  by unfold_locales (simp_all add: alloc_node_step free_node_step blocks_apart[of "{}"] slabs_ok_def[symmetric])


lemma slab_nodes_header:
  assumes ok: "sizes_ok f" and n: "n \<in> set (slab_nodes f b)"
  shows "b + sb_header f \<le> n"
proof -
  obtain i where "n = b + sb_pagesize f - slab_num f * sb_node_size f + i * sb_node_size f" using n by (auto simp: slab_nodes_def)
  then show ?thesis using slab_num_fits[OF ok] by linarith
qed

definition slabs_init :: "nat \<Rightarrow> nat \<Rightarrow> nat \<Rightarrow> slabs" where
  "slabs_init pagesize node_size header =
     \<lparr>sb_pages = (\<lambda>b. None), sb_partial = [], sb_full = [], sb_pagesize = pagesize, sb_node_size = node_size, sb_header = header\<rparr>"

lemma slabs_init_ok: "0 < w \<Longrightarrow> h + w \<le> P \<Longrightarrow> slabs_ok (slabs_init P w h) {}"
  by (simp add: slabs_ok_def slabs_inv_def sizes_ok_def lists_ok_def slabs_init_def)

lemma alloc_sizes: "alloc_node m f = Done (r, f') \<Longrightarrow> sb_pagesize f' = sb_pagesize f \<and> sb_header f' = sb_header f"
  by (auto simp: alloc_node_def alloc_slab_def take_block_def Let_def split: option.splits list.splits if_splits)

lemma free_sizes: "free_node_mem n f = Done f' \<Longrightarrow> sb_pagesize f' = sb_pagesize f \<and> sb_header f' = sb_header f"
  by (auto simp: free_node_mem_def free_slab_def Let_def split: option.splits if_splits)

lemma client_sizes:
  "slab.client ops held f = Done (held', f') \<Longrightarrow> sb_pagesize f' = sb_pagesize f \<and> sb_header f' = sb_header f"
proof (induction ops arbitrary: held f)
  case (Cons op ops)
  show ?case
  proof (cases op)
    case (Inl m)
    then show ?thesis using Cons by (auto dest!: alloc_sizes split: if_splits prod.splits)
  next
    case (Inr k)
    then show ?thesis using Cons by (auto dest!: free_sizes split: if_splits)
  qed
qed simp


lemma no_blocks_no_pages:
  assumes "slabs_ok f {}"
  shows "sb_pages f b = None" and "sb_partial f = []" and "sb_full f = []"
proof -
  have inv: "slabs_inv {} f {}" using assms by (simp add: slabs_ok_def)
  have none: "sb_pages f c = None" for c
    by (cases "sb_pages f c") (use inv_page(5)[OF inv] in \<open>auto simp: used_of_def\<close>)
  then show "sb_pages f b = None" .
  have "lists_ok f" using inv by (simp add: slabs_inv_def)
  then show "sb_partial f = []" and "sb_full f = []" using none unfolding lists_ok_def by (metis option.distinct(1) list.set_intros(1) neq_Nil_conv)+
qed

text \<open>Claim C28 (slab_allocator_correct). Let a client ask for nodes and give back nodes it holds, in any order, starting from
  the empty allocator, where \<open>mmap\<close> fails or gives a page that is not mapped. No step goes wrong. The blocks it holds are
  different, they lie in mapped pages behind the page header, and they do not overlap. When it has given all of them back no
  page is mapped and both lists are empty, as the assertions of \<open>fuse_destroy\<close> require.\<close>

theorem slab_allocator_correct:
  assumes "0 < node_size" and "header + node_size \<le> pagesize"
  shows "\<exists>held f. slab.client ops [] (slabs_init pagesize node_size header) = Done (held, f) \<and> distinct held \<and>
    (\<forall>n\<in>set held. sb_pages f (node_to_slab f n) \<noteq> None \<and> node_to_slab f n + header \<le> n \<and> n + node_size \<le> node_to_slab f n + pagesize) \<and>
    (\<forall>n\<in>set held. \<forall>k\<in>set held. n \<noteq> k \<longrightarrow> n + node_size \<le> k \<or> k + node_size \<le> n) \<and>
    (held = [] \<longrightarrow> (\<forall>b. sb_pages f b = None) \<and> sb_partial f = [] \<and> sb_full f = [])"
proof -
  have "slabs_ok (slabs_init pagesize node_size header) (set [])" using slabs_init_ok[OF assms] by simp
  from slab.client_safe[OF this, of ops] obtain held f where
    c: "slab.client ops [] (slabs_init pagesize node_size header) = Done (held, f)" "distinct held" and ok: "slabs_ok f (set held)"
    and w: "sb_node_size f = node_size"
    and apart: "\<forall>n\<in>set held. \<forall>k\<in>set held. n \<noteq> k \<longrightarrow> n + node_size \<le> k \<or> k + node_size \<le> n"
    by (auto simp: slabs_init_def)
  have sz: "sb_pagesize f = pagesize" "sb_header f = header" using client_sizes[OF c(1)] by (simp_all add: slabs_init_def)
  have inv: "slabs_inv {} f (set held)" and so: "sizes_ok f" using ok by (simp_all add: slabs_ok_def slabs_inv_def)
  have "sb_pages f (node_to_slab f n) \<noteq> None \<and> node_to_slab f n + header \<le> n \<and> n + node_size \<le> node_to_slab f n + pagesize" if "n \<in> set held" for n
    using that
  proof (rule inv_block[OF inv])
    fix b slab
    assume b: "sb_pages f b = Some slab" "n \<in> set (slab_nodes f b)" "node_to_slab f n = b"
    then show ?thesis using slab_nodes_range(2)[OF so b(2)] slab_nodes_header[OF so b(2)] w sz by simp
  qed
  moreover have "(\<forall>b. sb_pages f b = None) \<and> sb_partial f = [] \<and> sb_full f = []" if "held = []"
    using no_blocks_no_pages[of f] ok that by simp
  ultimately show ?thesis using c apart by blast
qed

theorem slab_allocator_correct_witness:
  "\<exists>held f. slab.client [Inl (Some 4096), Inl None, Inr 1, Inl (Some 8192)] [] (slabs_init 4096 1000 64) = Done (held, f) \<and> distinct held \<and>
    (\<forall>n\<in>set held. sb_pages f (node_to_slab f n) \<noteq> None \<and> node_to_slab f n + 64 \<le> n \<and> n + 1000 \<le> node_to_slab f n + 4096) \<and>
    (\<forall>n\<in>set held. \<forall>k\<in>set held. n \<noteq> k \<longrightarrow> n + 1000 \<le> k \<or> k + 1000 \<le> n) \<and>
    (held = [] \<longrightarrow> (\<forall>b. sb_pages f b = None) \<and> sb_partial f = [] \<and> sb_full f = [])"
  by (rule slab_allocator_correct) simp_all

end
