(* ===== verification/Fuse_Dirent.thy ===== *)
theory Fuse_Dirent
  imports Fuse_Prelude
begin

text \<open>
  Directory entries on the way from the file system to the kernel: the record format
  (\<open>include/fuse_kernel.h\<close>), the encoders of the low-level library (\<open>lib/fuse_lowlevel.c\<close>) and the directory handle of
  the high-level library (\<open>lib/fuse.c\<close>), which collects the entries that the file system reports and cuts the reply.

  A file system is a program that calls the fill function any number of times and looks at its results. Stores outside of a
  buffer are \<open>Aborted\<close>. Names are byte lists without the terminating NUL.
\<close>

subsection \<open>Format\<close>

definition FUSE_NAME_OFFSET :: nat where "FUSE_NAME_OFFSET = 24"
definition FUSE_REC_ALIGN :: "nat \<Rightarrow> nat" where "FUSE_REC_ALIGN x = (x + 8 - 1) div 8 * 8"
definition FUSE_UNKNOWN_INO :: "64 word" where "FUSE_UNKNOWN_INO = 0xffffffff"

record fuse_dirent =
  de_ino :: "64 word"
  de_off :: "64 word"
  de_namelen :: "32 word"
  de_type :: "32 word"
  de_name :: "byte list"

definition FUSE_DIRENT_SIZE :: "fuse_dirent \<Rightarrow> nat" where
  "FUSE_DIRENT_SIZE d = FUSE_REC_ALIGN (FUSE_NAME_OFFSET + unat (de_namelen d))"

definition dirent_bytes :: "fuse_dirent \<Rightarrow> byte list" where
  "dirent_bytes d = le_bytes 8 (unat (de_ino d)) @ le_bytes 8 (unat (de_off d)) @ le_bytes 4 (unat (de_namelen d)) @
     le_bytes 4 (unat (de_type d)) @ de_name d"

definition buf_store :: "byte list \<Rightarrow> nat \<Rightarrow> byte list \<Rightarrow> byte list outcome" where
  "buf_store b at bs = (if at + length bs \<le> length b then Done (take at b @ bs @ drop (at + length bs) b) else Aborted)"

subsection \<open>The encoder of the low-level library\<close>

record stat =
  st_ino :: "64 word"
  st_mode :: "32 word"

definition S_IFMT :: "32 word" where "S_IFMT = 0xF000"

text \<open>The buffer is \<open>NULL\<close> or the memory object and the place in it; the result is the space the entry needs, padded.\<close>

definition fuse_add_direntry ::
  "byte list option \<Rightarrow> nat \<Rightarrow> nat \<Rightarrow> byte list \<Rightarrow> stat \<Rightarrow> 64 word \<Rightarrow> (nat \<times> byte list option) outcome" where
  "fuse_add_direntry buf at bufsize name stbuf off =
     (let namelen = length name; entlen = FUSE_NAME_OFFSET + namelen; entlen_padded = FUSE_REC_ALIGN entlen in
      case buf of
        None \<Rightarrow> Done (entlen_padded, buf)
      | Some b \<Rightarrow>
          if entlen_padded > bufsize then Done (entlen_padded, buf)
          else (let dirent = \<lparr>de_ino = st_ino stbuf, de_off = off, de_namelen = word_of_nat namelen,
                      de_type = drop_bit 12 (st_mode stbuf AND S_IFMT), de_name = name\<rparr>
                in obind (buf_store b at (dirent_bytes dirent @ replicate (entlen_padded - entlen) 0))
                     (\<lambda>b'. Done (entlen_padded, Some b'))))"

subsection \<open>The directory handle of the high-level library\<close>

record fuse_direntry =
  dl_stat :: stat
  dl_name :: "byte list"

record fuse_dh =
  dh_contents :: "byte list option"
  dh_first :: "fuse_direntry list"
  dh_len :: nat
  dh_size :: nat
  dh_needlen :: nat
  dh_filled :: bool
  dh_error :: int

definition fuse_lib_opendir_dh :: fuse_dh where
  "fuse_lib_opendir_dh = \<lparr>dh_contents = None, dh_first = [], dh_len = 0, dh_size = 0, dh_needlen = 0, dh_filled = False, dh_error = 0\<rparr>"

text \<open>The settings of the library, the node ids it knows, and the allocations: \<open>env_realloc n\<close> is the content
  of the new memory when enlarging to \<open>n\<close> bytes, \<open>env_malloc k\<close> says whether the \<open>k\<close>th entry of the list can be allocated.\<close>

record dir_env =
  use_ino :: bool
  readdir_ino :: bool
  lookup_nodeid :: "byte list \<Rightarrow> 64 word"
  env_realloc :: "nat \<Rightarrow> (nat \<Rightarrow> byte) option"
  env_malloc :: "nat \<Rightarrow> bool"

text \<open>The loop of \<open>extend_contents\<close>; the size is never zero and 32 bits wide there.\<close>

function grow_newsize :: "nat \<Rightarrow> nat \<Rightarrow> nat" where
  "grow_newsize newsize minsize =
     (if newsize < minsize \<and> newsize \<noteq> 0 \<and> minsize \<le> 0xffffffff
      then grow_newsize (if newsize \<ge> 0x80000000 then 0xffffffff else newsize * 2) minsize
      else newsize)"
  by pat_completeness auto
termination
  by (relation "measure (\<lambda>(n, m). m - n)") auto

declare grow_newsize.simps [simp del]

definition extend_contents :: "dir_env \<Rightarrow> nat \<Rightarrow> fuse_dh \<Rightarrow> int \<times> fuse_dh" where
  "extend_contents env minsize dh =
     (if minsize > dh_size dh
      then (let newsize = grow_newsize (if dh_size dh = 0 then 1024 else dh_size dh) minsize in
            case env_realloc env newsize of
              None \<Rightarrow> (-1, dh\<lparr>dh_error := - ENOMEM\<rparr>)
            | Some g \<Rightarrow> (0, dh\<lparr>dh_contents := Some ((case dh_contents dh of None \<Rightarrow> [] | Some b \<Rightarrow> b) @ map g [dh_size dh..<newsize]),
                              dh_size := newsize\<rparr>))
      else (0, dh))"

definition fuse_add_direntry_to_dh :: "dir_env \<Rightarrow> byte list \<Rightarrow> stat \<Rightarrow> fuse_dh \<Rightarrow> int \<times> fuse_dh" where
  "fuse_add_direntry_to_dh env name st dh =
     (if env_malloc env (length (dh_first dh))
      then (0, dh\<lparr>dh_first := dh_first dh @ [\<lparr>dl_stat = st, dl_name = name\<rparr>]\<rparr>)
      else (-1, dh\<lparr>dh_error := - ENOMEM\<rparr>))"

definition fill_stat :: "dir_env \<Rightarrow> byte list \<Rightarrow> stat option \<Rightarrow> stat" where
  "fill_stat env name statp =
     (let stbuf = (case statp of Some st \<Rightarrow> st | None \<Rightarrow> \<lparr>st_ino = FUSE_UNKNOWN_INO, st_mode = 0\<rparr>)
      in if use_ino env then stbuf
         else stbuf\<lparr>st_ino := if readdir_ino env then lookup_nodeid env name else FUSE_UNKNOWN_INO\<rparr>)"

text \<open>\<open>flags\<close> has only bits that the library knows when \<open>flags_ok\<close>.\<close>

definition fill_dir ::
  "dir_env \<Rightarrow> byte list \<Rightarrow> stat option \<Rightarrow> 64 word \<Rightarrow> bool \<Rightarrow> fuse_dh \<Rightarrow> (int \<times> fuse_dh) outcome" where
  "fill_dir env name statp off flags_ok dh =
     (if \<not> flags_ok then Done (1, dh\<lparr>dh_error := - EIO\<rparr>)
      else
        let stbuf = fill_stat env name statp
        in if off \<noteq> 0
           then (if dh_filled dh \<or> dh_first dh \<noteq> [] then Done (1, dh\<lparr>dh_error := - EIO\<rparr>)
                 else case extend_contents env (dh_needlen dh) dh of (r, dh1) \<Rightarrow>
                   if r = -1 then Done (1, dh1)
                   else obind (fuse_add_direntry (dh_contents dh1) (dh_len dh1) (u32_sub (dh_needlen dh1) (dh_len dh1)) name stbuf off)
                     (\<lambda>(n, c).
                       let newlen = sz_add (dh_len dh1) n; dh2 = dh1\<lparr>dh_contents := c\<rparr>
                       in if newlen > dh_needlen dh2 then Done (1, dh2) else Done (0, dh2\<lparr>dh_len := newlen\<rparr>)))
           else (case fuse_add_direntry_to_dh env name stbuf (dh\<lparr>dh_filled := True\<rparr>) of (r, dh1) \<Rightarrow>
                   Done (if r = -1 then 1 else 0, dh1)))"

text \<open>A file system's \<open>readdir\<close>: it returns, or calls the fill function and continues with the result.\<close>

datatype fs_readdir = FsReturn int | FsFill "byte list" "stat option" "64 word" bool "int \<Rightarrow> fs_readdir"

primrec fuse_fs_readdir :: "dir_env \<Rightarrow> fs_readdir \<Rightarrow> fuse_dh \<Rightarrow> (int \<times> fuse_dh) outcome" where
  "fuse_fs_readdir env (FsReturn err) = (\<lambda>dh. Done (err, dh))"
| "fuse_fs_readdir env (FsFill name statp off flags_ok cont) =
     (\<lambda>dh. obind (fill_dir env name statp off flags_ok dh) (\<lambda>(r, dh1). fuse_fs_readdir env (cont r) dh1))"

text \<open>\<open>path_err\<close> is the result of \<open>get_path\<close>.\<close>

definition readdir_fill :: "dir_env \<Rightarrow> int \<Rightarrow> (64 word \<Rightarrow> fs_readdir) \<Rightarrow> nat \<Rightarrow> 64 word \<Rightarrow> fuse_dh \<Rightarrow> (int \<times> fuse_dh) outcome" where
  "readdir_fill env path_err fs sz off dh =
     (if path_err \<noteq> 0 then Done (path_err, dh)
      else obind (fuse_fs_readdir env (fs off)
               (dh\<lparr>dh_first := [], dh_len := 0, dh_error := 0, dh_needlen := sz mod 2 ^ 32, dh_filled := False\<rparr>))
           (\<lambda>(r, dh1). let err = (if r = 0 then dh_error dh1 else r)
                       in Done (err, if err \<noteq> 0 then dh1\<lparr>dh_filled := False\<rparr> else dh1)))"

fun fill_from_list_loop :: "64 word \<Rightarrow> fuse_direntry list \<Rightarrow> fuse_dh \<Rightarrow> fuse_dh outcome" where
  "fill_from_list_loop pos [] dh = Done dh"
| "fill_from_list_loop pos (de # des) dh =
     obind (fuse_add_direntry (dh_contents dh) (dh_len dh) (u32_sub (dh_needlen dh) (dh_len dh)) (dl_name de) (dl_stat de) (pos + 1))
       (\<lambda>(n, c). let thislen = n mod 2 ^ 32; newlen = u32_add (dh_len dh) thislen; dh1 = dh\<lparr>dh_contents := c\<rparr>
                 in if newlen > dh_needlen dh1 then Done dh1
                    else fill_from_list_loop (pos + 1) des (dh1\<lparr>dh_len := newlen\<rparr>))"

text \<open>The first loop skips one entry for each position before \<open>off\<close>, a signed 64-bit value.\<close>

definition readdir_fill_from_list :: "dir_env \<Rightarrow> 64 word \<Rightarrow> fuse_dh \<Rightarrow> (int \<times> fuse_dh) outcome" where
  "readdir_fill_from_list env off dh =
     (case extend_contents env (dh_needlen dh) (dh\<lparr>dh_len := 0\<rparr>) of (r, dh1) \<Rightarrow>
        if r = -1 then Done (dh_error dh1, dh1)
        else (let skip = min (nat (sint off)) (length (dh_first dh1))
              in obind (fill_from_list_loop (word_of_nat skip) (drop skip (dh_first dh1)) dh1) (\<lambda>dh2. Done (0, dh2))))"

text \<open>The reply is an error or the bytes of \<open>fuse_reply_buf\<close>.\<close>

definition fuse_readdir_common ::
  "dir_env \<Rightarrow> int \<Rightarrow> (64 word \<Rightarrow> fs_readdir) \<Rightarrow> nat \<Rightarrow> 64 word \<Rightarrow> fuse_dh \<Rightarrow> ((int + byte list) \<times> fuse_dh) outcome" where
  "fuse_readdir_common env path_err fs sz off dh =
     (let dh0 = (if off = 0 then dh\<lparr>dh_filled := False\<rparr> else dh);
          reply = (\<lambda>dh. Done (Inr (take (dh_len dh) (case dh_contents dh of None \<Rightarrow> [] | Some b \<Rightarrow> b)), dh))
      in obind (if dh_filled dh0 then Done (0, dh0) else readdir_fill env path_err fs sz off dh0)
           (\<lambda>(err, dh1). if err \<noteq> 0 then Done (Inl err, dh1)
              else if dh_filled dh1
              then obind (readdir_fill_from_list env off (dh1\<lparr>dh_needlen := sz mod 2 ^ 32\<rparr>))
                     (\<lambda>(err, dh2). if err \<noteq> 0 then Done (Inl err, dh2) else reply dh2)
              else reply dh1))"

subsection \<open>What the encoder writes\<close>

definition mk_dirent :: "byte list \<Rightarrow> stat \<Rightarrow> 64 word \<Rightarrow> fuse_dirent" where
  "mk_dirent name st off = \<lparr>de_ino = st_ino st, de_off = off, de_namelen = word_of_nat (length name),
     de_type = drop_bit 12 (st_mode st AND S_IFMT), de_name = name\<rparr>"

text \<open>A record with its padding.\<close>

definition rec_bytes :: "fuse_dirent \<Rightarrow> byte list" where
  "rec_bytes d = dirent_bytes d @ replicate (FUSE_DIRENT_SIZE d - (FUSE_NAME_OFFSET + length (de_name d))) 0"

definition dirent_ok :: "fuse_dirent \<Rightarrow> bool" where
  "dirent_ok d \<longleftrightarrow> unat (de_namelen d) = length (de_name d)"

lemma rec_align_le: "x \<le> FUSE_REC_ALIGN x" and rec_align_less: "FUSE_REC_ALIGN x < x + 8"
  unfolding FUSE_REC_ALIGN_def by presburger+

lemma length_dirent_bytes [simp]: "length (dirent_bytes d) = 24 + length (de_name d)"
  by (simp add: dirent_bytes_def)

lemma length_rec_bytes: "dirent_ok d \<Longrightarrow> length (rec_bytes d) = FUSE_DIRENT_SIZE d"
  using rec_align_le[of "24 + length (de_name d)"] by (simp add: rec_bytes_def FUSE_DIRENT_SIZE_def FUSE_NAME_OFFSET_def dirent_ok_def)

lemma dirent_size_bounds: "dirent_ok d \<Longrightarrow> 24 + length (de_name d) \<le> FUSE_DIRENT_SIZE d \<and> FUSE_DIRENT_SIZE d < 32 + length (de_name d)"
  using rec_align_le[of "24 + length (de_name d)"] rec_align_less[of "24 + length (de_name d)"]
  by (simp add: FUSE_DIRENT_SIZE_def FUSE_NAME_OFFSET_def dirent_ok_def)

lemma mk_dirent_ok: "length name < 2 ^ 32 \<Longrightarrow> dirent_ok (mk_dirent name st off)"
  by (simp add: dirent_ok_def mk_dirent_def unat_of_nat)

lemma mk_dirent_sel [simp]: "de_name (mk_dirent name st off) = name" "de_off (mk_dirent name st off) = off" "de_ino (mk_dirent name st off) = st_ino st"
  by (simp_all add: mk_dirent_def)

lemma add_direntry_eq:
  fixes st :: stat and off :: "64 word"
  assumes n: "length name < 2 ^ 32" and b: "at + bufsize \<le> length b"
  defines "d \<equiv> mk_dirent name st off"
  shows "fuse_add_direntry (Some b) at bufsize name st off = Done (FUSE_DIRENT_SIZE d,
    Some (if FUSE_DIRENT_SIZE d \<le> bufsize then take at b @ rec_bytes d @ drop (at + FUSE_DIRENT_SIZE d) b else b))"
proof -
  have ok: "dirent_ok d" unfolding d_def by (rule mk_dirent_ok[OF n])
  have sz: "FUSE_REC_ALIGN (FUSE_NAME_OFFSET + length name) = FUSE_DIRENT_SIZE d"
    using ok by (simp add: FUSE_DIRENT_SIZE_def dirent_ok_def d_def)
  have rb: "dirent_bytes d @ replicate (FUSE_DIRENT_SIZE d - (FUSE_NAME_OFFSET + length name)) 0 = rec_bytes d"
    by (simp add: rec_bytes_def d_def)
  have d: "\<lparr>de_ino = st_ino st, de_off = off, de_namelen = word_of_nat (length name), de_type = drop_bit 12 (st_mode st AND S_IFMT), de_name = name\<rparr> = d"
    by (simp add: d_def mk_dirent_def)
  show ?thesis unfolding fuse_add_direntry_def Let_def sz d rb using b length_rec_bytes[OF ok] by (simp add: buf_store_def)
qed

text \<open>The entries that fit.\<close>

fun fitting :: "nat \<Rightarrow> fuse_dirent list \<Rightarrow> fuse_dirent list" where
  "fitting room [] = []"
| "fitting room (d # ds) = (if FUSE_DIRENT_SIZE d \<le> room then d # fitting (room - FUSE_DIRENT_SIZE d) ds else [])"

fun numbered :: "nat \<Rightarrow> fuse_direntry list \<Rightarrow> fuse_dirent list" where
  "numbered i [] = []"
| "numbered i (de # des) = mk_dirent (dl_name de) (dl_stat de) (word_of_nat (i + 1)) # numbered (i + 1) des"

definition names_ok :: "fuse_direntry list \<Rightarrow> bool" where
  "names_ok des \<longleftrightarrow> (\<forall>de\<in>set des. dl_name de \<noteq> [] \<and> length (dl_name de) \<le> 1024 \<and> 0x2F \<notin> set (dl_name de))"

lemma fill_from_list_spec:
  assumes "names_ok des" and "dh_contents dh = Some b" and "dh_len dh \<le> dh_needlen dh" and "dh_needlen dh \<le> length b" and "dh_needlen dh < 2 ^ 31"
  shows "\<exists>dh' b'. fill_from_list_loop (word_of_nat i) des dh = Done dh' \<and> dh_contents dh' = Some b' \<and> length b' = length b \<and>
    dh_len dh' \<le> dh_needlen dh \<and> dh_first dh' = dh_first dh \<and> dh_filled dh' = dh_filled dh \<and> dh_size dh' = dh_size dh \<and>
    take (dh_len dh') b' = take (dh_len dh) b @ concat (map rec_bytes (fitting (dh_needlen dh - dh_len dh) (numbered i des)))"
  using assms
proof (induction des arbitrary: i dh b)
  case Nil
  then show ?case by simp
next
  case (Cons de des)
  define d where "d = mk_dirent (dl_name de) (dl_stat de) (word_of_nat (i + 1))"
  let ?s = "FUSE_DIRENT_SIZE d" and ?at = "dh_len dh" and ?n = "dh_needlen dh"
  have numb: "numbered i (de # des) = d # numbered (i + 1) des" by (simp add: d_def)
  have len: "length (dl_name de) < 2 ^ 32" "length (dl_name de) \<le> 1024" using Cons.prems(1) by (simp_all add: names_ok_def)
  have ok: "dirent_ok d" unfolding d_def by (rule mk_dirent_ok[OF len(1)])
  have s: "?s < 1056" using dirent_size_bounds[OF ok] len(2) by (simp add: d_def)
  have room: "u32_sub ?n ?at = ?n - ?at" by (rule u32_sub_small) (use Cons.prems in simp_all)
  have w: "(word_of_nat i :: 64 word) + 1 = word_of_nat (i + 1)" by simp
  have add: "fuse_add_direntry (Some b) ?at (?n - ?at) (dl_name de) (dl_stat de) (word_of_nat (i + 1)) =
    Done (?s, Some (if ?s \<le> ?n - ?at then take ?at b @ rec_bytes d @ drop (?at + ?s) b else b))"
    unfolding d_def by (rule add_direntry_eq[OF len(1)]) (use Cons.prems in simp)
  have new: "u32_add ?at ?s = ?at + ?s" "?s mod 4294967296 = ?s" using s Cons.prems(3,5) by (simp_all add: u32_add_def)
  show ?case
  proof (cases "?s \<le> ?n - ?at")
    case True
    define b1 where "b1 = take ?at b @ rec_bytes d @ drop (?at + ?s) b"
    define dh1 where "dh1 = dh\<lparr>dh_contents := Some b1, dh_len := ?at + ?s\<rparr>"
    have fit: "?at + ?s \<le> length b" using True Cons.prems(3,4) by simp
    have lb: "length b1 = length b" "take (?at + ?s) b1 = take ?at b @ rec_bytes d"
      using fit length_rec_bytes[OF ok] by (simp_all add: b1_def)
    have p: "names_ok des" "dh_contents dh1 = Some b1" "dh_len dh1 \<le> dh_needlen dh1" "dh_needlen dh1 \<le> length b1" "dh_needlen dh1 < 2 ^ 31"
      using Cons.prems True lb by (simp_all add: names_ok_def dh1_def)
    from Cons.IH[OF p, of "i + 1"] obtain dh' b' where
      r: "fill_from_list_loop (word_of_nat (i + 1)) des dh1 = Done dh'" "dh_contents dh' = Some b'" "length b' = length b1"
        "dh_len dh' \<le> dh_needlen dh1" "dh_first dh' = dh_first dh1" "dh_filled dh' = dh_filled dh1" "dh_size dh' = dh_size dh1"
        "take (dh_len dh') b' = take (dh_len dh1) b1 @ concat (map rec_bytes (fitting (dh_needlen dh1 - dh_len dh1) (numbered (i + 1) des)))" by blast
    have nl: "\<not> ?n < ?at + ?s" using True Cons.prems(3) by linarith
    have step: "fill_from_list_loop (word_of_nat i) (de # des) dh = fill_from_list_loop (word_of_nat (i + 1)) des dh1"
      using True Cons.prems(2,3) by (simp only: fill_from_list_loop.simps room w add Let_def) (simp add: new nl add dh1_def b1_def room)
    have "?n - (?at + ?s) = ?n - ?at - ?s" by simp
    then show ?thesis using r True lb unfolding step by (simp add: dh1_def numb del: numbered.simps)
  next
    case False
    then have nl: "?n < ?at + ?s" using Cons.prems(3) by linarith
    from False have "fill_from_list_loop (word_of_nat i) (de # des) dh = Done dh"
      using Cons.prems(2,3) by (simp only: fill_from_list_loop.simps room w add Let_def) (simp add: new nl add room)
    then show ?thesis using False Cons.prems by (simp add: numb del: numbered.simps fill_from_list_loop.simps)
  qed
qed


subsection \<open>The buffer of the handle\<close>

definition dh_ok :: "fuse_dh \<Rightarrow> bool" where
  "dh_ok dh \<longleftrightarrow> dh_size dh < 2 ^ 32 \<and> (case dh_contents dh of None \<Rightarrow> dh_size dh = 0 | Some b \<Rightarrow> length b = dh_size dh)"

lemma grow_newsize_ge: "0 < n \<Longrightarrow> m \<le> 0xffffffff \<Longrightarrow> n < 2 ^ 32 \<Longrightarrow> m \<le> grow_newsize n m \<and> n \<le> grow_newsize n m \<and> grow_newsize n m < 2 ^ 32"
proof (induction n m rule: grow_newsize.induct)
  case (1 n m)
  show ?case
  proof (cases "n < m")
    case True
    let ?n = "if n \<ge> 0x80000000 then 0xffffffff else n * 2"
    have "m \<le> grow_newsize ?n m \<and> ?n \<le> grow_newsize ?n m \<and> grow_newsize ?n m < 2 ^ 32" by (rule "1.IH") (use True "1.prems" in auto)
    moreover have "grow_newsize n m = grow_newsize ?n m" using True "1.prems" by (subst grow_newsize.simps) simp
    moreover have "n \<le> ?n" using "1.prems"(3) by simp
    ultimately show ?thesis by linarith
  next
    case False
    then have "grow_newsize n m = n" by (subst grow_newsize.simps) simp
    then show ?thesis using False "1.prems" by simp
  qed
qed

text \<open>Only the buffer differs.\<close>

definition same_dir :: "fuse_dh \<Rightarrow> fuse_dh \<Rightarrow> bool" where
  "same_dir dh dh' \<longleftrightarrow> dh_first dh' = dh_first dh \<and> dh_len dh' = dh_len dh \<and> dh_needlen dh' = dh_needlen dh \<and> dh_filled dh' = dh_filled dh \<and>
     dh_error dh' = dh_error dh"

lemma dh_ok_upd [simp]: "dh_ok (dh\<lparr>dh_len := n\<rparr>) = dh_ok dh" "dh_ok (dh\<lparr>dh_first := l\<rparr>) = dh_ok dh" "dh_ok (dh\<lparr>dh_needlen := n\<rparr>) = dh_ok dh"
  "dh_ok (dh\<lparr>dh_filled := f\<rparr>) = dh_ok dh" "dh_ok (dh\<lparr>dh_error := e\<rparr>) = dh_ok dh"
  by (simp_all add: dh_ok_def split: option.split)

lemma extend_ok:
  assumes "dh_ok dh" and "m < 2 ^ 32"
  shows "(\<exists>dh'. extend_contents env m dh = (0, dh') \<and> dh_ok dh' \<and> m \<le> dh_size dh' \<and> same_dir dh dh') \<or>
    extend_contents env m dh = (-1, dh\<lparr>dh_error := - ENOMEM\<rparr>)"
proof (cases "dh_size dh < m")
  case True
  let ?n = "grow_newsize (if dh_size dh = 0 then 1024 else dh_size dh) m"
  have n: "m \<le> ?n" "dh_size dh \<le> ?n" "?n < 2 ^ 32"
    using grow_newsize_ge[of "if dh_size dh = 0 then 1024 else dh_size dh" m] assms by (auto simp: dh_ok_def)
  have l: "length (case dh_contents dh of None \<Rightarrow> [] | Some b \<Rightarrow> b) = dh_size dh" using assms(1) by (auto simp: dh_ok_def split: option.splits)
  show ?thesis using True n l by (cases "env_realloc env ?n") (simp_all add: extend_contents_def Let_def dh_ok_def same_dir_def)
next
  case False
  then show ?thesis using assms by (simp add: extend_contents_def same_dir_def)
qed

lemma extend_reallocs:
  assumes "dh_ok dh" and "m < 2 ^ 32" and "0 < m" and "\<And>n. env_realloc env n \<noteq> None"
  shows "\<exists>dh' b. extend_contents env m dh = (0, dh') \<and> dh_ok dh' \<and> m \<le> length b \<and> dh_contents dh' = Some b \<and> same_dir dh dh'"
proof -
  have "extend_contents env m dh \<noteq> (-1, dh\<lparr>dh_error := - ENOMEM\<rparr>)"
    using assms(4)[of "grow_newsize (if dh_size dh = 0 then 1024 else dh_size dh) m"]
    by (cases "dh_size dh < m") (auto simp: extend_contents_def Let_def)
  then obtain dh' where e: "extend_contents env m dh = (0, dh')" "dh_ok dh'" "m \<le> dh_size dh'"
    "same_dir dh dh'" using extend_ok[OF assms(1,2), of env] by blast
  then obtain b where "dh_contents dh' = Some b" "length b = dh_size dh'" using assms(3) by (auto simp: dh_ok_def split: option.splits)
  then show ?thesis using e by auto
qed

text \<open>A reply from the list: the records of the entries after position \<open>i\<close> that fit, numbered on.\<close>

lemma fill_from_list_reply:
  assumes ok: "dh_ok dh" and n: "names_ok (dh_first dh)" and sz: "0 < dh_needlen dh" "dh_needlen dh < 2 ^ 31"
    and al: "\<And>n. env_realloc env n \<noteq> None" and i: "i \<le> length (dh_first dh)" "length (dh_first dh) < 2 ^ 63"
  shows "\<exists>dh' b. readdir_fill_from_list env (word_of_nat i) dh = Done (0, dh') \<and> dh_ok dh' \<and> dh_contents dh' = Some b \<and> dh_first dh' = dh_first dh \<and>
    dh_filled dh' = dh_filled dh \<and> take (dh_len dh') b = concat (map rec_bytes (fitting (dh_needlen dh) (numbered i (drop i (dh_first dh)))))"
proof -
  have "dh_ok (dh\<lparr>dh_len := 0\<rparr>)" "dh_needlen dh < 2 ^ 32" using ok sz(2) by simp_all
  from extend_reallocs[OF this sz(1) al] obtain dh1 b1 where
    e: "extend_contents env (dh_needlen dh) (dh\<lparr>dh_len := 0\<rparr>) = (0, dh1)" "dh_ok dh1" "dh_needlen dh \<le> length b1" "dh_contents dh1 = Some b1"
      "same_dir (dh\<lparr>dh_len := 0\<rparr>) dh1" by blast
  have f: "dh_first dh1 = dh_first dh" "dh_len dh1 = 0" "dh_needlen dh1 = dh_needlen dh" "dh_filled dh1 = dh_filled dh" using e(5) by (simp_all add: same_dir_def)
  have lt: "i < 2 ^ 63" using i by simp
  have "sint (word_of_nat i :: 64 word) = int i" using lt by (simp add: signed_of_nat signed_take_bit_int_eq_self)
  then have skip: "min (nat (sint (word_of_nat i :: 64 word))) (length (dh_first dh)) = i" using i by simp
  have "names_ok (drop i (dh_first dh))" using n by (auto simp: names_ok_def dest: in_set_dropD)
  from fill_from_list_spec[OF this e(4), of i] obtain dh' b' where
    r: "fill_from_list_loop (word_of_nat i) (drop i (dh_first dh)) dh1 = Done dh'" "dh_contents dh' = Some b'" "length b' = length b1"
      "dh_first dh' = dh_first dh1" "dh_filled dh' = dh_filled dh1" "dh_size dh' = dh_size dh1"
      "take (dh_len dh') b' = concat (map rec_bytes (fitting (dh_needlen dh1) (numbered i (drop i (dh_first dh)))))"
    using f e(3) sz by auto
  have "dh_ok dh'" using e(2,4) r by (simp add: dh_ok_def)
  then show ?thesis using r f by (simp add: readdir_fill_from_list_def e(1) f(1) skip Let_def)
qed


subsection \<open>File systems\<close>

text \<open>A file system that reports the whole directory without offsets, and one that starts at the offset it is asked for and
  gives each entry the offset of the next one. Both stop when the fill function refuses an entry.\<close>

primrec fs_list :: "fuse_direntry list \<Rightarrow> fs_readdir" where
  "fs_list [] = FsReturn 0"
| "fs_list (e # es) = FsFill (dl_name e) (Some (dl_stat e)) 0 True (\<lambda>r. if r \<noteq> 0 then FsReturn 0 else fs_list es)"

fun fs_from :: "nat \<Rightarrow> fuse_direntry list \<Rightarrow> fs_readdir" where
  "fs_from i [] = FsReturn 0"
| "fs_from i (e # es) = FsFill (dl_name e) (Some (dl_stat e)) (word_of_nat (i + 1)) True (\<lambda>r. if r \<noteq> 0 then FsReturn 0 else fs_from (i + 1) es)"

text \<open>The entries as the kernel is to see them.\<close>

definition shown :: "dir_env \<Rightarrow> fuse_direntry list \<Rightarrow> fuse_direntry list" where
  "shown env es = map (\<lambda>e. e\<lparr>dl_stat := fill_stat env (dl_name e) (Some (dl_stat e))\<rparr>) es"

lemma shown_simps [simp]: "length (shown env es) = length es" "shown env [] = []" "drop i (shown env es) = shown env (drop i es)"
  "names_ok (shown env es) = names_ok es"
  by (simp_all add: shown_def drop_map names_ok_def)

lemma shown_Cons: "shown env (e # es) = \<lparr>dl_stat = fill_stat env (dl_name e) (Some (dl_stat e)), dl_name = dl_name e\<rparr> # shown env es"
  by (simp add: shown_def)

lemma drop_numbered: "drop k (numbered i es) = numbered (i + k) (drop k es)"
proof (induction es arbitrary: i k)
  case (Cons e es)
  then show ?case by (cases k) simp_all
qed simp

lemma length_numbered [simp]: "length (numbered i es) = length es"
  by (induction es arbitrary: i) auto

definition env_ok :: "dir_env \<Rightarrow> bool" where
  "env_ok env \<longleftrightarrow> (\<forall>n. env_realloc env n \<noteq> None) \<and> (\<forall>k. env_malloc env k)"

lemma fs_list_run:
  assumes "env_ok env"
  shows "fuse_fs_readdir env (fs_list es) dh = Done (0, dh\<lparr>dh_first := dh_first dh @ shown env es, dh_filled := (dh_filled dh \<or> es \<noteq> [])\<rparr>)"
proof (induction es arbitrary: dh)
  case (Cons e es)
  have "fill_dir env (dl_name e) (Some (dl_stat e)) 0 True dh =
    Done (0, dh\<lparr>dh_first := dh_first dh @ [\<lparr>dl_stat = fill_stat env (dl_name e) (Some (dl_stat e)), dl_name = dl_name e\<rparr>], dh_filled := True\<rparr>)"
    using assms by (simp add: fill_dir_def fuse_add_direntry_to_dh_def env_ok_def)
  then show ?case using Cons by (simp add: shown_Cons)
qed simp

definition cont :: "fuse_dh \<Rightarrow> byte list" where
  "cont dh = (case dh_contents dh of None \<Rightarrow> [] | Some b \<Rightarrow> b)"

lemma extend_cont: "extend_contents env m dh = (0, dh') \<Longrightarrow> \<exists>x. cont dh' = cont dh @ x"
  by (auto simp: extend_contents_def Let_def cont_def split: if_splits option.splits)

lemma fill_from_step:
  fixes st :: stat
  assumes env: "env_ok env" and ok: "dh_ok dh" and f: "\<not> dh_filled dh" "dh_first dh = []" and sz: "0 < dh_needlen dh" "dh_needlen dh < 2 ^ 31" "dh_len dh \<le> dh_needlen dh"
    and pre: "dh_len dh \<le> length (cont dh)" and n: "length name \<le> 1024" and i: "i + 1 < 2 ^ 63"
  defines "d \<equiv> mk_dirent name (fill_stat env name (Some st)) (word_of_nat (i + 1))"
  shows "\<exists>dh'. fill_dir env name (Some st) (word_of_nat (i + 1)) True dh = Done (if FUSE_DIRENT_SIZE d \<le> dh_needlen dh - dh_len dh then 0 else 1, dh') \<and>
    dh_ok dh' \<and> \<not> dh_filled dh' \<and> dh_first dh' = [] \<and> dh_needlen dh' = dh_needlen dh \<and> dh_error dh' = dh_error dh \<and>
    (if FUSE_DIRENT_SIZE d \<le> dh_needlen dh - dh_len dh
     then dh_len dh' = dh_len dh + FUSE_DIRENT_SIZE d \<and> take (dh_len dh') (cont dh') = take (dh_len dh) (cont dh) @ rec_bytes d
     else dh_len dh' = dh_len dh \<and> take (dh_len dh') (cont dh') = take (dh_len dh) (cont dh)) \<and>
    dh_len dh' \<le> dh_needlen dh' \<and> dh_len dh' \<le> length (cont dh')"
proof -
  let ?at = "dh_len dh" and ?n = "dh_needlen dh" and ?s = "FUSE_DIRENT_SIZE d" and ?st = "fill_stat env name (Some st)"
  define off where "off = (word_of_nat (i + 1) :: 64 word)"
  have nz: "off \<noteq> 0" unfolding off_def
  proof
    assume "(word_of_nat (i + 1) :: 64 word) = 0"
    then have "unat (word_of_nat (i + 1) :: 64 word) = 0" by simp
    then show False using i by (simp only: unat_of_nat) simp
  qed
  have "?n < 2 ^ 32" using sz by simp
  have al: "env_realloc env n \<noteq> None" for n using env by (simp add: env_ok_def)
  from extend_reallocs[OF ok \<open>?n < 2 ^ 32\<close> sz(1) al] obtain dh1 b where
    e: "extend_contents env ?n dh = (0, dh1)" "dh_ok dh1" "?n \<le> length b" "dh_contents dh1 = Some b" "same_dir dh dh1" by blast
  have c1: "cont dh1 = b" using e(4) by (simp add: cont_def)
  have tk: "take ?at b = take ?at (cont dh)" using extend_cont[OF e(1)] c1 pre by auto
  have len: "length name < 2 ^ 32" using n by simp
  have ok1: "dirent_ok d" unfolding d_def by (rule mk_dirent_ok[OF len])
  have s: "?s < 1056" using dirent_size_bounds[OF ok1] n by (simp add: d_def)
  have room: "u32_sub ?n ?at = ?n - ?at" by (rule u32_sub_small) (use sz in simp_all)
  have add: "fuse_add_direntry (Some b) ?at (?n - ?at) name ?st off =
    Done (?s, Some (if ?s \<le> ?n - ?at then take ?at b @ rec_bytes d @ drop (?at + ?s) b else b))"
    unfolding d_def off_def[symmetric] by (rule add_direntry_eq[OF len]) (use e(3) sz in simp)
  have new: "sz_add ?at ?s = ?at + ?s" by (rule sz_add_small) (use s sz in simp)
  define c where "c = (if ?s \<le> ?n - ?at then take ?at b @ rec_bytes d @ drop (?at + ?s) b else b)"
  define dh2 where "dh2 = dh1\<lparr>dh_contents := Some c\<rparr>"
  have sd: "dh_first dh1 = []" "dh_len dh1 = ?at" "dh_needlen dh1 = ?n" "\<not> dh_filled dh1" "dh_error dh1 = dh_error dh" using e(5) f by (simp_all add: same_dir_def)
  have run: "fill_dir env name (Some st) off True dh = (if ?n < ?at + ?s then Done (1, dh2) else Done (0, dh2\<lparr>dh_len := ?at + ?s\<rparr>))"
    using nz f unfolding fill_dir_def by (simp add: Let_def e(1,4) sd room add new c_def[symmetric] dh2_def)
  have lc: "length c = length b"
    using e(3) sz(3) length_rec_bytes[OF ok1] by (auto simp: c_def)
  have ok2: "dh_ok dh2" using e(2,4) lc by (simp add: dh_ok_def dh2_def)
  show ?thesis
  proof (cases "?s \<le> ?n - ?at")
    case True
    then have t: "\<not> ?n < ?at + ?s" "?at + ?s \<le> length b" using sz(3) e(3) by linarith+
    have "take (?at + ?s) c = take ?at b @ rec_bytes d" using True t length_rec_bytes[OF ok1] by (simp add: c_def)
    then show ?thesis unfolding off_def[symmetric] using True t run ok2 sd tk lc by (simp add: dh2_def cont_def)
  next
    case False
    then have t: "?n < ?at + ?s" using sz(3) by linarith
    then show ?thesis unfolding off_def[symmetric] using False run ok2 sd tk lc sz(3) e(3) by (simp add: dh2_def cont_def c_def)
  qed
qed


lemma fs_from_run:
  assumes "env_ok env" and "names_ok es" and "dh_ok dh" and "\<not> dh_filled dh" and "dh_first dh = []" and "0 < dh_needlen dh" and "dh_needlen dh < 2 ^ 31"
    and "dh_len dh \<le> dh_needlen dh" and "dh_len dh \<le> length (cont dh)" and "i + length es < 2 ^ 63"
  shows "\<exists>dh'. fuse_fs_readdir env (fs_from i es) dh = Done (0, dh') \<and> dh_ok dh' \<and> \<not> dh_filled dh' \<and> dh_error dh' = dh_error dh \<and>
    take (dh_len dh') (cont dh') = take (dh_len dh) (cont dh) @ concat (map rec_bytes (fitting (dh_needlen dh - dh_len dh) (numbered i (shown env es))))"
  using assms
proof (induction i es arbitrary: dh rule: fs_from.induct)
  case (1 i)
  then show ?case by simp
next
  case (2 i e es)
  define d where "d = mk_dirent (dl_name e) (fill_stat env (dl_name e) (Some (dl_stat e))) (word_of_nat (i + 1))"
  have numb: "numbered i (shown env (e # es)) = d # numbered (i + 1) (shown env es)" by (simp add: d_def shown_Cons)
  have n: "length (dl_name e) \<le> 1024" "names_ok es" and i: "i + 1 < 2 ^ 63" using "2.prems" by (simp_all add: names_ok_def)
  from fill_from_step[OF "2.prems"(1,3-9) n(1) i, of "dl_stat e", folded d_def] obtain dh1 where
    r: "fill_dir env (dl_name e) (Some (dl_stat e)) (word_of_nat (i + 1)) True dh =
        Done (if FUSE_DIRENT_SIZE d \<le> dh_needlen dh - dh_len dh then 0 else 1, dh1)"
      "dh_ok dh1" "\<not> dh_filled dh1" "dh_first dh1 = []" "dh_needlen dh1 = dh_needlen dh" "dh_error dh1 = dh_error dh"
    and c: "if FUSE_DIRENT_SIZE d \<le> dh_needlen dh - dh_len dh
     then dh_len dh1 = dh_len dh + FUSE_DIRENT_SIZE d \<and> take (dh_len dh1) (cont dh1) = take (dh_len dh) (cont dh) @ rec_bytes d
     else dh_len dh1 = dh_len dh \<and> take (dh_len dh1) (cont dh1) = take (dh_len dh) (cont dh)"
    and l: "dh_len dh1 \<le> dh_needlen dh1" "dh_len dh1 \<le> length (cont dh1)" by blast
  have step: "fuse_fs_readdir env (fs_from i (e # es)) dh =
    fuse_fs_readdir env (if FUSE_DIRENT_SIZE d \<le> dh_needlen dh - dh_len dh then fs_from (i + 1) es else FsReturn 0) dh1"
    unfolding fs_from.simps fuse_fs_readdir.simps r(1) by simp
  show ?case
  proof (cases "FUSE_DIRENT_SIZE d \<le> dh_needlen dh - dh_len dh")
    case True
    have "i + 1 + length es < 2 ^ 63" "0 < dh_needlen dh1" "dh_needlen dh1 < 2 ^ 31" using "2.prems" r(5) by simp_all
    from "2.IH"[OF _ "2.prems"(1) n(2) r(2-4) this(2,3) l this(1), of 0] obtain dh' where
      "fuse_fs_readdir env (fs_from (i + 1) es) dh1 = Done (0, dh')" "dh_ok dh'" "\<not> dh_filled dh'" "dh_error dh' = dh_error dh1"
      "take (dh_len dh') (cont dh') = take (dh_len dh1) (cont dh1) @ concat (map rec_bytes (fitting (dh_needlen dh1 - dh_len dh1) (numbered (i + 1) (shown env es))))" by auto
    then show ?thesis unfolding step numb using True c r(5,6) by auto
  next
    case False
    then show ?thesis unfolding step numb using r(2,3,6) c by auto
  qed
qed

subsection \<open>The server of a directory\<close>

text \<open>What the kernel relies on: asked for the entries after the \<open>i\<close>th, the daemon answers with the records of
  those that follow, as many as fit, and stays able to answer.\<close>

locale dir_server =
  fixes serve :: "'p \<Rightarrow> nat \<Rightarrow> 64 word \<Rightarrow> 's \<Rightarrow> ((int + byte list) \<times> 's) outcome" and ok :: "'p \<Rightarrow> 's \<Rightarrow> bool" and listing :: "'p \<Rightarrow> fuse_dirent list"
  assumes serve_law: "ok p s \<Longrightarrow> i \<le> length (listing p) \<Longrightarrow> 0 < sz \<Longrightarrow> sz < 2 ^ 31 \<Longrightarrow>
      \<exists>s'. serve p sz (word_of_nat i) s = Done (Inr (concat (map rec_bytes (fitting sz (drop i (listing p))))), s') \<and> ok p s'"
    and listing_law: "ok p s \<Longrightarrow> (\<exists>es. listing p = numbered 0 es \<and> names_ok es \<and> length es < 2 ^ 63)"

text \<open>A request that is served from the list that the handle keeps.\<close>

lemma common_from_list:
  assumes "dh_ok dh" and "dh_filled dh" and "names_ok (dh_first dh)" and "0 < sz" and "sz < 2 ^ 31" and "env_ok env"
    and "i \<le> length (dh_first dh)" and "length (dh_first dh) < 2 ^ 63"
  shows "\<exists>dh'. obind (readdir_fill_from_list env (word_of_nat i) (dh\<lparr>dh_needlen := sz mod 2 ^ 32\<rparr>))
       (\<lambda>(err, dh2). if err \<noteq> 0 then Done (Inl err, dh2)
          else Done (Inr (take (dh_len dh2) (case dh_contents dh2 of None \<Rightarrow> [] | Some b \<Rightarrow> b)), dh2)) =
     Done (Inr (concat (map rec_bytes (fitting sz (numbered i (drop i (dh_first dh)))))), dh') \<and> dh_ok dh' \<and> dh_filled dh' \<and> dh_first dh' = dh_first dh"
proof -
  have "sz mod 2 ^ 32 = sz" using assms(5) by simp
  moreover have "env_realloc env n \<noteq> None" for n using assms(6) by (simp add: env_ok_def)
  ultimately show ?thesis using fill_from_list_reply[of "dh\<lparr>dh_needlen := sz\<rparr>" env i] assms by force
qed


definition serve_list :: "dir_env \<times> fuse_direntry list \<Rightarrow> nat \<Rightarrow> 64 word \<Rightarrow> fuse_dh \<Rightarrow> ((int + byte list) \<times> fuse_dh) outcome" where
  "serve_list p sz off dh = fuse_readdir_common (fst p) 0 (\<lambda>_. fs_list (snd p)) sz off dh"

definition serve_from :: "dir_env \<times> fuse_direntry list \<Rightarrow> nat \<Rightarrow> 64 word \<Rightarrow> fuse_dh \<Rightarrow> ((int + byte list) \<times> fuse_dh) outcome" where
  "serve_from p sz off dh = fuse_readdir_common (fst p) 0 (\<lambda>off. fs_from (unat off) (drop (unat off) (snd p))) sz off dh"

definition dir_listing :: "dir_env \<times> fuse_direntry list \<Rightarrow> fuse_dirent list" where
  "dir_listing p = numbered 0 (shown (fst p) (snd p))"

definition source_ok :: "dir_env \<times> fuse_direntry list \<Rightarrow> fuse_dh \<Rightarrow> bool" where
  "source_ok p dh \<longleftrightarrow> env_ok (fst p) \<and> names_ok (snd p) \<and> length (snd p) < 2 ^ 63 \<and> dh_ok dh"

definition list_ok :: "dir_env \<times> fuse_direntry list \<Rightarrow> fuse_dh \<Rightarrow> bool" where
  "list_ok p dh \<longleftrightarrow> source_ok p dh \<and> (dh_filled dh \<longrightarrow> dh_first dh = shown (fst p) (snd p))"

definition from_ok :: "dir_env \<times> fuse_direntry list \<Rightarrow> fuse_dh \<Rightarrow> bool" where
  "from_ok p dh \<longleftrightarrow> source_ok p dh \<and> \<not> dh_filled dh"

lemma serve_list_law:
  assumes ok: "list_ok (env, es) dh" and i: "i \<le> length es" and sz: "0 < sz" "sz < 2 ^ 31"
  shows "\<exists>dh'. serve_list (env, es) sz (word_of_nat i) dh = Done (Inr (concat (map rec_bytes (fitting sz (numbered i (drop i (shown env es)))))), dh') \<and>
    list_ok (env, es) dh'"
proof -
  have o: "env_ok env" "names_ok es" "length es < 2 ^ 63" "dh_ok dh" using ok by (simp_all add: list_ok_def source_ok_def)
  define dh0 where "dh0 = (if (word_of_nat i :: 64 word) = 0 then dh\<lparr>dh_filled := False\<rparr> else dh)"
  define dh1 where "dh1 = (if dh_filled dh0 then dh0 else dh0\<lparr>dh_first := shown env es, dh_len := 0, dh_error := 0, dh_needlen := sz mod 2 ^ 32, dh_filled := (es \<noteq> [])\<rparr>)"
  have fill: "(if dh_filled dh0 then Done (0, dh0) else readdir_fill env 0 (\<lambda>_. fs_list es) sz (word_of_nat i) dh0) = Done (0, dh1)"
    by (simp add: readdir_fill_def fs_list_run[OF o(1)] dh1_def)
  have d1: "dh_ok dh1" "dh_filled dh1 \<Longrightarrow> dh_first dh1 = shown env es" "\<not> dh_filled dh1 \<Longrightarrow> es = [] \<and> dh_len dh1 = 0"
    using o(4) ok by (auto simp: dh1_def dh0_def list_ok_def)
  have eq: "serve_list (env, es) sz (word_of_nat i) dh = (if dh_filled dh1
      then obind (readdir_fill_from_list env (word_of_nat i) (dh1\<lparr>dh_needlen := sz mod 2 ^ 32\<rparr>))
        (\<lambda>(err, dh2). if err \<noteq> 0 then Done (Inl err, dh2) else Done (Inr (take (dh_len dh2) (case dh_contents dh2 of None \<Rightarrow> [] | Some b \<Rightarrow> b)), dh2))
      else Done (Inr (take (dh_len dh1) (case dh_contents dh1 of None \<Rightarrow> [] | Some b \<Rightarrow> b)), dh1))"
    unfolding serve_list_def fuse_readdir_common_def Let_def fst_conv snd_conv dh0_def[symmetric] fill by simp
  show ?thesis
  proof (cases "dh_filled dh1")
    case True
    have "names_ok (dh_first dh1)" "i \<le> length (dh_first dh1)" "length (dh_first dh1) < 2 ^ 63" using o i d1(2)[OF True] by simp_all
    from common_from_list[OF d1(1) True this(1) sz o(1) this(2,3)] obtain dh' where
      r: "serve_list (env, es) sz (word_of_nat i) dh = Done (Inr (concat (map rec_bytes (fitting sz (numbered i (drop i (shown env es)))))), dh')"
      "dh_ok dh'" "dh_first dh' = shown env es" unfolding eq if_P[OF True] d1(2)[OF True] by blast
    then have "list_ok (env, es) dh'" using o by (simp add: list_ok_def source_ok_def)
    then show ?thesis using r(1) by blast
  next
    case False
    then show ?thesis using eq d1(1,3) o by (simp add: list_ok_def source_ok_def)
  qed
qed

lemma serve_from_law:
  assumes ok: "from_ok (env, es) dh" and i: "i \<le> length es" and sz: "0 < sz" "sz < 2 ^ 31"
  shows "\<exists>dh'. serve_from (env, es) sz (word_of_nat i) dh = Done (Inr (concat (map rec_bytes (fitting sz (numbered i (drop i (shown env es)))))), dh') \<and>
    from_ok (env, es) dh'"
proof -
  have o: "env_ok env" "names_ok es" "length es < 2 ^ 63" "dh_ok dh" "\<not> dh_filled dh" using ok by (simp_all add: from_ok_def source_ok_def)
  have u: "unat (word_of_nat i :: 64 word) = i" using i o(3) by (simp add: unat_of_nat)
  define dh0 where "dh0 = dh\<lparr>dh_first := [], dh_len := 0, dh_error := 0, dh_needlen := sz, dh_filled := False\<rparr>"
  have m: "sz mod 2 ^ 32 = sz" using sz by simp
  have n: "names_ok (drop i es)" using o(2) by (auto simp: names_ok_def dest: in_set_dropD)
  have p: "dh_ok dh0" "\<not> dh_filled dh0" "dh_first dh0 = []" "0 < dh_needlen dh0" "dh_needlen dh0 < 2 ^ 31" "dh_len dh0 \<le> dh_needlen dh0"
    "dh_len dh0 \<le> length (cont dh0)" "i + length (drop i es) < 2 ^ 63" using o i sz by (simp_all add: dh0_def)
  from fs_from_run[OF o(1) n p] obtain dh' where
    r: "fuse_fs_readdir env (fs_from i (drop i es)) dh0 = Done (0, dh')" "dh_ok dh'" "\<not> dh_filled dh'" "dh_error dh' = dh_error dh0"
      "take (dh_len dh') (cont dh') = concat (map rec_bytes (fitting sz (numbered i (shown env (drop i es)))))" by (auto simp: dh0_def)
  have e0: "dh_error dh' = 0" using r(4) by (simp add: dh0_def)
  have "readdir_fill env 0 (\<lambda>off. fs_from (unat off) (drop (unat off) es)) sz (word_of_nat i) x = Done (0, dh')"
    if "x = dh \<or> x = dh\<lparr>dh_filled := False\<rparr>" for x
    using that r(1) e0 unfolding readdir_fill_def m u by (auto simp: dh0_def)
  then show ?thesis using r o by (simp add: serve_from_def fuse_readdir_common_def Let_def cont_def from_ok_def source_ok_def)
qed

interpretation listed: dir_server serve_list list_ok dir_listing
proof
  fix p :: "dir_env \<times> fuse_direntry list" and s i sz
  assume "list_ok p s"
  then show "\<exists>es. dir_listing p = numbered 0 es \<and> names_ok es \<and> length es < 2 ^ 63"
    by (intro exI[of _ "shown (fst p) (snd p)"]) (simp add: dir_listing_def list_ok_def source_ok_def)
qed (use serve_list_law in \<open>force simp: dir_listing_def drop_numbered\<close>)

interpretation offset: dir_server serve_from from_ok dir_listing
proof
  fix p :: "dir_env \<times> fuse_direntry list" and s i sz
  assume "from_ok p s"
  then show "\<exists>es. dir_listing p = numbered 0 es \<and> names_ok es \<and> length es < 2 ^ 63"
    by (intro exI[of _ "shown (fst p) (snd p)"]) (simp add: dir_listing_def from_ok_def source_ok_def)
qed (use serve_from_law in \<open>force simp: dir_listing_def drop_numbered\<close>)

end
