(* ===== verification/Kern_Readdir.thy ===== *)
theory Kern_Readdir
  imports Fuse_Dirent
begin

text \<open>
  Reading directories in the kernel (\<open>fuse_module/readdir.c\<close>): parsing the reply of the daemon, and the cache of directory
  entries in the pages of the directory. The \<open>FUSE_READDIRPLUS\<close> variant is not modelled.

  The caller's buffer is an argument: \<open>kd_accept\<close> says whether the actor of \<open>dir_emit\<close> takes one more entry after those it has.
  A page is a list of bytes; an access outside of it is \<open>Aborted\<close>. \<open>kd_between\<close> is what other threads do to the
  cache while \<open>fuse_add_dirent_to_cache\<close> has dropped the lock.
\<close>

definition FUSE_NAME_MAX :: nat where "FUSE_NAME_MAX = 1024"

type_synonym dir_info = "byte list \<times> 64 word \<times> 32 word"

text \<open>The fields of \<open>struct dir_context\<close>, of the cache in \<open>struct fuse_inode\<close> (with the pages), of the inode, and of
  \<open>struct fuse_file\<close>.\<close>

record rdcache =
  rdc_cached :: bool
  rdc_size :: nat
  rdc_pos :: "64 word"
  rdc_version :: "64 word"
  rdc_mtime :: int
  rdc_iversion :: "64 word"
  rdc_pages :: "nat \<Rightarrow> byte list option"

record dir_state =
  ctx_pos :: "64 word"
  ctx_out :: "dir_info list"
  rdc :: rdcache
  i_mtime :: int
  i_version :: "64 word"
  ff_cache_dir :: bool
  ff_pos :: "64 word"
  ff_cache_off :: nat
  ff_version :: "64 word"

record readdir_env =
  kd_accept :: "dir_info list \<Rightarrow> dir_info \<Rightarrow> bool"
  kd_alloc :: "nat \<Rightarrow> byte list option"
  kd_between :: "rdcache \<Rightarrow> rdcache"
  kd_auto_inval :: bool
  kd_update :: "int \<times> int \<times> 64 word"

subsection \<open>Entries in a buffer\<close>

definition dirent_of :: "byte list \<Rightarrow> fuse_dirent" where
  "dirent_of b = (let namelen = word_of_nat (le_val (take 4 (drop 16 b))) in
     \<lparr>de_ino = word_of_nat (le_val (take 8 b)), de_off = word_of_nat (le_val (take 8 (drop 8 b))), de_namelen = namelen,
      de_type = word_of_nat (le_val (take 4 (drop 20 b))), de_name = take (unat namelen) (drop FUSE_NAME_OFFSET b)\<rparr>)"

definition dirent_info :: "fuse_dirent \<Rightarrow> dir_info" where
  "dirent_info d = (de_name d, de_ino d, de_type d)"

definition dir_emit :: "readdir_env \<Rightarrow> fuse_dirent \<Rightarrow> dir_state \<Rightarrow> bool \<times> dir_state" where
  "dir_emit env d st = (if kd_accept env (ctx_out st) (dirent_info d) then (True, st\<lparr>ctx_out := ctx_out st @ [dirent_info d]\<rparr>) else (False, st))"

subsection \<open>The cache\<close>

text \<open>The first part of \<open>fuse_add_dirent_to_cache\<close>, under the lock: version and size, and the place of the entry.\<close>

definition cache_add_plan :: "nat \<Rightarrow> 64 word \<Rightarrow> rdcache \<Rightarrow> (64 word \<times> nat \<times> nat \<times> nat) option" where
  "cache_add_plan reclen pos c =
     (if rdc_cached c \<or> pos \<noteq> rdc_pos c then None
      else let offset = rdc_size c mod PAGE_SIZE; index = rdc_size c div PAGE_SIZE
           in if offset + reclen > PAGE_SIZE then Some (rdc_version c, rdc_size c, index + 1, 0)
              else Some (rdc_version c, rdc_size c, index, offset))"

definition cache_get_page :: "readdir_env \<Rightarrow> nat \<Rightarrow> nat \<Rightarrow> rdcache \<Rightarrow> (byte list \<times> rdcache) option" where
  "cache_get_page env index offset c =
     (case rdc_pages c index of
        Some page \<Rightarrow> Some (page, c)
      | None \<Rightarrow> if offset \<noteq> 0 then None
          else map_option (\<lambda>page. (page, c\<lparr>rdc_pages := (rdc_pages c)(index \<mapsto> page)\<rparr>)) (kd_alloc env index))"

text \<open>The second part, under the lock again and with the page locked.\<close>

definition cache_add_commit :: "byte list \<Rightarrow> 64 word \<Rightarrow> 64 word \<Rightarrow> 64 word \<times> nat \<times> nat \<times> nat \<Rightarrow> byte list \<Rightarrow> rdcache \<Rightarrow> rdcache outcome" where
  "cache_add_commit dirent off pos plan page c =
     (case plan of (version, sz, index, offset) \<Rightarrow>
        if rdc_version c \<noteq> version \<or> rdc_size c \<noteq> sz \<or> rdc_pos c \<noteq> pos then Done c
        else obind (buf_store (if offset = 0 then replicate PAGE_SIZE 0 else page) offset dirent)
          (\<lambda>page'. Done (c\<lparr>rdc_pages := (rdc_pages c)(index \<mapsto> page'), rdc_size := index * PAGE_SIZE + offset + length dirent, rdc_pos := off\<rparr>)))"

text \<open>\<open>dirent\<close> is the bytes of the record.\<close>

definition fuse_add_dirent_to_cache :: "readdir_env \<Rightarrow> byte list \<Rightarrow> 64 word \<Rightarrow> 64 word \<Rightarrow> rdcache \<Rightarrow> rdcache outcome" where
  "fuse_add_dirent_to_cache env dirent off pos c =
     (case cache_add_plan (length dirent) pos c of
        None \<Rightarrow> Done c
      | Some (version, sz, index, offset) \<Rightarrow>
          (case cache_get_page env index offset (kd_between env c) of
             None \<Rightarrow> Done (kd_between env c)
           | Some (page, c1) \<Rightarrow> cache_add_commit dirent off pos (version, sz, index, offset) page c1))"

definition fuse_readdir_cache_end :: "64 word \<Rightarrow> rdcache \<Rightarrow> rdcache" where
  "fuse_readdir_cache_end pos c =
     (if rdc_pos c \<noteq> pos then c
      else let stop = (rdc_size c + PAGE_SIZE - 1) div PAGE_SIZE * PAGE_SIZE
           in c\<lparr>rdc_cached := True, rdc_pages := (\<lambda>i. if i * PAGE_SIZE \<ge> stop then None else rdc_pages c i)\<rparr>)"

definition fuse_rdc_reset :: "rdcache \<Rightarrow> rdcache" where
  "fuse_rdc_reset c = c\<lparr>rdc_cached := False, rdc_version := rdc_version c + 1, rdc_size := 0, rdc_pos := 0\<rparr>"

subsection \<open>Parsing a reply\<close>

definition fuse_emit :: "readdir_env \<Rightarrow> byte list \<Rightarrow> fuse_dirent \<Rightarrow> dir_state \<Rightarrow> (bool \<times> dir_state) outcome" where
  "fuse_emit env raw d st =
     obind (if ff_cache_dir st then fuse_add_dirent_to_cache env raw (de_off d) (ctx_pos st) (rdc st) else Done (rdc st))
       (\<lambda>c. Done (dir_emit env d (st\<lparr>rdc := c\<rparr>)))"

function parse_dirfile :: "readdir_env \<Rightarrow> byte list \<Rightarrow> nat \<Rightarrow> dir_state \<Rightarrow> (int \<times> dir_state) outcome" where
  "parse_dirfile env buf nbytes st =
     (if nbytes < FUSE_NAME_OFFSET then Done (0, st)
      else if length buf < FUSE_NAME_OFFSET then Aborted
      else let dirent = dirent_of buf; reclen = FUSE_DIRENT_SIZE dirent in
        if de_namelen dirent = 0 \<or> unat (de_namelen dirent) > FUSE_NAME_MAX then Done (- EIO, st)
        else if reclen > nbytes then Done (0, st)
        else if length buf < reclen then Aborted
        else if 0x2F \<in> set (de_name dirent) then Done (- EIO, st)
        else obind (fuse_emit env (take reclen buf) dirent st)
          (\<lambda>(emitted, st1). if \<not> emitted then Done (0, st1)
             else parse_dirfile env (drop reclen buf) (nbytes - reclen) (st1\<lparr>ctx_pos := de_off dirent\<rparr>)))"
  by pat_completeness auto
termination
proof (relation "measure (\<lambda>(env, buf, nbytes, st). nbytes)")
  show "((env, drop z buf, nbytes - z, st1\<lparr>ctx_pos := de_off x\<rparr>), env, buf, nbytes, st) \<in> measure (\<lambda>(env, buf, nbytes, st). nbytes)"
    if "\<not> nbytes < FUSE_NAME_OFFSET" "x = dirent_of buf" "z = FUSE_DIRENT_SIZE x" for env buf nbytes st x z st1
    using that rec_align_le[of "FUSE_NAME_OFFSET + unat (de_namelen x)"] by (simp add: FUSE_DIRENT_SIZE_def FUSE_NAME_OFFSET_def)
qed auto

declare parse_dirfile.simps [simp del]

text \<open>\<open>page\<close> is the result of \<open>alloc_page\<close> and \<open>reply\<close> that of the request: an error or the bytes, which the copy engine
  has put in the page.\<close>

definition fuse_readdir_uncached :: "readdir_env \<Rightarrow> byte list option \<Rightarrow> (int + byte list) \<Rightarrow> dir_state \<Rightarrow> (int \<times> dir_state) outcome" where
  "fuse_readdir_uncached env page reply st =
     (case page of
        None \<Rightarrow> Done (- ENOMEM, st)
      | Some pg \<Rightarrow>
          (case reply of
             Inl err \<Rightarrow> Done (err, st)
           | Inr bs \<Rightarrow>
               if bs = [] then Done (0, if ff_cache_dir st then st\<lparr>rdc := fuse_readdir_cache_end (ctx_pos st) (rdc st)\<rparr> else st)
               else parse_dirfile env (bs @ drop (length bs) pg) (length bs) st))"

subsection \<open>Reading from the cache\<close>

datatype fuse_parse_result = FOUND_ERR | FOUND_NONE | FOUND_SOME | FOUND_ALL

text \<open>An offset behind the size is the underflow of the unsigned \<open>nbytes\<close>.\<close>

function parse_cache_loop :: "readdir_env \<Rightarrow> byte list \<Rightarrow> nat \<Rightarrow> nat \<Rightarrow> fuse_parse_result \<Rightarrow> dir_state \<Rightarrow> (fuse_parse_result \<times> dir_state) outcome" where
  "parse_cache_loop env addr sz offset res st =
     (if offset > sz then Aborted
      else let nbytes = sz - offset in
        if nbytes < FUSE_NAME_OFFSET then Done (res, st)
        else if length addr < offset + FUSE_NAME_OFFSET then Aborted
        else let dirent = dirent_of (drop offset addr); reclen = FUSE_DIRENT_SIZE dirent in
          if de_namelen dirent = 0 then Done (res, st)
          else if unat (de_namelen dirent) > FUSE_NAME_MAX then Done (FOUND_ERR, st)
          else if reclen > nbytes then Done (FOUND_ERR, st)
          else if length addr < offset + reclen then Aborted
          else if 0x2F \<in> set (de_name dirent) then Done (FOUND_ERR, st)
          else if ff_pos st = ctx_pos st
          then (case dir_emit env dirent st of (emitted, st1) \<Rightarrow>
                  if \<not> emitted then Done (FOUND_ALL, st1)
                  else parse_cache_loop env addr sz (offset + reclen) FOUND_SOME
                    (st1\<lparr>ctx_pos := de_off dirent, ff_pos := de_off dirent, ff_cache_off := ff_cache_off st1 + reclen\<rparr>))
          else parse_cache_loop env addr sz (offset + reclen) res
                    (st\<lparr>ff_pos := de_off dirent, ff_cache_off := ff_cache_off st + reclen\<rparr>))"
  by pat_completeness auto
termination
proof (relation "measure (\<lambda>(env, addr, sz, offset, res, st). sz - offset)", goal_cases)
  case 1
  then show ?case by simp
next
  case (2 env addr sz offset res st nbytes d reclen)
  then show ?case using rec_align_le[of "FUSE_NAME_OFFSET + unat (de_namelen d)"] by (simp add: FUSE_DIRENT_SIZE_def FUSE_NAME_OFFSET_def)
next
  case (3 env addr sz offset res st nbytes d reclen)
  then show ?case using rec_align_le[of "FUSE_NAME_OFFSET + unat (de_namelen d)"] by (simp add: FUSE_DIRENT_SIZE_def FUSE_NAME_OFFSET_def)
qed

declare parse_cache_loop.simps [simp del]

definition fuse_parse_cache :: "readdir_env \<Rightarrow> byte list \<Rightarrow> nat \<Rightarrow> dir_state \<Rightarrow> (fuse_parse_result \<times> dir_state) outcome" where
  "fuse_parse_cache env addr sz st = parse_cache_loop env addr sz (ff_cache_off st mod PAGE_SIZE) FOUND_NONE st"


definition UNCACHED :: int where "UNCACHED = 1"

text \<open>\<open>fuse_readdir_cached\<close> from the label \<open>retry\<close>; \<open>None\<close> is a loop that does not end.\<close>

partial_function (option) readdir_cached_loop :: "readdir_env \<Rightarrow> dir_state \<Rightarrow> (int \<times> dir_state) outcome option" where
  "readdir_cached_loop env st =
     (let c = rdc st in
      if \<not> rdc_cached c
      then Some (Done (UNCACHED, if ctx_pos st = 0 \<and> rdc_size c = 0
                                 then st\<lparr>rdc := c\<lparr>rdc_mtime := i_mtime st, rdc_iversion := i_version st\<rparr>\<rparr> else st))
      else if ctx_pos st = 0 \<and> (i_version st \<noteq> rdc_iversion c \<or> rdc_mtime c \<noteq> i_mtime st)
      then readdir_cached_loop env (st\<lparr>rdc := fuse_rdc_reset c\<rparr>)
      else
        let st1 = (if ff_version st \<noteq> rdc_version c then st\<lparr>ff_pos := 0, ff_cache_off := 0\<rparr> else st);
            st2 = (if ff_pos st1 = 0 then st1\<lparr>ff_version := rdc_version c\<rparr> else st1);
            index = ff_cache_off st2 div PAGE_SIZE;
            sz = (if index = rdc_size c div PAGE_SIZE then rdc_size c mod PAGE_SIZE else PAGE_SIZE)
        in if ff_cache_off st2 mod PAGE_SIZE = sz then Some (Done (0, st2))
           else case rdc_pages c index of
               None \<Rightarrow> readdir_cached_loop env (if rdc_version c = ff_version st2 then st2\<lparr>rdc := fuse_rdc_reset c\<rparr> else st2)
             | Some page \<Rightarrow>
                 (case fuse_parse_cache env page sz st2 of
                    Aborted \<Rightarrow> Some Aborted
                  | Done (res, st3) \<Rightarrow>
                      if res = FOUND_ERR then Some (Done (- EIO, st3))
                      else if res = FOUND_ALL then Some (Done (0, st3))
                      else if sz = PAGE_SIZE
                      then readdir_cached_loop env (st3\<lparr>ff_cache_off := (ff_cache_off st3 + PAGE_SIZE - 1) div PAGE_SIZE * PAGE_SIZE\<rparr>)
                      else Some (Done (if res = FOUND_SOME then 0 else UNCACHED, st3))))"

definition fuse_readdir_cached :: "readdir_env \<Rightarrow> dir_state \<Rightarrow> (int \<times> dir_state) outcome option" where
  "fuse_readdir_cached env st =
     (let st1 = (if ff_pos st \<noteq> ctx_pos st then st\<lparr>ff_pos := 0, ff_cache_off := 0\<rparr> else st)
      in if ctx_pos st1 = 0 \<and> kd_auto_inval env
         then (case kd_update env of (err, mtime, version) \<Rightarrow>
                 if err \<noteq> 0 then Some (Done (err, st1)) else readdir_cached_loop env (st1\<lparr>i_mtime := mtime, i_version := version\<rparr>))
         else readdir_cached_loop env st1)"

text \<open>\<open>request\<close> sends a \<open>FUSE_READDIR\<close> request for the given offset to the daemon, whose state is \<open>'s\<close>.\<close>

definition fuse_readdir ::
  "readdir_env \<Rightarrow> bool \<Rightarrow> byte list option \<Rightarrow> (64 word \<Rightarrow> 's \<Rightarrow> ((int + byte list) \<times> 's) outcome) \<Rightarrow> dir_state \<Rightarrow> 's \<Rightarrow>
     (int \<times> dir_state \<times> 's) outcome option" where
  "fuse_readdir env bad page request st s =
     (if bad then Some (Done (- EIO, st, s))
      else Option.bind (if ff_cache_dir st then fuse_readdir_cached env st else Some (Done (UNCACHED, st)))
        (\<lambda>r. Some (obind r (\<lambda>(err, st1).
           if err = UNCACHED
           then (if page = None then Done (- ENOMEM, st1, s)
                 else obind (request (ctx_pos st1) s) (\<lambda>(reply, s1). obind (fuse_readdir_uncached env page reply st1) (\<lambda>(err, st2). Done (err, st2, s1))))
           else Done (err, st1, s)))))"

subsection \<open>Parsing what the daemon writes\<close>

definition dirent_good :: "fuse_dirent \<Rightarrow> bool" where
  "dirent_good d \<longleftrightarrow> dirent_ok d \<and> de_name d \<noteq> [] \<and> length (de_name d) \<le> FUSE_NAME_MAX \<and> 0x2F \<notin> set (de_name d)"

lemma dirent_of_rec: "dirent_ok d \<Longrightarrow> dirent_of (rec_bytes d @ x) = d"
proof -
  assume "dirent_ok d"
  then have "length (de_name d) = unat (de_namelen d)" by (simp add: dirent_ok_def)
  then show ?thesis by (simp add: dirent_of_def rec_bytes_def dirent_bytes_def Let_def FUSE_NAME_OFFSET_def)
qed

lemma numbered_good: "names_ok es \<Longrightarrow> d \<in> set (numbered i es) \<Longrightarrow> dirent_good d"
proof (induction es arbitrary: i)
  case (Cons e es)
  have "length (dl_name e) \<le> 1024" "dl_name e \<noteq> []" "0x2F \<notin> set (dl_name e)" "names_ok es" using Cons.prems(1) by (simp_all add: names_ok_def)
  moreover from this have "dirent_ok (mk_dirent (dl_name e) (dl_stat e) (word_of_nat (i + 1)))" by (intro mk_dirent_ok) simp
  ultimately show ?case using Cons.IH[of "i + 1"] Cons.prems(2) by (auto simp: dirent_good_def FUSE_NAME_MAX_def)
qed simp

text \<open>The entries the caller takes, and those that were tried: one more if an entry was refused.\<close>

fun taken :: "readdir_env \<Rightarrow> dir_info list \<Rightarrow> fuse_dirent list \<Rightarrow> fuse_dirent list" where
  "taken env out [] = []"
| "taken env out (d # ds) = (if kd_accept env out (dirent_info d) then d # taken env (out @ [dirent_info d]) ds else [])"

fun tried :: "readdir_env \<Rightarrow> dir_info list \<Rightarrow> fuse_dirent list \<Rightarrow> fuse_dirent list" where
  "tried env out [] = []"
| "tried env out (d # ds) = d # (if kd_accept env out (dirent_info d) then tried env (out @ [dirent_info d]) ds else [])"

fun cache_adds :: "readdir_env \<Rightarrow> 64 word \<Rightarrow> fuse_dirent list \<Rightarrow> rdcache \<Rightarrow> rdcache outcome" where
  "cache_adds env pos [] c = Done c"
| "cache_adds env pos (d # ds) c = obind (fuse_add_dirent_to_cache env (rec_bytes d) (de_off d) pos c) (cache_adds env (de_off d) ds)"

definition pos_after :: "64 word \<Rightarrow> fuse_dirent list \<Rightarrow> 64 word" where
  "pos_after pos ds = (if ds = [] then pos else de_off (last ds))"

lemma pos_after_simps [simp]: "pos_after pos [] = pos" "pos_after pos (d # ds) = pos_after (de_off d) ds"
  by (simp_all add: pos_after_def)

lemma obind_Done_right: "obind (obind r f) g = obind r (\<lambda>x. obind (f x) g)"
  by (cases r) auto

lemma parse_dirfile_recs:
  assumes "\<forall>d\<in>set ds. dirent_good d"
  shows "parse_dirfile env (concat (map rec_bytes ds) @ x) (length (concat (map rec_bytes ds))) st =
    obind (if ff_cache_dir st then cache_adds env (ctx_pos st) (tried env (ctx_out st) ds) (rdc st) else Done (rdc st))
      (\<lambda>c. Done (0, st\<lparr>rdc := c, ctx_out := ctx_out st @ map dirent_info (taken env (ctx_out st) ds),
                       ctx_pos := pos_after (ctx_pos st) (taken env (ctx_out st) ds)\<rparr>))"
  using assms
proof (induction ds arbitrary: st)
  case Nil
  show ?case by (subst parse_dirfile.simps) (simp add: FUSE_NAME_OFFSET_def)
next
  case (Cons d ds)
  let ?rest = "concat (map rec_bytes ds)" and ?s = "FUSE_DIRENT_SIZE d"
  have g: "dirent_good d" "dirent_ok d" and gs: "\<forall>d\<in>set ds. dirent_good d" using Cons.prems by (simp_all add: dirent_good_def)
  have len: "length (rec_bytes d) = ?s" "24 \<le> ?s" using length_rec_bytes[OF g(2)] dirent_size_bounds[OF g(2)] by simp_all
  have nl: "de_namelen d \<noteq> 0" "unat (de_namelen d) \<le> FUSE_NAME_MAX" "0x2F \<notin> set (de_name d)" using g by (auto simp: dirent_good_def dirent_ok_def)
  have of: "dirent_of (rec_bytes d @ ?rest @ x) = d" by (rule dirent_of_rec[OF g(2)])
  have step: "parse_dirfile env (rec_bytes d @ ?rest @ x) (?s + length ?rest) st =
    obind (fuse_emit env (rec_bytes d) d st) (\<lambda>(emitted, st1). if \<not> emitted then Done (0, st1)
       else parse_dirfile env (?rest @ x) (length ?rest) (st1\<lparr>ctx_pos := de_off d\<rparr>))"
    using len nl by (subst parse_dirfile.simps) (simp add: of Let_def FUSE_NAME_OFFSET_def cong: if_cong)
  have eq: "parse_dirfile env (concat (map rec_bytes (d # ds)) @ x) (length (concat (map rec_bytes (d # ds)))) st =
    obind (fuse_emit env (rec_bytes d) d st) (\<lambda>(emitted, st1). if \<not> emitted then Done (0, st1)
       else parse_dirfile env (?rest @ x) (length ?rest) (st1\<lparr>ctx_pos := de_off d\<rparr>))"
    using step len by simp
  show ?case
  proof (cases "ff_cache_dir st")
    case True
    then show ?thesis unfolding eq fuse_emit_def dir_emit_def
      by (cases "fuse_add_dirent_to_cache env (rec_bytes d) (de_off d) (ctx_pos st) (rdc st)")
        (simp_all add: Cons.IH[OF gs])
  next
    case False
    then show ?thesis unfolding eq fuse_emit_def dir_emit_def by (simp add: Cons.IH[OF gs])
  qed
qed


subsection \<open>Reading a whole directory\<close>

text \<open>A sequence of \<open>getdents\<close> calls on an open directory; each has an empty buffer of its own.\<close>

fun getdents_run ::
  "(64 word \<Rightarrow> 's \<Rightarrow> ((int + byte list) \<times> 's) outcome) \<Rightarrow> byte list \<Rightarrow> readdir_env list \<Rightarrow> dir_state \<Rightarrow> 's \<Rightarrow>
     ((int \<times> dir_info list) list \<times> dir_state \<times> 's) outcome option" where
  "getdents_run request pg [] st s = Some (Done ([], st, s))"
| "getdents_run request pg (env # envs) st s =
     (case fuse_readdir env False (Some pg) request (st\<lparr>ctx_out := []\<rparr>) s of
        None \<Rightarrow> None
      | Some Aborted \<Rightarrow> Some Aborted
      | Some (Done (err, st1, s1)) \<Rightarrow>
          (case getdents_run request pg envs st1 s1 of
             None \<Rightarrow> None
           | Some Aborted \<Rightarrow> Some Aborted
           | Some (Done (rs, st2, s2)) \<Rightarrow> Some (Done ((err, ctx_out st1) # rs, st2, s2))))"

lemma fitting_prefix: "\<exists>k. fitting room ds = take k ds"
proof (induction room ds rule: fitting.induct)
  case (2 room d ds)
  then obtain k where "FUSE_DIRENT_SIZE d \<le> room \<Longrightarrow> fitting (room - FUSE_DIRENT_SIZE d) ds = take k ds" by blast
  then show ?case by (cases "FUSE_DIRENT_SIZE d \<le> room") (auto intro: exI[of _ "Suc k"] exI[of _ 0])
qed simp

lemma taken_prefix: "\<exists>k. taken env out ds = take k ds"
proof (induction env out ds rule: taken.induct)
  case (2 env out d ds)
  then obtain k where "kd_accept env out (dirent_info d) \<Longrightarrow> taken env (out @ [dirent_info d]) ds = take k ds" by blast
  then show ?case by (cases "kd_accept env out (dirent_info d)") (auto intro: exI[of _ "Suc k"] exI[of _ 0])
qed simp

lemma taken_fitting:
  obtains k where "taken env out (fitting room ds) = take k ds" and "k \<le> length ds"
proof -
  obtain j where j: "fitting room ds = take j ds" using fitting_prefix by blast
  obtain k where "taken env out (take j ds) = take k (take j ds)" using taken_prefix by blast
  then have e: "taken env out (fitting room ds) = take (min k j) ds" using j by simp
  show ?thesis
  proof (cases "min k j \<le> length ds")
    case True
    with e show ?thesis by (rule that)
  next
    case False
    then have "take (min k j) ds = take (length ds) ds" by (simp only: take_all not_le less_imp_le order_refl)
    then show ?thesis using that[OF trans[OF e]] by blast
  qed
qed

lemma numbered_nth: "k < length es \<Longrightarrow> de_off (numbered i es ! k) = word_of_nat (i + k + 1)"
proof (induction es arbitrary: i k)
  case (Cons e es)
  then show ?case by (cases k) simp_all
qed simp

lemma pos_after_numbered:
  assumes "i + k \<le> length es"
  shows "pos_after (word_of_nat i) (take k (drop i (numbered 0 es))) = word_of_nat (i + k)"
proof (cases k)
  case (Suc j)
  then have "take k (drop i (numbered 0 es)) \<noteq> []" using assms by simp
  moreover have "last (take k (drop i (numbered 0 es))) = numbered 0 es ! (i + j)" using assms Suc by (simp add: last_conv_nth)
  ultimately show ?thesis using assms Suc by (simp add: pos_after_def numbered_nth del: of_nat_Suc)
qed simp

definition progress :: "readdir_env \<Rightarrow> bool" where
  "progress env \<longleftrightarrow> (\<forall>e. kd_accept env [] e)"

lemma progressD: "progress env \<Longrightarrow> kd_accept env [] e"
  unfolding progress_def by blast

lemma taken_progress:
  assumes "progress env" and "ds \<noteq> []" and "\<forall>d\<in>set ds. dirent_good d"
  shows "taken env [] (fitting PAGE_SIZE ds) \<noteq> []"
proof -
  obtain d ds' where ds: "ds = d # ds'" using assms(2) by (cases ds) auto
  have "dirent_good d" using assms(3) ds by simp
  then have "FUSE_DIRENT_SIZE d \<le> PAGE_SIZE" using dirent_size_bounds[of d] by (simp add: dirent_good_def FUSE_NAME_MAX_def PAGE_SIZE_def)
  moreover have "kd_accept env [] (dirent_info d)" using assms(1) unfolding progress_def by blast
  ultimately show ?thesis using ds by simp
qed

lemma concat_rec_Nil: "\<forall>d\<in>set ds. dirent_good d \<Longrightarrow> concat (map rec_bytes ds) = [] \<longleftrightarrow> ds = []"
  by (cases ds) (auto simp: rec_bytes_def dirent_good_def dirent_bytes_def)

lemma uncached_reply:
  assumes "\<forall>d\<in>set ds. dirent_good d" and "\<not> ff_cache_dir st"
  shows "fuse_readdir_uncached env (Some pg) (Inr (concat (map rec_bytes ds))) st =
    Done (0, st\<lparr>ctx_out := ctx_out st @ map dirent_info (taken env (ctx_out st) ds), ctx_pos := pos_after (ctx_pos st) (taken env (ctx_out st) ds)\<rparr>)"
proof (cases "ds = []")
  case False
  then have "concat (map rec_bytes ds) \<noteq> []" using concat_rec_Nil[OF assms(1)] by simp
  then have "fuse_readdir_uncached env (Some pg) (Inr (concat (map rec_bytes ds))) st =
    parse_dirfile env (concat (map rec_bytes ds) @ drop (length (concat (map rec_bytes ds))) pg) (length (concat (map rec_bytes ds))) st"
    unfolding fuse_readdir_uncached_def option.case sum.case by (rule if_not_P)
  then show ?thesis unfolding parse_dirfile_recs[OF assms(1)] using assms(2) by simp
qed (use assms(2) in \<open>simp add: fuse_readdir_uncached_def\<close>)

lemma calls_enough:
  fixes n :: nat
  assumes "min e (n - (i + k1)) \<le> k2" and "i < n \<Longrightarrow> 0 < k1" and "i + k1 \<le> n"
  shows "min (Suc e) (n - i) \<le> k1 + k2"
proof (cases "i < n")
  case True
  then show ?thesis using assms(1,3) assms(2)[OF True] unfolding min_def by (simp split: if_splits) linarith+
qed simp

context dir_server
begin

lemma one_call:
  assumes "ok p s" and "i \<le> length (listing p)" and "ctx_pos st = word_of_nat i" and "\<not> ff_cache_dir st"
  shows "\<exists>k s'. fuse_readdir env False (Some pg) (serve p PAGE_SIZE) (st\<lparr>ctx_out := []\<rparr>) s =
      Some (Done (0, st\<lparr>ctx_out := map dirent_info (take k (drop i (listing p))), ctx_pos := word_of_nat (i + k)\<rparr>, s')) \<and>
    ok p s' \<and> i + k \<le> length (listing p) \<and> (progress env \<and> i < length (listing p) \<longrightarrow> 0 < k)"
proof -
  from listing_law[OF assms(1)] obtain es where es: "listing p = numbered 0 es" "names_ok es" by blast
  have good: "\<forall>d\<in>set (drop i (listing p)). dirent_good d" using numbered_good[OF es(2)] es(1) by (auto dest: in_set_dropD)
  define ds where "ds = fitting PAGE_SIZE (drop i (listing p))"
  obtain j where j: "ds = take j (drop i (listing p))" using fitting_prefix unfolding ds_def by blast
  have gds: "\<forall>d\<in>set ds. dirent_good d" using good unfolding j by (auto dest: in_set_takeD)
  have "0 < PAGE_SIZE" "PAGE_SIZE < 2 ^ 31" by (simp_all add: PAGE_SIZE_def)
  from serve_law[OF assms(1,2) this] obtain s' where s': "serve p PAGE_SIZE (word_of_nat i) s = Done (Inr (concat (map rec_bytes ds)), s')" "ok p s'"
    unfolding ds_def by blast
  obtain k where k: "taken env [] ds = take k (drop i (listing p))" "k \<le> length (drop i (listing p))" unfolding ds_def by (rule taken_fitting)
  then have le: "i + k \<le> length (listing p)" using assms(2) by simp
  then have pos: "pos_after (word_of_nat i) (taken env [] ds) = word_of_nat (i + k)" unfolding k(1) es(1) by (intro pos_after_numbered) simp
  have "0 < k" if "progress env" "i < length (listing p)"
    using taken_progress[OF that(1) _ good] that(2) k(1) unfolding ds_def[symmetric] by (cases k) auto
  moreover have "fuse_readdir env False (Some pg) (serve p PAGE_SIZE) (st\<lparr>ctx_out := []\<rparr>) s =
      Some (Done (0, st\<lparr>ctx_out := map dirent_info (take k (drop i (listing p))), ctx_pos := word_of_nat (i + k)\<rparr>, s'))"
    using assms(3,4) s'(1) uncached_reply[OF gds, of "st\<lparr>ctx_out := []\<rparr>" env pg] pos k(1) by (simp add: fuse_readdir_def UNCACHED_def)
  ultimately show ?thesis using s'(2) le by blast
qed

lemma all_calls:
  assumes "ok p s" and "i \<le> length (listing p)" and "ctx_pos st = word_of_nat i" and "\<not> ff_cache_dir st"
  shows "\<exists>k rs st' s'. getdents_run (serve p PAGE_SIZE) pg envs st s = Some (Done (rs, st', s')) \<and> i + k \<le> length (listing p) \<and>
    (\<forall>r\<in>set rs. fst r = 0) \<and> concat (map snd rs) = map dirent_info (take k (drop i (listing p))) \<and> ctx_pos st' = word_of_nat (i + k) \<and>
    ((\<forall>env\<in>set envs. progress env) \<longrightarrow> min (length envs) (length (listing p) - i) \<le> k)"
  using assms
proof (induction envs arbitrary: i st s)
  case Nil
  then show ?case by (intro exI[of _ 0]) simp
next
  case (Cons env envs)
  from one_call[OF Cons.prems, of env pg] obtain k1 s1 where
    a: "fuse_readdir env False (Some pg) (serve p PAGE_SIZE) (st\<lparr>ctx_out := []\<rparr>) s =
        Some (Done (0, st\<lparr>ctx_out := map dirent_info (take k1 (drop i (listing p))), ctx_pos := word_of_nat (i + k1)\<rparr>, s1))"
      "ok p s1" "i + k1 \<le> length (listing p)" "progress env \<and> i < length (listing p) \<longrightarrow> 0 < k1" by blast
  let ?st = "st\<lparr>ctx_out := map dirent_info (take k1 (drop i (listing p))), ctx_pos := word_of_nat (i + k1)\<rparr>"
  have "ctx_pos ?st = word_of_nat (i + k1)" "\<not> ff_cache_dir ?st" using Cons.prems(4) by simp_all
  from Cons.IH[OF a(2,3) this] obtain k2 rs st' s' where
    b: "getdents_run (serve p PAGE_SIZE) pg envs ?st s1 = Some (Done (rs, st', s'))" "i + k1 + k2 \<le> length (listing p)" "\<forall>r\<in>set rs. fst r = 0"
      "concat (map snd rs) = map dirent_info (take k2 (drop (i + k1) (listing p)))" "ctx_pos st' = word_of_nat (i + k1 + k2)"
      "(\<forall>env\<in>set envs. progress env) \<longrightarrow> min (length envs) (length (listing p) - (i + k1)) \<le> k2" by blast
  have "take (k1 + k2) (drop i (listing p)) = take k1 (drop i (listing p)) @ take k2 (drop (i + k1) (listing p))" by (simp add: take_add add.commute)
  moreover have "min (length (env # envs)) (length (listing p) - i) \<le> k1 + k2" if "\<forall>env\<in>set (env # envs). progress env"
    unfolding length_Cons by (rule calls_enough) (use that a(3,4) b(6) in simp_all)
  ultimately show ?case using a(1,3) b by (intro exI[of _ "k1 + k2"]) (simp add: add.assoc)
qed

end


text \<open>Claim C19 (readdir_lists_directory). A program reads a directory with a sequence of \<open>getdents\<close> calls, each with a buffer
  of any size. The file system reports the directory without offsets, and the library keeps the list
  (\<open>serve_list\<close>), or it starts at the offset it is given (\<open>serve_from\<close>). The names are valid and memory
  suffices. Then no call fails, no buffer is overrun on the way, and the calls together give the entries of the directory in order, each exactly
  once, from the start up to the position in the file. If every call has room for one entry, as many calls as there are entries
  give all of them.\<close>

theorem readdir_lists_directory:
  assumes "env_ok denv" and "names_ok es" and "length es < 2 ^ 63" and "ctx_pos st = 0" and "\<not> ff_cache_dir st" and "serve = serve_list \<or> serve = serve_from"
  shows "\<exists>k rs st' dh'. getdents_run (serve (denv, es) PAGE_SIZE) pg envs st fuse_lib_opendir_dh = Some (Done (rs, st', dh')) \<and> k \<le> length es \<and>
    (\<forall>r\<in>set rs. fst r = 0) \<and> concat (map snd rs) = map dirent_info (take k (numbered 0 (shown denv es))) \<and> ctx_pos st' = word_of_nat k \<and>
    ((\<forall>env\<in>set envs. progress env) \<and> length es \<le> length envs \<longrightarrow> k = length es)"
proof -
  have ok: "source_ok (denv, es) fuse_lib_opendir_dh" "\<not> dh_filled fuse_lib_opendir_dh"
    using assms(1-3) by (simp_all add: source_ok_def dh_ok_def fuse_lib_opendir_dh_def)
  have l: "list_ok (denv, es) fuse_lib_opendir_dh" and f: "from_ok (denv, es) fuse_lib_opendir_dh" using ok by (simp_all add: list_ok_def from_ok_def)
  have z: "0 \<le> length (dir_listing (denv, es))" "ctx_pos st = word_of_nat 0" using assms(4) by simp_all
  have len: "length (dir_listing (denv, es)) = length es" by (simp add: dir_listing_def)
  have "\<exists>k rs st' s'. getdents_run (serve (denv, es) PAGE_SIZE) pg envs st fuse_lib_opendir_dh = Some (Done (rs, st', s')) \<and> 0 + k \<le> length (dir_listing (denv, es)) \<and>
    (\<forall>r\<in>set rs. fst r = 0) \<and> concat (map snd rs) = map dirent_info (take k (drop 0 (dir_listing (denv, es)))) \<and> ctx_pos st' = word_of_nat (0 + k) \<and>
    ((\<forall>env\<in>set envs. progress env) \<longrightarrow> min (length envs) (length (dir_listing (denv, es)) - 0) \<le> k)"
    using assms(6) listed.all_calls[OF l z assms(5), of pg envs] offset.all_calls[OF f z assms(5), of pg envs] by blast
  then show ?thesis unfolding len add_0 drop_0 diff_zero by (simp add: dir_listing_def) (metis le_antisym min.absorb2)
qed


subsection \<open>What the cache holds\<close>

text \<open>The pages as lists of entries; a record never crosses the end of a page.\<close>

definition plen :: "fuse_dirent list \<Rightarrow> nat" where
  "plen ds = length (concat (map rec_bytes ds))"

definition page_of :: "fuse_dirent list \<Rightarrow> byte list" where
  "page_of ds = concat (map rec_bytes ds) @ replicate (PAGE_SIZE - plen ds) 0"

definition csize :: "fuse_dirent list list \<Rightarrow> nat" where
  "csize pss = (if pss = [] then 0 else (length pss - 1) * PAGE_SIZE + plen (last pss))"

definition pages_good :: "fuse_dirent list list \<Rightarrow> bool" where
  "pages_good pss \<longleftrightarrow> (\<forall>ds\<in>set pss. ds \<noteq> [] \<and> plen ds \<le> PAGE_SIZE \<and> (\<forall>d\<in>set ds. dirent_good d))"

definition cache_rep :: "fuse_dirent list list \<Rightarrow> rdcache \<Rightarrow> bool" where
  "cache_rep pss c \<longleftrightarrow> pages_good pss \<and> rdc_size c = csize pss \<and> rdc_pos c = pos_after 0 (concat pss) \<and>
     (\<forall>i<length pss. rdc_pages c i = Some (page_of (pss ! i)))"

definition add_rec :: "fuse_dirent \<Rightarrow> fuse_dirent list list \<Rightarrow> fuse_dirent list list" where
  "add_rec d pss = (if pss = [] \<or> PAGE_SIZE < plen (last pss) + FUSE_DIRENT_SIZE d then pss @ [[d]] else butlast pss @ [last pss @ [d]])"

lemma rec_len_simps [simp]: "plen [] = 0" "plen (ds @ ds') = plen ds + plen ds'" "dirent_good d \<Longrightarrow> plen (d # ds) = FUSE_DIRENT_SIZE d + plen ds"
  by (simp_all add: plen_def length_rec_bytes dirent_good_def)

lemma good_size: "dirent_good d \<Longrightarrow> 24 \<le> FUSE_DIRENT_SIZE d \<and> FUSE_DIRENT_SIZE d \<le> 1056"
  using dirent_size_bounds[of d] by (simp add: dirent_good_def FUSE_NAME_MAX_def)

lemma plen_pos: "ds \<noteq> [] \<Longrightarrow> \<forall>d\<in>set ds. dirent_good d \<Longrightarrow> 0 < plen ds"
proof (cases ds)
  case (Cons d ds')
  assume "\<forall>d\<in>set ds. dirent_good d"
  then show ?thesis using Cons good_size[of d] by simp
qed simp

lemma concat_add_rec: "concat (add_rec d pss) = concat pss @ [d]"
proof (cases pss rule: rev_cases)
  case (snoc ps ds)
  then show ?thesis by (simp add: add_rec_def)
qed (simp add: add_rec_def)

lemma add_rec_good: "pages_good pss \<Longrightarrow> dirent_good d \<Longrightarrow> pages_good (add_rec d pss)"
proof (cases pss rule: rev_cases)
  case Nil
  assume "dirent_good d"
  then show ?thesis using good_size[of d] by (simp add: Nil add_rec_def pages_good_def PAGE_SIZE_def)
next
  case (snoc ps ds)
  assume "dirent_good d" "pages_good pss"
  then show ?thesis using snoc good_size[of d] by (auto simp: add_rec_def pages_good_def PAGE_SIZE_def)
qed

text \<open>The place that the code computes from the size.\<close>

lemma csize_cases:
  assumes g: "pages_good pss" and p: "pss \<noteq> []"
  defines "n \<equiv> length pss - 1" and "l \<equiv> plen (last pss)"
  shows "0 < l" and "l \<le> PAGE_SIZE" and "l < PAGE_SIZE \<Longrightarrow> csize pss div PAGE_SIZE = n \<and> csize pss mod PAGE_SIZE = l"
    and "l = PAGE_SIZE \<Longrightarrow> csize pss div PAGE_SIZE = length pss \<and> csize pss mod PAGE_SIZE = 0"
proof -
  have "last pss \<in> set pss" using p by simp
  then show "0 < l" "l \<le> PAGE_SIZE" using g plen_pos unfolding pages_good_def l_def by blast+
  have c: "csize pss = n * PAGE_SIZE + l" using p by (simp add: csize_def n_def l_def)
  show "csize pss div PAGE_SIZE = n \<and> csize pss mod PAGE_SIZE = l" if "l < PAGE_SIZE" unfolding c using that by simp
  have "csize pss = length pss * PAGE_SIZE" if "l = PAGE_SIZE" unfolding c that n_def using p by (cases pss) simp_all
  then show "csize pss div PAGE_SIZE = length pss \<and> csize pss mod PAGE_SIZE = 0" if "l = PAGE_SIZE" using that by (simp add: PAGE_SIZE_def)
qed

definition add_place :: "fuse_dirent list list \<Rightarrow> fuse_dirent \<Rightarrow> nat \<times> nat" where
  "add_place pss d = (if pss = [] \<or> PAGE_SIZE < plen (last pss) + FUSE_DIRENT_SIZE d then (length pss, 0) else (length pss - 1, plen (last pss)))"

lemma plan_place:
  assumes g: "pages_good pss" and d: "dirent_good d" and s: "rdc_size c = csize pss"
  shows "cache_add_plan (FUSE_DIRENT_SIZE d) pos c = (if rdc_cached c \<or> pos \<noteq> rdc_pos c then None
    else Some (rdc_version c, rdc_size c, fst (add_place pss d), snd (add_place pss d)))"
proof -
  let ?s = "FUSE_DIRENT_SIZE d"
  have z: "24 \<le> ?s" "?s \<le> 1056" using good_size[OF d] by simp_all
  show ?thesis
  proof (cases "pss = []")
    case True
    then show ?thesis using z s by (simp add: cache_add_plan_def add_place_def csize_def PAGE_SIZE_def)
  next
    case False
    note cs = csize_cases[OF g False]
    have n: "Suc (length pss - 1) = length pss" using False by (cases pss) simp_all
    show ?thesis
    proof (cases "plen (last pss) < PAGE_SIZE")
      case True
      then show ?thesis using cs(3) s False n by (simp add: cache_add_plan_def add_place_def Let_def)
    next
      case full: False
      then have l: "plen (last pss) = PAGE_SIZE" using cs(2) by simp
      have "\<not> PAGE_SIZE < ?s" using z by (simp add: PAGE_SIZE_def)
      then show ?thesis using cs(4)[OF l] s False l z by (simp add: cache_add_plan_def add_place_def Let_def)
    qed
  qed
qed


lemma page_of_add:
  assumes "plen ds + FUSE_DIRENT_SIZE d \<le> PAGE_SIZE" and "dirent_good d"
  shows "buf_store (page_of ds) (plen ds) (rec_bytes d) = Done (page_of (ds @ [d]))"
proof -
  have l: "length (rec_bytes d) = FUSE_DIRENT_SIZE d" using assms(2) by (simp add: length_rec_bytes dirent_good_def)
  have "length (page_of ds) = PAGE_SIZE" using assms(1) by (simp add: page_of_def plen_def)
  moreover have "take (plen ds) (page_of ds) = concat (map rec_bytes ds)" by (simp add: page_of_def plen_def)
  moreover have "drop (plen ds + FUSE_DIRENT_SIZE d) (page_of ds) = replicate (PAGE_SIZE - (plen ds + FUSE_DIRENT_SIZE d)) 0"
    using assms(1) by (simp add: page_of_def plen_def)
  ultimately show ?thesis using l assms by (simp add: buf_store_def page_of_def)
qed

lemma page_of_Nil: "page_of [] = replicate PAGE_SIZE 0"
  by (simp add: page_of_def)

lemma pos_after_snoc [simp]: "pos_after p (ds @ [d]) = de_off d" "pos_after p (ds @ es @ [d]) = de_off d"
  by (simp_all add: pos_after_def)

lemma commit_rep:
  assumes rep: "cache_rep pss c" and d: "dirent_good d"
    and pl: "add_place pss d = (index, offset)" and pg: "offset \<noteq> 0 \<Longrightarrow> rdc_pages c index = Some page"
  shows "\<exists>c'. cache_add_commit (rec_bytes d) (de_off d) (rdc_pos c) (rdc_version c, rdc_size c, index, offset) page c = Done c' \<and>
    cache_rep (add_rec d pss) c' \<and> rdc_version c' = rdc_version c \<and> rdc_cached c' = rdc_cached c \<and> rdc_mtime c' = rdc_mtime c \<and> rdc_iversion c' = rdc_iversion c \<and> rdc_size c' \<noteq> 0"
proof -
  have g: "pages_good pss" using rep by (simp add: cache_rep_def)
  have z: "24 \<le> FUSE_DIRENT_SIZE d" "FUSE_DIRENT_SIZE d \<le> PAGE_SIZE" using good_size[OF d] by (simp_all add: PAGE_SIZE_def)
  have lr: "length (rec_bytes d) = FUSE_DIRENT_SIZE d" using d by (simp add: length_rec_bytes dirent_good_def)
  have ga: "pages_good (add_rec d pss)" by (rule add_rec_good[OF g d])
  show ?thesis
  proof (cases "pss = [] \<or> PAGE_SIZE < plen (last pss) + FUSE_DIRENT_SIZE d")
    case True
    then have p: "index = length pss" "offset = 0" using pl by (simp_all add: add_place_def)
    have a: "add_rec d pss = pss @ [[d]]" using True by (simp add: add_rec_def)
    have st: "buf_store (replicate PAGE_SIZE 0) 0 (rec_bytes d) = Done (page_of [d])" using page_of_add[of "[]" d] z d by (simp add: page_of_Nil)
    have "cache_rep (pss @ [[d]]) (c\<lparr>rdc_pages := (rdc_pages c)(length pss \<mapsto> page_of [d]), rdc_size := length pss * PAGE_SIZE + FUSE_DIRENT_SIZE d, rdc_pos := de_off d\<rparr>)"
      using rep ga a d by (auto simp: cache_rep_def csize_def nth_append)
    then show ?thesis unfolding a using z p st lr by (simp add: cache_add_commit_def)
  next
    case False
    then have p: "index = length pss - 1" "offset = plen (last pss)" using pl by (auto simp: add_place_def)
    have ne: "pss \<noteq> []" using False by simp
    have a: "add_rec d pss = butlast pss @ [last pss @ [d]]" using False by (simp add: add_rec_def)
    have o: "offset \<noteq> 0" using csize_cases(1)[OF g ne] p by simp
    have "rdc_pages c index = Some (page_of (last pss))" using rep ne p by (simp add: cache_rep_def last_conv_nth)
    then have page: "page = page_of (last pss)" using pg[OF o] by simp
    have st: "buf_store page offset (rec_bytes d) = Done (page_of (last pss @ [d]))" unfolding page p by (rule page_of_add) (use False d in simp_all)
    have "cache_rep (butlast pss @ [last pss @ [d]])
      (c\<lparr>rdc_pages := (rdc_pages c)(index \<mapsto> page_of (last pss @ [d])), rdc_size := index * PAGE_SIZE + offset + FUSE_DIRENT_SIZE d, rdc_pos := de_off d\<rparr>)"
      using rep ga[unfolded a] ne p d by (auto simp: cache_rep_def csize_def nth_append nth_butlast)
    then show ?thesis unfolding a using o st lr z by (simp add: cache_add_commit_def)
  qed
qed


subsection \<open>The cache of an unchanged directory\<close>

definition pack :: "fuse_dirent list \<Rightarrow> fuse_dirent list list" where
  "pack L = fold add_rec L []"

lemma pack_simps [simp]: "pack [] = []" "pack (L @ [d]) = add_rec d (pack L)"
  by (simp_all add: pack_def)

lemma concat_pack [simp]: "concat (pack L) = L"
  by (induction L rule: rev_induct) (simp_all add: concat_add_rec)

lemma pack_good: "\<forall>d\<in>set L. dirent_good d \<Longrightarrow> pages_good (pack L)"
  by (induction L rule: rev_induct) (simp_all add: add_rec_good, simp add: pages_good_def)

lemma csize_0: "pages_good pss \<Longrightarrow> csize pss = 0 \<longleftrightarrow> pss = []"
  using csize_cases(1)[of pss] by (auto simp: csize_def)

definition times :: "rdcache \<Rightarrow> int \<times> 64 word" where
  "times c = (rdc_mtime c, rdc_iversion c)"

text \<open>The cache holds a front part of the listing, all of it when it is complete.\<close>

definition cache_core :: "fuse_dirent list \<Rightarrow> 64 word \<Rightarrow> rdcache \<Rightarrow> bool" where
  "cache_core L v c \<longleftrightarrow> (\<exists>m\<le>length L. cache_rep (pack (take m L)) c \<and> (rdc_cached c \<longrightarrow> m = length L)) \<and> rdc_version c = v"

definition cache_ok :: "fuse_dirent list \<Rightarrow> int \<times> 64 word \<Rightarrow> 64 word \<Rightarrow> rdcache \<Rightarrow> bool" where
  "cache_ok L t v c \<longleftrightarrow> cache_core L v c \<and> (times c = t \<or> \<not> rdc_cached c \<and> rdc_size c = 0)"

text \<open>Other threads read the same directory.\<close>

definition calm :: "fuse_dirent list \<Rightarrow> int \<times> 64 word \<Rightarrow> 64 word \<Rightarrow> readdir_env \<Rightarrow> bool" where
  "calm L t v env \<longleftrightarrow> (\<forall>c. cache_core L v c \<and> times c = t \<longrightarrow> cache_core L v (kd_between env c) \<and> times (kd_between env c) = t)"

lemma word_pos_inj: "i < 2 ^ 63 \<Longrightarrow> m < 2 ^ 63 \<Longrightarrow> (word_of_nat i :: 64 word) = word_of_nat m \<longleftrightarrow> i = m"
  by (auto dest: arg_cong[of _ _ unat] simp: unat_of_nat)

lemma pos_after_listing: "L = numbered 0 es \<Longrightarrow> m \<le> length L \<Longrightarrow> pos_after 0 (take m L) = word_of_nat m"
  using pos_after_numbered[of 0 m es] by simp

lemma rep_get_page:
  assumes "cache_rep pss c" and "cache_get_page env index offset c = Some (page, c2)"
  shows "cache_rep pss c2" and "rdc_pages c2 index = Some page" and "rdc_version c2 = rdc_version c" and "rdc_size c2 = rdc_size c"
    and "rdc_pos c2 = rdc_pos c" and "rdc_cached c2 = rdc_cached c" and "times c2 = times c"
  using assms by (auto simp: cache_get_page_def cache_rep_def times_def split: option.splits if_splits)

lemma add_cache_ok:
  assumes L: "L = numbered 0 es" "\<forall>d\<in>set L. dirent_good d" "length L < 2 ^ 63" and ok: "cache_ok L t v c" and i: "i < length L"
    and t: "i = 0 \<Longrightarrow> times c = t" and calm: "calm L t v env"
  shows "\<exists>c'. fuse_add_dirent_to_cache env (rec_bytes (L ! i)) (de_off (L ! i)) (word_of_nat i) c = Done c' \<and> cache_ok L t v c' \<and> (times c = t \<longrightarrow> times c' = t)"
proof -
  let ?d = "L ! i"
  have d: "dirent_good ?d" using L(2) i by simp
  have lr: "length (rec_bytes ?d) = FUSE_DIRENT_SIZE ?d" using d by (simp add: length_rec_bytes dirent_good_def)
  from ok obtain m where m: "m \<le> length L" "cache_rep (pack (take m L)) c" "rdc_version c = v" by (auto simp: cache_ok_def cache_core_def)
  have good: "pages_good (pack (take k L))" for k using L(2) by (intro pack_good) (auto dest: in_set_takeD)
  note plan = plan_place[OF good d, of c m "word_of_nat i"]
  have plan: "cache_add_plan (length (rec_bytes ?d)) (word_of_nat i) c = (if rdc_cached c \<or> word_of_nat i \<noteq> rdc_pos c then None
    else Some (rdc_version c, rdc_size c, fst (add_place (pack (take m L)) ?d), snd (add_place (pack (take m L)) ?d)))"
    unfolding lr by (rule plan) (use m(2) in \<open>simp add: cache_rep_def\<close>)
  show ?thesis
  proof (cases "rdc_cached c \<or> word_of_nat i \<noteq> rdc_pos c")
    case True
    then show ?thesis using plan ok by (simp add: fuse_add_dirent_to_cache_def)
  next
    case False
    have rpos: "rdc_pos x = word_of_nat k" if "cache_rep (pack (take k L)) x" "k \<le> length L" for x k
      using that pos_after_listing[OF L(1), of k] by (simp add: cache_rep_def)
    have im: "i = m" using False rpos[OF m(2,1)] word_pos_inj[of i m] i m(1) L(3) by simp
    have tc: "times c = t"
    proof (cases "i = 0")
      case False
      then have "pack (take m L) \<noteq> []" using im i concat_pack[of "take m L"] by (metis concat.simps(1) gr_implies_not0 neq0_conv take_eq_Nil length_0_conv)
      then have "rdc_size c \<noteq> 0" using m(2) csize_0[OF good] by (simp add: cache_rep_def)
      then show ?thesis using ok by (simp add: cache_ok_def)
    qed (rule t)
    define c1 where "c1 = kd_between env c"
    have c1: "cache_core L v c1" "times c1 = t" using calm ok tc by (auto simp: calm_def cache_ok_def c1_def)
    then obtain m1 where m1: "m1 \<le> length L" "cache_rep (pack (take m1 L)) c1" "rdc_cached c1 \<longrightarrow> m1 = length L" "rdc_version c1 = v" by (auto simp: cache_core_def)
    obtain index offset where pl: "add_place (pack (take m L)) ?d = (index, offset)" by fastforce
    have run: "fuse_add_dirent_to_cache env (rec_bytes ?d) (de_off ?d) (word_of_nat i) c = (case cache_get_page env index offset c1 of None \<Rightarrow> Done c1
      | Some (page, c2) \<Rightarrow> cache_add_commit (rec_bytes ?d) (de_off ?d) (word_of_nat i) (rdc_version c, rdc_size c, index, offset) page c2)"
      unfolding fuse_add_dirent_to_cache_def plan if_not_P[OF False] pl c1_def by simp
    show ?thesis
    proof (cases "cache_get_page env index offset c1")
      case None
      then show ?thesis using run c1 by (simp add: cache_ok_def)
    next
      case (Some pc)
      obtain page c2 where pc: "cache_get_page env index offset c1 = Some (page, c2)" using Some by (cases pc) simp
      note r2 = rep_get_page[OF m1(2) pc]
      have core2: "cache_core L v c2" "times c2 = t" using m1 r2 c1 by (auto simp: cache_core_def)
      show ?thesis
      proof (cases "rdc_size c2 = rdc_size c \<and> rdc_pos c2 = word_of_nat i")
        case same: True
        have "m1 = m" using same rpos[OF r2(1) m1(1)] word_pos_inj[of m1 i] i m1(1) L(3) im by simp
        then have rep: "cache_rep (pack (take m L)) c2" using r2(1) by simp
        have nc: "\<not> rdc_cached c2" using m1(3) r2(6) \<open>m1 = m\<close> im i by simp
        have "rdc_version c2 = rdc_version c" using m(3) m1(4) r2(3) by simp
        with commit_rep[OF rep d pl, of page] r2(2) same obtain c' where
          c': "cache_add_commit (rec_bytes ?d) (de_off ?d) (word_of_nat i) (rdc_version c, rdc_size c, index, offset) page c2 = Done c'"
            "cache_rep (add_rec ?d (pack (take m L))) c'" "rdc_version c' = v" "rdc_cached c' = rdc_cached c2" "times c' = times c2"
          using m(3) by (auto simp: times_def)
        have "pack (take (Suc m) L) = add_rec ?d (pack (take m L))" using im i by (simp add: take_Suc_conv_app_nth)
        then have "cache_core L v c'" unfolding cache_core_def using c' nc im i by (intro conjI exI[of _ "Suc m"]) simp_all
        then show ?thesis using run pc c' core2(2) by (simp add: cache_ok_def)
      next
        case False
        then have "cache_add_commit (rec_bytes ?d) (de_off ?d) (word_of_nat i) (rdc_version c, rdc_size c, index, offset) page c2 = Done c2"
          by (auto simp: cache_add_commit_def)
        then show ?thesis using run pc core2 by (simp add: cache_ok_def)
      qed
    qed
  qed
qed


lemma adds_cache_ok:
  assumes L: "L = numbered 0 es" "\<forall>d\<in>set L. dirent_good d" "length L < 2 ^ 63" and calm: "calm L t v env"
  shows "cache_ok L t v c \<Longrightarrow> i + k \<le> length L \<Longrightarrow> (i = 0 \<Longrightarrow> times c = t) \<Longrightarrow>
    \<exists>c'. cache_adds env (word_of_nat i) (take k (drop i L)) c = Done c' \<and> cache_ok L t v c'"
proof (induction k arbitrary: i c)
  case (Suc k)
  have i: "i < length L" using Suc.prems(2) by simp
  from add_cache_ok[OF L Suc.prems(1) i Suc.prems(3) calm] obtain c1 where
    c1: "fuse_add_dirent_to_cache env (rec_bytes (L ! i)) (de_off (L ! i)) (word_of_nat i) c = Done c1" "cache_ok L t v c1" by blast
  have off: "de_off (L ! i) = word_of_nat (i + 1)" using numbered_nth[of i es 0] i L(1) by simp
  have "take (Suc k) (drop i L) = L ! i # take k (drop (i + 1) L)" using i by (metis Cons_nth_drop_Suc Suc_eq_plus1 take_Suc_Cons)
  moreover from Suc.IH[OF c1(2), of "i + 1"] Suc.prems(2) obtain c' where "cache_adds env (word_of_nat (i + 1)) (take k (drop (i + 1) L)) c1 = Done c'" "cache_ok L t v c'" by auto
  ultimately show ?case using c1(1) off by simp
qed simp

lemma tried_prefix: "\<exists>k. tried env out ds = take k ds"
proof (induction env out ds rule: tried.induct)
  case (2 env out d ds)
  then obtain k where "kd_accept env out (dirent_info d) \<Longrightarrow> tried env (out @ [dirent_info d]) ds = take k ds" by blast
  then show ?case by (cases "kd_accept env out (dirent_info d)") (auto intro: exI[of _ "Suc k"] exI[of _ 1])
qed simp

lemma take_length_min: "take n xs = take (min n (length xs)) xs"
  by (cases "n \<le> length xs") (simp_all add: min_def)

lemma prefix_le: "\<exists>k. xs = take k ys \<Longrightarrow> \<exists>k\<le>length ys. xs = take k ys"
  by (metis le_cases order_refl take_all)

lemma align_ge: "0 < P \<Longrightarrow> x \<le> (x + P - 1) div P * (P :: nat)"
proof -
  assume P: "0 < P"
  have "x + P - 1 < P + (x + P - 1) div P * P" by (rule dividend_less_div_times[OF P])
  then show ?thesis using P by linarith
qed

lemma align_eq:
  assumes "n * P < x" and "x \<le> n * P + P"
  shows "(x + P - 1) div P * P = (n + 1) * (P :: nat)"
proof -
  obtain k where k: "x = n * P + k" "0 < k" "k \<le> P" using assms by (metis add_le_cancel_left less_imp_add_positive)
  have "P \<noteq> 0" "(k - 1) div P = 0" using k by simp_all
  then have "((k - 1) + (n + 1) * P) div P = n + 1" using div_mult_self1[of P "k - 1" "n + 1"] by simp
  moreover have "x + P - 1 = (k - 1) + (n + 1) * P" using k by simp
  ultimately show ?thesis by (simp only:)
qed

text \<open>At the end of the directory the cache is complete.\<close>

lemma cache_end_ok:
  assumes L: "L = numbered 0 es" "\<forall>d\<in>set L. dirent_good d" "length L < 2 ^ 63" and ok: "cache_ok L t v c" and t: "L = [] \<Longrightarrow> times c = t"
  shows "cache_ok L t v (fuse_readdir_cache_end (word_of_nat (length L)) c)"
proof -
  from ok obtain m where m: "m \<le> length L" "cache_rep (pack (take m L)) c" "rdc_cached c \<longrightarrow> m = length L" "rdc_version c = v" by (auto simp: cache_ok_def cache_core_def)
  have good: "pages_good (pack (take m L))" using L(2) by (intro pack_good) (auto dest: in_set_takeD)
  have rpos: "rdc_pos c = word_of_nat m" using m(1,2) pos_after_listing[OF L(1), of m] by (simp add: cache_rep_def)
  show ?thesis
  proof (cases "m = length L")
    case False
    then have "rdc_pos c \<noteq> word_of_nat (length L)" using rpos word_pos_inj[of m "length L"] m(1) L(3) by simp
    then show ?thesis using ok by (simp add: fuse_readdir_cache_end_def)
  next
    case True
    let ?pss = "pack L" and ?stop = "(rdc_size c + PAGE_SIZE - 1) div PAGE_SIZE * PAGE_SIZE"
    have g: "pages_good ?pss" and rep: "cache_rep ?pss c" using good m(2) True by simp_all
    have sz: "rdc_size c = csize ?pss" using rep by (simp add: cache_rep_def)
    have "\<not> ?stop \<le> i * PAGE_SIZE" if "i < length ?pss" for i
    proof -
      have ne: "?pss \<noteq> []" using that by auto
      have "i \<le> length ?pss - 1" using that by simp
      then have "i * PAGE_SIZE \<le> (length ?pss - 1) * PAGE_SIZE" by (rule mult_le_mono1)
      also have "\<dots> < (length ?pss - 1) * PAGE_SIZE + plen (last ?pss)" using csize_cases(1)[OF g ne] by simp
      also have "\<dots> = rdc_size c" unfolding sz csize_def using ne by (simp only: if_False)
      finally have "i * PAGE_SIZE < rdc_size c" .
      moreover have "rdc_size c \<le> ?stop" by (rule align_ge) (simp add: PAGE_SIZE_def)
      ultimately show ?thesis using order_less_le_trans not_le by blast
    qed
    then have "cache_rep ?pss (fuse_readdir_cache_end (word_of_nat (length L)) c)" using rep by (simp add: cache_rep_def fuse_readdir_cache_end_def Let_def)
    then have "cache_core L v (fuse_readdir_cache_end (word_of_nat (length L)) c)"
      using m(4) by (auto simp: cache_core_def fuse_readdir_cache_end_def Let_def intro!: exI[of _ "length L"])
    moreover have "times c = t"
    proof (cases "L = []")
      case False
      then have "?pss \<noteq> []" using concat_pack[of L] by (metis concat.simps(1))
      then have "rdc_size c \<noteq> 0" using sz csize_0[OF g] by simp
      then show ?thesis using ok by (simp add: cache_ok_def)
    qed (rule t)
    moreover have "times (fuse_readdir_cache_end (word_of_nat (length L)) c) = times c" by (simp add: times_def fuse_readdir_cache_end_def Let_def)
    ultimately show ?thesis by (simp add: cache_ok_def)
  qed
qed


subsection \<open>What reading the cache gives\<close>

text \<open>The loop of \<open>fuse_parse_cache\<close> on a list of entries.\<close>

definition pass :: "fuse_dirent \<Rightarrow> dir_state \<Rightarrow> dir_state" where
  "pass d st = st\<lparr>ff_pos := de_off d, ff_cache_off := ff_cache_off st + FUSE_DIRENT_SIZE d\<rparr>"

fun scan :: "readdir_env \<Rightarrow> fuse_dirent list \<Rightarrow> fuse_parse_result \<Rightarrow> dir_state \<Rightarrow> fuse_parse_result \<times> dir_state" where
  "scan env [] res st = (res, st)"
| "scan env (d # ds) res st =
     (if ff_pos st = ctx_pos st
      then (if kd_accept env (ctx_out st) (dirent_info d)
            then scan env ds FOUND_SOME (pass d (st\<lparr>ctx_out := ctx_out st @ [dirent_info d], ctx_pos := de_off d\<rparr>))
            else (FOUND_ALL, st))
      else scan env ds res (pass d st))"

lemma le_val_zeros: "le_val (replicate n 0) = 0"
  by (induction n) auto

lemma dirent_of_zeros: "24 \<le> n \<Longrightarrow> de_namelen (dirent_of (replicate n 0)) = 0"
  by (simp add: dirent_of_def Let_def le_val_zeros)

lemma parse_cache_scan:
  assumes "\<forall>d\<in>set ds. dirent_good d" and "length pre + plen ds \<le> sz" and "sz \<le> length pre + plen ds + n"
  shows "parse_cache_loop env (pre @ concat (map rec_bytes ds) @ replicate n 0) sz (length pre) res st = Done (scan env ds res st)"
  using assms
proof (induction ds arbitrary: pre res st)
  case Nil
  show ?case
  proof (cases "sz - length pre < 24")
    case True
    then show ?thesis using Nil by (subst parse_cache_loop.simps) (simp add: FUSE_NAME_OFFSET_def)
  next
    case False
    then have "24 \<le> n" using Nil by simp
    then show ?thesis using Nil False by (subst parse_cache_loop.simps) (simp add: FUSE_NAME_OFFSET_def dirent_of_zeros)
  qed
next
  case (Cons d ds)
  let ?s = "FUSE_DIRENT_SIZE d" and ?rest = "concat (map rec_bytes ds) @ replicate n 0"
  have g: "dirent_good d" "dirent_ok d" and gs: "\<forall>d\<in>set ds. dirent_good d" using Cons.prems(1) by (simp_all add: dirent_good_def)
  have len: "length (rec_bytes d) = ?s" "24 \<le> ?s" using length_rec_bytes[OF g(2)] dirent_size_bounds[OF g(2)] by simp_all
  have nl: "de_namelen d \<noteq> 0" "unat (de_namelen d) \<le> FUSE_NAME_MAX" "0x2F \<notin> set (de_name d)" using g by (auto simp: dirent_good_def dirent_ok_def)
  have of: "dirent_of (rec_bytes d @ ?rest) = d" by (rule dirent_of_rec[OF g(2)])
  have p: "length pre + (?s + plen ds) \<le> sz" "sz \<le> length pre + (?s + plen ds) + n" using Cons.prems(2,3) g(1) by simp_all
  have IH: "parse_cache_loop env (pre @ rec_bytes d @ ?rest) sz (length pre + ?s) res st = Done (scan env ds res st)" for res st
    using Cons.IH[OF gs, of "pre @ rec_bytes d" res st] p len(1) by simp
  have step: "parse_cache_loop env (pre @ rec_bytes d @ ?rest) sz (length pre) res st =
    (if ff_pos st = ctx_pos st
     then (case dir_emit env d st of (emitted, st1) \<Rightarrow> if \<not> emitted then Done (FOUND_ALL, st1)
             else parse_cache_loop env (pre @ rec_bytes d @ ?rest) sz (length pre + ?s) FOUND_SOME
               (st1\<lparr>ctx_pos := de_off d, ff_pos := de_off d, ff_cache_off := ff_cache_off st1 + ?s\<rparr>))
     else parse_cache_loop env (pre @ rec_bytes d @ ?rest) sz (length pre + ?s) res (st\<lparr>ff_pos := de_off d, ff_cache_off := ff_cache_off st + ?s\<rparr>))"
  proof -
    have "\<not> sz < length pre" "\<not> sz - length pre < 24" "\<not> sz - length pre < ?s" using p len(2) by linarith+
    then show ?thesis using len nl by (subst parse_cache_loop.simps) (simp add: of Let_def FUSE_NAME_OFFSET_def)
  qed
  show ?case using step unfolding IH by (simp add: dir_emit_def pass_def)
qed

text \<open>From the position of the file on, the caller gets the entries; before it they are passed over.\<close>

lemma scan_found:
  fixes env :: readdir_env
  assumes "\<forall>d\<in>set ds. dirent_good d" and "ff_pos st = ctx_pos st"
  defines "tk \<equiv> taken env (ctx_out st) ds"
  shows "scan env ds res st = (if tk \<noteq> ds then FOUND_ALL else if ds = [] then res else FOUND_SOME,
    st\<lparr>ctx_out := ctx_out st @ map dirent_info tk, ctx_pos := pos_after (ctx_pos st) tk, ff_pos := pos_after (ctx_pos st) tk,
       ff_cache_off := ff_cache_off st + plen tk\<rparr>)"
  using assms(1,2) unfolding tk_def
proof (induction ds arbitrary: st res)
  case (Cons d ds)
  have g: "dirent_good d" "\<forall>d\<in>set ds. dirent_good d" using Cons.prems(1) by simp_all
  show ?case
  proof (cases "kd_accept env (ctx_out st) (dirent_info d)")
    case True
    let ?st = "pass d (st\<lparr>ctx_out := ctx_out st @ [dirent_info d], ctx_pos := de_off d\<rparr>)"
    have e: "ff_pos ?st = ctx_pos ?st" by (simp add: pass_def)
    show ?thesis using True Cons.prems(2) Cons.IH[OF g(2) e, of FOUND_SOME] g(1) by (auto simp: pass_def)
  next
    case False
    then show ?thesis using Cons.prems(2) by simp
  qed
qed simp

lemma scan_passed:
  assumes "\<forall>d\<in>set ds. dirent_good d" and "ff_pos st \<noteq> ctx_pos st" and "\<forall>d\<in>set (butlast ds). de_off d \<noteq> ctx_pos st"
  shows "scan env (ds @ ds') res st = (if ds = [] then scan env ds' res st
    else scan env ds' res (st\<lparr>ff_pos := de_off (last ds), ff_cache_off := ff_cache_off st + plen ds\<rparr>))"
  using assms
proof (induction ds arbitrary: st)
  case (Cons d ds)
  have g: "dirent_good d" "\<forall>d\<in>set ds. dirent_good d" using Cons.prems(1) by simp_all
  show ?case
  proof (cases "ds = []")
    case True
    then show ?thesis using Cons.prems(2) g(1) by (simp add: pass_def)
  next
    case False
    have p: "ff_pos (pass d st) \<noteq> ctx_pos (pass d st)" "\<forall>d\<in>set (butlast ds). de_off d \<noteq> ctx_pos (pass d st)"
      using Cons.prems(3) False by (simp_all add: pass_def)
    show ?thesis using Cons.prems(2) False g p Cons.IH[of "pass d st"] by (simp add: pass_def add.assoc)
  qed
qed simp


lemma taken_append: "taken env out (ds @ ds') = (if taken env out ds = ds then ds @ taken env (out @ map dirent_info ds) ds' else taken env out ds)"
  by (induction env out ds rule: taken.induct) auto

lemma pos_after_listing_from:
  "L = numbered 0 es \<Longrightarrow> i + k \<le> length L \<Longrightarrow> pos_after (word_of_nat i) (take k (drop i L)) = word_of_nat (i + k)"
  using pos_after_numbered[of i k es] by simp

text \<open>A page whose entries are the \<open>k\<close>th to the \<open>k1\<close>th of the listing.\<close>

lemma scan_page_before:
  assumes L: "L = numbered 0 es" "\<forall>d\<in>set L. dirent_good d" "length L < 2 ^ 63"
    and k: "k \<le> k1" "k1 \<le> p" "p \<le> length L" and st: "ff_pos st = word_of_nat k" "ctx_pos st = word_of_nat p"
  defines "ds \<equiv> take (k1 - k) (drop k L)"
  shows "scan env ds FOUND_NONE st = (FOUND_NONE, st\<lparr>ff_pos := word_of_nat k1, ff_cache_off := ff_cache_off st + plen ds\<rparr>)"
proof (cases "k = k1")
  case True
  then show ?thesis using st(1) by (simp add: ds_def)
next
  case False
  have len: "length ds = k1 - k" using k by (simp add: ds_def)
  have nth: "ds ! x = L ! (k + x)" if "x < k1 - k" for x using that k by (simp add: ds_def)
  have off: "de_off (L ! x) = word_of_nat (x + 1)" if "x < length L" for x using numbered_nth[of x es 0] that L(1) by simp
  have g: "\<forall>d\<in>set ds. dirent_good d" using L(2) by (auto simp: ds_def dest: in_set_takeD in_set_dropD)
  have ne: "ff_pos st \<noteq> ctx_pos st" using st word_pos_inj[of k p] k False L(3) by simp
  have bl: "\<forall>d\<in>set (butlast ds). de_off d \<noteq> ctx_pos st"
  proof
    fix d assume "d \<in> set (butlast ds)"
    then obtain x where x: "x < k1 - k - 1" "d = ds ! x" unfolding in_set_conv_nth using len by (auto simp: nth_butlast)
    then have "de_off d = word_of_nat (k + x + 1)" using nth[of x] off[of "k + x"] k by simp
    moreover have "k + x + 1 < 2 ^ 63" "p < 2 ^ 63" "k + x + 1 \<noteq> p" using x k L(3) by simp_all
    ultimately show "de_off d \<noteq> ctx_pos st" using st(2) word_pos_inj[of "k + x + 1" p] by simp
  qed
  have nd: "ds \<noteq> []" using len k False by auto
  then have "last ds = L ! (k1 - 1)" using len nth[of "k1 - k - 1"] k False by (simp add: last_conv_nth)
  then have "de_off (last ds) = word_of_nat k1" using off[of "k1 - 1"] k False by simp
  then show ?thesis using scan_passed[OF g ne bl, of env "[]" FOUND_NONE] nd by simp
qed

lemma scan_append_none: "scan env ds FOUND_NONE st = (FOUND_NONE, st') \<Longrightarrow> scan env (ds @ ds') FOUND_NONE st = scan env ds' FOUND_NONE st'"
proof -
  have ns: "fst (scan env ds FOUND_SOME st) \<noteq> FOUND_NONE" for ds st by (induction ds arbitrary: st) auto
  show "scan env ds FOUND_NONE st = (FOUND_NONE, st') \<Longrightarrow> ?thesis"
  proof (induction ds arbitrary: st)
    case (Cons d ds)
    then show ?case using ns[of ds] by (auto split: if_splits) (metis fst_conv)
  qed simp
qed

lemma scan_page_from:
  assumes L: "L = numbered 0 es" "\<forall>d\<in>set L. dirent_good d" "length L < 2 ^ 63"
    and k: "k \<le> p" "p < k1" "k1 \<le> length L" and st: "ff_pos st = word_of_nat k" "ctx_pos st = word_of_nat p"
  defines "rest \<equiv> take (k1 - p) (drop p L)"
  shows "\<exists>q. taken env (ctx_out st) rest = take q rest \<and> q \<le> k1 - p \<and>
    scan env (take (k1 - k) (drop k L)) FOUND_NONE st = (if q < k1 - p then FOUND_ALL else FOUND_SOME,
      st\<lparr>ctx_out := ctx_out st @ map dirent_info (take q rest), ctx_pos := word_of_nat (p + q), ff_pos := word_of_nat (p + q),
         ff_cache_off := ff_cache_off st + plen (take (p + q - k) (drop k L))\<rparr>)"
proof -
  let ?skip = "take (p - k) (drop k L)"
  have split: "take (k1 - k) (drop k L) = ?skip @ rest"
  proof -
    have "take (k1 - k) (drop k L) = take (p - k) (take (k1 - k) (drop k L)) @ drop (p - k) (take (k1 - k) (drop k L))" by (rule append_take_drop_id[symmetric])
    then show ?thesis using k by (simp add: rest_def drop_take del: append_take_drop_id)
  qed
  have gr: "\<forall>d\<in>set rest. dirent_good d" using L(2) by (auto simp: rest_def dest: in_set_takeD in_set_dropD)
  have lr: "length rest = k1 - p" using k by (simp add: rest_def)
  obtain q where q: "taken env (ctx_out st) rest = take q rest" "q \<le> k1 - p" using prefix_le[OF taken_prefix[of env "ctx_out st" rest]] lr by auto
  have "k \<le> p" "p \<le> p" "p \<le> length L" using k by simp_all
  then have "scan env ?skip FOUND_NONE st = (FOUND_NONE, st\<lparr>ff_pos := word_of_nat p, ff_cache_off := ff_cache_off st + plen ?skip\<rparr>)"
    by (rule scan_page_before[OF L _ _ _ st])
  from scan_append_none[OF this, of rest]
  have s: "scan env (take (k1 - k) (drop k L)) FOUND_NONE st = scan env rest FOUND_NONE (st\<lparr>ff_pos := word_of_nat p, ff_cache_off := ff_cache_off st + plen ?skip\<rparr>)"
    unfolding split .
  have tq: "take q rest = take q (drop p L)" using q(2) by (simp add: rest_def)
  have pa: "pos_after (word_of_nat p) (take q rest) = word_of_nat (p + q)" unfolding tq by (rule pos_after_listing_from[OF L(1)]) (use q k in simp)
  have pl: "plen ?skip + plen (take q rest) = plen (take (p + q - k) (drop k L))"
  proof -
    have e: "p + q - k = p - k + q" "drop (p - k) (drop k L) = drop p L" using k by simp_all
    have "take (p + q - k) (drop k L) = ?skip @ take q rest" unfolding tq e(1) take_add e(2) ..
    then show ?thesis by simp
  qed
  have eq: "take q rest \<noteq> rest \<longleftrightarrow> q < k1 - p" using q(2) lr by (metis length_take min.absorb2 not_less order_less_irrefl take_all)
  have ne: "rest \<noteq> []" using lr k by auto
  have "scan env rest FOUND_NONE (st\<lparr>ff_pos := word_of_nat p, ff_cache_off := ff_cache_off st + plen ?skip\<rparr>) =
    (if q < k1 - p then FOUND_ALL else FOUND_SOME, st\<lparr>ctx_out := ctx_out st @ map dirent_info (take q rest), ctx_pos := word_of_nat (p + q), ff_pos := word_of_nat (p + q),
         ff_cache_off := ff_cache_off st + plen (take (p + q - k) (drop k L))\<rparr>)"
  proof -
    let ?st = "st\<lparr>ff_pos := word_of_nat p, ff_cache_off := ff_cache_off st + plen ?skip\<rparr>"
    have e: "ff_pos ?st = ctx_pos ?st" using st(2) by simp
    have o: "ctx_out ?st = ctx_out st" "ctx_pos ?st = word_of_nat p" "ff_cache_off ?st = ff_cache_off st + plen ?skip" using st(2) by simp_all
    show ?thesis unfolding scan_found[OF gr e] o q(1) eq pa add.assoc pl if_not_P[OF ne] by simp
  qed
  then show ?thesis unfolding s using q by (intro exI[of _ q] conjI)
qed


text \<open>The place in the cache that a reader has reached after \<open>k\<close> entries.\<close>

definition cursor :: "fuse_dirent list list \<Rightarrow> nat \<Rightarrow> nat \<Rightarrow> bool" where
  "cursor pss k off \<longleftrightarrow>
     (\<exists>i j. i < length pss \<and> j \<le> length (pss ! i) \<and> plen (take j (pss ! i)) < PAGE_SIZE \<and> off = i * PAGE_SIZE + plen (take j (pss ! i)) \<and>
        k = length (concat (take i pss)) + j) \<or>
     (off = length pss * PAGE_SIZE \<and> k = length (concat pss) \<and> (pss = [] \<or> plen (last pss) = PAGE_SIZE))"

lemma cached_loop_step:
  assumes "rdc st = c" and "rdc_cached c" and "ff_version st = rdc_version c" and "times c = (i_mtime st, i_version st)"
  defines "index \<equiv> ff_cache_off st div PAGE_SIZE"
  defines "sz \<equiv> (if index = rdc_size c div PAGE_SIZE then rdc_size c mod PAGE_SIZE else PAGE_SIZE)"
  shows "ff_cache_off st mod PAGE_SIZE = sz \<Longrightarrow> readdir_cached_loop env st = Some (Done (0, st))"
    and "ff_cache_off st mod PAGE_SIZE \<noteq> sz \<Longrightarrow> rdc_pages c index = Some page \<Longrightarrow> readdir_cached_loop env st =
      (case fuse_parse_cache env page sz st of
         Aborted \<Rightarrow> Some Aborted
       | Done (res, st3) \<Rightarrow>
           if res = FOUND_ERR then Some (Done (- EIO, st3))
           else if res = FOUND_ALL then Some (Done (0, st3))
           else if sz = PAGE_SIZE
           then readdir_cached_loop env (st3\<lparr>ff_cache_off := (ff_cache_off st3 + PAGE_SIZE - 1) div PAGE_SIZE * PAGE_SIZE\<rparr>)
           else Some (Done (if res = FOUND_SOME then 0 else UNCACHED, st3)))"
proof -
  have t: "i_version st = rdc_iversion c" "rdc_mtime c = i_mtime st" using assms(4) by (simp_all add: times_def)
  have i: "(if ff_pos st = 0 then st\<lparr>ff_version := rdc_version c\<rparr> else st) = st" using assms(3) by (metis (full_types) dir_state.surjective dir_state.update_convs(9))
  show "readdir_cached_loop env st = Some (Done (0, st))" if "ff_cache_off st mod PAGE_SIZE = sz"
    using that t assms(1-3) by (subst readdir_cached_loop.simps) (simp add: Let_def i sz_def index_def)
  show "readdir_cached_loop env st =
      (case fuse_parse_cache env page sz st of
         Aborted \<Rightarrow> Some Aborted
       | Done (res, st3) \<Rightarrow>
           if res = FOUND_ERR then Some (Done (- EIO, st3))
           else if res = FOUND_ALL then Some (Done (0, st3))
           else if sz = PAGE_SIZE
           then readdir_cached_loop env (st3\<lparr>ff_cache_off := (ff_cache_off st3 + PAGE_SIZE - 1) div PAGE_SIZE * PAGE_SIZE\<rparr>)
           else Some (Done (if res = FOUND_SOME then 0 else UNCACHED, st3)))"
    if "ff_cache_off st mod PAGE_SIZE \<noteq> sz" "rdc_pages c index = Some page"
  proof (cases "index = rdc_size c div PAGE_SIZE")
    case True
    then have s: "sz = rdc_size c mod PAGE_SIZE" by (simp add: sz_def)
    then show ?thesis unfolding s using that[unfolded s] t True assms(1-3) by (subst readdir_cached_loop.simps) (simp add: Let_def i index_def[symmetric] cong: if_cong)
  next
    case False
    then have s: "sz = PAGE_SIZE" by (simp add: sz_def)
    then show ?thesis unfolding s using that[unfolded s] t False assms(1-3) by (subst readdir_cached_loop.simps) (simp add: Let_def i index_def[symmetric] cong: if_cong)
  qed
qed


lemma nth_page:
  assumes "i < length pss" and "j \<le> length (pss ! i)"
  shows "drop j (pss ! i) = take (length (pss ! i) - j) (drop (length (concat (take i pss)) + j) (concat pss))"
proof -
  have "concat pss = concat (take i pss) @ pss ! i @ concat (drop (Suc i) pss)"
    using id_take_nth_drop[OF assms(1)] by (metis concat.simps(2) concat_append)
  then show ?thesis using assms(2) by (simp add: add.commute)
qed

lemma parse_page:
  assumes g: "pages_good pss" and i: "i < length pss" and j: "j \<le> length (pss ! i)"
    and sz: "plen (pss ! i) \<le> sz" "sz \<le> PAGE_SIZE" and off: "ff_cache_off st mod PAGE_SIZE = plen (take j (pss ! i))"
  shows "fuse_parse_cache env (page_of (pss ! i)) sz st = Done (scan env (drop j (pss ! i)) FOUND_NONE st)"
proof -
  let ?ds = "pss ! i"
  have ds: "\<forall>d\<in>set ?ds. dirent_good d" "plen ?ds \<le> PAGE_SIZE" using g i by (auto simp: pages_good_def)
  have pl: "plen (take j ?ds) + plen (drop j ?ds) = plen ?ds" using rec_len_simps(2)[of "take j ?ds" "drop j ?ds"] by simp
  have pg: "page_of ?ds = concat (map rec_bytes (take j ?ds)) @ concat (map rec_bytes (drop j ?ds)) @ replicate (PAGE_SIZE - plen ?ds) 0"
    unfolding page_of_def by (metis append.assoc append_take_drop_id concat_append map_append)
  have "\<forall>d\<in>set (drop j ?ds). dirent_good d" using ds(1) by (auto dest: in_set_dropD)
  from parse_cache_scan[OF this, of "concat (map rec_bytes (take j ?ds))" sz "PAGE_SIZE - plen ?ds"] show ?thesis
    unfolding fuse_parse_cache_def off pg using pl sz ds(2) by (simp add: plen_def[symmetric])
qed

text \<open>The size the code takes for a page: the end of the entries on the last page when it is not full.\<close>

lemma page_size_at:
  assumes g: "pages_good pss" and i: "i < length pss"
  shows "(if i = csize pss div PAGE_SIZE then csize pss mod PAGE_SIZE else PAGE_SIZE) =
    (if Suc i = length pss \<and> plen (pss ! i) < PAGE_SIZE then plen (pss ! i) else PAGE_SIZE)"
proof -
  have ne: "pss \<noteq> []" using i by auto
  note cs = csize_cases[OF g ne]
  have l: "last pss = pss ! (length pss - 1)" using ne by (simp add: last_conv_nth)
  show ?thesis
  proof (cases "plen (last pss) < PAGE_SIZE")
    case True
    note c = cs(3)[OF True]
    show ?thesis
    proof (cases "Suc i = length pss")
      case s: True
      then have "i = length pss - 1" by simp
      then show ?thesis using c s True l by simp
    qed (use c i in auto)
  next
    case False
    then have "plen (last pss) = PAGE_SIZE" using cs(2) by simp
    from cs(4)[OF this] show ?thesis using i False l by (cases "Suc i = length pss") (auto simp: Suc_eq_plus1[symmetric] dest: arg_cong[of _ _ "\<lambda>x. x - 1"])
  qed
qed

lemma cursor_mid:
  "i < length pss \<Longrightarrow> j \<le> length (pss ! i) \<Longrightarrow> plen (take j (pss ! i)) < PAGE_SIZE \<Longrightarrow>
   cursor pss (length (concat (take i pss)) + j) (i * PAGE_SIZE + plen (take j (pss ! i)))"
  unfolding cursor_def by blast

lemma length_concat_Suc: "i < length pss \<Longrightarrow> length (concat (take (Suc i) pss)) = length (concat (take i pss)) + length (pss ! i)"
  by (simp add: take_Suc_conv_app_nth)

lemma cursor_next:
  assumes "i < length pss" and "Suc i = length pss \<longrightarrow> plen (pss ! i) = PAGE_SIZE"
  shows "cursor pss (length (concat (take (Suc i) pss))) (Suc i * PAGE_SIZE)"
proof (cases "Suc i < length pss")
  case True
  then show ?thesis using cursor_mid[of "Suc i" pss 0] by (simp add: PAGE_SIZE_def)
next
  case False
  then have s: "Suc i = length pss" using assms(1) by simp
  then have "i = length pss - 1" "pss \<noteq> []" by auto
  then show ?thesis using assms s by (simp add: cursor_def last_conv_nth)
qed

lemma plen_take_le: "plen (take j ds) + plen (drop j ds) = plen ds"
  using rec_len_simps(2)[of "take j ds" "drop j ds"] by simp

lemma plen_take_less:
  assumes "\<forall>d\<in>set ds. dirent_good d" and "j < length ds"
  shows "plen (take j ds) < plen ds"
proof -
  have "drop j ds \<noteq> []" "\<forall>d\<in>set (drop j ds). dirent_good d" using assms by (auto dest: in_set_dropD)
  from plen_pos[OF this] show ?thesis using plen_take_le[of j ds] by simp
qed


text \<open>Where a call that reads from the cache ends up.\<close>

definition read_to :: "fuse_dirent list \<Rightarrow> nat \<Rightarrow> nat \<Rightarrow> nat \<Rightarrow> dir_state \<Rightarrow> dir_state" where
  "read_to L p q off st = st\<lparr>ctx_out := ctx_out st @ map dirent_info (take q (drop p L)),
     ctx_pos := word_of_nat (p + q), ff_pos := word_of_nat (p + q), ff_cache_off := off\<rparr>"

definition read_result :: "readdir_env \<Rightarrow> fuse_dirent list \<Rightarrow> fuse_dirent list list \<Rightarrow> nat \<Rightarrow> dir_state \<Rightarrow> bool" where
  "read_result env L pss p st \<longleftrightarrow> (\<exists>r q off. readdir_cached_loop env st = Some (Done (r, read_to L p q off st)) \<and>
     taken env (ctx_out st) (drop p L) = take q (drop p L) \<and> p + q \<le> length L \<and> cursor pss (p + q) off \<and> (r = 0 \<or> r = UNCACHED \<and> p = length L \<and> plen (last pss) < PAGE_SIZE))"

lemma read_resultI:
  "readdir_cached_loop env st = Some (Done (r, read_to L p q off st)) \<Longrightarrow> taken env (ctx_out st) (drop p L) = take q (drop p L) \<Longrightarrow>
   p + q \<le> length L \<Longrightarrow> cursor pss (p + q) off \<Longrightarrow> r = 0 \<or> r = UNCACHED \<and> p = length L \<and> plen (last pss) < PAGE_SIZE \<Longrightarrow> read_result env L pss p st"
  unfolding read_result_def by blast

lemma read_to_0: "ctx_pos st = word_of_nat p \<Longrightarrow> read_to L p 0 off st = st\<lparr>ff_pos := word_of_nat p, ff_cache_off := off\<rparr>"
  by (cases st) (simp add: read_to_def)

text \<open>A page with the entries from \<open>k\<close> to \<open>k1\<close>, in the middle of the cache or at its end.\<close>

lemma read_page:
  assumes L: "L = numbered 0 es" "\<forall>d\<in>set L. dirent_good d" "length L < 2 ^ 63" and g: "pages_good pss" and con: "concat pss = L"
    and i: "i < length pss" and j: "j \<le> length (pss ! i)" "plen (take j (pss ! i)) < PAGE_SIZE"
    and k: "k = length (concat (take i pss)) + j" "k1 = length (concat (take (Suc i) pss))" "k \<le> p" "p \<le> length L"
    and st: "ff_pos st = word_of_nat k" "ctx_pos st = word_of_nat p" "ff_cache_off st = i * PAGE_SIZE + plen (take j (pss ! i))"
    and lp: "lp \<longleftrightarrow> Suc i = length pss \<and> plen (pss ! i) < PAGE_SIZE"
    and step: "readdir_cached_loop env st = (case Done (scan env (drop j (pss ! i)) FOUND_NONE st) of
         Aborted \<Rightarrow> Some Aborted
       | Done (res, st3) \<Rightarrow>
           if res = FOUND_ERR then Some (Done (- EIO, st3))
           else if res = FOUND_ALL then Some (Done (0, st3))
           else if \<not> lp
           then readdir_cached_loop env (st3\<lparr>ff_cache_off := (ff_cache_off st3 + PAGE_SIZE - 1) div PAGE_SIZE * PAGE_SIZE\<rparr>)
           else Some (Done (if res = FOUND_SOME then 0 else UNCACHED, st3)))"
    and rec: "\<And>st k p. \<not> lp \<Longrightarrow> rdc st = rdc st0 \<Longrightarrow> ff_version st = ff_version st0 \<Longrightarrow> i_mtime st = i_mtime st0 \<Longrightarrow> i_version st = i_version st0 \<Longrightarrow>
      ff_cache_off st = Suc i * PAGE_SIZE \<Longrightarrow> cursor pss k (ff_cache_off st) \<Longrightarrow> ff_pos st = word_of_nat k \<Longrightarrow> ctx_pos st = word_of_nat p \<Longrightarrow> k \<le> p \<Longrightarrow> p \<le> length L \<Longrightarrow>
      read_result env L pss p st" and st0: "st0 = st"
  shows "read_result env L pss p st"
proof -
  let ?ds = "pss ! i"
  have ds: "\<forall>d\<in>set ?ds. dirent_good d" "?ds \<noteq> []" "plen ?ds \<le> PAGE_SIZE" using g i by (auto simp: pages_good_def)
  have k1: "k1 = k + (length ?ds - j)" using k(1,2) length_concat_Suc[OF i] j by simp
  have k1L: "k1 \<le> length L" "lp \<Longrightarrow> k1 = length L" "k1 = length L \<Longrightarrow> Suc i = length pss"
  proof -
    have "concat pss = concat (take (Suc i) pss) @ concat (drop (Suc i) pss)" by (metis append_take_drop_id concat_append)
    then have c: "length L = k1 + length (concat (drop (Suc i) pss))" using con k(2) by simp
    then show "k1 \<le> length L" by simp
    show "k1 = length L" if lp using c that lp by simp
    show "Suc i = length pss" if "k1 = length L"
    proof (rule ccontr)
      assume "Suc i \<noteq> length pss"
      then have "drop (Suc i) pss \<noteq> []" "set (drop (Suc i) pss) \<subseteq> set pss" using i by (auto dest: in_set_dropD)
      then have "concat (drop (Suc i) pss) \<noteq> []" using g unfolding pages_good_def by (metis concat_eq_Nil_conv list.set_sel(1) subset_iff)
      then show False using c that by simp
    qed
  qed
  have dr: "drop j ?ds = take (k1 - k) (drop k L)" using nth_page[OF i j(1)] k(1) k1 con by simp
  have pl: "plen (take j ?ds) + plen (drop j ?ds) = plen ?ds" by (rule plen_take_le)
  have pp: "0 < plen ?ds" by (rule plen_pos[OF ds(2,1)])
  have al: "(i * PAGE_SIZE + plen ?ds + PAGE_SIZE - 1) div PAGE_SIZE * PAGE_SIZE = Suc i * PAGE_SIZE"
    using align_eq[of i PAGE_SIZE "i * PAGE_SIZE + plen ?ds"] pp ds(3) by simp
  have cend: "cursor pss k1 (i * PAGE_SIZE + plen ?ds)" if lp
    using cursor_mid[OF i, of "length ?ds"] that lp k(2) length_concat_Suc[OF i] by simp
  have cnext: "cursor pss k1 (Suc i * PAGE_SIZE)" if "\<not> lp" unfolding k(2) by (rule cursor_next[OF i]) (use that lp ds(3) in auto)
  show ?thesis
  proof (cases "k1 \<le> p")
    case True
    have kk: "k \<le> k1" using k1 by simp
    let ?st = "st\<lparr>ff_pos := word_of_nat k1, ff_cache_off := i * PAGE_SIZE + plen ?ds\<rparr>"
    have sc: "scan env (drop j ?ds) FOUND_NONE st = (FOUND_NONE, ?st)"
      unfolding dr by (subst scan_page_before[OF L kk True k(4) st(1,2)]) (use dr pl st(3) in \<open>simp add: add.assoc\<close>)
    show ?thesis
    proof (cases lp)
      case l: True
      then have p: "p = k1" "p = length L" using True k(4) k1L(2) by simp_all
      have "readdir_cached_loop env st = Some (Done (UNCACHED, read_to L p 0 (i * PAGE_SIZE + plen ?ds) st))"
        unfolding step sc read_to_0[OF st(2)] using l p by simp
      moreover have "plen (last pss) < PAGE_SIZE" using l lp i by (metis Suc_eq_plus1 diff_add_inverse2 last_conv_nth list.size(3) not_less_zero)
      ultimately show ?thesis using p cend[OF l] by (intro read_resultI[of env st UNCACHED L p 0 "i * PAGE_SIZE + plen ?ds"]) simp_all
    next
      case l: False
      let ?st2 = "?st\<lparr>ff_cache_off := Suc i * PAGE_SIZE\<rparr>"
      have run: "readdir_cached_loop env st = readdir_cached_loop env ?st2" unfolding step sc using l al by simp
      have "read_result env L pss p ?st2" by (rule rec[OF l, of _ k1]) (use st0 st cnext[OF l] True k(4) in simp_all)
      then obtain r q off where "readdir_cached_loop env ?st2 = Some (Done (r, read_to L p q off ?st2))" "taken env (ctx_out st) (drop p L) = take q (drop p L)"
        "p + q \<le> length L" "cursor pss (p + q) off" "r = 0 \<or> r = UNCACHED \<and> p = length L \<and> plen (last pss) < PAGE_SIZE" unfolding read_result_def by auto
      moreover have "read_to L p q off ?st2 = read_to L p q off st" by (simp add: read_to_def)
      ultimately show ?thesis using run by (intro read_resultI[of env st r L p q off]) simp_all
    qed
  next
    case False
    then have pk: "p < k1" by simp
    let ?rest = "take (k1 - p) (drop p L)"
    from scan_page_from[OF L k(3) pk k1L(1) st(1,2), of env] obtain q where
      q: "taken env (ctx_out st) ?rest = take q ?rest" "q \<le> k1 - p" and
      sc: "scan env (drop j ?ds) FOUND_NONE st = (if q < k1 - p then FOUND_ALL else FOUND_SOME,
      st\<lparr>ctx_out := ctx_out st @ map dirent_info (take q ?rest), ctx_pos := word_of_nat (p + q), ff_pos := word_of_nat (p + q),
         ff_cache_off := ff_cache_off st + plen (take (p + q - k) (drop k L))\<rparr>)" unfolding dr by blast
    have tq: "take q ?rest = take q (drop p L)" using q(2) by simp
    define off where "off = ff_cache_off st + plen (take (p + q - k) (drop k L))"
    have sc: "scan env (drop j ?ds) FOUND_NONE st = (if q < k1 - p then FOUND_ALL else FOUND_SOME, read_to L p q off st)"
      unfolding sc read_to_def tq off_def ..
    let ?j = "j + (p + q - k)"
    have lj: "?j \<le> length ?ds" using q(2) k1 k(3) pk by linarith
    have "take (p + q - k) (drop k L) = take (p + q - k) (drop j ?ds)" unfolding dr using q(2) k1 k(3) pk by simp
    then have off: "off = i * PAGE_SIZE + plen (take ?j ?ds)" unfolding off_def st(3) by (simp add: take_add)
    have pq: "p + q \<le> length L" "p + q = length (concat (take i pss)) + ?j" using q(2) k1L(1) k(1,3) pk by linarith+
    have sp: "drop p L = ?rest @ drop k1 L" using pk by (metis append_take_drop_id drop_drop le_add_diff_inverse2 less_imp_le)
    show ?thesis
    proof (cases "q < k1 - p")
      case True
      then have "?j < length ?ds" using k1 k(3) pk by linarith
      then have "plen (take ?j ?ds) < PAGE_SIZE" using plen_take_less[OF ds(1)] ds(3) by (meson less_le_trans)
      from cursor_mid[OF i lj this] have cu: "cursor pss (p + q) off" by (simp only: pq(2)[symmetric] off[symmetric])
      have "taken env (ctx_out st) ?rest \<noteq> ?rest" unfolding q(1) using True k1L(1) by (auto dest!: arg_cong[of _ _ length])
      then have "taken env (ctx_out st) (?rest @ drop k1 L) = take q (drop p L)" unfolding taken_append using q(1) tq by simp
      then have "taken env (ctx_out st) (drop p L) = take q (drop p L)" unfolding sp[symmetric] .
      moreover have "readdir_cached_loop env st = Some (Done (0, read_to L p q off st))" unfolding step sc using True by simp
      ultimately show ?thesis using pq(1) cu by (intro read_resultI[of env st 0 L p q off]) simp_all
    next
      case full: False
      then have qk: "q = k1 - p" "p + q = k1" using q(2) pk by simp_all
      have oe: "off = i * PAGE_SIZE + plen ?ds" using off qk k1 k(3) j pk by simp
      have tr: "taken env (ctx_out st) ?rest = ?rest" unfolding q(1) using qk by simp
      show ?thesis
      proof (cases lp)
        case True
        have "readdir_cached_loop env st = Some (Done (0, read_to L p q off st))" unfolding step sc using full True by simp
        moreover have "taken env (ctx_out st) (drop p L) = take q (drop p L)" using tr qk k1L(2)[OF True] by simp
        ultimately show ?thesis using pq(1) cend[OF True] qk(2) oe by (intro read_resultI[of env st 0 L p q off]) simp_all
      next
        case l: False
        let ?st2 = "(read_to L p q off st)\<lparr>ff_cache_off := Suc i * PAGE_SIZE\<rparr>"
        have run: "readdir_cached_loop env st = readdir_cached_loop env ?st2" unfolding step sc using l full al oe by (simp add: read_to_def)
        have "read_result env L pss k1 ?st2" by (rule rec[OF l, of _ k1]) (use st0 qk(2) cnext[OF l] k1L(1) in \<open>simp_all add: read_to_def\<close>)
        then obtain r q2 off2 where r: "readdir_cached_loop env ?st2 = Some (Done (r, read_to L k1 q2 off2 ?st2))" "taken env (ctx_out ?st2) (drop k1 L) = take q2 (drop k1 L)"
          "k1 + q2 \<le> length L" "cursor pss (k1 + q2) off2" "r = 0 \<or> r = UNCACHED \<and> k1 = length L \<and> plen (last pss) < PAGE_SIZE" unfolding read_result_def by blast
        have "r = 0"
        proof (rule ccontr)
          assume "r \<noteq> 0"
          then have "k1 = length L" "plen (last pss) < PAGE_SIZE" using r(5) by simp_all
          moreover from this have "last pss = pss ! i" using k1L(3) by (metis diff_Suc_1 last_conv_nth length_0_conv nat.distinct(1))
          ultimately show False using l lp k1L(3) by simp
        qed
        have co: "ctx_out ?st2 = ctx_out st @ map dirent_info ?rest" using qk by (simp add: read_to_def)
        have tk: "take (q + q2) (drop p L) = ?rest @ take q2 (drop k1 L)"
        proof -
          have "drop q (drop p L) = drop k1 L" using qk(2) by (simp add: add.commute)
          then show ?thesis unfolding take_add qk(1)[symmetric] by simp
        qed
        have "read_to L k1 q2 off2 ?st2 = read_to L p (q + q2) off2 st"
          using tk co qk by (simp add: read_to_def add.assoc[symmetric] del: of_nat_add)
        moreover have "taken env (ctx_out st) (?rest @ drop k1 L) = take (q + q2) (drop p L)" unfolding tk taken_append using tr r(2) co by simp
        then have "taken env (ctx_out st) (drop p L) = take (q + q2) (drop p L)" unfolding sp[symmetric] .
        ultimately show ?thesis using run r(1,3,4) \<open>r = 0\<close> qk(2) by (intro read_resultI[of env st 0 L p "q + q2" off2]) (simp_all add: add.assoc[symmetric])
      qed
    qed
  qed
qed


lemma cached_loop_reads:
  assumes L: "L = numbered 0 es" "\<forall>d\<in>set L. dirent_good d" "length L < 2 ^ 63" and rep: "cache_rep pss c" and con: "concat pss = L" and ca: "rdc_cached c"
  shows "rdc st = c \<Longrightarrow> ff_version st = rdc_version c \<Longrightarrow> times c = (i_mtime st, i_version st) \<Longrightarrow> cursor pss k (ff_cache_off st) \<Longrightarrow>
    ff_pos st = word_of_nat k \<Longrightarrow> ctx_pos st = word_of_nat p \<Longrightarrow> k \<le> p \<Longrightarrow> p \<le> length L \<Longrightarrow> read_result env L pss p st"
proof (induction "length pss - ff_cache_off st div PAGE_SIZE" arbitrary: st k p rule: less_induct)
  case less
  have P: "0 < PAGE_SIZE" by (simp add: PAGE_SIZE_def)
  have g: "pages_good pss" and sc: "rdc_size c = csize pss" and pgs: "\<And>i. i < length pss \<Longrightarrow> rdc_pages c i = Some (page_of (pss ! i))"
    using rep by (simp_all add: cache_rep_def)
  note step = cached_loop_step[OF less.prems(1) ca less.prems(2,3)]
  have eof: "read_result env L pss p st" if e: "readdir_cached_loop env st = Some (Done (0, st))" and k: "k = length L"
  proof -
    have p: "p = k" using k less.prems(7,8) by simp
    have "read_to L p 0 (ff_cache_off st) st = st" unfolding read_to_0[OF less.prems(6)] using less.prems(5) p by (cases st) simp
    then show ?thesis using e k p less.prems(4) by (intro read_resultI[of env st 0 L p 0 "ff_cache_off st"]) simp_all
  qed
  consider (mid) i j where "i < length pss" "j \<le> length (pss ! i)" "plen (take j (pss ! i)) < PAGE_SIZE"
      "ff_cache_off st = i * PAGE_SIZE + plen (take j (pss ! i))" "k = length (concat (take i pss)) + j"
    | (last) "ff_cache_off st = length pss * PAGE_SIZE" "k = length (concat pss)" "pss = [] \<or> plen (last pss) = PAGE_SIZE"
    using less.prems(4) unfolding cursor_def by blast
  then show ?case
  proof cases
    case last
    have "rdc_size c div PAGE_SIZE = length pss \<and> rdc_size c mod PAGE_SIZE = 0"
      using last(3) csize_cases(4)[OF g] by (auto simp: sc csize_def)
    then show ?thesis using eof step(1) last(1,2) con P by simp
  next
    case mid
    let ?ds = "pss ! i"
    define lp where "lp \<longleftrightarrow> Suc i = length pss \<and> plen ?ds < PAGE_SIZE"
    have ix: "ff_cache_off st div PAGE_SIZE = i" "ff_cache_off st mod PAGE_SIZE = plen (take j ?ds)" using mid(3,4) P by simp_all
    have sz: "(if ff_cache_off st div PAGE_SIZE = rdc_size c div PAGE_SIZE then rdc_size c mod PAGE_SIZE else PAGE_SIZE) = (if lp then plen ?ds else PAGE_SIZE)"
      unfolding ix sc page_size_at[OF g mid(1)] lp_def ..
    have ds: "\<forall>d\<in>set ?ds. dirent_good d" "plen ?ds \<le> PAGE_SIZE" using g mid(1) by (auto simp: pages_good_def)
    show ?thesis
    proof (cases "plen (take j ?ds) = (if lp then plen ?ds else PAGE_SIZE)")
      case True
      then have l: "lp" "plen (take j ?ds) = plen ?ds" using mid(3) by (auto split: if_splits)
      then have "j = length ?ds" using plen_take_less[OF ds(1), of j] mid(2) by (cases "j < length ?ds") simp_all
      then have "k = length L" using mid(1,5) l(1) con length_concat_Suc[OF mid(1)] by (simp add: lp_def)
      then show ?thesis using eof step(1) ix sz True by simp
    next
      case False
      have run: "readdir_cached_loop env st = (case Done (scan env (drop j ?ds) FOUND_NONE st) of
         Aborted \<Rightarrow> Some Aborted
       | Done (res, st3) \<Rightarrow>
           if res = FOUND_ERR then Some (Done (- EIO, st3))
           else if res = FOUND_ALL then Some (Done (0, st3))
           else if \<not> lp
           then readdir_cached_loop env (st3\<lparr>ff_cache_off := (ff_cache_off st3 + PAGE_SIZE - 1) div PAGE_SIZE * PAGE_SIZE\<rparr>)
           else Some (Done (if res = FOUND_SOME then 0 else UNCACHED, st3)))"
      proof -
        have pg: "rdc_pages c (ff_cache_off st div PAGE_SIZE) = Some (page_of ?ds)" using ix pgs[OF mid(1)] by simp
        have ne: "ff_cache_off st mod PAGE_SIZE \<noteq> (if ff_cache_off st div PAGE_SIZE = rdc_size c div PAGE_SIZE then rdc_size c mod PAGE_SIZE else PAGE_SIZE)"
          unfolding sz ix(2) by (rule False)
        have pc: "fuse_parse_cache env (page_of ?ds) (if lp then plen ?ds else PAGE_SIZE) st = Done (scan env (drop j ?ds) FOUND_NONE st)"
          by (rule parse_page[OF g mid(1,2)]) (use ds(2) ix in auto)
        have lz: "(if lp then plen ?ds else PAGE_SIZE) = PAGE_SIZE \<longleftrightarrow> \<not> lp" by (auto simp: lp_def)
        show ?thesis using step(2)[OF ne pg, of env] unfolding sz pc lz .
      qed
      show ?thesis
      proof (rule read_page[OF L g con mid(1-3,5) refl less.prems(7,8) less.prems(5,6) mid(4) lp_def run _ refl])
        fix st' :: dir_state and k' p'
        assume "\<not> lp" and h: "rdc st' = rdc st" "ff_version st' = ff_version st" "i_mtime st' = i_mtime st" "i_version st' = i_version st"
          "ff_cache_off st' = Suc i * PAGE_SIZE" "cursor pss k' (ff_cache_off st')" "ff_pos st' = word_of_nat k'" "ctx_pos st' = word_of_nat p'" "k' \<le> p'" "p' \<le> length L"
        have "length pss - ff_cache_off st' div PAGE_SIZE < length pss - ff_cache_off st div PAGE_SIZE" unfolding h(5) ix using P mid(1) by simp
        then show "read_result env L pss p' st'" by (rule less.hyps) (use h less.prems(1-3) in simp_all)
      qed
    qed
  qed
qed


subsection \<open>A reader of a cached directory\<close>

text \<open>The reader is at entry \<open>i\<close>; its place in the cache is right if it belongs to the version of the cache.\<close>

definition reader_ok :: "fuse_dirent list \<Rightarrow> int \<times> 64 word \<Rightarrow> 64 word \<Rightarrow> nat \<Rightarrow> dir_state \<Rightarrow> bool" where
  "reader_ok L t v i st \<longleftrightarrow> ff_cache_dir st \<and> ctx_pos st = word_of_nat i \<and> i \<le> length L \<and> (i_mtime st, i_version st) = t \<and> cache_ok L t v (rdc st) \<and>
     (ff_version st = v \<longrightarrow> (\<exists>k\<le>length L. ff_pos st = word_of_nat k \<and> cursor (pack L) k (ff_cache_off st)))"

definition env_same :: "fuse_dirent list \<Rightarrow> int \<times> 64 word \<Rightarrow> 64 word \<Rightarrow> readdir_env \<Rightarrow> bool" where
  "env_same L t v env \<longleftrightarrow> calm L t v env \<and> (kd_auto_inval env \<longrightarrow> kd_update env = (0, t))"

lemma cursor_start: "pages_good pss \<Longrightarrow> cursor pss 0 0"
proof (cases pss)
  case (Cons ds pss')
  then show ?thesis using cursor_mid[of 0 pss 0] by (simp add: PAGE_SIZE_def)
qed (simp add: cursor_def)

lemma reader_seek: "reader_ok L t v i st \<Longrightarrow> pages_good (pack L) \<Longrightarrow> reader_ok L t v i (st\<lparr>ff_pos := 0, ff_cache_off := 0\<rparr>)"
  using cursor_start[of "pack L"] by (auto simp: reader_ok_def intro!: exI[of _ 0])

lemma cached_loop_version:
  assumes "rdc_cached (rdc st)" and "ff_version st \<noteq> rdc_version (rdc st)" and "times (rdc st) = (i_mtime st, i_version st)"
  shows "readdir_cached_loop env st = readdir_cached_loop env (st\<lparr>ff_pos := 0, ff_cache_off := 0, ff_version := rdc_version (rdc st)\<rparr>)"
proof -
  have t: "i_version st = rdc_iversion (rdc st)" "rdc_mtime (rdc st) = i_mtime st" using assms(3) by (simp_all add: times_def)
  show ?thesis by (subst (1 2) readdir_cached_loop.simps) (use assms(1,2) t in \<open>simp add: Let_def cong: if_cong option.case_cong\<close>)
qed

lemma cached_loop_cached:
  assumes L: "L = numbered 0 es" "\<forall>d\<in>set L. dirent_good d" "length L < 2 ^ 63" and ok: "reader_ok L t v i st" and ca: "rdc_cached (rdc st)"
    and at: "ff_pos st = ctx_pos st \<or> ff_pos st = 0 \<and> ff_cache_off st = 0"
  shows "\<exists>r q st'. readdir_cached_loop env st = Some (Done (r, st')) \<and> reader_ok L t v (i + q) st' \<and> ctx_out st' = ctx_out st @ map dirent_info (take q (drop i L)) \<and>
    taken env (ctx_out st) (drop i L) = take q (drop i L) \<and> rdc st' = rdc st \<and> i + q \<le> length L \<and> (r = 0 \<or> r = UNCACHED \<and> i = length L)"
proof -
  have g: "pages_good (pack L)" by (rule pack_good[OF L(2)])
  have c: "cache_ok L t v (rdc st)" and i: "i \<le> length L" "ctx_pos st = word_of_nat i" and ti: "(i_mtime st, i_version st) = t" using ok by (simp_all add: reader_ok_def)
  then have rep: "cache_rep (pack L) (rdc st)" and ver: "rdc_version (rdc st) = v" and t: "times (rdc st) = t" using ca by (auto simp: cache_ok_def cache_core_def)
  define st1 where "st1 = (if ff_version st = v then st else st\<lparr>ff_pos := 0, ff_cache_off := 0, ff_version := v\<rparr>)"
  have run: "readdir_cached_loop env st = readdir_cached_loop env st1"
    using cached_loop_version[of st env] ca ver t ti by (auto simp: st1_def)
  obtain k where k: "ff_pos st1 = word_of_nat k" "cursor (pack L) k (ff_cache_off st1)" "k \<le> i"
  proof (cases "ff_version st = v \<and> ff_pos st = ctx_pos st")
    case True
    then obtain k where "k \<le> length L" "ff_pos st = word_of_nat k" "cursor (pack L) k (ff_cache_off st)" using ok by (auto simp: reader_ok_def)
    moreover from this True have "k = i" using i word_pos_inj[of k i] L(3) by simp
    ultimately show ?thesis using that[of k] True by (simp add: st1_def)
  next
    case False
    then show ?thesis using that[of 0] cursor_start[OF g] at by (auto simp: st1_def)
  qed
  have s1: "rdc st1 = rdc st" "ff_version st1 = rdc_version (rdc st)" "times (rdc st) = (i_mtime st1, i_version st1)" "ctx_pos st1 = word_of_nat i" "ctx_out st1 = ctx_out st"
    using ver t ti i by (simp_all add: st1_def)
  from cached_loop_reads[OF L rep concat_pack ca s1(1-3) k(2,1) s1(4) k(3) i(1), of env] obtain r q off where
    r: "readdir_cached_loop env st1 = Some (Done (r, read_to L i q off st1))" "taken env (ctx_out st1) (drop i L) = take q (drop i L)" "i + q \<le> length L"
      "cursor (pack L) (i + q) off" "r = 0 \<or> r = UNCACHED \<and> i = length L \<and> plen (last (pack L)) < PAGE_SIZE" unfolding read_result_def by blast
  have "reader_ok L t v (i + q) (read_to L i q off st1)" "rdc (read_to L i q off st1) = rdc st" "ctx_out (read_to L i q off st1) = ctx_out st @ map dirent_info (take q (drop i L))"
    using r(3,4) c ok by (auto simp: reader_ok_def read_to_def st1_def)
  then show ?thesis using r run s1(5) by (intro exI[of _ r] exI[of _ q] exI[of _ "read_to L i q off st1"]) auto
qed


text \<open>A reply that a reader with the cache switched on parses.\<close>

lemma uncached_reader:
  assumes L: "L = numbered 0 es" "\<forall>d\<in>set L. dirent_good d" "length L < 2 ^ 63" and ok: "reader_ok L t v i st" and t: "i = 0 \<Longrightarrow> times (rdc st) = t"
    and calm: "calm L t v env" and out: "ctx_out st = []"
  shows "\<exists>q st'. fuse_readdir_uncached env (Some pg) (Inr (concat (map rec_bytes (fitting PAGE_SIZE (drop i L))))) st = Done (0, st') \<and>
    reader_ok L t v (i + q) st' \<and> ctx_out st' = map dirent_info (take q (drop i L)) \<and> taken env [] (fitting PAGE_SIZE (drop i L)) = take q (drop i L)"
proof -
  let ?ds = "fitting PAGE_SIZE (drop i L)"
  have r: "ff_cache_dir st" "ctx_pos st = word_of_nat i" "i \<le> length L" "cache_ok L t v (rdc st)" using ok by (simp_all add: reader_ok_def)
  obtain j where j: "?ds = take j (drop i L)" using fitting_prefix by blast
  have gds: "\<forall>d\<in>set ?ds. dirent_good d" using L(2) unfolding j by (auto dest: in_set_takeD in_set_dropD)
  obtain q where q: "taken env [] ?ds = take q (drop i L)" "q \<le> length (drop i L)" by (rule taken_fitting)
  show ?thesis
  proof (cases "drop i L = []")
    case True
    then have i: "i = length L" using r(3) by simp
    have "cache_ok L t v (fuse_readdir_cache_end (word_of_nat (length L)) (rdc st))"
      by (rule cache_end_ok[OF L r(4)]) (use t i in simp)
    then show ?thesis using True i r ok out by (intro exI[of _ 0]) (simp add: fuse_readdir_uncached_def reader_ok_def)
  next
    case False
    then obtain d ds where d: "drop i L = d # ds" "dirent_good d" using L(2) by (metis in_set_dropD list.set_intros(1) neq_Nil_conv)
    have "FUSE_DIRENT_SIZE d \<le> PAGE_SIZE" using good_size[OF d(2)] by (simp add: PAGE_SIZE_def)
    then have ne: "?ds \<noteq> []" using d by simp
    then have cne: "concat (map rec_bytes ?ds) \<noteq> []" using concat_rec_Nil[OF gds] by simp
    obtain k where k: "tried env [] ?ds = take k ?ds" using tried_prefix by blast
    have tr: "tried env [] ?ds = take (min (min k j) (length (drop i L))) (drop i L)" using k[unfolded j] unfolding j by (simp add: take_length_min[of "min k j" "drop i L"])
    have "i + min (min k j) (length (drop i L)) \<le> length L" using r(3) by simp
    from adds_cache_ok[OF L calm r(4) this] t obtain c' where
      c': "cache_adds env (word_of_nat i) (tried env [] ?ds) (rdc st) = Done c'" "cache_ok L t v c'" unfolding tr by blast
    have pa: "pos_after (word_of_nat i) (take q (drop i L)) = word_of_nat (i + q)" by (rule pos_after_listing_from[OF L(1)]) (use q(2) r(3) in simp)
    let ?st = "st\<lparr>rdc := c', ctx_out := map dirent_info (take q (drop i L)), ctx_pos := word_of_nat (i + q)\<rparr>"
    have "fuse_readdir_uncached env (Some pg) (Inr (concat (map rec_bytes ?ds))) st =
      parse_dirfile env (concat (map rec_bytes ?ds) @ drop (length (concat (map rec_bytes ?ds))) pg) (length (concat (map rec_bytes ?ds))) st"
      unfolding fuse_readdir_uncached_def option.case sum.case by (rule if_not_P[OF cne])
    also have "\<dots> = Done (0, ?st)" unfolding parse_dirfile_recs[OF gds] out using r(1,2) c'(1) q(1) pa by simp
    finally show ?thesis using q c'(2) ok r(3) by (intro exI[of _ q] exI[of _ ?st]) (simp add: reader_ok_def)
  qed
qed

context dir_server
begin

lemma cached_call:
  assumes s: "ok p s" and r: "reader_ok (listing p) t v i st" and e: "env_same (listing p) t v env"
  shows "\<exists>k st' s'. fuse_readdir env False (Some pg) (serve p PAGE_SIZE) (st\<lparr>ctx_out := []\<rparr>) s = Some (Done (0, st', s')) \<and>
    ctx_out st' = map dirent_info (take k (drop i (listing p))) \<and> ok p s' \<and> reader_ok (listing p) t v (i + k) st' \<and> (progress env \<and> i < length (listing p) \<longrightarrow> 0 < k)"
proof -
  let ?L = "listing p"
  from listing_law[OF s] obtain es where es: "?L = numbered 0 es" "names_ok es" "length es < 2 ^ 63" by blast
  have L: "?L = numbered 0 es" "\<forall>d\<in>set ?L. dirent_good d" "length ?L < 2 ^ 63" using es numbered_good[OF es(2)] by auto
  have g: "pages_good (pack ?L)" by (rule pack_good[OF L(2)])
  have calm: "calm ?L t v env" using e by (simp add: env_same_def)
  have i: "i \<le> length ?L" "ff_cache_dir st" using r by (simp_all add: reader_ok_def)
  have gi: "\<forall>d\<in>set (drop i ?L). dirent_good d" using L(2) by (auto dest: in_set_dropD)
  have P: "0 < PAGE_SIZE" "PAGE_SIZE < 2 ^ 31" by (simp_all add: PAGE_SIZE_def)
  from serve_law[OF s i(1) P] obtain s' where s': "serve p PAGE_SIZE (word_of_nat i) s = Done (Inr (concat (map rec_bytes (fitting PAGE_SIZE (drop i ?L)))), s')" "ok p s'" by blast
  have unc: ?thesis if c: "fuse_readdir_cached env (st\<lparr>ctx_out := []\<rparr>) = Some (Done (UNCACHED, st2))" and r2: "reader_ok ?L t v i st2" "ctx_out st2 = []" "i = 0 \<Longrightarrow> times (rdc st2) = t" for st2
  proof -
    from uncached_reader[OF L r2(1,3) calm r2(2), of pg] obtain q st' where
      u: "fuse_readdir_uncached env (Some pg) (Inr (concat (map rec_bytes (fitting PAGE_SIZE (drop i ?L))))) st2 = Done (0, st')" "reader_ok ?L t v (i + q) st'"
        "ctx_out st' = map dirent_info (take q (drop i ?L))" "taken env [] (fitting PAGE_SIZE (drop i ?L)) = take q (drop i ?L)" by blast
    have pos: "ctx_pos st2 = word_of_nat i" using r2(1) by (simp add: reader_ok_def)
    have "0 < q" if "progress env" "i < length ?L" using taken_progress[OF that(1) _ gi] that(2) u(4) by (cases q) auto
    moreover have "fuse_readdir env False (Some pg) (serve p PAGE_SIZE) (st\<lparr>ctx_out := []\<rparr>) s = Some (Done (0, st', s'))"
      using c i(2) s'(1) u(1) pos by (simp add: fuse_readdir_def)
    ultimately show ?thesis using s'(2) u by blast
  qed
  define st1 where "st1 = (if ff_pos st \<noteq> ctx_pos st then st\<lparr>ctx_out := [], ff_pos := 0, ff_cache_off := 0\<rparr> else st\<lparr>ctx_out := []\<rparr>)"
  have r0: "reader_ok ?L t v i (st\<lparr>ctx_out := []\<rparr>)" using r by (simp add: reader_ok_def)
  have r1: "reader_ok ?L t v i st1" using r0 reader_seek[OF r0 g] by (simp add: st1_def)
  have o1: "ctx_out st1 = []" "ff_pos st1 = ctx_pos st1 \<or> ff_pos st1 = 0 \<and> ff_cache_off st1 = 0" by (simp_all add: st1_def)
  have t1: "st1\<lparr>i_mtime := fst t, i_version := snd t\<rparr> = st1" using r1 by (cases st1) (auto simp: reader_ok_def)
  have loop: "fuse_readdir_cached env (st\<lparr>ctx_out := []\<rparr>) = readdir_cached_loop env st1"
    using e t1 by (cases t) (auto simp: fuse_readdir_cached_def Let_def env_same_def st1_def)
  show ?thesis
  proof (cases "rdc_cached (rdc st1)")
    case True
    from cached_loop_cached[OF L r1 True o1(2), of env] obtain r' q st' where
      c: "readdir_cached_loop env st1 = Some (Done (r', st'))" "reader_ok ?L t v (i + q) st'" "ctx_out st' = map dirent_info (take q (drop i ?L))"
        "taken env [] (drop i ?L) = take q (drop i ?L)" "rdc st' = rdc st1" "i + q \<le> length ?L" "r' = 0 \<or> r' = UNCACHED \<and> i = length ?L" using o1(1) by auto
    show ?thesis
    proof (cases "r' = 0")
      case z: True
      have "0 < q" if "progress env" "i < length ?L"
      proof (rule ccontr)
        assume "\<not> 0 < q"
        then have "taken env [] (drop i ?L) = []" using c(4) by simp
        then show False using that by (cases "drop i ?L") (auto simp: progressD split: if_splits)
      qed
      moreover have "fuse_readdir env False (Some pg) (serve p PAGE_SIZE) (st\<lparr>ctx_out := []\<rparr>) s = Some (Done (0, st', s))"
        using c(1) z loop i(2) by (simp add: fuse_readdir_def UNCACHED_def)
      ultimately show ?thesis using c s by blast
    next
      case False
      then have u: "r' = UNCACHED" "i = length ?L" "q = 0" using c(6,7) by auto
      have "times (rdc st') = t" using r1 True c(5) by (auto simp: reader_ok_def cache_ok_def)
      then show ?thesis by (intro unc[of st']) (use c u loop in simp_all)
    qed
  next
    case False
    define st2 where "st2 = (if ctx_pos st1 = 0 \<and> rdc_size (rdc st1) = 0
       then st1\<lparr>rdc := (rdc st1)\<lparr>rdc_mtime := i_mtime st1, rdc_iversion := i_version st1\<rparr>\<rparr> else st1)"
    have run: "readdir_cached_loop env st1 = Some (Done (UNCACHED, st2))" using False by (subst readdir_cached_loop.simps) (simp add: Let_def st2_def)
    have r2: "reader_ok ?L t v i st2" using r1 by (auto simp: reader_ok_def st2_def cache_ok_def cache_core_def cache_rep_def times_def)
    have t2: "times (rdc st2) = t" if "i = 0" using that r1 by (auto simp: reader_ok_def st2_def cache_ok_def times_def)
    have "ctx_out st2 = []" using o1(1) by (simp add: st2_def)
    from unc[OF trans[OF loop run] r2 this t2] show ?thesis .
  qed
qed

lemma all_cached_calls:
  assumes "ok p s" and "reader_ok (listing p) t v i st" and "\<forall>env\<in>set envs. env_same (listing p) t v env"
  shows "\<exists>k rs st' s'. getdents_run (serve p PAGE_SIZE) pg envs st s = Some (Done (rs, st', s')) \<and> i + k \<le> length (listing p) \<and>
    (\<forall>r\<in>set rs. fst r = 0) \<and> concat (map snd rs) = map dirent_info (take k (drop i (listing p))) \<and> reader_ok (listing p) t v (i + k) st' \<and>
    ((\<forall>env\<in>set envs. progress env) \<longrightarrow> min (length envs) (length (listing p) - i) \<le> k)"
  using assms
proof (induction envs arbitrary: i st s)
  case Nil
  then show ?case by (intro exI[of _ 0]) (simp add: reader_ok_def)
next
  case (Cons env envs)
  have e: "env_same (listing p) t v env" "\<forall>env\<in>set envs. env_same (listing p) t v env" using Cons.prems(3) by simp_all
  from cached_call[OF Cons.prems(1,2) e(1), of pg] obtain k1 st1 s1 where
    a: "fuse_readdir env False (Some pg) (serve p PAGE_SIZE) (st\<lparr>ctx_out := []\<rparr>) s = Some (Done (0, st1, s1))"
      "ctx_out st1 = map dirent_info (take k1 (drop i (listing p)))" "ok p s1" "reader_ok (listing p) t v (i + k1) st1" "progress env \<and> i < length (listing p) \<longrightarrow> 0 < k1" by blast
  from Cons.IH[OF a(3,4) e(2)] obtain k2 rs st' s' where
    b: "getdents_run (serve p PAGE_SIZE) pg envs st1 s1 = Some (Done (rs, st', s'))" "i + k1 + k2 \<le> length (listing p)" "\<forall>r\<in>set rs. fst r = 0"
      "concat (map snd rs) = map dirent_info (take k2 (drop (i + k1) (listing p)))" "reader_ok (listing p) t v (i + k1 + k2) st'"
      "(\<forall>env\<in>set envs. progress env) \<longrightarrow> min (length envs) (length (listing p) - (i + k1)) \<le> k2" by blast
  have k1: "i + k1 \<le> length (listing p)" using a(4) by (simp add: reader_ok_def)
  have "take (k1 + k2) (drop i (listing p)) = take k1 (drop i (listing p)) @ take k2 (drop (i + k1) (listing p))" by (simp add: take_add add.commute)
  moreover have "min (length (env # envs)) (length (listing p) - i) \<le> k1 + k2" if "\<forall>env\<in>set (env # envs). progress env"
    unfolding length_Cons by (rule calls_enough) (use that a(5) b(6) k1 in simp_all)
  ultimately show ?case using a(1,2) b by (intro exI[of _ "k1 + k2"]) (simp add: add.assoc)
qed

end


text \<open>The state of a directory that was just opened, with an empty cache or with the cache of another reader.\<close>

definition opened :: "bool \<Rightarrow> int \<times> 64 word \<Rightarrow> rdcache \<Rightarrow> dir_state" where
  "opened cache_dir t c = \<lparr>ctx_pos = 0, ctx_out = [], rdc = c, i_mtime = fst t, i_version = snd t, ff_cache_dir = cache_dir,
     ff_pos = 0, ff_cache_off = 0, ff_version = 0\<rparr>"

definition empty_cache :: rdcache where
  "empty_cache = \<lparr>rdc_cached = False, rdc_size = 0, rdc_pos = 0, rdc_version = 0, rdc_mtime = 0, rdc_iversion = 0, rdc_pages = (\<lambda>i. None)\<rparr>"

lemma empty_cache_ok: "cache_ok L t 0 empty_cache"
  by (auto simp: cache_ok_def cache_core_def cache_rep_def pages_good_def csize_def empty_cache_def intro!: exI[of _ 0])

lemma opened_reader: "cache_ok L t v c \<Longrightarrow> pages_good (pack L) \<Longrightarrow> reader_ok L t v 0 (opened True t c)"
  using cursor_start[of "pack L"] by (cases t) (auto simp: reader_ok_def opened_def intro!: exI[of _ 0])


subsection \<open>Examples\<close>

definition demo_denv :: dir_env where
  "demo_denv = \<lparr>use_ino = True, readdir_ino = False, lookup_nodeid = (\<lambda>_. 0), env_realloc = (\<lambda>n. Some (\<lambda>_. 0)), env_malloc = (\<lambda>_. True)\<rparr>"

definition demo_dir :: "fuse_direntry list" where
  "demo_dir = [\<lparr>dl_stat = \<lparr>st_ino = 1, st_mode = 0x4000\<rparr>, dl_name = [0x2E]\<rparr>, \<lparr>dl_stat = \<lparr>st_ino = 7, st_mode = 0x8000\<rparr>, dl_name = [0x61, 0x62]\<rparr>]"

text \<open>A caller with room for one entry.\<close>

definition demo_env :: readdir_env where
  "demo_env = \<lparr>kd_accept = (\<lambda>out e. out = []), kd_alloc = (\<lambda>i. Some (replicate PAGE_SIZE 0)), kd_between = (\<lambda>c. c), kd_auto_inval = False, kd_update = (0, 0, 0)\<rparr>"

lemma demo_facts: "env_ok demo_denv" "names_ok demo_dir" "progress demo_env" "env_same L t v demo_env"
  by (simp_all add: env_ok_def demo_denv_def names_ok_def demo_dir_def progress_def demo_env_def env_same_def calm_def)

theorem readdir_lists_directory_witness:
  "\<exists>rs st' dh'. getdents_run (serve_from (demo_denv, demo_dir) PAGE_SIZE) [] [demo_env, demo_env, demo_env] (opened False (0, 0) empty_cache) fuse_lib_opendir_dh =
     Some (Done (rs, st', dh')) \<and> concat (map snd rs) = [([0x2E], 1, 4), ([0x61, 0x62], 7, 8)]"
proof -
  have "ctx_pos (opened False (0, 0) empty_cache) = 0" "\<not> ff_cache_dir (opened False (0, 0) empty_cache)" "length demo_dir < 2 ^ 63" by (simp_all add: opened_def demo_dir_def)
  from readdir_lists_directory[OF demo_facts(1,2) this(3,1,2), of serve_from "[]" "[demo_env, demo_env, demo_env]"]
  obtain k rs st' dh' where k: "getdents_run (serve_from (demo_denv, demo_dir) PAGE_SIZE) [] [demo_env, demo_env, demo_env] (opened False (0, 0) empty_cache) fuse_lib_opendir_dh =
      Some (Done (rs, st', dh'))" "concat (map snd rs) = map dirent_info (take k (numbered 0 (shown demo_denv demo_dir)))" "k = length demo_dir"
    using demo_facts(3) by (auto simp: demo_dir_def)
  have "map dirent_info (take (length demo_dir) (numbered 0 (shown demo_denv demo_dir))) = [([0x2E], 1, 4), ([0x61, 0x62], 7, 8)]" by code_simp
  then show ?thesis using k by (metis (no_types))
qed



subsection \<open>Replies of an untrusted daemon\<close>

definition pages_len :: "rdcache \<Rightarrow> bool" where
  "pages_len c \<longleftrightarrow> (\<forall>i pg. rdc_pages c i = Some pg \<longrightarrow> length pg = PAGE_SIZE)"

definition env_pages :: "readdir_env \<Rightarrow> bool" where
  "env_pages env \<longleftrightarrow> (\<forall>i pg. kd_alloc env i = Some pg \<longrightarrow> length pg = PAGE_SIZE) \<and> (\<forall>c. pages_len c \<longrightarrow> pages_len (kd_between env c))"

definition name_valid :: "dir_info \<Rightarrow> bool" where
  "name_valid e \<longleftrightarrow> (case e of (name, ino, type) \<Rightarrow> 0 < length name \<and> length name \<le> FUSE_NAME_MAX \<and> 0x2F \<notin> set name)"

lemma length_buf_store: "buf_store b at bs = Done b' \<Longrightarrow> length b' = length b"
  by (auto simp: buf_store_def split: if_splits)

lemma add_pages_len:
  assumes c: "pages_len c" and e: "env_pages env" and l: "length dirent \<le> PAGE_SIZE"
  shows "\<exists>c'. fuse_add_dirent_to_cache env dirent off pos c = Done c' \<and> pages_len c'"
proof (cases "cache_add_plan (length dirent) pos c")
  case None
  then show ?thesis using c by (simp add: fuse_add_dirent_to_cache_def)
next
  case (Some plan)
  obtain ver sz index offset where p: "plan = (ver, sz, index, offset)" by (cases plan)
  have fit: "offset + length dirent \<le> PAGE_SIZE" using Some p l by (auto simp: cache_add_plan_def Let_def split: if_splits)
  have c1: "pages_len (kd_between env c)" using c e by (simp add: env_pages_def)
  show ?thesis
  proof (cases "cache_get_page env index offset (kd_between env c)")
    case None
    then show ?thesis using Some p c1 by (simp add: fuse_add_dirent_to_cache_def)
  next
    case pc: (Some pc)
    obtain page c2 where g: "pc = (page, c2)" by (cases pc)
    have c2: "pages_len c2" "length page = PAGE_SIZE" using pc g c1 e by (auto simp: cache_get_page_def pages_len_def env_pages_def split: option.splits if_splits)
    have "length (if offset = 0 then replicate PAGE_SIZE 0 else page) = PAGE_SIZE" using c2 by simp
    then obtain b where b: "buf_store (if offset = 0 then replicate PAGE_SIZE 0 else page) offset dirent = Done b" "length b = PAGE_SIZE"
      using fit length_buf_store by (metis buf_store_def)
    then show ?thesis using Some p pc g c2(1) by (auto simp: fuse_add_dirent_to_cache_def cache_add_commit_def pages_len_def)
  qed
qed

lemma emit_untrusted:
  assumes "pages_len (rdc st)" and "env_pages env" and "length raw \<le> PAGE_SIZE"
  shows "\<exists>b st1. fuse_emit env raw d st = Done (b, st1) \<and> pages_len (rdc st1) \<and> ff_cache_dir st1 = ff_cache_dir st \<and> (ctx_out st1 = ctx_out st \<or> ctx_out st1 = ctx_out st @ [dirent_info d])"
proof -
  obtain c where "(if ff_cache_dir st then fuse_add_dirent_to_cache env raw (de_off d) (ctx_pos st) (rdc st) else Done (rdc st)) = Done c" "pages_len c"
    using add_pages_len[OF assms, of "de_off d" "ctx_pos st"] assms(1) by (cases "ff_cache_dir st") auto
  then show ?thesis by (auto simp: fuse_emit_def dir_emit_def)
qed

text \<open>Claim C22 (parse_dirfile_untrusted). Whatever bytes the daemon sends as the entries of a directory, \<open>parse_dirfile\<close> reads and
  writes only inside the reply and the pages of the cache and returns 0 or \<open>-EIO\<close>; every entry that it hands on has a name of 1 to
  1024 bytes without a slash, and the pages of the cache keep their size.\<close>

theorem parse_dirfile_untrusted:
  assumes "nbytes \<le> length buf" and "env_pages env" and "pages_len (rdc st)"
  shows "\<exists>r st' new. parse_dirfile env buf nbytes st = Done (r, st') \<and> (r = 0 \<or> r = - EIO) \<and> pages_len (rdc st') \<and>
    ctx_out st' = ctx_out st @ new \<and> list_all name_valid new"
  using assms
proof (induction env buf nbytes st rule: parse_dirfile.induct)
  case (1 env buf nbytes st)
  let ?d = "dirent_of buf"
  let ?s = "FUSE_DIRENT_SIZE ?d"
  have stop: ?case if "parse_dirfile env buf nbytes st = Done (r, st)" "r = 0 \<or> r = - EIO" for r
    using that "1.prems" by (intro exI[of _ r] exI[of _ st] exI[of _ "[]"]) simp
  consider "nbytes < FUSE_NAME_OFFSET" | "\<not> nbytes < FUSE_NAME_OFFSET" "de_namelen ?d = 0 \<or> unat (de_namelen ?d) > FUSE_NAME_MAX \<or> ?s > nbytes \<or> 0x2F \<in> set (de_name ?d)"
    | (go) "\<not> nbytes < FUSE_NAME_OFFSET" "de_namelen ?d \<noteq> 0" "unat (de_namelen ?d) \<le> FUSE_NAME_MAX" "?s \<le> nbytes" "0x2F \<notin> set (de_name ?d)" by linarith
  then show ?case
  proof cases
    case 1
    then have "parse_dirfile env buf nbytes st = Done (0, st)" by (subst parse_dirfile.simps) simp
    then show ?thesis by (rule stop) simp
  next
    case 2
    then have "parse_dirfile env buf nbytes st = Done (0, st) \<or> parse_dirfile env buf nbytes st = Done (- EIO, st)"
      using "1.prems"(1) by (subst (1 2) parse_dirfile.simps) (auto simp: Let_def)
    then show ?thesis using stop by blast
  next
    case go
    have sz: "FUSE_NAME_OFFSET + unat (de_namelen ?d) \<le> ?s" "?s < FUSE_NAME_OFFSET + unat (de_namelen ?d) + 8"
      unfolding FUSE_DIRENT_SIZE_def by (rule rec_align_le, rule rec_align_less)
    have "length (take ?s buf) \<le> PAGE_SIZE" using sz go(3) by (simp add: FUSE_NAME_OFFSET_def FUSE_NAME_MAX_def PAGE_SIZE_def)
    from emit_untrusted[OF "1.prems"(3,2) this] obtain b st1 where
      e: "fuse_emit env (take ?s buf) ?d st = Done (b, st1)" "pages_len (rdc st1)" "ctx_out st1 = ctx_out st \<or> ctx_out st1 = ctx_out st @ [dirent_info ?d]" by blast
    have "length (de_name ?d) = unat (de_namelen ?d)" using sz go(4) "1.prems"(1) by (simp add: dirent_of_def Let_def)
    moreover have "0 < unat (de_namelen ?d)" using go(2) by (simp add: unat_gt_0)
    ultimately have v: "name_valid (dirent_info ?d)" using go(3,5) unfolding name_valid_def dirent_info_def by (simp only: prod.case simp_thms)
    obtain new1 where n1: "ctx_out st1 = ctx_out st @ new1" "list_all name_valid new1"
    proof (cases "ctx_out st1 = ctx_out st")
      case True
      then show ?thesis using that[of "[]"] by simp
    next
      case False
      then show ?thesis using that[of "[dirent_info ?d]"] e(3) v by simp
    qed
    have run: "parse_dirfile env buf nbytes st = (if \<not> b then Done (0, st1) else parse_dirfile env (drop ?s buf) (nbytes - ?s) (st1\<lparr>ctx_pos := de_off ?d\<rparr>))"
      using go "1.prems"(1) e(1) by (subst parse_dirfile.simps) (simp add: Let_def)
    show ?thesis
    proof (cases b)
      case False
      then show ?thesis using run e(2) n1 by (intro exI[of _ 0] exI[of _ st1] exI[of _ new1]) simp
    next
      case True
      have ih: "nbytes - ?s \<le> length (drop ?s buf)" "pages_len (rdc (st1\<lparr>ctx_pos := de_off ?d\<rparr>))" using "1.prems"(1) e(2) by simp_all
      have nl: "\<not> length buf < FUSE_NAME_OFFSET" "\<not> (de_namelen ?d = 0 \<or> FUSE_NAME_MAX < unat (de_namelen ?d))" "\<not> nbytes < ?s" "\<not> length buf < ?s"
        using go "1.prems"(1) by simp_all
      have "\<exists>r st' new. parse_dirfile env (drop ?s buf) (nbytes - ?s) (st1\<lparr>ctx_pos := de_off ?d\<rparr>) = Done (r, st') \<and> (r = 0 \<or> r = - EIO) \<and> pages_len (rdc st') \<and>
        ctx_out st' = ctx_out (st1\<lparr>ctx_pos := de_off ?d\<rparr>) @ new \<and> list_all name_valid new"
        by (rule "1.IH"[OF go(1) nl(1) refl refl nl(2-4) go(5) e(1) refl _ ih(1) "1.prems"(2) ih(2)]) (simp add: True)
      then obtain r st' new where
        "parse_dirfile env (drop ?s buf) (nbytes - ?s) (st1\<lparr>ctx_pos := de_off ?d\<rparr>) = Done (r, st')" "r = 0 \<or> r = - EIO" "pages_len (rdc st')"
        "ctx_out st' = ctx_out st1 @ new" "list_all name_valid new" by auto
      then show ?thesis using run True n1 by (intro exI[of _ r] exI[of _ st'] exI[of _ "new1 @ new"]) simp
    qed
  qed
qed


theorem parse_dirfile_untrusted_witness:
  "\<exists>r st' new. parse_dirfile demo_env (replicate 16 0 @ [3, 0, 0, 0] @ replicate 40 0x41) 60 (opened True (0, 0) empty_cache) = Done (r, st') \<and> (r = 0 \<or> r = - EIO) \<and>
    pages_len (rdc st') \<and> ctx_out st' = ctx_out (opened True (0, 0) empty_cache) @ new \<and> list_all name_valid new"
  by (rule parse_dirfile_untrusted) (simp_all add: env_pages_def pages_len_def demo_env_def opened_def empty_cache_def)

end
