(* ===== verification/Kern_Copy.thy ===== *)
theory Kern_Copy
  imports Kern_Requests
begin

text \<open>
  The copy engine of the kernel module (\<open>fuse_module/dev.c\<close>): moving a message between the
  kernel's request and the memory or the pipe of the file-system daemon, page by page, with the
  request locked only while no page fault can happen; moving whole pages out of a pipe; and the
  extraction of the header and the footer of a reply that this repository adds.

  Pages and kernel objects live in one flat memory, page \<open>p\<close> at \<open>p * PAGE_SIZE\<close>. The results of
  kernel services are part of the state: \<open>cs_iter\<close> the results of the coming calls of
  \<open>iov_iter_get_pages2\<close>, \<open>w_alloc\<close> those of \<open>alloc_page\<close>, \<open>pb_confirm\<close> (an errno, or 0) and \<open>pb_steal\<close> those
  of \<open>pipe_buf_confirm\<close> and \<open>pipe_buf_try_steal\<close> on a buffer. \<open>replace_page_cache_page\<close> is a
  parameter. An abort of the connection may come between any two lock sections: it is seen by
  the lock and unlock operations from the time \<open>w_abort_at\<close> on. A failed \<open>BUG_ON\<close> and an access
  outside an object is \<open>Aborted\<close>.
\<close>

subsection \<open>State\<close>


datatype page_flag = PG_locked | PG_referenced | PG_uptodate | PG_lru | PG_active | PG_workingset | PG_reclaim
  | PG_waiters | PG_dirty | PG_writeback | PG_mlocked | PG_private | PG_mappedtodisk | PG_reserved

record kpage =
  p_count :: int
  p_mapcount :: nat
  p_mapping :: bool
  p_flags :: "page_flag set"

record pipe_buffer =
  pb_page :: nat
  pb_offset :: nat
  pb_len :: nat
  pb_ops :: bool
  pb_gift :: bool
  pb_islru :: bool
  pb_confirm :: nat
  pb_steal :: bool

text \<open>\<open>cs_req\<close>: a request is attached; \<open>cs_user_pages\<close>: its arguments are in user pages.
  \<open>cs_pipebufs\<close> and \<open>cs_currbuf\<close> are indices of the array of pipe buffers.\<close>

record fuse_copy_state =
  cs_write :: bool
  cs_req :: bool
  cs_user_pages :: bool
  cs_iter :: "(int + nat \<times> nat \<times> nat) list"
  cs_pipebufs :: "nat option"
  cs_currbuf :: "nat option"
  cs_max_usage :: nat
  cs_nr_segs :: nat
  cs_pg :: "nat option"
  cs_len :: nat
  cs_offset :: nat
  cs_move_pages :: bool
  w_mem :: memory
  w_page :: "nat \<Rightarrow> kpage"
  w_bufs :: "nat \<Rightarrow> pipe_buffer"
  w_alloc :: "nat option list"
  w_time :: nat
  w_abort_at :: "nat option"
  w_locked :: bool

definition page_addr :: "nat \<Rightarrow> nat \<Rightarrow> nat" where
  "page_addr p off = p * PAGE_SIZE + off"

definition upd_page :: "nat \<Rightarrow> (kpage \<Rightarrow> kpage) \<Rightarrow> fuse_copy_state \<Rightarrow> fuse_copy_state" where
  "upd_page p g cs = cs\<lparr>w_page := (w_page cs)(p := g (w_page cs p))\<rparr>"

definition get_page :: "nat \<Rightarrow> fuse_copy_state \<Rightarrow> fuse_copy_state" where
  "get_page p = upd_page p (\<lambda>q. q\<lparr>p_count := p_count q + 1\<rparr>)"

definition put_page :: "nat \<Rightarrow> fuse_copy_state \<Rightarrow> fuse_copy_state" where
  "put_page p = upd_page p (\<lambda>q. q\<lparr>p_count := p_count q - 1\<rparr>)"

definition set_page_flag :: "page_flag \<Rightarrow> nat \<Rightarrow> fuse_copy_state \<Rightarrow> fuse_copy_state" where
  "set_page_flag b p = upd_page p (\<lambda>q. q\<lparr>p_flags := insert b (p_flags q)\<rparr>)"

definition clear_page_flag :: "page_flag \<Rightarrow> nat \<Rightarrow> fuse_copy_state \<Rightarrow> fuse_copy_state" where
  "clear_page_flag b p = upd_page p (\<lambda>q. q\<lparr>p_flags := p_flags q - {b}\<rparr>)"

definition upd_buf :: "nat \<Rightarrow> (pipe_buffer \<Rightarrow> pipe_buffer) \<Rightarrow> fuse_copy_state \<Rightarrow> fuse_copy_state" where
  "upd_buf i g cs = cs\<lparr>w_bufs := (w_bufs cs)(i := g (w_bufs cs i))\<rparr>"

definition memcpy_at :: "nat \<Rightarrow> nat \<Rightarrow> nat \<Rightarrow> fuse_copy_state \<Rightarrow> fuse_copy_state" where
  "memcpy_at dst src n cs = cs\<lparr>w_mem := mem_write (w_mem cs) dst (mem_read (w_mem cs) src n)\<rparr>"

definition tick :: "fuse_copy_state \<Rightarrow> fuse_copy_state" where
  "tick cs = cs\<lparr>w_time := w_time cs + 1\<rparr>"

definition aborted_now :: "fuse_copy_state \<Rightarrow> bool" where
  "aborted_now cs = (case w_abort_at cs of None \<Rightarrow> False | Some t \<Rightarrow> t \<le> w_time cs)"

definition EFAULT :: int where [simp]: "EFAULT = 14"

subsection \<open>The copy engine\<close>

text \<open>\<open>lock_request\<close> and \<open>unlock_request\<close> as the copy sees them.\<close>

definition cs_lock :: "fuse_copy_state \<Rightarrow> int \<times> fuse_copy_state" where
  "cs_lock cs = (if \<not> cs_req cs then (0, cs)
     else if aborted_now cs then (- ENOENT, tick cs) else (0, (tick cs)\<lparr>w_locked := True\<rparr>))"

definition cs_unlock :: "fuse_copy_state \<Rightarrow> int \<times> fuse_copy_state" where
  "cs_unlock cs = (if \<not> cs_req cs then (0, cs)
     else if aborted_now cs then (- ENOENT, tick cs) else (0, (tick cs)\<lparr>w_locked := False\<rparr>))"

text \<open>\<open>fuse_copy_init\<close>: the fields of the C structure are zeroed, the world is the caller's.\<close>

definition fuse_copy_init :: "bool \<Rightarrow> fuse_copy_state \<Rightarrow> fuse_copy_state" where
  "fuse_copy_init write cs = cs\<lparr>cs_write := write, cs_req := False, cs_pipebufs := None, cs_currbuf := None,
     cs_nr_segs := 0, cs_pg := None, cs_len := 0, cs_offset := 0, cs_move_pages := False\<rparr>"

definition fuse_copy_finish :: "fuse_copy_state \<Rightarrow> fuse_copy_state" where
  "fuse_copy_finish cs =
     (let cs1 = (case cs_currbuf cs of
          Some b \<Rightarrow> (if cs_write cs then upd_buf b (\<lambda>bf. bf\<lparr>pb_len := u32_sub PAGE_SIZE (cs_len cs)\<rparr>) cs else cs)
                      \<lparr>cs_currbuf := None\<rparr>
        | None \<Rightarrow> (case cs_pg cs of
              Some p \<Rightarrow> put_page p (if cs_write cs then set_page_flag PG_dirty p cs else cs)
            | None \<Rightarrow> cs))
      in cs1\<lparr>cs_pg := None\<rparr>)"

definition copy_fill_pipe_read :: "nat \<Rightarrow> fuse_copy_state \<Rightarrow> (int \<times> fuse_copy_state) outcome" where
  "copy_fill_pipe_read i cs =
     (let bf = w_bufs cs i in
      if pb_confirm bf \<noteq> 0 then Done (- int (pb_confirm bf), cs)
      else if cs_nr_segs cs = 0 then Aborted
      else Done (cs_lock (cs\<lparr>cs_currbuf := Some i, cs_pg := Some (pb_page bf), cs_offset := pb_offset bf,
                           cs_len := pb_len bf, cs_pipebufs := Some (i + 1), cs_nr_segs := cs_nr_segs cs - 1\<rparr>)))"

definition copy_fill_pipe_write :: "nat \<Rightarrow> fuse_copy_state \<Rightarrow> (int \<times> fuse_copy_state) outcome" where
  "copy_fill_pipe_write i cs =
     (if cs_max_usage cs \<le> cs_nr_segs cs then Done (- EIO, cs)
      else case w_alloc cs of
        [] \<Rightarrow> Done (- ENOMEM, cs)
      | None # al \<Rightarrow> Done (- ENOMEM, cs\<lparr>w_alloc := al\<rparr>)
      | Some p # al \<Rightarrow>
          Done (cs_lock ((upd_buf i (\<lambda>bf. bf\<lparr>pb_page := p, pb_offset := 0, pb_len := 0\<rparr>) cs)
            \<lparr>w_alloc := al, cs_currbuf := Some i, cs_pg := Some p, cs_offset := 0, cs_len := PAGE_SIZE,
             cs_pipebufs := Some (i + 1), cs_nr_segs := cs_nr_segs cs + 1\<rparr>)))"

definition copy_fill_iter :: "fuse_copy_state \<Rightarrow> (int \<times> fuse_copy_state) outcome" where
  "copy_fill_iter cs = (case cs_iter cs of
      [] \<Rightarrow> Done (- EFAULT, cs)
    | Inl e # it \<Rightarrow> (if e < 0 then Done (e, cs\<lparr>cs_iter := it\<rparr>) else Aborted)
    | Inr (p, off, n) # it \<Rightarrow>
        (if n = 0 then Aborted
         else Done (cs_lock (cs\<lparr>cs_iter := it, cs_len := n, cs_offset := off, cs_pg := Some p\<rparr>))))"

definition fuse_copy_fill :: "fuse_copy_state \<Rightarrow> (int \<times> fuse_copy_state) outcome" where
  "fuse_copy_fill cs =
     (let (err, cs1) = cs_unlock cs in
      if err \<noteq> 0 then Done (err, cs1)
      else (let cs2 = fuse_copy_finish cs1 in
        case cs_pipebufs cs2 of
          Some i \<Rightarrow> (if \<not> cs_write cs2 then copy_fill_pipe_read i cs2 else copy_fill_pipe_write i cs2)
        | None \<Rightarrow> copy_fill_iter cs2))"

text \<open>Result: the number of bytes copied. \<open>val\<close> is \<open>None\<close> for a null pointer.\<close>

definition fuse_copy_do :: "fuse_copy_state \<Rightarrow> nat option \<Rightarrow> nat \<Rightarrow> nat \<times> fuse_copy_state" where
  "fuse_copy_do cs val sz =
     (let ncpy = min sz (cs_len cs);
          cs1 = (case (val, cs_pg cs) of
             (Some v, Some p) \<Rightarrow>
               (if cs_write cs then memcpy_at (page_addr p (cs_offset cs)) v ncpy cs
                else memcpy_at v (page_addr p (cs_offset cs)) ncpy cs)
           | _ \<Rightarrow> cs)
      in (ncpy, cs1\<lparr>cs_len := cs_len cs - ncpy, cs_offset := cs_offset cs + ncpy\<rparr>))"

definition allowed_flags :: "page_flag set" where
  "allowed_flags = {PG_locked, PG_referenced, PG_uptodate, PG_lru, PG_active, PG_workingset, PG_reclaim, PG_waiters}"

definition fuse_check_page :: "nat \<Rightarrow> fuse_copy_state \<Rightarrow> bool" where
  "fuse_check_page p cs \<longleftrightarrow> p_mapcount (w_page cs p) \<noteq> 0 \<or> p_mapping (w_page cs p) \<or>
     \<not> p_flags (w_page cs p) \<subseteq> allowed_flags"

definition pipe_buf_release :: "nat \<Rightarrow> fuse_copy_state \<Rightarrow> fuse_copy_state" where
  "pipe_buf_release i cs = put_page (pb_page (w_bufs cs i)) (upd_buf i (\<lambda>bf. bf\<lparr>pb_ops := False\<rparr>) cs)"

text \<open>The two fall-back exits of \<open>fuse_try_move_page\<close>: back to copying.\<close>

definition move_fallback :: "nat \<Rightarrow> fuse_copy_state \<Rightarrow> int \<times> fuse_copy_state" where
  "move_fallback i cs =
     (let (err, cs1) = cs_lock (cs\<lparr>cs_pg := Some (pb_page (w_bufs cs i)), cs_offset := pb_offset (w_bufs cs i)\<rparr>)
      in (if err = 0 then 1 else err, cs1))"

definition old_page_unfit :: "kpage \<Rightarrow> bool" where
  "old_page_unfit q \<longleftrightarrow> p_mapcount q \<noteq> 0 \<or> PG_private \<in> p_flags q \<or> PG_dirty \<in> p_flags q \<or>
     PG_writeback \<in> p_flags q \<or> PG_mlocked \<in> p_flags q"

text \<open>Result: the error code (\<open>1\<close>: fall back to copying) and the page now in the request.
  \<open>repl\<close> is \<open>replace_page_cache_page\<close> on the table of pages.\<close>

definition fuse_try_move_page ::
  "(nat \<Rightarrow> nat \<Rightarrow> (nat \<Rightarrow> kpage) \<Rightarrow> (nat \<Rightarrow> kpage)) \<Rightarrow> nat \<Rightarrow> nat \<Rightarrow> fuse_copy_state \<Rightarrow> (int \<times> nat \<times> fuse_copy_state) outcome" where
  "fuse_try_move_page repl i oldpage cs0 =
     (let out_put_old = (\<lambda>err page cs. Done (err, page, put_page oldpage cs));
          fallback = (\<lambda>cs. let (err, cs1) = move_fallback i cs in out_put_old err oldpage cs1);
          (err, cs) = cs_unlock (get_page oldpage cs0)
      in if err \<noteq> 0 then out_put_old err oldpage cs
         else
      (let cs1 = fuse_copy_finish cs; bf = w_bufs cs1 i; newpage = pb_page bf in
       if pb_confirm bf \<noteq> 0 then out_put_old (- int (pb_confirm bf)) oldpage cs1
       else if cs_nr_segs cs1 = 0 then Aborted
       else
      (let cs2 = cs1\<lparr>cs_currbuf := Some i, cs_len := pb_len bf, cs_pipebufs := Some (i + 1),
                   cs_nr_segs := cs_nr_segs cs1 - 1\<rparr>
       in if pb_len bf \<noteq> PAGE_SIZE then fallback cs2
          else if \<not> pb_steal bf then fallback cs2
          else
      (let cs3 = set_page_flag PG_locked newpage cs2;
           cs4 = clear_page_flag PG_mappedtodisk newpage (set_page_flag PG_uptodate newpage cs3)
       in if fuse_check_page newpage cs4 \<or> old_page_unfit (w_page cs4 oldpage)
          then fallback (clear_page_flag PG_locked newpage cs4)
          else
      (let cs5 = get_page newpage (cs4\<lparr>w_page := repl oldpage newpage (w_page cs4)\<rparr>);
           cs6 = (if pb_islru bf then cs5 else set_page_flag PG_lru newpage cs5);
           cs7 = tick (pipe_buf_release i cs6)
       in if aborted_now cs6
          then out_put_old (- ENOENT) oldpage (put_page newpage (clear_page_flag PG_locked newpage cs7))
          else out_put_old 0 newpage
                 ((put_page oldpage (clear_page_flag PG_locked oldpage cs7))\<lparr>cs_len := 0\<rparr>))))))"

definition fuse_ref_page :: "nat \<Rightarrow> nat \<Rightarrow> nat \<Rightarrow> nat \<Rightarrow> fuse_copy_state \<Rightarrow> int \<times> fuse_copy_state" where
  "fuse_ref_page i page off count cs =
     (if cs_max_usage cs \<le> cs_nr_segs cs then (- EIO, cs)
      else (let (err, cs1) = cs_unlock (get_page page cs) in
        if err \<noteq> 0 then (err, put_page page cs1)
        else (let cs2 = fuse_copy_finish cs1 in
          (0, (upd_buf i (\<lambda>bf. bf\<lparr>pb_page := page, pb_offset := off, pb_len := count\<rparr>) cs2)
             \<lparr>cs_pipebufs := Some (i + 1), cs_nr_segs := cs_nr_segs cs2 + 1, cs_len := 0\<rparr>))))"

text \<open>Measure of the copy loops: a round copies bytes or uses up a pipe buffer.\<close>

lemma cs_lock_fields [simp]:
  "cs_len (snd (cs_lock cs)) = cs_len cs" "cs_nr_segs (snd (cs_lock cs)) = cs_nr_segs cs"
  "cs_write (snd (cs_lock cs)) = cs_write cs" "cs_pipebufs (snd (cs_lock cs)) = cs_pipebufs cs"
  by (auto simp: cs_lock_def tick_def)

lemma cs_unlock_fields [simp]:
  "cs_len (snd (cs_unlock cs)) = cs_len cs" "cs_nr_segs (snd (cs_unlock cs)) = cs_nr_segs cs"
  "cs_write (snd (cs_unlock cs)) = cs_write cs" "cs_pipebufs (snd (cs_unlock cs)) = cs_pipebufs cs"
  by (auto simp: cs_unlock_def tick_def)

lemma fuse_copy_finish_fields [simp]:
  "cs_len (fuse_copy_finish cs) = cs_len cs" "cs_nr_segs (fuse_copy_finish cs) = cs_nr_segs cs"
  "cs_write (fuse_copy_finish cs) = cs_write cs" "cs_pipebufs (fuse_copy_finish cs) = cs_pipebufs cs"
  by (auto simp: fuse_copy_finish_def Let_def upd_buf_def put_page_def upd_page_def set_page_flag_def split: option.split)

lemma fuse_copy_do_fields [simp]:
  "cs_len (snd (fuse_copy_do cs v n)) = cs_len cs - min n (cs_len cs)"
  "cs_nr_segs (snd (fuse_copy_do cs v n)) = cs_nr_segs cs" "fst (fuse_copy_do cs v n) = min n (cs_len cs)"
  "cs_write (snd (fuse_copy_do cs v n)) = cs_write cs" "cs_pipebufs (snd (fuse_copy_do cs v n)) = cs_pipebufs cs"
  by (auto simp: fuse_copy_do_def Let_def memcpy_at_def split: option.split)

lemma fuse_copy_fill_progress:
  assumes "fuse_copy_fill cs = Done (0, cs')"
  shows "0 < cs_len cs' \<or> (cs_nr_segs cs' < cs_nr_segs cs \<and> \<not> cs_write cs)"
proof -
  obtain err cs1 where u: "cs_unlock cs = (err, cs1)" by fastforce
  have f [simp]: "cs_nr_segs cs1 = cs_nr_segs cs" "cs_write cs1 = cs_write cs"
    using cs_unlock_fields[of cs] u by simp_all
  let ?cs2 = "fuse_copy_finish cs1"
  have locked: "cs_len cs' = cs_len x \<and> cs_nr_segs cs' = cs_nr_segs x" if "cs_lock x = (0, cs')" for x
    using cs_lock_fields[of x] that by simp
  from assms u show ?thesis
    by (auto simp: fuse_copy_fill_def Let_def copy_fill_pipe_read_def copy_fill_pipe_write_def copy_fill_iter_def PAGE_SIZE_def
        dest!: locked split: if_splits option.splits list.splits sum.splits)
qed

function fuse_copy_one :: "fuse_copy_state \<Rightarrow> nat \<Rightarrow> nat \<Rightarrow> (int \<times> fuse_copy_state) outcome" where
  "fuse_copy_one cs val sz =
     (if sz = 0 then Done (0, cs)
      else obind (if cs_len cs = 0 then fuse_copy_fill cs else Done (0, cs)) (\<lambda>r.
        if fst r \<noteq> 0 then Done r
        else fuse_copy_one (snd (fuse_copy_do (snd r) (Some val) sz))
               (val + fst (fuse_copy_do (snd r) (Some val) sz)) (sz - fst (fuse_copy_do (snd r) (Some val) sz))))"
  by pat_completeness auto

termination
proof (relation "measures [\<lambda>(cs, val, sz). sz, \<lambda>(cs, val, sz). cs_nr_segs cs]", simp)
  fix cs :: fuse_copy_state and val sz :: nat and r
  assume "sz \<noteq> 0" and "(if cs_len cs = 0 then fuse_copy_fill cs else Done (0, cs)) = Done r" and "\<not> fst r \<noteq> 0"
  then have "0 < cs_len (snd r) \<or> cs_nr_segs (snd r) < cs_nr_segs cs"
    using fuse_copy_fill_progress[of cs "snd r"] by (cases r) (auto split: if_splits)
  with \<open>sz \<noteq> 0\<close> show "((snd (fuse_copy_do (snd r) (Some val) sz), val + fst (fuse_copy_do (snd r) (Some val) sz),
      sz - fst (fuse_copy_do (snd r) (Some val) sz)), cs, val, sz)
      \<in> measures [\<lambda>(cs, val, sz). sz, \<lambda>(cs, val, sz). cs_nr_segs cs]"
    by (auto simp: min_def)
qed
declare fuse_copy_one.simps [simp del]

text \<open>What one round of \<open>fuse_copy_page\<close> does before it copies: \<open>Inl\<close> when the function returns (with
  its result and the page now in the request), \<open>Inr\<close> the state to copy from.\<close>

definition copy_page_prepare ::
  "(nat \<Rightarrow> nat \<Rightarrow> (nat \<Rightarrow> kpage) \<Rightarrow> (nat \<Rightarrow> kpage)) \<Rightarrow> nat option \<Rightarrow> nat \<Rightarrow> nat \<Rightarrow> fuse_copy_state \<Rightarrow>
    ((int \<times> nat option \<times> fuse_copy_state) + fuse_copy_state) outcome" where
  "copy_page_prepare repl page off count cs =
     (let fill = obind (fuse_copy_fill cs) (\<lambda>(err, cs1). Done (if err \<noteq> 0 then Inl (err, page, cs1) else Inr cs1))
      in case (page, cs_pipebufs cs) of
        (Some p, Some i) \<Rightarrow>
          if cs_write cs
          then (if cs_user_pages cs then fill
                else (let (err, cs1) = fuse_ref_page i p off count cs in Done (Inl (err, page, cs1))))
          else if cs_len cs = 0
          then (if cs_move_pages cs \<and> off = 0 \<and> count = PAGE_SIZE
                then obind (fuse_try_move_page repl i p cs) (\<lambda>(err, p', cs1).
                       Done (if err \<le> 0 then Inl (err, Some p', cs1) else Inr cs1))
                else fill)
          else Done (Inr cs)
      | _ \<Rightarrow> if cs_len cs = 0 then fill else Done (Inr cs))"

lemma get_page_fields [simp]:
  "cs_len (get_page p cs) = cs_len cs" "cs_nr_segs (get_page p cs) = cs_nr_segs cs"
  "cs_write (get_page p cs) = cs_write cs" "cs_pipebufs (get_page p cs) = cs_pipebufs cs"
  by (simp_all add: get_page_def upd_page_def)

lemma fuse_try_move_page_segs:
  assumes "fuse_try_move_page repl i p cs = Done (err, p', cs')" and "0 < err"
  shows "cs_nr_segs cs' < cs_nr_segs cs"
proof -
  obtain e cs1 where u: "cs_unlock (get_page p cs) = (e, cs1)" by fastforce
  have n: "cs_nr_segs cs1 = cs_nr_segs cs" using cs_unlock_fields(2)[of "get_page p cs"] u by simp
  have e0: "e \<le> 0" using u by (auto simp: cs_unlock_def split: if_splits)
  show ?thesis using assms u n e0
    by (auto simp: fuse_try_move_page_def Let_def move_fallback_def cs_lock_def tick_def put_page_def upd_page_def
        clear_page_flag_def set_page_flag_def split: if_splits prod.splits)
qed

lemma copy_page_prepare_progress:
  assumes "copy_page_prepare repl page off count cs = Done (Inr cs')"
  shows "0 < cs_len cs' \<or> cs_nr_segs cs' < cs_nr_segs cs"
proof -
  note fill = fuse_copy_fill_progress[of cs]
  note move = fuse_try_move_page_segs
  show ?thesis using assms
    by (auto simp: copy_page_prepare_def Let_def dest!: fill move split: if_splits option.splits prod.splits)
qed

function copy_page_loop ::
  "(nat \<Rightarrow> nat \<Rightarrow> (nat \<Rightarrow> kpage) \<Rightarrow> (nat \<Rightarrow> kpage)) \<Rightarrow> nat option \<Rightarrow> nat \<Rightarrow> nat \<Rightarrow> fuse_copy_state \<Rightarrow>
    (int \<times> nat option \<times> fuse_copy_state) outcome" where
  "copy_page_loop repl page off count cs =
     (if count = 0 then Done (0, page, cs)
      else obind (copy_page_prepare repl page off count cs) (\<lambda>r. case r of
          Inl res \<Rightarrow> Done res
        | Inr cs1 \<Rightarrow>
            copy_page_loop repl page
              (off + fst (fuse_copy_do cs1 (map_option (\<lambda>p. page_addr p off) page) count))
              (count - fst (fuse_copy_do cs1 (map_option (\<lambda>p. page_addr p off) page) count))
              (snd (fuse_copy_do cs1 (map_option (\<lambda>p. page_addr p off) page) count))))"
  by pat_completeness auto

termination
proof (relation "measures [\<lambda>(repl, page, off, count, cs). count, \<lambda>(repl, page, off, count, cs). cs_nr_segs cs]", simp)
  fix repl and page :: "nat option" and off count :: nat and cs r cs1
  assume "count \<noteq> 0" and "copy_page_prepare repl page off count cs = Done r" and "r = Inr cs1"
  then have "0 < cs_len cs1 \<or> cs_nr_segs cs1 < cs_nr_segs cs" using copy_page_prepare_progress by simp
  with \<open>count \<noteq> 0\<close> show "((repl, page, off + fst (fuse_copy_do cs1 (map_option (\<lambda>p. page_addr p off) page) count),
      count - fst (fuse_copy_do cs1 (map_option (\<lambda>p. page_addr p off) page) count),
      snd (fuse_copy_do cs1 (map_option (\<lambda>p. page_addr p off) page) count)), repl, page, off, count, cs)
      \<in> measures [\<lambda>(repl, page, off, count, cs). count, \<lambda>(repl, page, off, count, cs). cs_nr_segs cs]"
    by (auto simp: min_def)
qed
declare copy_page_loop.simps [simp del]

definition fuse_copy_page ::
  "(nat \<Rightarrow> nat \<Rightarrow> (nat \<Rightarrow> kpage) \<Rightarrow> (nat \<Rightarrow> kpage)) \<Rightarrow> nat option \<Rightarrow> nat \<Rightarrow> nat \<Rightarrow> bool \<Rightarrow> fuse_copy_state \<Rightarrow>
    (int \<times> nat option \<times> fuse_copy_state) outcome" where
  "fuse_copy_page repl page off count zeroing cs =
     (let cs1 = (case page of
          Some p \<Rightarrow> (if zeroing \<and> count < PAGE_SIZE
                    then cs\<lparr>w_mem := mem_write (w_mem cs) (page_addr p 0) (replicate PAGE_SIZE 0)\<rparr> else cs)
        | None \<Rightarrow> cs)
      in copy_page_loop repl page off count cs1)"

subsection \<open>Pages of a request, and the header and footer of a reply\<close>

text \<open>The pages of a request with their descriptors (offset, length); \<open>num_pages\<close> is their number.\<close>

record fuse_args_pages =
  ap_pages :: "nat option list"
  ap_descs :: "(nat \<times> nat) list"

text \<open>The fields of \<open>req->out.h\<close> this repository adds, and the memory of the daemon.
  \<open>uw_left\<close> is the result of \<open>copy_to_user\<close>: how many bytes were not copied; \<open>uw_temp\<close> and
  \<open>uw_kbuf\<close>: the two allocations succeed.\<close>

record split_env =
  oh_header :: nat
  oh_footer :: nat
  oh_mem :: nat
  uw_mem :: memory
  uw_left :: nat
  uw_temp :: bool
  uw_kbuf :: bool

text \<open>\<open>n\<close> bytes of a mapped page; outside the page the access is \<open>Aborted\<close>.\<close>

definition read_page :: "memory \<Rightarrow> nat option \<Rightarrow> int \<Rightarrow> nat \<Rightarrow> byte list outcome" where
  "read_page m page off n =
     (if n = 0 then Done []
      else case page of
        None \<Rightarrow> Aborted
      | Some p \<Rightarrow> if off < 0 \<or> int PAGE_SIZE < off + int n then Aborted
                 else Done (mem_read m (page_addr p (nat off)) n))"

text \<open>Writing into the buffer of \<open>kzalloc\<close>.\<close>

definition buf_write :: "byte list \<Rightarrow> nat \<Rightarrow> byte list \<Rightarrow> byte list outcome" where
  "buf_write kbuf at bs = (if length kbuf < at + length bs \<and> bs \<noteq> [] then Aborted
     else Done (take at kbuf @ bs @ drop (at + length bs) kbuf))"

definition desc_offset :: "fuse_args_pages \<Rightarrow> nat \<Rightarrow> nat" where
  "desc_offset ap i = fst (ap_descs ap ! i)"

text \<open>One round of the loop of \<open>fuse_split_payload\<close>.\<close>

definition split_round :: "memory \<Rightarrow> fuse_args_pages \<Rightarrow> nat \<Rightarrow> nat \<Rightarrow> nat \<Rightarrow> nat \<Rightarrow> byte list \<Rightarrow> byte list outcome" where
  "split_round m ap header footer nbytes i kbuf =
     obind (if i = 0
            then obind (read_page m (ap_pages ap ! i) (int (desc_offset ap i)) header) (buf_write kbuf 0)
            else Done kbuf) (\<lambda>kbuf1.
       if i = length (ap_pages ap) - 2
       then obind (read_page m (ap_pages ap ! (i + 1)) (int (desc_offset ap (i + 1)) + int nbytes - int footer) footer)
              (buf_write kbuf1 header)
       else Done kbuf1)"

fun split_loop :: "nat \<Rightarrow> memory \<Rightarrow> fuse_args_pages \<Rightarrow> nat \<Rightarrow> nat \<Rightarrow> nat \<Rightarrow> nat \<Rightarrow> byte list \<Rightarrow> byte list outcome" where
  "split_loop 0 m ap header footer nbytes i kbuf = Done kbuf"
| "split_loop (Suc k) m ap header footer nbytes i kbuf =
     obind (split_round m ap header footer nbytes i kbuf) (split_loop k m ap header footer nbytes (i + 1))"

text \<open>\<open>num_pages - 1\<close> is unsigned: without pages the loop runs off the arrays.\<close>

definition fuse_split_payload :: "memory \<Rightarrow> fuse_args_pages \<Rightarrow> nat \<Rightarrow> split_env \<Rightarrow> split_env outcome" where
  "fuse_split_payload m ap nbytes e =
     (let header = oh_header e; footer = oh_footer e in
      if header = 0 \<and> footer = 0 then Done e
      else if \<not> uw_temp e \<or> ap_pages ap = [] then Aborted
      else if \<not> uw_kbuf e then (if 2 \<le> length (ap_pages ap) \<or> oh_mem e \<noteq> 0 then Aborted else Done e)
      else obind (split_loop (length (ap_pages ap) - 1) m ap header footer nbytes 0 (replicate (u32_add header footer) 0)) (\<lambda>kbuf.
        Done (if oh_mem e = 0 then e
              else e\<lparr>uw_mem := mem_write (uw_mem e) (oh_mem e) (take (u32_add header footer - uw_left e) kbuf)\<rparr>)))"

text \<open>The loop of \<open>fuse_copy_pages\<close> from page \<open>i\<close> on: result, pages, \<open>last_bytes\<close>.\<close>

fun copy_pages_loop ::
  "(nat \<Rightarrow> nat \<Rightarrow> (nat \<Rightarrow> kpage) \<Rightarrow> (nat \<Rightarrow> kpage)) \<Rightarrow> bool \<Rightarrow> (nat \<times> nat) list \<Rightarrow> nat option list \<Rightarrow> nat \<Rightarrow> nat \<Rightarrow>
    fuse_copy_state \<Rightarrow> (int \<times> nat option list \<times> nat \<times> fuse_copy_state) outcome" where
  "copy_pages_loop repl zeroing ((off, n) # descs) (page # pages) nbytes last_bytes cs =
     (if nbytes = 0 \<and> \<not> zeroing then Done (0, page # pages, last_bytes, cs)
      else obind (fuse_copy_page repl page off (min nbytes n) zeroing cs) (\<lambda>(err, page', cs1).
        if err \<noteq> 0 then Done (err, page' # pages, last_bytes, cs1)
        else obind (copy_pages_loop repl zeroing descs pages (nbytes - min nbytes n)
                      (if pages = [] then nbytes else last_bytes) cs1) (\<lambda>(err', pages', lb, cs2).
               Done (err', page' # pages', lb, cs2))))"
| "copy_pages_loop repl zeroing descs pages nbytes last_bytes cs = Done (0, pages, last_bytes, cs)"

definition fuse_copy_pages ::
  "(nat \<Rightarrow> nat \<Rightarrow> (nat \<Rightarrow> kpage) \<Rightarrow> (nat \<Rightarrow> kpage)) \<Rightarrow> nat \<Rightarrow> bool \<Rightarrow> fuse_args_pages \<Rightarrow> split_env \<Rightarrow> fuse_copy_state \<Rightarrow>
    (int \<times> fuse_args_pages \<times> split_env \<times> fuse_copy_state) outcome" where
  "fuse_copy_pages repl nbytes zeroing ap e cs =
     obind (copy_pages_loop repl zeroing (ap_descs ap) (ap_pages ap) nbytes 0 cs) (\<lambda>(err, pages, last_bytes, cs1).
       (let ap1 = ap\<lparr>ap_pages := pages\<rparr> in
        if err \<noteq> 0 then Done (err, ap1, e, cs1)
        else obind (fuse_split_payload (w_mem cs1) ap1 last_bytes e) (\<lambda>e1. Done (0, ap1, e1, cs1))))"

text \<open>\<open>fuse_copy_args\<close>: the arguments are addresses with sizes; the last may be the pages.\<close>

fun fuse_copy_args ::
  "(nat \<Rightarrow> nat \<Rightarrow> (nat \<Rightarrow> kpage) \<Rightarrow> (nat \<Rightarrow> kpage)) \<Rightarrow> bool \<Rightarrow> bool \<Rightarrow> (nat \<times> nat) list \<Rightarrow> fuse_args_pages \<Rightarrow> split_env \<Rightarrow>
    fuse_copy_state \<Rightarrow> (int \<times> fuse_args_pages \<times> split_env \<times> fuse_copy_state) outcome" where
  "fuse_copy_args repl argpages zeroing [] ap e cs = Done (0, ap, e, cs)"
| "fuse_copy_args repl argpages zeroing ((val, n) # args) ap e cs =
     (if args = [] \<and> argpages then fuse_copy_pages repl n zeroing ap e cs
      else obind (fuse_copy_one cs val n) (\<lambda>(err, cs1).
        if err \<noteq> 0 then Done (err, ap, e, cs1) else fuse_copy_args repl argpages zeroing args ap e cs1))"

text \<open>\<open>copy_out_args\<close>: the sizes of the arguments are checked against the length of the reply, and the
  last one is cut to what is there.\<close>

definition copy_out_args ::
  "(nat \<Rightarrow> nat \<Rightarrow> (nat \<Rightarrow> kpage) \<Rightarrow> (nat \<Rightarrow> kpage)) \<Rightarrow> fuse_args \<Rightarrow> nat list \<Rightarrow> nat \<Rightarrow> fuse_args_pages \<Rightarrow> split_env \<Rightarrow>
    fuse_copy_state \<Rightarrow> (int \<times> fuse_args_pages \<times> split_env \<times> fuse_copy_state) outcome" where
  "copy_out_args repl args vals nbytes ap e cs =
     (case copy_out_args_sizes args nbytes of
        None \<Rightarrow> Done (- EINVAL, ap, e, cs)
      | Some ns \<Rightarrow> fuse_copy_args repl (ar_out_pages args) (ar_page_zeroing args) (zip vals ns) ap e cs)"

text \<open>\<open>fuse_dev_do_write\<close> between finding the request and ending it: the reply header \<open>oh\<close> has been read.\<close>

definition fuse_dev_do_write_copy ::
  "(nat \<Rightarrow> nat \<Rightarrow> (nat \<Rightarrow> kpage) \<Rightarrow> (nat \<Rightarrow> kpage)) \<Rightarrow> out_header \<Rightarrow> fuse_args \<Rightarrow> nat list \<Rightarrow> nat \<Rightarrow> fuse_args_pages \<Rightarrow>
    split_env \<Rightarrow> fuse_copy_state \<Rightarrow> (int \<times> fuse_args_pages \<times> split_env \<times> fuse_copy_state) outcome" where
  "fuse_dev_do_write_copy repl oh args vals nbytes ap e cs =
     (let cs1 = cs\<lparr>cs_req := True\<rparr>;
          cs2 = (if \<not> ar_page_replace args then cs1\<lparr>cs_move_pages := False\<rparr> else cs1)
      in obind (if oh_error oh \<noteq> 0
                then Done (if nbytes \<noteq> OUT_HEADER_SIZE then - EINVAL else 0, ap, e, cs2)
                else copy_out_args repl args vals nbytes ap e cs2)
           (\<lambda>(err, ap1, e1, cs3). Done (err, ap1, e1, fuse_copy_finish cs3)))"

text \<open>The copies of \<open>fuse_dev_do_read\<close>: the header of the request at \<open>hdr\<close>, then its arguments.\<close>

definition fuse_dev_do_read_copy ::
  "(nat \<Rightarrow> nat \<Rightarrow> (nat \<Rightarrow> kpage) \<Rightarrow> (nat \<Rightarrow> kpage)) \<Rightarrow> nat \<Rightarrow> fuse_args \<Rightarrow> nat list \<Rightarrow> fuse_args_pages \<Rightarrow> split_env \<Rightarrow>
    fuse_copy_state \<Rightarrow> (int \<times> fuse_args_pages \<times> split_env \<times> fuse_copy_state) outcome" where
  "fuse_dev_do_read_copy repl hdr args vals ap e cs =
     obind (fuse_copy_one (cs\<lparr>cs_req := True\<rparr>) hdr IN_HEADER_SIZE) (\<lambda>(err, cs1).
     obind (if err \<noteq> 0 then Done (err, ap, e, cs1)
            else fuse_copy_args repl (ar_in_pages args) False (zip vals (ar_in_args args)) ap e cs1)
       (\<lambda>(err', ap1, e1, cs2). Done (err', ap1, e1, fuse_copy_finish cs2)))"

subsection \<open>Pipes\<close>

text \<open>A pipe is the list of its buffers from \<open>tail\<close> to \<open>head\<close>.\<close>

fun pipe_sum :: "nat \<Rightarrow> pipe_buffer list \<Rightarrow> nat \<Rightarrow> nat" where
  "pipe_sum len [] rem = rem"
| "pipe_sum len (b # bs) rem = (if rem < len then pipe_sum len bs (rem + pb_len b) else rem)"

text \<open>The loop of \<open>fuse_dev_splice_write\<close> that takes \<open>rem\<close> bytes off a pipe into at most \<open>count\<close>
  buffers; \<open>get_ok\<close> is the result of \<open>pipe_buf_get\<close>. Result: whether it came to the end, the
  buffers taken, the pipe left.\<close>

fun splice_take :: "bool \<Rightarrow> nat \<Rightarrow> nat \<Rightarrow> pipe_buffer list \<Rightarrow> bool \<times> pipe_buffer list \<times> pipe_buffer list" where
  "splice_take get_ok 0 count pipe = (True, [], pipe)"
| "splice_take get_ok (Suc rem) count [] = (False, [], [])"
| "splice_take get_ok (Suc rem) 0 (b # pipe) = (False, [], b # pipe)"
| "splice_take get_ok (Suc rem) (Suc count) (b # pipe) =
     (if pb_len b \<le> Suc rem
      then (let (ok, bufs, pipe') = splice_take get_ok (Suc rem - pb_len b) count pipe in (ok, b # bufs, pipe'))
      else if \<not> get_ok then (False, [], b # pipe)
      else (True, [b\<lparr>pb_gift := False, pb_len := Suc rem\<rparr>],
            b\<lparr>pb_offset := pb_offset b + Suc rem, pb_len := pb_len b - Suc rem\<rparr> # pipe))"

text \<open>\<open>fuse_dev_splice_write\<close> up to \<open>fuse_dev_do_write\<close>: an error with the buffers to release, or the
  state to write from.\<close>

definition fuse_dev_splice_write_start ::
  "bool \<Rightarrow> bool \<Rightarrow> bool \<Rightarrow> nat \<Rightarrow> pipe_buffer list \<Rightarrow> fuse_copy_state \<Rightarrow>
    ((int \<times> pipe_buffer list) + fuse_copy_state \<times> pipe_buffer list) \<times> pipe_buffer list" where
  "fuse_dev_splice_write_start alloc_ok get_ok splice_move len pipe cs =
     (if \<not> alloc_ok then (Inl (- ENOMEM, []), pipe)
      else if pipe_sum len pipe 0 < len then (Inl (- EINVAL, []), pipe)
      else (let (ok, bufs, pipe') = splice_take get_ok len (length pipe) pipe in
        if \<not> ok then (Inl (- EINVAL, bufs), pipe')
        else (Inr ((fuse_copy_init False cs)\<lparr>cs_pipebufs := Some 0, cs_nr_segs := length bufs,
                     w_bufs := (\<lambda>i. if i < length bufs then bufs ! i else w_bufs cs i),
                     cs_move_pages := splice_move\<rparr>, bufs), pipe')))"

text \<open>Its end: the buffers whose pages were not moved are released.\<close>

definition fuse_dev_splice_write_end :: "nat \<Rightarrow> fuse_copy_state \<Rightarrow> fuse_copy_state" where
  "fuse_dev_splice_write_end nbuf cs =
     fold (\<lambda>i cs. if pb_ops (w_bufs cs i) then pipe_buf_release i cs else cs) [0..<nbuf] cs"

text \<open>\<open>fuse_dev_splice_read\<close> after \<open>fuse_dev_do_read\<close> returned \<open>ret\<close>: the buffers are added to the pipe.
  \<open>add\<close> is \<open>add_to_pipe\<close>: the pipe after it, and its result. Result: the value returned, the
  pipe, and the number of the first buffer whose page is put.\<close>

fun splice_add ::
  "(pipe_buffer list \<Rightarrow> pipe_buffer \<Rightarrow> int \<times> pipe_buffer list) \<Rightarrow> pipe_buffer list \<Rightarrow> nat \<Rightarrow> int \<Rightarrow> pipe_buffer list \<Rightarrow>
    int \<times> int \<times> nat \<times> pipe_buffer list" where
  "splice_add add [] page_nr tot pipe = (0, tot, page_nr, pipe)"
| "splice_add add (b # bufs) page_nr tot pipe =
     (let (ret, pipe') = add pipe b in
      if ret < 0 then (ret, tot, page_nr + 1, pipe') else splice_add add bufs (page_nr + 1) (tot + ret) pipe')"

definition fuse_dev_splice_read_end ::
  "(pipe_buffer list \<Rightarrow> pipe_buffer \<Rightarrow> int \<times> pipe_buffer list) \<Rightarrow> int \<Rightarrow> pipe_buffer list \<Rightarrow> fuse_copy_state \<Rightarrow>
    int \<times> pipe_buffer list \<times> fuse_copy_state" where
  "fuse_dev_splice_read_end add ret pipe cs =
     (let out = (\<lambda>ret page_nr pipe. (ret, pipe, fold (\<lambda>i. put_page (pb_page (w_bufs cs i))) [page_nr..<cs_nr_segs cs] cs))
      in if ret < 0 then out ret 0 pipe
         else if cs_max_usage cs < length pipe + cs_nr_segs cs then out (- EIO) 0 pipe
         else (let bufs = map (\<lambda>i. (w_bufs cs i)\<lparr>pb_ops := True, pb_gift := False, pb_islru := False\<rparr>) [0..<cs_nr_segs cs];
                   (r, tot, page_nr, pipe') = splice_add add bufs 0 0 pipe
               in out (if tot \<noteq> 0 then tot else r) page_nr pipe'))"

subsection \<open>Copying as a transfer between two lists of addresses\<close>

text \<open>The specification of a copy: the bytes at one list of addresses go to another.\<close>

fun scatter :: "memory \<Rightarrow> nat list \<Rightarrow> byte list \<Rightarrow> memory" where
  "scatter m (a # as) (b # bs) = scatter (m(a := b)) as bs"
| "scatter m as bs = m"

definition xfer :: "bool \<Rightarrow> memory \<Rightarrow> nat list \<Rightarrow> nat list \<Rightarrow> memory" where
  "xfer wr m us ks = (if wr then scatter m us (map m ks) else scatter m ks (map m us))"

lemma scatter_Nil [simp]: "scatter m [] bs = m" "scatter m as [] = m"
  by (cases as; simp)+

lemma scatter_append:
  "length as = length bs \<Longrightarrow> scatter m (as @ as') (bs @ bs') = scatter (scatter m as bs) as' bs'"
  by (induction m as bs rule: scatter.induct) auto

lemma scatter_other [simp]: "x \<notin> set as \<Longrightarrow> scatter m as bs x = m x"
  by (induction m as bs rule: scatter.induct) auto

lemma map_scatter_other: "set xs \<inter> set as = {} \<Longrightarrow> map (scatter m as bs) xs = map m xs"
  by (simp add: disjoint_iff)

lemma map_scatter_same:
  assumes "length as = length bs" and "distinct as"
  shows "map (scatter m as bs) as = bs"
  using assms by (induction m as bs rule: scatter.induct) auto

lemma scatter_upt: "mem_write m a bs = scatter m [a..<a + length bs] bs"
proof (induction bs arbitrary: m a)
  case (Cons b bs)
  have "mem_write m a (b # bs) = mem_write (m(a := b)) (Suc a) bs"
    by (rule ext) (auto simp: mem_write_def nth_Cons' Suc_diff_le not_less_eq_eq le_Suc_eq)
  also have "\<dots> = scatter (m(a := b)) [Suc a..<Suc a + length bs] bs" by (rule Cons.IH)
  finally have eq: "mem_write m a (b # bs) = scatter (m(a := b)) [Suc a..<Suc a + length bs] bs" .
  have "[a..<a + length (b # bs)] = a # [Suc a..<Suc a + length bs]"
    by (simp add: upt_conv_Cons del: upt_Suc)
  then show ?case by (simp only: eq scatter.simps)
qed simp

lemma mem_read_map: "mem_read m a n = map m [a..<a + n]"
  by (simp add: mem_read_def)

lemma xfer_Nil [simp]: "xfer wr m [] ks = m" "xfer wr m us [] = m"
  by (simp_all add: xfer_def)

lemma xfer_append:
  assumes "length us = length ks" and "set (us @ us') \<inter> set (ks @ ks') = {}"
  shows "xfer wr m (us @ us') (ks @ ks') = xfer wr (xfer wr m us ks) us' ks'"
proof -
  have "set ks' \<inter> set us = {}" "set us' \<inter> set ks = {}" using assms(2) by auto
  then show ?thesis using assms(1) by (simp add: xfer_def scatter_append map_scatter_other)
qed

lemma xfer_other: "x \<notin> set us \<union> set ks \<Longrightarrow> xfer wr m us ks x = m x"
  by (simp add: xfer_def)

lemma xfer_result:
  assumes "length us = length ks" and "distinct us" and "distinct ks" and "set us \<inter> set ks = {}"
  shows "map (xfer wr m us ks) us = map (xfer wr m us ks) ks"
    and "map (xfer wr m us ks) (if wr then ks else us) = map m (if wr then ks else us)"
  using assms by (cases wr; simp add: xfer_def map_scatter_same; force simp: disjoint_iff)+

text \<open>The addresses of the daemon's buffer that the copy has yet to use.\<close>

definition piece :: "nat \<Rightarrow> nat \<Rightarrow> nat \<Rightarrow> nat list" where
  "piece p off n = [page_addr p off..<page_addr p off + n]"

definition cur_addrs :: "fuse_copy_state \<Rightarrow> nat list" where
  "cur_addrs cs = (case cs_pg cs of Some p \<Rightarrow> piece p (cs_offset cs) (cs_len cs) | None \<Rightarrow> [])"

definition buf_addrs :: "pipe_buffer \<Rightarrow> nat list" where
  "buf_addrs b = piece (pb_page b) (pb_offset b) (pb_len b)"

fun iter_addrs :: "(int + nat \<times> nat \<times> nat) list \<Rightarrow> nat list" where
  "iter_addrs (Inr (p, off, n) # it) = piece p off n @ iter_addrs it"
| "iter_addrs it = []"

definition alloc_addrs :: "nat option list \<Rightarrow> nat list" where
  "alloc_addrs al = concat (map (\<lambda>po. case po of Some p \<Rightarrow> piece p 0 PAGE_SIZE | None \<Rightarrow> []) al)"

definition rest_addrs :: "fuse_copy_state \<Rightarrow> nat list" where
  "rest_addrs cs = (case cs_pipebufs cs of
      None \<Rightarrow> iter_addrs (cs_iter cs)
    | Some i \<Rightarrow> if cs_write cs then alloc_addrs (take (cs_max_usage cs - cs_nr_segs cs) (w_alloc cs))
               else concat (map (\<lambda>j. buf_addrs (w_bufs cs j)) [i..<i + cs_nr_segs cs]))"

definition addrs :: "fuse_copy_state \<Rightarrow> nat list" where
  "addrs cs = cur_addrs cs @ rest_addrs cs"

text \<open>No kernel service fails and the connection is not aborted.\<close>

definition undisturbed :: "fuse_copy_state \<Rightarrow> bool" where
  "undisturbed cs \<longleftrightarrow> (cs_req cs \<longrightarrow> w_abort_at cs = None) \<and> (0 < cs_len cs \<longrightarrow> cs_pg cs \<noteq> None) \<and>
     (case cs_pipebufs cs of
        None \<Rightarrow> (\<forall>r \<in> set (cs_iter cs). \<exists>p off n. r = Inr (p, off, n) \<and> 0 < n)
      | Some i \<Rightarrow> if cs_write cs then None \<notin> set (w_alloc cs)
                 else (\<forall>j. i \<le> j \<and> j < i + cs_nr_segs cs \<longrightarrow> pb_confirm (w_bufs cs j) = 0))"

text \<open>What a copy does not change.\<close>

definition same_job :: "fuse_copy_state \<Rightarrow> fuse_copy_state \<Rightarrow> bool" where
  "same_job cs cs' \<longleftrightarrow> cs_write cs' = cs_write cs \<and> cs_req cs' = cs_req cs \<and> cs_user_pages cs' = cs_user_pages cs \<and>
     cs_move_pages cs' = cs_move_pages cs \<and> w_abort_at cs' = w_abort_at cs \<and> cs_max_usage cs' = cs_max_usage cs \<and>
     (cs_pipebufs cs' = None \<longleftrightarrow> cs_pipebufs cs = None)"

lemma same_job_refl [simp]: "same_job cs cs"
  by (simp add: same_job_def)

lemma same_job_trans: "same_job a b \<Longrightarrow> same_job b c \<Longrightarrow> same_job a c"
  by (simp add: same_job_def)

lemma memcpy_at_xfer:
  "w_mem (memcpy_at dst src n cs) = xfer True (w_mem cs) [dst..<dst + n] [src..<src + n]"
  "w_mem (memcpy_at dst src n cs) = xfer False (w_mem cs) [src..<src + n] [dst..<dst + n]"
  by (simp_all add: memcpy_at_def scatter_upt xfer_def mem_read_map)

lemma take_piece: "n \<le> k \<Longrightarrow> take n (piece p off k) = piece p off n"
  by (simp add: piece_def)

lemma drop_piece: "n \<le> k \<Longrightarrow> drop n (piece p off k) = piece p (off + n) (k - n)"
  by (simp add: piece_def page_addr_def add.assoc)

lemma length_piece [simp]: "length (piece p off n) = n"
  by (simp add: piece_def)

lemma rest_addrs_cong:
  assumes "cs_pipebufs cs' = cs_pipebufs cs" "cs_write cs' = cs_write cs" "cs_iter cs' = cs_iter cs"
    "cs_max_usage cs' = cs_max_usage cs" "cs_nr_segs cs' = cs_nr_segs cs" "w_alloc cs' = w_alloc cs" "w_bufs cs' = w_bufs cs"
  shows "rest_addrs cs' = rest_addrs cs"
  using assms by (simp add: rest_addrs_def split: option.split)

lemma fuse_copy_do_spec:
  assumes und: "undisturbed cs" and n: "n = min sz (cs_len cs)" and cs': "cs' = snd (fuse_copy_do cs (Some v) sz)"
  shows "w_mem cs' = xfer (cs_write cs) (w_mem cs) (take n (addrs cs)) [v..<v + n]"
    and "addrs cs' = drop n (addrs cs)" and "undisturbed cs'" and "same_job cs cs'" and "w_locked cs' = w_locked cs"
    and "cs_pipebufs cs' = cs_pipebufs cs" and "cs_pg cs' = cs_pg cs" and "w_bufs cs' = w_bufs cs" and "w_page cs' = w_page cs"
proof -
  have rest: "rest_addrs cs' = rest_addrs cs"
    unfolding cs' by (rule rest_addrs_cong) (simp_all add: fuse_copy_do_def Let_def memcpy_at_def split: option.split)
  have "cs_pg cs = None \<Longrightarrow> n = 0" using und n by (auto simp: undisturbed_def)
  then show "w_mem cs' = xfer (cs_write cs) (w_mem cs) (take n (addrs cs)) [v..<v + n]"
    using n unfolding cs' by (cases "cs_pg cs"; cases "cs_write cs")
      (simp_all add: fuse_copy_do_def Let_def memcpy_at_xfer(1) xfer_def addrs_def cur_addrs_def take_piece,
       simp_all add: piece_def)
  have pg: "cs_pg cs' = cs_pg cs" "cs_offset cs' = cs_offset cs + n" "cs_len cs' = cs_len cs - n"
    unfolding cs' n by (simp_all add: fuse_copy_do_def Let_def memcpy_at_def split: option.split)
  show "addrs cs' = drop n (addrs cs)"
    using n \<open>cs_pg cs = None \<Longrightarrow> n = 0\<close> pg rest
    by (cases "cs_pg cs") (simp_all add: addrs_def cur_addrs_def drop_piece)
  have "cs_req cs' = cs_req cs" "w_abort_at cs' = w_abort_at cs" "cs_pipebufs cs' = cs_pipebufs cs" "cs_iter cs' = cs_iter cs"
    "w_alloc cs' = w_alloc cs" "w_bufs cs' = w_bufs cs" "cs_nr_segs cs' = cs_nr_segs cs" "cs_write cs' = cs_write cs"
    unfolding cs' by (simp_all add: fuse_copy_do_def Let_def memcpy_at_def split: option.split)
  then show "undisturbed cs'" using und pg by (cases "cs_pipebufs cs") (simp_all add: undisturbed_def)
  show "same_job cs cs'" "w_locked cs' = w_locked cs" "cs_pipebufs cs' = cs_pipebufs cs" "cs_pg cs' = cs_pg cs"
    "w_bufs cs' = w_bufs cs" "w_page cs' = w_page cs"
    unfolding cs' by (simp_all add: fuse_copy_do_def Let_def memcpy_at_def same_job_def split: option.split)
qed

lemma cs_lock_undisturbed:
  "(cs_req cs \<longrightarrow> w_abort_at cs = None) \<Longrightarrow>
   cs_lock cs = (0, if cs_req cs then cs\<lparr>w_time := w_time cs + 1, w_locked := True\<rparr> else cs)"
  by (simp add: cs_lock_def aborted_now_def tick_def)

lemma cs_unlock_undisturbed:
  "(cs_req cs \<longrightarrow> w_abort_at cs = None) \<Longrightarrow>
   cs_unlock cs = (0, if cs_req cs then cs\<lparr>w_time := w_time cs + 1, w_locked := False\<rparr> else cs)"
  by (simp add: cs_unlock_def aborted_now_def tick_def)

lemma fuse_copy_finish_frame [simp]:
  "cs_iter (fuse_copy_finish cs) = cs_iter cs" "w_mem (fuse_copy_finish cs) = w_mem cs"
  "w_alloc (fuse_copy_finish cs) = w_alloc cs" "cs_max_usage (fuse_copy_finish cs) = cs_max_usage cs"
  "cs_req (fuse_copy_finish cs) = cs_req cs" "w_abort_at (fuse_copy_finish cs) = w_abort_at cs"
  "cs_user_pages (fuse_copy_finish cs) = cs_user_pages cs" "cs_move_pages (fuse_copy_finish cs) = cs_move_pages cs"
  "cs_pg (fuse_copy_finish cs) = None" "cs_currbuf (fuse_copy_finish cs) = None"
  "w_locked (fuse_copy_finish cs) = w_locked cs" "w_time (fuse_copy_finish cs) = w_time cs"
  by (auto simp: fuse_copy_finish_def Let_def upd_buf_def put_page_def upd_page_def set_page_flag_def split: option.split)

lemma fuse_copy_finish_bufs: "\<not> cs_write cs \<Longrightarrow> w_bufs (fuse_copy_finish cs) = w_bufs cs"
  by (auto simp: fuse_copy_finish_def Let_def upd_buf_def put_page_def upd_page_def set_page_flag_def split: option.split)

lemma concat_map_upt_Suc: "0 < n \<Longrightarrow> concat (map f [i..<i + n]) = f i @ concat (map f [i + 1..<i + 1 + (n - 1)])"
  by (simp add: upt_conv_Cons)

lemma alloc_addrs_Cons [simp]: "alloc_addrs (Some p # al) = piece p 0 PAGE_SIZE @ alloc_addrs al"
  by (simp add: alloc_addrs_def)

text \<open>A refill brings the next piece of the buffer and locks the request.\<close>

definition filled :: "fuse_copy_state \<Rightarrow> fuse_copy_state \<Rightarrow> bool" where
  "filled cs cs' \<longleftrightarrow> addrs cs' = rest_addrs cs \<and> undisturbed cs' \<and> same_job cs cs' \<and> w_mem cs' = w_mem cs \<and>
     (cs_req cs \<longrightarrow> w_locked cs')"

lemma fuse_copy_fill_spec:
  assumes und: "undisturbed cs" and more: "rest_addrs cs \<noteq> []"
  shows "\<exists>cs'. fuse_copy_fill cs = Done (0, cs') \<and> filled cs cs'"
proof -
  have ab: "cs_req cs \<longrightarrow> w_abort_at cs = None" using und by (simp add: undisturbed_def)
  let ?cs1 = "if cs_req cs then cs\<lparr>w_time := w_time cs + 1, w_locked := False\<rparr> else cs"
  let ?cs2 = "fuse_copy_finish ?cs1"
  note simps = fuse_copy_fill_def Let_def cs_unlock_undisturbed[OF ab] filled_def addrs_def rest_addrs_def cur_addrs_def
    undisturbed_def same_job_def
  show ?thesis
  proof (cases "cs_pipebufs cs")
    case None
    with und more obtain p off n it where it: "cs_iter cs = Inr (p, off, n) # it" and "0 < n"
      by (cases "cs_iter cs") (auto simp: undisturbed_def rest_addrs_def)
    with None ab und show ?thesis by (auto simp: simps copy_fill_iter_def cs_lock_undisturbed)
  next
    case (Some i)
    show ?thesis
    proof (cases "cs_write cs")
      case True
      with Some more have lt: "cs_nr_segs cs < cs_max_usage cs" "w_alloc cs \<noteq> []"
        by (cases "cs_max_usage cs - cs_nr_segs cs"; auto simp: rest_addrs_def alloc_addrs_def)+
      with und Some True obtain p al where "w_alloc cs = Some p # al"
        by (cases "w_alloc cs"; cases "hd (w_alloc cs)") (auto simp: undisturbed_def)
      with Some True ab lt und show ?thesis
        by (cases "cs_max_usage cs - cs_nr_segs cs")
          (auto simp: simps copy_fill_pipe_write_def cs_lock_undisturbed upd_buf_def Suc_diff_Suc diff_Suc)
    next
      case False
      with Some more have pos: "0 < cs_nr_segs cs" by (auto simp: rest_addrs_def intro: gr0I)
      with Some False ab und show ?thesis
        by (auto simp: simps copy_fill_pipe_read_def cs_lock_undisturbed fuse_copy_finish_bufs buf_addrs_def
            concat_map_upt_Suc[OF pos])
    qed
  qed
qed

text \<open>The bytes of the kernel addresses \<open>ks\<close> were exchanged with the next bytes of the buffer.\<close>

definition copied :: "fuse_copy_state \<Rightarrow> fuse_copy_state \<Rightarrow> nat list \<Rightarrow> bool" where
  "copied cs cs' ks \<longleftrightarrow> addrs cs' = drop (length ks) (addrs cs) \<and> undisturbed cs' \<and> same_job cs cs' \<and>
     w_mem cs' = xfer (cs_write cs) (w_mem cs) (take (length ks) (addrs cs)) ks"

lemma copied_refl: "undisturbed cs \<Longrightarrow> copied cs cs []"
  by (simp add: copied_def)

lemma copied_trans:
  assumes ab: "copied a b ks" and bc: "copied b c ks'" and len: "length ks + length ks' \<le> length (addrs a)"
    and dis: "set (addrs a) \<inter> set (ks @ ks') = {}"
  shows "copied a c (ks @ ks')"
proof -
  let ?A = "addrs a"
  have "set (take (length ks) ?A @ take (length ks') (drop (length ks) ?A)) \<subseteq> set ?A"
    by (simp add: set_take_subset set_drop_subset order_trans[OF set_take_subset])
  then have "set (take (length ks) ?A @ take (length ks') (drop (length ks) ?A)) \<inter> set (ks @ ks') = {}" using dis by blast
  from xfer_append[OF _ this] len
  have "xfer (cs_write a) (w_mem a) (take (length (ks @ ks')) ?A) (ks @ ks') =
      xfer (cs_write a) (xfer (cs_write a) (w_mem a) (take (length ks) ?A) ks) (take (length ks') (drop (length ks) ?A)) ks'"
    by (simp add: take_add)
  moreover have "same_job a c" "cs_write b = cs_write a"
    using ab bc same_job_trans[of a b c] by (simp_all add: copied_def, simp add: same_job_def)
  ultimately show ?thesis using ab bc by (simp add: copied_def add.commute)
qed

lemma copied_filled: "cs_len cs = 0 \<Longrightarrow> filled cs cs' \<Longrightarrow> copied cs cs' []"
  by (auto simp: filled_def copied_def addrs_def cur_addrs_def piece_def split: option.split)

lemma copied_do:
  assumes "undisturbed cs"
  shows "copied cs (snd (fuse_copy_do cs (Some v) sz)) [v..<v + min sz (cs_len cs)]"
  using fuse_copy_do_spec[OF assms refl refl, of v sz] by (simp add: copied_def)

lemma addrs_empty_len: "cs_len cs = 0 \<Longrightarrow> addrs cs = rest_addrs cs"
  by (simp add: addrs_def cur_addrs_def piece_def split: option.split)

lemma upt_split: "n \<le> k \<Longrightarrow> [a..<a + k] = [a..<a + n] @ [a + n..<a + n + (k - n)]"
  using upt_add_eq_append[of a "a + n" "k - n"] by simp

text \<open>A round of a copy loop followed by the rest of the loop.\<close>

lemma copied_round:
  assumes 1: "copied cs cs1 []" and n: "n = min k (cs_len cs1)" and cs2: "cs2 = snd (fuse_copy_do cs1 (Some v) k)"
    and len: "k \<le> length (addrs cs)" and dis: "set (addrs cs) \<inter> {v..<v + k} = {}"
  shows "undisturbed cs2" and "k - n \<le> length (addrs cs2)" and "set (addrs cs2) \<inter> {v + n..<v + n + (k - n)} = {}"
    and "copied cs2 cs3 [v + n..<v + n + (k - n)] \<Longrightarrow> copied cs cs3 [v..<v + k]"
proof -
  have nk: "n \<le> k" using n by simp
  have u1: "undisturbed cs1" and a1: "addrs cs1 = addrs cs" using 1 by (simp_all add: copied_def)
  note do = copied_do[OF u1, of v k]
  have dis': "set (addrs cs) \<inter> set ([] @ [v..<v + n]) = {}" using dis nk by auto
  from copied_trans[OF 1 do] len dis' n cs2 have 2: "copied cs cs2 [v..<v + n]" by simp
  then show "undisturbed cs2" and "k - n \<le> length (addrs cs2)" using len by (simp_all add: copied_def)
  have sub: "set (addrs cs2) \<subseteq> set (addrs cs)" using 2 by (simp add: copied_def set_drop_subset)
  then show "set (addrs cs2) \<inter> {v + n..<v + n + (k - n)} = {}" using dis nk by fastforce
  show "copied cs cs3 [v..<v + k]" if "copied cs2 cs3 [v + n..<v + n + (k - n)]"
    using copied_trans[OF 2 that] len dis nk upt_split[OF nk, of v] by (simp add: ivl_disj_un)
qed

lemma fuse_copy_one_spec:
  assumes "undisturbed cs" and "sz \<le> length (addrs cs)" and "set (addrs cs) \<inter> {val..<val + sz} = {}"
  shows "\<exists>cs'. fuse_copy_one cs val sz = Done (0, cs') \<and> copied cs cs' [val..<val + sz]"
  using assms
proof (induction cs val sz rule: fuse_copy_one.induct)
  case (1 cs val sz)
  show ?case
  proof (cases "sz = 0")
    case True
    with 1 show ?thesis by (simp add: fuse_copy_one.simps copied_refl)
  next
    case False
    have "\<exists>cs1. (if cs_len cs = 0 then fuse_copy_fill cs else Done (0, cs)) = Done (0, cs1) \<and> copied cs cs1 []"
    proof (cases "cs_len cs = 0")
      case True
      with 1 False have "rest_addrs cs \<noteq> []" by (auto simp: addrs_empty_len)
      from fuse_copy_fill_spec[OF 1(2) this] True show ?thesis by (auto intro: copied_filled)
    qed (simp add: 1 copied_refl)
    then obtain cs1 where c1: "(if cs_len cs = 0 then fuse_copy_fill cs else Done (0, cs)) = Done (0, cs1)"
      and 2: "copied cs cs1 []" by blast
    note rd = copied_round[OF 2 refl refl 1(3,4)]
    from 1(1)[OF False c1] rd(1-3) obtain cs3 where
      "fuse_copy_one (snd (fuse_copy_do cs1 (Some val) sz)) (val + min sz (cs_len cs1)) (sz - min sz (cs_len cs1)) = Done (0, cs3)"
      "copied (snd (fuse_copy_do cs1 (Some val) sz)) cs3
         [val + min sz (cs_len cs1)..<val + min sz (cs_len cs1) + (sz - min sz (cs_len cs1))]"
      by auto
    with rd(4) False c1 show ?thesis by (subst fuse_copy_one.simps) auto
  qed
qed

text \<open>Pages are copied byte by byte (not moved out of, or referenced from, a pipe).\<close>

definition plain :: "fuse_copy_state \<Rightarrow> bool" where
  "plain cs \<longleftrightarrow> \<not> cs_move_pages cs \<and> \<not> (cs_write cs \<and> cs_pipebufs cs \<noteq> None)"

lemma plain_copied: "copied cs cs' ks \<Longrightarrow> plain cs' = plain cs"
  by (auto simp: copied_def plain_def same_job_def)

lemma copy_page_prepare_plain:
  assumes "undisturbed cs" and "plain cs" and "addrs cs \<noteq> []"
  shows "\<exists>cs1. copy_page_prepare repl (Some p) off count cs = Done (Inr cs1) \<and> copied cs cs1 []"
proof (cases "cs_len cs = 0")
  case True
  with assms have "rest_addrs cs \<noteq> []" by (simp add: addrs_empty_len)
  from fuse_copy_fill_spec[OF assms(1) this] True assms(2) show ?thesis
    by (cases "cs_pipebufs cs") (auto simp: copy_page_prepare_def Let_def plain_def intro: copied_filled)
next
  case False
  with assms(2) show ?thesis
    by (cases "cs_pipebufs cs") (auto simp: copy_page_prepare_def Let_def plain_def intro: copied_refl[OF assms(1)])
qed

lemma copy_page_loop_plain:
  assumes "undisturbed cs" and "plain cs" and "count \<le> length (addrs cs)" and "set (addrs cs) \<inter> set (piece p off count) = {}"
  shows "\<exists>cs'. copy_page_loop repl (Some p) off count cs = Done (0, Some p, cs') \<and> copied cs cs' (piece p off count)"
  using assms
proof (induction repl "Some p" off count cs rule: copy_page_loop.induct)
  case (1 repl off count cs)
  show ?case
  proof (cases "count = 0")
    case True
    with 1 show ?thesis by (simp add: copy_page_loop.simps copied_refl piece_def)
  next
    case False
    with 1 have "addrs cs \<noteq> []" by auto
    from copy_page_prepare_plain[OF 1(2,3) this] obtain cs1
      where c1: "copy_page_prepare repl (Some p) off count cs = Done (Inr cs1)" and 2: "copied cs cs1 []" by blast
    let ?v = "page_addr p off" and ?n = "min count (cs_len cs1)"
    let ?cs2 = "snd (fuse_copy_do cs1 (Some ?v) count)"
    have addr: "page_addr p (off + ?n) = ?v + ?n" by (simp add: page_addr_def)
    have dis: "set (addrs cs) \<inter> {?v..<?v + count} = {}" using 1(5) by (simp add: piece_def)
    note rd = copied_round[OF 2 refl refl 1(4) dis]
    have pl: "plain ?cs2" using 1(3) plain_copied[OF 2] plain_copied[OF copied_do, of cs1 ?v count] 2
      by (simp add: copied_def)
    from 1(1)[OF False c1 refl _ _ _ _ , simplified, OF rd(1) pl rd(2)] rd(3)
    obtain cs3 where "copy_page_loop repl (Some p) (off + ?n) (count - ?n) ?cs2 = Done (0, Some p, cs3)"
      and "copied ?cs2 cs3 (piece p (off + ?n) (count - ?n))"
      unfolding piece_def addr by auto
    with rd(4) False c1 show ?thesis
      by (subst copy_page_loop.simps) (auto simp: piece_def addr)
  qed
qed

lemma fuse_copy_page_plain:
  assumes "undisturbed cs" and "plain cs" and "count \<le> length (addrs cs)" and "set (addrs cs) \<inter> set (piece p off count) = {}"
  shows "\<exists>cs'. fuse_copy_page repl (Some p) off count False cs = Done (0, Some p, cs') \<and> copied cs cs' (piece p off count)"
  using copy_page_loop_plain[OF assms] by (simp add: fuse_copy_page_def)

text \<open>The addresses of the first \<open>nbytes\<close> bytes of the pages of a request.\<close>

fun pages_addrs :: "(nat \<times> nat) list \<Rightarrow> nat list \<Rightarrow> nat \<Rightarrow> nat list" where
  "pages_addrs ((off, n) # descs) (p # ps) nbytes =
     piece p off (min nbytes n) @ pages_addrs descs ps (nbytes - min nbytes n)"
| "pages_addrs descs ps nbytes = []"

text \<open>What \<open>fuse_copy_pages\<close> passes on as the number of bytes in the last page.\<close>

fun last_page_bytes :: "(nat \<times> nat) list \<Rightarrow> nat \<Rightarrow> nat \<Rightarrow> nat" where
  "last_page_bytes [] nbytes lb = lb"
| "last_page_bytes ((off, n) # descs) nbytes lb =
     (if nbytes = 0 then lb else last_page_bytes descs (nbytes - min nbytes n) (if descs = [] then nbytes else lb))"

lemma pages_addrs_0 [simp]: "pages_addrs descs ps 0 = []"
  by (induction descs ps "0::nat" rule: pages_addrs.induct) (auto simp: piece_def)

lemma length_pages_addrs: "length (pages_addrs descs ps nbytes) \<le> nbytes"
  by (induction descs ps nbytes rule: pages_addrs.induct) auto

lemma copy_pages_loop_plain:
  assumes "undisturbed cs" and "plain cs" and "nbytes \<le> length (addrs cs)" and "length descs = length ps"
    and "set (addrs cs) \<inter> set (pages_addrs descs ps nbytes) = {}"
  shows "\<exists>cs'. copy_pages_loop repl False descs (map Some ps) nbytes lb cs
      = Done (0, map Some ps, last_page_bytes descs nbytes lb, cs') \<and> copied cs cs' (pages_addrs descs ps nbytes)"
  using assms
proof (induction descs ps nbytes arbitrary: lb cs rule: pages_addrs.induct)
  case (1 off n descs p ps nbytes)
  show ?case
  proof (cases "nbytes = 0")
    case True
    with 1 show ?thesis by (simp add: copied_refl piece_def)
  next
    case False
    let ?c = "min nbytes n"
    have dis: "set (addrs cs) \<inter> set (piece p off ?c) = {}" using 1(6) by auto
    have "?c \<le> length (addrs cs)" using 1(4) by simp
    from fuse_copy_page_plain[OF 1(2,3) this dis, of repl] obtain cs1
      where c1: "fuse_copy_page repl (Some p) off ?c False cs = Done (0, Some p, cs1)"
        and cp1: "copied cs cs1 (piece p off ?c)" by blast
    then have a1: "addrs cs1 = drop ?c (addrs cs)" and "undisturbed cs1" by (simp_all add: copied_def)
    have "set (addrs cs1) \<subseteq> set (addrs cs)" by (simp add: a1 set_drop_subset)
    with 1(6) have "set (addrs cs1) \<inter> set (pages_addrs descs ps (nbytes - ?c)) = {}" by auto
    moreover have "nbytes - ?c \<le> length (addrs cs1)" using 1(4) by (simp add: a1 diff_le_mono)
    ultimately have "\<exists>cs'. copy_pages_loop repl False descs (map Some ps) (nbytes - ?c) (if descs = [] then nbytes else lb) cs1
        = Done (0, map Some ps, last_page_bytes descs (nbytes - ?c) (if descs = [] then nbytes else lb), cs')
        \<and> copied cs1 cs' (pages_addrs descs ps (nbytes - ?c))"
      using 1(3,5) plain_copied[OF cp1] by (intro 1(1) \<open>undisturbed cs1\<close>) simp_all
    then
    obtain cs2 where c2: "copy_pages_loop repl False descs (map Some ps) (nbytes - ?c) (if descs = [] then nbytes else lb) cs1
        = Done (0, map Some ps, last_page_bytes descs (nbytes - ?c) (if descs = [] then nbytes else lb), cs2)"
      and cp2: "copied cs1 cs2 (pages_addrs descs ps (nbytes - ?c))" by blast
    have "?c + length (pages_addrs descs ps (nbytes - ?c)) \<le> length (addrs cs)"
      using length_pages_addrs[of descs ps "nbytes - ?c"] 1(4) by simp
    from copied_trans[OF cp1 cp2] this 1(6) have "copied cs cs2 (pages_addrs ((off, n) # descs) (p # ps) nbytes)" by simp
    moreover have "map Some ps = [] \<longleftrightarrow> descs = []" using 1(5) by auto
    ultimately show ?thesis using False c1 c2 by auto
  qed
qed (simp_all add: copied_refl)

text \<open>The kernel addresses of all arguments, in the order of the message.\<close>

fun args_addrs :: "bool \<Rightarrow> (nat \<times> nat) list \<Rightarrow> (nat \<times> nat) list \<Rightarrow> nat list \<Rightarrow> nat list" where
  "args_addrs argpages [] descs ps = []"
| "args_addrs argpages ((val, n) # args) descs ps =
     (if args = [] \<and> argpages then pages_addrs descs ps n
      else [val..<val + n] @ args_addrs argpages args descs ps)"

definition no_split :: "split_env \<Rightarrow> bool" where
  "no_split e \<longleftrightarrow> oh_header e = 0 \<and> oh_footer e = 0"

lemma fuse_split_payload_none: "no_split e \<Longrightarrow> fuse_split_payload m ap nbytes e = Done e"
  by (simp add: fuse_split_payload_def no_split_def)

lemma length_args_addrs: "length (args_addrs argpages args descs ps) \<le> sum_list (map snd args)"
  by (induction argpages args descs ps rule: args_addrs.induct)
    (use length_pages_addrs in \<open>auto simp: trans_le_add1\<close>)

lemma fuse_copy_args_spec:
  assumes "undisturbed cs" and "plain cs" and "sum_list (map snd args) \<le> length (addrs cs)" and "no_split e"
    and "ap_pages ap = map Some ps" and "length (ap_descs ap) = length ps"
    and "set (addrs cs) \<inter> set (args_addrs argpages args (ap_descs ap) ps) = {}"
  shows "\<exists>cs'. fuse_copy_args repl argpages False args ap e cs = Done (0, ap, e, cs') \<and>
     copied cs cs' (args_addrs argpages args (ap_descs ap) ps)"
  using assms
proof (induction argpages args "ap_descs ap" ps arbitrary: cs rule: args_addrs.induct)
  case (1 argpages ps)
  then show ?case by (simp add: copied_refl)
next
  case (2 argpages val n args ps)
  show ?case
  proof (cases "args = [] \<and> argpages")
    case True
    with 2(2-8) copy_pages_loop_plain[OF 2(2,3), of n "ap_descs ap" ps repl 0] show ?thesis
      by (auto simp: fuse_copy_pages_def Let_def fuse_split_payload_none 2(6)[symmetric])
  next
    case False
    have dis: "set (addrs cs) \<inter> {val..<val + n} = {}" using 2(8) False by auto
    have "n \<le> length (addrs cs)" using 2(4) by simp
    from fuse_copy_one_spec[OF 2(2) this dis] obtain cs1 where
      c1: "fuse_copy_one cs val n = Done (0, cs1)" and cp1: "copied cs cs1 [val..<val + n]" by blast
    then have a1: "addrs cs1 = drop n (addrs cs)" and u1: "undisturbed cs1" by (simp_all add: copied_def)
    have "set (addrs cs1) \<subseteq> set (addrs cs)" by (simp add: a1 set_drop_subset)
    then have "set (addrs cs1) \<inter> set (args_addrs argpages args (ap_descs ap) ps) = {}" using 2(8) False by auto
    then have "\<exists>cs'. fuse_copy_args repl argpages False args ap e cs1 = Done (0, ap, e, cs') \<and>
        copied cs1 cs' (args_addrs argpages args (ap_descs ap) ps)"
      using 2(3-7) plain_copied[OF cp1] a1 by (intro 2(1) False u1) simp_all
    then obtain cs2 where c2: "fuse_copy_args repl argpages False args ap e cs1 = Done (0, ap, e, cs2)"
      and cp2: "copied cs1 cs2 (args_addrs argpages args (ap_descs ap) ps)" by blast
    have "n + length (args_addrs argpages args (ap_descs ap) ps) \<le> length (addrs cs)"
      using length_args_addrs[of argpages args "ap_descs ap" ps] 2(4) by simp
    with copied_trans[OF cp1 cp2] 2(8) False have "copied cs cs2 (args_addrs argpages ((val, n) # args) (ap_descs ap) ps)" by auto
    with False c1 c2 show ?thesis by auto
  qed
qed

subsection \<open>The header and the footer of a reply\<close>

lemma obind_Done_id [simp]: "obind r Done = r"
  by (cases r) simp_all

lemma split_loop_0_fun [simp]: "split_loop 0 m ap h f nb i = Done"
  by (rule ext) simp

lemma split_loop_tail:
  assumes "0 < k" and "0 < i" and "i + k = length (ap_pages ap) - 1"
  shows "split_loop k m ap h f nb i kbuf =
    obind (read_page m (ap_pages ap ! (i + k)) (int (desc_offset ap (i + k)) + int nb - int f) f) (buf_write kbuf h)"
  using assms
proof (induction k arbitrary: i)
  case (Suc k)
  show ?case
  proof (cases k)
    case 0
    with Suc.prems have "i = length (ap_pages ap) - 2" by simp
    with 0 Suc.prems show ?thesis
      by (simp add: split_round_def)
  next
    case (Suc j)
    with Suc.prems have "i \<noteq> length (ap_pages ap) - 2" by simp
    with Suc Suc.IH[of "i + 1"] Suc.prems show ?thesis by (simp add: split_round_def)
  qed
qed simp

lemma split_loop_all:
  assumes n: "2 \<le> length (ap_pages ap)" and z: "z = length (ap_pages ap) - 1"
  shows "split_loop z m ap h f nb 0 kbuf =
    obind (obind (read_page m (ap_pages ap ! 0) (int (desc_offset ap 0)) h) (buf_write kbuf 0)) (\<lambda>kbuf1.
    obind (read_page m (ap_pages ap ! z) (int (desc_offset ap z) + int nb - int f) f) (buf_write kbuf1 h))"
proof (cases "z = 1")
  case True
  with n z show ?thesis by (simp add: split_round_def)
next
  case False
  define j where "j = z - 1"
  with False have j: "z = Suc j" "0 < j" using n z by linarith+
  have "split_loop j m ap h f nb 1 =
      (\<lambda>k1. obind (read_page m (ap_pages ap ! z) (int (desc_offset ap z) + int nb - int f) f) (buf_write k1 h))"
    using split_loop_tail[of j 1 ap] j z by (intro ext) simp
  moreover have "length (ap_pages ap) - 2 \<noteq> 0" using j z by simp
  ultimately show ?thesis using j by (simp add: split_round_def)
qed

lemma read_page_end:
  assumes "f \<le> nb" and "off + nb \<le> PAGE_SIZE"
  shows "read_page m (Some p) (int off + int nb - int f) f = Done (mem_read m (page_addr p (off + nb - f)) f)"
proof -
  have "nat (int off + int nb - int f) = off + nb - f" using assms by linarith
  then show ?thesis using assms by (auto simp: read_page_def)
qed

lemma fuse_split_payload_extracts:
  assumes e: "0 < oh_header e \<or> 0 < oh_footer e" "uw_temp e" "uw_kbuf e" "oh_header e + oh_footer e < 2 ^ 32"
    and pages: "ap_pages ap = map Some ps" "2 \<le> length ps"
    and header: "desc_offset ap 0 + oh_header e \<le> PAGE_SIZE"
    and footer: "oh_footer e \<le> nbytes" "desc_offset ap (length ps - 1) + nbytes \<le> PAGE_SIZE"
  shows "fuse_split_payload m ap nbytes e = Done (if oh_mem e = 0 then e else
    e\<lparr>uw_mem := mem_write (uw_mem e) (oh_mem e) (take (oh_header e + oh_footer e - uw_left e)
       (mem_read m (page_addr (ps ! 0) (desc_offset ap 0)) (oh_header e) @
        mem_read m (page_addr (ps ! (length ps - 1)) (desc_offset ap (length ps - 1) + nbytes - oh_footer e)) (oh_footer e)))\<rparr>)"
proof -
  let ?h = "oh_header e" and ?f = "oh_footer e" and ?z = "length ps - 1"
  let ?H = "mem_read m (page_addr (ps ! 0) (desc_offset ap 0)) ?h"
  let ?F = "mem_read m (page_addr (ps ! ?z) (desc_offset ap ?z + nbytes - ?f)) ?f"
  have lt: "0 < length ps" "?z < length ps" using pages(2) by linarith+
  then have nz: "ap_pages ap ! 0 = Some (ps ! 0)" "ap_pages ap ! ?z = Some (ps ! ?z)" "ap_pages ap \<noteq> []"
    unfolding pages(1) by (simp_all only: nth_map) auto
  have H: "read_page m (ap_pages ap ! 0) (int (desc_offset ap 0)) ?h = Done ?H"
    using header by (auto simp: read_page_def nz)
  have F: "read_page m (ap_pages ap ! ?z) (int (desc_offset ap ?z) + int nbytes - int ?f) ?f = Done ?F"
    unfolding nz by (rule read_page_end[OF footer])
  have "split_loop ?z m ap ?h ?f nbytes 0 (replicate (?h + ?f) 0) = Done (?H @ ?F)"
    using split_loop_all[of ap ?z m ?h ?f nbytes] pages H F by (simp add: buf_write_def)
  with e pages nz show ?thesis by (auto simp: fuse_split_payload_def Let_def u32_add_small)
qed

lemma pages_addrs_head:
  assumes "h \<le> min nbytes n"
  shows "take h (pages_addrs ((off, n) # descs) (p # ps) nbytes) = piece p off h"
  using assms by (simp add: take_piece)

lemma piece_suffix: "f \<le> n \<Longrightarrow> drop (n - f) (piece p off n) = piece p (off + n - f) f"
  by (simp add: drop_piece)

text \<open>When the data reaches the last page, it ends there.\<close>

lemma pages_addrs_last:
  assumes "length descs = length ps" and "0 < last_page_bytes descs nbytes 0"
    and "last_page_bytes descs nbytes 0 \<le> snd (last descs)"
  shows "\<exists>A. pages_addrs descs ps nbytes = A @ piece (last ps) (fst (last descs)) (last_page_bytes descs nbytes 0) \<and>
     length A + last_page_bytes descs nbytes 0 = nbytes"
  using assms
proof (induction descs ps nbytes rule: pages_addrs.induct)
  case (1 off n descs p ps nbytes)
  show ?case
  proof (cases "descs = []")
    case True
    with 1 show ?thesis by (auto split: if_splits)
  next
    case False
    with 1(2) have "ps \<noteq> []" by auto
    have p: "0 < last_page_bytes descs (nbytes - min nbytes n) 0"
        "last_page_bytes descs (nbytes - min nbytes n) 0 \<le> snd (last descs)"
      using 1(3,4) False by (auto split: if_splits)
    from 1(1)[OF _ p] 1(2) obtain A where
      A: "pages_addrs descs ps (nbytes - min nbytes n) = A @ piece (last ps) (fst (last descs)) (last_page_bytes descs (nbytes - min nbytes n) 0)"
        "length A + last_page_bytes descs (nbytes - min nbytes n) 0 = nbytes - min nbytes n"
      by auto
    have eq: "nbytes - min nbytes n = nbytes - n" by simp
    have "min nbytes n + length A + last_page_bytes descs (nbytes - n) 0 = nbytes"
      using A(2) p(1) unfolding eq by linarith
    with A False \<open>ps \<noteq> []\<close> 1(3) show ?thesis unfolding eq
      by (intro exI[of _ "piece p off (min nbytes n) @ A"]) (auto simp: eq split: if_splits)
  qed
qed auto

lemma mem_read_piece: "mem_read m (page_addr p off) n = map m (piece p off n)"
  by (simp add: mem_read_map piece_def)

lemma fuse_split_payload_of_pages:
  assumes pages: "ap_pages ap = map Some ps" "length (ap_descs ap) = length ps" "2 \<le> length ps"
    and inpage: "\<forall>(off, n) \<in> set (ap_descs ap). off + n \<le> PAGE_SIZE"
    and e: "0 < oh_header e \<or> 0 < oh_footer e" "uw_temp e" "uw_kbuf e" "oh_header e + oh_footer e < 2 ^ 32"
    and header: "oh_header e \<le> min nbytes (snd (hd (ap_descs ap)))"
    and footer: "lb = last_page_bytes (ap_descs ap) nbytes 0" "oh_footer e \<le> lb" "0 < lb" "lb \<le> snd (last (ap_descs ap))"
    and mem: "oh_mem e \<noteq> 0" "uw_left e = 0"
    and D: "D = map m (pages_addrs (ap_descs ap) ps nbytes)"
  shows "fuse_split_payload m ap lb e =
    Done (e\<lparr>uw_mem := mem_write (uw_mem e) (oh_mem e) (take (oh_header e) D @ drop (nbytes - oh_footer e) D)\<rparr>)"
proof -
  let ?z = "length ps - 1"
  have ne: "ps \<noteq> []" "ap_descs ap \<noteq> []" using pages by auto
  obtain off n descs p ps' where c: "ap_descs ap = (off, n) # descs" "ps = p # ps'"
    using ne by (metis list.exhaust surj_pair)
  have hd: "desc_offset ap 0 = off" "ps ! 0 = p" by (simp_all add: desc_offset_def c)
  have last: "desc_offset ap ?z = fst (last (ap_descs ap))" "ps ! ?z = last ps"
    using ne pages(2) by (simp_all add: desc_offset_def last_conv_nth)
  have in1: "off + n \<le> PAGE_SIZE" using inpage by (simp add: c(1))
  have in2: "fst (last (ap_descs ap)) + snd (last (ap_descs ap)) \<le> PAGE_SIZE"
    using inpage last_in_set[OF ne(2)] by (cases "last (ap_descs ap)") auto
  have H: "mem_read m (page_addr p off) (oh_header e) = take (oh_header e) D"
    using pages_addrs_head[of "oh_header e" nbytes n off descs p ps'] header
    by (simp add: D mem_read_piece c take_map del: pages_addrs.simps)
  obtain A where A: "pages_addrs (ap_descs ap) ps nbytes = A @ piece (last ps) (fst (last (ap_descs ap))) lb"
      "length A + lb = nbytes"
    using pages_addrs_last[OF pages(2)] footer by auto
  have "drop (nbytes - oh_footer e) (A @ piece (last ps) (fst (last (ap_descs ap))) lb)
      = piece (last ps) (fst (last (ap_descs ap)) + lb - oh_footer e) (oh_footer e)"
    using A(2) footer(2) piece_suffix[of "oh_footer e" lb] by auto
  then have F: "mem_read m (page_addr (last ps) (fst (last (ap_descs ap)) + lb - oh_footer e)) (oh_footer e) = drop (nbytes - oh_footer e) D"
    by (simp only: D mem_read_piece A(1) drop_map)
  have "desc_offset ap 0 + oh_header e \<le> PAGE_SIZE" using header in1 by (simp add: hd c)
  moreover have "desc_offset ap ?z + lb \<le> PAGE_SIZE" unfolding last using footer(4) in2 by linarith
  moreover have "length D = nbytes" "oh_header e \<le> nbytes" "oh_footer e \<le> nbytes"
    using A header footer(2) by (simp_all add: D)
  ultimately show ?thesis
    using fuse_split_payload_extracts[OF e pages(1,3) _ footer(2), of m] mem
    unfolding last hd H F by simp
qed

subsection \<open>Taking a message off a pipe\<close>

definition pipe_addrs :: "pipe_buffer list \<Rightarrow> nat list" where
  "pipe_addrs bufs = concat (map buf_addrs bufs)"

lemma pipe_addrs_simps [simp]: "pipe_addrs [] = []" "pipe_addrs (b # bs) = buf_addrs b @ pipe_addrs bs"
  by (simp_all add: pipe_addrs_def)

lemma length_buf_addrs [simp]: "length (buf_addrs b) = pb_len b"
  by (simp add: buf_addrs_def)

lemma pipe_sum_less: "pipe_sum len bufs rem < len \<longleftrightarrow> rem + length (pipe_addrs bufs) < len"
  by (induction len bufs rem rule: pipe_sum.induct) auto

lemma splice_take_spec:
  assumes "rem \<le> length (pipe_addrs pipe)" and "length pipe \<le> count"
  shows "\<exists>bufs pipe'. splice_take True rem count pipe = (True, bufs, pipe') \<and>
     pipe_addrs bufs = take rem (pipe_addrs pipe) \<and> pipe_addrs pipe' = drop rem (pipe_addrs pipe) \<and>
     (\<forall>b \<in> set bufs. \<exists>b' \<in> set pipe. pb_confirm b = pb_confirm b')"
  using assms
proof (induction True rem count pipe rule: splice_take.induct)
  case (4 rem count b pipe)
  show ?case
  proof (cases "pb_len b \<le> Suc rem")
    case True
    have "Suc rem - pb_len b \<le> length (pipe_addrs pipe)" "length pipe \<le> count" using 4(2,3) True by simp_all
    from 4(1)[OF True this] obtain bufs pipe' where
      "splice_take True (Suc rem - pb_len b) count pipe = (True, bufs, pipe')"
      "pipe_addrs bufs = take (Suc rem - pb_len b) (pipe_addrs pipe)"
      "pipe_addrs pipe' = drop (Suc rem - pb_len b) (pipe_addrs pipe)"
      "\<forall>b \<in> set bufs. \<exists>b' \<in> set pipe. pb_confirm b = pb_confirm b'" by auto
    with True show ?thesis by auto
  next
    case False
    then show ?thesis by (auto simp: buf_addrs_def take_piece drop_piece)
  qed
qed auto

text \<open>Not enough bytes in the pipe is an error and leaves the pipe alone; otherwise the pipe loses
  exactly the first \<open>len\<close> bytes, and they are the bytes the copy will read, in order.\<close>

lemma fuse_dev_splice_write_start_spec:
  assumes "len \<le> length (pipe_addrs pipe)"
  shows "\<exists>cs' bufs pipe'. fuse_dev_splice_write_start True True mv len pipe cs = (Inr (cs', bufs), pipe') \<and>
    addrs cs' = take len (pipe_addrs pipe) \<and> pipe_addrs pipe' = drop len (pipe_addrs pipe) \<and>
    ((\<forall>b \<in> set pipe. pb_confirm b = 0) \<longrightarrow> undisturbed cs') \<and>
    \<not> cs_write cs' \<and> (\<not> mv \<longrightarrow> plain cs') \<and> w_mem cs' = w_mem cs"
proof -
  obtain bufs pipe' where st: "splice_take True len (length pipe) pipe = (True, bufs, pipe')"
    and b: "pipe_addrs bufs = take len (pipe_addrs pipe)" and p: "pipe_addrs pipe' = drop len (pipe_addrs pipe)"
    and c: "\<forall>b \<in> set bufs. \<exists>b' \<in> set pipe. pb_confirm b = pb_confirm b'"
    using splice_take_spec[OF assms le_refl] by blast
  define cs' where "cs' = (fuse_copy_init False cs)\<lparr>cs_pipebufs := Some 0, cs_nr_segs := length bufs,
      w_bufs := (\<lambda>i. if i < length bufs then bufs ! i else w_bufs cs i), cs_move_pages := mv\<rparr>"
  have "map (\<lambda>j. buf_addrs (w_bufs cs' j)) [0..<length bufs] = map buf_addrs bufs"
    by (rule nth_equalityI) (auto simp: cs'_def)
  then have "addrs cs' = pipe_addrs bufs"
    by (simp add: addrs_def cur_addrs_def rest_addrs_def cs'_def fuse_copy_init_def pipe_addrs_def)
  moreover have "undisturbed cs'" if "\<forall>b \<in> set pipe. pb_confirm b = 0"
  proof -
    have "\<forall>b \<in> set bufs. pb_confirm b = 0" using that c by fastforce
    then show ?thesis by (auto simp: undisturbed_def cs'_def fuse_copy_init_def)
  qed
  moreover have "fuse_dev_splice_write_start True True mv len pipe cs = (Inr (cs', bufs), pipe')"
    using assms by (simp add: fuse_dev_splice_write_start_def pipe_sum_less st cs'_def)
  ultimately show ?thesis using b p
    by (auto simp: cs'_def fuse_copy_init_def plain_def)
qed

subsection \<open>Properties\<close>

text \<open>A concrete state: the daemon's buffer is two pieces of two pages.\<close>

definition example_page :: kpage where
  "example_page = \<lparr>p_count = 1, p_mapcount = 0, p_mapping = False, p_flags = {}\<rparr>"

definition example_buf :: "nat \<Rightarrow> nat \<Rightarrow> nat \<Rightarrow> pipe_buffer" where
  "example_buf p off n = \<lparr>pb_page = p, pb_offset = off, pb_len = n, pb_ops = True, pb_gift = True, pb_islru = False,
     pb_confirm = 0, pb_steal = False\<rparr>"

definition example_cs :: "bool \<Rightarrow> (int + nat \<times> nat \<times> nat) list \<Rightarrow> fuse_copy_state" where
  "example_cs wr it = \<lparr>cs_write = wr, cs_req = True, cs_user_pages = False, cs_iter = it, cs_pipebufs = None,
     cs_currbuf = None, cs_max_usage = 16, cs_nr_segs = 0, cs_pg = None, cs_len = 0, cs_offset = 0, cs_move_pages = False,
     w_mem = (\<lambda>a. of_nat a), w_page = (\<lambda>_. example_page), w_bufs = (\<lambda>_. example_buf 0 0 0), w_alloc = [],
     w_time = 0, w_abort_at = None, w_locked = False\<rparr>"

definition example_env :: "nat \<Rightarrow> nat \<Rightarrow> nat \<Rightarrow> split_env" where
  "example_env h f a = \<lparr>oh_header = h, oh_footer = f, oh_mem = a, uw_mem = (\<lambda>_. 0), uw_left = 0, uw_temp = True, uw_kbuf = True\<rparr>"





text \<open>Claim C38 (fuse_split_payload_limits). What \<open>fuse_split_payload\<close> does outside those conditions: for a reply
  in a single page the daemon gets zero bytes instead of the header and the footer; and a header
  that is longer than the first page, or whose length together with the footer's exceeds 32 bits,
  makes the kernel access memory outside the page or the buffer: the lengths come from the daemon
  and are not checked.\<close>

theorem fuse_split_payload_limits:
  assumes "0 < oh_header e \<or> 0 < oh_footer e" and "uw_temp e" and "uw_kbuf e" and "oh_mem e \<noteq> 0" and "uw_left e = 0"
    and "oh_header e < 2 ^ 32" and "oh_footer e < 2 ^ 32"
  shows "fuse_split_payload m \<lparr>ap_pages = [Some p], ap_descs = [d]\<rparr> nbytes e =
      Done (e\<lparr>uw_mem := mem_write (uw_mem e) (oh_mem e) (replicate (u32_add (oh_header e) (oh_footer e)) 0)\<rparr>)
    \<and> (PAGE_SIZE < fst d + oh_header e \<and> 0 < oh_header e \<longrightarrow>
        fuse_split_payload m \<lparr>ap_pages = [Some p, Some q], ap_descs = [d, d']\<rparr> nbytes e = Aborted)
    \<and> (2 ^ 32 \<le> oh_header e + oh_footer e \<longrightarrow>
        fuse_split_payload m \<lparr>ap_pages = [Some p, Some q], ap_descs = [d, d']\<rparr> nbytes e = Aborted)"
proof -
  let ?ap = "\<lparr>ap_pages = [Some p, Some q], ap_descs = [d, d']\<rparr>"
  let ?h = "oh_header e" and ?f = "oh_footer e"
  have two: "fuse_split_payload m ?ap nbytes e = Aborted"
    if "read_page m (Some p) (int (fst d)) ?h = Aborted \<or>
      (\<exists>bs. read_page m (Some p) (int (fst d)) ?h = Done bs \<and> buf_write (replicate (u32_add ?h ?f) 0) 0 bs = Aborted)"
    using that assms(1-3) by (auto simp: fuse_split_payload_def Let_def split_round_def desc_offset_def)
  have wrap: "u32_add ?h ?f < ?h" if "2 ^ 32 \<le> ?h + ?f"
  proof -
    have "(?h + ?f) mod 2 ^ 32 = ?h + ?f - 2 ^ 32" using that assms(6,7) by (simp add: le_mod_geq)
    then show ?thesis using that assms(7) unfolding u32_add_def by linarith
  qed
  have "buf_write (replicate (u32_add ?h ?f) 0) 0 (mem_read m a ?h) = Aborted" if "2 ^ 32 \<le> ?h + ?f" for a
    using wrap[OF that] by (auto simp: buf_write_def simp flip: length_0_conv)
  then have "fuse_split_payload m ?ap nbytes e = Aborted" if "2 ^ 32 \<le> ?h + ?f"
    using that wrap[OF that] by (intro two) (auto simp: read_page_def)
  moreover have "fuse_split_payload m ?ap nbytes e = Aborted" if "PAGE_SIZE < fst d + ?h \<and> 0 < ?h"
    using that by (intro two) (auto simp: read_page_def)
  ultimately show ?thesis using assms(1-5) by (auto simp: fuse_split_payload_def Let_def)
qed

theorem fuse_split_payload_limits_witness:
  "fuse_split_payload (\<lambda>_. 7) \<lparr>ap_pages = [Some 2], ap_descs = [(0, 4096)]\<rparr> 100 (example_env 2 1 7000) =
     Done ((example_env 2 1 7000)\<lparr>uw_mem := mem_write (\<lambda>_. 0) 7000 [0, 0, 0]\<rparr>) \<and>
   fuse_split_payload (\<lambda>_. 7) \<lparr>ap_pages = [Some 2, Some 3], ap_descs = [(0, 4096), (0, 4096)]\<rparr> 100 (example_env 5000 1 7000) = Aborted"
proof
  have u: "u32_add 2 (Suc 0) = Suc (Suc (Suc 0))" by (simp add: u32_add_def)
  show "fuse_split_payload (\<lambda>_. 7) \<lparr>ap_pages = [Some 2], ap_descs = [(0, 4096)]\<rparr> 100 (example_env 2 1 7000) =
     Done ((example_env 2 1 7000)\<lparr>uw_mem := mem_write (\<lambda>_. 0) 7000 [0, 0, 0]\<rparr>)"
    using fuse_split_payload_limits[of "example_env 2 1 7000" "\<lambda>_. 7" 2 "(0, 4096)" 100]
    by (simp add: example_env_def u)
  show "fuse_split_payload (\<lambda>_. 7) \<lparr>ap_pages = [Some 2, Some 3], ap_descs = [(0, 4096), (0, 4096)]\<rparr> 100 (example_env 5000 1 7000) = Aborted"
    by (rule fuse_split_payload_limits[of "example_env 5000 1 7000" "\<lambda>_. 7" 2 "(0, 4096)" 100 3 "(0, 4096)",
          THEN conjunct2, THEN conjunct1, THEN mp]) (simp_all add: example_env_def PAGE_SIZE_def)
qed

lemma cs_lock_frame:
  "w_mem (snd (cs_lock cs)) = w_mem cs" "addrs (snd (cs_lock cs)) = addrs cs" "fst (cs_lock cs) \<le> 0"
  by (auto simp: cs_lock_def tick_def addrs_def cur_addrs_def rest_addrs_def split: option.split)

lemma addrs_Some: "cs_pg cs = Some p \<Longrightarrow> addrs cs = piece p (cs_offset cs) (cs_len cs) @ rest_addrs cs"
  by (simp add: addrs_def cur_addrs_def)

text \<open>A refill, whatever happens in it, touches no memory and moves on in the buffer.\<close>

lemma fuse_copy_fill_safe:
  assumes "fuse_copy_fill cs = Done (err, cs')"
  shows "w_mem cs' = w_mem cs \<and> err \<le> 0 \<and> (err = 0 \<longrightarrow> addrs cs' = rest_addrs cs)"
proof -
  obtain e cs1 where u: "cs_unlock cs = (e, cs1)" by fastforce
  then have f: "w_mem cs1 = w_mem cs" "rest_addrs cs1 = rest_addrs cs" "e \<le> 0"
    by (auto simp: cs_unlock_def tick_def rest_addrs_def split: if_splits option.split)
  have locked: "w_mem cs' = w_mem x \<and> addrs cs' = addrs x \<and> er \<le> 0" if "cs_lock x = (er, cs')" for x er
    using cs_lock_frame[of x] that by simp
  show ?thesis
  proof (cases "e = 0")
    case False
    with assms u f show ?thesis by (simp add: fuse_copy_fill_def)
  next
    case True
    let ?x = "fuse_copy_finish cs1"
    show ?thesis
    proof (cases "cs_pipebufs cs1")
      case None
      with assms u True f(1,3) show ?thesis unfolding f(2)[symmetric]
        by (auto simp: fuse_copy_fill_def Let_def copy_fill_iter_def addrs_Some rest_addrs_def
            dest!: locked split: list.splits sum.splits if_splits)
    next
      case (Some i)
      show ?thesis
      proof (cases "cs_write cs1")
        case w: True
        with assms u True Some f(1,3) show ?thesis unfolding f(2)[symmetric]
          by (cases "cs_max_usage cs1 - cs_nr_segs cs1")
            (auto simp: fuse_copy_fill_def Let_def copy_fill_pipe_write_def addrs_Some rest_addrs_def upd_buf_def diff_Suc
            dest!: locked split: list.splits option.splits if_splits nat.splits)
      next
        case w: False
        with assms u True Some f(1,3) show ?thesis unfolding f(2)[symmetric]
          by (auto simp: fuse_copy_fill_def Let_def copy_fill_pipe_read_def addrs_Some rest_addrs_def
              fuse_copy_finish_bufs buf_addrs_def concat_map_upt_Suc dest!: locked split: if_splits)
      qed
    qed
  qed
qed

lemma fuse_copy_do_safe:
  assumes "x \<notin> set (addrs cs)" and "x \<notin> {v..<v + sz}"
  shows "w_mem (snd (fuse_copy_do cs (Some v) sz)) x = w_mem cs x"
    and "set (addrs (snd (fuse_copy_do cs (Some v) sz))) \<subseteq> set (addrs cs)"
  using assms
  by (auto simp: fuse_copy_do_def Let_def memcpy_at_def addrs_def cur_addrs_def rest_addrs_def piece_def page_addr_def mem_write_def
      split: option.splits)





end
