(* ===== verification/Kern_System.thy ===== *)
theory Kern_System
  imports Kern_Requests
begin

text \<open>
  The threads of the kernel that work on the request queue of \<open>Kern_Requests\<close>: senders, readers and
  writers of the device, an abort. Every lock section is one atomic step; the invariant says who
  holds a reference to a request and on which list it is, and the steps keep it. So no step
  follows a pointer to a freed request, drops a reference twice or frees a request in use.
\<close>

subsection \<open>Threads\<close>

text \<open>
  The system: the connection and what each thread is doing with a request. Every request has at
  most one place (\<open>s_loc\<close>): a queue, or a device thread that holds it. \<open>s_ae\<close>: an abort holds an
  extra reference, with the request on \<open>to_end\<close>. \<open>s_wait\<close>: the thread that allocated the request
  still holds its reference, not yet sent (\<open>Fresh\<close>), waiting for the answer (\<open>Waiting\<close>), or done
  with a request that was not sent or was withdrawn (\<open>Unsent\<close>). \<open>s_sent\<close> counts readers between
  the hand-over of a request and their \<open>fuse_put_request\<close>.
\<close>

datatype loc = In_bg | In_pending | Taken nat | Reading nat | In_processing nat | Writing nat | In_to_end | Ending

datatype wphase = Fresh | Waiting | Unsent

record sys =
  s_c :: fuse_conn
  s_loc :: "nat \<Rightarrow> loc option"
  s_ae :: "nat \<Rightarrow> bool"
  s_wait :: "nat \<Rightarrow> wphase option"
  s_sent :: "nat \<Rightarrow> nat"

definition tokens :: "loc option \<Rightarrow> bool \<Rightarrow> wphase option \<Rightarrow> nat \<Rightarrow> nat" where
  "tokens l ae w n = (if l = None then 0 else 1) + (if ae then 1 else 0) + (if w = None then 0 else 1) + n"

definition unsent :: "wphase option \<Rightarrow> bool" where
  "unsent w \<longleftrightarrow> w = Some Fresh \<or> w = Some Unsent"

definition queued :: "loc option \<Rightarrow> bool" where
  "queued l \<longleftrightarrow> l = Some In_bg \<or> l = Some In_pending"

definition early :: "loc option \<Rightarrow> bool" where
  "early l \<longleftrightarrow> queued l \<or> (\<exists>d. l = Some (Taken d) \<or> l = Some (Reading d))"

definition at_dev :: "nat \<Rightarrow> loc option \<Rightarrow> bool" where
  "at_dev d l \<longleftrightarrow> l = Some (Reading d) \<or> l = Some (Writing d)"

definition private_ok :: "(nat \<Rightarrow> bool) \<Rightarrow> fuse_req_flag set \<Rightarrow> loc option \<Rightarrow> bool" where
  "private_ok conn F l \<longleftrightarrow> (FR_PRIVATE \<in> F \<longrightarrow> l = None \<or> l = Some Ending \<or> (\<exists>d. at_dev d l \<and> \<not> conn d))"

text \<open>The invariant of one request: the reference count is the number of holders, and the flags agree
  with its place. \<open>conn\<close> tells which devices are connected.\<close>

definition live_ok :: "(nat \<Rightarrow> bool) \<Rightarrow> fuse_req \<Rightarrow> loc option \<Rightarrow> bool \<Rightarrow> wphase option \<Rightarrow> nat \<Rightarrow> bool \<Rightarrow> bool" where
  "live_ok conn q l ae w n intr \<longleftrightarrow>
     r_count q = tokens l ae w n \<and> 0 < r_count q \<and>
     (FR_PENDING \<in> r_flags q \<longleftrightarrow> queued l \<or> unsent w) \<and>
     (FR_SENT \<in> r_flags q \<longrightarrow> l = Some In_to_end \<or> (\<exists>d. l = Some (In_processing d))) \<and>
     (FR_LOCKED \<in> r_flags q \<longrightarrow> (\<exists>d. at_dev d l)) \<and>
     (FR_FINISHED \<in> r_flags q \<longrightarrow> l = None \<or> FR_PRIVATE \<in> r_flags q) \<and>
     (ae \<longrightarrow> FR_PRIVATE \<in> r_flags q) \<and>
     private_ok conn (r_flags q) l \<and>
     (l = None \<longrightarrow> FR_FINISHED \<in> r_flags q \<or> unsent w) \<and>
     (unsent w \<longrightarrow> l = None \<and> \<not> ae \<and> n = 0 \<and> FR_FINISHED \<notin> r_flags q \<and> FR_PRIVATE \<notin> r_flags q) \<and>
     (FR_BACKGROUND \<in> r_flags q \<longrightarrow> (w = None \<or> w = Some Fresh) \<and> FR_FINISHED \<notin> r_flags q) \<and>
     (l = Some In_bg \<longrightarrow> FR_BACKGROUND \<in> r_flags q \<and> FR_ISREPLY \<in> r_flags q) \<and>
     (\<forall>d. l = Some (In_processing d) \<longrightarrow> FR_ISREPLY \<in> r_flags q) \<and>
     (0 < n \<longrightarrow> \<not> early l) \<and>
     (intr \<longrightarrow> FR_INTERRUPTED \<in> r_flags q \<and> FR_FINISHED \<notin> r_flags q \<and> l \<noteq> None \<and> \<not> queued l)"

definition req_ok :: "(nat \<Rightarrow> bool) \<Rightarrow> fuse_req option \<Rightarrow> loc option \<Rightarrow> bool \<Rightarrow> wphase option \<Rightarrow> nat \<Rightarrow> bool \<Rightarrow> bool" where
  "req_ok conn qo l ae w n intr \<longleftrightarrow> (case qo of
      None \<Rightarrow> tokens l ae w n = 0 \<and> \<not> intr
    | Some q \<Rightarrow> live_ok conn q l ae w n intr)"

definition sys_req_ok :: "sys \<Rightarrow> nat \<Rightarrow> bool" where
  "sys_req_ok s r \<longleftrightarrow> req_ok (\<lambda>d. pq_connected (c_pq (s_c s) d)) (reqs (s_c s) r) (s_loc s r) (s_ae s r) (s_wait s r)
     (s_sent s r) (r \<in> set (iq_interrupts (s_c s)))"

definition flags_of :: "fuse_req option \<Rightarrow> fuse_req_flag set" where
  "flags_of qo = (case qo of Some q \<Rightarrow> r_flags q | None \<Rightarrow> {})"

lemma flags_of_simps [simp]: "flags_of (Some q) = r_flags q" "flags_of None = {}"
  by (simp_all add: flags_of_def)

definition bucket_of :: "fuse_conn \<Rightarrow> fuse_req option \<Rightarrow> nat" where
  "bucket_of c qo = (case qo of Some q \<Rightarrow> fuse_req_hash c (in_unique q) | None \<Rightarrow> 0)"

lemma bucket_of_simps [simp]: "bucket_of c (Some q) = fuse_req_hash c (in_unique q)"
  by (simp add: bucket_of_def)

text \<open>The lists hold exactly the requests that are at their place, once.\<close>

definition queue_ok :: "nat list \<Rightarrow> (nat \<Rightarrow> bool) \<Rightarrow> bool" where
  "queue_ok L P \<longleftrightarrow> distinct L \<and> (\<forall>r. r \<in> set L \<longleftrightarrow> P r)"

definition lists_ok :: "sys \<Rightarrow> bool" where
  "lists_ok s \<longleftrightarrow>
     queue_ok (c_bg_queue (s_c s)) (\<lambda>r. s_loc s r = Some In_bg) \<and>
     queue_ok (iq_pending (s_c s)) (\<lambda>r. s_loc s r = Some In_pending) \<and>
     queue_ok (c_to_end (s_c s)) (\<lambda>r. s_loc s r = Some In_to_end \<or> s_ae s r) \<and>
     (\<forall>d. queue_ok (pq_io (c_pq (s_c s) d)) (\<lambda>r. at_dev d (s_loc s r) \<and> FR_PRIVATE \<notin> flags_of (reqs (s_c s) r))) \<and>
     (\<forall>d h. queue_ok (pq_processing (c_pq (s_c s) d) h)
        (\<lambda>r. s_loc s r = Some (In_processing d) \<and> bucket_of (s_c s) (reqs (s_c s) r) = h)) \<and>
     distinct (iq_interrupts (s_c s)) \<and> finite {r. reqs (s_c s) r \<noteq> None} \<and>
     (\<forall>u. c_hash_long (s_c s) u FUSE_PQ_HASH_BITS < FUSE_PQ_HASH_SIZE)"

text \<open>Background throttling: the counters are exact, the queue only holds requests back when the limit is
  reached, and senders are blocked exactly then.\<close>

definition active :: "sys \<Rightarrow> nat \<Rightarrow> bool" where
  "active s r \<longleftrightarrow> FR_BACKGROUND \<in> flags_of (reqs (s_c s) r) \<and> s_wait s r = None \<and> s_loc s r \<noteq> Some In_bg"

definition bg_counts :: "sys \<Rightarrow> bool" where
  "bg_counts s \<longleftrightarrow> c_active_background (s_c s) = card {r. active s r} \<and>
     c_num_background (s_c s) = length (c_bg_queue (s_c s)) + c_active_background (s_c s) \<and>
     c_num_background (s_c s) < 2 ^ 32 - 1 \<and> 0 < c_max_background (s_c s)"

definition bg_limits :: "fuse_conn \<Rightarrow> bool" where
  "bg_limits c \<longleftrightarrow> c_active_background c \<le> c_max_background c \<and>
     (c_bg_queue c \<noteq> [] \<longrightarrow> c_max_background c \<le> c_active_background c) \<and>
     (c_blocked c \<longleftrightarrow> c_max_background c \<le> c_num_background c)"

definition bg_ok :: "sys \<Rightarrow> bool" where
  "bg_ok s \<longleftrightarrow> bg_counts s \<and> bg_limits (s_c s)"

text \<open>The ids of requests that expect a reply are even and pairwise different.\<close>

definition numbered :: "sys \<Rightarrow> nat \<Rightarrow> bool" where
  "numbered s r \<longleftrightarrow> FR_ISREPLY \<in> flags_of (reqs (s_c s) r) \<and> s_loc s r \<noteq> None \<and> s_loc s r \<noteq> Some In_bg"

definition uniq_of :: "fuse_conn \<Rightarrow> nat \<Rightarrow> 64 word" where
  "uniq_of c r = (case reqs c r of Some q \<Rightarrow> in_unique q | None \<Rightarrow> 0)"

definition uniq_ok :: "sys \<Rightarrow> bool" where
  "uniq_ok s \<longleftrightarrow> (\<forall>r r'. numbered s r \<and> numbered s r' \<and> uniq_of (s_c s) r = uniq_of (s_c s) r' \<longrightarrow> r = r') \<and>
     (\<forall>r. numbered s r \<longrightarrow> uniq_of (s_c s) r \<le> iq_reqctr (s_c s) \<and> even (uint (uniq_of (s_c s) r))) \<and>
     even (uint (iq_reqctr (s_c s)))"

definition sys_inv :: "sys \<Rightarrow> bool" where
  "sys_inv s \<longleftrightarrow> (\<forall>r. sys_req_ok s r) \<and> lists_ok s \<and> bg_ok s \<and> uniq_ok s"

subsection \<open>Steps that touch one request\<close>

text \<open>Only request \<open>r\<close> differs.\<close>

definition frame :: "nat \<Rightarrow> sys \<Rightarrow> sys \<Rightarrow> bool" where
  "frame r s s' \<longleftrightarrow> (\<forall>x. x \<noteq> r \<longrightarrow> reqs (s_c s') x = reqs (s_c s) x \<and> s_loc s' x = s_loc s x \<and> s_ae s' x = s_ae s x \<and>
       s_wait s' x = s_wait s x \<and> s_sent s' x = s_sent s x) \<and> c_hash_long (s_c s') = c_hash_long (s_c s)"

lemma frame_hash: "frame r s s' \<Longrightarrow> c_hash_long (s_c s') = c_hash_long (s_c s)"
  unfolding frame_def by (rule conjunct2)

lemma frame_other:
  assumes "frame r s s'" and "x \<noteq> r"
  shows "reqs (s_c s') x = reqs (s_c s) x" and "s_loc s' x = s_loc s x" and "s_ae s' x = s_ae s x"
    and "s_wait s' x = s_wait s x" and "s_sent s' x = s_sent s x"
  using assms unfolding frame_def by blast+

definition moved :: "nat \<Rightarrow> nat list \<Rightarrow> nat list \<Rightarrow> bool" where
  "moved r L L' \<longleftrightarrow> L' = L \<or> L' = remove1 r L \<or> (r \<notin> set L \<and> (L' = L @ [r] \<or> L' = r # L))"

lemma moved_refl [simp]: "moved r L L"
  by (simp add: moved_def)

lemma moved_remove [simp]: "moved r L (remove1 r L)"
  by (simp add: moved_def)

lemma moved_other: "moved r L L' \<Longrightarrow> x \<noteq> r \<Longrightarrow> x \<in> set L' \<longleftrightarrow> x \<in> set L"
  by (auto simp: moved_def)

lemma moved_distinct: "moved r L L' \<Longrightarrow> distinct L \<Longrightarrow> distinct L'"
  by (auto simp: moved_def)

lemma queue_ok_moved:
  assumes "queue_ok L P" and "moved r L L'" and "\<And>x. x \<noteq> r \<Longrightarrow> P' x = P x" and "r \<in> set L' \<longleftrightarrow> P' r"
  shows "queue_ok L' P'"
  unfolding queue_ok_def
proof (intro conjI allI)
  show "distinct L'" using assms(1) moved_distinct[OF assms(2)] by (simp add: queue_ok_def)
  show "x \<in> set L' \<longleftrightarrow> P' x" for x
  proof (cases "x = r")
    case True
    show ?thesis unfolding True by (rule assms(4))
  next
    case False
    show ?thesis using moved_other[OF assms(2) False] assms(1) unfolding queue_ok_def assms(3)[OF False] by blast
  qed
qed

lemma req_ok_mono:
  assumes "req_ok conn qo l ae w n intr" and "\<And>d. conn' d \<Longrightarrow> conn d"
  shows "req_ok conn' qo l ae w n intr"
proof -
  have "private_ok conn' F l" if "private_ok conn F l" for F
    using that assms(2) unfolding private_ok_def by blast
  then show ?thesis using assms(1) by (cases qo) (simp_all add: req_ok_def live_ok_def)
qed

text \<open>The lists after a step on \<open>r\<close>.\<close>

definition lists_moved :: "nat \<Rightarrow> sys \<Rightarrow> sys \<Rightarrow> bool" where
  "lists_moved r s s' \<longleftrightarrow>
     moved r (c_bg_queue (s_c s)) (c_bg_queue (s_c s')) \<and> (r \<in> set (c_bg_queue (s_c s')) \<longleftrightarrow> s_loc s' r = Some In_bg) \<and>
     moved r (iq_pending (s_c s)) (iq_pending (s_c s')) \<and> (r \<in> set (iq_pending (s_c s')) \<longleftrightarrow> s_loc s' r = Some In_pending) \<and>
     moved r (c_to_end (s_c s)) (c_to_end (s_c s')) \<and> (r \<in> set (c_to_end (s_c s')) \<longleftrightarrow> s_loc s' r = Some In_to_end \<or> s_ae s' r) \<and>
     (\<forall>d. moved r (pq_io (c_pq (s_c s) d)) (pq_io (c_pq (s_c s') d)) \<and>
       (r \<in> set (pq_io (c_pq (s_c s') d)) \<longleftrightarrow> at_dev d (s_loc s' r) \<and> FR_PRIVATE \<notin> flags_of (reqs (s_c s') r))) \<and>
     (\<forall>d h. moved r (pq_processing (c_pq (s_c s) d) h) (pq_processing (c_pq (s_c s') d) h) \<and>
       (r \<in> set (pq_processing (c_pq (s_c s') d) h) \<longleftrightarrow> s_loc s' r = Some (In_processing d) \<and> bucket_of (s_c s') (reqs (s_c s') r) = h)) \<and>
     moved r (iq_interrupts (s_c s)) (iq_interrupts (s_c s'))"

lemma fuse_req_hash_cong: "c_hash_long c' = c_hash_long c \<Longrightarrow> fuse_req_hash c' u = fuse_req_hash c u"
  by (simp add: fuse_req_hash_def)

lemma bucket_of_cong: "c_hash_long c' = c_hash_long c \<Longrightarrow> bucket_of c' qo = bucket_of c qo"
  by (simp add: bucket_of_def fuse_req_hash_def split: option.split)

lemma lists_ok_moved:
  assumes ok: "lists_ok s" and fr: "frame r s s'" and mv: "lists_moved r s s'"
  shows "lists_ok s'"
proof -
  note h = frame_hash[OF fr] and x = frame_other[OF fr]
  note o = ok[unfolded lists_ok_def] and m = mv[unfolded lists_moved_def]
  note o1 = o[THEN conjunct1] and o2 = o[THEN conjunct2, THEN conjunct1] and o3 = o[THEN conjunct2, THEN conjunct2, THEN conjunct1]
    and o4 = o[THEN conjunct2, THEN conjunct2, THEN conjunct2, THEN conjunct1, rule_format]
    and o5 = o[THEN conjunct2, THEN conjunct2, THEN conjunct2, THEN conjunct2, THEN conjunct1, rule_format]
    and o6 = o[THEN conjunct2, THEN conjunct2, THEN conjunct2, THEN conjunct2, THEN conjunct2]
  have "{x. reqs (s_c s') x \<noteq> None} \<subseteq> insert r {x. reqs (s_c s) x \<noteq> None}" using x(1) by fastforce
  then have fin: "finite {x. reqs (s_c s') x \<noteq> None}" using o6 finite_subset finite_insert by metis
  show ?thesis unfolding lists_ok_def
  proof (intro conjI allI)
    show "queue_ok (c_bg_queue (s_c s')) (\<lambda>r. s_loc s' r = Some In_bg)"
      by (rule queue_ok_moved[OF o1, where r = r]) (simp_all add: m x)
    show "queue_ok (iq_pending (s_c s')) (\<lambda>r. s_loc s' r = Some In_pending)"
      by (rule queue_ok_moved[OF o2, where r = r]) (simp_all add: m x)
    show "queue_ok (c_to_end (s_c s')) (\<lambda>r. s_loc s' r = Some In_to_end \<or> s_ae s' r)"
      by (rule queue_ok_moved[OF o3, where r = r]) (simp_all add: m x)
    show "queue_ok (pq_io (c_pq (s_c s') d)) (\<lambda>r. at_dev d (s_loc s' r) \<and> FR_PRIVATE \<notin> flags_of (reqs (s_c s') r))" for d
      by (rule queue_ok_moved[OF o4[of d], where r = r]) (simp_all add: m x)
    show "queue_ok (pq_processing (c_pq (s_c s') d) h) (\<lambda>r. s_loc s' r = Some (In_processing d) \<and> bucket_of (s_c s') (reqs (s_c s') r) = h)" for d h
      by (rule queue_ok_moved[OF o5[of d h], where r = r]) (simp_all add: m x bucket_of_cong[OF h])
    show "distinct (iq_interrupts (s_c s'))" using o6 m moved_distinct by blast
    show "finite {r. reqs (s_c s') r \<noteq> None}" by (rule fin)
    show "c_hash_long (s_c s') u FUSE_PQ_HASH_BITS < FUSE_PQ_HASH_SIZE" for u using o6 h by simp
  qed
qed

definition same_bg :: "fuse_conn \<Rightarrow> fuse_conn \<Rightarrow> bool" where
  "same_bg c c' \<longleftrightarrow> c_active_background c' = c_active_background c \<and> c_num_background c' = c_num_background c \<and>
     c_max_background c' = c_max_background c \<and> c_blocked c' = c_blocked c \<and> c_bg_queue c' = c_bg_queue c"

definition same_counts :: "fuse_conn \<Rightarrow> fuse_conn \<Rightarrow> bool" where
  "same_counts c c' \<longleftrightarrow> same_bg c c' \<and> iq_reqctr c' = iq_reqctr c"

lemma active_other: "frame r s s' \<Longrightarrow> x \<noteq> r \<Longrightarrow> active s' x = active s x"
  using frame_other[of r s s' x] by (simp add: active_def)

lemma numbered_other: "frame r s s' \<Longrightarrow> x \<noteq> r \<Longrightarrow> numbered s' x = numbered s x"
  using frame_other[of r s s' x] by (simp add: numbered_def)

lemma uniq_of_other: "frame r s s' \<Longrightarrow> x \<noteq> r \<Longrightarrow> uniq_of (s_c s') x = uniq_of (s_c s) x"
  using frame_other[of r s s' x] by (simp add: uniq_of_def)

lemma bg_ok_same:
  assumes "bg_ok s" and fr: "frame r s s'" and "same_bg (s_c s) (s_c s')" and "active s' r = active s r"
  shows "bg_ok s'"
proof -
  have "{x. active s' x} = {x. active s x}" using active_other[OF fr] assms(4) by auto metis+
  with assms(1,3) show ?thesis unfolding bg_ok_def bg_counts_def bg_limits_def same_bg_def by auto
qed

lemma uniq_ok_same:
  assumes u: "uniq_ok s" and fr: "frame r s s'" and "iq_reqctr (s_c s') = iq_reqctr (s_c s)"
    and r: "numbered s' r \<Longrightarrow> numbered s r \<and> uniq_of (s_c s') r = uniq_of (s_c s) r"
  shows "uniq_ok s'"
proof -
  have n: "numbered s x \<and> uniq_of (s_c s') x = uniq_of (s_c s) x" if "numbered s' x" for x
    using that r numbered_other[OF fr] uniq_of_other[OF fr] by (cases "x = r") auto
  show ?thesis using u assms(3) n unfolding uniq_ok_def by metis
qed

text \<open>A request gets the next id.\<close>

lemma reqctr_next:
  assumes "uint ctr + 2 < 2 ^ 64" and "even (uint ctr)"
  shows "ctr < ctr + FUSE_REQ_ID_STEP" and "even (uint (ctr + FUSE_REQ_ID_STEP))"
proof -
  have "uint (ctr + FUSE_REQ_ID_STEP) = uint ctr + 2"
    using assms(1) by (simp add: FUSE_REQ_ID_STEP_def uint_word_ariths)
  then show "ctr < ctr + FUSE_REQ_ID_STEP" and "even (uint (ctr + FUSE_REQ_ID_STEP))"
    using assms(2) by (simp_all add: word_less_def)
qed

lemma uniq_ok_new:
  assumes u: "uniq_ok s" and fr: "frame r s s'" and ctr: "iq_reqctr (s_c s') = iq_reqctr (s_c s) + FUSE_REQ_ID_STEP"
    and wrap: "uint (iq_reqctr (s_c s)) + 2 < 2 ^ 64" and r: "uniq_of (s_c s') r = iq_reqctr (s_c s')"
  shows "uniq_ok s'"
proof -
  have ev: "even (uint (iq_reqctr (s_c s)))" using u by (simp add: uniq_ok_def)
  have lt: "iq_reqctr (s_c s) < iq_reqctr (s_c s')" and ev': "even (uint (iq_reqctr (s_c s')))"
    unfolding ctr by (rule reqctr_next[OF wrap ev])+
  have n: "numbered s x \<and> uniq_of (s_c s') x = uniq_of (s_c s) x" if "numbered s' x" "x \<noteq> r" for x
    using that numbered_other[OF fr that(2)] uniq_of_other[OF fr that(2)] by simp
  have le: "uniq_of (s_c s') x < iq_reqctr (s_c s') \<and> even (uint (uniq_of (s_c s') x))" if "numbered s' x" "x \<noteq> r" for x
  proof -
    have "uniq_of (s_c s) x \<le> iq_reqctr (s_c s) \<and> even (uint (uniq_of (s_c s) x))"
      using n[OF that] u unfolding uniq_ok_def by blast
    then show ?thesis using n[OF that] le_less_trans[OF _ lt, of "uniq_of (s_c s) x"] by simp
  qed
  show ?thesis unfolding uniq_ok_def
  proof (intro conjI allI impI)
    fix x y assume a: "numbered s' x \<and> numbered s' y \<and> uniq_of (s_c s') x = uniq_of (s_c s') y"
    show "x = y"
    proof (cases "x = r \<or> y = r")
      case True
      then show ?thesis using a le[of x] le[of y] r by (metis order.strict_iff_order)
    next
      case False
      then have "numbered s x" "numbered s y" "uniq_of (s_c s) x = uniq_of (s_c s) y" using a n[of x] n[of y] by auto
      then show ?thesis using u unfolding uniq_ok_def by blast
    qed
  next
    fix x assume "numbered s' x"
    then show "uniq_of (s_c s') x \<le> iq_reqctr (s_c s')" and "even (uint (uniq_of (s_c s') x))"
      using le[of x] r ev' by (metis order.strict_iff_order order_refl)+
  qed (rule ev')
qed

text \<open>The rules for a step on one request: in general, and when it leaves the counters alone.\<close>

lemma sys_inv_upd:
  assumes inv: "sys_inv s" and fr: "frame r s s'" and r: "sys_req_ok s' r" and mv: "lists_moved r s s'"
    and "bg_ok s'" and "uniq_ok s'"
    and conn: "\<And>d. pq_connected (c_pq (s_c s') d) \<Longrightarrow> pq_connected (c_pq (s_c s) d)"
  shows "sys_inv s'"
  unfolding sys_inv_def
proof (intro conjI allI)
  show "sys_req_ok s' x" for x
  proof (cases "x = r")
    case False
    have "x \<in> set (iq_interrupts (s_c s')) \<longleftrightarrow> x \<in> set (iq_interrupts (s_c s))"
      using mv moved_other[OF _ False] unfolding lists_moved_def by blast
    moreover have "sys_req_ok s x" using inv by (simp add: sys_inv_def)
    ultimately show ?thesis unfolding sys_req_ok_def using conn
      by (simp only: frame_other[OF fr False]) (rule req_ok_mono)
  qed (simp add: r)
  show "lists_ok s'" using lists_ok_moved[OF _ fr mv] inv by (simp add: sys_inv_def)
qed fact+

lemma sys_inv_move:
  assumes inv: "sys_inv s" and fr: "frame r s s'" and r: "sys_req_ok s' r" and mv: "lists_moved r s s'"
    and "same_counts (s_c s) (s_c s')" and "active s' r = active s r"
    and "numbered s' r \<Longrightarrow> numbered s r \<and> uniq_of (s_c s') r = uniq_of (s_c s) r"
    and conn: "\<And>d. pq_connected (c_pq (s_c s') d) \<Longrightarrow> pq_connected (c_pq (s_c s) d)"
  shows "sys_inv s'"
proof (rule sys_inv_upd[OF inv fr r mv _ _ conn])
  show "bg_ok s'" using bg_ok_same[OF _ fr _ assms(6)] assms(5) inv by (simp add: sys_inv_def same_counts_def)
  show "uniq_ok s'" using uniq_ok_same[OF _ fr] inv assms(5,7) by (simp add: sys_inv_def same_counts_def)
qed

lemma inv_lists:
  assumes "sys_inv s"
  shows "r \<in> set (c_bg_queue (s_c s)) \<longleftrightarrow> s_loc s r = Some In_bg"
    and "r \<in> set (iq_pending (s_c s)) \<longleftrightarrow> s_loc s r = Some In_pending"
    and "r \<in> set (c_to_end (s_c s)) \<longleftrightarrow> s_loc s r = Some In_to_end \<or> s_ae s r"
    and "r \<in> set (pq_io (c_pq (s_c s) d)) \<longleftrightarrow> at_dev d (s_loc s r) \<and> FR_PRIVATE \<notin> flags_of (reqs (s_c s) r)"
    and "r \<in> set (pq_processing (c_pq (s_c s) d) h) \<longleftrightarrow> s_loc s r = Some (In_processing d) \<and> bucket_of (s_c s) (reqs (s_c s) r) = h"
    and "distinct (c_bg_queue (s_c s))" and "distinct (iq_pending (s_c s))" and "distinct (c_to_end (s_c s))"
    and "distinct (pq_io (c_pq (s_c s) d))" and "distinct (pq_processing (c_pq (s_c s) d) h)" and "distinct (iq_interrupts (s_c s))"
  using assms unfolding sys_inv_def lists_ok_def queue_ok_def by blast+

lemma inv_live:
  assumes "sys_inv s" and "s_loc s r \<noteq> None \<or> s_ae s r \<or> s_wait s r \<noteq> None \<or> 0 < s_sent s r \<or> r \<in> set (iq_interrupts (s_c s))"
  obtains q where "reqs (s_c s) r = Some q" and "live_ok (\<lambda>d. pq_connected (c_pq (s_c s) d)) q (s_loc s r) (s_ae s r) (s_wait s r)
     (s_sent s r) (r \<in> set (iq_interrupts (s_c s)))"
proof -
  have "sys_req_ok s r" using assms(1) by (simp add: sys_inv_def)
  then show ?thesis using that assms(2)
    by (cases "reqs (s_c s) r") (auto simp: sys_req_ok_def req_ok_def tokens_def split: if_splits)
qed

lemma liveD:
  assumes "live_ok conn q l ae w n intr"
  shows "r_count q = tokens l ae w n" and "0 < r_count q"
    and "FR_PENDING \<in> r_flags q \<longleftrightarrow> queued l \<or> unsent w"
    and "FR_SENT \<in> r_flags q \<Longrightarrow> l = Some In_to_end \<or> (\<exists>d. l = Some (In_processing d))"
    and "FR_LOCKED \<in> r_flags q \<Longrightarrow> \<exists>d. at_dev d l"
    and "FR_FINISHED \<in> r_flags q \<Longrightarrow> l = None \<or> FR_PRIVATE \<in> r_flags q"
    and "ae \<Longrightarrow> FR_PRIVATE \<in> r_flags q"
    and "FR_PRIVATE \<in> r_flags q \<Longrightarrow> l = None \<or> l = Some Ending \<or> (\<exists>d. at_dev d l \<and> \<not> conn d)"
    and "l = None \<Longrightarrow> FR_FINISHED \<in> r_flags q \<or> unsent w"
    and "unsent w \<Longrightarrow> l = None \<and> \<not> ae \<and> n = 0 \<and> FR_FINISHED \<notin> r_flags q \<and> FR_PRIVATE \<notin> r_flags q"
    and "FR_BACKGROUND \<in> r_flags q \<Longrightarrow> (w = None \<or> w = Some Fresh) \<and> FR_FINISHED \<notin> r_flags q"
    and "l = Some In_bg \<Longrightarrow> FR_BACKGROUND \<in> r_flags q \<and> FR_ISREPLY \<in> r_flags q"
    and "l = Some (In_processing d) \<Longrightarrow> FR_ISREPLY \<in> r_flags q"
    and "0 < n \<Longrightarrow> \<not> early l"
    and "intr \<Longrightarrow> FR_INTERRUPTED \<in> r_flags q \<and> FR_FINISHED \<notin> r_flags q \<and> l \<noteq> None \<and> \<not> queued l"
  using assms unfolding live_ok_def private_ok_def by blast+

lemmas kdefs = with_req_def upd_req_def set_bit_req_def clear_bit_req_def set_error_def get_request_def put_request_nofree_def
  fuse_request_free_def fuse_drop_waiting_def upd_pq_def test_bit_req_def

lemmas ghost_defs = queued_def unsent_def early_def at_dev_def

text \<open>Senders.\<close>

definition step_kill :: "nat \<Rightarrow> sys \<Rightarrow> sys outcome" where
  "step_kill r s = obind (wait_killed r (s_c s)) (\<lambda>(stop, c). Done (if stop
     then s\<lparr>s_c := c, s_loc := (s_loc s)(r := None), s_wait := (s_wait s)(r := Some Unsent)\<rparr> else s\<lparr>s_c := c\<rparr>))"

lemma step_kill_inv:
  assumes inv: "sys_inv s" and w: "s_wait s r = Some Waiting"
  shows "\<exists>s'. step_kill r s = Done s' \<and> sys_inv s'"
proof -
  obtain q where q: "reqs (s_c s) r = Some q" and ok: "live_ok (\<lambda>d. pq_connected (c_pq (s_c s) d)) q (s_loc s r) (s_ae s r) (s_wait s r)
     (s_sent s r) (r \<in> set (iq_interrupts (s_c s)))" using inv_live[OF inv] w by blast
  show ?thesis
  proof (cases "FR_PENDING \<in> r_flags q")
    case False
    then show ?thesis using inv by (simp add: step_kill_def wait_killed_def kdefs q)
  next
    case True
    then have l: "s_loc s r = Some In_pending" using ok w by (auto simp: live_ok_def ghost_defs)
    let ?s' = "s\<lparr>s_c := (s_c s)\<lparr>iq_pending := remove1 r (iq_pending (s_c s)),
        reqs := (reqs (s_c s))(r \<mapsto> q\<lparr>r_count := r_count q - 1, out_error := - EINTR\<rparr>)\<rparr>,
        s_loc := (s_loc s)(r := None), s_wait := (s_wait s)(r := Some Unsent)\<rparr>"
    have ok': "\<not> s_ae s r" "s_sent s r = 0" "r_count q = 2" "FR_FINISHED \<notin> r_flags q" "FR_PRIVATE \<notin> r_flags q"
      "r \<notin> set (iq_interrupts (s_c s))" "FR_BACKGROUND \<notin> r_flags q"
      using ok l w by (auto simp: live_ok_def private_ok_def ghost_defs tokens_def)
    have "step_kill r s = Done ?s'"
      using True ok' by (simp add: step_kill_def wait_killed_def kdefs q)
    moreover have "sys_inv ?s'"
    proof (rule sys_inv_move[OF inv])
      show "frame r s ?s'" by (simp add: frame_def)
      show "sys_req_ok ?s' r" using ok l w ok' by (auto simp: sys_req_ok_def req_ok_def live_ok_def private_ok_def ghost_defs tokens_def)
      show "lists_moved r s ?s'" using l ok' q by (simp add: lists_moved_def inv_lists[OF inv] at_dev_def)
    qed (simp_all add: same_counts_def same_bg_def active_def numbered_def uniq_of_def q w ok' l)
    ultimately show ?thesis by blast
  qed
qed

definition step_interrupt :: "nat \<Rightarrow> sys \<Rightarrow> sys outcome" where
  "step_interrupt r s = obind (wait_interrupted r (s_c s)) (\<lambda>c. Done (s\<lparr>s_c := c\<rparr>))"

lemmas req_ok_defs = sys_req_ok_def req_ok_def live_ok_def private_ok_def ghost_defs tokens_def

lemma step_interrupt_inv:
  assumes inv: "sys_inv s" and w: "s_wait s r = Some Waiting"
  shows "\<exists>s'. step_interrupt r s = Done s' \<and> sys_inv s'"
proof -
  obtain q where q: "reqs (s_c s) r = Some q" and ok: "live_ok (\<lambda>d. pq_connected (c_pq (s_c s) d)) q (s_loc s r) (s_ae s r) (s_wait s r)
     (s_sent s r) (r \<in> set (iq_interrupts (s_c s)))" using inv_live[OF inv] w by blast
  let ?I = "if FR_SENT \<in> r_flags q \<and> r \<notin> set (iq_interrupts (s_c s)) \<and> FR_FINISHED \<notin> r_flags q
     then iq_interrupts (s_c s) @ [r] else iq_interrupts (s_c s)"
  let ?s' = "s\<lparr>s_c := (s_c s)\<lparr>reqs := (reqs (s_c s))(r \<mapsto> q\<lparr>r_flags := insert FR_INTERRUPTED (r_flags q)\<rparr>), iq_interrupts := ?I\<rparr>\<rparr>"
  have "step_interrupt r s = Done ?s'"
    by (auto simp: step_interrupt_def wait_interrupted_def queue_interrupt_def kdefs q Let_def)
  moreover have "sys_inv ?s'"
  proof (rule sys_inv_move[OF inv])
    show "frame r s ?s'" by (simp add: frame_def)
    have "FR_SENT \<in> r_flags q \<Longrightarrow> s_loc s r \<noteq> None \<and> \<not> queued (s_loc s r)" using liveD(4)[OF ok] by (auto simp: queued_def)
    then show "sys_req_ok ?s' r" using ok by (simp add: sys_req_ok_def req_ok_def live_ok_def private_ok_def)
    show "lists_moved r s ?s'" by (simp add: lists_moved_def inv_lists[OF inv] q moved_def fuse_req_hash_def)
  qed (simp_all add: same_counts_def same_bg_def active_def numbered_def uniq_of_def q)
  ultimately show ?thesis by blast
qed

text \<open>The allocating thread drops its reference: the request was not sent, or it is finished.\<close>

definition step_put :: "nat \<Rightarrow> sys \<Rightarrow> sys outcome" where
  "step_put r s = obind (fuse_put_request r (s_c s)) (\<lambda>c. Done (s\<lparr>s_c := c, s_wait := (s_wait s)(r := None)\<rparr>))"

definition put_req :: "fuse_req \<Rightarrow> fuse_req option" where
  "put_req q = (if r_count q = 1 then None else Some (q\<lparr>r_count := r_count q - 1\<rparr>))"

lemma fuse_put_request_eq:
  assumes "reqs c r = Some q" and "0 < r_count q"
  shows "fuse_put_request r c = Done (c\<lparr>reqs := (reqs c)(r := put_req q),
     c_num_waiting := (if r_count q = 1 \<and> FR_WAITING \<in> r_flags q then c_num_waiting c - 1 else c_num_waiting c)\<rparr>)"
  using assms by (auto simp: fuse_put_request_def kdefs put_req_def)

lemma step_put_inv:
  assumes inv: "sys_inv s" and w: "unsent (s_wait s r) \<or> (s_wait s r = Some Waiting \<and> FR_FINISHED \<in> flags_of (reqs (s_c s) r))"
  shows "\<exists>s'. step_put r s = Done s' \<and> sys_inv s'"
proof -
  have "s_wait s r \<noteq> None" using w by (auto simp: unsent_def)
  then obtain q where q: "reqs (s_c s) r = Some q" and ok: "live_ok (\<lambda>d. pq_connected (c_pq (s_c s) d)) q (s_loc s r) (s_ae s r) (s_wait s r)
     (s_sent s r) (r \<in> set (iq_interrupts (s_c s)))" using inv_live[OF inv] by blast
  let ?s' = "s\<lparr>s_c := (s_c s)\<lparr>reqs := (reqs (s_c s))(r := put_req q),
     c_num_waiting := (if r_count q = 1 \<and> FR_WAITING \<in> r_flags q then c_num_waiting (s_c s) - 1 else c_num_waiting (s_c s))\<rparr>,
     s_wait := (s_wait s)(r := None)\<rparr>"
  have pos: "0 < r_count q" using ok by (simp add: live_ok_def)
  then have "step_put r s = Done ?s'" by (simp add: step_put_def fuse_put_request_eq[OF q])
  moreover have free: "(r_count q = 1 \<and> s_loc s r = None \<and> \<not> s_ae s r \<and> s_sent s r = 0 \<and> r \<notin> set (iq_interrupts (s_c s))) \<or>
      (r_count q \<noteq> 1 \<and> s_wait s r = Some Waiting \<and> FR_FINISHED \<in> r_flags q)"
  proof (cases "r_count q = 1")
    case True
    then have "s_loc s r = None \<and> \<not> s_ae s r \<and> s_sent s r = 0"
      using liveD(1)[OF ok] \<open>s_wait s r \<noteq> None\<close> by (simp add: tokens_def split: if_splits)
    then show ?thesis using True liveD(15)[OF ok] by blast
  next
    case False
    then have "\<not> unsent (s_wait s r)" using liveD(1,10)[OF ok] \<open>s_wait s r \<noteq> None\<close> by (auto simp: tokens_def)
    then show ?thesis using False w q by simp
  qed
  moreover have "sys_inv ?s'"
  proof (rule sys_inv_move[OF inv])
    show "frame r s ?s'" by (simp add: frame_def)
    show "sys_req_ok ?s' r"
    proof (cases "r_count q = 1")
      case True
      with free show ?thesis by (simp add: sys_req_ok_def req_ok_def put_req_def tokens_def)
    next
      case False
      with free have "s_wait s r = Some Waiting" "FR_FINISHED \<in> r_flags q" by blast+
      with False ok show ?thesis
        by (simp add: sys_req_ok_def req_ok_def put_req_def live_ok_def unsent_def, simp add: tokens_def private_ok_def split: if_splits)
    qed
    show "lists_moved r s ?s'" using free by (auto simp: lists_moved_def inv_lists[OF inv] put_req_def q at_dev_def fuse_req_hash_def)
    show "active ?s' r = active s r" using free q w liveD(11)[OF ok] by (auto simp: active_def put_req_def unsent_def)
    show "numbered ?s' r \<Longrightarrow> numbered s r \<and> uniq_of (s_c ?s') r = uniq_of (s_c s) r"
      using q free by (auto simp: numbered_def uniq_of_def put_req_def)
  qed (simp_all add: same_counts_def same_bg_def)
  ultimately show ?thesis by blast
qed

text \<open>Fields of the connection the invariant does not speak about.\<close>

lemma sys_inv_irrelevant:
  assumes inv: "sys_inv s" and "reqs c = reqs (s_c s)" and "c_pq c = c_pq (s_c s)" and "iq_interrupts c = iq_interrupts (s_c s)"
    and "iq_pending c = iq_pending (s_c s)" and "c_to_end c = c_to_end (s_c s)" and "c_hash_long c = c_hash_long (s_c s)"
    and "same_counts (s_c s) c"
  shows "sys_inv (s\<lparr>s_c := c\<rparr>)"
proof (rule sys_inv_move[OF inv, of 0])
  have "sys_req_ok s 0" using inv by (simp add: sys_inv_def)
  then show "sys_req_ok (s\<lparr>s_c := c\<rparr>) 0" using assms by (simp add: sys_req_ok_def)
  show "lists_moved 0 s (s\<lparr>s_c := c\<rparr>)"
    using assms by (simp add: lists_moved_def inv_lists[OF inv] same_counts_def same_bg_def bucket_of_cong[of c "s_c s"])
qed (use assms in \<open>simp_all add: frame_def active_def numbered_def uniq_of_def\<close>)

text \<open>The allocating thread changes a request it has not sent.\<close>

lemma fresh_inv:
  assumes inv: "sys_inv s" and w: "s_wait s r = Some Fresh \<and> reqs (s_c s) r = Some q0 \<or> reqs (s_c s) r = None"
    and q: "r_count q = 1" "FR_PENDING \<in> r_flags q" "r_flags q \<inter> {FR_SENT, FR_LOCKED, FR_FINISHED, FR_PRIVATE} = {}"
  shows "sys_inv (s\<lparr>s_c := (s_c s)\<lparr>c_num_waiting := k, reqs := (reqs (s_c s))(r \<mapsto> q)\<rparr>, s_wait := (s_wait s)(r := Some Fresh)\<rparr>)"
proof -
  have r: "s_loc s r = None \<and> \<not> s_ae s r \<and> s_sent s r = 0 \<and> r \<notin> set (iq_interrupts (s_c s)) \<and> (s_wait s r = None \<or> s_wait s r = Some Fresh)"
    and a: "\<not> active s r"
  proof -
    have ok: "sys_req_ok s r" using inv by (simp add: sys_inv_def)
    show "s_loc s r = None \<and> \<not> s_ae s r \<and> s_sent s r = 0 \<and> r \<notin> set (iq_interrupts (s_c s)) \<and> (s_wait s r = None \<or> s_wait s r = Some Fresh)"
    proof (cases "reqs (s_c s) r")
      case None
      then show ?thesis using ok by (auto simp: sys_req_ok_def req_ok_def tokens_def split: if_splits)
    next
      case (Some q1)
      then have "live_ok (\<lambda>d. pq_connected (c_pq (s_c s) d)) q1 (s_loc s r) (s_ae s r) (s_wait s r)
        (s_sent s r) (r \<in> set (iq_interrupts (s_c s)))" using ok by (simp add: sys_req_ok_def req_ok_def)
      from liveD(10,15)[OF this] w Some show ?thesis by (auto simp: unsent_def)
    qed
    then show "\<not> active s r" using w by (auto simp: active_def)
  qed
  show ?thesis
  proof (rule sys_inv_move[OF inv, of r])
    show "lists_moved r s (s\<lparr>s_c := (s_c s)\<lparr>c_num_waiting := k, reqs := (reqs (s_c s))(r \<mapsto> q)\<rparr>, s_wait := (s_wait s)(r := Some Fresh)\<rparr>)"
      using r by (simp add: lists_moved_def inv_lists[OF inv] at_dev_def)
  qed (use r q a in \<open>simp_all add: frame_def sys_req_ok_def req_ok_def live_ok_def private_ok_def tokens_def ghost_defs same_counts_def same_bg_def active_def numbered_def\<close>)
qed

definition step_get :: "bool \<Rightarrow> nat \<Rightarrow> nat \<Rightarrow> nat \<Rightarrow> nat \<Rightarrow> bool \<Rightarrow> sys \<Rightarrow> sys outcome" where
  "step_get killed r uid gid pid bg s =
     (case fuse_get_req killed (Some r) uid gid pid bg (s_c s) of
        None \<Rightarrow> Done s
      | Some Aborted \<Rightarrow> Aborted
      | Some (Done (Inl e, c)) \<Rightarrow> Done (s\<lparr>s_c := c\<rparr>)
      | Some (Done (Inr r', c)) \<Rightarrow> Done (s\<lparr>s_c := c, s_wait := (s_wait s)(r' := Some Fresh)\<rparr>))"

definition new_req :: "nat \<Rightarrow> nat \<Rightarrow> nat \<Rightarrow> bool \<Rightarrow> fuse_req" where
  "new_req uid gid pid bg = fuse_request_init\<lparr>in_uid := uid, in_gid := gid, in_pid := pid,
     r_flags := (if bg then {FR_BACKGROUND} else {}) \<union> {FR_WAITING} \<union> {FR_PENDING}\<rparr>"

lemma fuse_get_req_cases:
  assumes r: "reqs c r = None"
  shows "fuse_get_req killed (Some r) uid gid pid bg c = None \<or>
    (\<exists>e. fuse_get_req killed (Some r) uid gid pid bg c = Some (Done (Inl e, c))) \<or>
    fuse_get_req killed (Some r) uid gid pid bg c =
      Some (Done (Inr r, c\<lparr>c_num_waiting := c_num_waiting c + 1, reqs := (reqs c)(r \<mapsto> new_req uid gid pid bg)\<rparr>))"
proof -
  have idem: "(reqs c)(r := None) = reqs c" using r by (simp add: fun_upd_idem_iff)
  note defs = fuse_get_req_def fuse_request_alloc_def Let_def kdefs fuse_put_request_def fuse_request_init_def new_req_def fuse_block_alloc_def
  show ?thesis
  proof (cases "\<not> c_initialized c \<or> (bg \<and> c_blocked c)")
    case True
    then show ?thesis by (cases killed) (simp_all add: defs)
  next
    case False
    then show ?thesis
      by (cases "c_connected c"; cases "c_conn_error c"; cases "uid = 2 ^ 32 - 1 \<or> gid = 2 ^ 32 - 1")
        (simp_all add: defs idem insert_commute)
  qed
qed

lemma step_get_inv:
  assumes inv: "sys_inv s" and r: "reqs (s_c s) r = None"
  shows "\<exists>s'. step_get killed r uid gid pid bg s = Done s' \<and> sys_inv s'"
proof -
  let ?c = "s_c s"
  have "sys_inv (s\<lparr>s_c := ?c\<lparr>c_num_waiting := c_num_waiting ?c + 1, reqs := (reqs ?c)(r \<mapsto> new_req uid gid pid bg)\<rparr>,
      s_wait := (s_wait s)(r := Some Fresh)\<rparr>)"
    by (rule fresh_inv[OF inv]) (simp_all add: r fuse_request_init_def new_req_def)
  with fuse_get_req_cases[OF r, of killed uid gid pid bg] inv show ?thesis
    by (elim disjE exE) (simp_all add: step_get_def)
qed

definition step_force :: "nat \<Rightarrow> bool \<Rightarrow> sys \<Rightarrow> sys outcome" where
  "step_force r bg s = (case fuse_request_alloc (Some r) (s_c s) of
      (None, c) \<Rightarrow> Done s
    | (Some r', c) \<Rightarrow> Done (s\<lparr>s_c := (if bg then set_bit_req FR_BACKGROUND r' c
          else set_bit_req FR_FORCE r' (set_bit_req FR_WAITING r' (c\<lparr>c_num_waiting := c_num_waiting c + 1\<rparr>))),
        s_wait := (s_wait s)(r' := Some Fresh)\<rparr>))"

lemma sys_reorder: "c\<lparr>reqs := f, c_num_waiting := k\<rparr> = c\<lparr>c_num_waiting := k, reqs := f\<rparr>"
  by simp

lemma step_force_inv:
  assumes inv: "sys_inv s" and r: "reqs (s_c s) r = None"
  shows "\<exists>s'. step_force r bg s = Done s' \<and> sys_inv s'"
proof -
  let ?F = "insert (if bg then FR_BACKGROUND else FR_FORCE) (if bg then {FR_PENDING} else {FR_WAITING, FR_PENDING})"
  let ?q = "fuse_request_init\<lparr>r_flags := ?F\<rparr>" and ?k = "c_num_waiting (s_c s) + (if bg then 0 else 1)"
  have "step_force r bg s = Done (s\<lparr>s_c := (s_c s)\<lparr>c_num_waiting := ?k, reqs := (reqs (s_c s))(r \<mapsto> ?q)\<rparr>, s_wait := (s_wait s)(r := Some Fresh)\<rparr>)"
    by (cases bg) (simp_all add: step_force_def fuse_request_alloc_def kdefs fuse_request_init_def sys_reorder)
  moreover have "sys_inv (s\<lparr>s_c := (s_c s)\<lparr>c_num_waiting := ?k, reqs := (reqs (s_c s))(r \<mapsto> ?q)\<rparr>, s_wait := (s_wait s)(r := Some Fresh)\<rparr>)"
    by (rule fresh_inv[OF inv]) (simp_all add: r fuse_request_init_def)
  ultimately show ?thesis by blast
qed

definition step_args :: "nat \<Rightarrow> fuse_args \<Rightarrow> bool \<Rightarrow> sys \<Rightarrow> sys outcome" where
  "step_args r args isreply s = (let c = fuse_args_to_req r args (s_c s) in
     Done (s\<lparr>s_c := (if isreply then set_bit_req FR_ISREPLY r c else c)\<rparr>))"

lemma fresh_live:
  assumes inv: "sys_inv s" and w: "s_wait s r = Some Fresh"
  obtains q where "reqs (s_c s) r = Some q" and "r_count q = 1" and "FR_PENDING \<in> r_flags q"
    and "r_flags q \<inter> {FR_SENT, FR_LOCKED, FR_FINISHED, FR_PRIVATE} = {}"
    and "s_loc s r = None" and "\<not> s_ae s r" and "s_sent s r = 0" and "r \<notin> set (iq_interrupts (s_c s))"
proof -
  obtain q where q: "reqs (s_c s) r = Some q" and ok: "live_ok (\<lambda>d. pq_connected (c_pq (s_c s) d)) q (s_loc s r) (s_ae s r) (s_wait s r)
     (s_sent s r) (r \<in> set (iq_interrupts (s_c s)))" using inv_live[OF inv] w by blast
  have u: "unsent (s_wait s r)" using w by (simp add: unsent_def)
  note d = liveD(10)[OF ok u]
  have "r_count q = 1" using liveD(1)[OF ok] d w by (simp add: tokens_def)
  moreover have "FR_SENT \<notin> r_flags q" "FR_LOCKED \<notin> r_flags q" using liveD(4,5)[OF ok] d by (auto simp: at_dev_def)
  ultimately show ?thesis using that[of q] q d u liveD(3,15)[OF ok] by auto
qed

lemma step_args_inv:
  assumes inv: "sys_inv s" and w: "s_wait s r = Some Fresh"
  shows "\<exists>s'. step_args r args isreply s = Done s' \<and> sys_inv s'"
proof -
  obtain q where q: "reqs (s_c s) r = Some q" "r_count q = 1" "FR_PENDING \<in> r_flags q"
    "r_flags q \<inter> {FR_SENT, FR_LOCKED, FR_FINISHED, FR_PRIVATE} = {}" using fresh_live[OF inv w] by blast
  define F where "F = (if isreply then {FR_ISREPLY} else {}) \<union> (if ar_end args then {FR_ASYNC} else {}) \<union> r_flags q"
  let ?q = "q\<lparr>in_opcode := ar_opcode args, in_nodeid := ar_nodeid args, r_args := args, r_flags := F\<rparr>"
  have "step_args r args isreply s = Done (s\<lparr>s_c := (s_c s)\<lparr>c_num_waiting := c_num_waiting (s_c s), reqs := (reqs (s_c s))(r \<mapsto> ?q)\<rparr>, s_wait := (s_wait s)(r := Some Fresh)\<rparr>)"
    using w q(1) by (simp add: step_args_def fuse_args_to_req_def kdefs F_def fun_upd_idem insert_commute)
  moreover have "sys_inv (s\<lparr>s_c := (s_c s)\<lparr>c_num_waiting := c_num_waiting (s_c s), reqs := (reqs (s_c s))(r \<mapsto> ?q)\<rparr>, s_wait := (s_wait s)(r := Some Fresh)\<rparr>)"
    by (rule fresh_inv[OF inv, of r q]) (use q w in \<open>auto simp: F_def\<close>)
  ultimately show ?thesis by blast
qed

text \<open>\<open>ids_left s n\<close>: \<open>n\<close> more ids can be given out before the 64-bit counter wraps around.\<close>

definition ids_left :: "sys \<Rightarrow> nat \<Rightarrow> bool" where
  "ids_left s n \<longleftrightarrow> uint (iq_reqctr (s_c s)) + 2 * int n < 2 ^ 64"

definition step_send :: "nat \<Rightarrow> sys \<Rightarrow> sys outcome" where
  "step_send r s = obind (fuse_request_send r (s_c s)) (\<lambda>(sent, c). Done (if sent
     then s\<lparr>s_c := c, s_loc := (s_loc s)(r := Some In_pending), s_wait := (s_wait s)(r := Some Waiting)\<rparr>
     else s\<lparr>s_c := c, s_wait := (s_wait s)(r := Some Unsent)\<rparr>))"

lemma step_send_inv:
  assumes inv: "sys_inv s" and w: "s_wait s r = Some Fresh" and b: "FR_BACKGROUND \<notin> flags_of (reqs (s_c s) r)" and ids: "ids_left s 1"
  shows "\<exists>s'. step_send r s = Done s' \<and> sys_inv s'"
proof -
  obtain q where q: "reqs (s_c s) r = Some q" "r_count q = 1" "FR_PENDING \<in> r_flags q"
    "r_flags q \<inter> {FR_SENT, FR_LOCKED, FR_FINISHED, FR_PRIVATE} = {}"
    "s_loc s r = None" "\<not> s_ae s r" "s_sent s r = 0" "r \<notin> set (iq_interrupts (s_c s))" using fresh_live[OF inv w] by metis
  note simps = frame_def sys_req_ok_def req_ok_def live_ok_def private_ok_def tokens_def ghost_defs lists_moved_def inv_lists[OF inv]
    same_counts_def same_bg_def active_def numbered_def fuse_req_hash_def
  show ?thesis
  proof (cases "iq_connected (s_c s)")
    case False
    let ?s' = "s\<lparr>s_c := (s_c s)\<lparr>reqs := (reqs (s_c s))(r \<mapsto> q\<lparr>out_error := - ENOTCONN\<rparr>)\<rparr>, s_wait := (s_wait s)(r := Some Unsent)\<rparr>"
    have "step_send r s = Done ?s'" using False q b by (simp add: step_send_def fuse_request_send_def kdefs)
    moreover have "sys_inv ?s'"
      by (rule sys_inv_move[OF inv, of r]) (use q w b in \<open>simp_all add: simps\<close>)
    ultimately show ?thesis by blast
  next
    case True
    let ?u = "iq_reqctr (s_c s) + FUSE_REQ_ID_STEP"
    let ?q = "q\<lparr>in_unique := ?u, r_count := Suc (Suc 0), in_len := u32_add IN_HEADER_SIZE (fuse_len_args (ar_in_args (r_args q)))\<rparr>"
    let ?s' = "s\<lparr>s_c := (s_c s)\<lparr>iq_reqctr := ?u, reqs := (reqs (s_c s))(r \<mapsto> ?q), iq_pending := iq_pending (s_c s) @ [r]\<rparr>,
       s_loc := (s_loc s)(r := Some In_pending), s_wait := (s_wait s)(r := Some Waiting)\<rparr>"
    have "step_send r s = Done ?s'" using True q b
      by (simp add: step_send_def fuse_request_send_def kdefs assign_unique_def fuse_get_unique_def queue_request_and_unlock_def Let_def)
    moreover have fr: "frame r s ?s'" by (simp add: frame_def)
    have "sys_inv ?s'"
    proof (rule sys_inv_upd[OF inv fr])
      show "lists_moved r s ?s'" using q by (simp add: simps moved_def)
      show "bg_ok ?s'" using inv q b w unfolding sys_inv_def
        by (intro bg_ok_same[OF _ fr]) (simp_all add: same_counts_def same_bg_def active_def)
      show "uniq_ok ?s'" using inv ids unfolding sys_inv_def ids_left_def
        by (intro uniq_ok_new[OF _ fr]) (simp_all add: uniq_of_def)
    qed (use q w b in \<open>simp_all add: simps\<close>)
    ultimately show ?thesis by blast
  qed
qed

text \<open>The reply to a notification: queued without waiting, its reference goes with it.\<close>

definition step_notify :: "nat \<Rightarrow> fuse_args \<Rightarrow> 64 word \<Rightarrow> sys \<Rightarrow> sys outcome" where
  "step_notify r args unique s =
     (let c = fuse_args_to_req r args (upd_req r (\<lambda>q. q\<lparr>in_unique := unique\<rparr>) (clear_bit_req FR_ISREPLY r (s_c s)))
      in if iq_connected c
         then obind (queue_request_and_unlock r c) (\<lambda>c1.
                Done (s\<lparr>s_c := c1, s_loc := (s_loc s)(r := Some In_pending), s_wait := (s_wait s)(r := None)\<rparr>))
         else obind (fuse_put_request r c) (\<lambda>c1. Done (s\<lparr>s_c := c1, s_wait := (s_wait s)(r := None)\<rparr>)))"

lemma step_notify_inv:
  assumes inv: "sys_inv s" and w: "s_wait s r = Some Fresh" and b: "FR_BACKGROUND \<notin> flags_of (reqs (s_c s) r)"
  shows "\<exists>s'. step_notify r args unique s = Done s' \<and> sys_inv s'"
proof -
  obtain q where q: "reqs (s_c s) r = Some q" "r_count q = 1" "FR_PENDING \<in> r_flags q"
    "r_flags q \<inter> {FR_SENT, FR_LOCKED, FR_FINISHED, FR_PRIVATE} = {}"
    "s_loc s r = None" "\<not> s_ae s r" "s_sent s r = 0" "r \<notin> set (iq_interrupts (s_c s))" using fresh_live[OF inv w] by metis
  note simps = frame_def sys_req_ok_def req_ok_def live_ok_def private_ok_def tokens_def ghost_defs lists_moved_def inv_lists[OF inv]
    same_counts_def same_bg_def active_def numbered_def fuse_req_hash_def
  define F where "F = (if ar_end args then {FR_ASYNC} else {}) \<union> (r_flags q - {FR_ISREPLY})"
  define q1 where "q1 = q\<lparr>in_unique := unique, in_opcode := ar_opcode args, in_nodeid := ar_nodeid args, r_args := args, r_flags := F\<rparr>"
  have c1: "fuse_args_to_req r args (upd_req r (\<lambda>q. q\<lparr>in_unique := unique\<rparr>) (clear_bit_req FR_ISREPLY r (s_c s)))
      = (s_c s)\<lparr>reqs := (reqs (s_c s))(r \<mapsto> q1)\<rparr>"
    using q(1) by (simp add: fuse_args_to_req_def kdefs F_def q1_def)
  have F: "FR_BACKGROUND \<notin> F" "FR_PENDING \<in> F" "FR_ISREPLY \<notin> F" "F \<inter> {FR_SENT, FR_LOCKED, FR_FINISHED, FR_PRIVATE} = {}"
    using q b by (auto simp: F_def)
  show ?thesis
  proof (cases "iq_connected (s_c s)")
    case False
    let ?s' = "s\<lparr>s_c := (s_c s)\<lparr>reqs := (reqs (s_c s))(r := None),
       c_num_waiting := (if FR_WAITING \<in> F then c_num_waiting (s_c s) - 1 else c_num_waiting (s_c s))\<rparr>, s_wait := (s_wait s)(r := None)\<rparr>"
    have "step_notify r args unique s = Done ?s'" using False q
      by (simp add: step_notify_def c1 fuse_put_request_eq put_req_def q1_def)
    moreover have "sys_inv ?s'"
      by (rule sys_inv_move[OF inv, of r]) (use q w b in \<open>simp_all add: simps\<close>)
    ultimately show ?thesis by blast
  next
    case True
    let ?q = "q1\<lparr>in_len := u32_add IN_HEADER_SIZE (fuse_len_args (ar_in_args args))\<rparr>"
    let ?s' = "s\<lparr>s_c := (s_c s)\<lparr>reqs := (reqs (s_c s))(r \<mapsto> ?q), iq_pending := iq_pending (s_c s) @ [r]\<rparr>,
       s_loc := (s_loc s)(r := Some In_pending), s_wait := (s_wait s)(r := None)\<rparr>"
    have "step_notify r args unique s = Done ?s'" using True unfolding step_notify_def c1 Let_def
      by (simp add: queue_request_and_unlock_def kdefs q1_def)
    moreover have "sys_inv ?s'"
    proof (rule sys_inv_move[OF inv, of r])
      show "lists_moved r s ?s'" using q by (simp add: simps moved_def)
    qed (use q w b F in \<open>simp_all add: simps q1_def\<close>)
    ultimately show ?thesis by blast
  qed
qed

text \<open>Readers of the device.\<close>

definition step_take :: "nat \<Rightarrow> sys \<Rightarrow> sys outcome" where
  "step_take d s = obind (fuse_dev_do_read_take (s_c s)) (\<lambda>(choice, c). Done (case choice of
     Read_request r \<Rightarrow> s\<lparr>s_c := c, s_loc := (s_loc s)(r := Some (Taken d))\<rparr> | _ \<Rightarrow> s\<lparr>s_c := c\<rparr>))"

lemma batch_inv: "sys_inv s \<Longrightarrow> sys_inv (s\<lparr>s_c := (s_c s)\<lparr>iq_forget_batch := k\<rparr>\<rparr>)"
  by (rule sys_inv_irrelevant) (simp_all add: same_counts_def same_bg_def)

lemma read_take_cases:
  "(\<exists>ch k. fuse_dev_do_read_take c = Done (ch, c\<lparr>iq_forget_batch := k\<rparr>) \<and> (\<forall>r. ch \<noteq> Read_request r)) \<or>
   (\<exists>r rest k. iq_pending c = r # rest \<and> fuse_dev_do_read_take c =
      with_req r c (\<lambda>_. Done (Read_request r, (clear_bit_req FR_PENDING r (c\<lparr>iq_forget_batch := k\<rparr>))\<lparr>iq_pending := rest\<rparr>)))"
proof (cases "iq_connected c \<and> request_pending c \<and> iq_interrupts c = [] \<and> \<not> (forget_pending c \<and> (iq_pending c = [] \<or> 0 < iq_forget_batch c))")
  case True
  then obtain r rest where "iq_pending c = r # rest" by (cases "iq_pending c") (auto simp: request_pending_def)
  with True show ?thesis
    by (intro disjI2 exI[of _ r] exI[of _ rest] exI[of _ "if forget_pending c then (if iq_forget_batch c - 1 \<le> -8 then 16 else iq_forget_batch c - 1) else iq_forget_batch c"])
      (auto simp: fuse_dev_do_read_take_def Let_def kdefs split: option.split)
next
  case False
  have self: "c\<lparr>iq_forget_batch := iq_forget_batch c\<rparr> = c" by simp
  show ?thesis
  proof (cases "iq_connected c \<and> request_pending c \<and> iq_interrupts c = []")
    case True
    with False show ?thesis
      by (intro disjI1 exI[of _ Read_forget] exI[of _ "if iq_pending c = [] then iq_forget_batch c else iq_forget_batch c - 1"])
        (auto simp: fuse_dev_do_read_take_def)
  next
    case False
    then show ?thesis
      by (intro disjI1 exI[of _ "if \<not> iq_connected c then Read_err (if c_aborted c then - ECONNABORTED else - ENODEV)
          else if \<not> request_pending c then Read_wait else Read_interrupt (hd (iq_interrupts c))"] exI[of _ "iq_forget_batch c"])
        (auto simp: fuse_dev_do_read_take_def)
  qed
qed

lemma step_take_inv:
  assumes inv: "sys_inv s"
  shows "\<exists>s'. step_take d s = Done s' \<and> sys_inv s'"
proof -
  note simps = frame_def sys_req_ok_def req_ok_def live_ok_def private_ok_def tokens_def ghost_defs lists_moved_def inv_lists[OF inv]
    same_counts_def same_bg_def active_def numbered_def fuse_req_hash_def
  from read_take_cases[of "s_c s"] show ?thesis
  proof (elim disjE exE conjE)
    fix ch k assume "fuse_dev_do_read_take (s_c s) = Done (ch, (s_c s)\<lparr>iq_forget_batch := k\<rparr>)" "\<forall>r. ch \<noteq> Read_request r"
    then have "step_take d s = Done (s\<lparr>s_c := (s_c s)\<lparr>iq_forget_batch := k\<rparr>\<rparr>)"
      by (simp add: step_take_def split: read_choice.split)
    then show ?thesis using batch_inv[OF inv] by blast
  next
    fix r rest k assume p: "iq_pending (s_c s) = r # rest" and t: "fuse_dev_do_read_take (s_c s) =
      with_req r (s_c s) (\<lambda>_. Done (Read_request r, (clear_bit_req FR_PENDING r ((s_c s)\<lparr>iq_forget_batch := k\<rparr>))\<lparr>iq_pending := rest\<rparr>))"
    have l: "s_loc s r = Some In_pending" using inv_lists(2)[OF inv, of r] p by simp
    then obtain q where q: "reqs (s_c s) r = Some q" and ok: "live_ok (\<lambda>d. pq_connected (c_pq (s_c s) d)) q (s_loc s r) (s_ae s r) (s_wait s r)
       (s_sent s r) (r \<in> set (iq_interrupts (s_c s)))" using inv_live[OF inv] by blast
    let ?s' = "s\<lparr>s_c := (s_c s)\<lparr>iq_forget_batch := k, reqs := (reqs (s_c s))(r \<mapsto> q\<lparr>r_flags := r_flags q - {FR_PENDING}\<rparr>), iq_pending := rest\<rparr>,
      s_loc := (s_loc s)(r := Some (Taken d))\<rparr>"
    have "step_take d s = Done ?s'" by (simp add: step_take_def t kdefs q)
    moreover have "sys_inv ?s'"
    proof (rule sys_inv_move[OF inv, of r])
      have "r \<notin> set rest" using inv_lists(7)[OF inv] p by simp
      then show "lists_moved r s ?s'" using l q p by (simp add: simps moved_def)
      show "sys_req_ok ?s' r" using ok l liveD(3,10)[OF ok] by (simp add: simps) blast
    qed (use q l in \<open>simp_all add: simps uniq_of_def\<close>)
    ultimately show ?thesis by blast
  qed
qed

definition step_io :: "nat \<Rightarrow> nat \<Rightarrow> nat \<Rightarrow> sys \<Rightarrow> sys outcome" where
  "step_io d nbytes r s = obind (fuse_dev_do_read_io d nbytes r (s_c s)) (\<lambda>(res, c).
     Done (s\<lparr>s_c := c, s_loc := (s_loc s)(r := Some (case res of Inl _ \<Rightarrow> Ending | Inr _ \<Rightarrow> Reading d))\<rparr>))"

lemma step_io_inv:
  assumes inv: "sys_inv s" and l: "s_loc s r = Some (Taken d)"
  shows "\<exists>s'. step_io d nbytes r s = Done s' \<and> sys_inv s'"
proof -
  note simps = frame_def sys_req_ok_def req_ok_def live_ok_def private_ok_def tokens_def ghost_defs lists_moved_def inv_lists[OF inv]
    same_counts_def same_bg_def active_def numbered_def fuse_req_hash_def
  obtain q where q: "reqs (s_c s) r = Some q" and ok: "live_ok (\<lambda>d. pq_connected (c_pq (s_c s) d)) q (s_loc s r) (s_ae s r) (s_wait s r)
     (s_sent s r) (r \<in> set (iq_interrupts (s_c s)))" using inv_live[OF inv] l by blast
  show ?thesis
  proof (cases "in_len q \<le> nbytes \<and> pq_connected (c_pq (s_c s) d)")
    case True
    let ?s' = "s\<lparr>s_c := upd_pq d (\<lambda>pq. pq\<lparr>pq_io := r # pq_io pq\<rparr>) (s_c s), s_loc := (s_loc s)(r := Some (Reading d))\<rparr>"
    have "step_io d nbytes r s = Done ?s'" using True q by (simp add: step_io_def fuse_dev_do_read_io_def with_req_def)
    moreover have "sys_inv ?s'"
    proof (rule sys_inv_move[OF inv, of r])
      show "lists_moved r s ?s'" using ok l q by (auto simp: simps upd_pq_def moved_def)
      show "sys_req_ok ?s' r" using ok l True q by (simp add: simps upd_pq_def) blast
    qed (use q l in \<open>simp_all add: simps uniq_of_def upd_pq_def split: if_splits\<close>)
    ultimately show ?thesis by blast
  next
    case False
    define e where "e = (if nbytes < in_len q then (if ar_opcode (r_args q) = FUSE_SETXATTR then - E2BIG else - EIO) else - ECONNABORTED)"
    let ?s' = "s\<lparr>s_c := (s_c s)\<lparr>reqs := (reqs (s_c s))(r \<mapsto> q\<lparr>out_error := e\<rparr>)\<rparr>, s_loc := (s_loc s)(r := Some Ending)\<rparr>"
    have "step_io d nbytes r s = Done ?s'" using False q by (auto simp: step_io_def fuse_dev_do_read_io_def kdefs e_def)
    moreover have "sys_inv ?s'"
    proof (rule sys_inv_move[OF inv, of r])
      show "lists_moved r s ?s'" using l q ok by (simp add: simps)
      show "sys_req_ok ?s' r" using ok l q by (simp add: simps) blast
    qed (use q l in \<open>simp_all add: simps uniq_of_def\<close>)
    ultimately show ?thesis by blast
  qed
qed

text \<open>Locking and unlocking a request while its data is copied.\<close>

definition step_lock :: "bool \<Rightarrow> nat \<Rightarrow> sys \<Rightarrow> sys outcome" where
  "step_lock lck r s = obind ((if lck then lock_request else unlock_request) r (s_c s)) (\<lambda>(err, c). Done (s\<lparr>s_c := c\<rparr>))"

lemma step_lock_inv:
  assumes inv: "sys_inv s" and l: "at_dev d (s_loc s r)"
  shows "\<exists>s'. step_lock lck r s = Done s' \<and> sys_inv s'"
proof -
  note simps = frame_def sys_req_ok_def req_ok_def live_ok_def private_ok_def lists_moved_def inv_lists[OF inv]
    same_counts_def same_bg_def active_def numbered_def fuse_req_hash_def
  have "s_loc s r \<noteq> None" using l by (auto simp: at_dev_def)
  then obtain q where q: "reqs (s_c s) r = Some q" and ok: "live_ok (\<lambda>d. pq_connected (c_pq (s_c s) d)) q (s_loc s r) (s_ae s r) (s_wait s r)
     (s_sent s r) (r \<in> set (iq_interrupts (s_c s)))" using inv_live[OF inv] by blast
  show ?thesis
  proof (cases "FR_ABORTED \<in> r_flags q")
    case True
    then show ?thesis using inv q by (simp add: step_lock_def lock_request_def unlock_request_def with_req_def)
  next
    case False
    define F where "F = (if lck then insert FR_LOCKED (r_flags q) else r_flags q - {FR_LOCKED})"
    have F: "b \<in> F \<longleftrightarrow> b \<in> r_flags q" if "b \<noteq> FR_LOCKED" for b using that by (auto simp: F_def)
    let ?s' = "s\<lparr>s_c := (s_c s)\<lparr>reqs := (reqs (s_c s))(r \<mapsto> q\<lparr>r_flags := F\<rparr>)\<rparr>\<rparr>"
    have "step_lock lck r s = Done ?s'" using False q
      by (cases lck) (simp_all add: step_lock_def lock_request_def unlock_request_def kdefs F_def)
    moreover have "sys_inv ?s'"
    proof (rule sys_inv_move[OF inv, of r])
      have "\<exists>d. at_dev d (s_loc s r)" using l by blast
      then show "sys_req_ok ?s' r" using ok by (simp add: simps F)
    qed (use q in \<open>simp_all add: simps uniq_of_def F\<close>)
    ultimately show ?thesis by blast
  qed
qed

text \<open>A device thread is done with a request: it leaves the list of requests under I/O and is to be ended.\<close>

lemma ghost_simps [simp]:
  "at_dev d None = False" "at_dev d (Some Ending) = False" "at_dev d (Some In_to_end) = False" "at_dev d (Some (In_processing e)) = False"
  "queued None = False" "queued (Some Ending) = False" "queued (Some In_to_end) = False" "queued (Some (In_processing d)) = False"
  "early None = False" "early (Some Ending) = False" "early (Some In_to_end) = False" "early (Some (In_processing d)) = False"
  "early (Some (Writing d)) = False"
  by (simp_all add: ghost_defs)

lemma at_devD:
  assumes "at_dev d l"
  shows "l \<noteq> None" "l \<noteq> Some In_bg" "l \<noteq> Some In_pending" "l \<noteq> Some In_to_end" "l \<noteq> Some (In_processing e)" "at_dev e l \<longleftrightarrow> e = d"
    "\<not> queued l" "l \<noteq> Some Ending"
  using assms by (auto simp: ghost_defs)

lemma leave_io_inv:
  assumes inv: "sys_inv s" and l: "at_dev d (s_loc s r)" and q: "reqs (s_c s) r = Some q"
    and q': "r_count q' = r_count q" "r_flags q' = r_flags q - {FR_LOCKED}" "in_unique q' = in_unique q"
    and io: "io = (if FR_PRIVATE \<in> r_flags q then pq_io (c_pq (s_c s) d) else remove1 r (pq_io (c_pq (s_c s) d)))"
  shows "sys_inv (s\<lparr>s_c := (s_c s)\<lparr>reqs := (reqs (s_c s))(r \<mapsto> q'), c_pq := (c_pq (s_c s))(d := (c_pq (s_c s) d)\<lparr>pq_io := io\<rparr>)\<rparr>,
     s_loc := (s_loc s)(r := Some Ending)\<rparr>)"
    (is "sys_inv ?s'")
proof -
  have "s_loc s r \<noteq> None" using l by (auto simp: at_dev_def)
  then obtain q0 where "reqs (s_c s) r = Some q0" and ok: "live_ok (\<lambda>d. pq_connected (c_pq (s_c s) d)) q0 (s_loc s r) (s_ae s r) (s_wait s r)
     (s_sent s r) (r \<in> set (iq_interrupts (s_c s)))" using inv_live[OF inv] by blast
  with q have ok: "live_ok (\<lambda>d. pq_connected (c_pq (s_c s) d)) q (s_loc s r) (s_ae s r) (s_wait s r)
     (s_sent s r) (r \<in> set (iq_interrupts (s_c s)))" by simp
  note l' = at_devD[OF l]
  have mem: "r \<in> set (pq_io (c_pq (s_c s) d)) \<longleftrightarrow> FR_PRIVATE \<notin> r_flags q" using inv_lists(4)[OF inv] l q by simp
  have nu: "\<not> unsent (s_wait s r)" using liveD(10)[OF ok] l' by blast
  have ns: "FR_SENT \<notin> r_flags q" using liveD(4)[OF ok] l' by blast
  show ?thesis
  proof (rule sys_inv_move[OF inv, of r])
    show "frame r s ?s'" by (simp add: frame_def)
    show "lists_moved r s ?s'" using io mem inv_lists(9)[OF inv, of d] by (simp add: lists_moved_def inv_lists[OF inv] l' q q')
    show "sys_req_ok ?s' r" using ok l' ns nu
      by (simp add: sys_req_ok_def req_ok_def live_ok_def private_ok_def q' tokens_def)
    show "active ?s' r = active s r" using l' q q' by (simp add: active_def)
    show "numbered ?s' r \<Longrightarrow> numbered s r \<and> uniq_of (s_c ?s') r = uniq_of (s_c s) r"
      using l' q q' by (simp add: numbered_def uniq_of_def)
  qed (simp_all add: same_counts_def same_bg_def split: if_splits)
qed

definition step_read_finish :: "nat \<Rightarrow> int \<Rightarrow> nat \<Rightarrow> sys \<Rightarrow> sys outcome" where
  "step_read_finish d err r s = obind (fuse_dev_do_read_finish d err r (s_c s)) (\<lambda>(res, c). Done (case res of
     Inl _ \<Rightarrow> s\<lparr>s_c := c, s_loc := (s_loc s)(r := Some Ending)\<rparr>
   | Inr _ \<Rightarrow> s\<lparr>s_c := c, s_loc := (s_loc s)(r := Some (In_processing d)), s_sent := (s_sent s)(r := s_sent s r + 1)\<rparr>))"

lemma out_end_eq:
  assumes "reqs c r = Some q"
  shows "out_end d r c = c\<lparr>c_pq := (c_pq c)(d := (c_pq c d)\<lparr>pq_io :=
    (if FR_PRIVATE \<in> r_flags q then pq_io (c_pq c d) else remove1 r (pq_io (c_pq c d)))\<rparr>)\<rparr>"
  using assms by (simp add: out_end_def pq_del_def kdefs fun_upd_idem)

lemma step_read_finish_inv:
  assumes inv: "sys_inv s" and l: "s_loc s r = Some (Reading d)"
  shows "\<exists>s'. step_read_finish d err r s = Done s' \<and> sys_inv s'"
proof -
  note simps = frame_def sys_req_ok_def req_ok_def live_ok_def private_ok_def tokens_def ghost_defs lists_moved_def inv_lists[OF inv]
    same_counts_def same_bg_def active_def numbered_def fuse_req_hash_def
  obtain q where q: "reqs (s_c s) r = Some q" and ok: "live_ok (\<lambda>d. pq_connected (c_pq (s_c s) d)) q (s_loc s r) (s_ae s r) (s_wait s r)
     (s_sent s r) (r \<in> set (iq_interrupts (s_c s)))" using inv_live[OF inv] l by blast
  have ld: "at_dev d (s_loc s r)" using l by (simp add: at_dev_def)
  show ?thesis
  proof (cases "pq_connected (c_pq (s_c s) d) \<and> err = 0 \<and> FR_ISREPLY \<in> r_flags q")
    case False
    let ?q = "q\<lparr>r_flags := r_flags q - {FR_LOCKED}, out_error := (if pq_connected (c_pq (s_c s) d) \<and> err \<noteq> 0 then - EIO else out_error q)\<rparr>"
    let ?s' = "s\<lparr>s_c := (s_c s)\<lparr>reqs := (reqs (s_c s))(r \<mapsto> ?q), c_pq := (c_pq (s_c s))(d := (c_pq (s_c s) d)\<lparr>pq_io :=
       (if FR_PRIVATE \<in> r_flags q then pq_io (c_pq (s_c s) d) else remove1 r (pq_io (c_pq (s_c s) d)))\<rparr>)\<rparr>, s_loc := (s_loc s)(r := Some Ending)\<rparr>"
    have "step_read_finish d err r s = Done ?s'" using False q
      by (auto simp: step_read_finish_def fuse_dev_do_read_finish_def Let_def kdefs out_end_eq)
    moreover have "sys_inv ?s'" by (rule leave_io_inv[OF inv ld q]) simp_all
    ultimately show ?thesis by blast
  next
    case True
    then have np: "FR_PRIVATE \<notin> r_flags q" using liveD(8)[OF ok] l by (auto simp: at_dev_def)
    let ?h = "fuse_req_hash (s_c s) (in_unique q)" and ?pq = "c_pq (s_c s) d"
    let ?q = "q\<lparr>r_count := Suc (r_count q), r_flags := insert FR_SENT (r_flags q - {FR_LOCKED})\<rparr>"
    let ?s' = "s\<lparr>s_c := (s_c s)\<lparr>c_pq := (c_pq (s_c s))(d :=
       ?pq\<lparr>pq_io := remove1 r (pq_io ?pq), pq_processing := (pq_processing ?pq)(?h := pq_processing ?pq ?h @ [r])\<rparr>),
       reqs := (reqs (s_c s))(r \<mapsto> ?q)\<rparr>,
       s_loc := (s_loc s)(r := Some (In_processing d)), s_sent := (s_sent s)(r := s_sent s r + 1)\<rparr>"
    have "step_read_finish d err r s = Done ?s'" using True q
      by (simp add: step_read_finish_def fuse_dev_do_read_finish_def Let_def kdefs fuse_req_hash_def)
    moreover have "sys_inv ?s'"
    proof (rule sys_inv_move[OF inv, of r])
      show "lists_moved r s ?s'" using inv_lists(9)[OF inv, of d]
        by (simp add: lists_moved_def inv_lists[OF inv] l q np at_dev_def moved_def fuse_req_hash_def)
      have "FR_FINISHED \<notin> r_flags q" "\<not> s_ae s r" "\<not> unsent (s_wait s r)" using liveD(6,7,10)[OF ok] l np by auto
      then show "sys_req_ok ?s' r" using ok l True np
        by (simp add: sys_req_ok_def req_ok_def live_ok_def private_ok_def tokens_def queued_def)
    qed (use l q in \<open>simp_all add: frame_def same_counts_def same_bg_def active_def numbered_def uniq_of_def split: if_splits\<close>)
    ultimately show ?thesis by blast
  qed
qed

lemma queue_interrupt_inv:
  assumes inv: "sys_inv s" and q: "reqs (s_c s) r = Some q"
    and l: "FR_FINISHED \<notin> r_flags q \<Longrightarrow> s_loc s r \<noteq> None \<and> \<not> queued (s_loc s r)"
  obtains e c where "queue_interrupt r (s_c s) = Done (e, c)" and "sys_inv (s\<lparr>s_c := c\<rparr>)" and "reqs c = reqs (s_c s)"
    and "c_pq c = c_pq (s_c s)"
proof -
  have "sys_req_ok s r" using inv by (simp add: sys_inv_def)
  then have ok: "live_ok (\<lambda>d. pq_connected (c_pq (s_c s) d)) q (s_loc s r) (s_ae s r) (s_wait s r)
     (s_sent s r) (r \<in> set (iq_interrupts (s_c s)))" by (simp add: sys_req_ok_def req_ok_def q)
  let ?new = "FR_INTERRUPTED \<in> r_flags q \<and> r \<notin> set (iq_interrupts (s_c s)) \<and> FR_FINISHED \<notin> r_flags q"
  let ?c = "(s_c s)\<lparr>iq_interrupts := (if ?new then iq_interrupts (s_c s) @ [r] else iq_interrupts (s_c s))\<rparr>"
  have "sys_inv (s\<lparr>s_c := ?c\<rparr>)"
  proof (rule sys_inv_move[OF inv, of r])
    show "sys_req_ok (s\<lparr>s_c := ?c\<rparr>) r" using ok l by (simp add: sys_req_ok_def req_ok_def live_ok_def q)
    show "lists_moved r s (s\<lparr>s_c := ?c\<rparr>)"
      by (simp add: lists_moved_def inv_lists[OF inv] moved_def bucket_of_def fuse_req_hash_def q)
  qed (simp_all add: frame_def same_counts_def same_bg_def active_def numbered_def uniq_of_def)
  moreover have "\<exists>e. queue_interrupt r (s_c s) = Done (e, ?c)" using q by (simp add: queue_interrupt_def with_req_def)
  ultimately show ?thesis using that by auto
qed

definition step_sent :: "nat \<Rightarrow> sys \<Rightarrow> sys outcome" where
  "step_sent r s = obind (fuse_dev_do_read_sent r (s_c s)) (\<lambda>c. Done (s\<lparr>s_c := c, s_sent := (s_sent s)(r := s_sent s r - 1)\<rparr>))"

text \<open>A reader drops its extra reference.\<close>

lemma put_sent_inv:
  assumes inv: "sys_inv s" and q: "reqs (s_c s) r = Some q" and n: "0 < s_sent s r"
  shows "\<exists>c. fuse_put_request r (s_c s) = Done c \<and> sys_inv (s\<lparr>s_c := c, s_sent := (s_sent s)(r := s_sent s r - 1)\<rparr>)"
proof -
  have "sys_req_ok s r" using inv by (simp add: sys_inv_def)
  then have ok: "live_ok (\<lambda>d. pq_connected (c_pq (s_c s) d)) q (s_loc s r) (s_ae s r) (s_wait s r)
     (s_sent s r) (r \<in> set (iq_interrupts (s_c s)))" by (simp add: sys_req_ok_def req_ok_def q)
  let ?c = "(s_c s)\<lparr>reqs := (reqs (s_c s))(r := put_req q),
     c_num_waiting := (if r_count q = 1 \<and> FR_WAITING \<in> r_flags q then c_num_waiting (s_c s) - 1 else c_num_waiting (s_c s))\<rparr>"
  let ?s' = "s\<lparr>s_c := ?c, s_sent := (s_sent s)(r := s_sent s r - 1)\<rparr>"
  have free: "s_loc s r = None \<and> \<not> s_ae s r \<and> s_wait s r = None \<and> s_sent s r = 1 \<and> FR_FINISHED \<in> r_flags q" if "r_count q = 1"
  proof -
    have a: "s_loc s r = None \<and> \<not> s_ae s r \<and> s_wait s r = None \<and> s_sent s r = 1"
      using that liveD(1)[OF ok] n by (simp add: tokens_def split: if_splits)
    then show ?thesis using liveD(9)[OF ok] by (simp add: unsent_def)
  qed
  have "sys_inv ?s'"
  proof (rule sys_inv_move[OF inv, of r])
    show "sys_req_ok ?s' r"
    proof (cases "r_count q = 1")
      case True
      with free[OF True] liveD(15)[OF ok] show ?thesis by (auto simp: sys_req_ok_def req_ok_def put_req_def tokens_def)
    next
      case False
      then show ?thesis using ok n
        by (simp add: sys_req_ok_def req_ok_def put_req_def live_ok_def private_ok_def, simp add: tokens_def split: if_splits)
    qed
    show "lists_moved r s ?s'" using free by (auto simp: lists_moved_def inv_lists[OF inv] put_req_def q fuse_req_hash_def)
    show "active ?s' r = active s r" using free q liveD(11)[OF ok] by (auto simp: active_def put_req_def)
    show "numbered ?s' r \<Longrightarrow> numbered s r \<and> uniq_of (s_c ?s') r = uniq_of (s_c s) r"
      using q free by (auto simp: numbered_def uniq_of_def put_req_def)
  qed (simp_all add: frame_def same_counts_def same_bg_def)
  moreover have "fuse_put_request r (s_c s) = Done ?c" using liveD(2)[OF ok] by (simp add: fuse_put_request_eq[OF q])
  ultimately show ?thesis by blast
qed

lemma step_sent_inv:
  assumes inv: "sys_inv s" and n: "0 < s_sent s r"
  shows "\<exists>s'. step_sent r s = Done s' \<and> sys_inv s'"
proof -
  obtain q where q: "reqs (s_c s) r = Some q" and ok: "live_ok (\<lambda>d. pq_connected (c_pq (s_c s) d)) q (s_loc s r) (s_ae s r) (s_wait s r)
     (s_sent s r) (r \<in> set (iq_interrupts (s_c s)))" using inv_live[OF inv] n by blast
  have "FR_FINISHED \<notin> r_flags q \<Longrightarrow> s_loc s r \<noteq> None \<and> \<not> queued (s_loc s r)"
    using liveD(9,10,14)[OF ok] n by (auto simp: early_def)
  then obtain e c where qi: "queue_interrupt r (s_c s) = Done (e, c)" and inv': "sys_inv (s\<lparr>s_c := c\<rparr>)" and r: "reqs c = reqs (s_c s)"
    using queue_interrupt_inv[OF inv q] by blast
  show ?thesis
  proof (cases "FR_INTERRUPTED \<in> r_flags q")
    case True
    with put_sent_inv[OF inv', of r q] q r n show ?thesis by (auto simp: step_sent_def fuse_dev_do_read_sent_def with_req_def qi)
  next
    case False
    with put_sent_inv[OF inv q n] q show ?thesis by (auto simp: step_sent_def fuse_dev_do_read_sent_def with_req_def)
  qed
qed

text \<open>Writers of the device.\<close>

definition step_write :: "nat \<Rightarrow> out_header \<Rightarrow> nat \<Rightarrow> sys \<Rightarrow> sys outcome" where
  "step_write d oh nbytes s = obind (fuse_dev_do_write_find d oh nbytes (s_c s)) (\<lambda>(choice, c). Done (case choice of
     Write_request r \<Rightarrow> s\<lparr>s_c := c, s_loc := (s_loc s)(r := Some (Writing d))\<rparr> | _ \<Rightarrow> s\<lparr>s_c := c\<rparr>))"

lemma request_find_loc:
  assumes inv: "sys_inv s" and "request_find d u (s_c s) = Some r"
  obtains q where "reqs (s_c s) r = Some q" and "in_unique q = u" and "s_loc s r = Some (In_processing d)"
proof -
  from find_SomeD[OF assms(2)[unfolded request_find_def]]
  show ?thesis using that inv_lists(5)[OF inv] by (auto split: option.splits)
qed

lemma write_found_inv:
  assumes inv: "sys_inv s" and l: "s_loc s r = Some (In_processing d)" and q: "reqs (s_c s) r = Some q" and conn: "pq_connected (c_pq (s_c s) d)"
    and h: "h = fuse_req_hash (s_c s) (in_unique q)"
  shows "sys_inv (s\<lparr>s_c := (s_c s)\<lparr>
      c_pq := (c_pq (s_c s))(d := (c_pq (s_c s) d)\<lparr>pq_processing := (pq_processing (c_pq (s_c s) d))(h := remove1 r (pq_processing (c_pq (s_c s) d) h)),
        pq_io := r # pq_io (c_pq (s_c s) d)\<rparr>),
      reqs := (reqs (s_c s))(r \<mapsto> q\<lparr>out_error := e, r_flags := insert FR_LOCKED (r_flags q - {FR_SENT})\<rparr>)\<rparr>, s_loc := (s_loc s)(r := Some (Writing d))\<rparr>)" (is "sys_inv ?s'")
proof -
  have "sys_req_ok s r" using inv by (simp add: sys_inv_def)
  then have ok: "live_ok (\<lambda>d. pq_connected (c_pq (s_c s) d)) q (s_loc s r) (s_ae s r) (s_wait s r)
     (s_sent s r) (r \<in> set (iq_interrupts (s_c s)))" by (simp add: sys_req_ok_def req_ok_def q)
  have np: "FR_PRIVATE \<notin> r_flags q" "FR_FINISHED \<notin> r_flags q" "\<not> s_ae s r" "\<not> unsent (s_wait s r)"
    using liveD(6,7,8,10)[OF ok] l by auto
  show ?thesis
  proof (rule sys_inv_move[OF inv, of r])
    show "lists_moved r s ?s'" using inv_lists(10)[OF inv, of d h]
      by (simp add: lists_moved_def inv_lists[OF inv] l q np at_dev_def moved_def fuse_req_hash_def h)
    show "sys_req_ok ?s' r" using ok l np by (simp add: sys_req_ok_def req_ok_def live_ok_def private_ok_def tokens_def queued_def at_dev_def)
  qed (use l q in \<open>simp_all add: frame_def same_counts_def same_bg_def active_def numbered_def uniq_of_def split: if_splits\<close>)
qed

lemma get_put_request:
  assumes "reqs c r = Some q" and "reqs c' = (reqs c)(r \<mapsto> q\<lparr>r_count := Suc (r_count q)\<rparr>)" and "0 < r_count q"
  shows "fuse_put_request r c' = Done (c'\<lparr>reqs := reqs c\<rparr>)"
  using assms by (simp add: fuse_put_request_eq put_req_def fun_upd_idem)

lemma interrupt_reply_inv:
  assumes inv: "sys_inv s" and l: "s_loc s r = Some (In_processing d)" and q: "reqs (s_c s) r = Some q"
    and f: "request_find d (oh_unique oh AND NOT FUSE_INT_REQ_BIT) (s_c s) = Some r" and i: "oh_unique oh AND FUSE_INT_REQ_BIT \<noteq> 0"
    and c: "pq_connected (c_pq (s_c s) d)" "oh_len oh = nbytes" "oh_unique oh \<noteq> 0" "\<not> (oh_error oh \<le> -512 \<or> 0 < oh_error oh)"
  shows "\<exists>e c. fuse_dev_do_write_find d oh nbytes (s_c s) = Done (Write_done e, c) \<and> sys_inv (s\<lparr>s_c := c\<rparr>)"
proof -
  have "sys_req_ok s r" using inv by (simp add: sys_inv_def)
  then have ok: "live_ok (\<lambda>d. pq_connected (c_pq (s_c s) d)) q (s_loc s r) (s_ae s r) (s_wait s r)
     (s_sent s r) (r \<in> set (iq_interrupts (s_c s)))" by (simp add: sys_req_ok_def req_ok_def q)
  let ?q = "q\<lparr>r_count := Suc (r_count q)\<rparr>"
  let ?c1 = "(s_c s)\<lparr>reqs := (reqs (s_c s))(r \<mapsto> ?q)\<rparr>"
  obtain e1 c1 where qi: "queue_interrupt r (s_c s) = Done (e1, c1)" and inv1: "sys_inv (s\<lparr>s_c := c1\<rparr>)" and rc: "reqs c1 = reqs (s_c s)"
    by (rule queue_interrupt_inv[OF inv q]) (use l in auto)
  have qi': "queue_interrupt r ?c1 = Done (e1, c1\<lparr>reqs := (reqs (s_c s))(r \<mapsto> ?q)\<rparr>)"
    using qi q by (auto simp: queue_interrupt_def with_req_def split: if_splits)
  have pos: "0 < r_count q" using liveD(2)[OF ok] .
  have g: "get_request r (s_c s) = Done ?c1" using q by (simp add: get_request_def kdefs)
  note put = get_put_request[OF q _ pos]
  have self: "(s_c s)\<lparr>reqs := reqs (s_c s)\<rparr> = s_c s" "c1\<lparr>reqs := reqs (s_c s)\<rparr> = c1" using rc by simp_all
  have noi: "sys_inv (s\<lparr>s_c := (s_c s)\<lparr>c_no_interrupt := True\<rparr>\<rparr>)"
    by (rule sys_inv_irrelevant[OF inv]) (simp_all add: same_counts_def same_bg_def)
  have w: "fuse_dev_do_write_find d oh nbytes (s_c s) =
      obind (if nbytes \<noteq> OUT_HEADER_SIZE then Done (- EINVAL, ?c1)
             else if oh_error oh = - ENOSYS then Done (0, ?c1\<lparr>c_no_interrupt := True\<rparr>)
             else if oh_error oh = - EAGAIN then queue_interrupt r ?c1
             else Done (0, ?c1)) (\<lambda>(err, c2). obind (fuse_put_request r c2) (\<lambda>c3.
        Done (Write_done (if err \<noteq> 0 then err else int nbytes), c3)))"
    using f i c by (simp add: fuse_dev_do_write_find_def g)
  consider "nbytes \<noteq> OUT_HEADER_SIZE" | "nbytes = OUT_HEADER_SIZE" "oh_error oh = - ENOSYS"
    | "nbytes = OUT_HEADER_SIZE" "oh_error oh = - EAGAIN" | "nbytes = OUT_HEADER_SIZE" "oh_error oh \<noteq> - ENOSYS" "oh_error oh \<noteq> - EAGAIN" by blast
  then show ?thesis
  proof cases
    case 2
    have "?c1\<lparr>c_no_interrupt := True, reqs := reqs (s_c s)\<rparr> = (s_c s)\<lparr>c_no_interrupt := True\<rparr>" by simp
    with 2 noi show ?thesis unfolding w by (simp add: put)
  next
    case 3
    then show ?thesis unfolding w using inv1 self(2) by (simp add: qi' put)
  next
    case 4
    then show ?thesis unfolding w using inv by (simp add: put)
  qed (use inv in \<open>simp add: w put\<close>)
qed

lemma step_write_inv:
  assumes inv: "sys_inv s"
  shows "\<exists>s'. step_write d oh nbytes s = Done s' \<and> sys_inv s'"
proof (cases "oh_len oh = nbytes \<and> oh_unique oh \<noteq> 0 \<and> \<not> (oh_error oh \<le> -512 \<or> 0 < oh_error oh) \<and> pq_connected (c_pq (s_c s) d) \<and>
    request_find d (oh_unique oh AND NOT FUSE_INT_REQ_BIT) (s_c s) \<noteq> None")
  case False
  then show ?thesis using inv by (auto simp: step_write_def fuse_dev_do_write_find_def)
next
  case True
  then obtain r where f: "request_find d (oh_unique oh AND NOT FUSE_INT_REQ_BIT) (s_c s) = Some r" by blast
  then obtain q where q: "reqs (s_c s) r = Some q" and l: "s_loc s r = Some (In_processing d)" using request_find_loc[OF inv] by blast
  show ?thesis
  proof (cases "oh_unique oh AND FUSE_INT_REQ_BIT = 0")
    case False
    from interrupt_reply_inv[OF inv l q f False] True obtain e c where
      "fuse_dev_do_write_find d oh nbytes (s_c s) = Done (Write_done e, c)" "sys_inv (s\<lparr>s_c := c\<rparr>)" by blast
    then show ?thesis by (simp add: step_write_def)
  next
    case nint: True
    have "pq_connected (c_pq (s_c s) d)" using True by blast
    note wf = write_found_inv[OF inv l q this refl, of "oh_error oh"]
    show ?thesis using True nint wf f q by (simp add: step_write_def fuse_dev_do_write_find_def kdefs Let_def)
  qed
qed

definition step_write_finish :: "nat \<Rightarrow> int \<Rightarrow> nat \<Rightarrow> nat \<Rightarrow> sys \<Rightarrow> sys outcome" where
  "step_write_finish d err nbytes r s = obind (fuse_dev_do_write_finish d err nbytes r (s_c s)) (\<lambda>(res, c).
     Done (s\<lparr>s_c := c, s_loc := (s_loc s)(r := Some Ending)\<rparr>))"

lemma step_write_finish_inv:
  assumes inv: "sys_inv s" and l: "s_loc s r = Some (Writing d)"
  shows "\<exists>s'. step_write_finish d err nbytes r s = Done s' \<and> sys_inv s'"
proof -
  obtain q where q: "reqs (s_c s) r = Some q" using inv_live[OF inv] l by blast
  have ld: "at_dev d (s_loc s r)" using l by (simp add: at_dev_def)
  let ?q = "q\<lparr>r_flags := r_flags q - {FR_LOCKED}, out_error := (if pq_connected (c_pq (s_c s) d) \<and> err \<noteq> 0 then - EIO else out_error q)\<rparr>"
  let ?s' = "s\<lparr>s_c := (s_c s)\<lparr>reqs := (reqs (s_c s))(r \<mapsto> ?q), c_pq := (c_pq (s_c s))(d := (c_pq (s_c s) d)\<lparr>pq_io :=
     (if FR_PRIVATE \<in> r_flags q then pq_io (c_pq (s_c s) d) else remove1 r (pq_io (c_pq (s_c s) d)))\<rparr>)\<rparr>, s_loc := (s_loc s)(r := Some Ending)\<rparr>"
  have "step_write_finish d err nbytes r s = Done ?s'" using q
    by (auto simp: step_write_finish_def fuse_dev_do_write_finish_def Let_def kdefs out_end_eq)
  moreover have "sys_inv ?s'" by (rule leave_io_inv[OF inv ld q]) simp_all
  ultimately show ?thesis by blast
qed

subsection \<open>Background requests\<close>

text \<open>The invariant in the middle of a step: the limits of background requests are not yet restored and
  the requests of \<open>X\<close> are in transition.\<close>

definition pre :: "nat set \<Rightarrow> sys \<Rightarrow> bool" where
  "pre X s \<longleftrightarrow> (\<forall>r. r \<notin> X \<longrightarrow> sys_req_ok s r) \<and> lists_ok s \<and> bg_counts s \<and> uniq_ok s"

lemma sys_inv_pre: "sys_inv s \<longleftrightarrow> pre {} s \<and> bg_limits (s_c s)"
  by (auto simp: sys_inv_def pre_def bg_ok_def)

lemma pre_upd:
  assumes pre: "pre X s" and fr: "frame r s s'" and r: "r \<notin> X' \<Longrightarrow> sys_req_ok s' r" and mv: "lists_moved r s s'"
    and "bg_counts s'" and "uniq_ok s'" and X: "X - {r} \<subseteq> X'"
    and conn: "\<And>d. pq_connected (c_pq (s_c s') d) \<Longrightarrow> pq_connected (c_pq (s_c s) d)"
  shows "pre X' s'"
  unfolding pre_def
proof (intro conjI allI impI)
  show "sys_req_ok s' x" if x: "x \<notin> X'" for x
  proof (cases "x = r")
    case False
    have "x \<in> set (iq_interrupts (s_c s')) \<longleftrightarrow> x \<in> set (iq_interrupts (s_c s))"
      using mv moved_other[OF _ False] unfolding lists_moved_def by blast
    moreover have "sys_req_ok s x" using pre x X False unfolding pre_def by blast
    ultimately show ?thesis unfolding sys_req_ok_def using conn
      by (simp only: frame_other[OF fr False]) (rule req_ok_mono)
  qed (use r x in simp)
  show "lists_ok s'" using lists_ok_moved[OF _ fr mv] pre by (simp add: pre_def)
qed fact+

lemma pre_lists:
  assumes "pre X s"
  shows "r \<in> set (c_bg_queue (s_c s)) \<longleftrightarrow> s_loc s r = Some In_bg"
    and "r \<in> set (iq_pending (s_c s)) \<longleftrightarrow> s_loc s r = Some In_pending"
    and "r \<in> set (c_to_end (s_c s)) \<longleftrightarrow> s_loc s r = Some In_to_end \<or> s_ae s r"
    and "r \<in> set (pq_io (c_pq (s_c s) d)) \<longleftrightarrow> at_dev d (s_loc s r) \<and> FR_PRIVATE \<notin> flags_of (reqs (s_c s) r)"
    and "r \<in> set (pq_processing (c_pq (s_c s) d) h) \<longleftrightarrow> s_loc s r = Some (In_processing d) \<and> bucket_of (s_c s) (reqs (s_c s) r) = h"
    and "distinct (c_bg_queue (s_c s))" and "distinct (iq_pending (s_c s))" and "distinct (c_to_end (s_c s))"
    and "distinct (pq_io (c_pq (s_c s) d))" and "distinct (pq_processing (c_pq (s_c s) d) h)" and "distinct (iq_interrupts (s_c s))"
    and "finite {r. reqs (s_c s) r \<noteq> None}"
  using assms unfolding pre_def lists_ok_def queue_ok_def by blast+

lemma active_finite: "pre X s \<Longrightarrow> finite {r. active s r}"
proof -
  assume "pre X s"
  moreover have "{r. active s r} \<subseteq> {r. reqs (s_c s) r \<noteq> None}" by (auto simp: active_def flags_of_def split: option.splits)
  ultimately show ?thesis using pre_lists(12) finite_subset by blast
qed

lemma active_insert:
  assumes "frame r s s'" and "active s' r" and "\<not> active s r" and "finite {x. active s x}"
  shows "card {x. active s' x} = Suc (card {x. active s x})"
proof -
  have "{x. active s' x} = insert r {x. active s x}" using active_other[OF assms(1)] assms(2) by auto metis
  with assms show ?thesis by simp
qed

lemma active_remove:
  assumes "frame r s s'" and "\<not> active s' r" and "active s r" and "finite {x. active s x}"
  shows "card {x. active s x} = Suc (card {x. active s' x})"
proof -
  have "{x. active s x} = insert r {x. active s' x}" using active_other[OF assms(1)] assms(3) by auto metis
  moreover have "finite {x. active s' x}"
    by (rule finite_subset[OF _ assms(4)]) (use active_other[OF assms(1)] assms(2) in \<open>auto, metis\<close>)
  ultimately show ?thesis using assms(2) by simp
qed

lemma active_same:
  assumes "frame r s s'" and "active s' r = active s r"
  shows "card {x. active s' x} = card {x. active s x}"
proof -
  have "active s' x = active s x" for x using active_other[OF assms(1), of x] assms(2) by (cases "x = r") auto
  then show ?thesis by simp
qed

text \<open>One round of \<open>flush_bg_queue\<close>.\<close>

definition flush_one :: "nat \<Rightarrow> nat list \<Rightarrow> fuse_req \<Rightarrow> fuse_conn \<Rightarrow> fuse_conn" where
  "flush_one r bg q c = c\<lparr>c_bg_queue := bg, c_active_background := c_active_background c + 1, iq_reqctr := iq_reqctr c + FUSE_REQ_ID_STEP,
     reqs := (reqs c)(r \<mapsto> q\<lparr>in_unique := iq_reqctr c + FUSE_REQ_ID_STEP,
        in_len := u32_add IN_HEADER_SIZE (fuse_len_args (ar_in_args (r_args q)))\<rparr>), iq_pending := iq_pending c @ [r]\<rparr>"

lemma flush_bg_loop_Cons:
  assumes "reqs c r = Some q" and "c_active_background c < c_max_background c"
  shows "flush_bg_loop (r # bg) c = flush_bg_loop bg (flush_one r bg q c)"
  using assms by (simp add: flush_one_def assign_unique_def fuse_get_unique_def queue_request_and_unlock_def kdefs Let_def)

lemma flush_one_pre:
  assumes pre: "pre X s" and bg: "c_bg_queue (s_c s) = r # bg" and r: "r \<notin> X" and ids: "ids_left s 1"
    and q: "reqs (s_c s) r = Some q"
  shows "pre X (s\<lparr>s_c := flush_one r bg q (s_c s), s_loc := (s_loc s)(r := Some In_pending)\<rparr>)" (is "pre X ?s'")
proof -
  have l: "s_loc s r = Some In_bg" using pre_lists(1)[OF pre, of r] bg by simp
  have "sys_req_ok s r" using pre r by (simp add: pre_def)
  then have ok: "live_ok (\<lambda>d. pq_connected (c_pq (s_c s) d)) q (s_loc s r) (s_ae s r) (s_wait s r)
     (s_sent s r) (r \<in> set (iq_interrupts (s_c s)))" by (simp add: sys_req_ok_def req_ok_def q)
  have fr: "frame r s ?s'" by (simp add: frame_def flush_one_def)
  have f: "FR_BACKGROUND \<in> r_flags q" "s_wait s r = None" "FR_PRIVATE \<notin> r_flags q" "FR_FINISHED \<notin> r_flags q" "\<not> s_ae s r"
    using liveD(6,7,8,10,11,12)[OF ok] l by (auto simp: ghost_defs)
  show ?thesis
  proof (rule pre_upd[OF pre fr])
    have "r \<notin> set bg" using pre_lists(6)[OF pre] bg by simp
    then show "lists_moved r s ?s'" using bg
      by (simp add: lists_moved_def flush_one_def moved_def pre_lists[OF pre] l f(5) q at_dev_def)
    show "sys_req_ok ?s' r" using ok l f
      by (simp add: sys_req_ok_def req_ok_def live_ok_def private_ok_def tokens_def ghost_defs flush_one_def)
    have "active ?s' r" "\<not> active s r" using f l q by (simp_all add: active_def flush_one_def)
    from active_insert[OF fr this active_finite[OF pre]] show "bg_counts ?s'"
      using pre bg by (simp add: pre_def bg_counts_def flush_one_def)
    show "uniq_ok ?s'" using pre ids unfolding pre_def ids_left_def
      by (intro uniq_ok_new[OF _ fr]) (simp_all add: uniq_of_def flush_one_def)
  qed (simp_all add: flush_one_def)
qed

definition flushed :: "fuse_conn \<Rightarrow> sys \<Rightarrow> sys" where
  "flushed c s = s\<lparr>s_c := c,
     s_loc := (\<lambda>x. if s_loc s x = Some In_bg \<and> x \<notin> set (c_bg_queue c) then Some In_pending else s_loc s x)\<rparr>"

lemma flushed_self: "pre X s \<Longrightarrow> flushed (s_c s) s = s"
proof -
  assume "pre X s"
  then have "(\<lambda>x. if s_loc s x = Some In_bg \<and> x \<notin> set (c_bg_queue (s_c s)) then Some In_pending else s_loc s x) = s_loc s"
    using pre_lists(1)[of X s] by auto
  then show ?thesis by (simp add: flushed_def)
qed

lemma flushed_cong:
  assumes "s_loc s' = s_loc s" and "s_ae s' = s_ae s" and "s_wait s' = s_wait s" and "s_sent s' = s_sent s"
  shows "flushed c s' = flushed c s"
  using assms by (cases s; cases s') (simp add: flushed_def fun_eq_iff)

text \<open>What \<open>flush_bg_queue\<close> leaves alone, and the order it keeps.\<close>

definition flush_same :: "fuse_conn \<Rightarrow> fuse_conn \<Rightarrow> bool" where
  "flush_same c c' \<longleftrightarrow> c_max_background c' = c_max_background c \<and> c_num_background c' = c_num_background c \<and> c_blocked c' = c_blocked c \<and>
     (\<forall>x. x \<notin> set (c_bg_queue c) \<longrightarrow> reqs c' x = reqs c x) \<and> c_connected c' = c_connected c \<and>
     (\<exists>moved. c_bg_queue c = moved @ c_bg_queue c' \<and> iq_pending c' = iq_pending c @ moved) \<and>
     c_pq c' = c_pq c \<and> c_to_end c' = c_to_end c \<and> iq_interrupts c' = iq_interrupts c \<and> c_devices c' = c_devices c \<and>
     (c_active_background c \<le> c_max_background c \<longrightarrow> c_active_background c' \<le> c_max_background c')"

lemma flush_bg_loop_pre:
  assumes "pre X s" and "bg = c_bg_queue (s_c s)" and "X \<inter> set bg = {}" and "ids_left s (length bg)"
  shows "\<exists>c. flush_bg_loop bg (s_c s) = Done c \<and> pre X (flushed c s) \<and> flush_same (s_c s) c \<and>
     (c_bg_queue c \<noteq> [] \<longrightarrow> c_max_background c \<le> c_active_background c)"
  using assms
proof (induction bg arbitrary: s)
  case Nil
  then show ?case using flushed_self by (simp add: flush_same_def)
next
  case (Cons r bg)
  show ?case
  proof (cases "c_active_background (s_c s) < c_max_background (s_c s)")
    case False
    then show ?thesis using Cons.prems(1)
      by (intro exI[of _ "s_c s"]) (simp add: flush_same_def flushed_self[OF Cons.prems(1)])
  next
    case True
    have bg: "c_bg_queue (s_c s) = r # bg" by (rule Cons.prems(2)[symmetric])
    have rX: "r \<notin> X" using Cons.prems(3) by simp
    have ids: "ids_left s 1" using Cons.prems(4) by (simp add: ids_left_def)
    have l: "s_loc s r = Some In_bg" using pre_lists(1)[OF Cons.prems(1), of r] bg by simp
    have "sys_req_ok s r" using Cons.prems(1) rX by (simp add: pre_def)
    then obtain q where q: "reqs (s_c s) r = Some q" using l by (cases "reqs (s_c s) r") (auto simp: sys_req_ok_def req_ok_def tokens_def)
    let ?s1 = "s\<lparr>s_c := flush_one r bg q (s_c s), s_loc := (s_loc s)(r := Some In_pending)\<rparr>"
    have "uint (iq_reqctr (s_c s) + FUSE_REQ_ID_STEP) \<le> uint (iq_reqctr (s_c s)) + 2"
      by (simp add: FUSE_REQ_ID_STEP_def uint_word_ariths zmod_le_nonneg_dividend)
    then have ids1: "ids_left ?s1 (length bg)" using Cons.prems(4) by (simp add: ids_left_def flush_one_def)
    have X1: "X \<inter> set bg = {}" and bg1: "bg = c_bg_queue (s_c ?s1)" using Cons.prems(3) by (auto simp: flush_one_def)
    obtain c where c: "flush_bg_loop bg (flush_one r bg q (s_c s)) = Done c" "pre X (flushed c ?s1)" "flush_same (flush_one r bg q (s_c s)) c"
        "c_bg_queue c \<noteq> [] \<longrightarrow> c_max_background c \<le> c_active_background c"
      using Cons.IH[OF flush_one_pre[OF Cons.prems(1) bg rX ids q] bg1 X1 ids1] by auto
    obtain mv where mv: "bg = mv @ c_bg_queue c" using c(3) by (auto simp: flush_same_def flush_one_def)
    have "r \<notin> set (c_bg_queue c)" using pre_lists(6)[OF Cons.prems(1)] bg mv by auto
    then have "flushed c ?s1 = flushed c s" using l by (auto simp: flushed_def fun_eq_iff)
    moreover have "flush_same (s_c s) c"
      unfolding flush_same_def
    proof (intro conjI exI[of _ "r # mv"])
      show "\<forall>x. x \<notin> set (c_bg_queue (s_c s)) \<longrightarrow> reqs c x = reqs (s_c s) x"
        using c(3) bg unfolding flush_same_def flush_one_def by auto
    qed (use c(3) bg mv True in \<open>auto simp: flush_same_def flush_one_def\<close>)
    ultimately show ?thesis using c flush_bg_loop_Cons[OF q True] by auto
  qed
qed

lemma flush_bg_queue_pre:
  assumes "pre X s" and "X \<inter> set (c_bg_queue (s_c s)) = {}" and "ids_left s (length (c_bg_queue (s_c s)))"
  obtains c where "flush_bg_queue (s_c s) = Done c" and "pre X (flushed c s)" and "flush_same (s_c s) c"
    and "c_bg_queue c \<noteq> [] \<longrightarrow> c_max_background c \<le> c_active_background c"
  using flush_bg_loop_pre[OF assms(1) refl assms(2,3)] that by (auto simp: flush_bg_queue_def)

definition step_background :: "nat \<Rightarrow> sys \<Rightarrow> sys outcome" where
  "step_background r s = obind (fuse_request_queue_background r (s_c s)) (\<lambda>(queued, c). Done (if queued
     then flushed c (s\<lparr>s_loc := (s_loc s)(r := Some In_bg), s_wait := (s_wait s)(r := None)\<rparr>) else s\<lparr>s_c := c\<rparr>))"

lemma step_background_inv:
  assumes inv: "sys_inv s" and w: "s_wait s r = Some Fresh" and b: "FR_BACKGROUND \<in> flags_of (reqs (s_c s) r)"
    and num: "c_num_background (s_c s) + 1 < 2 ^ 32 - 1" and ids: "ids_left s (length (c_bg_queue (s_c s)) + 1)"
  shows "\<exists>s'. step_background r s = Done s' \<and> sys_inv s'"
proof -
  obtain q where q: "reqs (s_c s) r = Some q" "r_count q = 1" "FR_PENDING \<in> r_flags q"
    "r_flags q \<inter> {FR_SENT, FR_LOCKED, FR_FINISHED, FR_PRIVATE} = {}"
    "s_loc s r = None" "\<not> s_ae s r" "s_sent s r = 0" "r \<notin> set (iq_interrupts (s_c s))" using fresh_live[OF inv w] by metis
  have pre: "pre {} s" and lim: "bg_limits (s_c s)" using inv by (simp_all add: sys_inv_pre)
  let ?q = "q\<lparr>r_flags := insert FR_ISREPLY (insert FR_WAITING (r_flags q))\<rparr>"
  define k where "k = (if FR_WAITING \<in> r_flags q then c_num_waiting (s_c s) else c_num_waiting (s_c s) + 1)"
  let ?c2 = "(s_c s)\<lparr>c_num_waiting := k, reqs := (reqs (s_c s))(r \<mapsto> ?q)\<rparr>"
  have ins: "insert FR_WAITING (r_flags q) = r_flags q" if "FR_WAITING \<in> r_flags q" using that by auto
  have c2: "set_bit_req FR_ISREPLY r (if FR_WAITING \<notin> r_flags q
      then (set_bit_req FR_WAITING r (s_c s))\<lparr>c_num_waiting := c_num_waiting (s_c s) + 1\<rparr> else s_c s) = ?c2"
    using q(1) ins by (auto simp: kdefs k_def)
  show ?thesis
  proof (cases "c_connected (s_c s)")
    case False
    have "sys_inv (s\<lparr>s_c := ?c2, s_wait := (s_wait s)(r := Some Fresh)\<rparr>)"
      by (rule fresh_inv[OF inv, of r q]) (use q w in auto)
    moreover have "s\<lparr>s_c := ?c2, s_wait := (s_wait s)(r := Some Fresh)\<rparr> = s\<lparr>s_c := ?c2\<rparr>" using w by (simp add: fun_upd_idem)
    ultimately show ?thesis using False q(1) c2
      by (simp add: step_background_def fuse_request_queue_background_def with_req_def Let_def)
  next
    case True
    let ?n = "c_num_background (s_c s) + 1"
    let ?c4 = "?c2\<lparr>c_num_background := ?n, c_blocked := (c_blocked (s_c s) \<or> ?n = c_max_background (s_c s)), c_bg_queue := c_bg_queue (s_c s) @ [r]\<rparr>"
    let ?s4 = "s\<lparr>s_c := ?c4, s_loc := (s_loc s)(r := Some In_bg), s_wait := (s_wait s)(r := None)\<rparr>"
    have fr: "frame r s ?s4" by (simp add: frame_def)
    have pre4: "pre {} ?s4"
    proof (rule pre_upd[OF pre fr])
      show "sys_req_ok ?s4 r" using q w b by (simp add: sys_req_ok_def req_ok_def live_ok_def private_ok_def tokens_def ghost_defs)
      show "lists_moved r s ?s4" using q by (simp add: lists_moved_def pre_lists[OF pre] moved_def at_dev_def)
      have "active ?s4 r = active s r" using w by (simp add: active_def)
      from active_same[OF fr this] show "bg_counts ?s4" using pre num by (simp add: pre_def bg_counts_def)
      show "uniq_ok ?s4" using pre q by (intro uniq_ok_same[OF _ fr]) (simp_all add: pre_def numbered_def)
    qed simp_all
    have "ids_left ?s4 (length (c_bg_queue (s_c ?s4)))" using ids by (simp add: ids_left_def)
    then obtain c where c: "flush_bg_queue ?c4 = Done c" "pre {} (flushed c ?s4)" "flush_same ?c4 c"
      "c_bg_queue c \<noteq> [] \<longrightarrow> c_max_background c \<le> c_active_background c"
      using flush_bg_queue_pre[OF pre4] by auto
    have "bg_limits c" using c(3,4) lim by (auto simp: bg_limits_def flush_same_def)
    then have "sys_inv (flushed c ?s4)" using c(2) by (simp add: sys_inv_pre flushed_def)
    moreover have "fuse_request_queue_background r (s_c s) = Done (True, c)"
    proof -
      have u: "u32_add (c_num_background (s_c s)) (Suc 0) = Suc (c_num_background (s_c s))" using num by (simp add: u32_add_small)
      show ?thesis unfolding fuse_request_queue_background_def with_req_def q(1) option.case Let_def c2
        using True c(1) by (cases "?n = c_max_background (s_c s)") (simp_all add: u)
    qed
    moreover have "flushed c ?s4 = flushed c (s\<lparr>s_loc := (s_loc s)(r := Some In_bg), s_wait := (s_wait s)(r := None)\<rparr>)"
      by (rule flushed_cong) simp_all
    ultimately show ?thesis by (simp add: step_background_def)
  qed
qed

subsection \<open>The end of a request\<close>

text \<open>What holds of a request when one of its holders, no longer counted in the other arguments, calls
  \<open>fuse_request_end\<close>. The two \<open>WARN_ON\<close>s there are among it.\<close>

definition ending_ok :: "(nat \<Rightarrow> bool) \<Rightarrow> fuse_req \<Rightarrow> loc option \<Rightarrow> bool \<Rightarrow> wphase option \<Rightarrow> nat \<Rightarrow> bool \<Rightarrow> bool" where
  "ending_ok conn q l ae w n intr \<longleftrightarrow>
     r_count q = Suc (tokens l ae w n) \<and> FR_PENDING \<notin> r_flags q \<and> FR_SENT \<notin> r_flags q \<and>
     (FR_LOCKED \<in> r_flags q \<longrightarrow> (\<exists>d. at_dev d l)) \<and> (l \<noteq> None \<longrightarrow> FR_PRIVATE \<in> r_flags q) \<and>
     (ae \<longrightarrow> FR_PRIVATE \<in> r_flags q) \<and> private_ok conn (r_flags q) l \<and> \<not> unsent w \<and>
     (FR_BACKGROUND \<in> r_flags q \<longrightarrow> w = None \<and> FR_FINISHED \<notin> r_flags q) \<and> (0 < n \<longrightarrow> \<not> early l) \<and>
     (intr \<longrightarrow> FR_INTERRUPTED \<in> r_flags q \<and> FR_FINISHED \<notin> r_flags q)"

lemma private_loc: "private_ok conn F l \<Longrightarrow> FR_PRIVATE \<in> F \<Longrightarrow> \<not> queued l \<and> l \<noteq> Some In_to_end \<and> l \<noteq> Some (In_processing d)"
  by (auto simp: private_ok_def ghost_defs)

lemma ending_put:
  assumes e: "ending_ok conn q l ae w n intr"
    and q': "r_count q' = r_count q" "r_flags q' = insert FR_FINISHED (r_flags q - {FR_BACKGROUND})"
  shows "req_ok conn (put_req q') l ae w n False"
proof (cases "r_count q = 1")
  case True
  then have "tokens l ae w n = 0" using e by (simp add: ending_ok_def)
  then show ?thesis using True q' by (simp add: put_req_def req_ok_def)
next
  case False
  have p: "l \<noteq> None \<Longrightarrow> \<not> queued l \<and> l \<noteq> Some In_bg" "\<And>d. l \<noteq> Some (In_processing d)"
    using e private_loc[of conn "r_flags q" l] by (auto simp: ending_ok_def queued_def)
  have "\<not> queued l" using p by (cases l) auto
  then show ?thesis using e False q' p
    by (cases "l = None") (simp_all add: put_req_def req_ok_def live_ok_def ending_ok_def private_ok_def)
qed

lemma pre_put:
  assumes pre: "pre {r} s" and q: "reqs (s_c s) r = Some q"
    and e: "ending_ok (\<lambda>d. pq_connected (c_pq (s_c s) d)) q0 (s_loc s r) (s_ae s r) (s_wait s r) (s_sent s r) intr"
    and q0: "r_count q = r_count q0" "r_flags q = insert FR_FINISHED (r_flags q0 - {FR_BACKGROUND})"
    and i: "r \<notin> set (iq_interrupts (s_c s))"
  shows "\<exists>k. fuse_put_request r (s_c s) = Done ((s_c s)\<lparr>reqs := (reqs (s_c s))(r := put_req q), c_num_waiting := k\<rparr>) \<and>
    pre {} (s\<lparr>s_c := (s_c s)\<lparr>reqs := (reqs (s_c s))(r := put_req q), c_num_waiting := k\<rparr>\<rparr>)"
proof -
  let ?k = "if r_count q = 1 \<and> FR_WAITING \<in> r_flags q then c_num_waiting (s_c s) - 1 else c_num_waiting (s_c s)"
  have pos: "0 < r_count q" using e q0 by (simp add: ending_ok_def)
  let ?s' = "\<lambda>k. s\<lparr>s_c := (s_c s)\<lparr>reqs := (reqs (s_c s))(r := put_req q), c_num_waiting := k\<rparr>\<rparr>"
  have free: "s_loc s r = None \<and> \<not> s_ae s r" if "put_req q = None"
    using that e q0 by (auto simp: ending_ok_def put_req_def tokens_def split: if_splits)
  have some: "\<exists>m. put_req q = Some (q\<lparr>r_count := m\<rparr>)" if "put_req q \<noteq> None" using that by (auto simp: put_req_def split: if_splits)
  have "pre {} (?s' k)" for k
  proof (rule pre_upd[OF pre])
    show fr: "frame r s (?s' k)" by (simp add: frame_def)
    show "sys_req_ok (?s' k) r" using ending_put[OF e q0] i by (simp add: sys_req_ok_def)
    show "lists_moved r s (?s' k)" using free some q
      by (cases "put_req q") (auto simp: lists_moved_def pre_lists[OF pre] fuse_req_hash_def)
    have "active (?s' k) r = active s r" using q0 some q by (cases "put_req q") (auto simp: active_def)
    from active_same[OF fr this] show "bg_counts (?s' k)" using pre by (simp add: pre_def bg_counts_def)
    show "uniq_ok (?s' k)" using pre q free some
      by (intro uniq_ok_same[OF _ fr]) (cases "put_req q"; auto simp: pre_def numbered_def uniq_of_def)+
  qed simp_all
  then show ?thesis using fuse_put_request_eq[OF q pos] by blast
qed

lemma pre_done: "pre X s \<Longrightarrow> pre X (s\<lparr>s_c := (s_c s)\<lparr>c_done := z\<rparr>\<rparr>)"
proof -
  assume pre: "pre X s"
  let ?s' = "s\<lparr>s_c := (s_c s)\<lparr>c_done := z\<rparr>\<rparr>"
  have r: "sys_req_ok ?s' x = sys_req_ok s x" for x by (simp add: sys_req_ok_def)
  have fr: "frame 0 s ?s'" by (simp add: frame_def)
  have a: "active ?s' 0 = active s 0" by (simp add: active_def)
  show ?thesis
  proof (rule pre_upd[OF pre fr])
    show "0 \<notin> X \<Longrightarrow> sys_req_ok ?s' 0" using pre by (simp add: r pre_def)
    show "lists_moved 0 s ?s'" by (simp add: lists_moved_def pre_lists[OF pre] bucket_of_cong[of "(s_c s)\<lparr>c_done := z\<rparr>" "s_c s"])
    show "bg_counts ?s'" using pre active_same[OF fr a] by (simp add: pre_def bg_counts_def)
    show "uniq_ok ?s'" using pre by (intro uniq_ok_same[OF _ fr]) (simp_all add: pre_def numbered_def uniq_of_def)
  qed auto
qed

text \<open>The state in \<open>fuse_request_end\<close> before background requests are flushed.\<close>

definition end_conn :: "nat \<Rightarrow> fuse_req \<Rightarrow> fuse_conn \<Rightarrow> fuse_conn" where
  "end_conn r q c = c\<lparr>
     iq_interrupts := (if FR_INTERRUPTED \<in> r_flags q then remove1 r (iq_interrupts c) else iq_interrupts c),
     reqs := (reqs c)(r \<mapsto> q\<lparr>r_flags := insert FR_FINISHED (r_flags q - {FR_BACKGROUND})\<rparr>),
     c_blocked := (if FR_BACKGROUND \<in> r_flags q \<and> c_num_background c = c_max_background c then False else c_blocked c),
     c_num_background := (if FR_BACKGROUND \<in> r_flags q then c_num_background c - 1 else c_num_background c),
     c_active_background := (if FR_BACKGROUND \<in> r_flags q then c_active_background c - 1 else c_active_background c)\<rparr>"

lemma end_conn_bg:
  "c_bg_queue (end_conn r q c) = c_bg_queue c" "c_max_background (end_conn r q c) = c_max_background c"
  "c_num_background (end_conn r q c) = (if FR_BACKGROUND \<in> r_flags q then c_num_background c - 1 else c_num_background c)"
  "c_active_background (end_conn r q c) = (if FR_BACKGROUND \<in> r_flags q then c_active_background c - 1 else c_active_background c)"
  by (simp_all add: end_conn_def)

lemma end_conn_pre:
  assumes pre: "pre {r} s" and q: "reqs (s_c s) r = Some q" and nf: "FR_FINISHED \<notin> r_flags q"
    and e: "ending_ok (\<lambda>d. pq_connected (c_pq (s_c s) d)) q (s_loc s r) (s_ae s r) (s_wait s r) (s_sent s r) (r \<in> set (iq_interrupts (s_c s)))"
    and lim: "c_blocked (s_c s) \<longleftrightarrow> c_max_background (s_c s) \<le> c_num_background (s_c s)"
  shows "pre {r} (s\<lparr>s_c := end_conn r q (s_c s)\<rparr>)" and "r \<notin> set (iq_interrupts (end_conn r q (s_c s)))"
    and "c_blocked (end_conn r q (s_c s)) \<longleftrightarrow> c_max_background (s_c s) \<le> c_num_background (end_conn r q (s_c s))"
    and "FR_BACKGROUND \<in> r_flags q \<Longrightarrow> 0 < c_active_background (s_c s) \<and> 0 < c_num_background (s_c s)"
proof -
  let ?s' = "s\<lparr>s_c := end_conn r q (s_c s)\<rparr>"
  have nq: "s_loc s r \<noteq> Some In_bg" using e private_loc[of _ "r_flags q" "s_loc s r"] by (auto simp: ending_ok_def queued_def)
  have fr: "frame r s ?s'" by (simp add: frame_def end_conn_def)
  have act: "active s r" if "FR_BACKGROUND \<in> r_flags q" using that e q nq by (simp add: active_def ending_ok_def)
  have act': "\<not> active ?s' r" by (simp add: active_def end_conn_def)
  have c: "bg_counts s" using pre by (simp add: pre_def)
  show pos: "0 < c_active_background (s_c s) \<and> 0 < c_num_background (s_c s)" if "FR_BACKGROUND \<in> r_flags q"
    using active_remove[OF fr act' act[OF that] active_finite[OF pre]] c by (simp add: bg_counts_def)
  show "r \<notin> set (iq_interrupts (end_conn r q (s_c s)))"
    using e pre_lists(11)[OF pre] by (auto simp: end_conn_def ending_ok_def)
  show "c_blocked (end_conn r q (s_c s)) \<longleftrightarrow> c_max_background (s_c s) \<le> c_num_background (end_conn r q (s_c s))"
    using lim pos by (simp add: end_conn_def) linarith
  show "pre {r} ?s'"
  proof (rule pre_upd[OF pre fr])
    show "lists_moved r s ?s'" by (simp add: lists_moved_def pre_lists[OF pre] end_conn_def q fuse_req_hash_def)
    show "bg_counts ?s'"
    proof (cases "FR_BACKGROUND \<in> r_flags q")
      case True
      then show ?thesis using active_remove[OF fr act' act[OF True] active_finite[OF pre]] c by (simp add: bg_counts_def end_conn_bg)
    next
      case False
      then have "active ?s' r = active s r" using act' q by (simp add: active_def)
      from active_same[OF fr this] False show ?thesis using c by (simp add: bg_counts_def end_conn_bg)
    qed
    show "uniq_ok ?s'" using pre q by (intro uniq_ok_same[OF _ fr]) (simp_all add: pre_def numbered_def uniq_of_def end_conn_def)
  qed (simp_all add: end_conn_def)
qed

lemma u32_sub_1: "0 < n \<Longrightarrow> n < 2 ^ 32 \<Longrightarrow> u32_sub n 1 = n - 1"
  by (rule u32_sub_small) simp_all

lemma conn_order: "c\<lparr>reqs := f, iq_interrupts := g\<rparr> = c\<lparr>iq_interrupts := g, reqs := f\<rparr>"
  by simp

lemma sys_order: "s\<lparr>s_loc := f, s_c := c\<rparr> = s\<lparr>s_c := c, s_loc := f\<rparr>"
  by simp

lemma fuse_request_end_eq:
  assumes q: "reqs c r = Some q" and nf: "FR_FINISHED \<notin> r_flags q"
    and pos: "FR_BACKGROUND \<in> r_flags q \<Longrightarrow> 0 < c_active_background c \<and> 0 < c_num_background c"
    and lt: "c_active_background c < 2 ^ 32" "c_num_background c < 2 ^ 32"
  shows "fuse_request_end r c = obind (if FR_BACKGROUND \<in> r_flags q then flush_bg_queue (end_conn r q c) else Done (end_conn r q c))
    (\<lambda>c5. fuse_put_request r (if FR_ASYNC \<in> r_flags q then c5\<lparr>c_done := c_done c5 @ [(r, out_error q)]\<rparr> else c5))"
proof (cases "FR_BACKGROUND \<in> r_flags q")
  case True
  with pos lt have "u32_sub (c_num_background c) 1 = c_num_background c - 1" "u32_sub (c_active_background c) 1 = c_active_background c - 1"
    using u32_sub_1[of "c_num_background c"] u32_sub_1[of "c_active_background c"] by blast+
  moreover have "insert FR_FINISHED (r_flags q) - {FR_BACKGROUND} = insert FR_FINISHED (r_flags q - {FR_BACKGROUND})" by auto
  ultimately show ?thesis using True q nf
    by (cases "FR_INTERRUPTED \<in> r_flags q"; cases "c_num_background c = c_max_background c")
      (simp_all add: fuse_request_end_def kdefs Let_def end_conn_def)
next
  case False
  then have "r_flags q - {FR_BACKGROUND} = r_flags q" by auto
  then show ?thesis using False q nf
    by (cases "FR_INTERRUPTED \<in> r_flags q") (simp_all add: fuse_request_end_def kdefs Let_def end_conn_def conn_order)
qed

lemma flushed_noop:
  assumes "pre X (s\<lparr>s_c := c\<rparr>)"
  shows "flushed c s = s\<lparr>s_c := c\<rparr>"
  using flushed_self[OF assms] flushed_cong[of "s\<lparr>s_c := c\<rparr>" s c] by simp

lemma request_end_inv:
  assumes pre: "pre {r} s" and q: "reqs (s_c s) r = Some q" and lim: "bg_limits (s_c s)"
    and e: "ending_ok (\<lambda>d. pq_connected (c_pq (s_c s) d)) q (s_loc s r) (s_ae s r) (s_wait s r) (s_sent s r) (r \<in> set (iq_interrupts (s_c s)))"
    and ids: "ids_left s (length (c_bg_queue (s_c s)))"
  shows "\<exists>c. fuse_request_end r (s_c s) = Done c \<and> sys_inv (flushed c s)"
proof (cases "FR_FINISHED \<in> r_flags q")
  case True
  then have F: "r_flags q = insert FR_FINISHED (r_flags q - {FR_BACKGROUND})" and i: "r \<notin> set (iq_interrupts (s_c s))"
    using e by (auto simp: ending_ok_def)
  obtain k where pk: "fuse_put_request r (s_c s) = Done ((s_c s)\<lparr>reqs := (reqs (s_c s))(r := put_req q), c_num_waiting := k\<rparr>)"
      and p: "pre {} (s\<lparr>s_c := (s_c s)\<lparr>reqs := (reqs (s_c s))(r := put_req q), c_num_waiting := k\<rparr>\<rparr>)"
    using pre_put[OF pre q e refl F i] by blast
  let ?c = "(s_c s)\<lparr>reqs := (reqs (s_c s))(r := put_req q), c_num_waiting := k\<rparr>"
  note pk
  moreover have "sys_inv (flushed ?c s)" unfolding flushed_noop[OF p] sys_inv_pre using p lim by (simp add: bg_limits_def)
  moreover have "fuse_request_end r (s_c s) = fuse_put_request r (s_c s)" using True q by (simp add: fuse_request_end_def with_req_def)
  ultimately show ?thesis by auto
next
  case nf: False
  let ?c4 = "end_conn r q (s_c s)" and ?q4 = "q\<lparr>r_flags := insert FR_FINISHED (r_flags q - {FR_BACKGROUND})\<rparr>"
  have bl: "c_blocked (s_c s) \<longleftrightarrow> c_max_background (s_c s) \<le> c_num_background (s_c s)" using lim by (simp add: bg_limits_def)
  note ec = end_conn_pre[OF pre q nf e bl]
  have q4: "reqs ?c4 r = Some ?q4" by (simp add: end_conn_def)
  have nb: "r \<notin> set (c_bg_queue ?c4)" using pre_lists(1)[OF pre, of r] e private_loc[of _ "r_flags q" "s_loc s r"]
    by (auto simp: end_conn_def ending_ok_def queued_def)
  have "bg_counts s" using pre by (simp add: pre_def)
  then have lt: "c_active_background (s_c s) < 2 ^ 32" "c_num_background (s_c s) < 2 ^ 32" by (simp_all add: bg_counts_def)
  obtain c5 where c5: "(if FR_BACKGROUND \<in> r_flags q then flush_bg_queue ?c4 else Done ?c4) = Done c5"
    and p5: "pre {r} (flushed c5 (s\<lparr>s_c := ?c4\<rparr>))" and f5: "flush_same ?c4 c5" and l5: "bg_limits c5"
  proof (cases "FR_BACKGROUND \<in> r_flags q")
    case True
    have "ids_left (s\<lparr>s_c := ?c4\<rparr>) (length (c_bg_queue ?c4))" using ids by (simp add: ids_left_def end_conn_def)
    then obtain c where "flush_bg_queue ?c4 = Done c" "pre {r} (flushed c (s\<lparr>s_c := ?c4\<rparr>))" "flush_same ?c4 c"
        "c_bg_queue c \<noteq> [] \<longrightarrow> c_max_background c \<le> c_active_background c"
      using flush_bg_queue_pre[OF ec(1)] nb by auto
    moreover have "c_active_background ?c4 \<le> c_max_background ?c4" using lim by (auto simp: end_conn_bg bg_limits_def)
    ultimately have "bg_limits c" using ec(3) by (simp add: bg_limits_def flush_same_def end_conn_bg)
    moreover note \<open>flush_bg_queue ?c4 = Done c\<close> \<open>pre {r} (flushed c (s\<lparr>s_c := ?c4\<rparr>))\<close> \<open>flush_same ?c4 c\<close>
    ultimately show ?thesis using that True by auto
  next
    case False
    have "bg_limits ?c4" using lim False by (simp add: bg_limits_def end_conn_def)
    moreover have "flushed ?c4 (s\<lparr>s_c := ?c4\<rparr>) = s\<lparr>s_c := ?c4\<rparr>" using flushed_self[OF ec(1)] by simp
    ultimately show ?thesis using that[of ?c4] False ec(1) by (simp add: flush_same_def)
  qed
  define c6 where "c6 = (if FR_ASYNC \<in> r_flags q then c5\<lparr>c_done := c_done c5 @ [(r, out_error q)]\<rparr> else c5)"
  have fc: "flushed c5 (s\<lparr>s_c := ?c4\<rparr>) = flushed c5 s" by (rule flushed_cong) simp_all
  have s6: "(flushed c5 s)\<lparr>s_c := c6\<rparr> = flushed c6 s" by (simp add: flushed_def c6_def)
  have "pre {r} (flushed c6 s)"
    using pre_done[OF p5[unfolded fc], of "c_done c5 @ [(r, out_error q)]"] p5 fc by (auto simp: c6_def flushed_def sys_order)
  moreover have g: "s_loc (flushed c6 s) r = s_loc s r" "s_ae (flushed c6 s) r = s_ae s r" "s_wait (flushed c6 s) r = s_wait s r"
    "s_sent (flushed c6 s) r = s_sent s r" "s_c (flushed c6 s) = c6"
    using pre_lists(1)[OF pre, of r] nb by (auto simp: flushed_def end_conn_def)
  moreover have "reqs c6 r = Some ?q4" "c_pq c6 = c_pq (s_c s)" "iq_interrupts c6 = iq_interrupts ?c4"
    using f5 nb q4 by (auto simp: flush_same_def c6_def end_conn_def)
  ultimately obtain k where
    p7: "fuse_put_request r c6 = Done (c6\<lparr>reqs := (reqs c6)(r := put_req ?q4), c_num_waiting := k\<rparr>)"
      "pre {} ((flushed c6 s)\<lparr>s_c := c6\<lparr>reqs := (reqs c6)(r := put_req ?q4), c_num_waiting := k\<rparr>\<rparr>)"
    using pre_put[of r "flushed c6 s" ?q4 q] e ec(2) by auto
  let ?c7 = "c6\<lparr>reqs := (reqs c6)(r := put_req ?q4), c_num_waiting := k\<rparr>"
  have fe: "fuse_request_end r (s_c s) = fuse_put_request r c6"
    by (subst fuse_request_end_eq[OF q nf _ lt]) (use ec(4) in \<open>simp_all add: c5 c6_def\<close>)
  have "(flushed c6 s)\<lparr>s_c := ?c7\<rparr> = flushed ?c7 s" by (simp add: flushed_def)
  then have "pre {} (flushed ?c7 s)" using p7(2) by simp
  moreover have "bg_limits (s_c (flushed ?c7 s))" using l5 by (simp add: flushed_def bg_limits_def c6_def)
  ultimately have "sys_inv (flushed ?c7 s)" by (simp only: sys_inv_pre)
  then show ?thesis using p7(1) unfolding fe by blast
qed

definition step_end :: "nat \<Rightarrow> sys \<Rightarrow> sys outcome" where
  "step_end r s = obind (fuse_request_end r (s_c s)) (\<lambda>c. Done (flushed c (s\<lparr>s_loc := (s_loc s)(r := None)\<rparr>)))"

text \<open>Dropping the reference that goes with a place leaves a state in which the request may be ended.\<close>

lemma drop_loc_pre:
  assumes inv: "sys_inv s" and l: "s_loc s r = Some Ending \<or> s_loc s r = Some In_to_end" and q: "reqs (s_c s) r = Some q"
    and q': "r_count q' = r_count q" "r_flags q' = r_flags q - F" "F \<subseteq> {FR_SENT}" "s_loc s r = Some In_to_end \<Longrightarrow> F = {FR_SENT}"
    and te: "te = (if s_loc s r = Some In_to_end then remove1 r (c_to_end (s_c s)) else c_to_end (s_c s))"
  shows "pre {r} (s\<lparr>s_c := (s_c s)\<lparr>c_to_end := te, reqs := (reqs (s_c s))(r \<mapsto> q')\<rparr>, s_loc := (s_loc s)(r := None)\<rparr>)" (is "pre {r} ?s'")
    and "ending_ok (\<lambda>d. pq_connected (c_pq (s_c s) d)) q' None (s_ae s r) (s_wait s r) (s_sent s r) (r \<in> set (iq_interrupts (s_c s)))"
proof -
  have "sys_req_ok s r" using inv by (simp add: sys_inv_def)
  then have ok: "live_ok (\<lambda>d. pq_connected (c_pq (s_c s) d)) q (s_loc s r) (s_ae s r) (s_wait s r)
     (s_sent s r) (r \<in> set (iq_interrupts (s_c s)))" by (simp add: sys_req_ok_def req_ok_def q)
  have pre: "pre {} s" using inv by (simp add: sys_inv_pre)
  have nl: "\<not> queued (s_loc s r)" "s_loc s r \<noteq> None" using l by auto
  then have u: "\<not> unsent (s_wait s r)" using liveD(10)[OF ok] by auto
  have sent: "FR_SENT \<in> r_flags q \<Longrightarrow> F = {FR_SENT}" using liveD(4)[OF ok] l q'(4) by auto
  have lck: "FR_LOCKED \<notin> r_flags q" using liveD(5)[OF ok] l by auto
  have ae: "\<not> s_ae s r" if "s_loc s r = Some In_to_end" using liveD(7,8)[OF ok] that by auto
  have flag: "b \<in> r_flags q' \<longleftrightarrow> b \<in> r_flags q" if "b \<noteq> FR_SENT" for b using q'(2,3) that by auto
  show "ending_ok (\<lambda>d. pq_connected (c_pq (s_c s) d)) q' None (s_ae s r) (s_wait s r) (s_sent s r) (r \<in> set (iq_interrupts (s_c s)))"
    using liveD(1,3,7,11,15)[OF ok] nl u lck sent q'
    by (auto simp: ending_ok_def flag private_ok_def tokens_def unsent_def)
  have fr: "frame r s ?s'" by (simp add: frame_def)
  show "pre {r} ?s'"
  proof (rule pre_upd[OF pre fr])
    show "lists_moved r s ?s'" using l ae te pre_lists(8)[OF pre]
      by (auto simp: lists_moved_def pre_lists[OF pre])
    have "active ?s' r = active s r" using l q flag by (auto simp: active_def)
    from active_same[OF fr this] show "bg_counts ?s'" using pre by (simp add: pre_def bg_counts_def)
    show "uniq_ok ?s'" using pre by (intro uniq_ok_same[OF _ fr]) (simp_all add: pre_def numbered_def)
  qed simp_all
qed

lemma step_end_inv:
  assumes inv: "sys_inv s" and l: "s_loc s r = Some Ending" and ids: "ids_left s (length (c_bg_queue (s_c s)))"
  shows "\<exists>s'. step_end r s = Done s' \<and> sys_inv s'"
proof -
  obtain q where q: "reqs (s_c s) r = Some q" using inv_live[OF inv] l by blast
  let ?s = "s\<lparr>s_loc := (s_loc s)(r := None)\<rparr>"
  have eq: "s\<lparr>s_c := (s_c s)\<lparr>c_to_end := c_to_end (s_c s), reqs := (reqs (s_c s))(r \<mapsto> q)\<rparr>, s_loc := (s_loc s)(r := None)\<rparr> = ?s"
    using q by (simp add: fun_upd_idem)
  note d = drop_loc_pre[OF inv _ q, of q "{}" "c_to_end (s_c s)", unfolded eq]
  have "\<exists>c. fuse_request_end r (s_c ?s) = Done c \<and> sys_inv (flushed c ?s)"
    using d l q ids inv by (intro request_end_inv[of r ?s q]) (simp_all add: ids_left_def sys_inv_pre)
  then show ?thesis by (auto simp: step_end_def)
qed

end
