(* ===== verification/Kern_Abort.thy ===== *)
theory Kern_Abort
  imports Kern_System
begin

text \<open>
  An abort of the connection, the release of a device and the other threads, in the setting of \<open>Kern_System\<close>, and
  the whole system as a step relation.
\<close>

subsection \<open>Aborting\<close>

text \<open>The holder of \<open>to_end\<close> ends a request of it: the request either is at home there, or was under
  I/O when the abort took an extra reference.\<close>

definition step_end_one :: "nat \<Rightarrow> sys \<Rightarrow> sys outcome" where
  "step_end_one r s = obind (end_one_request r (s_c s)) (\<lambda>c. Done (flushed c
     (if s_loc s r = Some In_to_end then s\<lparr>s_loc := (s_loc s)(r := None)\<rparr> else s\<lparr>s_ae := (s_ae s)(r := False)\<rparr>)))"

lemma drop_ae_pre:
  assumes inv: "sys_inv s" and ae: "s_ae s r" and q: "reqs (s_c s) r = Some q"
    and q': "r_count q' = r_count q" "r_flags q' = r_flags q - {FR_SENT}" "in_unique q' = in_unique q"
  shows "pre {r} (s\<lparr>s_c := (s_c s)\<lparr>c_to_end := remove1 r (c_to_end (s_c s)), reqs := (reqs (s_c s))(r \<mapsto> q')\<rparr>, s_ae := (s_ae s)(r := False)\<rparr>)"
      (is "pre {r} ?s'")
    and "ending_ok (\<lambda>d. pq_connected (c_pq (s_c s) d)) q' (s_loc s r) False (s_wait s r) (s_sent s r) (r \<in> set (iq_interrupts (s_c s)))"
    and "s_loc s r \<noteq> Some In_to_end"
proof -
  have "sys_req_ok s r" using inv by (simp add: sys_inv_def)
  then have ok: "live_ok (\<lambda>d. pq_connected (c_pq (s_c s) d)) q (s_loc s r) (s_ae s r) (s_wait s r)
     (s_sent s r) (r \<in> set (iq_interrupts (s_c s)))" by (simp add: sys_req_ok_def req_ok_def q)
  have pre: "pre {} s" using inv by (simp add: sys_inv_pre)
  note p = liveD(7)[OF ok ae] and l = liveD(8)[OF ok liveD(7)[OF ok ae]]
  show nt: "s_loc s r \<noteq> Some In_to_end" using l by auto
  have nl: "\<not> queued (s_loc s r)" "s_loc s r \<noteq> Some In_bg" "s_loc s r \<noteq> Some In_pending" "\<And>d. s_loc s r \<noteq> Some (In_processing d)"
    using l by (auto simp: ghost_defs)
  have u: "\<not> unsent (s_wait s r)" using liveD(10)[OF ok] ae by auto
  show "ending_ok (\<lambda>d. pq_connected (c_pq (s_c s) d)) q' (s_loc s r) False (s_wait s r) (s_sent s r) (r \<in> set (iq_interrupts (s_c s)))"
    using liveD(1,3,5,11,14,15)[OF ok] p nl u ae l q'
    by (auto simp: ending_ok_def private_ok_def tokens_def unsent_def)
  have fr: "frame r s ?s'" by (simp add: frame_def)
  show "pre {r} ?s'"
  proof (rule pre_upd[OF pre fr])
    show "lists_moved r s ?s'" using nt pre_lists(8)[OF pre]
      by (simp add: lists_moved_def pre_lists[OF pre] q q' fuse_req_hash_def)
    have "active ?s' r = active s r" using q q' by (simp add: active_def)
    from active_same[OF fr this] show "bg_counts ?s'" using pre by (simp add: pre_def bg_counts_def)
    show "uniq_ok ?s'" using pre q q' by (intro uniq_ok_same[OF _ fr]) (simp_all add: pre_def numbered_def uniq_of_def)
  qed simp_all
qed

lemma step_end_one_inv:
  assumes inv: "sys_inv s" and r: "r \<in> set (c_to_end (s_c s))" and ids: "ids_left s (length (c_bg_queue (s_c s)))"
  shows "\<exists>s'. step_end_one r s = Done s' \<and> sys_inv s'"
proof -
  have lo: "s_loc s r = Some In_to_end \<or> s_ae s r" using inv_lists(3)[OF inv] r by blast
  then obtain q where q: "reqs (s_c s) r = Some q" using inv_live[OF inv] by blast
  let ?q = "q\<lparr>out_error := - ECONNABORTED, r_flags := r_flags q - {FR_SENT}\<rparr>"
  let ?c = "(s_c s)\<lparr>c_to_end := remove1 r (c_to_end (s_c s)), reqs := (reqs (s_c s))(r \<mapsto> ?q)\<rparr>"
  have e: "end_one_request r (s_c s) = fuse_request_end r ?c" using q by (simp add: end_one_request_def kdefs)
  have lim: "bg_limits ?c" using inv by (simp add: sys_inv_pre bg_limits_def)
  show ?thesis
  proof (cases "s_loc s r = Some In_to_end")
    case True
    let ?s = "s\<lparr>s_c := ?c, s_loc := (s_loc s)(r := None)\<rparr>"
    note d = drop_loc_pre[OF inv _ q, of ?q "{FR_SENT}" "remove1 r (c_to_end (s_c s))"]
    have "\<exists>c. fuse_request_end r (s_c ?s) = Done c \<and> sys_inv (flushed c ?s)"
      using d True ids lim by (intro request_end_inv[of r ?s ?q]) (simp_all add: ids_left_def)
    moreover have "flushed c ?s = flushed c (s\<lparr>s_loc := (s_loc s)(r := None)\<rparr>)" for c by (rule flushed_cong) simp_all
    ultimately show ?thesis using True by (auto simp: step_end_one_def e)
  next
    case False
    let ?s = "s\<lparr>s_c := ?c, s_ae := (s_ae s)(r := False)\<rparr>"
    have ae: "s_ae s r" using lo False by blast
    note d = drop_ae_pre[OF inv ae q, of ?q]
    have "\<exists>c. fuse_request_end r (s_c ?s) = Done c \<and> sys_inv (flushed c ?s)"
      using d False ids lim by (intro request_end_inv[of r ?s ?q]) (simp_all add: ids_left_def)
    moreover have "flushed c ?s = flushed c (s\<lparr>s_ae := (s_ae s)(r := False)\<rparr>)" for c by (rule flushed_cong) simp_all
    ultimately show ?thesis using False by (auto simp: step_end_one_def e)
  qed
qed

text \<open>The lock section of an abort for one device. A disconnected device stays so.\<close>

lemma disconnect_inv:
  assumes inv: "sys_inv s"
  shows "sys_inv (s\<lparr>s_c := upd_pq d (\<lambda>pq. pq\<lparr>pq_connected := False\<rparr>) (s_c s)\<rparr>)" (is "sys_inv ?s'")
proof (rule sys_inv_move[OF inv, of 0])
  have "sys_req_ok s 0" using inv by (simp add: sys_inv_def)
  then show "sys_req_ok ?s' 0" unfolding sys_req_ok_def
    by (simp add: upd_pq_def) (erule req_ok_mono, simp split: if_splits)
  have "bucket_of (s_c ?s') qo = bucket_of (s_c s) qo" for qo by (rule bucket_of_cong) (simp add: upd_pq_def)
  then show "lists_moved 0 s ?s'" by (simp add: lists_moved_def inv_lists[OF inv]) (simp add: upd_pq_def inv_lists[OF inv])
qed (simp_all add: frame_def same_counts_def same_bg_def active_def numbered_def uniq_of_def upd_pq_def split: if_splits)

definition abort_one :: "nat \<Rightarrow> nat \<Rightarrow> fuse_req \<Rightarrow> fuse_conn \<Rightarrow> fuse_conn" where
  "abort_one d r q c = (if FR_LOCKED \<in> r_flags q
     then c\<lparr>reqs := (reqs c)(r \<mapsto> q\<lparr>out_error := - ECONNABORTED, r_flags := insert FR_ABORTED (r_flags q)\<rparr>)\<rparr>
     else c\<lparr>reqs := (reqs c)(r \<mapsto> q\<lparr>out_error := - ECONNABORTED, r_flags := insert FR_PRIVATE (insert FR_ABORTED (r_flags q)),
          r_count := Suc (r_count q)\<rparr>),
        c_pq := (c_pq c)(d := (c_pq c d)\<lparr>pq_io := remove1 r (pq_io (c_pq c d))\<rparr>), c_to_end := r # c_to_end c\<rparr>)"

lemma abort_io_Cons:
  "reqs c r = Some q \<Longrightarrow> abort_io d (r # rs) c = abort_io d rs (abort_one d r q c)"
  by (simp add: abort_one_def kdefs pq_del_def Let_def)

lemma abort_one_inv:
  assumes inv: "sys_inv s" and conn: "\<not> pq_connected (c_pq (s_c s) d)" and io: "r \<in> set (pq_io (c_pq (s_c s) d))"
    and q: "reqs (s_c s) r = Some q"
  shows "sys_inv (s\<lparr>s_c := abort_one d r q (s_c s), s_ae := (s_ae s)(r := FR_LOCKED \<notin> r_flags q)\<rparr>)" (is "sys_inv ?s'")
proof -
  have l: "at_dev d (s_loc s r)" and np: "FR_PRIVATE \<notin> r_flags q" using inv_lists(4)[OF inv] io q by auto
  note l' = at_devD[OF l]
  have "sys_req_ok s r" using inv by (simp add: sys_inv_def)
  then have ok: "live_ok (\<lambda>d. pq_connected (c_pq (s_c s) d)) q (s_loc s r) (s_ae s r) (s_wait s r)
     (s_sent s r) (r \<in> set (iq_interrupts (s_c s)))" by (simp add: sys_req_ok_def req_ok_def q)
  have f: "\<not> s_ae s r" "FR_FINISHED \<notin> r_flags q" "\<not> unsent (s_wait s r)" "FR_SENT \<notin> r_flags q"
    using liveD(4,6,7,10)[OF ok] np l' by auto
  have ex: "\<exists>d. at_dev d (s_loc s r) \<and> \<not> pq_connected (c_pq (s_c s) d)" using l conn by blast
  show ?thesis
  proof (rule sys_inv_move[OF inv, of r])
    show "frame r s ?s'" by (simp add: frame_def abort_one_def)
    show "lists_moved r s ?s'" using inv_lists(9)[OF inv, of d] l
      by (simp add: lists_moved_def inv_lists[OF inv] l' q f np abort_one_def moved_def fuse_req_hash_def)
    have c: "(\<lambda>d. pq_connected (c_pq (s_c ?s') d)) = (\<lambda>d. pq_connected (c_pq (s_c s) d))" by (auto simp: abort_one_def)
    show "sys_req_ok ?s' r" unfolding sys_req_ok_def c using ok l' f ex
      by (simp add: req_ok_def live_ok_def private_ok_def tokens_def abort_one_def)
    show "active ?s' r = active s r" using q by (simp add: active_def abort_one_def)
    show "numbered ?s' r \<Longrightarrow> numbered s r \<and> uniq_of (s_c ?s') r = uniq_of (s_c s) r"
      using q by (simp add: numbered_def uniq_of_def abort_one_def split: if_splits)
  qed (simp_all add: same_counts_def same_bg_def abort_one_def split: if_splits)
qed


lemma abort_io_inv:
  assumes "sys_inv s" and "\<not> pq_connected (c_pq (s_c s) d)" and "distinct rs" and "set rs \<subseteq> set (pq_io (c_pq (s_c s) d))"
  shows "\<exists>c. abort_io d rs (s_c s) = Done c \<and>
     sys_inv (s\<lparr>s_c := c, s_ae := (\<lambda>r. if r \<in> set rs then FR_LOCKED \<notin> flags_of (reqs (s_c s) r) else s_ae s r)\<rparr>)"
  using assms
proof (induction rs arbitrary: s)
  case Nil
  then show ?case by simp
next
  case (Cons r rs)
  have io: "r \<in> set (pq_io (c_pq (s_c s) d))" using Cons.prems(4) by simp
  have "s_loc s r \<noteq> None" using inv_lists(4)[OF Cons.prems(1), of r d] io at_devD(1) by blast
  then obtain q where q: "reqs (s_c s) r = Some q" using inv_live[OF Cons.prems(1)] by blast
  let ?s1 = "s\<lparr>s_c := abort_one d r q (s_c s), s_ae := (s_ae s)(r := FR_LOCKED \<notin> r_flags q)\<rparr>"
  have inv1: "sys_inv ?s1" by (rule abort_one_inv[OF Cons.prems(1,2) io q])
  have c1: "\<not> pq_connected (c_pq (s_c ?s1) d)" using Cons.prems(2) by (simp add: abort_one_def)
  have nr: "r \<notin> set rs" "distinct rs" using Cons.prems(3) by auto
  have "x \<in> set (pq_io (c_pq (s_c ?s1) d))" if "x \<in> set rs" for x
  proof -
    have "x \<noteq> r" "x \<in> set (pq_io (c_pq (s_c s) d))" using that nr Cons.prems(4) by auto
    then show ?thesis by (simp add: abort_one_def)
  qed
  then have rs: "set rs \<subseteq> set (pq_io (c_pq (s_c ?s1) d))" by blast
  have same: "reqs (abort_one d r q (s_c s)) x = reqs (s_c s) x" if "x \<noteq> r" for x using that by (simp add: abort_one_def)
  from Cons.IH[OF inv1 c1 nr(2) rs] obtain c where c: "abort_io d rs (abort_one d r q (s_c s)) = Done c" and
    i: "sys_inv (?s1\<lparr>s_c := c, s_ae := (\<lambda>x. if x \<in> set rs then FR_LOCKED \<notin> flags_of (reqs (s_c ?s1) x) else s_ae ?s1 x)\<rparr>)" by auto
  have "?s1\<lparr>s_c := c, s_ae := (\<lambda>x. if x \<in> set rs then FR_LOCKED \<notin> flags_of (reqs (s_c ?s1) x) else s_ae ?s1 x)\<rparr>
      = s\<lparr>s_c := c, s_ae := (\<lambda>x. if x \<in> set (r # rs) then FR_LOCKED \<notin> flags_of (reqs (s_c s) x) else s_ae s x)\<rparr>"
    using nr q same by (auto simp: fun_eq_iff)
  with c i show ?case using abort_io_Cons[OF q] by auto
qed

text \<open>Steps that move many requests at once and keep their ids and the counters.\<close>

lemma bulk_inv:
  assumes inv: "sys_inv s" and ok: "\<And>r. sys_req_ok s' r" and l: "lists_ok s'" and c: "same_counts (s_c s) (s_c s')"
    and a: "\<And>r. active s' r = active s r" and u: "\<And>r. numbered s' r \<Longrightarrow> numbered s r \<and> uniq_of (s_c s') r = uniq_of (s_c s) r"
  shows "sys_inv s'"
proof -
  have "active s' = active s" using a by blast
  then have "bg_ok s'" using inv c unfolding sys_inv_def bg_ok_def bg_counts_def bg_limits_def same_counts_def same_bg_def by auto
  moreover have "uniq_ok s'" using inv c u unfolding sys_inv_def uniq_ok_def same_counts_def by metis
  ultimately show ?thesis using ok l by (simp add: sys_inv_def)
qed

definition to_end_loc :: "(loc option \<Rightarrow> bool) \<Rightarrow> sys \<Rightarrow> nat \<Rightarrow> loc option" where
  "to_end_loc P s r = (if P (s_loc s r) then Some In_to_end else s_loc s r)"

lemma queue_ok_append:
  assumes "queue_ok L P" and "distinct M" and "\<And>r. r \<in> set M \<longleftrightarrow> Q r" and "\<And>r. Q r \<Longrightarrow> \<not> P r" and "\<And>r. P' r \<longleftrightarrow> P r \<or> Q r"
  shows "queue_ok (L @ M) P'"
  using assms unfolding queue_ok_def by auto

lemma queue_ok_cong: "queue_ok L P \<Longrightarrow> (\<And>r. P' r = P r) \<Longrightarrow> queue_ok L P'"
  by (simp add: queue_ok_def)

text \<open>All requests of the processing queue of device \<open>d\<close>, listed once in any order, move to \<open>to_end\<close>.\<close>

lemma distinct_buckets:
  assumes inv: "sys_inv s" and "distinct hs"
  shows "distinct (concat (map (pq_processing (c_pq (s_c s) d)) hs))"
  using assms(2)
proof (induction hs)
  case (Cons h hs)
  have "set (pq_processing (c_pq (s_c s) d) h) \<inter> set (pq_processing (c_pq (s_c s) d) h') = {}" if "h' \<in> set hs" for h'
    using Cons.prems that inv_lists(5)[OF inv, of _ d h] inv_lists(5)[OF inv, of _ d h'] by auto
  with Cons inv_lists(10)[OF inv] show ?case by auto
qed simp

lemma processing_bound:
  assumes inv: "sys_inv s" and "r \<in> set (pq_processing (c_pq (s_c s) d) h)"
  shows "h < FUSE_PQ_HASH_SIZE"
proof -
  have l: "s_loc s r = Some (In_processing d)" and h: "bucket_of (s_c s) (reqs (s_c s) r) = h" using inv_lists(5)[OF inv] assms(2) by auto
  obtain q where "reqs (s_c s) r = Some q" using inv_live[OF inv] l by blast
  then show ?thesis using h inv by (auto simp: sys_inv_def lists_ok_def fuse_req_hash_def)
qed

lemma live_to_end:
  "live_ok conn q (Some (In_processing d)) ae w n i \<Longrightarrow> live_ok conn q (Some In_to_end) ae w n i"
  by (simp add: live_ok_def private_ok_def tokens_def, blast)

lemma splice_inv:
  assumes inv: "sys_inv s" and M: "distinct M" "\<And>r. r \<in> set M \<longleftrightarrow> s_loc s r = Some (In_processing d)"
  shows "sys_inv (s\<lparr>s_c := (upd_pq d (\<lambda>pq. pq\<lparr>pq_processing := (\<lambda>h. if h < FUSE_PQ_HASH_SIZE then [] else pq_processing pq h)\<rparr>) (s_c s))
       \<lparr>c_to_end := c_to_end (s_c s) @ M\<rparr>, s_loc := to_end_loc (\<lambda>l. l = Some (In_processing d)) s\<rparr>)" (is "sys_inv ?s'")
proof (rule bulk_inv[OF inv])
  have reqs: "reqs (s_c ?s') = reqs (s_c s)" and conn: "pq_connected (c_pq (s_c ?s') e) = pq_connected (c_pq (s_c s) e)"
    and io: "pq_io (c_pq (s_c ?s') e) = pq_io (c_pq (s_c s) e)" for e by (simp_all add: upd_pq_def)
  have conn': "(\<lambda>e. pq_connected (c_pq (s_c ?s') e)) = (\<lambda>e. pq_connected (c_pq (s_c s) e))" using conn by blast
  have intr: "iq_interrupts (s_c ?s') = iq_interrupts (s_c s)" by (simp add: upd_pq_def)
  have b: "bucket_of (s_c ?s') qo = bucket_of (s_c s) qo" for qo by (rule bucket_of_cong) (simp add: upd_pq_def)
  have dev: "at_dev e (s_loc ?s' r) = at_dev e (s_loc s r)" for e r by (simp add: to_end_loc_def)
  have nae: "\<not> s_ae s r" if "s_loc s r = Some (In_processing d)" for r
  proof -
    obtain q where "live_ok (\<lambda>d. pq_connected (c_pq (s_c s) d)) q (s_loc s r) (s_ae s r) (s_wait s r)
      (s_sent s r) (r \<in> set (iq_interrupts (s_c s)))" using inv_live[OF inv] \<open>s_loc s r = Some (In_processing d)\<close> by blast
    from liveD(7,8)[OF this] that show ?thesis by auto
  qed
  show "sys_req_ok ?s' r" for r
  proof -
    have "sys_req_ok s r" using inv by (simp add: sys_inv_def)
    then show ?thesis unfolding sys_req_ok_def conn' reqs intr
      by (cases "s_loc s r = Some (In_processing d)"; cases "reqs (s_c s) r")
        (simp_all add: to_end_loc_def req_ok_def tokens_def live_to_end)
  qed
  have lists: "lists_ok s" using inv by (simp add: sys_inv_def)
  have hash: "pq_processing (c_pq (s_c s) d) h = []" if "\<not> h < FUSE_PQ_HASH_SIZE" for h
    using processing_bound[OF inv, of _ d h] that by (cases "pq_processing (c_pq (s_c s) d) h") auto
  show "lists_ok ?s'" unfolding lists_ok_def
  proof (intro conjI allI)
    show "queue_ok (c_bg_queue (s_c ?s')) (\<lambda>r. s_loc ?s' r = Some In_bg)"
      using lists by (auto simp: lists_ok_def upd_pq_def to_end_loc_def elim: queue_ok_cong)
    show "queue_ok (iq_pending (s_c ?s')) (\<lambda>r. s_loc ?s' r = Some In_pending)"
      using lists by (auto simp: lists_ok_def upd_pq_def to_end_loc_def elim: queue_ok_cong)
    show "queue_ok (c_to_end (s_c ?s')) (\<lambda>r. s_loc ?s' r = Some In_to_end \<or> s_ae ?s' r)"
    proof -
      have "queue_ok (c_to_end (s_c s)) (\<lambda>r. s_loc s r = Some In_to_end \<or> s_ae s r)" using lists by (simp add: lists_ok_def)
      from queue_ok_append[OF this M(1,2)] show ?thesis using nae by (simp add: to_end_loc_def)
    qed
    show "queue_ok (pq_io (c_pq (s_c ?s') e)) (\<lambda>r. at_dev e (s_loc ?s' r) \<and> FR_PRIVATE \<notin> flags_of (reqs (s_c ?s') r))" for e
      unfolding dev io reqs using lists by (simp add: lists_ok_def)
    show "queue_ok (pq_processing (c_pq (s_c ?s') e) h)
        (\<lambda>r. s_loc ?s' r = Some (In_processing e) \<and> bucket_of (s_c ?s') (reqs (s_c ?s') r) = h)" for e h
    proof (cases "e = d")
      case True
      then show ?thesis unfolding b reqs using hash by (simp add: upd_pq_def to_end_loc_def queue_ok_def)
    next
      case False
      have "queue_ok (pq_processing (c_pq (s_c s) e) h) (\<lambda>r. s_loc s r = Some (In_processing e) \<and> bucket_of (s_c s) (reqs (s_c s) r) = h)"
        using lists by (simp add: lists_ok_def)
      then show ?thesis unfolding b reqs using False by (auto simp: upd_pq_def to_end_loc_def elim: queue_ok_cong)
    qed
  qed (use lists in \<open>simp_all add: lists_ok_def upd_pq_def\<close>)
  show "active ?s' r = active s r" for r by (simp add: active_def upd_pq_def to_end_loc_def)
  show "numbered ?s' r \<Longrightarrow> numbered s r \<and> uniq_of (s_c ?s') r = uniq_of (s_c s) r" for r
    by (simp add: numbered_def uniq_of_def upd_pq_def to_end_loc_def split: if_splits)
qed (simp add: same_counts_def same_bg_def upd_pq_def)


definition step_abort_device :: "nat \<Rightarrow> sys \<Rightarrow> sys outcome" where
  "step_abort_device d s = obind (abort_device d (s_c s)) (\<lambda>c. Done (s\<lparr>s_c := c,
     s_ae := (\<lambda>r. if r \<in> set (pq_io (c_pq (s_c s) d)) then \<not> test_bit_req FR_LOCKED r (s_c s) else s_ae s r),
     s_loc := to_end_loc (\<lambda>l. l = Some (In_processing d)) s\<rparr>))"

lemma set_buckets:
  assumes inv: "sys_inv s" and hs: "set hs = {..<FUSE_PQ_HASH_SIZE}"
  shows "r \<in> set (concat (map (pq_processing (c_pq (s_c s) d)) hs)) \<longleftrightarrow> s_loc s r = Some (In_processing d)"
proof
  assume "r \<in> set (concat (map (pq_processing (c_pq (s_c s) d)) hs))"
  then show "s_loc s r = Some (In_processing d)" using inv_lists(5)[OF inv] by auto
next
  assume "s_loc s r = Some (In_processing d)"
  then have r: "r \<in> set (pq_processing (c_pq (s_c s) d) (bucket_of (s_c s) (reqs (s_c s) r)))" using inv_lists(5)[OF inv] by blast
  then show "r \<in> set (concat (map (pq_processing (c_pq (s_c s) d)) hs))" using processing_bound[OF inv r] hs by auto
qed

lemma test_bit_flags: "test_bit_req b r c \<longleftrightarrow> b \<in> flags_of (reqs c r)"
  by (simp add: test_bit_req_def flags_of_def split: option.split)

lemma step_abort_device_inv:
  assumes inv: "sys_inv s"
  shows "\<exists>s'. step_abort_device d s = Done s' \<and> sys_inv s'"
proof -
  let ?c1 = "upd_pq d (\<lambda>pq. pq\<lparr>pq_connected := False\<rparr>) (s_c s)"
  let ?s1 = "s\<lparr>s_c := ?c1\<rparr>"
  have inv1: "sys_inv ?s1" by (rule disconnect_inv[OF inv])
  have io: "pq_io (c_pq ?c1 d) = pq_io (c_pq (s_c s) d)" "\<not> pq_connected (c_pq (s_c ?s1) d)" "reqs ?c1 = reqs (s_c s)" by (simp_all add: upd_pq_def)
  define ae where "ae = (\<lambda>r. if r \<in> set (pq_io (c_pq (s_c s) d)) then \<not> test_bit_req FR_LOCKED r (s_c s) else s_ae s r)"
  have dis: "distinct (pq_io (c_pq (s_c s) d))" using inv_lists(9)[OF inv] .
  have "(\<lambda>r. if r \<in> set (pq_io (c_pq (s_c s) d)) then FR_LOCKED \<notin> flags_of (reqs (s_c ?s1) r) else s_ae ?s1 r) = ae"
    by (simp add: ae_def test_bit_flags io fun_eq_iff)
  with abort_io_inv[OF inv1 io(2) dis] io obtain c
    where c: "abort_io d (pq_io (c_pq (s_c s) d)) ?c1 = Done c" and inv2: "sys_inv (s\<lparr>s_c := c, s_ae := ae\<rparr>)" by auto
  let ?s2 = "s\<lparr>s_c := c, s_ae := ae\<rparr>"
  have "sys_inv (?s2\<lparr>s_c := splice_processing d c, s_loc := to_end_loc (\<lambda>l. l = Some (In_processing d)) ?s2\<rparr>)"
    using splice_inv[OF inv2 distinct_buckets[OF inv2, of "[0..<FUSE_PQ_HASH_SIZE]" d]] set_buckets[OF inv2, of "[0..<FUSE_PQ_HASH_SIZE]" _ d]
    by (simp add: splice_processing_def all_processing_def atLeast0LessThan)
  moreover have "?s2\<lparr>s_c := splice_processing d c, s_loc := to_end_loc (\<lambda>l. l = Some (In_processing d)) ?s2\<rparr>
      = s\<lparr>s_c := splice_processing d c, s_ae := ae, s_loc := to_end_loc (\<lambda>l. l = Some (In_processing d)) s\<rparr>"
    by (simp add: to_end_loc_def fun_eq_iff)
  moreover have "abort_device d (s_c s) = Done (splice_processing d c)" using c io by (simp add: abort_device_def)
  ultimately show ?thesis by (simp add: step_abort_device_def ae_def)
qed

definition step_release :: "nat \<Rightarrow> sys \<Rightarrow> sys outcome" where
  "step_release d s = Done (s\<lparr>s_c := fuse_dev_release_start d (s_c s), s_loc := to_end_loc (\<lambda>l. l = Some (In_processing d)) s\<rparr>)"

lemma step_release_inv:
  assumes inv: "sys_inv s"
  shows "\<exists>s'. step_release d s = Done s' \<and> sys_inv s'"
  using splice_inv[OF inv distinct_buckets[OF inv, of "rev [0..<FUSE_PQ_HASH_SIZE]" d]] set_buckets[OF inv, of "rev [0..<FUSE_PQ_HASH_SIZE]" _ d]
  by (simp add: step_release_def fuse_dev_release_start_def atLeast0LessThan)

text \<open>The background queue is let go.\<close>

definition step_abort_background :: "sys \<Rightarrow> sys outcome" where
  "step_abort_background s = obind (abort_background (s_c s)) (\<lambda>c. Done (flushed c s))"

lemma step_abort_background_inv:
  assumes inv: "sys_inv s" and ids: "ids_left s (length (c_bg_queue (s_c s)))"
  shows "\<exists>s'. step_abort_background s = Done s' \<and> sys_inv s' \<and> c_bg_queue (s_c s') = []"
proof -
  let ?c = "(s_c s)\<lparr>c_blocked := False, c_max_background := 2 ^ 32 - 1\<rparr>"
  let ?s1 = "s\<lparr>s_c := ?c\<rparr>"
  have pre0: "pre {} s" using inv by (simp add: sys_inv_pre)
  have fr: "frame 0 s ?s1" by (simp add: frame_def)
  have "pre {} ?s1"
  proof (rule pre_upd[OF pre0 fr])
    have "sys_req_ok s 0" using inv by (simp add: sys_inv_def)
    then show "sys_req_ok ?s1 0" by (simp add: sys_req_ok_def)
    have "bucket_of (s_c ?s1) qo = bucket_of (s_c s) qo" for qo by (rule bucket_of_cong) simp
    then show "lists_moved 0 s ?s1" by (simp only: lists_moved_def) (simp add: pre_lists[OF pre0])
    have "active ?s1 0 = active s 0" by (simp add: active_def)
    from active_same[OF fr this] show "bg_counts ?s1" using pre0 by (simp add: pre_def bg_counts_def)
    show "uniq_ok ?s1" using pre0 by (intro uniq_ok_same[OF _ fr]) (simp_all add: pre_def numbered_def uniq_of_def)
  qed simp_all
  moreover have "ids_left ?s1 (length (c_bg_queue (s_c ?s1)))" using ids by (simp add: ids_left_def)
  ultimately obtain c where c: "flush_bg_queue ?c = Done c" and p: "pre {} (flushed c ?s1)" and f: "flush_same ?c c"
      and lim: "c_bg_queue c \<noteq> [] \<longrightarrow> c_max_background c \<le> c_active_background c"
    using flush_bg_queue_pre[of "{}" ?s1] by auto
  have fl: "flushed c ?s1 = flushed c s" by (rule flushed_cong) simp_all
  have cnt: "bg_counts (flushed c s)" using p unfolding fl by (simp add: pre_def)
  then have "c_active_background c < 2 ^ 32 - 1" "c_num_background c < 2 ^ 32 - 1" by (simp_all add: bg_counts_def flushed_def)
  moreover have m: "c_max_background c = 2 ^ 32 - 1" "\<not> c_blocked c" using f by (simp_all add: flush_same_def)
  ultimately have "bg_limits c" and nil: "c_bg_queue c = []" using lim by (auto simp: bg_limits_def)
  then have "sys_inv (flushed c s)" using p unfolding fl by (simp add: sys_inv_pre flushed_def)
  then show ?thesis using c nil by (simp add: step_abort_background_def abort_background_def flushed_def)
qed

text \<open>The input queue is emptied.\<close>

definition step_abort_iqueue :: "sys \<Rightarrow> sys outcome" where
  "step_abort_iqueue s = Done (s\<lparr>s_c := abort_iqueue (s_c s), s_loc := to_end_loc (\<lambda>l. l = Some In_pending) s\<rparr>)"

lemma fold_clear_pending:
  "fold (clear_bit_req FR_PENDING) L c = c\<lparr>reqs := (\<lambda>r. if r \<in> set L then map_option (\<lambda>q. q\<lparr>r_flags := r_flags q - {FR_PENDING}\<rparr>) (reqs c r) else reqs c r)\<rparr>"
proof (induction L arbitrary: c)
  case (Cons a L)
  show ?case unfolding fold_simps comp_def Cons.IH
    by (auto simp: clear_bit_req_def upd_req_def fun_eq_iff option.map_comp comp_def)
qed simp

lemma live_unqueue:
  assumes "live_ok conn q (Some In_pending) ae w n i"
  shows "live_ok conn (q\<lparr>r_flags := r_flags q - {FR_PENDING}\<rparr>) (Some In_to_end) ae w n i"
proof -
  have "\<not> unsent w" "\<not> ae" "FR_PRIVATE \<notin> r_flags q" using liveD(7,8,10)[OF assms] by (auto simp: at_dev_def)
  then show ?thesis using assms by (simp add: live_ok_def private_ok_def tokens_def ghost_defs)
qed

lemma step_abort_iqueue_inv:
  assumes inv: "sys_inv s"
  shows "\<exists>s'. step_abort_iqueue s = Done s' \<and> sys_inv s'"
proof -
  let ?s' = "s\<lparr>s_c := abort_iqueue (s_c s), s_loc := to_end_loc (\<lambda>l. l = Some In_pending) s\<rparr>"
  note ab = abort_iqueue_def fold_clear_pending
  have pend: "r \<in> set (iq_pending (s_c s)) \<longleftrightarrow> s_loc s r = Some In_pending" for r using inv_lists(2)[OF inv] .
  have reqs: "reqs (s_c ?s') r = (if s_loc s r = Some In_pending then map_option (\<lambda>q. q\<lparr>r_flags := r_flags q - {FR_PENDING}\<rparr>) (reqs (s_c s) r) else reqs (s_c s) r)" for r
    by (simp add: ab pend)
  have same: "c_pq (s_c ?s') = c_pq (s_c s)" "iq_interrupts (s_c ?s') = iq_interrupts (s_c s)" "c_bg_queue (s_c ?s') = c_bg_queue (s_c s)"
    "iq_pending (s_c ?s') = []" "c_to_end (s_c ?s') = c_to_end (s_c s) @ iq_pending (s_c s)" "c_hash_long (s_c ?s') = c_hash_long (s_c s)"
    by (simp_all add: ab)
  have b: "bucket_of (s_c ?s') (reqs (s_c ?s') r) = bucket_of (s_c s) (reqs (s_c s) r)" for r
    unfolding bucket_of_cong[OF same(6)] reqs by (simp add: bucket_of_def split: option.split)
  have fl: "FR_PENDING \<noteq> x \<Longrightarrow> x \<in> flags_of (reqs (s_c ?s') r) \<longleftrightarrow> x \<in> flags_of (reqs (s_c s) r)" for x r
    unfolding reqs by (auto simp: flags_of_def split: option.split)
  have dev: "at_dev e (s_loc ?s' r) = at_dev e (s_loc s r)" for e r by (simp add: to_end_loc_def at_dev_def)
  have "sys_inv ?s'"
  proof (rule bulk_inv[OF inv])
    show "sys_req_ok ?s' r" for r
    proof -
      have "sys_req_ok s r" using inv by (simp add: sys_inv_def)
      then show ?thesis unfolding sys_req_ok_def same reqs
        by (cases "s_loc s r = Some In_pending"; cases "reqs (s_c s) r") (simp_all add: to_end_loc_def req_ok_def tokens_def live_unqueue)
    qed
    have nae: "\<not> s_ae s r" if l: "s_loc s r = Some In_pending" for r
    proof -
      obtain q where "live_ok (\<lambda>d. pq_connected (c_pq (s_c s) d)) q (s_loc s r) (s_ae s r) (s_wait s r)
        (s_sent s r) (r \<in> set (iq_interrupts (s_c s)))" using inv_live[OF inv] l by blast
      from liveD(7,8)[OF this] l show ?thesis by (auto simp: at_dev_def)
    qed
    have lists: "lists_ok s" using inv by (simp add: sys_inv_def)
    show "lists_ok ?s'" unfolding lists_ok_def
    proof (intro conjI allI)
      show "queue_ok (c_bg_queue (s_c ?s')) (\<lambda>r. s_loc ?s' r = Some In_bg)"
        unfolding same using lists by (auto simp: lists_ok_def to_end_loc_def elim: queue_ok_cong)
      show "queue_ok (iq_pending (s_c ?s')) (\<lambda>r. s_loc ?s' r = Some In_pending)"
        unfolding same by (simp add: queue_ok_def to_end_loc_def)
      show "queue_ok (c_to_end (s_c ?s')) (\<lambda>r. s_loc ?s' r = Some In_to_end \<or> s_ae ?s' r)"
      proof -
        have "queue_ok (c_to_end (s_c s)) (\<lambda>r. s_loc s r = Some In_to_end \<or> s_ae s r)" using lists by (simp add: lists_ok_def)
        from queue_ok_append[OF this inv_lists(7)[OF inv] pend] show ?thesis unfolding same using nae by (simp add: to_end_loc_def)
      qed
      show "queue_ok (pq_io (c_pq (s_c ?s') e)) (\<lambda>r. at_dev e (s_loc ?s' r) \<and> FR_PRIVATE \<notin> flags_of (reqs (s_c ?s') r))" for e
        unfolding dev same using lists fl by (simp add: lists_ok_def)
      show "queue_ok (pq_processing (c_pq (s_c ?s') e) h)
          (\<lambda>r. s_loc ?s' r = Some (In_processing e) \<and> bucket_of (s_c ?s') (reqs (s_c ?s') r) = h)" for e h
      proof -
        have "queue_ok (pq_processing (c_pq (s_c s) e) h) (\<lambda>r. s_loc s r = Some (In_processing e) \<and> bucket_of (s_c s) (reqs (s_c s) r) = h)"
          using lists by (simp add: lists_ok_def)
        then show ?thesis unfolding b same by (auto simp: to_end_loc_def elim: queue_ok_cong)
      qed
      have "{r. reqs (s_c ?s') r \<noteq> None} = {r. reqs (s_c s) r \<noteq> None}" unfolding reqs by simp
      then show "finite {r. reqs (s_c ?s') r \<noteq> None}" using lists by (simp add: lists_ok_def)
    qed (use lists in \<open>simp_all add: lists_ok_def ab\<close>)
    show "active ?s' r = active s r" for r using fl[of FR_BACKGROUND r] by (simp add: active_def to_end_loc_def)
    show "numbered ?s' r \<Longrightarrow> numbered s r \<and> uniq_of (s_c ?s') r = uniq_of (s_c s) r" for r
      using fl[of FR_ISREPLY r] reqs[of r] by (auto simp: numbered_def uniq_of_def to_end_loc_def split: if_splits option.splits)
  qed (simp add: same_counts_def same_bg_def ab)
  then show ?thesis by (simp add: step_abort_iqueue_def)
qed


subsection \<open>The remaining steps\<close>

definition step_abort_start :: "sys \<Rightarrow> sys outcome" where
  "step_abort_start s = Done (s\<lparr>s_c := fuse_set_initialized ((s_c s)\<lparr>c_connected := False\<rparr>)\<rparr>)"

lemma step_abort_start_inv: "sys_inv s \<Longrightarrow> \<exists>s'. step_abort_start s = Done s' \<and> sys_inv s'"
  unfolding step_abort_start_def fuse_set_initialized_def
  by (intro exI conjI, rule refl, rule sys_inv_irrelevant) (simp_all add: same_counts_def same_bg_def)

text \<open>A reader takes the first interrupt of the queue.\<close>

definition step_read_interrupt :: "int \<Rightarrow> nat \<Rightarrow> nat \<Rightarrow> sys \<Rightarrow> sys outcome" where
  "step_read_interrupt copy_err nbytes r s = obind (fuse_read_interrupt copy_err nbytes r (s_c s)) (\<lambda>(res, msg, c). Done (s\<lparr>s_c := c\<rparr>))"

lemma live_no_intr: "live_ok conn q l ae w n i \<Longrightarrow> live_ok conn q l ae w n False"
  by (simp add: live_ok_def)

lemma step_read_interrupt_inv:
  assumes inv: "sys_inv s" and r: "r \<in> set (iq_interrupts (s_c s))"
  shows "\<exists>s'. step_read_interrupt copy_err nbytes r s = Done s' \<and> sys_inv s'"
proof -
  obtain q where q: "reqs (s_c s) r = Some q" and ok: "live_ok (\<lambda>d. pq_connected (c_pq (s_c s) d)) q (s_loc s r) (s_ae s r) (s_wait s r)
     (s_sent s r) (r \<in> set (iq_interrupts (s_c s)))" using inv_live[OF inv] r by blast
  let ?c = "(s_c s)\<lparr>iq_interrupts := remove1 r (iq_interrupts (s_c s))\<rparr>"
  have "sys_inv (s\<lparr>s_c := ?c\<rparr>)"
  proof (rule sys_inv_move[OF inv, of r])
    show "sys_req_ok (s\<lparr>s_c := ?c\<rparr>) r" using live_no_intr[OF ok] inv_lists(11)[OF inv] by (simp add: sys_req_ok_def req_ok_def q)
    show "lists_moved r s (s\<lparr>s_c := ?c\<rparr>)" by (simp add: lists_moved_def inv_lists[OF inv] q fuse_req_hash_def)
  qed (simp_all add: frame_def same_counts_def same_bg_def active_def numbered_def uniq_of_def)
  then show ?thesis by (auto simp: step_read_interrupt_def fuse_read_interrupt_def with_req_def q Let_def)
qed

text \<open>Forgets: queued by the inode code, read in batches. A forget uses up an id.\<close>

definition step_forget :: "64 word \<Rightarrow> 64 word \<Rightarrow> sys \<Rightarrow> sys outcome" where
  "step_forget ino nlookup s = Done (s\<lparr>s_c := fuse_queue_forget ino nlookup (s_c s)\<rparr>)"

lemma step_forget_inv: "sys_inv s \<Longrightarrow> \<exists>s'. step_forget ino nlookup s = Done s' \<and> sys_inv s'"
  unfolding step_forget_def fuse_queue_forget_def
  by (intro exI conjI, rule refl, rule sys_inv_irrelevant) (simp_all add: same_counts_def same_bg_def)

definition step_read_forget :: "int \<Rightarrow> nat \<Rightarrow> sys \<Rightarrow> sys outcome" where
  "step_read_forget copy_err nbytes s = obind (fuse_read_forget copy_err nbytes (s_c s)) (\<lambda>(res, msg, c). Done (s\<lparr>s_c := c\<rparr>))"

lemma forget_id_inv:
  assumes inv: "sys_inv s" and ids: "ids_left s 1"
  shows "sys_inv (s\<lparr>s_c := (s_c s)\<lparr>iq_forgets := F, iq_reqctr := iq_reqctr (s_c s) + FUSE_REQ_ID_STEP\<rparr>\<rparr>)" (is "sys_inv ?s'")
proof -
  let ?s1 = "s\<lparr>s_c := (s_c s)\<lparr>iq_forgets := F\<rparr>\<rparr>"
  have inv1: "sys_inv ?s1" by (rule sys_inv_irrelevant[OF inv]) (simp_all add: same_counts_def same_bg_def)
  have u: "uniq_ok s" using inv by (simp add: sys_inv_def)
  then have "even (uint (iq_reqctr (s_c s)))" by (simp add: uniq_ok_def)
  note n = reqctr_next[OF _ this] 
  have lt: "iq_reqctr (s_c s) < iq_reqctr (s_c s) + FUSE_REQ_ID_STEP" "even (uint (iq_reqctr (s_c s) + FUSE_REQ_ID_STEP))"
    using n ids by (simp_all add: ids_left_def)
  have "uniq_ok ?s'" using u lt unfolding uniq_ok_def numbered_def uniq_of_def by (auto intro: order.trans[OF _ order.strict_implies_order])
  moreover have "sys_req_ok ?s' = sys_req_ok s" and a: "active ?s' = active s" by (simp_all add: fun_eq_iff sys_req_ok_def active_def)
  moreover have "lists_ok ?s'"
  proof -
    have b: "bucket_of (s_c ?s') qo = bucket_of (s_c s) qo" for qo by (rule bucket_of_cong) simp
    have "lists_ok s" using inv by (simp add: sys_inv_def)
    then show ?thesis unfolding lists_ok_def b by simp
  qed
  moreover have "bg_ok ?s'"
  proof -
    have "bg_ok s" using inv by (simp add: sys_inv_def)
    then show ?thesis unfolding bg_ok_def bg_counts_def bg_limits_def a by auto
  qed
  ultimately show ?thesis using inv by (simp add: sys_inv_def)
qed

lemma step_read_forget_inv:
  assumes inv: "sys_inv s" and f: "forget_pending (s_c s)" and ids: "ids_left s 1"
  shows "\<exists>s'. step_read_forget copy_err nbytes s = Done s' \<and> sys_inv s'"
proof -
  have ro: "c\<lparr>iq_reqctr := u, iq_forgets := F\<rparr> = c\<lparr>iq_forgets := F, iq_reqctr := u\<rparr>" for c :: fuse_conn and u F by simp
  have "sys_inv (s\<lparr>s_c := (s_c s)\<lparr>iq_forgets := iq_forgets (s_c s), iq_reqctr := iq_reqctr (s_c s) + FUSE_REQ_ID_STEP\<rparr>\<rparr>)"
    by (rule forget_id_inv[OF inv ids])
  then have no: "sys_inv (s\<lparr>s_c := (s_c s)\<lparr>iq_reqctr := iq_reqctr (s_c s) + FUSE_REQ_ID_STEP\<rparr>\<rparr>)" by simp
  obtain ino n F where "iq_forgets (s_c s) = (ino, n) # F" using f by (cases "iq_forgets (s_c s)") (auto simp: forget_pending_def)
  then show ?thesis using forget_id_inv[OF inv ids] no
    by (auto simp: step_read_forget_def fuse_read_forget_def fuse_read_single_forget_def fuse_read_batch_forget_def
      fuse_dequeue_forget_def fuse_get_unique_def Let_def ro)
qed

text \<open>A new device, at an address no request refers to.\<close>

definition device_free :: "nat \<Rightarrow> sys \<Rightarrow> bool" where
  "device_free d s \<longleftrightarrow> (\<forall>r. s_loc s r \<noteq> Some (In_processing d) \<and> \<not> at_dev d (s_loc s r))"

definition step_clone :: "bool \<Rightarrow> nat option \<Rightarrow> sys \<Rightarrow> sys outcome" where
  "step_clone installed newdev s = Done (s\<lparr>s_c := snd (fuse_device_clone installed newdev (s_c s))\<rparr>)"

lemma step_clone_inv:
  assumes inv: "sys_inv s" and new: "\<And>d. newdev = Some d \<Longrightarrow> device_free d s"
  shows "\<exists>s'. step_clone installed newdev s = Done s' \<and> sys_inv s'"
proof (cases "installed \<or> newdev = None")
  case True
  then show ?thesis using inv by (auto simp: step_clone_def fuse_device_clone_def)
next
  case False
  then obtain d where d: "newdev = Some d" "\<not> installed" by auto
  have free: "s_loc s r \<noteq> Some (In_processing d)" "\<not> at_dev d (s_loc s r)" for r using new[OF d(1)] by (simp_all add: device_free_def)
  let ?c = "(s_c s)\<lparr>c_devices := c_devices (s_c s) @ [d], c_pq := (c_pq (s_c s))(d := empty_pqueue), c_dev_count := c_dev_count (s_c s) + 1\<rparr>"
  let ?s' = "s\<lparr>s_c := ?c\<rparr>"
  have "sys_inv ?s'"
  proof (rule bulk_inv[OF inv])
    show "sys_req_ok ?s' r" for r
    proof -
      have "at_dev e (s_loc s r) \<and> \<not> pq_connected (c_pq ?c e) \<longleftrightarrow> at_dev e (s_loc s r) \<and> \<not> pq_connected (c_pq (s_c s) e)" for e
        using free(2)[of r] by (cases "e = d") simp_all
      then have p: "private_ok (\<lambda>e. pq_connected (c_pq ?c e)) F (s_loc s r) = private_ok (\<lambda>e. pq_connected (c_pq (s_c s) e)) F (s_loc s r)" for F
        by (simp only: private_ok_def)
      have "sys_req_ok s r" using inv by (simp add: sys_inv_def)
      moreover have "sys_req_ok ?s' r = req_ok (\<lambda>e. pq_connected (c_pq ?c e)) (reqs (s_c s) r) (s_loc s r) (s_ae s r) (s_wait s r)
        (s_sent s r) (r \<in> set (iq_interrupts (s_c s)))" by (simp add: sys_req_ok_def)
      ultimately show ?thesis by (simp only: sys_req_ok_def req_ok_def live_ok_def p)
    qed
    have lists: "lists_ok s" using inv by (simp add: sys_inv_def)
    have b: "bucket_of (s_c ?s') qo = bucket_of (s_c s) qo" for qo by (rule bucket_of_cong) simp
    show "lists_ok ?s'" unfolding lists_ok_def b
    proof (intro conjI allI)
      show "queue_ok (pq_io (c_pq (s_c ?s') e)) (\<lambda>r. at_dev e (s_loc ?s' r) \<and> FR_PRIVATE \<notin> flags_of (reqs (s_c ?s') r))" for e
        using lists free by (cases "e = d") (simp_all add: lists_ok_def empty_pqueue_def queue_ok_def)
      show "queue_ok (pq_processing (c_pq (s_c ?s') e) h) (\<lambda>r. s_loc ?s' r = Some (In_processing e) \<and> bucket_of (s_c s) (reqs (s_c ?s') r) = h)" for e h
        using lists free by (cases "e = d") (simp_all add: lists_ok_def empty_pqueue_def queue_ok_def)
    qed (use lists in \<open>simp_all add: lists_ok_def\<close>)
  qed (simp_all add: same_counts_def same_bg_def active_def numbered_def uniq_of_def)
  then show ?thesis using d by (simp add: step_clone_def fuse_device_clone_def)
qed


subsection \<open>The system\<close>

text \<open>
  One step of any thread. The result of a step is \<open>Aborted\<close> when it follows a pointer to freed memory,
  drops a reference that is not there, or runs into a \<open>BUG_ON\<close>. A request is allocated at an address
  that is not in use. What each rule asks for is what its thread holds: an allocating thread its own
  request, a device thread the request it took, an abort the list \<open>to_end\<close>. The rules that give out ids
  ask that the 64-bit counter does not wrap around in them (\<open>ids_left\<close>), and the rule for background requests that
  their 32-bit counter stays below its limit.
\<close>

inductive sys_step :: "sys \<Rightarrow> sys outcome \<Rightarrow> bool" where
  get: "reqs (s_c s) r = None \<Longrightarrow> sys_step s (step_get killed r uid gid pid bg s)"
| force: "reqs (s_c s) r = None \<Longrightarrow> sys_step s (step_force r bg s)"
| args: "s_wait s r = Some Fresh \<Longrightarrow> sys_step s (step_args r a isreply s)"
| send: "s_wait s r = Some Fresh \<Longrightarrow> \<not> test_bit_req FR_BACKGROUND r (s_c s) \<Longrightarrow> ids_left s 1 \<Longrightarrow> sys_step s (step_send r s)"
| notify: "s_wait s r = Some Fresh \<Longrightarrow> \<not> test_bit_req FR_BACKGROUND r (s_c s) \<Longrightarrow> sys_step s (step_notify r a unique s)"
| background: "s_wait s r = Some Fresh \<Longrightarrow> test_bit_req FR_BACKGROUND r (s_c s) \<Longrightarrow> c_num_background (s_c s) + 1 < 2 ^ 32 - 1 \<Longrightarrow>
    ids_left s (length (c_bg_queue (s_c s)) + 1) \<Longrightarrow> sys_step s (step_background r s)"
| interrupt: "s_wait s r = Some Waiting \<Longrightarrow> sys_step s (step_interrupt r s)"
| kill: "s_wait s r = Some Waiting \<Longrightarrow> sys_step s (step_kill r s)"
| put: "unsent (s_wait s r) \<or> s_wait s r = Some Waiting \<and> test_bit_req FR_FINISHED r (s_c s) \<Longrightarrow> sys_step s (step_put r s)"
| take: "sys_step s (step_take d s)"
| io: "s_loc s r = Some (Taken d) \<Longrightarrow> sys_step s (step_io d nbytes r s)"
| lock: "at_dev d (s_loc s r) \<Longrightarrow> sys_step s (step_lock lck r s)"
| read_finish: "s_loc s r = Some (Reading d) \<Longrightarrow> sys_step s (step_read_finish d err r s)"
| sent: "0 < s_sent s r \<Longrightarrow> sys_step s (step_sent r s)"
| read_interrupt: "iq_interrupts (s_c s) = r # rs \<Longrightarrow> sys_step s (step_read_interrupt copy_err nbytes r s)"
| read_forget: "forget_pending (s_c s) \<Longrightarrow> ids_left s 1 \<Longrightarrow> sys_step s (step_read_forget copy_err nbytes s)"
| write_reply: "sys_step s (step_write d oh nbytes s)"
| write_finish: "s_loc s r = Some (Writing d) \<Longrightarrow> sys_step s (step_write_finish d err nbytes r s)"
| end_request: "s_loc s r = Some Ending \<Longrightarrow> ids_left s (length (c_bg_queue (s_c s))) \<Longrightarrow> sys_step s (step_end r s)"
| forget: "sys_step s (step_forget ino nlookup s)"
| abort_start: "sys_step s (step_abort_start s)"
| abort_device: "sys_step s (step_abort_device d s)"
| abort_bg: "ids_left s (length (c_bg_queue (s_c s))) \<Longrightarrow> sys_step s (step_abort_background s)"
| abort_iq: "sys_step s (step_abort_iqueue s)"
| end_one: "r \<in> set (c_to_end (s_c s)) \<Longrightarrow> ids_left s (length (c_bg_queue (s_c s))) \<Longrightarrow> sys_step s (step_end_one r s)"
| release: "sys_step s (step_release d s)"
| clone: "(\<And>d. newdev = Some d \<Longrightarrow> device_free d s) \<Longrightarrow> sys_step s (step_clone installed newdev s)"

lemma sys_step_inv:
  assumes "sys_step s out" and "sys_inv s"
  shows "\<exists>s'. out = Done s' \<and> sys_inv s'"
  using assms
proof (induction rule: sys_step.induct)
  case (abort_bg s) then show ?case using step_abort_background_inv by blast
next
  case (background s r) then show ?case using step_background_inv by (simp add: test_bit_flags)
next
  case (send s r) then show ?case using step_send_inv by (simp add: test_bit_flags)
next
  case (notify s r) then show ?case using step_notify_inv by (simp add: test_bit_flags)
next
  case (put s r) then show ?case using step_put_inv by (simp add: test_bit_flags)
next
  case (read_interrupt s r rs copy_err nbytes) then show ?case using step_read_interrupt_inv[of s r] by simp
qed (blast intro: step_get_inv step_force_inv step_args_inv step_interrupt_inv step_kill_inv step_take_inv step_io_inv
  step_lock_inv step_read_finish_inv step_sent_inv step_read_forget_inv step_write_inv step_write_finish_inv step_end_inv
  step_forget_inv step_abort_start_inv step_abort_device_inv step_abort_iqueue_inv step_end_one_inv step_release_inv step_clone_inv)+

text \<open>A connection as \<open>fuse_conn_init\<close> leaves it, with one device.\<close>

definition new_conn :: "(64 word \<Rightarrow> nat \<Rightarrow> nat) \<Rightarrow> nat \<Rightarrow> fuse_conn" where
  "new_conn hash d = \<lparr>reqs = (\<lambda>_. None), c_initialized = False, c_connected = True, c_conn_error = False, c_aborted = False,
     c_blocked = False, c_no_interrupt = False, c_minor = 0, c_max_write = 0, c_num_waiting = 0, c_max_background = 12,
     c_num_background = 0, c_active_background = 0, c_bg_queue = [], iq_connected = True, iq_reqctr = 0, iq_pending = [],
     iq_interrupts = [], iq_forgets = [], iq_forget_batch = 0, c_devices = [d], c_pq = (\<lambda>_. empty_pqueue), c_dev_count = 1,
     c_to_end = [], c_done = [], c_hash_long = hash\<rparr>"

definition sys_start :: "fuse_conn \<Rightarrow> sys" where
  "sys_start c = \<lparr>s_c = c, s_loc = (\<lambda>_. None), s_ae = (\<lambda>_. False), s_wait = (\<lambda>_. None), s_sent = (\<lambda>_. 0)\<rparr>"

text \<open>States reached by steps of the threads, by the reply to \<open>FUSE_INIT\<close>, which sets the limit of background
  requests while there are none (\<open>process_init_limits\<close>), and by changes of fields that carry no invariant.\<close>

inductive sys_reach :: "(64 word \<Rightarrow> nat \<Rightarrow> nat) \<Rightarrow> sys \<Rightarrow> bool" for hash where
  start: "sys_reach hash (sys_start (new_conn hash d))"
| step: "sys_reach hash s \<Longrightarrow> sys_step s (Done s') \<Longrightarrow> sys_reach hash s'"
| init_limit: "sys_reach hash s \<Longrightarrow> c_num_background (s_c s) = 0 \<Longrightarrow> 0 < m \<Longrightarrow> sys_reach hash (s\<lparr>s_c := (s_c s)\<lparr>c_max_background := m\<rparr>\<rparr>)"
| conf: "sys_reach hash s \<Longrightarrow> sys_reach hash (s\<lparr>s_c := (s_c s)\<lparr>c_initialized := i, c_conn_error := e, c_aborted := ab, c_minor := m, c_max_write := w\<rparr>\<rparr>)"

lemma start_inv:
  assumes "\<And>u. hash u FUSE_PQ_HASH_BITS < FUSE_PQ_HASH_SIZE"
  shows "sys_inv (sys_start (new_conn hash d))"
  using assms by (simp add: sys_inv_def sys_start_def new_conn_def sys_req_ok_def req_ok_def tokens_def lists_ok_def queue_ok_def
    empty_pqueue_def bg_ok_def bg_counts_def bg_limits_def active_def uniq_ok_def numbered_def)

lemma limit_inv:
  assumes inv: "sys_inv s" and "c_num_background (s_c s) = 0" and "0 < m"
  shows "sys_inv (s\<lparr>s_c := (s_c s)\<lparr>c_max_background := m\<rparr>\<rparr>)" (is "sys_inv ?s'")
proof -
  have "sys_req_ok ?s' = sys_req_ok s" and a: "active ?s' = active s" by (simp_all add: fun_eq_iff sys_req_ok_def active_def)
  moreover have "lists_ok ?s'"
  proof -
    have b: "bucket_of (s_c ?s') qo = bucket_of (s_c s) qo" for qo by (rule bucket_of_cong) simp
    have "lists_ok s" using inv by (simp add: sys_inv_def)
    then show ?thesis unfolding lists_ok_def b by simp
  qed
  moreover have "bg_ok ?s'"
  proof -
    have "bg_ok s" using inv by (simp add: sys_inv_def)
    then show ?thesis using assms(2,3) unfolding bg_ok_def bg_counts_def bg_limits_def a by auto
  qed
  moreover have "uniq_ok ?s'"
  proof -
    have "uniq_ok s" using inv by (simp add: sys_inv_def)
    then show ?thesis unfolding uniq_ok_def numbered_def uniq_of_def by simp
  qed
  ultimately show ?thesis using inv by (simp add: sys_inv_def)
qed

lemma reach_inv:
  assumes "sys_reach hash s" and h: "\<And>u. hash u FUSE_PQ_HASH_BITS < FUSE_PQ_HASH_SIZE"
  shows "sys_inv s"
  using assms(1)
proof (induction rule: sys_reach.induct)
  case (start d) then show ?case using start_inv[of hash, OF h] .
next
  case (step s s') then show ?case using sys_step_inv by blast
next
  case (init_limit s m) then show ?case using limit_inv by blast
next
  case (conf s) then show ?case by (intro sys_inv_irrelevant) (simp_all add: same_counts_def same_bg_def)
qed


subsection \<open>An abort ends every request\<close>

text \<open>The ghost state after an abort of the devices \<open>ds\<close>.\<close>

lemma abort_device_facts:
  assumes "abort_device d c = Done c'"
  shows "c_bg_queue c' = c_bg_queue c" "iq_reqctr c' = iq_reqctr c" "c_devices c' = c_devices c"
proof -
  have io: "c_bg_queue c2 = c_bg_queue c1 \<and> iq_reqctr c2 = iq_reqctr c1 \<and> c_devices c2 = c_devices c1"
    if "abort_io d rs c1 = Done c2" for rs c1 c2
    using that
  proof (induction rs arbitrary: c1)
    case (Cons r rs)
    then obtain q where "reqs c1 r = Some q" by (auto simp: with_req_def split: option.splits)
    with Cons show ?case by (simp only: abort_io_Cons) (auto simp: abort_one_def split: if_splits)
  qed simp
  obtain c2 where c2: "abort_io d (pq_io (c_pq c d)) (upd_pq d (\<lambda>pq. pq\<lparr>pq_connected := False\<rparr>) c) = Done c2" "c' = splice_processing d c2"
    using assms by (cases "abort_io d (pq_io (c_pq c d)) (upd_pq d (\<lambda>pq. pq\<lparr>pq_connected := False\<rparr>) c)") (auto simp: abort_device_def upd_pq_def)
  with io[OF c2(1)] show "c_bg_queue c' = c_bg_queue c" "iq_reqctr c' = iq_reqctr c" "c_devices c' = c_devices c"
    by (simp_all add: splice_processing_def upd_pq_def)
qed

lemma abort_devices_inv:
  assumes "sys_inv s"
  shows "\<exists>s'. abort_devices ds (s_c s) = Done (s_c s') \<and> sys_inv s' \<and> c_bg_queue (s_c s') = c_bg_queue (s_c s) \<and>
     iq_reqctr (s_c s') = iq_reqctr (s_c s) \<and>
     s_loc s' = to_end_loc (\<lambda>l. \<exists>d\<in>set ds. l = Some (In_processing d)) s"
  using assms
proof (induction ds arbitrary: s)
  case Nil
  then show ?case by (intro exI[of _ s]) (simp add: to_end_loc_def fun_eq_iff)
next
  case (Cons d ds)
  obtain s1 where s1: "step_abort_device d s = Done s1" and i1: "sys_inv s1" using step_abort_device_inv[OF Cons.prems] by blast
  then have c1: "abort_device d (s_c s) = Done (s_c s1)" and l1: "s_loc s1 = to_end_loc (\<lambda>l. l = Some (In_processing d)) s"
    by (cases "abort_device d (s_c s)"; auto simp: step_abort_device_def)+
  from Cons.IH[OF i1] obtain s' where s': "abort_devices ds (s_c s1) = Done (s_c s')" "sys_inv s'"
    "c_bg_queue (s_c s') = c_bg_queue (s_c s1)" "iq_reqctr (s_c s') = iq_reqctr (s_c s1)"
    "s_loc s' = to_end_loc (\<lambda>l. \<exists>d\<in>set ds. l = Some (In_processing d)) s1" by blast
  have "s_loc s' = to_end_loc (\<lambda>l. \<exists>d\<in>set (d # ds). l = Some (In_processing d)) s"
    unfolding s'(5) by (auto simp: to_end_loc_def l1 fun_eq_iff)
  then show ?case using s' c1 abort_device_facts[OF c1] by (intro exI[of _ s']) simp
qed

text \<open>Ending a request when no background request waits: only the request itself and counters change.\<close>

lemma put_frame:
  assumes "fuse_put_request r c = Done c'"
  shows "c_bg_queue c' = c_bg_queue c \<and> iq_pending c' = iq_pending c \<and> c_pq c' = c_pq c \<and> c_to_end c' = c_to_end c \<and>
    (\<forall>x. x \<noteq> r \<longrightarrow> reqs c' x = reqs c x) \<and> (\<forall>q'. reqs c' r = Some q' \<longrightarrow> (\<exists>q. reqs c r = Some q \<and> r_flags q' = r_flags q))"
  using assms by (auto simp: fuse_put_request_def kdefs split: option.splits if_splits)

lemma request_end_frame:
  assumes e: "fuse_request_end r c = Done c'" and bg: "c_bg_queue c = []"
  shows "c_bg_queue c' = [] \<and> iq_pending c' = iq_pending c \<and> c_pq c' = c_pq c \<and> c_to_end c' = c_to_end c \<and>
    (\<forall>x. x \<noteq> r \<longrightarrow> reqs c' x = reqs c x) \<and> (\<forall>q'. reqs c' r = Some q' \<longrightarrow> FR_FINISHED \<in> r_flags q')"
proof -
  obtain q where q: "reqs c r = Some q" using e by (auto simp: fuse_request_end_def with_req_def split: option.splits)
  show ?thesis
  proof (cases "FR_FINISHED \<in> r_flags q")
    case True
    then have "fuse_put_request r c = Done c'" using e q by (simp add: fuse_request_end_def with_req_def)
    from put_frame[OF this] show ?thesis using bg q True by auto
  next
    case False
    define c1 where "c1 = set_bit_req FR_FINISHED r c"
    define c2 where "c2 = (if FR_INTERRUPTED \<in> r_flags q then c1\<lparr>iq_interrupts := remove1 r (iq_interrupts c1)\<rparr> else c1)"
    define c4 where "c4 = (let c3 = clear_bit_req FR_BACKGROUND r c2;
                       c4 = (if c_num_background c3 = c_max_background c3 then c3\<lparr>c_blocked := False\<rparr> else c3)
                   in c4\<lparr>c_num_background := u32_sub (c_num_background c4) 1, c_active_background := u32_sub (c_active_background c4) 1\<rparr>)"
    define c5 where "c5 = (if FR_BACKGROUND \<in> r_flags q then c4 else c2)"
    have c2: "c_bg_queue c2 = [] \<and> iq_pending c2 = iq_pending c \<and> c_pq c2 = c_pq c \<and> c_to_end c2 = c_to_end c \<and>
      (\<forall>x. x \<noteq> r \<longrightarrow> reqs c2 x = reqs c x) \<and> (\<exists>q'. reqs c2 r = Some q' \<and> FR_FINISHED \<in> r_flags q')"
      using bg q by (simp add: c2_def c1_def kdefs)
    then have c4: "c_bg_queue c4 = [] \<and> iq_pending c4 = iq_pending c \<and> c_pq c4 = c_pq c \<and> c_to_end c4 = c_to_end c \<and>
      (\<forall>x. x \<noteq> r \<longrightarrow> reqs c4 x = reqs c x) \<and> (\<exists>q'. reqs c4 r = Some q' \<and> FR_FINISHED \<in> r_flags q')"
      by (auto simp: c4_def Let_def kdefs)
    have fl: "flush_bg_queue c4 = Done c4" using c4 by (simp add: flush_bg_queue_def)
    have "fuse_request_end r c = fuse_put_request r (if FR_ASYNC \<in> r_flags q then c5\<lparr>c_done := c_done c5 @ [(r, out_error q)]\<rparr> else c5)"
      using q False fl unfolding c4_def c2_def c1_def c5_def Let_def by (simp add: fuse_request_end_def with_req_def Let_def)
    with e have "fuse_put_request r (if FR_ASYNC \<in> r_flags q then c5\<lparr>c_done := c_done c5 @ [(r, out_error q)]\<rparr> else c5) = Done c'" by simp
    from put_frame[OF this] show ?thesis using c2 c4 by (auto simp: c5_def split: if_splits)
  qed
qed

lemma end_one_frame:
  assumes e: "end_one_request r c = Done c'" and bg: "c_bg_queue c = []"
  shows "c_bg_queue c' = [] \<and> iq_pending c' = iq_pending c \<and> c_pq c' = c_pq c \<and> c_to_end c' = remove1 r (c_to_end c) \<and>
    (\<forall>x. x \<noteq> r \<longrightarrow> reqs c' x = reqs c x) \<and> (\<forall>q'. reqs c' r = Some q' \<longrightarrow> FR_FINISHED \<in> r_flags q')"
proof -
  obtain q where q: "reqs c r = Some q" using e by (auto simp: end_one_request_def with_req_def split: option.splits)
  let ?c = "clear_bit_req FR_SENT r (set_error (- ECONNABORTED) r (c\<lparr>c_to_end := remove1 r (c_to_end c)\<rparr>))"
  have "fuse_request_end r ?c = Done c'" using e q by (simp add: end_one_request_def with_req_def)
  from request_end_frame[OF this] bg show ?thesis by (simp add: kdefs)
qed


lemma end_requests_inv:
  assumes "sys_inv s" and "c_bg_queue (s_c s) = []" and "rs = c_to_end (s_c s)"
  shows "\<exists>s'. end_requests rs (s_c s) = Done (s_c s') \<and> sys_inv s' \<and> c_bg_queue (s_c s') = [] \<and> iq_pending (s_c s') = iq_pending (s_c s) \<and>
     c_pq (s_c s') = c_pq (s_c s) \<and> c_to_end (s_c s') = [] \<and> (\<forall>x. x \<notin> set rs \<longrightarrow> reqs (s_c s') x = reqs (s_c s) x) \<and>
     (\<forall>x\<in>set rs. \<forall>q. reqs (s_c s') x = Some q \<longrightarrow> FR_FINISHED \<in> r_flags q)"
  using assms
proof (induction rs arbitrary: s)
  case Nil
  then show ?case by (intro exI[of _ s]) simp
next
  case (Cons r rs)
  have te: "c_to_end (s_c s) = r # rs" using Cons.prems(3) by simp
  have ids: "ids_left s (length (c_bg_queue (s_c s)))" using Cons.prems(2) uint_lt2p[of "iq_reqctr (s_c s)"] by (simp add: ids_left_def)
  obtain s1 where s1: "step_end_one r s = Done s1" and i1: "sys_inv s1"
    using step_end_one_inv[OF Cons.prems(1) _ ids, of r] te by auto
  then have c1: "end_one_request r (s_c s) = Done (s_c s1)"
    by (cases "end_one_request r (s_c s)") (auto simp: step_end_one_def flushed_def)
  note f = end_one_frame[OF c1 Cons.prems(2)]
  have "c_bg_queue (s_c s1) = []" "rs = c_to_end (s_c s1)" using f te by simp_all
  from Cons.IH[OF i1 this] obtain s' where s': "end_requests rs (s_c s1) = Done (s_c s')" "sys_inv s'" "c_bg_queue (s_c s') = []"
    "iq_pending (s_c s') = iq_pending (s_c s1)" "c_pq (s_c s') = c_pq (s_c s1)" "c_to_end (s_c s') = []"
    "\<forall>x. x \<notin> set rs \<longrightarrow> reqs (s_c s') x = reqs (s_c s1) x" "\<forall>x\<in>set rs. \<forall>q. reqs (s_c s') x = Some q \<longrightarrow> FR_FINISHED \<in> r_flags q" by blast
  have "r \<notin> set rs" using inv_lists(8)[OF Cons.prems(1)] te by simp
  then show ?case using s' f c1 by (intro exI[of _ s']) simp
qed

lemma fuse_abort_conn_inv:
  assumes inv: "sys_inv s" and conn: "c_connected (s_c s)" and ids: "ids_left s (length (c_bg_queue (s_c s)))"
    and dev: "\<And>d h. d \<notin> set (c_devices (s_c s)) \<Longrightarrow> pq_processing (c_pq (s_c s) d) h = []"
  obtains s' where "fuse_abort_conn (s_c s) = Done (s_c s')" and "sys_inv s'" and "c_bg_queue (s_c s') = []" and "iq_pending (s_c s') = []"
    and "\<And>r. s_loc s r = Some In_bg \<or> s_loc s r = Some In_pending \<or> (\<exists>d. s_loc s r = Some (In_processing d)) \<Longrightarrow> s_loc s' r = Some In_to_end"
    and "\<And>r d. s_loc s' r \<noteq> Some (In_processing d)"
proof -
  let ?c0 = "fuse_set_initialized ((s_c s)\<lparr>c_connected := False\<rparr>)"
  let ?s0 = "s\<lparr>s_c := ?c0\<rparr>"
  have i0: "sys_inv ?s0" using step_abort_start_inv[OF inv] by (simp add: step_abort_start_def)
  have pl: "d \<in> set (c_devices (s_c s))" if l: "s_loc s r = Some (In_processing d)" for r d
  proof (rule ccontr)
    assume "d \<notin> set (c_devices (s_c s))"
    from dev[OF this] have "r \<notin> set (pq_processing (c_pq (s_c s) d) (bucket_of (s_c s) (reqs (s_c s) r)))" by simp
    then show False using inv_lists(5)[OF inv] l by blast
  qed
  obtain s1 where s1: "abort_devices (c_devices (s_c s)) ?c0 = Done (s_c s1)" and i1: "sys_inv s1"
    and b1: "c_bg_queue (s_c s1) = c_bg_queue (s_c s)" "iq_reqctr (s_c s1) = iq_reqctr (s_c s)"
    and l1: "s_loc s1 = to_end_loc (\<lambda>l. \<exists>d\<in>set (c_devices (s_c s)). l = Some (In_processing d)) ?s0"
    using abort_devices_inv[OF i0, of "c_devices (s_c s)"] by (auto simp: fuse_set_initialized_def)
  have "ids_left s1 (length (c_bg_queue (s_c s1)))" using ids b1 by (simp add: ids_left_def)
  then obtain s2 where s2: "step_abort_background s1 = Done s2" and i2: "sys_inv s2" and b2: "c_bg_queue (s_c s2) = []"
    using step_abort_background_inv[OF i1] by blast
  then obtain c2 where c2: "abort_background (s_c s1) = Done c2" "s2 = flushed c2 s1"
    by (cases "abort_background (s_c s1)") (auto simp: step_abort_background_def)
  obtain s3 where s3: "step_abort_iqueue s2 = Done s3" and i3: "sys_inv s3" using step_abort_iqueue_inv[OF i2] by blast
  then have c3: "s_c s3 = abort_iqueue c2" and l3: "s_loc s3 = to_end_loc (\<lambda>l. l = Some In_pending) s2"
    by (auto simp: step_abort_iqueue_def c2(2) flushed_def)
  have bg2: "c_bg_queue c2 = []" using b2 c2(2) by (simp add: flushed_def)
  have loc: "s_loc s3 r = (let l = s_loc s r in if l = Some In_bg \<or> l = Some In_pending \<or> (\<exists>d. l = Some (In_processing d)) then Some In_to_end else l)" for r
    using pl[of r] bg2 unfolding l3 to_end_loc_def c2(2) flushed_def l1 by (auto simp: Let_def)
  show ?thesis
  proof (rule that[of s3])
    show "fuse_abort_conn (s_c s) = Done (s_c s3)" using conn s1 c2 c3
      by (simp add: fuse_abort_conn_def fuse_set_initialized_def)
    show "c_bg_queue (s_c s3) = []" "iq_pending (s_c s3) = []"
      using bg2 unfolding c3 by (simp_all add: abort_iqueue_def fold_clear_pending)
    show "s_loc s3 r = Some In_to_end" if "s_loc s r = Some In_bg \<or> s_loc s r = Some In_pending \<or> (\<exists>d. s_loc s r = Some (In_processing d))" for r
      using that loc[of r] by (simp add: Let_def)
    show "s_loc s3 r \<noteq> Some (In_processing d)" for r d using loc[of r] by (auto simp: Let_def split: if_splits)
  qed (rule i3)
qed

subsection \<open>Properties\<close>


text \<open>Claim C3 (request_references). In every reachable state the count of a request is the number of its holders and positive,
  its place agrees with its flags, and each queue holds exactly the requests at that place, once: a request is never on
  two queues, never lost, and freed only when nobody refers to it.\<close>

theorem request_references:
  assumes "sys_reach hash s" and "\<And>u. hash u FUSE_PQ_HASH_BITS < FUSE_PQ_HASH_SIZE"
  shows "(case reqs (s_c s) r of
      None \<Rightarrow> s_loc s r = None \<and> \<not> s_ae s r \<and> s_wait s r = None \<and> s_sent s r = 0 \<and> r \<notin> set (iq_interrupts (s_c s))
    | Some q \<Rightarrow> 0 < r_count q \<and> r_count q = tokens (s_loc s r) (s_ae s r) (s_wait s r) (s_sent s r) \<and>
        (FR_PENDING \<in> r_flags q \<longleftrightarrow> r \<in> set (iq_pending (s_c s)) \<or> r \<in> set (c_bg_queue (s_c s)) \<or> unsent (s_wait s r)) \<and>
        (FR_SENT \<in> r_flags q \<longrightarrow> r \<in> set (c_to_end (s_c s)) \<or> (\<exists>d h. r \<in> set (pq_processing (c_pq (s_c s) d) h))) \<and>
        (FR_FINISHED \<in> r_flags q \<longrightarrow> s_loc s r = None \<or> FR_PRIVATE \<in> r_flags q)) \<and>
    distinct (iq_pending (s_c s)) \<and> distinct (c_bg_queue (s_c s)) \<and> distinct (c_to_end (s_c s)) \<and> distinct (iq_interrupts (s_c s)) \<and>
    set (iq_pending (s_c s)) \<inter> set (c_bg_queue (s_c s)) = {} \<and>
    (\<forall>d h d' h'. r \<in> set (pq_processing (c_pq (s_c s) d) h) \<and> r \<in> set (pq_processing (c_pq (s_c s) d') h') \<longrightarrow> d = d' \<and> h = h') \<and>
    (\<forall>d h. r \<in> set (pq_processing (c_pq (s_c s) d) h) \<longrightarrow> r \<notin> set (iq_pending (s_c s)) \<and> r \<notin> set (pq_io (c_pq (s_c s) d)))"
proof -
  have inv: "sys_inv s" by (rule reach_inv[OF assms])
  have "sys_req_ok s r" using inv by (simp add: sys_inv_def)
  note ok = this[unfolded sys_req_ok_def req_ok_def]
  have "case reqs (s_c s) r of
      None \<Rightarrow> s_loc s r = None \<and> \<not> s_ae s r \<and> s_wait s r = None \<and> s_sent s r = 0 \<and> r \<notin> set (iq_interrupts (s_c s))
    | Some q \<Rightarrow> 0 < r_count q \<and> r_count q = tokens (s_loc s r) (s_ae s r) (s_wait s r) (s_sent s r) \<and>
        (FR_PENDING \<in> r_flags q \<longleftrightarrow> r \<in> set (iq_pending (s_c s)) \<or> r \<in> set (c_bg_queue (s_c s)) \<or> unsent (s_wait s r)) \<and>
        (FR_SENT \<in> r_flags q \<longrightarrow> r \<in> set (c_to_end (s_c s)) \<or> (\<exists>d h. r \<in> set (pq_processing (c_pq (s_c s) d) h))) \<and>
        (FR_FINISHED \<in> r_flags q \<longrightarrow> s_loc s r = None \<or> FR_PRIVATE \<in> r_flags q)"
  proof (cases "reqs (s_c s) r")
    case None
    then show ?thesis using ok by (auto simp: tokens_def split: if_splits)
  next
    case (Some q)
    then have ok: "live_ok (\<lambda>d. pq_connected (c_pq (s_c s) d)) q (s_loc s r) (s_ae s r) (s_wait s r)
      (s_sent s r) (r \<in> set (iq_interrupts (s_c s)))" using ok by simp
    show ?thesis using liveD(1,2,3,4,6)[OF ok] Some by (auto simp: inv_lists[OF inv] queued_def)
  qed
  then show ?thesis using inv_lists[OF inv] by (auto simp: at_dev_def)
qed


text \<open>Claim C17 (reply_finds_request). A reply is matched to its request: looking up an id on a device finds a request exactly
  when one with that id is being processed there, in whatever bucket, and no other request that expects a reply has the same id.\<close>

theorem reply_finds_request:
  assumes "sys_reach hash s" and "\<And>u. hash u FUSE_PQ_HASH_BITS < FUSE_PQ_HASH_SIZE"
  shows "request_find d u (s_c s) = Some r \<longleftrightarrow>
    (\<exists>h q. r \<in> set (pq_processing (c_pq (s_c s) d) h) \<and> reqs (s_c s) r = Some q \<and> in_unique q = u)"
proof
  have inv: "sys_inv s" by (rule reach_inv[OF assms])
  assume "request_find d u (s_c s) = Some r"
  then show "\<exists>h q. r \<in> set (pq_processing (c_pq (s_c s) d) h) \<and> reqs (s_c s) r = Some q \<and> in_unique q = u"
    using inv_lists(5)[OF inv] by (elim request_find_loc[OF inv]) blast
next
  have inv: "sys_inv s" by (rule reach_inv[OF assms])
  assume "\<exists>h q. r \<in> set (pq_processing (c_pq (s_c s) d) h) \<and> reqs (s_c s) r = Some q \<and> in_unique q = u"
  then obtain h q where r: "r \<in> set (pq_processing (c_pq (s_c s) d) h)" "reqs (s_c s) r = Some q" "in_unique q = u" by blast
  have l: "s_loc s r = Some (In_processing d)" "fuse_req_hash (s_c s) (in_unique q) = h" using inv_lists(5)[OF inv, of r d h] r by auto
  let ?P = "\<lambda>r. case reqs (s_c s) r of Some q \<Rightarrow> in_unique q = u | None \<Rightarrow> False"
  have "find ?P (pq_processing (c_pq (s_c s) d) h) \<noteq> None" using r by (auto simp: find_None_iff split: option.splits)
  then obtain r' where r': "find ?P (pq_processing (c_pq (s_c s) d) h) = Some r'" by auto
  then have f: "request_find d u (s_c s) = Some r'" using l r by (simp add: request_find_def)
  then obtain q' where q': "reqs (s_c s) r' = Some q'" "in_unique q' = u" "s_loc s r' = Some (In_processing d)" by (rule request_find_loc[OF inv])
  have num: "numbered s x" if x: "s_loc s x = Some (In_processing d)" "reqs (s_c s) x = Some y" for x y
  proof -
    have "sys_req_ok s x" using inv by (simp add: sys_inv_def)
    then have "live_ok (\<lambda>d. pq_connected (c_pq (s_c s) d)) y (s_loc s x) (s_ae s x) (s_wait s x)
      (s_sent s x) (x \<in> set (iq_interrupts (s_c s)))" using x by (simp add: sys_req_ok_def req_ok_def)
    from liveD(13)[OF this, of d] x show ?thesis by (simp add: numbered_def)
  qed
  have "r = r'" using inv num[OF l(1) r(2)] num[OF q'(3,1)] r q' unfolding sys_inv_def uniq_ok_def uniq_of_def by auto
  then show "request_find d u (s_c s) = Some r" using f by simp
qed

text \<open>Claim C18 (background_throttling). The counters of background requests are exact, at most \<open>max_background\<close> of them are
  in flight, one is held back only when that many are, and senders of background requests are blocked exactly while the
  limit is reached.\<close>

theorem background_throttling:
  assumes "sys_reach hash s" and "\<And>u. hash u FUSE_PQ_HASH_BITS < FUSE_PQ_HASH_SIZE"
  shows "c_active_background (s_c s) = card {r. \<exists>q. reqs (s_c s) r = Some q \<and> FR_BACKGROUND \<in> r_flags q \<and> s_wait s r = None \<and>
       r \<notin> set (c_bg_queue (s_c s))} \<and>
    c_num_background (s_c s) = length (c_bg_queue (s_c s)) + c_active_background (s_c s) \<and>
    c_active_background (s_c s) \<le> c_max_background (s_c s) \<and>
    (c_bg_queue (s_c s) \<noteq> [] \<longrightarrow> c_active_background (s_c s) = c_max_background (s_c s)) \<and>
    (fuse_block_alloc (s_c s) True \<longleftrightarrow> \<not> c_initialized (s_c s) \<or> c_max_background (s_c s) \<le> c_num_background (s_c s))"
proof -
  have inv: "sys_inv s" by (rule reach_inv[OF assms])
  have "{r. active s r} = {r. \<exists>q. reqs (s_c s) r = Some q \<and> FR_BACKGROUND \<in> r_flags q \<and> s_wait s r = None \<and> r \<notin> set (c_bg_queue (s_c s))}"
    by (auto simp: active_def inv_lists[OF inv] flags_of_def split: option.splits)
  then show ?thesis using inv by (auto simp: sys_inv_def bg_ok_def bg_counts_def bg_limits_def fuse_block_alloc_def)
qed

text \<open>Claim C2 (abort_ends_requests). Aborting a connection ends every request that is queued, held back or waiting for a reply:
  \<open>fuse_abort_conn\<close> and its \<open>end_requests\<close> run through, leave all queues empty, and each of these requests is finished
  or gone afterwards.\<close>

theorem abort_ends_requests:
  assumes "sys_reach hash s" and "\<And>u. hash u FUSE_PQ_HASH_BITS < FUSE_PQ_HASH_SIZE" and "c_connected (s_c s)"
    and "ids_left s (length (c_bg_queue (s_c s)))"
    and "\<And>d h. d \<notin> set (c_devices (s_c s)) \<Longrightarrow> pq_processing (c_pq (s_c s) d) h = []"
  shows "\<exists>c c'. fuse_abort_conn (s_c s) = Done c \<and> end_requests (c_to_end c) c = Done c' \<and>
    iq_pending c' = [] \<and> c_bg_queue c' = [] \<and> c_to_end c' = [] \<and> (\<forall>d h. pq_processing (c_pq c' d) h = []) \<and>
    (\<forall>r q. r \<in> set (iq_pending (s_c s)) \<or> r \<in> set (c_bg_queue (s_c s)) \<or> (\<exists>d h. r \<in> set (pq_processing (c_pq (s_c s) d) h)) \<longrightarrow>
       reqs c' r = Some q \<longrightarrow> FR_FINISHED \<in> r_flags q)"
proof -
  have inv: "sys_inv s" by (rule reach_inv[OF assms(1,2)])
  obtain s1 where s1: "fuse_abort_conn (s_c s) = Done (s_c s1)" "sys_inv s1" "c_bg_queue (s_c s1) = []" "iq_pending (s_c s1) = []"
    and l: "\<And>r. s_loc s r = Some In_bg \<or> s_loc s r = Some In_pending \<or> (\<exists>d. s_loc s r = Some (In_processing d)) \<Longrightarrow> s_loc s1 r = Some In_to_end"
    and p: "\<And>r d. s_loc s1 r \<noteq> Some (In_processing d)"
    using fuse_abort_conn_inv[OF inv assms(3,4,5)] by metis
  obtain s2 :: sys where s2: "end_requests (c_to_end (s_c s1)) (s_c s1) = Done (s_c s2)" "c_bg_queue (s_c s2) = []"
    "iq_pending (s_c s2) = iq_pending (s_c s1)" "c_pq (s_c s2) = c_pq (s_c s1)" "c_to_end (s_c s2) = []"
    "\<forall>x\<in>set (c_to_end (s_c s1)). \<forall>q. reqs (s_c s2) x = Some q \<longrightarrow> FR_FINISHED \<in> r_flags q"
    using end_requests_inv[OF s1(2,3) refl] by blast
  have "pq_processing (c_pq (s_c s1) d) h = []" for d h
    using inv_lists(5)[OF s1(2), of _ d h] p by (cases "pq_processing (c_pq (s_c s1) d) h") auto
  moreover have "r \<in> set (c_to_end (s_c s1))" if "r \<in> set (iq_pending (s_c s)) \<or> r \<in> set (c_bg_queue (s_c s)) \<or>
      (\<exists>d h. r \<in> set (pq_processing (c_pq (s_c s) d) h))" for r
    using that l[of r] inv_lists(3)[OF s1(2), of r] by (auto simp: inv_lists[OF inv])
  then have "\<forall>r q. r \<in> set (iq_pending (s_c s)) \<or> r \<in> set (c_bg_queue (s_c s)) \<or> (\<exists>d h. r \<in> set (pq_processing (c_pq (s_c s) d) h)) \<longrightarrow>
       reqs (s_c s2) r = Some q \<longrightarrow> FR_FINISHED \<in> r_flags q" using s2(6) by blast
  ultimately have "fuse_abort_conn (s_c s) = Done (s_c s1) \<and> end_requests (c_to_end (s_c s1)) (s_c s1) = Done (s_c s2) \<and>
    iq_pending (s_c s2) = [] \<and> c_bg_queue (s_c s2) = [] \<and> c_to_end (s_c s2) = [] \<and> (\<forall>d h. pq_processing (c_pq (s_c s2) d) h = []) \<and>
    (\<forall>r q. r \<in> set (iq_pending (s_c s)) \<or> r \<in> set (c_bg_queue (s_c s)) \<or> (\<exists>d h. r \<in> set (pq_processing (c_pq (s_c s) d) h)) \<longrightarrow>
       reqs (s_c s2) r = Some q \<longrightarrow> FR_FINISHED \<in> r_flags q)" using s1 s2 by simp
  then show ?thesis by (rule exI[of _ "s_c s1", OF exI[of _ "s_c s2"]])
qed

subsection \<open>A run\<close>

text \<open>A concrete run: a request with a reply is allocated, sent, taken by a reader of device 0 and handed over.\<close>

definition hash0 :: "64 word \<Rightarrow> nat \<Rightarrow> nat" where
  "hash0 u bits = unat u mod 256"

definition the_sys :: "sys outcome \<Rightarrow> sys" where
  "the_sys out = (case out of Done s \<Rightarrow> s | Aborted \<Rightarrow> sys_start (new_conn hash0 0))"

lemma hash0_bound: "hash0 u FUSE_PQ_HASH_BITS < FUSE_PQ_HASH_SIZE"
  by (simp add: hash0_def FUSE_PQ_HASH_SIZE_def)

lemma run_step:
  assumes "sys_reach hash0 s" and "sys_step s out"
  shows "sys_reach hash0 (the_sys out)"
proof -
  obtain s' where "out = Done s'" using sys_step_inv[OF assms(2) reach_inv[OF assms(1) hash0_bound]] by blast
  then show ?thesis using assms sys_reach.step by (auto simp: the_sys_def)
qed

definition run1 :: sys where "run1 = the_sys (step_force 1 False (sys_start (new_conn hash0 0)))"
definition run2 :: sys where "run2 = the_sys (step_args 1 no_args True run1)"
definition run3 :: sys where "run3 = the_sys (step_send 1 run2)"
definition run4 :: sys where "run4 = the_sys (step_take 0 run3)"
definition run5 :: sys where "run5 = the_sys (step_io 0 4096 1 run4)"
definition run6 :: sys where "run6 = the_sys (step_read_finish 0 0 1 run5)"

lemmas run_defs = the_sys_def sys_start_def new_conn_def step_force_def step_args_def step_send_def step_take_def step_io_def step_read_finish_def
  step_background_def flushed_def fuse_request_alloc_def fuse_request_init_def no_args_def fuse_args_to_req_def kdefs Let_def
  fuse_request_send_def assign_unique_def fuse_get_unique_def queue_request_and_unlock_def fuse_len_args_def FUSE_REQ_ID_STEP_def IN_HEADER_SIZE_def
  fuse_dev_do_read_take_def request_pending_def forget_pending_def fuse_dev_do_read_io_def fuse_dev_do_read_finish_def fuse_req_hash_def
  hash0_def empty_pqueue_def FUSE_INT_REQ_BIT_def fuse_request_queue_background_def flush_bg_queue_def ids_left_def u32_add_def

lemma run1_reach: "sys_reach hash0 run1"
  unfolding run1_def by (rule run_step[OF sys_reach.start], rule sys_step.force) (simp add: sys_start_def new_conn_def)

lemma run2_reach: "sys_reach hash0 run2"
  unfolding run2_def by (rule run_step[OF run1_reach], rule sys_step.args) (simp add: run1_def run_defs)

lemma run3_reach: "sys_reach hash0 run3"
  unfolding run3_def by (rule run_step[OF run2_reach], rule sys_step.send) (simp_all add: run1_def run2_def run_defs)

lemma run4_reach: "sys_reach hash0 run4"
  unfolding run4_def by (rule run_step[OF run3_reach]) (rule sys_step.take)

lemma run5_reach: "sys_reach hash0 run5"
  unfolding run5_def by (rule run_step[OF run4_reach], rule sys_step.io) (simp add: run1_def run2_def run3_def run4_def run_defs)

lemma run6_reach: "sys_reach hash0 run6"
  unfolding run6_def by (rule run_step[OF run5_reach], rule sys_step.read_finish) (simp add: run1_def run2_def run3_def run4_def run5_def run_defs)

text \<open>The request waits for its reply, with three references: the sender's, the one of the processing queue and the reader's.\<close>

lemma run6_eq:
  "reqs (s_c run6) = [1 \<mapsto> \<lparr>r_args = no_args, r_count = 3, r_flags = {FR_SENT, FR_ISREPLY, FR_FORCE, FR_WAITING}, in_len = 40, in_opcode = 0,
     in_unique = 2, in_nodeid = 0, in_uid = 0, in_gid = 0, in_pid = 0, out_error = 0\<rparr>]"
  "s_loc run6 = [1 \<mapsto> In_processing 0]" "s_wait run6 = [1 \<mapsto> Waiting]"
  "pq_processing (c_pq (s_c run6) 0) = (\<lambda>_. [])(2 := [1])"
  "c_bg_queue (s_c run6) = []" "c_num_background (s_c run6) = 0" "iq_reqctr (s_c run6) = 2" "c_devices (s_c run6) = [0]" "c_connected (s_c run6)"
  "iq_pending (s_c run6) = []"
  by (simp_all add: run1_def run2_def run3_def run4_def run5_def run6_def run_defs insert_Diff_if numeral_3_eq_3)

lemma run6_other: "d \<noteq> 0 \<Longrightarrow> c_pq (s_c run6) d = empty_pqueue"
  by (simp add: run1_def run2_def run3_def run4_def run5_def run6_def run_defs)


theorem request_references_witness: "\<exists>q. reqs (s_c run6) 1 = Some q \<and> r_count q = 3 \<and> FR_PENDING \<notin> r_flags q \<and>
    tokens (s_loc run6 1) (s_ae run6 1) (s_wait run6 1) (s_sent run6 1) = 3"
  using request_references[OF run6_reach hash0_bound, of 1] by (simp add: run6_eq)

theorem reply_finds_request_witness: "request_find 0 2 (s_c run6) = Some 1"
  unfolding reply_finds_request[OF run6_reach hash0_bound]
  by (intro exI[of _ 2] exI[of _ "the (reqs (s_c run6) 1)"]) (simp add: run6_eq)

theorem background_throttling_witness:
  "c_active_background (s_c run6) = 0 \<and> \<not> c_max_background (s_c run6) \<le> 0 \<and> fuse_block_alloc (s_c run6) True"
proof -
  have "c_active_background (s_c run6) = 0" "\<not> c_initialized (s_c run6)" "c_max_background (s_c run6) = 12"
    by (simp_all add: run1_def run2_def run3_def run4_def run5_def run6_def run_defs)
  then show ?thesis using background_throttling[OF run6_reach hash0_bound] by simp
qed

theorem abort_ends_requests_witness:
  "\<exists>c c'. fuse_abort_conn (s_c run6) = Done c \<and> end_requests (c_to_end c) c = Done c' \<and> pq_processing (c_pq c' 0) 2 = [] \<and>
    (\<forall>q. reqs c' 1 = Some q \<longrightarrow> FR_FINISHED \<in> r_flags q)"
proof -
  have "pq_processing (c_pq (s_c run6) d) h = []" if "d \<notin> set (c_devices (s_c run6))" for d h
    using that by (simp add: run6_eq run6_other empty_pqueue_def)
  moreover have "ids_left run6 (length (c_bg_queue (s_c run6)))" by (simp add: run6_eq ids_left_def)
  moreover have "1 \<in> set (pq_processing (c_pq (s_c run6) 0) 2)" by (simp add: run6_eq)
  ultimately show ?thesis using abort_ends_requests[OF run6_reach hash0_bound run6_eq(9)] by blast
qed

end
