(* ===== verification/Spec2Isabelle.thy ===== *)
theory Spec2Isabelle
  imports Fuse_Session Fuse_Lookup Fuse_Reply Fuse_Path Fuse_Opt Fuse_Locks Fuse_Slab Kern_Readdir Kern_Copy Kern_Abort
begin

text \<open>
  \<^bold>\<open>The program.\<close> The repository is a fork of FUSE that lets a daemon splice a reply to the kernel and take header and footer bytes
  out of it on the way. It has a kernel module (\<open>src/fuse_module/fuse_module\<close>) and the user-space library
  (\<open>src/fuse_module/libfuse/lib\<close>). An application's system call becomes a request of the kernel module, which queues it on the connection
  (\<open>dev.c\<close>); a thread of the daemon reads it from the device, the library translates it into calls of the file system, with paths
  that it builds from its own tree of nodes (\<open>fuse.c\<close>), and the reply goes back through the device, copied or spliced as
  buffers (\<open>buffer.c\<close>, the copy engine of \<open>dev.c\<close>).

  \<^bold>\<open>Theories.\<close> Each theory models one component, with its state as records, one definition per function of the source (or per
  lock section of a function where other threads can run in between), and the lemmas about it. Functions keep their C names.

  \<^item> \<open>Fuse_Prelude\<close>: bytes and flat memory, C integers with wrap-around, little-endian integers, errno values, and the type
    \<open>outcome\<close>, whose value \<open>Aborted\<close> is a failed assert, an access to freed memory or out of bounds.
  \<^item> \<open>Fuse_Buffer\<close> (\<open>buffer.c\<close>): buffer vectors of memory and file descriptors and the copy engine between them. The system calls
    are a parameter (record \<open>os\<close>). Shown: copies move exactly the bytes of the stream, end for every behaviour of the calls, and
    how \<open>fuse_buf_size\<close> wraps around.
  \<^item> \<open>Fuse_Node_Table\<close>, \<open>Fuse_Nodes\<close> (\<open>fuse.c\<close>): the two hash tables with linear hashing, and the tree of nodes with reference and lookup
    counts. Shown: the table invariant through growing and shrinking; the invariant of the tree over all reachable states
    (\<open>inductive\<close> steps); what lookup, forget, rename, exchange and remove do.
  \<^item> \<open>Fuse_Path\<close> (\<open>fuse.c\<close>): building a path from a node and the tree locks. Shown: the string, that unlocking restores the state,
    termination, and mutual exclusion under any interleaving.
  \<^item> \<open>Fuse_Slab\<close> (\<open>fuse.c\<close>): the page allocator of nodes. The locale \<open>block_allocator\<close> is its interface.
  \<^item> \<open>Fuse_Locks\<close> (\<open>fuse.c\<close>): byte-range locks as a sorted list, refining the assignment of lock types to bytes.
  \<^item> \<open>Fuse_Opt\<close> (\<open>fuse_opt.c\<close>): the option parser with failing allocations. Shown: safety, round trip of escaping and
    splitting, the normal form of a parsed command line.
  \<^item> \<open>Fuse_Dirent\<close> (\<open>fuse_lowlevel.c\<close>, \<open>fuse.c\<close>) and \<open>Kern_Readdir\<close> (\<open>readdir.c\<close>): directory entries from the file system to the caller
    of \<open>getdents\<close>. The locale \<open>dir_server\<close> is the interface between kernel and daemon; it is interpreted twice, for file systems
    with and without offsets. Shown: the listing is complete and in order, with and without the kernel's page cache, and the
    parser is safe for arbitrary bytes.
  \<^item> \<open>Kern_Requests\<close>, \<open>Kern_System\<close>, \<open>Kern_Abort\<close> (\<open>dev.c\<close>, with \<open>fuse_conn_init\<close> of \<open>inode.c\<close>): requests on a heap with reference counts and flags, the input queue,
    forgets, interrupts, background throttling, reading and answering on the device, abort and release. \<open>Kern_System\<close> has the invariant and a
    lemma per step, \<open>Kern_Abort\<close> the step relation \<open>sys_step\<close> and what holds in every reachable state.
  \<^item> \<open>Kern_Copy\<close> (\<open>dev.c\<close>): the copy engine between request and device, page moving, splice in both directions, and
    \<open>fuse_split_payload\<close>, the code that extracts header and footer. Shown: which bytes end up where, safety under aborts, and
    what the extraction does wrong.

  \<^item> \<open>Fuse_Session\<close> (\<open>fuse_lowlevel.c\<close>, \<open>fuse_loop_mt.c\<close>): the requests of the library from receipt to reply, with their reference counts, the lists of
    running requests and of waiting interrupts, interrupt delivery with and without a callback, and the channels of cloned devices. Shown: no
    interleaving of workers uses or frees a request wrongly, and each interrupt reaches its request or is answered.
  \<^item> \<open>Fuse_Reply\<close> (\<open>fuse_lowlevel.c\<close>): \<open>fuse_reply_data\<close> with the pipe of the thread, splicing, the fallbacks to reading and writing, and the
    section replies of this fork. The kernel's pipe calls are the record \<open>ros\<close>. Shown: at most one message is sent, its length is in its header, and its payload is
    that of the buffers; the pipe is empty again or given up.
  \<^item> \<open>Fuse_Init\<close> (\<open>do_init\<close> of \<open>fuse_lowlevel.c\<close>; \<open>fuse_send_init\<close> and \<open>process_init_reply\<close> of \<open>inode.c\<close>): the first exchange on a connection. Shown: both
    sides agree on the features, and when the request buffer of the library suits the kernel.
  \<^item> \<open>Kern_Inode\<close> (\<open>inode.c\<close>, \<open>dir.c\<close>): the kernel's inodes: attributes with versions, the inode of a node id, what becomes of a reply that carries an
    entry, and eviction. The inode cache of the VFS is the record \<open>vfs\<close>. Shown: replies to older requests never overwrite newer attributes, and the loop
    of \<open>fuse_iget\<close> ends.
  \<^item> \<open>Fuse_Lookup\<close>: kernel and library together, with replies and forgets under way (\<open>lookup_step\<close>). The locale \<open>counting_server\<close> is what the kernel relies on;
    it is interpreted for the node tree of the library. Shown: the lookup counts of both sides balance, so no node is freed that the kernel refers to
    and no forget exceeds the count; the only lookups lost are those of rejected entries and of forgets whose copy fails.

  \<^bold>\<open>Bounds and loops.\<close> Loops are structural recursion, \<open>function\<close> with a measure, or \<open>partial_function (option)\<close> where
  \<open>None\<close> is a loop that does not end; the claims then state that the result is \<open>Some\<close>. There is no fuel. Request ids are
  64 bits wide and count up by two: the step relation has a bound on the ids given out, since the kernel relies on the counter
  not wrapping around. The counters of background requests are 32 bits wide, with a limit of \<open>2 ^ 32 - 1\<close>. The hash of a request id is a
  parameter below the number of buckets. Pages have 4096 bytes. Memory addresses are natural numbers. Positions in a directory are
  64-bit words; a directory has fewer than \<open>2 ^ 63\<close> entries. A node is looked up fewer than \<open>2 ^ 64\<close> times, and the balance of lookups is shown for a
  library without the option \<open>remember\<close>, under which the library itself holds a lookup of each node.

  \<^bold>\<open>Parameters.\<close> System calls, allocation results, the file system, \<open>sscanf\<close>, the hash functions, the page cache, inode cache and pipe operations of the
  Linux kernel, the callback \<open>init\<close>, and the actor of \<open>dir_emit\<close> are arguments of the definitions; what the code relies on is a named hypothesis, with a
  witness that it can hold.

  \<^bold>\<open>Not modelled.\<close> In \<open>dev.c\<close>: notifications, polling (\<open>end_polls\<close>), fasync and the ioctl dispatch. In \<open>control.c\<close>: writing
  \<open>max_background\<close>, so the limit is constant in the step relation. The \<open>READDIRPLUS\<close> variants. The rest of the kernel module
  (\<open>file.c\<close>, the rest of \<open>dir.c\<close> and \<open>inode.c\<close>, \<open>xattr.c\<close>, \<open>acl.c\<close>, \<open>ioctl.c\<close>, \<open>dax.c\<close>, \<open>virtio_fs.c\<close>, \<open>cuse.c\<close>) is mostly glue to the
  Linux VFS and drivers, whose code is not in the repository. Of the library: in \<open>fuse_lowlevel.c\<close> the handlers that decode one message and call one
  operation, the other replies, notifications and receiving into a pipe; in \<open>fuse.c\<close> the operations that call the file system with a path; mounting,
  signal handling, the session loops, CUSE and the stacking modules. The example file systems, tests and scripts.
\<close>

end
